(* ===== verification/Evfs_Base.thy ===== *)
theory Evfs_Base
  imports Main "HOL-Library.Word" "HOL-Library.State_Monad"
begin

unbundle bit_operations_syntax

text \<open>
  Prelude of the development: the machine integers of the C sources, the kernel's error
  numbers, the state monad in which the handlers are written with its weakest-precondition
  calculus (collection \<open>wp\<close>), and the generic facts on words, lists and bits that the
  components share (collections \<open>word_split\<close> and \<open>bits\<close>).
\<close>

section \<open>Machine integers\<close>

type_synonym u8 = "8 word"
type_synonym u16 = "16 word"
type_synonym u32 = "32 word"
type_synonym u64 = "64 word"

text \<open>
  The kernel is built for a 64-bit little-endian machine: \<open>unsigned long\<close>, \<open>size_t\<close> and
  \<open>ino_t\<close> are 64 bits wide, and the conversions \<open>le16_to_cpu\<close>, \<open>cpu_to_le32\<close>, \<dots> are the
  identity.
\<close>

section \<open>Error numbers\<close>

abbreviation (input) ENOENT :: int where "ENOENT \<equiv> 2"
abbreviation (input) EIO :: int where "EIO \<equiv> 5"
abbreviation (input) EAGAIN :: int where "EAGAIN \<equiv> 11"
abbreviation (input) ENOMEM :: int where "ENOMEM \<equiv> 12"
abbreviation (input) EFAULT :: int where "EFAULT \<equiv> 14"
abbreviation (input) EBUSY :: int where "EBUSY \<equiv> 16"
abbreviation (input) EEXIST :: int where "EEXIST \<equiv> 17"
abbreviation (input) ENOTDIR :: int where "ENOTDIR \<equiv> 20"
abbreviation (input) EINVAL :: int where "EINVAL \<equiv> 22"
abbreviation (input) ENOTTY :: int where "ENOTTY \<equiv> 25"
abbreviation (input) ENOSPC :: int where "ENOSPC \<equiv> 28"
abbreviation (input) EUCLEAN :: int where "EUCLEAN \<equiv> 117"
abbreviation (input) EBADMSG :: int where "EBADMSG \<equiv> 74"
abbreviation (input) EDQUOT :: int where "EDQUOT \<equiv> 122"

section \<open>The state monad and its weakest preconditions\<close>

text \<open>
  A handler is a value of \<open>('s, 'a) state\<close>. \<open>wp m Q s\<close> says that running \<open>m\<close> from \<open>s\<close> ends
  in a result and a state that satisfy \<open>Q\<close>; the rules of the collection \<open>wp\<close> compute it
  structurally, so that a property of a handler becomes one first-order goal over its branches.
\<close>

named_theorems wp

abbreviation ret :: "'a \<Rightarrow> ('s, 'a) state" where
  "ret \<equiv> State_Monad.return"

definition gets :: "('s \<Rightarrow> 'a) \<Rightarrow> ('s, 'a) state" where
  "gets f = State (\<lambda>s. (f s, s))"

definition modify :: "('s \<Rightarrow> 's) \<Rightarrow> ('s, unit) state" where
  "modify f = State (\<lambda>s. ((), f s))"

definition wp :: "('s, 'a) state \<Rightarrow> ('a \<Rightarrow> 's \<Rightarrow> bool) \<Rightarrow> 's \<Rightarrow> bool" where
  "wp m Q s = (case run_state m s of (r, s') \<Rightarrow> Q r s')"

lemma run_state_gets [simp]: "run_state (gets f) s = (f s, s)"
  by (simp add: gets_def)

lemma run_state_modify [simp]: "run_state (modify f) s = ((), f s)"
  by (simp add: modify_def)

lemma run_state_bind_eq:
  "run_state (State_Monad.bind m f) s = (case run_state m s of (x, s') \<Rightarrow> run_state (f x) s')"
  by (simp add: State_Monad.bind_def)

lemma run_state_if [simp]:
  "run_state (if b then m else n) s = (if b then run_state m s else run_state n s)"
  by simp

lemma wp_ret [wp, simp]: "wp (ret x) Q s = Q x s"
  by (simp add: wp_def)

lemma wp_gets [wp, simp]: "wp (gets f) Q s = Q (f s) s"
  by (simp add: wp_def)

lemma wp_modify [wp, simp]: "wp (modify f) Q s = Q () (f s)"
  by (simp add: wp_def)

lemma wp_bind [wp, simp]: "wp (State_Monad.bind m f) Q s = wp m (\<lambda>x. wp (f x) Q) s"
  by (simp add: wp_def run_state_bind_eq split: prod.splits)

lemma wp_if [wp, simp]: "wp (if b then m else n) Q s = (if b then wp m Q s else wp n Q s)"
  by simp

lemma wp_case_option [wp, simp]:
  "wp (case x of None \<Rightarrow> m | Some y \<Rightarrow> f y) Q s =
     (case x of None \<Rightarrow> wp m Q s | Some y \<Rightarrow> wp (f y) Q s)"
  by (cases x) simp_all

lemma wp_case_prod [wp, simp]:
  "wp (case x of (a, b) \<Rightarrow> f a b) Q s = (case x of (a, b) \<Rightarrow> wp (f a b) Q s)"
  by (cases x) simp

text \<open>The same rules where the state is not an argument yet.\<close>

lemma wp_fun:
  "wp (ret x) Q = Q x" "wp (State_Monad.bind m f) Q = wp m (\<lambda>x. wp (f x) Q)"
  "wp (if b then m else n) Q = (if b then wp m Q else wp n Q)"
  by (simp_all add: fun_eq_iff)

lemma wp_mono: "wp m Q s \<Longrightarrow> (\<And>r s'. Q r s' \<Longrightarrow> R r s') \<Longrightarrow> wp m R s"
  by (auto simp: wp_def split: prod.splits)

lemma wp_conj: "wp m (\<lambda>r s'. Q r s' \<and> R r s') s \<longleftrightarrow> wp m Q s \<and> wp m R s"
  by (auto simp: wp_def split: prod.splits)

lemma wpI: "Q (fst (run_state m s)) (snd (run_state m s)) \<Longrightarrow> wp m Q s"
  by (simp add: wp_def case_prod_beta)

lemma wpD: "wp m Q s \<Longrightarrow> run_state m s = (r, s') \<Longrightarrow> Q r s'"
  by (simp add: wp_def)

lemma wp_run: "wp m (\<lambda>r s'. run_state m s = (r, s')) s"
  by (simp add: wp_def split: prod.splits)

section \<open>Handlers that stay in a relation\<close>

text \<open>
  \<open>stays R m\<close> says that every run of \<open>m\<close> leads from a state to one that is related to it. For a reflexive and
  transitive relation this is checked statement by statement: the rules are the lemmas of the locale,
  and each interpretation adds its own to the collection \<open>stays_intros\<close>. \<open>keeps f\<close> is the relation of the states that
  agree on \<open>f\<close>.
\<close>

named_theorems stays_intros

definition stays :: "('s \<Rightarrow> 's \<Rightarrow> bool) \<Rightarrow> ('s, 'a) state \<Rightarrow> bool" where
  "stays R m = (\<forall>s. wp m (\<lambda>_ s'. R s s') s)"

lemma stays_rule: "stays R m \<Longrightarrow> (\<And>r s'. R s s' \<Longrightarrow> Q r s') \<Longrightarrow> wp m Q s"
  unfolding stays_def by (drule spec [of _ s], erule wp_mono) blast

lemma staysD: "stays R m \<Longrightarrow> run_state m s = (r, s') \<Longrightarrow> R s s'"
  unfolding stays_def using wpD by metis

locale step_closed =
  fixes R :: "'s \<Rightarrow> 's \<Rightarrow> bool"
  assumes refl: "R s s" and trans: "R s t \<Longrightarrow> R t u \<Longrightarrow> R s u"
begin

lemma stays_ret [stays_intros]: "stays R (ret x)"
  by (simp add: stays_def refl)

lemma stays_gets [stays_intros]: "stays R (gets f)"
  by (simp add: stays_def refl)

lemma stays_modify [stays_intros]: "(\<And>s. R s (g s)) \<Longrightarrow> stays R (modify g)"
  by (simp add: stays_def)

lemma stays_bind [stays_intros]:
  assumes "stays R m" "\<And>x. stays R (f x)"
  shows "stays R (State_Monad.bind m f)"
  unfolding stays_def
proof
  fix s
  show "wp (State_Monad.bind m f) (\<lambda>_ s'. R s s') s"
    by (simp, rule stays_rule [OF assms(1)], rule stays_rule [OF assms(2)]) (blast intro: trans)
qed

lemma stays_if [stays_intros]: "stays R m \<Longrightarrow> stays R n \<Longrightarrow> stays R (if b then m else n)"
  by simp

lemma stays_option [stays_intros]:
  "stays R m \<Longrightarrow> (\<And>x. stays R (h x)) \<Longrightarrow> stays R (case y of None \<Rightarrow> m | Some x \<Rightarrow> h x)"
  by (cases y) simp_all

lemma stays_prod [stays_intros]: "(\<And>a b. stays R (h a b)) \<Longrightarrow> stays R (case z of (a, b) \<Rightarrow> h a b)"
  by (cases z) simp

end

definition keeps :: "('s \<Rightarrow> 'b) \<Rightarrow> 's \<Rightarrow> 's \<Rightarrow> bool" where
  "keeps f s s' = (f s' = f s)"

interpretation keeping: step_closed "keeps f" for f
  by unfold_locales (simp_all add: keeps_def)

section \<open>Words split into a low and a high half\<close>

text \<open>
  ext4 stores a wide on-disk counter as a low and a high field. The two halves of a word
  determine it.
\<close>

named_theorems word_split

lemma u16_of_u32_narrow [word_split]:
  "(ucast (ucast (w :: u32) :: u16) :: u32) = take_bit 16 w"
  by (rule bit_word_eqI) (auto simp: bit_simps)

lemma u32_of_u64_narrow [word_split]:
  "(ucast (ucast (w :: u64) :: u32) :: u64) = take_bit 32 w"
  by (rule bit_word_eqI) (auto simp: bit_simps)

lemma u32_halves [word_split]:
  "take_bit 16 w OR push_bit 16 (take_bit 16 (drop_bit 16 w)) = (w :: u32)"
  by (rule bit_word_eqI) (auto simp: bit_simps)

lemma u64_halves [word_split]:
  "take_bit 32 w OR push_bit 32 (take_bit 32 (drop_bit 32 w)) = (w :: u64)"
  by (rule bit_word_eqI) (auto simp: bit_simps)

lemma unat_take_bit: "unat (take_bit n (w :: 'a::len word)) = unat w mod 2 ^ n"
  by (metis take_bit_eq_mod unsigned_take_bit_eq)

lemma unat_u16_bound: "unat (ucast (w :: u16) :: u32) < 65536"
  using unsigned_less [of w, where 'a = nat] by (simp add: unsigned_ucast_eq le_less_trans [OF take_bit_nat_less_eq_self])

lemma unat_u32_bound: "unat (ucast (w :: u32) :: u64) < 4294967296"
  using unsigned_less [of w, where 'a = nat] by (simp add: unsigned_ucast_eq le_less_trans [OF take_bit_nat_less_eq_self])

lemma unat_minus_1: "unat (- 1 :: 'a::len word) = 2 ^ LENGTH('a) - 1"
  by (simp add: unsigned_minus_1_eq_mask mask_eq_exp_minus_1)

section \<open>Little-endian byte strings\<close>

definition le16 :: "u16 \<Rightarrow> u8 list" where
  "le16 w = [ucast w, ucast (drop_bit 8 w)]"

definition le32 :: "u32 \<Rightarrow> u8 list" where
  "le32 w = [ucast w, ucast (drop_bit 8 w), ucast (drop_bit 16 w), ucast (drop_bit 24 w)]"

definition get_le16 :: "u8 list \<Rightarrow> u16" where
  "get_le16 bs = ucast (bs ! 0) OR push_bit 8 (ucast (bs ! 1))"

definition get_le32 :: "u8 list \<Rightarrow> u32" where
  "get_le32 bs = ucast (bs ! 0) OR push_bit 8 (ucast (bs ! 1)) OR
     push_bit 16 (ucast (bs ! 2)) OR push_bit 24 (ucast (bs ! 3))"

lemma length_le16 [simp]: "length (le16 w) = 2"
  by (simp add: le16_def)

lemma length_le32 [simp]: "length (le32 w) = 4"
  by (simp add: le32_def)

lemma get_le16_le16 [simp]: "get_le16 (le16 w @ bs) = w"
  by (rule bit_word_eqI) (auto simp: get_le16_def le16_def bit_simps)

lemma get_le32_le32 [simp]: "get_le32 (le32 w @ bs) = w"
proof (rule bit_word_eqI)
  fix n :: nat
  assume "n < LENGTH(32)"
  then show "bit (get_le32 (le32 w @ bs)) n = bit w n"
    by (cases "n < 8"; cases "n < 16"; cases "n < 24")
      (simp_all add: get_le32_def le32_def bit_simps, auto)
qed

section \<open>Binary search\<close>

text \<open>
  The loop that the sources use to find the last key that is not above \<open>x\<close>: \<open>p\<close> and \<open>q\<close> delimit the
  keys not looked at, here with \<open>r = q + 1\<close>, and the answer is the entry before \<open>p\<close> at the end.
\<close>

function bin_upper :: "(nat \<Rightarrow> 'k::linorder) \<Rightarrow> 'k \<Rightarrow> nat \<Rightarrow> nat \<Rightarrow> nat" where
  "bin_upper key x p r =
     (if p < r then
        (let m = p + (r - 1 - p) div 2
         in if x < key m then bin_upper key x p m else bin_upper key x (m + 1) r)
      else p)"
  by pat_completeness auto

termination
  by (relation "measure (\<lambda>(key, x, p, r). r - p)") auto

declare bin_upper.simps [simp del]

lemma bin_upper_bounds:
  assumes "p \<le> r"
  shows "p \<le> bin_upper key x p r" "bin_upper key x p r \<le> r"
  using assms
proof (induction key x p r rule: bin_upper.induct)
  case (1 key x p r)
  { case 1 then show ?case using "1.IH" by (subst bin_upper.simps) (fastforce simp: Let_def) }
  { case 2 then show ?case using "1.IH" by (subst bin_upper.simps) (fastforce simp: Let_def) }
qed

lemma bin_upper_split:
  assumes "p \<le> r" "lo < p \<Longrightarrow> key (p - 1) \<le> x" "r < n \<Longrightarrow> x < key r"
  shows "(lo < bin_upper key x p r \<longrightarrow> key (bin_upper key x p r - 1) \<le> x) \<and>
    (bin_upper key x p r < n \<longrightarrow> x < key (bin_upper key x p r))"
  using assms
proof (induction key x p r rule: bin_upper.induct)
  case (1 key x p r)
  show ?case
  proof (cases "p < r")
    case True
    define m where "m = p + (r - 1 - p) div 2"
    have m: "p \<le> m" "m < r" using True by (auto simp: m_def)
    show ?thesis
    proof (cases "x < key m")
      case lt: True
      then have "bin_upper key x p r = bin_upper key x p m"
        using True bin_upper.simps [of key x p r] by (simp add: Let_def m_def)
      then show ?thesis using "1.IH"(1) [OF True m_def lt] m "1.prems" lt by simp
    next
      case False
      then have "bin_upper key x p r = bin_upper key x (m + 1) r"
        using True bin_upper.simps [of key x p r] by (simp add: Let_def m_def)
      then show ?thesis using "1.IH"(2) [OF True m_def False] m "1.prems" False by simp
    qed
  next
    case False
    then have "bin_upper key x p r = p" using bin_upper.simps [of key x p r] by simp
    then show ?thesis using "1.prems" False by auto
  qed
qed

text \<open>On sorted keys the answer separates the keys below from those above.\<close>

lemma bin_upper_sorted:
  assumes "p \<le> r" "\<And>i j. p \<le> i \<Longrightarrow> i \<le> j \<Longrightarrow> j < r \<Longrightarrow> key i \<le> key j"
  shows "p \<le> i \<Longrightarrow> i < r \<Longrightarrow> key i \<le> x \<longleftrightarrow> i < bin_upper key x p r"
proof -
  assume i: "p \<le> i" "i < r"
  let ?k = "bin_upper key x p r"
  have b: "p \<le> ?k" "?k \<le> r" using assms(1) by (rule bin_upper_bounds)+
  have s: "p < ?k \<Longrightarrow> key (?k - 1) \<le> x" "?k < r \<Longrightarrow> x < key ?k"
    using bin_upper_split [OF assms(1), of p key x r] by simp_all
  show "key i \<le> x \<longleftrightarrow> i < ?k"
  proof (cases "i < ?k")
    case True
    then have "key i \<le> key (?k - 1)" using assms(2) [of i "?k - 1"] i b by simp
    then show ?thesis using s(1) True i by auto
  next
    case False
    then have "key ?k \<le> key i" using assms(2) [of ?k i] i b by simp
    then show ?thesis using s(2) False i b by auto
  qed
qed

end
