(* ===== verification/Ext4_Sb.thy ===== *)
theory Ext4_Sb
  imports Evfs_Base
begin

unbundle bit_operations_syntax

text \<open>
  The superblock and group-descriptor layer of ext4: the structures of \<open>fs/ext4/ext4.h\<close>
  (\<open>ext4_super_block\<close>, \<open>ext4_sb_info\<close>, \<open>ext4_group_desc\<close>), the feature tests and the
  64-bit counters of the same header, and the accessors and checksum routines of
  \<open>fs/ext4/super.c\<close>. A structure is modelled with the fields that the modelled code reads or
  writes. The fields of the on-disk superblock carry the prefix \<open>es_\<close>, the name of the
  pointer the code reads them through, since \<open>ext4_sb_info\<close> has fields of the same names.
\<close>

section \<open>Structures\<close>

type_synonym ext4_grpblk_t = int
type_synonym ext4_fsblk_t = u64
type_synonym ext4_lblk_t = u32
type_synonym ext4_group_t = u32

record ext4_group_desc =
  bg_block_bitmap_lo :: u32
  bg_inode_bitmap_lo :: u32
  bg_inode_table_lo :: u32
  bg_free_blocks_count_lo :: u16
  bg_free_inodes_count_lo :: u16
  bg_used_dirs_count_lo :: u16
  bg_flags :: u16
  bg_exclude_bitmap_lo :: u32
  bg_block_bitmap_csum_lo :: u16
  bg_inode_bitmap_csum_lo :: u16
  bg_itable_unused_lo :: u16
  bg_checksum :: u16
  bg_block_bitmap_hi :: u32
  bg_inode_bitmap_hi :: u32
  bg_inode_table_hi :: u32
  bg_free_blocks_count_hi :: u16
  bg_free_inodes_count_hi :: u16
  bg_used_dirs_count_hi :: u16
  bg_itable_unused_hi :: u16
  bg_exclude_bitmap_hi :: u32
  bg_block_bitmap_csum_hi :: u16
  bg_inode_bitmap_csum_hi :: u16
  bg_reserved :: u32

record ext4_super_block =
  es_inodes_count :: u32
  es_blocks_count_lo :: u32
  es_r_blocks_count_lo :: u32
  es_free_blocks_count_lo :: u32
  es_free_inodes_count :: u32
  es_first_data_block :: u32
  es_log_block_size :: u32
  es_log_cluster_size :: u32
  es_blocks_per_group :: u32
  es_clusters_per_group :: u32
  es_inodes_per_group :: u32
  es_state :: u16
  es_creator_os :: u32
  es_rev_level :: u32
  es_first_ino :: u32
  es_inode_size :: u16
  es_feature_compat :: u32
  es_feature_incompat :: u32
  es_feature_ro_compat :: u32
  es_uuid :: "u8 list"
  es_reserved_gdt_blocks :: u16
  es_desc_size :: u16
  es_first_meta_bg :: u32
  es_blocks_count_hi :: u32
  es_r_blocks_count_hi :: u32
  es_free_blocks_count_hi :: u32
  es_raid_stride :: u16
  es_raid_stripe_width :: u32
  es_checksum_type :: u8
  es_encryption_level :: u8
  es_checksum :: u32

record ext4_sb_info =
  s_desc_size :: u64
  s_inodes_per_block :: u64
  s_blocks_per_group :: u64
  s_clusters_per_group :: u64
  s_inodes_per_group :: u64
  s_itb_per_group :: u64
  s_desc_per_block :: u64
  s_groups_count :: u32
  s_blockfile_groups :: u32
  s_cluster_ratio :: u32
  s_cluster_bits :: u32
  s_es :: ext4_super_block
  s_mount_opt2 :: u32
  s_resv_clusters :: u64
  s_inode_size :: u32
  s_first_ino :: u32
  s_freeclusters_counter :: int
  s_freeinodes_counter :: int
  s_stripe :: u64
  s_csum_seed :: u32
  s_chksum_driver :: bool
  s_log_groups_per_flex :: u32
  s_bitmap_maxbytes :: int
  s_mount_state :: u16
  s_addr_per_block_bits :: nat
  s_desc_per_block_bits :: nat
  s_gdb_count :: u64

text \<open>Of the VFS superblock, the fields that ext4 and eVFS use.\<close>

record super_block =
  s_blocksize :: u64
  s_blocksize_bits :: nat
  s_maxbytes :: int
  sb_rdonly :: bool
  s_dev :: u32
  s_fs_info :: ext4_sb_info

definition EXT4_SB :: "super_block \<Rightarrow> ext4_sb_info" where
  "EXT4_SB sb = s_fs_info sb"

abbreviation SB_ES :: "super_block \<Rightarrow> ext4_super_block" where
  "SB_ES sb \<equiv> s_es (EXT4_SB sb)"

definition upd_es :: "(ext4_super_block \<Rightarrow> ext4_super_block) \<Rightarrow> super_block \<Rightarrow> super_block" where
  "upd_es f sb = sb\<lparr>s_fs_info := (s_fs_info sb)\<lparr>s_es := f (s_es (s_fs_info sb))\<rparr>\<rparr>"

lemma SB_ES_upd_es [simp]: "SB_ES (upd_es f sb) = f (SB_ES sb)"
  by (simp add: EXT4_SB_def upd_es_def)

lemma EXT4_SB_upd_es [simp]: "EXT4_SB (upd_es f sb) = (EXT4_SB sb)\<lparr>s_es := f (SB_ES sb)\<rparr>"
  by (simp add: EXT4_SB_def upd_es_def)

section \<open>Features\<close>

named_theorems flags

definition EXT4_FEATURE_COMPAT_HAS_JOURNAL :: u32 where [flags]: "EXT4_FEATURE_COMPAT_HAS_JOURNAL = 0x0004"
definition EXT4_FEATURE_COMPAT_EXT_ATTR :: u32 where [flags]: "EXT4_FEATURE_COMPAT_EXT_ATTR = 0x0008"
definition EXT4_FEATURE_COMPAT_DIR_INDEX :: u32 where [flags]: "EXT4_FEATURE_COMPAT_DIR_INDEX = 0x0020"
definition EXT4_FEATURE_COMPAT_ORPHAN_FILE :: u32 where [flags]: "EXT4_FEATURE_COMPAT_ORPHAN_FILE = 0x1000"

definition EXT4_FEATURE_RO_COMPAT_SPARSE_SUPER :: u32 where [flags]: "EXT4_FEATURE_RO_COMPAT_SPARSE_SUPER = 0x0001"
definition EXT4_FEATURE_RO_COMPAT_LARGE_FILE :: u32 where [flags]: "EXT4_FEATURE_RO_COMPAT_LARGE_FILE = 0x0002"
definition EXT4_FEATURE_RO_COMPAT_BTREE_DIR :: u32 where [flags]: "EXT4_FEATURE_RO_COMPAT_BTREE_DIR = 0x0004"
definition EXT4_FEATURE_RO_COMPAT_HUGE_FILE :: u32 where [flags]: "EXT4_FEATURE_RO_COMPAT_HUGE_FILE = 0x0008"
definition EXT4_FEATURE_RO_COMPAT_GDT_CSUM :: u32 where [flags]: "EXT4_FEATURE_RO_COMPAT_GDT_CSUM = 0x0010"
definition EXT4_FEATURE_RO_COMPAT_DIR_NLINK :: u32 where [flags]: "EXT4_FEATURE_RO_COMPAT_DIR_NLINK = 0x0020"
definition EXT4_FEATURE_RO_COMPAT_EXTRA_ISIZE :: u32 where [flags]: "EXT4_FEATURE_RO_COMPAT_EXTRA_ISIZE = 0x0040"
definition EXT4_FEATURE_RO_COMPAT_QUOTA :: u32 where [flags]: "EXT4_FEATURE_RO_COMPAT_QUOTA = 0x0100"
definition EXT4_FEATURE_RO_COMPAT_BIGALLOC :: u32 where [flags]: "EXT4_FEATURE_RO_COMPAT_BIGALLOC = 0x0200"
definition EXT4_FEATURE_RO_COMPAT_METADATA_CSUM :: u32 where [flags]: "EXT4_FEATURE_RO_COMPAT_METADATA_CSUM = 0x0400"
definition EXT4_FEATURE_RO_COMPAT_READONLY :: u32 where [flags]: "EXT4_FEATURE_RO_COMPAT_READONLY = 0x1000"
definition EXT4_FEATURE_RO_COMPAT_PROJECT :: u32 where [flags]: "EXT4_FEATURE_RO_COMPAT_PROJECT = 0x2000"
definition EXT4_FEATURE_RO_COMPAT_VERITY :: u32 where [flags]: "EXT4_FEATURE_RO_COMPAT_VERITY = 0x8000"
definition EXT4_FEATURE_RO_COMPAT_ORPHAN_PRESENT :: u32 where [flags]: "EXT4_FEATURE_RO_COMPAT_ORPHAN_PRESENT = 0x10000"

definition EXT4_FEATURE_INCOMPAT_FILETYPE :: u32 where [flags]: "EXT4_FEATURE_INCOMPAT_FILETYPE = 0x0002"
definition EXT4_FEATURE_INCOMPAT_RECOVER :: u32 where [flags]: "EXT4_FEATURE_INCOMPAT_RECOVER = 0x0004"
definition EXT4_FEATURE_INCOMPAT_META_BG :: u32 where [flags]: "EXT4_FEATURE_INCOMPAT_META_BG = 0x0010"
definition EXT4_FEATURE_INCOMPAT_EXTENTS :: u32 where [flags]: "EXT4_FEATURE_INCOMPAT_EXTENTS = 0x0040"
definition EXT4_FEATURE_INCOMPAT_64BIT :: u32 where [flags]: "EXT4_FEATURE_INCOMPAT_64BIT = 0x0080"
definition EXT4_FEATURE_INCOMPAT_MMP :: u32 where [flags]: "EXT4_FEATURE_INCOMPAT_MMP = 0x0100"
definition EXT4_FEATURE_INCOMPAT_FLEX_BG :: u32 where [flags]: "EXT4_FEATURE_INCOMPAT_FLEX_BG = 0x0200"
definition EXT4_FEATURE_INCOMPAT_EA_INODE :: u32 where [flags]: "EXT4_FEATURE_INCOMPAT_EA_INODE = 0x0400"
definition EXT4_FEATURE_INCOMPAT_CSUM_SEED :: u32 where [flags]: "EXT4_FEATURE_INCOMPAT_CSUM_SEED = 0x2000"
definition EXT4_FEATURE_INCOMPAT_LARGEDIR :: u32 where [flags]: "EXT4_FEATURE_INCOMPAT_LARGEDIR = 0x4000"
definition EXT4_FEATURE_INCOMPAT_INLINE_DATA :: u32 where [flags]: "EXT4_FEATURE_INCOMPAT_INLINE_DATA = 0x8000"
definition EXT4_FEATURE_INCOMPAT_ENCRYPT :: u32 where [flags]: "EXT4_FEATURE_INCOMPAT_ENCRYPT = 0x10000"
definition EXT4_FEATURE_INCOMPAT_CASEFOLD :: u32 where [flags]: "EXT4_FEATURE_INCOMPAT_CASEFOLD = 0x20000"

text \<open>The three macros that generate the feature functions, each with its test, set and clear.\<close>

definition ext4_has_feature_compat :: "u32 \<Rightarrow> super_block \<Rightarrow> bool" where
  "ext4_has_feature_compat flag sb = (es_feature_compat (SB_ES sb) AND flag \<noteq> 0)"

definition ext4_has_feature_ro_compat :: "u32 \<Rightarrow> super_block \<Rightarrow> bool" where
  "ext4_has_feature_ro_compat flag sb = (es_feature_ro_compat (SB_ES sb) AND flag \<noteq> 0)"

definition ext4_has_feature_incompat :: "u32 \<Rightarrow> super_block \<Rightarrow> bool" where
  "ext4_has_feature_incompat flag sb = (es_feature_incompat (SB_ES sb) AND flag \<noteq> 0)"

definition EXT4_GOOD_OLD_REV :: u32 where [flags]: "EXT4_GOOD_OLD_REV = 0"
definition EXT4_DYNAMIC_REV :: u32 where [flags]: "EXT4_DYNAMIC_REV = 1"
definition EXT4_GOOD_OLD_FIRST_INO :: u32 where [flags]: "EXT4_GOOD_OLD_FIRST_INO = 11"
definition EXT4_GOOD_OLD_INODE_SIZE :: u16 where [flags]: "EXT4_GOOD_OLD_INODE_SIZE = 128"

text \<open>\<open>super.c\<close>: a revision-0 superblock is upgraded before a feature flag is set on it.\<close>

definition ext4_update_dynamic_rev :: "super_block \<Rightarrow> super_block" where
  "ext4_update_dynamic_rev sb =
     (if es_rev_level (SB_ES sb) > EXT4_GOOD_OLD_REV then sb
      else upd_es (\<lambda>es. es\<lparr>es_first_ino := EXT4_GOOD_OLD_FIRST_INO,
                           es_inode_size := EXT4_GOOD_OLD_INODE_SIZE,
                           es_rev_level := EXT4_DYNAMIC_REV\<rparr>) sb)"

definition ext4_set_feature_compat :: "u32 \<Rightarrow> super_block \<Rightarrow> super_block" where
  "ext4_set_feature_compat flag sb =
     upd_es (\<lambda>es. es\<lparr>es_feature_compat := es_feature_compat es OR flag\<rparr>)
       (ext4_update_dynamic_rev sb)"

definition ext4_clear_feature_compat :: "u32 \<Rightarrow> super_block \<Rightarrow> super_block" where
  "ext4_clear_feature_compat flag sb =
     upd_es (\<lambda>es. es\<lparr>es_feature_compat := es_feature_compat es AND NOT flag\<rparr>) sb"

definition ext4_set_feature_ro_compat :: "u32 \<Rightarrow> super_block \<Rightarrow> super_block" where
  "ext4_set_feature_ro_compat flag sb =
     upd_es (\<lambda>es. es\<lparr>es_feature_ro_compat := es_feature_ro_compat es OR flag\<rparr>)
       (ext4_update_dynamic_rev sb)"

definition ext4_clear_feature_ro_compat :: "u32 \<Rightarrow> super_block \<Rightarrow> super_block" where
  "ext4_clear_feature_ro_compat flag sb =
     upd_es (\<lambda>es. es\<lparr>es_feature_ro_compat := es_feature_ro_compat es AND NOT flag\<rparr>) sb"

definition ext4_set_feature_incompat :: "u32 \<Rightarrow> super_block \<Rightarrow> super_block" where
  "ext4_set_feature_incompat flag sb =
     upd_es (\<lambda>es. es\<lparr>es_feature_incompat := es_feature_incompat es OR flag\<rparr>)
       (ext4_update_dynamic_rev sb)"

definition ext4_clear_feature_incompat :: "u32 \<Rightarrow> super_block \<Rightarrow> super_block" where
  "ext4_clear_feature_incompat flag sb =
     upd_es (\<lambda>es. es\<lparr>es_feature_incompat := es_feature_incompat es AND NOT flag\<rparr>) sb"

text \<open>The generated tests that the modelled code calls.\<close>

definition ext4_has_feature_journal :: "super_block \<Rightarrow> bool" where
  "ext4_has_feature_journal = ext4_has_feature_compat EXT4_FEATURE_COMPAT_HAS_JOURNAL"
definition ext4_has_feature_dir_index :: "super_block \<Rightarrow> bool" where
  "ext4_has_feature_dir_index = ext4_has_feature_compat EXT4_FEATURE_COMPAT_DIR_INDEX"
definition ext4_has_feature_huge_file :: "super_block \<Rightarrow> bool" where
  "ext4_has_feature_huge_file = ext4_has_feature_ro_compat EXT4_FEATURE_RO_COMPAT_HUGE_FILE"
definition ext4_has_feature_gdt_csum :: "super_block \<Rightarrow> bool" where
  "ext4_has_feature_gdt_csum = ext4_has_feature_ro_compat EXT4_FEATURE_RO_COMPAT_GDT_CSUM"
definition ext4_has_feature_dir_nlink :: "super_block \<Rightarrow> bool" where
  "ext4_has_feature_dir_nlink = ext4_has_feature_ro_compat EXT4_FEATURE_RO_COMPAT_DIR_NLINK"
definition ext4_has_feature_quota :: "super_block \<Rightarrow> bool" where
  "ext4_has_feature_quota = ext4_has_feature_ro_compat EXT4_FEATURE_RO_COMPAT_QUOTA"
definition ext4_has_feature_bigalloc :: "super_block \<Rightarrow> bool" where
  "ext4_has_feature_bigalloc = ext4_has_feature_ro_compat EXT4_FEATURE_RO_COMPAT_BIGALLOC"
definition ext4_has_feature_metadata_csum :: "super_block \<Rightarrow> bool" where
  "ext4_has_feature_metadata_csum = ext4_has_feature_ro_compat EXT4_FEATURE_RO_COMPAT_METADATA_CSUM"
definition ext4_has_feature_readonly :: "super_block \<Rightarrow> bool" where
  "ext4_has_feature_readonly = ext4_has_feature_ro_compat EXT4_FEATURE_RO_COMPAT_READONLY"
definition ext4_has_feature_project :: "super_block \<Rightarrow> bool" where
  "ext4_has_feature_project = ext4_has_feature_ro_compat EXT4_FEATURE_RO_COMPAT_PROJECT"
definition ext4_has_feature_filetype :: "super_block \<Rightarrow> bool" where
  "ext4_has_feature_filetype = ext4_has_feature_incompat EXT4_FEATURE_INCOMPAT_FILETYPE"
definition ext4_has_feature_meta_bg :: "super_block \<Rightarrow> bool" where
  "ext4_has_feature_meta_bg = ext4_has_feature_incompat EXT4_FEATURE_INCOMPAT_META_BG"
definition ext4_has_feature_extents :: "super_block \<Rightarrow> bool" where
  "ext4_has_feature_extents = ext4_has_feature_incompat EXT4_FEATURE_INCOMPAT_EXTENTS"
definition ext4_has_feature_64bit :: "super_block \<Rightarrow> bool" where
  "ext4_has_feature_64bit = ext4_has_feature_incompat EXT4_FEATURE_INCOMPAT_64BIT"
definition ext4_has_feature_flex_bg :: "super_block \<Rightarrow> bool" where
  "ext4_has_feature_flex_bg = ext4_has_feature_incompat EXT4_FEATURE_INCOMPAT_FLEX_BG"
definition ext4_has_feature_largedir :: "super_block \<Rightarrow> bool" where
  "ext4_has_feature_largedir = ext4_has_feature_incompat EXT4_FEATURE_INCOMPAT_LARGEDIR"
definition ext4_has_feature_casefold :: "super_block \<Rightarrow> bool" where
  "ext4_has_feature_casefold = ext4_has_feature_incompat EXT4_FEATURE_INCOMPAT_CASEFOLD"

lemmas has_feature_defs =
  ext4_has_feature_journal_def ext4_has_feature_dir_index_def ext4_has_feature_huge_file_def
  ext4_has_feature_gdt_csum_def ext4_has_feature_dir_nlink_def ext4_has_feature_quota_def
  ext4_has_feature_bigalloc_def ext4_has_feature_metadata_csum_def ext4_has_feature_readonly_def
  ext4_has_feature_project_def ext4_has_feature_filetype_def ext4_has_feature_meta_bg_def
  ext4_has_feature_extents_def ext4_has_feature_64bit_def ext4_has_feature_flex_bg_def
  ext4_has_feature_largedir_def ext4_has_feature_casefold_def
  ext4_has_feature_compat_def ext4_has_feature_ro_compat_def ext4_has_feature_incompat_def

definition EXT4_FEATURE_INCOMPAT_SUPP :: u32 where
  "EXT4_FEATURE_INCOMPAT_SUPP =
     EXT4_FEATURE_INCOMPAT_FILETYPE OR EXT4_FEATURE_INCOMPAT_RECOVER OR
     EXT4_FEATURE_INCOMPAT_META_BG OR EXT4_FEATURE_INCOMPAT_EXTENTS OR
     EXT4_FEATURE_INCOMPAT_64BIT OR EXT4_FEATURE_INCOMPAT_FLEX_BG OR
     EXT4_FEATURE_INCOMPAT_EA_INODE OR EXT4_FEATURE_INCOMPAT_MMP OR
     EXT4_FEATURE_INCOMPAT_INLINE_DATA OR EXT4_FEATURE_INCOMPAT_ENCRYPT OR
     EXT4_FEATURE_INCOMPAT_CASEFOLD OR EXT4_FEATURE_INCOMPAT_CSUM_SEED OR
     EXT4_FEATURE_INCOMPAT_LARGEDIR"

definition EXT4_FEATURE_RO_COMPAT_SUPP :: u32 where
  "EXT4_FEATURE_RO_COMPAT_SUPP =
     EXT4_FEATURE_RO_COMPAT_SPARSE_SUPER OR EXT4_FEATURE_RO_COMPAT_LARGE_FILE OR
     EXT4_FEATURE_RO_COMPAT_GDT_CSUM OR EXT4_FEATURE_RO_COMPAT_DIR_NLINK OR
     EXT4_FEATURE_RO_COMPAT_EXTRA_ISIZE OR EXT4_FEATURE_RO_COMPAT_BTREE_DIR OR
     EXT4_FEATURE_RO_COMPAT_HUGE_FILE OR EXT4_FEATURE_RO_COMPAT_BIGALLOC OR
     EXT4_FEATURE_RO_COMPAT_METADATA_CSUM OR EXT4_FEATURE_RO_COMPAT_QUOTA OR
     EXT4_FEATURE_RO_COMPAT_PROJECT OR EXT4_FEATURE_RO_COMPAT_VERITY OR
     EXT4_FEATURE_RO_COMPAT_ORPHAN_PRESENT"

definition ext4_has_unknown_ext4_incompat_features :: "super_block \<Rightarrow> bool" where
  "ext4_has_unknown_ext4_incompat_features sb =
     (es_feature_incompat (SB_ES sb) AND NOT EXT4_FEATURE_INCOMPAT_SUPP \<noteq> 0)"

definition ext4_has_unknown_ext4_ro_compat_features :: "super_block \<Rightarrow> bool" where
  "ext4_has_unknown_ext4_ro_compat_features sb =
     (es_feature_ro_compat (SB_ES sb) AND NOT EXT4_FEATURE_RO_COMPAT_SUPP \<noteq> 0)"

definition ext4_has_metadata_csum :: "super_block \<Rightarrow> bool" where
  "ext4_has_metadata_csum sb = (ext4_has_feature_metadata_csum sb \<and> s_chksum_driver (EXT4_SB sb))"

definition ext4_has_group_desc_csum :: "super_block \<Rightarrow> bool" where
  "ext4_has_group_desc_csum sb = (ext4_has_feature_gdt_csum sb \<or> ext4_has_metadata_csum sb)"

text \<open>
  \<open>ext4_feature_set_ok\<close> decides whether the file system can be mounted as requested. It
  returns the answer and the superblock, which it makes read-only when the READONLY feature
  is set. The two build options it depends on are parameters.
\<close>

definition ext4_feature_set_ok :: "bool \<Rightarrow> bool \<Rightarrow> super_block \<Rightarrow> bool \<Rightarrow> bool \<times> super_block" where
  "ext4_feature_set_ok CONFIG_UNICODE CONFIG_QUOTA sb readonly =
     (if ext4_has_unknown_ext4_incompat_features sb then (False, sb)
      else if \<not> CONFIG_UNICODE \<and> ext4_has_feature_casefold sb then (False, sb)
      else if readonly then (True, sb)
      else if ext4_has_feature_readonly sb then (True, sb\<lparr>sb_rdonly := True\<rparr>)
      else if ext4_has_unknown_ext4_ro_compat_features sb then (False, sb)
      else if ext4_has_feature_bigalloc sb \<and> \<not> ext4_has_feature_extents sb then (False, sb)
      else if \<not> CONFIG_QUOTA \<and> (ext4_has_feature_quota sb \<or> ext4_has_feature_project sb)
        then (False, sb)
      else (True, sb))"

end
