(* ===== verification/Ext4_Gdesc.thy ===== *)
theory Ext4_Gdesc
  imports Ext4_Sb
begin

unbundle bit_operations_syntax

text \<open>
  The counters that ext4 stores as a low and a high field: the accessors of the group
  descriptor in \<open>super.c\<close>, the 64-bit superblock counts of \<open>ext4.h\<close>, the superblock time
  stamps, and the checksums of the superblock and of the group descriptors. The contract of a
  split counter is the locale \<open>split_counter\<close>; it is interpreted on each of the accessor pairs
  and gives the facts about incrementing and decrementing them that the allocators use.
\<close>

section \<open>Cluster arithmetic\<close>

definition EXT4_B2C :: "ext4_sb_info \<Rightarrow> u64 \<Rightarrow> u64" where
  "EXT4_B2C sbi blk = drop_bit (unat (s_cluster_bits sbi)) blk"

definition EXT4_C2B :: "ext4_sb_info \<Rightarrow> u32 \<Rightarrow> u32" where
  "EXT4_C2B sbi cluster = push_bit (unat (s_cluster_bits sbi)) cluster"

definition EXT4_NUM_B2C :: "ext4_sb_info \<Rightarrow> u32 \<Rightarrow> u32" where
  "EXT4_NUM_B2C sbi blks = drop_bit (unat (s_cluster_bits sbi)) (blks + s_cluster_ratio sbi - 1)"

definition EXT4_PBLK_CMASK :: "ext4_sb_info \<Rightarrow> ext4_fsblk_t \<Rightarrow> ext4_fsblk_t" where
  "EXT4_PBLK_CMASK s pblk = pblk AND NOT (ucast (s_cluster_ratio s) - 1)"

definition EXT4_LBLK_CMASK :: "ext4_sb_info \<Rightarrow> ext4_lblk_t \<Rightarrow> ext4_lblk_t" where
  "EXT4_LBLK_CMASK s lblk = lblk AND NOT (s_cluster_ratio s - 1)"

definition EXT4_LBLK_COFF :: "ext4_sb_info \<Rightarrow> ext4_lblk_t \<Rightarrow> ext4_lblk_t" where
  "EXT4_LBLK_COFF s lblk = lblk AND (s_cluster_ratio s - 1)"

definition EXT4_PBLK_COFF :: "ext4_sb_info \<Rightarrow> ext4_fsblk_t \<Rightarrow> ext4_fsblk_t" where
  "EXT4_PBLK_COFF s pblk = pblk AND (ucast (s_cluster_ratio s) - 1)"

definition EXT4_LBLK_CFILL :: "ext4_sb_info \<Rightarrow> ext4_lblk_t \<Rightarrow> ext4_lblk_t" where
  "EXT4_LBLK_CFILL s lblk = lblk OR (s_cluster_ratio s - 1)"

lemma lblk_cmask_coff: "EXT4_LBLK_CMASK s b OR EXT4_LBLK_COFF s b = b"
  by (rule bit_word_eqI) (auto simp: EXT4_LBLK_CMASK_def EXT4_LBLK_COFF_def bit_simps)

lemma no_clusters_C2B [simp]: "s_cluster_bits sbi = 0 \<Longrightarrow> EXT4_C2B sbi c = c"
  by (simp add: EXT4_C2B_def)

lemma no_clusters_NUM_B2C [simp]:
  "s_cluster_bits sbi = 0 \<Longrightarrow> s_cluster_ratio sbi = 1 \<Longrightarrow> EXT4_NUM_B2C sbi b = b"
  by (simp add: EXT4_NUM_B2C_def)

section \<open>Group descriptor accessors\<close>

definition EXT4_DESC_SIZE :: "super_block \<Rightarrow> u64" where
  "EXT4_DESC_SIZE sb = s_desc_size (EXT4_SB sb)"

definition EXT4_MIN_DESC_SIZE_64BIT :: u64 where
  "EXT4_MIN_DESC_SIZE_64BIT = 64"

abbreviation wide_desc :: "super_block \<Rightarrow> bool" where
  "wide_desc sb \<equiv> EXT4_DESC_SIZE sb \<ge> EXT4_MIN_DESC_SIZE_64BIT"

definition ext4_block_bitmap :: "super_block \<Rightarrow> ext4_group_desc \<Rightarrow> ext4_fsblk_t" where
  "ext4_block_bitmap sb bg = ucast (bg_block_bitmap_lo bg) OR
     (if wide_desc sb then push_bit 32 (ucast (bg_block_bitmap_hi bg)) else 0)"

definition ext4_inode_bitmap :: "super_block \<Rightarrow> ext4_group_desc \<Rightarrow> ext4_fsblk_t" where
  "ext4_inode_bitmap sb bg = ucast (bg_inode_bitmap_lo bg) OR
     (if wide_desc sb then push_bit 32 (ucast (bg_inode_bitmap_hi bg)) else 0)"

definition ext4_inode_table :: "super_block \<Rightarrow> ext4_group_desc \<Rightarrow> ext4_fsblk_t" where
  "ext4_inode_table sb bg = ucast (bg_inode_table_lo bg) OR
     (if wide_desc sb then push_bit 32 (ucast (bg_inode_table_hi bg)) else 0)"

definition ext4_free_group_clusters :: "super_block \<Rightarrow> ext4_group_desc \<Rightarrow> u32" where
  "ext4_free_group_clusters sb bg = ucast (bg_free_blocks_count_lo bg) OR
     (if wide_desc sb then push_bit 16 (ucast (bg_free_blocks_count_hi bg)) else 0)"

definition ext4_free_inodes_count :: "super_block \<Rightarrow> ext4_group_desc \<Rightarrow> u32" where
  "ext4_free_inodes_count sb bg = ucast (bg_free_inodes_count_lo bg) OR
     (if wide_desc sb then push_bit 16 (ucast (bg_free_inodes_count_hi bg)) else 0)"

definition ext4_used_dirs_count :: "super_block \<Rightarrow> ext4_group_desc \<Rightarrow> u32" where
  "ext4_used_dirs_count sb bg = ucast (bg_used_dirs_count_lo bg) OR
     (if wide_desc sb then push_bit 16 (ucast (bg_used_dirs_count_hi bg)) else 0)"

definition ext4_itable_unused_count :: "super_block \<Rightarrow> ext4_group_desc \<Rightarrow> u32" where
  "ext4_itable_unused_count sb bg = ucast (bg_itable_unused_lo bg) OR
     (if wide_desc sb then push_bit 16 (ucast (bg_itable_unused_hi bg)) else 0)"

definition ext4_block_bitmap_set :: "super_block \<Rightarrow> ext4_group_desc \<Rightarrow> ext4_fsblk_t \<Rightarrow> ext4_group_desc" where
  "ext4_block_bitmap_set sb bg blk =
     (let bg = bg\<lparr>bg_block_bitmap_lo := ucast blk\<rparr>
      in if wide_desc sb then bg\<lparr>bg_block_bitmap_hi := ucast (drop_bit 32 blk)\<rparr> else bg)"

definition ext4_inode_bitmap_set :: "super_block \<Rightarrow> ext4_group_desc \<Rightarrow> ext4_fsblk_t \<Rightarrow> ext4_group_desc" where
  "ext4_inode_bitmap_set sb bg blk =
     (let bg = bg\<lparr>bg_inode_bitmap_lo := ucast blk\<rparr>
      in if wide_desc sb then bg\<lparr>bg_inode_bitmap_hi := ucast (drop_bit 32 blk)\<rparr> else bg)"

definition ext4_inode_table_set :: "super_block \<Rightarrow> ext4_group_desc \<Rightarrow> ext4_fsblk_t \<Rightarrow> ext4_group_desc" where
  "ext4_inode_table_set sb bg blk =
     (let bg = bg\<lparr>bg_inode_table_lo := ucast blk\<rparr>
      in if wide_desc sb then bg\<lparr>bg_inode_table_hi := ucast (drop_bit 32 blk)\<rparr> else bg)"

definition ext4_free_group_clusters_set :: "super_block \<Rightarrow> ext4_group_desc \<Rightarrow> u32 \<Rightarrow> ext4_group_desc" where
  "ext4_free_group_clusters_set sb bg count =
     (let bg = bg\<lparr>bg_free_blocks_count_lo := ucast count\<rparr>
      in if wide_desc sb then bg\<lparr>bg_free_blocks_count_hi := ucast (drop_bit 16 count)\<rparr> else bg)"

definition ext4_free_inodes_set :: "super_block \<Rightarrow> ext4_group_desc \<Rightarrow> u32 \<Rightarrow> ext4_group_desc" where
  "ext4_free_inodes_set sb bg count =
     (let bg = bg\<lparr>bg_free_inodes_count_lo := ucast count\<rparr>
      in if wide_desc sb then bg\<lparr>bg_free_inodes_count_hi := ucast (drop_bit 16 count)\<rparr> else bg)"

definition ext4_used_dirs_set :: "super_block \<Rightarrow> ext4_group_desc \<Rightarrow> u32 \<Rightarrow> ext4_group_desc" where
  "ext4_used_dirs_set sb bg count =
     (let bg = bg\<lparr>bg_used_dirs_count_lo := ucast count\<rparr>
      in if wide_desc sb then bg\<lparr>bg_used_dirs_count_hi := ucast (drop_bit 16 count)\<rparr> else bg)"

definition ext4_itable_unused_set :: "super_block \<Rightarrow> ext4_group_desc \<Rightarrow> u32 \<Rightarrow> ext4_group_desc" where
  "ext4_itable_unused_set sb bg count =
     (let bg = bg\<lparr>bg_itable_unused_lo := ucast count\<rparr>
      in if wide_desc sb then bg\<lparr>bg_itable_unused_hi := ucast (drop_bit 16 count)\<rparr> else bg)"

lemmas gdesc_get_defs =
  ext4_block_bitmap_def ext4_inode_bitmap_def ext4_inode_table_def
  ext4_free_group_clusters_def ext4_free_inodes_count_def ext4_used_dirs_count_def
  ext4_itable_unused_count_def

lemmas gdesc_set_defs =
  ext4_block_bitmap_set_def ext4_inode_bitmap_set_def ext4_inode_table_set_def
  ext4_free_group_clusters_set_def ext4_free_inodes_set_def ext4_used_dirs_set_def
  ext4_itable_unused_set_def

text \<open>
  The contract of a counter split over two fields of half its width: on a wide descriptor the
  value written is read back, on a narrow one its low half is, and a narrow counter never holds
  a value beyond its low half. The lemmas say what an increment and a decrement through the
  accessors do to the value read back.
\<close>

locale split_counter =
  fixes cget :: "super_block \<Rightarrow> ext4_group_desc \<Rightarrow> 'w::len word"
    and cset :: "super_block \<Rightarrow> ext4_group_desc \<Rightarrow> 'w word \<Rightarrow> ext4_group_desc"
    and half :: nat
  assumes get_set:
      "unat (cget sb (cset sb bg n)) = (if wide_desc sb then unat n else unat n mod 2 ^ half)"
    and get_narrow: "\<not> wide_desc sb \<Longrightarrow> unat (cget sb bg) < 2 ^ half"
    and set_set: "cset sb (cset sb bg m) n = cset sb bg n"
begin

lemma get_set_same: "cget sb (cset sb bg (cget sb bg)) = cget sb bg"
  by (rule word_unat_eq_iff [THEN iffD2]) (simp add: get_set get_narrow)

lemma get_set_fits:
  "wide_desc sb \<or> unat n < 2 ^ half \<Longrightarrow> cget sb (cset sb bg n) = n"
  by (rule word_unat_eq_iff [THEN iffD2]) (auto simp: get_set)

lemma dec: 
  assumes "0 < cget sb bg"
  shows "unat (cget sb (cset sb bg (cget sb bg - 1))) = unat (cget sb bg) - 1"
proof -
  have u: "unat (cget sb bg - 1) = unat (cget sb bg) - 1"
    using assms by (simp add: unat_sub word_le_nat_alt word_less_nat_alt)
  show ?thesis
    using get_narrow [of sb bg] by (auto simp: get_set u less_imp_diff_less)
qed

lemma dec_zero_wraps:
  assumes "cget sb bg = 0"
  shows "unat (cget sb (cset sb bg (cget sb bg - 1))) =
    (if wide_desc sb then 2 ^ LENGTH('w) - 1 else (2 ^ LENGTH('w) - 1) mod 2 ^ half)"
  using assms by (simp add: get_set unat_minus_1)

lemma inc:
  assumes "wide_desc sb \<Longrightarrow> unat (cget sb bg) + 1 < 2 ^ LENGTH('w)"
    and "\<not> wide_desc sb \<Longrightarrow> unat (cget sb bg) + 1 < 2 ^ half"
    and "half \<le> LENGTH('w)"
  shows "unat (cget sb (cset sb bg (cget sb bg + 1))) = unat (cget sb bg) + 1"
proof -
  have "(2 :: nat) ^ half \<le> 2 ^ LENGTH('w)"
    using assms(3) by simp
  then have "unat (cget sb bg) + 1 < 2 ^ LENGTH('w)"
    using assms(1,2) by (cases "wide_desc sb") (auto intro: less_le_trans)
  then have u: "unat (cget sb bg + 1) = unat (cget sb bg) + 1"
    by (simp add: unat_word_ariths)
  then show ?thesis
    using assms(2) by (auto simp: get_set)
qed

end

interpretation free_clusters: split_counter
  ext4_free_group_clusters ext4_free_group_clusters_set 16
  by unfold_locales
    (auto simp: ext4_free_group_clusters_def ext4_free_group_clusters_set_def Let_def
       word_split unat_take_bit unat_u16_bound)

interpretation free_inodes: split_counter ext4_free_inodes_count ext4_free_inodes_set 16
  by unfold_locales
    (auto simp: ext4_free_inodes_count_def ext4_free_inodes_set_def Let_def
       word_split unat_take_bit unat_u16_bound)

interpretation used_dirs: split_counter ext4_used_dirs_count ext4_used_dirs_set 16
  by unfold_locales
    (auto simp: ext4_used_dirs_count_def ext4_used_dirs_set_def Let_def
       word_split unat_take_bit unat_u16_bound)

interpretation itable_unused: split_counter ext4_itable_unused_count ext4_itable_unused_set 16
  by unfold_locales
    (auto simp: ext4_itable_unused_count_def ext4_itable_unused_set_def Let_def
       word_split unat_take_bit unat_u16_bound)

interpretation block_bitmap: split_counter ext4_block_bitmap ext4_block_bitmap_set 32
  by unfold_locales
    (auto simp: ext4_block_bitmap_def ext4_block_bitmap_set_def Let_def
       word_split unat_take_bit unat_u32_bound)

interpretation inode_bitmap: split_counter ext4_inode_bitmap ext4_inode_bitmap_set 32
  by unfold_locales
    (auto simp: ext4_inode_bitmap_def ext4_inode_bitmap_set_def Let_def
       word_split unat_take_bit unat_u32_bound)

interpretation inode_table: split_counter ext4_inode_table ext4_inode_table_set 32
  by unfold_locales
    (auto simp: ext4_inode_table_def ext4_inode_table_set_def Let_def
       word_split unat_take_bit unat_u32_bound)

section \<open>Superblock counts\<close>

definition ext4_read_incompat_64bit_val ::
    "ext4_super_block \<Rightarrow> (ext4_super_block \<Rightarrow> u32) \<Rightarrow> (ext4_super_block \<Rightarrow> u32) \<Rightarrow> ext4_fsblk_t" where
  "ext4_read_incompat_64bit_val es name_hi name_lo =
     (if es_feature_incompat es AND EXT4_FEATURE_INCOMPAT_64BIT \<noteq> 0
      then push_bit 32 (ucast (name_hi es)) else 0) OR ucast (name_lo es)"

definition ext4_blocks_count :: "ext4_super_block \<Rightarrow> ext4_fsblk_t" where
  "ext4_blocks_count es = ext4_read_incompat_64bit_val es es_blocks_count_hi es_blocks_count_lo"

definition ext4_r_blocks_count :: "ext4_super_block \<Rightarrow> ext4_fsblk_t" where
  "ext4_r_blocks_count es = ext4_read_incompat_64bit_val es es_r_blocks_count_hi es_r_blocks_count_lo"

definition ext4_free_blocks_count :: "ext4_super_block \<Rightarrow> ext4_fsblk_t" where
  "ext4_free_blocks_count es =
     ext4_read_incompat_64bit_val es es_free_blocks_count_hi es_free_blocks_count_lo"

definition ext4_blocks_count_set :: "ext4_super_block \<Rightarrow> ext4_fsblk_t \<Rightarrow> ext4_super_block" where
  "ext4_blocks_count_set es blk =
     es\<lparr>es_blocks_count_lo := ucast blk, es_blocks_count_hi := ucast (drop_bit 32 blk)\<rparr>"

definition ext4_free_blocks_count_set :: "ext4_super_block \<Rightarrow> ext4_fsblk_t \<Rightarrow> ext4_super_block" where
  "ext4_free_blocks_count_set es blk =
     es\<lparr>es_free_blocks_count_lo := ucast blk, es_free_blocks_count_hi := ucast (drop_bit 32 blk)\<rparr>"

definition ext4_r_blocks_count_set :: "ext4_super_block \<Rightarrow> ext4_fsblk_t \<Rightarrow> ext4_super_block" where
  "ext4_r_blocks_count_set es blk =
     es\<lparr>es_r_blocks_count_lo := ucast blk, es_r_blocks_count_hi := ucast (drop_bit 32 blk)\<rparr>"

abbreviation es_64bit :: "ext4_super_block \<Rightarrow> bool" where
  "es_64bit es \<equiv> es_feature_incompat es AND EXT4_FEATURE_INCOMPAT_64BIT \<noteq> 0"

lemma u64_halves' [word_split]:
  "push_bit 32 (take_bit 32 (drop_bit 32 w)) OR take_bit 32 w = (w :: u64)"
  using u64_halves [of w] by (simp add: or.commute)

lemma free_blocks_count_set_get:
  "ext4_free_blocks_count (ext4_free_blocks_count_set es n) =
     (if es_64bit es then n else take_bit 32 n)"
  by (simp add: ext4_free_blocks_count_def ext4_free_blocks_count_set_def
      ext4_read_incompat_64bit_val_def word_split)

lemma blocks_count_set_get:
  "ext4_blocks_count (ext4_blocks_count_set es n) = (if es_64bit es then n else take_bit 32 n)"
  by (simp add: ext4_blocks_count_def ext4_blocks_count_set_def
      ext4_read_incompat_64bit_val_def word_split)

lemma r_blocks_count_set_get:
  "ext4_r_blocks_count (ext4_r_blocks_count_set es n) = (if es_64bit es then n else take_bit 32 n)"
  by (simp add: ext4_r_blocks_count_def ext4_r_blocks_count_set_def
      ext4_read_incompat_64bit_val_def word_split)

lemma free_blocks_count_narrow:
  "\<not> es_64bit es \<Longrightarrow> unat (ext4_free_blocks_count es) < 2 ^ 32"
  by (simp add: ext4_free_blocks_count_def ext4_read_incompat_64bit_val_def unat_u32_bound)

lemma free_blocks_count_add:
  assumes "unat (ext4_free_blocks_count es + d) < (if es_64bit es then 2 ^ 64 else 2 ^ 32)"
  shows "ext4_free_blocks_count (ext4_free_blocks_count_set es (ext4_free_blocks_count es + d)) =
           ext4_free_blocks_count es + d"
  using assms
  by (intro word_unat_eq_iff [THEN iffD2])
    (auto simp: free_blocks_count_set_get unat_take_bit split: if_splits)

section \<open>Superblock time stamps\<close>

definition ext4_update_tstamp :: "int \<Rightarrow> u32 \<times> u8" where
  "ext4_update_tstamp now =
     (let now = max 0 (min now (2 ^ 40 - 1)) in (word_of_int now, word_of_int (now div 2 ^ 32)))"

definition ext4_get_tstamp :: "u32 \<Rightarrow> u8 \<Rightarrow> int" where
  "ext4_get_tstamp lo hi = uint hi * 2 ^ 32 + uint lo"

lemma tstamp_roundtrip:
  "(case ext4_update_tstamp now of (lo, hi) \<Rightarrow> ext4_get_tstamp lo hi) =
     max 0 (min now (2 ^ 40 - 1))"
proof -
  define t where "t = max 0 (min now (2 ^ 40 - 1))"
  have t: "0 \<le> t" "t < 2 ^ 40" by (auto simp: t_def)
  then have hi: "uint (word_of_int (t div 2 ^ 32) :: u8) = t div 2 ^ 32"
    by (simp add: uint_word_of_int)
  have "t div 2 ^ 32 * 2 ^ 32 + t mod 2 ^ 32 = t" by (rule div_mult_mod_eq)
  then show ?thesis
    by (simp add: ext4_update_tstamp_def ext4_get_tstamp_def Let_def t_def [symmetric] hi [simplified]
        uint_word_of_int)
qed

section \<open>Inode time stamps\<close>

record timespec64 =
  tv_sec :: int
  tv_nsec :: int

abbreviation (input) EXT4_EPOCH_BITS :: nat where "EXT4_EPOCH_BITS \<equiv> 2"
abbreviation (input) EXT4_EPOCH_MASK :: int where "EXT4_EPOCH_MASK \<equiv> 3"

definition ext4_encode_extra_time :: "timespec64 \<Rightarrow> u32" where
  "ext4_encode_extra_time ts =
     (let extra = drop_bit 32 (tv_sec ts - signed_take_bit 31 (tv_sec ts)) AND EXT4_EPOCH_MASK
      in word_of_int (extra OR push_bit EXT4_EPOCH_BITS (tv_nsec ts)))"

definition ext4_decode_extra_time :: "u32 \<Rightarrow> u32 \<Rightarrow> timespec64" where
  "ext4_decode_extra_time base extra =
     \<lparr>tv_sec = sint base +
        (if extra AND word_of_int EXT4_EPOCH_MASK \<noteq> 0
         then push_bit 32 (uint extra AND EXT4_EPOCH_MASK) else 0),
      tv_nsec = drop_bit EXT4_EPOCH_BITS (uint extra)\<rparr>"

text \<open>
  Storing a time in an inode: the seconds, and, where the inode has room for it, the extra word.
  Without that room the seconds go through \<open>clamp_t(int32_t, \<dots>)\<close>, which converts its argument to
  \<open>int32_t\<close> before it compares.
\<close>

definition EXT4_INODE_SET_XTIME_VAL :: "bool \<Rightarrow> timespec64 \<Rightarrow> u32 \<times> u32 option" where
  "EXT4_INODE_SET_XTIME_VAL fits ts =
     (if fits then (word_of_int (tv_sec ts), Some (ext4_encode_extra_time ts))
      else (word_of_int (max (- (2 ^ 31)) (min (signed_take_bit 31 (tv_sec ts)) (2 ^ 31 - 1))), None))"

definition EXT4_INODE_GET_XTIME_VAL :: "u32 \<Rightarrow> u32 option \<Rightarrow> timespec64" where
  "EXT4_INODE_GET_XTIME_VAL xtime xtime_extra =
     (case xtime_extra of
        Some extra \<Rightarrow> ext4_decode_extra_time xtime extra
      | None \<Rightarrow> \<lparr>tv_sec = sint xtime, tv_nsec = 0\<rparr>)"

lemma and_3: "(x :: int) AND 3 = x mod 4"
  using take_bit_eq_mask [of 2 x] by (simp add: take_bit_eq_mod mask_eq_exp_minus_1)

lemma epoch_split:
  fixes sec :: int
  assumes "- (2 ^ 31) \<le> sec" "sec < 2 ^ 34 - 2 ^ 31"
  defines "e \<equiv> (sec - signed_take_bit 31 sec) div 2 ^ 32"
  shows "sec = signed_take_bit 31 sec + e * 2 ^ 32" "0 \<le> e" "e < 4"
proof -
  have st: "signed_take_bit 31 sec = (sec + 2 ^ 31) mod 2 ^ 32 - 2 ^ 31"
    by (simp add: signed_take_bit_eq_take_bit_shift take_bit_eq_mod)
  have e: "e = (sec + 2 ^ 31) div 2 ^ 32"
    unfolding e_def st by (simp add: algebra_simps minus_mod_eq_mult_div)
  show "sec = signed_take_bit 31 sec + e * 2 ^ 32"
    using div_mult_mod_eq [of "sec + 2 ^ 31" "2 ^ 32"] unfolding e st by linarith
  show "0 \<le> e" "e < 4" using assms(1,2) by (auto simp: e)
qed

lemma low_bits_or: "0 \<le> e \<Longrightarrow> e < 4 \<Longrightarrow> e OR push_bit 2 n = e + 4 * (n :: int)"
proof -
  assume e: "0 \<le> e" "e < 4"
  then have "e = take_bit 2 e" by (simp add: take_bit_eq_mod)
  then have "e OR push_bit 2 n = e + push_bit 2 n"
    by (metis disjunctive_add bit_push_bit_iff bit_take_bit_iff not_le)
  then show ?thesis by (simp add: push_bit_eq_mult)
qed

text \<open>Result extra_time_roundtrip: a time stamp between 1901 and 2446 with a nanosecond part
  survives the on-disk encoding: decoding the 32-bit seconds word and the extra word that
  \<open>ext4_encode_extra_time\<close> computes gives back the time.\<close>

lemma extra_time_roundtrip:
  assumes "- (2 ^ 31) \<le> tv_sec ts" "tv_sec ts < 2 ^ 34 - 2 ^ 31"
    and "0 \<le> tv_nsec ts" "tv_nsec ts < 2 ^ 30"
  shows "ext4_decode_extra_time (word_of_int (tv_sec ts)) (ext4_encode_extra_time ts) = ts"
proof -
  define e where "e = (tv_sec ts - signed_take_bit 31 (tv_sec ts)) div 2 ^ 32"
  note es = epoch_split [OF assms(1,2), folded e_def]
  have e: "drop_bit 32 (tv_sec ts - signed_take_bit 31 (tv_sec ts)) AND 3 = e"
    using es(2,3) by (simp add: e_def drop_bit_eq_div and_3)
  have "uint (word_of_int (e + 4 * tv_nsec ts) :: u32) = e + 4 * tv_nsec ts"
    unfolding uint_word_of_int using es(2,3) assms(3,4) by simp
  then have x: "uint (ext4_encode_extra_time ts) = e + 4 * tv_nsec ts"
    unfolding ext4_encode_extra_time_def Let_def e low_bits_or [OF es(2,3)] .
  have "(ext4_encode_extra_time ts AND 3 = 0) = (e = 0)"
    using es(2,3) by (simp add: word_uint_eq_iff uint_and x and_3)
  then show ?thesis
    using es(1) es(2,3)
    by (auto simp: ext4_decode_extra_time_def x and_3 sint_sbintrunc' drop_bit_eq_div
        push_bit_eq_mult signed_of_int)
qed

theorem extra_time_roundtrip_witness:
  "ext4_decode_extra_time (word_of_int 5000000000)
     (ext4_encode_extra_time \<lparr>tv_sec = 5000000000, tv_nsec = 999999999\<rparr>) =
     \<lparr>tv_sec = 5000000000, tv_nsec = 999999999\<rparr>"
  using extra_time_roundtrip [of "\<lparr>tv_sec = 5000000000, tv_nsec = 999999999\<rparr>"] by simp

text \<open>Result xtime_no_room_wraps: in an inode without room for the extra word the stored time is the
  low 32 bits of the seconds: the clamp of \<open>EXT4_INODE_SET_XTIME_VAL\<close> has no effect, since
  \<open>clamp_t\<close> converts to 32 bits first, so the first second after 2038-01-19 reads back as a
  time in 1901 instead of the last representable second.\<close>

theorem xtime_no_room_wraps:
  "(\<forall>ts. tv_sec (case EXT4_INODE_SET_XTIME_VAL False ts of (x, e) \<Rightarrow> EXT4_INODE_GET_XTIME_VAL x e) =
       signed_take_bit 31 (tv_sec ts)) \<and>
   tv_sec (case EXT4_INODE_SET_XTIME_VAL False \<lparr>tv_sec = 2 ^ 31, tv_nsec = 0\<rparr> of
     (x, e) \<Rightarrow> EXT4_INODE_GET_XTIME_VAL x e) = - (2 ^ 31)"
proof -
  have r: "max (- 2147483648) (min (signed_take_bit 31 n) 2147483647) = signed_take_bit 31 (n :: int)" for n
    using signed_take_bit_int_less_exp [of 31 n] signed_take_bit_int_greater_eq_minus_exp [of 31 n]
    by simp
  show ?thesis
    by (simp add: EXT4_INODE_SET_XTIME_VAL_def EXT4_INODE_GET_XTIME_VAL_def r signed_of_int)
qed

section \<open>File sizes\<close>

definition ext4_isize :: "super_block \<Rightarrow> bool \<Rightarrow> u32 \<Rightarrow> u32 \<Rightarrow> int" where
  "ext4_isize sb is_reg i_size_high i_size_lo =
     (if ext4_has_feature_largedir sb \<or> is_reg
      then sint (push_bit 32 (ucast i_size_high) OR ucast i_size_lo :: u64)
      else uint i_size_lo)"

definition ext4_isize_set :: "int \<Rightarrow> u32 \<times> u32" where
  "ext4_isize_set i_size = (word_of_int (drop_bit 32 i_size), word_of_int i_size)"

section \<open>Checksums\<close>

text \<open>
  The checksum function itself (\<open>ext4_chksum\<close>, a call into the kernel's crypto API, and
  \<open>crc16\<close>) is a parameter. The superblock checksum covers the bytes before \<open>s_checksum\<close>: the
  parameter sees the structure with that field blanked.
\<close>

definition ext4_superblock_csum :: "(u32 \<Rightarrow> ext4_super_block \<Rightarrow> u32) \<Rightarrow> ext4_super_block \<Rightarrow> u32" where
  "ext4_superblock_csum chksum es = chksum (- 1) (es\<lparr>es_checksum := 0\<rparr>)"

definition ext4_superblock_csum_verify ::
    "(u32 \<Rightarrow> ext4_super_block \<Rightarrow> u32) \<Rightarrow> super_block \<Rightarrow> ext4_super_block \<Rightarrow> bool" where
  "ext4_superblock_csum_verify chksum sb es =
     (if \<not> ext4_has_metadata_csum sb then True
      else es_checksum es = ext4_superblock_csum chksum es)"

definition ext4_superblock_csum_set :: "(u32 \<Rightarrow> ext4_super_block \<Rightarrow> u32) \<Rightarrow> super_block \<Rightarrow> super_block" where
  "ext4_superblock_csum_set chksum sb =
     (if \<not> ext4_has_metadata_csum sb then sb
      else upd_es (\<lambda>es. es\<lparr>es_checksum := ext4_superblock_csum chksum es\<rparr>) sb)"

definition EXT4_CRC32C_CHKSUM :: u8 where "EXT4_CRC32C_CHKSUM = 1"

definition ext4_verify_csum_type :: "super_block \<Rightarrow> ext4_super_block \<Rightarrow> bool" where
  "ext4_verify_csum_type sb es =
     (if \<not> ext4_has_feature_metadata_csum sb then True
      else es_checksum_type es = EXT4_CRC32C_CHKSUM)"

text \<open>The 64 bytes of a group descriptor, in the order of the structure.\<close>

definition gdesc_bytes :: "ext4_group_desc \<Rightarrow> u8 list" where
  "gdesc_bytes g =
     le32 (bg_block_bitmap_lo g) @ le32 (bg_inode_bitmap_lo g) @ le32 (bg_inode_table_lo g) @
     le16 (bg_free_blocks_count_lo g) @ le16 (bg_free_inodes_count_lo g) @
     le16 (bg_used_dirs_count_lo g) @ le16 (bg_flags g) @ le32 (bg_exclude_bitmap_lo g) @
     le16 (bg_block_bitmap_csum_lo g) @ le16 (bg_inode_bitmap_csum_lo g) @
     le16 (bg_itable_unused_lo g) @ le16 (bg_checksum g) @
     le32 (bg_block_bitmap_hi g) @ le32 (bg_inode_bitmap_hi g) @ le32 (bg_inode_table_hi g) @
     le16 (bg_free_blocks_count_hi g) @ le16 (bg_free_inodes_count_hi g) @
     le16 (bg_used_dirs_count_hi g) @ le16 (bg_itable_unused_hi g) @ le32 (bg_exclude_bitmap_hi g) @
     le16 (bg_block_bitmap_csum_hi g) @ le16 (bg_inode_bitmap_csum_hi g) @ le32 (bg_reserved g)"

definition ext4_group_desc_csum ::
    "(u32 \<Rightarrow> u8 list \<Rightarrow> u32) \<Rightarrow> (u16 \<Rightarrow> u8 list \<Rightarrow> u16) \<Rightarrow> super_block \<Rightarrow> u32 \<Rightarrow> ext4_group_desc \<Rightarrow> u16" where
  "ext4_group_desc_csum chksum crc16 sb block_group gdp =
     (let offset = 30; sbi = EXT4_SB sb; le_group = le32 block_group; bytes = gdesc_bytes gdp
      in if ext4_has_metadata_csum sb then
           (let csum32 = chksum (s_csum_seed sbi) le_group;
                csum32 = chksum csum32 (take offset bytes);
                csum32 = chksum csum32 (le16 0);
                offset = offset + 2;
                csum32 = (if offset < unat (s_desc_size sbi)
                          then chksum csum32 (take (unat (s_desc_size sbi) - offset) (drop offset bytes))
                          else csum32)
            in ucast (csum32 AND 0xFFFF))
         else if \<not> ext4_has_feature_gdt_csum sb then 0
         else
           (let crc = crc16 (- 1) (es_uuid (s_es sbi));
                crc = crc16 crc le_group;
                crc = crc16 crc (take offset bytes);
                offset = offset + 2
            in if ext4_has_feature_64bit sb \<and> offset < unat (s_desc_size sbi)
               then crc16 crc (take (unat (s_desc_size sbi) - offset) (drop offset bytes))
               else crc))"

definition ext4_group_desc_csum_verify ::
    "(u32 \<Rightarrow> u8 list \<Rightarrow> u32) \<Rightarrow> (u16 \<Rightarrow> u8 list \<Rightarrow> u16) \<Rightarrow> super_block \<Rightarrow> u32 \<Rightarrow> ext4_group_desc \<Rightarrow> bool" where
  "ext4_group_desc_csum_verify chksum crc16 sb block_group gdp =
     (if ext4_has_group_desc_csum sb \<and>
         bg_checksum gdp \<noteq> ext4_group_desc_csum chksum crc16 sb block_group gdp
      then False else True)"

definition ext4_group_desc_csum_set ::
    "(u32 \<Rightarrow> u8 list \<Rightarrow> u32) \<Rightarrow> (u16 \<Rightarrow> u8 list \<Rightarrow> u16) \<Rightarrow> super_block \<Rightarrow> u32 \<Rightarrow> ext4_group_desc \<Rightarrow> ext4_group_desc" where
  "ext4_group_desc_csum_set chksum crc16 sb block_group gdp =
     (if \<not> ext4_has_group_desc_csum sb then gdp
      else gdp\<lparr>bg_checksum := ext4_group_desc_csum chksum crc16 sb block_group gdp\<rparr>)"

lemma gdesc_bytes_length: "length (gdesc_bytes g) = 64"
  by (simp add: gdesc_bytes_def)

lemma gdesc_bytes_checksum:
  "take 30 (gdesc_bytes (g\<lparr>bg_checksum := c\<rparr>)) = take 30 (gdesc_bytes g)"
  "drop 32 (gdesc_bytes (g\<lparr>bg_checksum := c\<rparr>)) = drop 32 (gdesc_bytes g)"
  by (simp_all add: gdesc_bytes_def)

lemma group_desc_csum_ignores_checksum:
  "ext4_group_desc_csum chksum crc16 sb grp (g\<lparr>bg_checksum := c\<rparr>) =
     ext4_group_desc_csum chksum crc16 sb grp g"
  by (simp add: ext4_group_desc_csum_def Let_def gdesc_bytes_checksum)

text \<open>Result checksums_verify_after_set: whatever the checksum functions compute, a group descriptor
  and a superblock whose checksum was just set pass verification: neither checksum depends on
  the field it is stored in.\<close>

theorem checksums_verify_after_set:
  "ext4_group_desc_csum_verify chksum crc16 sb grp (ext4_group_desc_csum_set chksum crc16 sb grp gdp) \<and>
   ext4_superblock_csum_verify echk sb (SB_ES (ext4_superblock_csum_set echk sb))"
  by (simp add: ext4_group_desc_csum_verify_def ext4_group_desc_csum_set_def
      group_desc_csum_ignores_checksum ext4_superblock_csum_verify_def
      ext4_superblock_csum_set_def ext4_superblock_csum_def)

end
