(* ===== verification/Evfs_Bmt.thy ===== *)
theory Evfs_Bmt
  imports Evfs_Base
begin

unbundle bit_operations_syntax

text \<open>
  The bitmap tracker of \<open>fs/ext4/evfs-bmt.c\<close>: an array of lazily allocated one-word bitmaps,
  each behind a read-write semaphore. The sequential model follows the code, with the outcome of
  each allocation as an argument and a NULL dereference as the result \<open>None\<close>. The abstract view
  of a tracker is the set of numbers whose bit is set; the locale \<open>tracker\<close> is the contract the
  inode operations rely on. The last section is the interleaving semantics of \<open>evfs_bit_wrapper\<close>
  by several threads on one bitmap, with its double-checked allocation.
\<close>

section \<open>Data\<close>

definition EXT4_EVFS_GRP_BM_LEN :: nat where
  "EXT4_EVFS_GRP_BM_LEN = 1"

text \<open>\<open>struct evfs_bitmap\<close> is an array of \<open>EXT4_EVFS_GRP_BM_LEN\<close> words.\<close>

type_synonym evfs_bitmap = "u64 list"

text \<open>An operation either returns nothing or the previous value of the bit.\<close>

datatype evfs_bitop =
    EBO_VOID (op_v: "nat \<Rightarrow> u64 list \<Rightarrow> u64 list")
  | EBO_BOOL (op_b: "nat \<Rightarrow> u64 list \<Rightarrow> bool \<times> u64 list")

record evfs_bm_tracker =
  bitmaps :: "evfs_bitmap option list"
  num_bitmaps :: nat

text \<open>The kernel's bit operations on an array of 64-bit words.\<close>

definition test_bit :: "nat \<Rightarrow> u64 list \<Rightarrow> bool" where
  "test_bit nr p = bit (p ! (nr div 64)) (nr mod 64)"

definition set_bit_at :: "nat \<Rightarrow> u64 list \<Rightarrow> u64 list" where
  "set_bit_at nr p = p[nr div 64 := Bit_Operations.set_bit (nr mod 64) (p ! (nr div 64))]"

definition clear_bit :: "nat \<Rightarrow> u64 list \<Rightarrow> u64 list" where
  "clear_bit nr p = p[nr div 64 := unset_bit (nr mod 64) (p ! (nr div 64))]"

definition test_and_set_bit :: "nat \<Rightarrow> u64 list \<Rightarrow> bool \<times> u64 list" where
  "test_and_set_bit nr p = (test_bit nr p, set_bit_at nr p)"

definition test_and_clear_bit :: "nat \<Rightarrow> u64 list \<Rightarrow> bool \<times> u64 list" where
  "test_and_clear_bit nr p = (test_bit nr p, clear_bit nr p)"

lemma div_mod_64_eq: "m = n \<longleftrightarrow> m div 64 = n div 64 \<and> m mod 64 = n mod (64 :: nat)"
  by (metis div_mult_mod_eq)

lemma test_bit_set_bit_at:
  assumes "n div 64 < length p" "m div 64 < length p"
  shows "test_bit m (set_bit_at n p) = (m = n \<or> test_bit m p)"
proof (cases "m div 64 = n div 64")
  case True
  then show ?thesis
    using assms div_mod_64_eq [of m n]
    by (auto simp: test_bit_def set_bit_at_def bit_set_bit_iff)
next
  case False
  then have "m \<noteq> n" by auto
  with False show ?thesis
    using assms by (simp add: test_bit_def set_bit_at_def)
qed

lemma test_bit_clear_bit:
  assumes "n div 64 < length p" "m div 64 < length p"
  shows "test_bit m (clear_bit n p) = (m \<noteq> n \<and> test_bit m p)"
proof (cases "m div 64 = n div 64")
  case True
  then show ?thesis
    using assms div_mod_64_eq [of m n]
    by (auto simp: test_bit_def clear_bit_def bit_unset_bit_iff)
next
  case False
  then have "m \<noteq> n" by auto
  with False show ?thesis
    using assms by (simp add: test_bit_def clear_bit_def)
qed

lemma length_bit_ops [simp]:
  "length (set_bit_at n p) = length p" "length (clear_bit n p) = length p"
  by (simp_all add: set_bit_at_def clear_bit_def)

section \<open>Operations\<close>

text \<open>An allocation of the tracker, as it is counted by the memory events below.\<close>

datatype bm_object = Tracker | Bitmap_array | Rwsem_array | Bitmap_of nat

definition evfs_bm_alloc :: "bool \<Rightarrow> evfs_bm_tracker \<Rightarrow> nat \<Rightarrow> int \<times> evfs_bm_tracker" where
  "evfs_bm_alloc kzalloc_ok tracker bitmap_num =
     (if \<not> kzalloc_ok then (- ENOMEM, tracker)
      else (0, tracker\<lparr>bitmaps := (bitmaps tracker)
                        [bitmap_num := Some (replicate EXT4_EVFS_GRP_BM_LEN 0)]\<rparr>))"

definition evfs_bm_free :: "evfs_bm_tracker \<Rightarrow> nat \<Rightarrow> evfs_bm_tracker" where
  "evfs_bm_free tracker bitmap_num =
     tracker\<lparr>bitmaps := (bitmaps tracker)[bitmap_num := None]\<rparr>"

definition evfs_bm_test :: "evfs_bm_tracker \<Rightarrow> nat \<Rightarrow> bool" where
  "evfs_bm_test tracker bitmap_num = (bitmaps tracker ! bitmap_num \<noteq> None)"

definition bits_per_bm :: nat where
  "bits_per_bm = EXT4_EVFS_GRP_BM_LEN * 8 * 8"

text \<open>
  \<open>evfs_bm_tracker_init\<close> with the outcomes of its three allocations: the return value, the
  pointer stored through \<open>tracker\<close> (\<open>None\<close> when it is left as it was), and the objects that
  stay allocated.
\<close>

definition evfs_bm_tracker_init ::
    "bool \<Rightarrow> bool \<Rightarrow> bool \<Rightarrow> nat \<Rightarrow> int \<times> evfs_bm_tracker option \<times> bm_object list" where
  "evfs_bm_tracker_init t_ok bitmaps_ok rwsems_ok num_bits =
     (if \<not> t_ok then (- ENOMEM, None, [])
      else let nb = (num_bits + bits_per_bm - 1) div bits_per_bm
           in if \<not> bitmaps_ok then (- ENOMEM, None, [Tracker])
              else if \<not> rwsems_ok then (- ENOMEM, None, [Tracker, Bitmap_array])
              else (0, Some \<lparr>bitmaps = replicate nb None, num_bitmaps = nb\<rparr>,
                    [Tracker, Bitmap_array, Rwsem_array]))"

text \<open>The loop of \<open>evfs_bm_tracker_final\<close>: the bitmaps it frees, in order.\<close>

fun bm_final_loop :: "nat \<Rightarrow> evfs_bm_tracker \<Rightarrow> evfs_bm_tracker \<times> bm_object list" where
  "bm_final_loop 0 t = (t, [])"
| "bm_final_loop (Suc n) t =
     (let (t, freed) = bm_final_loop n t
      in if evfs_bm_test t n then (evfs_bm_free t n, freed @ [Bitmap_of n]) else (t, freed))"

definition evfs_bm_tracker_final :: "evfs_bm_tracker option \<Rightarrow> int \<times> bm_object list" where
  "evfs_bm_tracker_final tracker =
     (case tracker of
        None \<Rightarrow> (- EFAULT, [])
      | Some t \<Rightarrow> (let (t, freed) = bm_final_loop (num_bitmaps t) t
                  in (0, freed @ [Bitmap_array, Rwsem_array, Tracker])))"

text \<open>
  \<open>evfs_bit_wrapper\<close> run by one thread: the return value, \<open>None\<close> when the code dereferences the
  NULL bitmap that a failed \<open>evfs_bm_alloc\<close> leaves behind, and the tracker.
\<close>

definition evfs_bit_wrapper ::
    "bool \<Rightarrow> evfs_bm_tracker option \<Rightarrow> evfs_bitop \<Rightarrow> nat \<Rightarrow> int option \<times> evfs_bm_tracker option" where
  "evfs_bit_wrapper kzalloc_ok tracker ebitop nr =
     (case tracker of
        None \<Rightarrow> (Some (- EFAULT), None)
      | Some t \<Rightarrow>
          (let bitmap_num = nr div bits_per_bm; bit_offset = nr mod bits_per_bm
           in if bitmap_num \<ge> num_bitmaps t then (Some (- EINVAL), Some t)
              else let t = (if \<not> evfs_bm_test t bitmap_num
                            then snd (evfs_bm_alloc kzalloc_ok t bitmap_num) else t)
                   in case bitmaps t ! bitmap_num of
                        None \<Rightarrow> (None, Some t)
                      | Some data \<Rightarrow>
                          (case ebitop of
                             EBO_VOID f \<Rightarrow>
                               (Some 0, Some (t\<lparr>bitmaps := (bitmaps t)[bitmap_num := Some (f bit_offset data)]\<rparr>))
                           | EBO_BOOL f \<Rightarrow>
                               (let (r, data) = f bit_offset data
                                in (Some (of_bool r),
                                    Some (t\<lparr>bitmaps := (bitmaps t)[bitmap_num := Some data]\<rparr>))))))"

section \<open>The abstract view\<close>

definition bmt_inv :: "evfs_bm_tracker \<Rightarrow> bool" where
  "bmt_inv t = (length (bitmaps t) = num_bitmaps t \<and>
     (\<forall>d. Some d \<in> set (bitmaps t) \<longrightarrow> length d = EXT4_EVFS_GRP_BM_LEN))"

definition in_range :: "evfs_bm_tracker \<Rightarrow> nat \<Rightarrow> bool" where
  "in_range t nr = (nr div bits_per_bm < num_bitmaps t)"

definition tracked :: "evfs_bm_tracker \<Rightarrow> nat \<Rightarrow> bool" where
  "tracked t nr = (in_range t nr \<and>
     (case bitmaps t ! (nr div bits_per_bm) of
        None \<Rightarrow> False | Some d \<Rightarrow> test_bit (nr mod bits_per_bm) d))"

text \<open>
  The contract of a tracker: every operation succeeds on a number in range, answers whether the
  number was a member, and changes the membership of that number only.
\<close>

locale tracker =
  fixes tinv :: "'t \<Rightarrow> bool"
    and mem :: "'t \<Rightarrow> nat \<Rightarrow> bool"
    and dom_of :: "'t \<Rightarrow> nat \<Rightarrow> bool"
    and tas :: "'t \<Rightarrow> nat \<Rightarrow> int option \<times> 't option"
    and tac :: "'t \<Rightarrow> nat \<Rightarrow> int option \<times> 't option"
    and clr :: "'t \<Rightarrow> nat \<Rightarrow> int option \<times> 't option"
  assumes tas: "tinv t \<Longrightarrow> dom_of t n \<Longrightarrow>
      \<exists>t'. tas t n = (Some (of_bool (mem t n)), Some t') \<and> tinv t' \<and>
           mem t' = (mem t)(n := True) \<and> dom_of t' = dom_of t"
    and tac: "tinv t \<Longrightarrow> dom_of t n \<Longrightarrow>
      \<exists>t'. tac t n = (Some (of_bool (mem t n)), Some t') \<and> tinv t' \<and>
           mem t' = (mem t)(n := False) \<and> dom_of t' = dom_of t"
    and clr: "tinv t \<Longrightarrow> dom_of t n \<Longrightarrow>
      \<exists>t'. clr t n = (Some 0, Some t') \<and> tinv t' \<and>
           mem t' = (mem t)(n := False) \<and> dom_of t' = dom_of t"
    and out: "\<not> dom_of t n \<Longrightarrow>
      tas t n = (Some (- EINVAL), Some t) \<and> tac t n = (Some (- EINVAL), Some t) \<and>
      clr t n = (Some (- EINVAL), Some t)"
begin

lemma tas_once:
  assumes "tinv t" "dom_of t n"
  obtains t' where "tas t n = (Some (of_bool (mem t n)), Some t')" "tinv t'"
    "dom_of t' n" "mem t' n" "fst (tas t' n) = Some 1"
proof -
  from tas [OF assms] obtain t' where t': "tas t n = (Some (of_bool (mem t n)), Some t')"
    "tinv t'" "mem t' = (mem t)(n := True)" "dom_of t' = dom_of t" by blast
  with assms have "dom_of t' n" "mem t' n" by simp_all
  with tas [OF t'(2)] have "fst (tas t' n) = Some 1" by force
  with t' \<open>dom_of t' n\<close> \<open>mem t' n\<close> show ?thesis using that by blast
qed

lemma tas_tac_restores:
  assumes "tinv t" "dom_of t n" "\<not> mem t n" "tas t n = (r, Some t')"
  shows "\<exists>t''. tac t' n = (Some 1, Some t'') \<and> mem t'' = mem t \<and> tinv t''"
proof -
  from tas [OF assms(1,2)] assms(4) have t': "tinv t'" "mem t' = (mem t)(n := True)" "dom_of t' n"
    using assms(2) by auto
  from tac [OF t'(1,3)] obtain t'' where
    "tac t' n = (Some (of_bool (mem t' n)), Some t'')" "tinv t''" "mem t'' = (mem t')(n := False)"
    by blast
  with t'(2) assms(3) show ?thesis by (auto simp: fun_upd_idem)
qed

end

text \<open>The tracker of the code meets the contract, allocations succeeding.\<close>

definition evfs_tas :: "evfs_bm_tracker \<Rightarrow> nat \<Rightarrow> int option \<times> evfs_bm_tracker option" where
  "evfs_tas t = evfs_bit_wrapper True (Some t) (EBO_BOOL test_and_set_bit)"

definition evfs_tac :: "evfs_bm_tracker \<Rightarrow> nat \<Rightarrow> int option \<times> evfs_bm_tracker option" where
  "evfs_tac t = evfs_bit_wrapper True (Some t) (EBO_BOOL test_and_clear_bit)"

definition evfs_clr :: "evfs_bm_tracker \<Rightarrow> nat \<Rightarrow> int option \<times> evfs_bm_tracker option" where
  "evfs_clr t = evfs_bit_wrapper True (Some t) (EBO_VOID clear_bit)"

lemma bits_per_bm_64 [simp]: "bits_per_bm = 64"
  by (simp add: bits_per_bm_def EXT4_EVFS_GRP_BM_LEN_def)

text \<open>What a slot holds once \<open>evfs_bit_wrapper\<close> has made sure that it is allocated.\<close>

definition slot :: "evfs_bm_tracker \<Rightarrow> nat \<Rightarrow> evfs_bitmap" where
  "slot t i = (case bitmaps t ! i of None \<Rightarrow> [0] | Some d \<Rightarrow> d)"

lemma length_slot: "bmt_inv t \<Longrightarrow> i < num_bitmaps t \<Longrightarrow> length (slot t i) = 1"
  by (auto simp: slot_def bmt_inv_def EXT4_EVFS_GRP_BM_LEN_def split: option.split)
    (metis nth_mem)

lemma tracked_slot: "tracked t n = (in_range t n \<and> test_bit (n mod 64) (slot t (n div 64)))"
  by (auto simp: tracked_def slot_def test_bit_def split: option.split)

lemma evfs_bit_wrapper_slot:
  assumes "bmt_inv t" "in_range t n"
  shows "evfs_bit_wrapper True (Some t) (EBO_VOID f) n =
      (Some 0, Some (t\<lparr>bitmaps := (bitmaps t)[n div 64 := Some (f (n mod 64) (slot t (n div 64)))]\<rparr>))"
    and "evfs_bit_wrapper True (Some t) (EBO_BOOL g) n =
      (Some (of_bool (fst (g (n mod 64) (slot t (n div 64))))),
       Some (t\<lparr>bitmaps := (bitmaps t)[n div 64 := Some (snd (g (n mod 64) (slot t (n div 64))))]\<rparr>))"
  using assms
  by (auto simp: evfs_bit_wrapper_def evfs_bm_test_def evfs_bm_alloc_def slot_def in_range_def
      bmt_inv_def Let_def EXT4_EVFS_GRP_BM_LEN_def split: option.split prod.split)

lemma upd_slot:
  assumes "bmt_inv t" "in_range t n" "length d = 1"
    and "\<And>m. m < 64 \<Longrightarrow> test_bit m d = (if m = n mod 64 then b else test_bit m (slot t (n div 64)))"
  defines "t' \<equiv> t\<lparr>bitmaps := (bitmaps t)[n div 64 := Some d]\<rparr>"
  shows "bmt_inv t'" "tracked t' = (tracked t)(n := b)" "in_range t' = in_range t"
proof -
  show "bmt_inv t'"
    using assms(1-3) set_update_subset_insert [of "bitmaps t" "n div 64" "Some d"]
    by (auto simp: bmt_inv_def t'_def EXT4_EVFS_GRP_BM_LEN_def)
  show r: "in_range t' = in_range t"
    by (simp add: fun_eq_iff in_range_def t'_def)
  have len: "n div 64 < length (bitmaps t)"
    using assms(1,2) by (simp add: bmt_inv_def in_range_def)
  show "tracked t' = (tracked t)(n := b)"
  proof
    fix m
    have s: "slot t' (m div 64) = (if m div 64 = n div 64 then d else slot t (m div 64))"
      using len by (auto simp: slot_def t'_def)
    show "tracked t' m = ((tracked t)(n := b)) m"
      using assms(2) div_mod_64_eq [of m n]
      by (auto simp: tracked_slot r s assms(4) in_range_def)
  qed
qed

lemma bitop_facts:
  assumes "bmt_inv t" "in_range t n"
  shows "length (set_bit_at (n mod 64) (slot t (n div 64))) = 1"
    and "length (clear_bit (n mod 64) (slot t (n div 64))) = 1"
    and "m < 64 \<Longrightarrow> test_bit m (set_bit_at (n mod 64) (slot t (n div 64))) =
           (if m = n mod 64 then True else test_bit m (slot t (n div 64)))"
    and "m < 64 \<Longrightarrow> test_bit m (clear_bit (n mod 64) (slot t (n div 64))) =
           (if m = n mod 64 then False else test_bit m (slot t (n div 64)))"
  using assms length_slot [of t "n div 64"]
  by (simp_all add: in_range_def test_bit_set_bit_at test_bit_clear_bit)

lemma evfs_ops_correct:
  assumes "bmt_inv t" "in_range t n"
  shows "\<exists>t'. evfs_tas t n = (Some (of_bool (tracked t n)), Some t') \<and> bmt_inv t' \<and>
           tracked t' = (tracked t)(n := True) \<and> in_range t' = in_range t"
    and "\<exists>t'. evfs_tac t n = (Some (of_bool (tracked t n)), Some t') \<and> bmt_inv t' \<and>
           tracked t' = (tracked t)(n := False) \<and> in_range t' = in_range t"
    and "\<exists>t'. evfs_clr t n = (Some 0, Some t') \<and> bmt_inv t' \<and>
           tracked t' = (tracked t)(n := False) \<and> in_range t' = in_range t"
  using upd_slot [OF assms bitop_facts(1) [OF assms] bitop_facts(3) [OF assms]]
    upd_slot [OF assms bitop_facts(2) [OF assms] bitop_facts(4) [OF assms]] assms(2)
  by (simp_all add: evfs_tas_def evfs_tac_def evfs_clr_def evfs_bit_wrapper_slot [OF assms]
      test_and_set_bit_def test_and_clear_bit_def tracked_slot)

interpretation bmt: tracker bmt_inv tracked in_range evfs_tas evfs_tac evfs_clr
  by unfold_locales
    (use evfs_ops_correct in \<open>auto simp: evfs_tas_def evfs_tac_def evfs_clr_def
       evfs_bit_wrapper_def in_range_def not_less\<close>)

section \<open>Interleavings\<close>

text \<open>
  Threads run \<open>evfs_bit_wrapper\<close> on the same bitmap. A thread takes the semaphore as a reader and
  tests the slot; on an empty slot it releases the semaphore, takes it as a writer, tests again,
  allocates if the slot is still empty, and downgrades to a reader; as a reader it applies its bit
  operation, which is atomic, and releases. The ghost field \<open>clog\<close> lists the threads in the order
  of their bit operations. \<open>mem_ok\<close> says that allocations succeed.
\<close>

datatype pc = PStart | PRead | PGap | PWrite | POp | PDone int

record conc =
  cslot :: "evfs_bitmap option"
  creaders :: "nat set"
  cwriter :: "nat option"
  cpc :: "nat \<Rightarrow> pc"
  clog :: "nat list"

type_synonym jobs = "nat \<Rightarrow> evfs_bitop \<times> nat"

definition bitop_apply :: "evfs_bitop \<Rightarrow> nat \<Rightarrow> evfs_bitmap \<Rightarrow> int \<times> evfs_bitmap" where
  "bitop_apply ebitop off data =
     (case ebitop of
        EBO_VOID f \<Rightarrow> (0, f off data)
      | EBO_BOOL f \<Rightarrow> (let (r, data) = f off data in (of_bool r, data)))"

abbreviation job_apply :: "jobs \<Rightarrow> nat \<Rightarrow> evfs_bitmap \<Rightarrow> int \<times> evfs_bitmap" where
  "job_apply jobs i \<equiv> bitop_apply (fst (jobs i)) (snd (jobs i))"

definition conc_init :: "evfs_bitmap option \<Rightarrow> conc" where
  "conc_init d = \<lparr>cslot = d, creaders = {}, cwriter = None, cpc = (\<lambda>_. PStart), clog = []\<rparr>"

inductive bw_step :: "bool \<Rightarrow> jobs \<Rightarrow> conc \<Rightarrow> conc \<Rightarrow> bool" for mem_ok jobs where
  down_read: "cpc s i = PStart \<Longrightarrow> cwriter s = None \<Longrightarrow>
     bw_step mem_ok jobs s (s\<lparr>cpc := (cpc s)(i := PRead), creaders := insert i (creaders s)\<rparr>)"
| test_found: "cpc s i = PRead \<Longrightarrow> cslot s \<noteq> None \<Longrightarrow>
     bw_step mem_ok jobs s (s\<lparr>cpc := (cpc s)(i := POp)\<rparr>)"
| test_empty: "cpc s i = PRead \<Longrightarrow> cslot s = None \<Longrightarrow>
     bw_step mem_ok jobs s (s\<lparr>cpc := (cpc s)(i := PGap), creaders := creaders s - {i}\<rparr>)"
| down_write: "cpc s i = PGap \<Longrightarrow> cwriter s = None \<Longrightarrow> creaders s = {} \<Longrightarrow>
     bw_step mem_ok jobs s (s\<lparr>cpc := (cpc s)(i := PWrite), cwriter := Some i\<rparr>)"
| recheck_alloc: "cpc s i = PWrite \<Longrightarrow> cslot s = None \<Longrightarrow>
     bw_step mem_ok jobs s (s\<lparr>cpc := (cpc s)(i := POp), cwriter := None, creaders := {i},
       cslot := Some (replicate EXT4_EVFS_GRP_BM_LEN 0)\<rparr>)"
| recheck_nomem: "cpc s i = PWrite \<Longrightarrow> cslot s = None \<Longrightarrow> \<not> mem_ok \<Longrightarrow>
     bw_step mem_ok jobs s (s\<lparr>cpc := (cpc s)(i := POp), cwriter := None, creaders := {i}\<rparr>)"
| recheck_found: "cpc s i = PWrite \<Longrightarrow> cslot s \<noteq> None \<Longrightarrow>
     bw_step mem_ok jobs s (s\<lparr>cpc := (cpc s)(i := POp), cwriter := None, creaders := {i}\<rparr>)"
| bit_op: "cpc s i = POp \<Longrightarrow> cslot s = Some d \<Longrightarrow> job_apply jobs i d = (r, d') \<Longrightarrow>
     bw_step mem_ok jobs s (s\<lparr>cpc := (cpc s)(i := PDone r), creaders := creaders s - {i},
       cslot := Some d', clog := clog s @ [i]\<rparr>)"

inductive bw_reach :: "bool \<Rightarrow> jobs \<Rightarrow> evfs_bitmap option \<Rightarrow> conc \<Rightarrow> bool" for mem_ok jobs d0 where
  start: "bw_reach mem_ok jobs d0 (conc_init d0)"
| step: "bw_reach mem_ok jobs d0 s \<Longrightarrow> bw_step mem_ok jobs s s' \<Longrightarrow> bw_reach mem_ok jobs d0 s'"

text \<open>The same operations one after the other: the bitmap and the results they give.\<close>

fun seq_bitmap :: "jobs \<Rightarrow> evfs_bitmap \<Rightarrow> nat list \<Rightarrow> evfs_bitmap" where
  "seq_bitmap jobs d [] = d"
| "seq_bitmap jobs d (i # is) = seq_bitmap jobs (snd (job_apply jobs i d)) is"

fun seq_result :: "jobs \<Rightarrow> evfs_bitmap \<Rightarrow> nat list \<Rightarrow> nat \<Rightarrow> int" where
  "seq_result jobs d [] j = 0"
| "seq_result jobs d (i # is) j =
     (if i = j then fst (job_apply jobs i d) else seq_result jobs (snd (job_apply jobs i d)) is j)"

lemma seq_bitmap_append:
  "seq_bitmap jobs d (is @ [j]) = snd (job_apply jobs j (seq_bitmap jobs d is))"
  by (induction "is" arbitrary: d) auto

lemma seq_result_append:
  "seq_result jobs d (is @ [j]) i =
     (if i \<in> set is then seq_result jobs d is i
      else if i = j then fst (job_apply jobs j (seq_bitmap jobs d is)) else 0)"
  by (induction "is" arbitrary: d) auto

definition base :: "evfs_bitmap option \<Rightarrow> evfs_bitmap" where
  "base d0 = (case d0 of None \<Rightarrow> replicate EXT4_EVFS_GRP_BM_LEN 0 | Some d \<Rightarrow> d)"

definition conc_inv :: "jobs \<Rightarrow> evfs_bitmap option \<Rightarrow> conc \<Rightarrow> bool" where
  "conc_inv jobs d0 s \<longleftrightarrow>
     distinct (clog s) \<and>
     (\<forall>i. i \<in> set (clog s) \<longleftrightarrow> (\<exists>r. cpc s i = PDone r)) \<and>
     (\<forall>i r. cpc s i = PDone r \<longrightarrow> r = seq_result jobs (base d0) (clog s) i) \<and>
     (case cslot s of None \<Rightarrow> d0 = None \<and> clog s = [] | Some d \<Rightarrow> d = seq_bitmap jobs (base d0) (clog s)) \<and>
     (\<forall>i. cwriter s = Some i \<longleftrightarrow> cpc s i = PWrite) \<and>
     (cwriter s \<noteq> None \<longrightarrow> creaders s = {}) \<and>
     (\<forall>i. i \<in> creaders s \<longleftrightarrow> cpc s i = PRead \<or> cpc s i = POp)"

lemma conc_inv_init: "conc_inv jobs d0 (conc_init d0)"
  by (auto simp: conc_inv_def conc_init_def base_def split: option.split)

lemma conc_inv_writer:
  assumes "conc_inv jobs d0 s" "cpc s i = PWrite"
  shows "cwriter s = Some i" "creaders s = {}" "j \<noteq> i \<Longrightarrow> cpc s j \<noteq> PWrite"
    "cpc s j \<noteq> PRead" "cpc s j \<noteq> POp"
proof -
  show w: "cwriter s = Some i" using assms by (simp add: conc_inv_def)
  then show e: "creaders s = {}" using assms by (simp add: conc_inv_def)
  show "cpc s j \<noteq> PWrite" if "j \<noteq> i"
    using assms w that unfolding conc_inv_def by (metis option.inject)
  show "cpc s j \<noteq> PRead" "cpc s j \<noteq> POp"
    using assms(1) e unfolding conc_inv_def by blast+
qed

lemma conc_inv_step: "bw_step mem_ok jobs s s' \<Longrightarrow> conc_inv jobs d0 s \<Longrightarrow> conc_inv jobs d0 s'"
proof (induction rule: bw_step.induct)
  case (down_read s i) then show ?case by (simp add: conc_inv_def split: option.splits)
next
  case (test_found s i) then show ?case by (auto simp: conc_inv_def split: option.splits)
next
  case (test_empty s i) then show ?case by (auto simp: conc_inv_def split: option.splits)
next
  case (down_write s i) then show ?case by (auto simp: conc_inv_def split: option.splits)
next
  case (recheck_alloc s i)
  note w = conc_inv_writer [OF recheck_alloc.prems recheck_alloc.hyps(1)]
  from recheck_alloc show ?case
    by (auto simp: conc_inv_def base_def w split: option.splits)
next
  case (recheck_nomem s i)
  note w = conc_inv_writer [OF recheck_nomem.prems recheck_nomem.hyps(1)]
  from recheck_nomem show ?case
    by (auto simp: conc_inv_def w)
next
  case (recheck_found s i)
  note w = conc_inv_writer [OF recheck_found.prems recheck_found.hyps(1)]
  from recheck_found show ?case
    by (auto simp: conc_inv_def w)
next
  case (bit_op s i d r d')
  then have "i \<notin> set (clog s)" by (simp add: conc_inv_def)
  with bit_op show ?case
    by (auto simp: conc_inv_def seq_bitmap_append seq_result_append)
qed

lemma conc_inv_reach: "bw_reach mem_ok jobs d0 s \<Longrightarrow> conc_inv jobs d0 s"
  by (induction rule: bw_reach.induct) (auto intro: conc_inv_init conc_inv_step)

lemma op_has_bitmap:
  "bw_reach mem_ok jobs d0 s \<Longrightarrow> mem_ok \<Longrightarrow> cpc s i = POp \<Longrightarrow> cslot s \<noteq> None"
proof (induction arbitrary: i rule: bw_reach.induct)
  case start then show ?case by (simp add: conc_init_def)
next
  case (step s s')
  from step.hyps(2) step.IH step.prems show ?case
    by (cases rule: bw_step.cases) (auto split: if_splits)
qed

text \<open>C13 bit_wrapper_linearizable: however the threads interleave, and whichever of them allocates
  the bitmap, the bit operations that have finished took effect one after the other in some order,
  each exactly once and each with the result it has in that order; no allocation wipes a bit.
  If allocations succeed, no thread applies its operation to a missing bitmap.\<close>

theorem bit_wrapper_linearizable:
  assumes "bw_reach mem_ok jobs d0 s"
  shows "\<exists>order. distinct order \<and> set order = {i. \<exists>r. cpc s i = PDone r} \<and>
           (\<forall>i \<in> set order. cpc s i = PDone (seq_result jobs (base d0) order i)) \<and>
           (order \<noteq> [] \<longrightarrow> cslot s = Some (seq_bitmap jobs (base d0) order)) \<and>
           (mem_ok \<longrightarrow> (\<forall>i. cpc s i = POp \<longrightarrow> cslot s \<noteq> None))"
proof -
  from assms have inv: "conc_inv jobs d0 s" by (rule conc_inv_reach)
  then have "\<forall>i \<in> set (clog s). cpc s i = PDone (seq_result jobs (base d0) (clog s) i)"
    unfolding conc_inv_def by metis
  moreover have "distinct (clog s)" "set (clog s) = {i. \<exists>r. cpc s i = PDone r}"
    using inv by (auto simp: conc_inv_def)
  moreover have "clog s \<noteq> [] \<longrightarrow> cslot s = Some (seq_bitmap jobs (base d0) (clog s))"
    using inv by (simp add: conc_inv_def split: option.splits)
  moreover have "mem_ok \<longrightarrow> (\<forall>i. cpc s i = POp \<longrightarrow> cslot s \<noteq> None)"
    using op_has_bitmap [OF assms] by blast
  ultimately show ?thesis by blast
qed

theorem bit_wrapper_linearizable_witness:
  "\<exists>s. bw_reach True (\<lambda>_. (EBO_BOOL test_and_set_bit, 5)) None s \<and> cpc s 0 = POp \<and>
     (\<exists>order. distinct order \<and> set order = {i. \<exists>r. cpc s i = PDone r} \<and>
        (\<forall>i. cpc s i = POp \<longrightarrow> cslot s \<noteq> None))"
proof -
  let ?J = "\<lambda>_::nat. (EBO_BOOL test_and_set_bit, 5::nat)"
  let ?s1 = "(conc_init None)\<lparr>cpc := (\<lambda>_. PStart)(0 := PRead), creaders := {0}\<rparr>"
  let ?s2 = "?s1\<lparr>cpc := (\<lambda>_. PStart)(0 := PGap), creaders := {}\<rparr>"
  let ?s3 = "?s2\<lparr>cpc := (\<lambda>_. PStart)(0 := PWrite), cwriter := Some 0\<rparr>"
  let ?s4 = "?s3\<lparr>cpc := (\<lambda>_. PStart)(0 := POp), cwriter := None, creaders := {0},
    cslot := Some (replicate EXT4_EVFS_GRP_BM_LEN 0)\<rparr>"
  have "bw_reach True ?J None ?s1"
    using bw_reach.step [OF bw_reach.start bw_step.down_read [of "conc_init None" 0]]
    by (simp add: conc_init_def)
  then have "bw_reach True ?J None ?s2"
    by (rule bw_reach.step) (use bw_step.test_empty [of ?s1 0] in \<open>simp add: conc_init_def\<close>)
  then have "bw_reach True ?J None ?s3"
    by (rule bw_reach.step) (use bw_step.down_write [of ?s2 0] in \<open>simp add: conc_init_def\<close>)
  then have r: "bw_reach True ?J None ?s4"
    by (rule bw_reach.step) (use bw_step.recheck_alloc [of ?s3 0] in \<open>simp add: conc_init_def\<close>)
  moreover have "cpc ?s4 0 = POp" by simp
  moreover have "\<exists>order. distinct order \<and> set order = {i. \<exists>r. cpc ?s4 i = PDone r} \<and>
        (\<forall>i. cpc ?s4 i = POp \<longrightarrow> cslot ?s4 \<noteq> None)"
    using bit_wrapper_linearizable [OF r] by blast
  ultimately show ?thesis by blast
qed

section \<open>Every operation is completed\<close>

text \<open>How many steps a thread has before it at most.\<close>

fun pc_rank :: "pc \<Rightarrow> nat" where
  "pc_rank PStart = 5"
| "pc_rank PRead = 4"
| "pc_rank PGap = 3"
| "pc_rank PWrite = 2"
| "pc_rank POp = 1"
| "pc_rank (PDone r) = 0"

text \<open>Only the threads below \<open>n\<close> have entered the function.\<close>

definition only_first :: "nat \<Rightarrow> conc \<Rightarrow> bool" where
  "only_first n s \<longleftrightarrow> (\<forall>i \<ge> n. cpc s i = PStart)"

lemma bw_step_one:
  assumes "bw_step mem_ok jobs s s'"
  shows "\<exists>i p. cpc s' = (cpc s)(i := p) \<and> pc_rank p < pc_rank (cpc s i)"
  using assms by (cases rule: bw_step.cases) (auto intro!: exI)

lemma bw_step_below:
  assumes "bw_step mem_ok jobs s s'" "only_first n s'"
  shows "\<exists>i p. i < n \<and> cpc s' = (cpc s)(i := p) \<and> pc_rank p < pc_rank (cpc s i)"
proof -
  obtain i p where i: "cpc s' = (cpc s)(i := p)" "pc_rank p < pc_rank (cpc s i)" using bw_step_one [OF assms(1)] by blast
  have "i < n"
  proof (rule ccontr)
    assume "\<not> i < n"
    then have "cpc s' i = PStart" using assms(2) by (simp add: only_first_def)
    then show False using i by (cases "cpc s i") simp_all
  qed
  then show ?thesis using i by blast
qed

lemma only_first_back: "bw_step mem_ok jobs s s' \<Longrightarrow> only_first n s' \<Longrightarrow> only_first n s"
  by (drule (1) bw_step_below) (auto simp: only_first_def split: if_splits)

lemma steps_bounded:
  assumes "(bw_step mem_ok jobs ^^ k) (conc_init d0) s" "only_first n s"
  shows "k + (\<Sum>i < n. pc_rank (cpc s i)) \<le> 5 * n"
  using assms
proof (induction k arbitrary: s)
  case 0
  then have "s = conc_init d0" by simp
  then show ?case by (simp add: conc_init_def)
next
  case (Suc k)
  then obtain t where t: "(bw_step mem_ok jobs ^^ k) (conc_init d0) t" "bw_step mem_ok jobs t s" by auto
  note IH = Suc.IH [OF t(1) only_first_back [OF t(2) Suc.prems(2)]]
  obtain i p where i: "i < n" "cpc s = (cpc t)(i := p)" "pc_rank p < pc_rank (cpc t i)"
    using bw_step_below [OF t(2) Suc.prems(2)] by blast
  then have "(\<Sum>i < n. pc_rank (cpc s i)) < (\<Sum>i < n. pc_rank (cpc t i))"
    by (intro sum_strict_mono_ex1) auto
  then show ?case using IH by simp
qed

lemma reach_relpow: "(bw_step mem_ok jobs ^^ k) (conc_init d0) s \<Longrightarrow> bw_reach mem_ok jobs d0 s"
  by (induction k arbitrary: s) (auto intro: bw_reach.intros)

text \<open>A thread that is not done can move, or the one that holds the semaphore can.\<close>

lemma some_thread_moves:
  assumes "bw_reach True jobs d0 s" "\<And>r. cpc s i \<noteq> PDone r" "i < n" "only_first n s"
  shows "\<exists>s'. bw_step True jobs s s' \<and> only_first n s'"
proof -
  have inv: "conc_inv jobs d0 s" using assms(1) by (rule conc_inv_reach)
  have below: "j < n" if "cpc s j \<noteq> PStart" for j using that assms(4) by (auto simp: only_first_def not_le [symmetric])
  have go: "\<exists>s'. bw_step True jobs s s' \<and> only_first n s'" if "bw_step True jobs s s'" "cpc s' = (cpc s)(j := p)" "j < n" for s' j p
    using that assms(4) by (intro exI [of _ s']) (auto simp: only_first_def)
  have op: "\<exists>s'. bw_step True jobs s s' \<and> only_first n s'" if o: "cpc s j = POp" for j
  proof -
    obtain d where "cslot s = Some d" using op_has_bitmap [OF assms(1) TrueI o] by auto
    from go [OF bw_step.bit_op [OF o this, of jobs "fst (job_apply jobs j d)" "snd (job_apply jobs j d)"]]
    show ?thesis using below [of j] o by simp
  qed
  have rd: "\<exists>s'. bw_step True jobs s s' \<and> only_first n s'" if "cpc s j = PRead" for j
    by (cases "cslot s = None")
      (use go [OF bw_step.test_found [OF that]] go [OF bw_step.test_empty [OF that]] below [of j] that in auto)
  have wr: "\<exists>s'. bw_step True jobs s s' \<and> only_first n s'" if "cpc s j = PWrite" for j
    by (cases "cslot s = None")
      (use go [OF bw_step.recheck_found [OF that]] go [OF bw_step.recheck_alloc [OF that]] below [of j] that in auto)
  show ?thesis
  proof (cases "cwriter s")
    case (Some j)
    then have "cpc s j = PWrite" using inv unfolding conc_inv_def by blast
    then show ?thesis by (rule wr)
  next
    case None
    show ?thesis
    proof (cases "creaders s = {}")
      case False
      then obtain j where "j \<in> creaders s" by blast
      then have "cpc s j = PRead \<or> cpc s j = POp" using inv unfolding conc_inv_def by blast
      then show ?thesis using op rd by blast
    next
      case True
      then have "cpc s i \<noteq> PRead" "cpc s i \<noteq> POp" "cpc s i \<noteq> PWrite" using inv None unfolding conc_inv_def by auto
      then consider "cpc s i = PStart" | "cpc s i = PGap" using assms(2) by (cases "cpc s i") auto
      then show ?thesis
        by cases (use go [OF bw_step.down_read] go [OF bw_step.down_write] None True assms(3) in simp_all)
    qed
  qed
qed

text \<open>
  C14 bit_wrapper_completes: when \<open>n\<close> threads call \<open>evfs_bit_wrapper\<close> and the bitmap can be allocated, no interleaving is longer than
  \<open>5 * n\<close> steps, and as long as one of the threads has not finished, some thread can move: the threads cannot block one another in the two
  semaphore modes, and every run that goes on as long as it can ends with all \<open>n\<close> operations done.
\<close>

theorem bit_wrapper_completes:
  assumes "(bw_step True jobs ^^ k) (conc_init d0) s" "only_first n s"
  shows "k \<le> 5 * n \<and> ((\<exists>s'. bw_step True jobs s s' \<and> only_first n s') \<or> (\<forall>i < n. \<exists>r. cpc s i = PDone r))"
  using steps_bounded [OF assms] some_thread_moves [OF reach_relpow [OF assms(1)] _ _ assms(2)]
  by (metis add_leD1)

theorem bit_wrapper_completes_witness:
  "\<exists>s'. bw_step True (\<lambda>_. (EBO_BOOL test_and_set_bit, 5)) (conc_init None) s' \<and> only_first 1 s'"
proof -
  have "(bw_step True (\<lambda>_. (EBO_BOOL test_and_set_bit, 5)) ^^ 0) (conc_init None) (conc_init None)" by simp
  moreover have "only_first 1 (conc_init None)" "cpc (conc_init None) 0 = PStart" by (simp_all add: only_first_def conc_init_def)
  ultimately show ?thesis using bit_wrapper_completes [of 0 _ None "conc_init None" 1] by fastforce
qed

section \<open>Set-up and tear-down\<close>

lemma init_props:
  assumes "evfs_bm_tracker_init True True True num_bits = (r, Some t, objs)"
  shows "bmt_inv t" "tracked t = (\<lambda>_. False)" "num_bitmaps t = (num_bits + 63) div 64"
    "bitmaps t = replicate (num_bitmaps t) None"
  using assms
  by (auto simp: evfs_bm_tracker_init_def Let_def bmt_inv_def tracked_def in_range_def fun_eq_iff)

lemma ceil64: "m < n \<Longrightarrow> m div 64 < (n + 63) div 64" "0 < n mod 64 \<Longrightarrow> n div 64 < (n + 63) div 64"
  for m n :: nat
proof -
  show "m div 64 < (n + 63) div 64" if "m < n" using that by linarith
  show "n div 64 < (n + 63) div 64" if "0 < n mod 64"
    using that div_mult_mod_eq [of n 64] by linarith
qed

text \<open>Result tracker_last_number: a tracker made for \<open>n\<close> inodes accepts the numbers below \<open>n\<close> rounded up
  to a multiple of 64. Inode numbers run from 1 to \<open>n\<close>, so when \<open>n\<close> is a multiple of 64 the last
  inode of the file system is out of range and every operation on it fails with \<open>EINVAL\<close>.\<close>

theorem tracker_last_number:
  assumes "evfs_bm_tracker_init True True True n = (0, Some t, objs)"
  shows "(m < n \<longrightarrow> in_range t m) \<and>
         (n mod 64 = 0 \<longrightarrow> \<not> in_range t n \<and> evfs_tas t n = (Some (- EINVAL), Some t)) \<and>
         (n mod 64 \<noteq> 0 \<longrightarrow> in_range t n)"
proof -
  note nb = init_props(3) [OF assms]
  have "n mod 64 = 0 \<Longrightarrow> \<not> in_range t n"
    by (auto simp: in_range_def nb)
  moreover have "m < n \<longrightarrow> in_range t m" "n mod 64 \<noteq> 0 \<longrightarrow> in_range t n"
    by (simp_all add: in_range_def nb ceil64)
  ultimately show ?thesis using bmt.out [of t n] by auto
qed

theorem tracker_last_number_witness:
  "\<exists>t. evfs_bm_tracker_init True True True 128 =
         (0, Some t, [Tracker, Bitmap_array, Rwsem_array]) \<and>
       in_range t 127 \<and> evfs_tas t 128 = (Some (- EINVAL), Some t)"
proof -
  have "evfs_bm_tracker_init True True True 128 =
      (0, Some \<lparr>bitmaps = replicate 2 None, num_bitmaps = 2\<rparr>, [Tracker, Bitmap_array, Rwsem_array])"
    by (simp add: evfs_bm_tracker_init_def)
  from tracker_last_number [OF this, of 127] this show ?thesis by auto
qed

text \<open>The objects a tracker holds, and what \<open>evfs_bm_tracker_final\<close> frees.\<close>

definition live_bitmaps :: "evfs_bm_tracker \<Rightarrow> nat list" where
  "live_bitmaps t = filter (evfs_bm_test t) [0..<num_bitmaps t]"

lemma bm_final_loop:
  "n \<le> length (bitmaps t) \<Longrightarrow>
     bm_final_loop n t =
       (t\<lparr>bitmaps := replicate n None @ drop n (bitmaps t)\<rparr>,
        map Bitmap_of (filter (evfs_bm_test t) [0..<n]))"
proof (induction n)
  case 0
  then show ?case by simp
next
  case (Suc n)
  have d: "drop n (bitmaps t) = bitmaps t ! n # drop (Suc n) (bitmaps t)"
    using Suc.prems by (simp add: Cons_nth_drop_Suc)
  then show ?case
    using Suc.prems Suc.IH
    by (auto simp: evfs_bm_test_def evfs_bm_free_def Let_def list_update_append nth_append
        replicate_append_same [symmetric])
qed

text \<open>Result tracker_final_frees_all: tearing down a well-formed tracker frees every bitmap that was
  allocated, once and in order, and then the two arrays and the tracker itself: together with
  what \<open>evfs_bm_tracker_init\<close> allocated nothing is leaked. A missing tracker is \<open>EFAULT\<close>.\<close>

theorem tracker_final_frees_all:
  assumes "bmt_inv t"
  shows "evfs_bm_tracker_final (Some t) =
      (0, map Bitmap_of (live_bitmaps t) @ [Bitmap_array, Rwsem_array, Tracker]) \<and>
    evfs_bm_tracker_final None = (- EFAULT, [])"
  using assms bm_final_loop [of "num_bitmaps t" t]
  by (simp add: evfs_bm_tracker_final_def bmt_inv_def live_bitmaps_def)

theorem tracker_final_frees_all_witness:
  "bmt_inv \<lparr>bitmaps = [None, Some [5], Some [0]], num_bitmaps = 3\<rparr> \<and>
   evfs_bm_tracker_final (Some \<lparr>bitmaps = [None, Some [5], Some [0]], num_bitmaps = 3\<rparr>) =
     (0, [Bitmap_of 1, Bitmap_of 2, Bitmap_array, Rwsem_array, Tracker])"
proof -
  have i: "bmt_inv \<lparr>bitmaps = [None, Some [5], Some [0]], num_bitmaps = 3\<rparr>"
    by (auto simp: bmt_inv_def EXT4_EVFS_GRP_BM_LEN_def)
  show ?thesis
    using i tracker_final_frees_all [OF i]
    by (simp add: live_bitmaps_def evfs_bm_test_def upt_rec numeral_eq_Suc)
qed

text \<open>Result tracker_memory_faults: the two defects of the allocation paths. When the array of bitmaps
  or of semaphores cannot be allocated, \<open>evfs_bm_tracker_init\<close> returns \<open>ENOMEM\<close> and keeps what it
  already allocated. When a bitmap cannot be allocated, \<open>evfs_bit_wrapper\<close> ignores the error of
  \<open>evfs_bm_alloc\<close> and dereferences a NULL pointer.\<close>

theorem tracker_memory_faults:
  "evfs_bm_tracker_init True False c n = (- ENOMEM, None, [Tracker]) \<and>
   evfs_bm_tracker_init True True False n = (- ENOMEM, None, [Tracker, Bitmap_array]) \<and>
   evfs_bit_wrapper False (Some \<lparr>bitmaps = [None], num_bitmaps = 1\<rparr>) (EBO_BOOL test_and_set_bit) 7 =
     (None, Some \<lparr>bitmaps = [None], num_bitmaps = 1\<rparr>)"
  by (simp add: evfs_bm_tracker_init_def Let_def evfs_bit_wrapper_def evfs_bm_test_def
      evfs_bm_alloc_def)

end
