(* ===== verification/Evfs_State.thy ===== *)
theory Evfs_State
  imports Ext4_Gdesc Evfs_Bmt
begin

unbundle bit_operations_syntax

text \<open>
  The state the eVFS handlers of \<open>fs/ext4/evfs.c\<close> work on, and the kernel around them. The code
  that is not part of the repository (jbd2, the VFS, \<open>balloc.c\<close>, \<open>ialloc.c\<close>, \<open>inode.c\<close>, \<dots>) is
  the parameter \<open>kernel\<close>: its answers to the handlers' calls are an arbitrary function of the
  whole history of calls, and its pure functions are fields. A call that returns a pointer answers
  a negative error number (\<open>ERR_PTR\<close>), 0 (\<open>NULL\<close>) or a positive value (a valid pointer). Every call
  is appended to \<open>f_calls\<close>, so that the order of calls, the balance of locks and references and
  the bracketing of transactions are properties of the state.
\<close>

section \<open>Inodes\<close>

record inode =
  i_ino :: u64
  i_mode :: u16
  i_nlink :: u32
  i_uid :: u32
  i_gid :: u32
  i_rdev :: u32
  i_version :: u64
  i_size :: int
  i_blkbits :: nat
  i_blocks :: int
  i_atime :: timespec64
  i_mtime :: timespec64
  i_ctime :: timespec64
  i_generation :: u32
  i_crtime :: timespec64
  i_data :: "u32 list"
  i_dir_start_lookup :: u32
  i_disksize :: int
  i_flags :: u32
  i_file_acl :: u64
  i_dtime :: u32
  i_block_group :: u32
  i_last_alloc_group :: u32
  i_csum_seed :: u32
  i_state_new :: bool
  i_noquota :: bool

abbreviation (input) S_IFMT :: u16 where "S_IFMT \<equiv> 0xF000"
abbreviation (input) S_IFREG :: u16 where "S_IFREG \<equiv> 0x8000"
abbreviation (input) S_IFDIR :: u16 where "S_IFDIR \<equiv> 0x4000"
abbreviation (input) S_IFBLK :: u16 where "S_IFBLK \<equiv> 0x6000"
abbreviation (input) S_IFCHR :: u16 where "S_IFCHR \<equiv> 0x2000"

definition S_ISREG :: "u16 \<Rightarrow> bool" where "S_ISREG m = (m AND S_IFMT = S_IFREG)"
definition S_ISDIR :: "u16 \<Rightarrow> bool" where "S_ISDIR m = (m AND S_IFMT = S_IFDIR)"
definition S_ISBLK :: "u16 \<Rightarrow> bool" where "S_ISBLK m = (m AND S_IFMT = S_IFBLK)"
definition S_ISCHR :: "u16 \<Rightarrow> bool" where "S_ISCHR m = (m AND S_IFMT = S_IFCHR)"

section \<open>Extents\<close>

text \<open>\<open>ee_pblock\<close> is the number that \<open>ext4_ext_pblock\<close> reads and \<open>ext4_ext_store_pblock\<close> writes.\<close>

type_synonym ext4_lblk_t = u32

record ext4_extent =
  ee_block :: ext4_lblk_t
  ee_len :: u16
  ee_pblock :: u64

section \<open>Calls out of the modelled code\<close>

datatype buffer =
    Block_bitmap ext4_group_t
  | Inode_bitmap ext4_group_t
  | Group_desc ext4_group_t
  | Dir_block u64
  | Ext_block u64 nat

datatype kcall =
    Read_block_bitmap ext4_group_t
  | Read_inode_bitmap ext4_group_t
  | Get_group_desc ext4_group_t
  | Journal_start u64 nat
  | Journal_stop
  | Get_write_access buffer
  | Handle_dirty_metadata buffer
  | Brelse buffer
  | Lock_group ext4_group_t
  | Unlock_group ext4_group_t
  | Lock_sbh
  | Unlock_sbh
  | Iget u64
  | Iput u64
  | Inode_lock u64
  | Inode_unlock u64
  | Inode_lock_shared u64
  | Inode_unlock_shared u64
  | New_inode
  | Dquot_initialize u64
  | Dquot_alloc_inode u64
  | Dquot_free_inode u64
  | Dquot_drop u64
  | Insert_inode_locked u64
  | Unlock_new_inode u64
  | Mark_inode_dirty u64
  | Orphan_add u64
  | Orphan_del u64
  | Ihold u64
  | Should_retry_alloc
  | Get_random_u32
  | Set_inode_flags u64
  | Kzalloc
  | D_find_any_alias u64
  | D_alloc u64 "u8 list"
  | D_add u64
  | D_instantiate u64
  | Dput_parent u64
  | Dput_child "u8 list"
  | Bread u64 u32
  | Find_entry u64 "u8 list"
  | Add_entry u64 "u8 list" u64
  | Delete_entry u64 "u8 list"
  | Down_read_data_sem u64
  | Up_read_data_sem u64
  | Down_write_data_sem u64
  | Up_write_data_sem u64
  | Dio_wait u64
  | Es_remove_extent u64 u32 u32
  | Find_extent u64 u32
  | Free_ext_path u64
  | Ext_get_access u64
  | Ext_dirty u64
  | Insert_extent u64
  | Copy_from_user
  | Copy_to_user
  | Kmalloc u64
  | Kfree

section \<open>The file system state\<close>

record fs =
  f_sb :: super_block
  f_tracker :: "evfs_bm_tracker option"
  f_gdesc :: "ext4_group_t \<Rightarrow> ext4_group_desc"
  f_bbitmap :: "ext4_group_t \<Rightarrow> nat \<Rightarrow> bool"
  f_ibitmap :: "ext4_group_t \<Rightarrow> nat \<Rightarrow> bool"
  f_inodes :: "u64 \<Rightarrow> inode"
  f_dirblk :: "u64 \<Rightarrow> u8 list"
  f_extents :: "u64 \<Rightarrow> ext4_extent list"
  f_now :: timespec64
  f_calls :: "kcall list"

record kernel =
  answer :: "kcall list \<Rightarrow> kcall \<Rightarrow> int"
  ext4_get_group_no_and_offset :: "super_block \<Rightarrow> ext4_fsblk_t \<Rightarrow> ext4_group_t \<times> nat"
  ext4_free_clusters_after_init :: "super_block \<Rightarrow> ext4_group_t \<Rightarrow> ext4_group_desc \<Rightarrow> u32"
  ext4_block_bitmap_csum_set :: "super_block \<Rightarrow> ext4_group_desc \<Rightarrow> (nat \<Rightarrow> bool) \<Rightarrow> ext4_group_desc"
  ext4_inode_bitmap_csum_set :: "super_block \<Rightarrow> ext4_group_desc \<Rightarrow> (nat \<Rightarrow> bool) \<Rightarrow> u64 \<Rightarrow> ext4_group_desc"
  chksum :: "u32 \<Rightarrow> u8 list \<Rightarrow> u32"
  crc16 :: "u16 \<Rightarrow> u8 list \<Rightarrow> u16"
  chksum_es :: "u32 \<Rightarrow> ext4_super_block \<Rightarrow> u32"
  drop_nlink :: "inode \<Rightarrow> inode"
  inc_nlink :: "inode \<Rightarrow> inode"
  set_nlink :: "inode \<Rightarrow> u32 \<Rightarrow> inode"
  clear_nlink :: "inode \<Rightarrow> inode"
  fresh_inode :: inode
  entry_inode :: "kcall list \<Rightarrow> u32"
  leaf_bounds :: "kcall list \<Rightarrow> nat \<Rightarrow> nat \<times> nat"

type_synonym 'a handler = "(fs, 'a) state"

text \<open>A call whose answer the code looks at, and one that returns nothing.\<close>

definition call :: "kernel \<Rightarrow> kcall \<Rightarrow> int handler" where
  "call K c = State (\<lambda>s. (answer K (f_calls s) c, s\<lparr>f_calls := f_calls s @ [c]\<rparr>))"

definition void_call :: "kcall \<Rightarrow> unit handler" where
  "void_call c = modify (\<lambda>s. s\<lparr>f_calls := f_calls s @ [c]\<rparr>)"

lemma wp_call [wp, simp]:
  "wp (call K c) Q s = Q (answer K (f_calls s) c) (s\<lparr>f_calls := f_calls s @ [c]\<rparr>)"
  by (simp add: call_def wp_def)

lemma wp_void_call [wp, simp]: "wp (void_call c) Q s = Q () (s\<lparr>f_calls := f_calls s @ [c]\<rparr>)"
  by (simp add: void_call_def)

definition upd_sbi :: "(ext4_sb_info \<Rightarrow> ext4_sb_info) \<Rightarrow> fs \<Rightarrow> fs" where
  "upd_sbi f s = s\<lparr>f_sb := (f_sb s)\<lparr>s_fs_info := f (s_fs_info (f_sb s))\<rparr>\<rparr>"

definition upd_gdesc :: "ext4_group_t \<Rightarrow> (ext4_group_desc \<Rightarrow> ext4_group_desc) \<Rightarrow> fs \<Rightarrow> fs" where
  "upd_gdesc g f s = s\<lparr>f_gdesc := (f_gdesc s)(g := f (f_gdesc s g))\<rparr>"

definition upd_inode :: "u64 \<Rightarrow> (inode \<Rightarrow> inode) \<Rightarrow> fs \<Rightarrow> fs" where
  "upd_inode n f s = s\<lparr>f_inodes := (f_inodes s)(n := f (f_inodes s n))\<rparr>"

lemmas upd_defs = upd_sbi_def upd_gdesc_def upd_inode_def

text \<open>The bit operations on the bitmap buffers: the previous value of the bit.\<close>

definition test_and_set_bbitmap :: "ext4_group_t \<Rightarrow> nat \<Rightarrow> bool handler" where
  "test_and_set_bbitmap g off = State (\<lambda>s.
     (f_bbitmap s g off, s\<lparr>f_bbitmap := (f_bbitmap s)(g := (f_bbitmap s g)(off := True))\<rparr>))"

definition test_and_clear_bbitmap :: "ext4_group_t \<Rightarrow> nat \<Rightarrow> bool handler" where
  "test_and_clear_bbitmap g off = State (\<lambda>s.
     (f_bbitmap s g off, s\<lparr>f_bbitmap := (f_bbitmap s)(g := (f_bbitmap s g)(off := False))\<rparr>))"

definition test_and_set_ibitmap :: "ext4_group_t \<Rightarrow> nat \<Rightarrow> bool handler" where
  "test_and_set_ibitmap g off = State (\<lambda>s.
     (f_ibitmap s g off, s\<lparr>f_ibitmap := (f_ibitmap s)(g := (f_ibitmap s g)(off := True))\<rparr>))"

lemma wp_bitmaps [wp, simp]:
  "wp (test_and_set_bbitmap g off) Q s =
     Q (f_bbitmap s g off) (s\<lparr>f_bbitmap := (f_bbitmap s)(g := (f_bbitmap s g)(off := True))\<rparr>)"
  "wp (test_and_clear_bbitmap g off) Q s =
     Q (f_bbitmap s g off) (s\<lparr>f_bbitmap := (f_bbitmap s)(g := (f_bbitmap s g)(off := False))\<rparr>)"
  "wp (test_and_set_ibitmap g off) Q s =
     Q (f_ibitmap s g off) (s\<lparr>f_ibitmap := (f_ibitmap s)(g := (f_ibitmap s g)(off := True))\<rparr>)"
  by (simp_all add: test_and_set_bbitmap_def test_and_clear_bbitmap_def test_and_set_ibitmap_def wp_def)

section \<open>Balance of calls\<close>

text \<open>\<open>balance a b cs\<close> counts the calls \<open>a\<close> in a history minus the calls \<open>b\<close>.\<close>

definition balance :: "kcall \<Rightarrow> kcall \<Rightarrow> kcall list \<Rightarrow> int" where
  "balance a b cs = int (count_list cs a) - int (count_list cs b)"

lemma balance_append: "balance a b (cs @ ds) = balance a b cs + balance a b ds"
  by (simp add: balance_def)

lemma balance_Nil [simp]: "balance a b [] = 0"
  by (simp add: balance_def)

lemma balance_Cons:
  "balance a b (c # cs) = (if c = a then 1 else 0) - (if c = b then 1 else 0) + balance a b cs"
  by (auto simp: balance_def)

text \<open>Handlers that make only calls of a given kind, and calls in handlers that keep a part of the state.\<close>

definition calls_rel :: "kcall set \<Rightarrow> fs \<Rightarrow> fs \<Rightarrow> bool" where
  "calls_rel A s s' = (\<exists>cs. f_calls s' = f_calls s @ cs \<and> set cs \<subseteq> A)"

locale fs_closed = step_closed R for R :: "fs \<Rightarrow> fs \<Rightarrow> bool"

interpretation keeping_fs: fs_closed "keeps f" for f
  by unfold_locales

interpretation calling: fs_closed "calls_rel A" for A
proof
  show "calls_rel A s u" if "calls_rel A s t" "calls_rel A t u" for s t u
    using that by (auto simp: calls_rel_def)
qed (simp add: calls_rel_def)

lemma calls_rel_same [simp]: "f_calls s' = f_calls s \<Longrightarrow> calls_rel A s s'"
  by (simp add: calls_rel_def)

lemma stays_calls [stays_intros]:
  "c \<in> A \<Longrightarrow> stays (calls_rel A) (call K c)" "c \<in> A \<Longrightarrow> stays (calls_rel A) (void_call c)"
  by (auto simp: stays_def calls_rel_def)

lemma stays_keeps [stays_intros]:
  "(\<And>s cs. f (s\<lparr>f_calls := cs\<rparr>) = f s) \<Longrightarrow> stays (keeps f) (call K c)"
  "(\<And>s cs. f (s\<lparr>f_calls := cs\<rparr>) = f s) \<Longrightarrow> stays (keeps f) (void_call c)"
  by (auto simp: stays_def keeps_def)

lemma calls_in_rule:
  "stays (calls_rel A) m \<Longrightarrow> (\<And>r s' cs. f_calls s' = f_calls s @ cs \<Longrightarrow> set cs \<subseteq> A \<Longrightarrow> Q r s') \<Longrightarrow> wp m Q s"
  by (erule stays_rule) (auto simp: calls_rel_def)

lemma balance_outside:
  assumes "set cs \<subseteq> A" "a \<notin> A" "b \<notin> A"
  shows "balance a b cs = 0" "count_list cs a = 0"
proof -
  have "a \<notin> set cs" "b \<notin> set cs" using assms by auto
  then show "balance a b cs = 0" "count_list cs a = 0" by (simp_all add: balance_def)
qed

section \<open>Facts about the state updates\<close>

lemma upd_sbi_frame [simp]:
  "f_calls (upd_sbi f s) = f_calls s" "f_bbitmap (upd_sbi f s) = f_bbitmap s"
  "f_ibitmap (upd_sbi f s) = f_ibitmap s" "f_gdesc (upd_sbi f s) = f_gdesc s"
  "f_inodes (upd_sbi f s) = f_inodes s" "f_tracker (upd_sbi f s) = f_tracker s"
  by (simp_all add: upd_sbi_def)

lemma upd_gdesc_frame [simp]:
  "f_calls (upd_gdesc g f s) = f_calls s" "f_bbitmap (upd_gdesc g f s) = f_bbitmap s"
  "f_ibitmap (upd_gdesc g f s) = f_ibitmap s" "f_sb (upd_gdesc g f s) = f_sb s"
  "f_inodes (upd_gdesc g f s) = f_inodes s" "f_tracker (upd_gdesc g f s) = f_tracker s"
  "f_gdesc (upd_gdesc g f s) h = (if h = g then f (f_gdesc s g) else f_gdesc s h)"
  by (simp_all add: upd_gdesc_def)

lemma upd_inode_frame [simp]:
  "f_calls (upd_inode n f s) = f_calls s" "f_bbitmap (upd_inode n f s) = f_bbitmap s"
  "f_ibitmap (upd_inode n f s) = f_ibitmap s" "f_gdesc (upd_inode n f s) = f_gdesc s"
  "f_sb (upd_inode n f s) = f_sb s" "f_tracker (upd_inode n f s) = f_tracker s"
  "f_inodes (upd_inode n f s) m = (if m = n then f (f_inodes s n) else f_inodes s m)"
  by (simp_all add: upd_inode_def)

section \<open>A small file system\<close>

text \<open>
  A concrete file system of two groups of four blocks and 32 inodes, all free, and a kernel that
  answers every call with success: the inputs at which the properties of the handlers are shown to
  apply.
\<close>

definition demo_time :: timespec64 where
  "demo_time = \<lparr>tv_sec = 0, tv_nsec = 0\<rparr>"

definition demo_es :: ext4_super_block where
  "demo_es =
     \<lparr>es_inodes_count = 64, es_blocks_count_lo = 8, es_r_blocks_count_lo = 0,
     es_free_blocks_count_lo = 8, es_free_inodes_count = 64, es_first_data_block = 0,
     es_log_block_size = 0, es_log_cluster_size = 0, es_blocks_per_group = 4,
     es_clusters_per_group = 4, es_inodes_per_group = 32, es_state = 0, es_creator_os = 0,
     es_rev_level = 1, es_first_ino = 11, es_inode_size = 256, es_feature_compat = 0,
     es_feature_incompat = 0, es_feature_ro_compat = 0, es_uuid = [],
     es_reserved_gdt_blocks = 0, es_desc_size = 0, es_first_meta_bg = 0, es_blocks_count_hi = 0,
     es_r_blocks_count_hi = 0, es_free_blocks_count_hi = 0, es_raid_stride = 0,
     es_raid_stripe_width = 0, es_checksum_type = 0, es_encryption_level = 0, es_checksum = 0\<rparr>"

definition demo_sbi :: ext4_sb_info where
  "demo_sbi =
     \<lparr>s_desc_size = 32, s_inodes_per_block = 0, s_blocks_per_group = 4, s_clusters_per_group = 4,
     s_inodes_per_group = 32, s_itb_per_group = 0, s_desc_per_block = 0, s_groups_count = 2,
     s_blockfile_groups = 0, s_cluster_ratio = 1, s_cluster_bits = 0, s_es = demo_es,
     s_mount_opt2 = 0, s_resv_clusters = 0, s_inode_size = 256, s_first_ino = 11,
     s_freeclusters_counter = 8, s_freeinodes_counter = 64, s_stripe = 0, s_csum_seed = 0,
     s_chksum_driver = False, s_log_groups_per_flex = 0, s_bitmap_maxbytes = 0, s_mount_state = 0,
     s_addr_per_block_bits = 8, s_desc_per_block_bits = 5, s_gdb_count = 1\<rparr>"

definition demo_sb :: super_block where
  "demo_sb =
     \<lparr>s_blocksize = 1024, s_blocksize_bits = 10, s_maxbytes = 0, sb_rdonly = False, s_dev = 0,
     s_fs_info = demo_sbi\<rparr>"

definition demo_gdesc :: ext4_group_desc where
  "demo_gdesc =
     \<lparr>bg_block_bitmap_lo = 0, bg_inode_bitmap_lo = 0, bg_inode_table_lo = 0,
     bg_free_blocks_count_lo = 4, bg_free_inodes_count_lo = 32, bg_used_dirs_count_lo = 0,
     bg_flags = 0, bg_exclude_bitmap_lo = 0, bg_block_bitmap_csum_lo = 0,
     bg_inode_bitmap_csum_lo = 0, bg_itable_unused_lo = 32, bg_checksum = 0,
     bg_block_bitmap_hi = 0, bg_inode_bitmap_hi = 0, bg_inode_table_hi = 0,
     bg_free_blocks_count_hi = 0, bg_free_inodes_count_hi = 0, bg_used_dirs_count_hi = 0,
     bg_itable_unused_hi = 0, bg_exclude_bitmap_hi = 0, bg_block_bitmap_csum_hi = 0,
     bg_inode_bitmap_csum_hi = 0, bg_reserved = 0\<rparr>"

definition demo_inode :: inode where
  "demo_inode =
     \<lparr>i_ino = 0, i_mode = 0x81A4, i_nlink = 1, i_uid = 0, i_gid = 0, i_rdev = 0, i_version = 0,
     i_size = 0, i_blkbits = 0, i_blocks = 0, i_atime = demo_time, i_mtime = demo_time,
     i_ctime = demo_time, i_generation = 0, i_crtime = demo_time, i_data = [],
     i_dir_start_lookup = 0, i_disksize = 0, i_flags = 0, i_file_acl = 0, i_dtime = 0,
     i_block_group = 0, i_last_alloc_group = 0, i_csum_seed = 0, i_state_new = False,
     i_noquota = False\<rparr>"

definition demo_fs :: fs where
  "demo_fs =
     \<lparr>f_sb = demo_sb, f_tracker = None, f_gdesc = (\<lambda>_. demo_gdesc), f_bbitmap = (\<lambda>_ _. False),
     f_ibitmap = (\<lambda>_ _. False), f_inodes = (\<lambda>n. demo_inode\<lparr>i_ino := n\<rparr>), f_dirblk = (\<lambda>_. []), f_extents = (\<lambda>_. []),
     f_now = demo_time, f_calls = []\<rparr>"

definition demo_answer :: "kcall list \<Rightarrow> kcall \<Rightarrow> int" where
  "demo_answer cs c = (case c of
     Read_block_bitmap g \<Rightarrow> 1 | Read_inode_bitmap g \<Rightarrow> 1 | Get_group_desc g \<Rightarrow> 1
   | Journal_start n k \<Rightarrow> 1 | Iget n \<Rightarrow> 1 | New_inode \<Rightarrow> 1 | Kzalloc \<Rightarrow> 1 | Kmalloc n \<Rightarrow> 1
   | D_find_any_alias n \<Rightarrow> 1 | D_alloc n nm \<Rightarrow> 1 | Bread n b \<Rightarrow> 1 | Find_entry n nm \<Rightarrow> 1
   | _ \<Rightarrow> 0)"

definition demo_kernel :: kernel where
  "demo_kernel =
     \<lparr>answer = demo_answer,
      ext4_get_group_no_and_offset = (\<lambda>sb b. (if b < 4 then 0 else 1, unat (b AND 3))),
      ext4_free_clusters_after_init = (\<lambda>_ _ _. 4),
      ext4_block_bitmap_csum_set = (\<lambda>_ gd _. gd), ext4_inode_bitmap_csum_set = (\<lambda>_ gd _ _. gd),
      chksum = (\<lambda>c _. c), crc16 = (\<lambda>c _. c), chksum_es = (\<lambda>c _. c),
      drop_nlink = (\<lambda>i. i\<lparr>i_nlink := i_nlink i - 1\<rparr>), inc_nlink = (\<lambda>i. i\<lparr>i_nlink := i_nlink i + 1\<rparr>),
      set_nlink = (\<lambda>i n. i\<lparr>i_nlink := n\<rparr>), clear_nlink = (\<lambda>i. i\<lparr>i_nlink := 0\<rparr>),
      fresh_inode = demo_inode, entry_inode = (\<lambda>_. 12), leaf_bounds = (\<lambda>_ k. (k, k))\<rparr>"

lemmas demo_defs = demo_time_def demo_es_def demo_sbi_def demo_sb_def demo_gdesc_def demo_inode_def
  demo_fs_def demo_answer_def demo_kernel_def

end
