(* ===== verification/Evfs_Block.thy ===== *)
theory Evfs_Block
  imports Evfs_State
begin

unbundle bit_operations_syntax

text \<open>
  Block allocation by number, block freeing by number and the free-space iterator of
  \<open>fs/ext4/evfs.c\<close>. The body between \<open>ext4_journal_start\<close> and the label \<open>stop_journal\<close> is a
  definition of its own, which returns the value of \<open>ret\<close> at the label.
\<close>

section \<open>Operations\<close>

definition EXT4_BG_INODE_UNINIT :: u16 where [flags]: "EXT4_BG_INODE_UNINIT = 0x0001"
definition EXT4_BG_BLOCK_UNINIT :: u16 where [flags]: "EXT4_BG_BLOCK_UNINIT = 0x0002"

definition group_csum_set :: "kernel \<Rightarrow> super_block \<Rightarrow> ext4_group_t \<Rightarrow> ext4_group_desc \<Rightarrow> ext4_group_desc" where
  "group_csum_set K sb grp gd = ext4_group_desc_csum_set (chksum K) (crc16 K) sb grp gd"

text \<open>
  The update of the group descriptor under the group lock: the free count, then, with descriptor
  checksums, the initialisation of an uninitialised group and the checksums.
\<close>

definition alloc_update_gdesc ::
    "kernel \<Rightarrow> super_block \<Rightarrow> ext4_group_t \<Rightarrow> (nat \<Rightarrow> bool) \<Rightarrow> ext4_group_desc \<Rightarrow> ext4_group_desc" where
  "alloc_update_gdesc K sb grp bitmap gd =
     (let sbi = EXT4_SB sb;
          gd = ext4_free_group_clusters_set sb gd
                 (EXT4_NUM_B2C sbi (EXT4_C2B sbi (ext4_free_group_clusters sb gd) - 1))
      in if ext4_has_group_desc_csum sb then
           (let gd = (if bg_flags gd AND EXT4_BG_BLOCK_UNINIT \<noteq> 0 then
                        (let gd = gd\<lparr>bg_flags := bg_flags gd AND NOT EXT4_BG_BLOCK_UNINIT\<rparr>
                         in ext4_free_group_clusters_set sb gd
                              (ext4_free_clusters_after_init K sb grp gd))
                      else gd);
                gd = ext4_block_bitmap_csum_set K sb gd bitmap
            in group_csum_set K sb grp gd)
         else gd)"

definition free_update_gdesc ::
    "kernel \<Rightarrow> super_block \<Rightarrow> ext4_group_t \<Rightarrow> (nat \<Rightarrow> bool) \<Rightarrow> ext4_group_desc \<Rightarrow> ext4_group_desc" where
  "free_update_gdesc K sb grp bitmap gd =
     (let sbi = EXT4_SB sb;
          gd = ext4_free_group_clusters_set sb gd
                 (EXT4_NUM_B2C sbi (EXT4_C2B sbi (ext4_free_group_clusters sb gd) + 1))
      in if ext4_has_group_desc_csum sb then
           group_csum_set K sb grp (ext4_block_bitmap_csum_set K sb gd bitmap)
         else gd)"

text \<open>The per-cpu cluster counter and the superblock's free block count and checksum.\<close>

definition percpu_freeclusters_add :: "int \<Rightarrow> fs \<Rightarrow> fs" where
  "percpu_freeclusters_add d =
     upd_sbi (\<lambda>sbi. sbi\<lparr>s_freeclusters_counter := s_freeclusters_counter sbi + d\<rparr>)"

definition sb_free_blocks_add :: "kernel \<Rightarrow> u64 \<Rightarrow> fs \<Rightarrow> fs" where
  "sb_free_blocks_add K d s =
     s\<lparr>f_sb := ext4_superblock_csum_set (chksum_es K)
        (upd_es (\<lambda>es. ext4_free_blocks_count_set es (ext4_free_blocks_count es + d)) (f_sb s))\<rparr>"

definition block_alloc_body :: "kernel \<Rightarrow> ext4_group_t \<Rightarrow> nat \<Rightarrow> int handler" where
  "block_alloc_body K grp offset = do {
     err \<leftarrow> call K (Get_write_access (Block_bitmap grp));
     if err < 0 then ret err else do {
     err \<leftarrow> call K (Get_write_access (Group_desc grp));
     if err < 0 then ret err else do {
     void_call (Lock_group grp);
     was_set \<leftarrow> test_and_set_bbitmap grp offset;
     if was_set then do {
       void_call (Unlock_group grp);
       ret (- EEXIST)
     } else do {
     modify (\<lambda>s. upd_gdesc grp (alloc_update_gdesc K (f_sb s) grp (f_bbitmap s grp)) s);
     void_call (Unlock_group grp);
     modify (\<lambda>s. percpu_freeclusters_add (- uint (EXT4_NUM_B2C (EXT4_SB (f_sb s)) 1)) s);
     void_call Lock_sbh;
     modify (sb_free_blocks_add K (- 1));
     void_call Unlock_sbh;
     err \<leftarrow> call K (Handle_dirty_metadata (Group_desc grp));
     if err < 0 then ret err else do {
     err \<leftarrow> call K (Handle_dirty_metadata (Block_bitmap grp));
     if err < 0 then ret err else ret 0
     }}}}}"

definition block_free_body :: "kernel \<Rightarrow> ext4_group_t \<Rightarrow> nat \<Rightarrow> int handler" where
  "block_free_body K grp offset = do {
     err \<leftarrow> call K (Get_write_access (Block_bitmap grp));
     if err < 0 then ret err else do {
     err \<leftarrow> call K (Get_write_access (Group_desc grp));
     if err < 0 then ret err else do {
     void_call (Lock_group grp);
     was_set \<leftarrow> test_and_clear_bbitmap grp offset;
     if \<not> was_set then do {
       void_call (Unlock_group grp);
       ret (- EEXIST)
     } else do {
     modify (\<lambda>s. upd_gdesc grp (free_update_gdesc K (f_sb s) grp (f_bbitmap s grp)) s);
     void_call (Unlock_group grp);
     modify (\<lambda>s. percpu_freeclusters_add (uint (EXT4_NUM_B2C (EXT4_SB (f_sb s)) 1)) s);
     void_call Lock_sbh;
     modify (sb_free_blocks_add K 1);
     void_call Unlock_sbh;
     err \<leftarrow> call K (Handle_dirty_metadata (Group_desc grp));
     if err < 0 then ret err else do {
     err \<leftarrow> call K (Handle_dirty_metadata (Block_bitmap grp));
     if err < 0 then ret err else ret 0
     }}}}}"

text \<open>
  The frame that both handlers share: read the bitmap and the descriptor, run the body inside a
  transaction, stop the transaction, release the bitmap.
\<close>

definition with_block_group :: "kernel \<Rightarrow> u64 \<Rightarrow> ext4_group_t \<Rightarrow> int handler \<Rightarrow> int handler" where
  "with_block_group K ino grp body = do {
     bitmap_bh \<leftarrow> call K (Read_block_bitmap grp);
     if bitmap_bh < 0 then ret bitmap_bh else do {
     grpdsc \<leftarrow> call K (Get_group_desc grp);
     if grpdsc = 0 then do {
       void_call (Brelse (Block_bitmap grp));
       ret (- EINVAL)
     } else do {
     handle \<leftarrow> call K (Journal_start ino 2);
     r \<leftarrow> (if handle < 0 then ret handle else do {
       r \<leftarrow> body;
       err \<leftarrow> call K Journal_stop;
       ret (if err < 0 then err else r)
     });
     void_call (Brelse (Block_bitmap grp));
     ret r
     }}}"

definition evfs_block_alloc :: "kernel \<Rightarrow> u64 \<Rightarrow> ext4_fsblk_t \<Rightarrow> int handler" where
  "evfs_block_alloc K ino bindex = do {
     sb \<leftarrow> gets f_sb;
     (case ext4_get_group_no_and_offset K sb bindex of
        (grp, offset) \<Rightarrow> with_block_group K ino grp (block_alloc_body K grp offset))
   }"

definition evfs_block_free :: "kernel \<Rightarrow> u64 \<Rightarrow> ext4_fsblk_t \<Rightarrow> int handler" where
  "evfs_block_free K ino bindex = do {
     sb \<leftarrow> gets f_sb;
     (case ext4_get_group_no_and_offset K sb bindex of
        (grp, offset) \<Rightarrow> with_block_group K ino grp (block_free_body K grp offset))
   }"

section \<open>Accounting\<close>

definition group_free_bits :: "fs \<Rightarrow> ext4_group_t \<Rightarrow> nat" where
  "group_free_bits s g = card {b. b < unat (s_clusters_per_group (EXT4_SB (f_sb s))) \<and> \<not> f_bbitmap s g b}"

definition blocks_accounted :: "fs \<Rightarrow> ext4_group_t \<Rightarrow> bool" where
  "blocks_accounted s g =
     (unat (ext4_free_group_clusters (f_sb s) (f_gdesc s g)) = group_free_bits s g)"

text \<open>The bitmap checksums of \<open>bitmap.c\<close> are stored in fields of their own.\<close>

definition bitmap_csum_ok :: "kernel \<Rightarrow> bool" where
  "bitmap_csum_ok K = (\<forall>sb gd bm n.
     ext4_free_group_clusters sb (ext4_block_bitmap_csum_set K sb gd bm) = ext4_free_group_clusters sb gd \<and>
     ext4_free_inodes_count sb (ext4_block_bitmap_csum_set K sb gd bm) = ext4_free_inodes_count sb gd \<and>
     ext4_itable_unused_count sb (ext4_block_bitmap_csum_set K sb gd bm) = ext4_itable_unused_count sb gd \<and>
     bg_flags (ext4_block_bitmap_csum_set K sb gd bm) = bg_flags gd \<and>
     ext4_free_group_clusters sb (ext4_inode_bitmap_csum_set K sb gd bm n) = ext4_free_group_clusters sb gd \<and>
     ext4_free_inodes_count sb (ext4_inode_bitmap_csum_set K sb gd bm n) = ext4_free_inodes_count sb gd \<and>
     ext4_itable_unused_count sb (ext4_inode_bitmap_csum_set K sb gd bm n) = ext4_itable_unused_count sb gd \<and>
     bg_flags (ext4_inode_bitmap_csum_set K sb gd bm n) = bg_flags gd)"

lemma bitmap_csum_okD:
  assumes "bitmap_csum_ok K"
  shows "ext4_free_group_clusters sb (ext4_block_bitmap_csum_set K sb gd bm) = ext4_free_group_clusters sb gd"
    "ext4_free_inodes_count sb (ext4_block_bitmap_csum_set K sb gd bm) = ext4_free_inodes_count sb gd"
    "ext4_itable_unused_count sb (ext4_block_bitmap_csum_set K sb gd bm) = ext4_itable_unused_count sb gd"
    "bg_flags (ext4_block_bitmap_csum_set K sb gd bm) = bg_flags gd"
    "ext4_free_group_clusters sb (ext4_inode_bitmap_csum_set K sb gd bm n) = ext4_free_group_clusters sb gd"
    "ext4_free_inodes_count sb (ext4_inode_bitmap_csum_set K sb gd bm n) = ext4_free_inodes_count sb gd"
    "ext4_itable_unused_count sb (ext4_inode_bitmap_csum_set K sb gd bm n) = ext4_itable_unused_count sb gd"
    "bg_flags (ext4_inode_bitmap_csum_set K sb gd bm n) = bg_flags gd"
  using assms by (simp_all add: bitmap_csum_ok_def)

lemma group_csum_set_frame [simp]:
  "ext4_free_group_clusters sb (group_csum_set K sb' g gd) = ext4_free_group_clusters sb gd"
  "ext4_free_inodes_count sb (group_csum_set K sb' g gd) = ext4_free_inodes_count sb gd"
  "ext4_itable_unused_count sb (group_csum_set K sb' g gd) = ext4_itable_unused_count sb gd"
  "bg_flags (group_csum_set K sb' g gd) = bg_flags gd"
  by (simp_all add: group_csum_set_def ext4_group_desc_csum_set_def gdesc_get_defs)

text \<open>The superblock fields that the accounting depends on are not touched by the counters.\<close>

definition same_geometry :: "super_block \<Rightarrow> super_block \<Rightarrow> bool" where
  "same_geometry sb sb' \<longleftrightarrow>
     EXT4_DESC_SIZE sb' = EXT4_DESC_SIZE sb \<and>
     s_clusters_per_group (EXT4_SB sb') = s_clusters_per_group (EXT4_SB sb) \<and>
     s_inodes_per_group (EXT4_SB sb') = s_inodes_per_group (EXT4_SB sb) \<and>
     s_cluster_bits (EXT4_SB sb') = s_cluster_bits (EXT4_SB sb) \<and>
     s_cluster_ratio (EXT4_SB sb') = s_cluster_ratio (EXT4_SB sb) \<and>
     es_feature_ro_compat (SB_ES sb') = es_feature_ro_compat (SB_ES sb) \<and>
     es_first_data_block (SB_ES sb') = es_first_data_block (SB_ES sb) \<and>
     s_blocks_per_group (EXT4_SB sb') = s_blocks_per_group (EXT4_SB sb) \<and>
     s_groups_count (EXT4_SB sb') = s_groups_count (EXT4_SB sb) \<and>
     ext4_blocks_count (SB_ES sb') = ext4_blocks_count (SB_ES sb) \<and>
     s_chksum_driver (EXT4_SB sb') = s_chksum_driver (EXT4_SB sb)"

lemma same_geometry_refl [simp]: "same_geometry sb sb"
  by (simp add: same_geometry_def)

lemma free_clusters_geometry:
  "same_geometry sb sb' \<Longrightarrow> ext4_free_group_clusters sb' gd = ext4_free_group_clusters sb gd"
  "same_geometry sb sb' \<Longrightarrow> ext4_free_inodes_count sb' gd = ext4_free_inodes_count sb gd"
  by (simp_all add: same_geometry_def ext4_free_group_clusters_def ext4_free_inodes_count_def)

lemma counters_geometry [simp]:
  "same_geometry (f_sb s) (f_sb (percpu_freeclusters_add d s))"
  "same_geometry (f_sb s) (f_sb (sb_free_blocks_add K e s))"
  by (simp_all add: same_geometry_def percpu_freeclusters_add_def sb_free_blocks_add_def
      upd_sbi_def EXT4_SB_def EXT4_DESC_SIZE_def ext4_superblock_csum_set_def upd_es_def
      ext4_free_blocks_count_set_def ext4_blocks_count_def ext4_read_incompat_64bit_val_def)

lemma same_geometry_trans:
  "same_geometry a b \<Longrightarrow> same_geometry b c \<Longrightarrow> same_geometry a c"
  by (simp add: same_geometry_def)

lemma same_geometry_sym: "same_geometry a b \<Longrightarrow> same_geometry b a"
  by (simp add: same_geometry_def)

lemma counters_geometry_iff [simp]:
  "same_geometry sb (f_sb (percpu_freeclusters_add d s)) = same_geometry sb (f_sb s)"
  "same_geometry sb (f_sb (sb_free_blocks_add K e s)) = same_geometry sb (f_sb s)"
  using counters_geometry same_geometry_trans same_geometry_sym by blast+

lemma counters_frame [simp]:
  "f_calls (percpu_freeclusters_add d s) = f_calls s"
  "f_bbitmap (percpu_freeclusters_add d s) = f_bbitmap s"
  "f_ibitmap (percpu_freeclusters_add d s) = f_ibitmap s"
  "f_gdesc (percpu_freeclusters_add d s) = f_gdesc s"
  "f_inodes (percpu_freeclusters_add d s) = f_inodes s"
  "f_tracker (percpu_freeclusters_add d s) = f_tracker s"
  "f_calls (sb_free_blocks_add K e s) = f_calls s"
  "f_bbitmap (sb_free_blocks_add K e s) = f_bbitmap s"
  "f_ibitmap (sb_free_blocks_add K e s) = f_ibitmap s"
  "f_gdesc (sb_free_blocks_add K e s) = f_gdesc s"
  "f_inodes (sb_free_blocks_add K e s) = f_inodes s"
  "f_tracker (sb_free_blocks_add K e s) = f_tracker s"
  by (simp_all add: percpu_freeclusters_add_def sb_free_blocks_add_def)

lemma card_set_bit:
  fixes off n :: nat
  assumes "off < n" "\<not> B off"
  shows "card {b. b < n \<and> \<not> B b} = Suc (card {b. b < n \<and> \<not> (B(off := True)) b})"
proof -
  have "{b. b < n \<and> \<not> B b} = insert off {b. b < n \<and> \<not> (B(off := True)) b}"
    using assms by auto
  moreover have "finite {b. b < n \<and> \<not> (B(off := True)) b}"
    by (rule finite_subset [of _ "{..<n}"]) auto
  moreover have "off \<notin> {b. b < n \<and> \<not> (B(off := True)) b}" by simp
  ultimately show ?thesis by (metis card_insert_disjoint)
qed

lemma card_clear_bit:
  fixes off n :: nat
  assumes "off < n" "B off"
  shows "card {b. b < n \<and> \<not> (B(off := False)) b} = Suc (card {b. b < n \<and> \<not> B b})"
  using card_set_bit [of off n "B(off := False)"] assms by (simp add: fun_upd_idem)

definition unclustered :: "super_block \<Rightarrow> bool" where
  "unclustered sb = (s_cluster_bits (EXT4_SB sb) = 0 \<and> s_cluster_ratio (EXT4_SB sb) = 1)"

lemma alloc_gdesc_count:
  assumes "bitmap_csum_ok K" "unclustered sb" "0 < ext4_free_group_clusters sb gd"
    and "\<not> (ext4_has_group_desc_csum sb \<and> bg_flags gd AND EXT4_BG_BLOCK_UNINIT \<noteq> 0)"
  shows "unat (ext4_free_group_clusters sb (alloc_update_gdesc K sb g bm gd)) =
    unat (ext4_free_group_clusters sb gd) - 1"
proof -
  have "bg_flags (ext4_free_group_clusters_set sb gd n) = bg_flags gd" for n
    by (simp add: ext4_free_group_clusters_set_def Let_def)
  then show ?thesis
    using assms free_clusters.dec [of sb gd]
    by (auto simp: alloc_update_gdesc_def Let_def unclustered_def bitmap_csum_okD)
qed


lemma free_gdesc_count:
  assumes "bitmap_csum_ok K" "unclustered sb"
    and "unat (ext4_free_group_clusters sb gd) + 1 < 2 ^ 32"
    and "\<not> wide_desc sb \<Longrightarrow> unat (ext4_free_group_clusters sb gd) + 1 < 2 ^ 16"
  shows "unat (ext4_free_group_clusters sb (free_update_gdesc K sb g bm gd)) =
    unat (ext4_free_group_clusters sb gd) + 1"
  using assms free_clusters.inc [of sb gd, simplified]
  by (auto simp: free_update_gdesc_def Let_def unclustered_def bitmap_csum_okD)

text \<open>
  A property that does not look at the history of calls goes through the frame of the two
  handlers: it suffices that the body keeps it.
\<close>

lemma with_block_group_keeps:
  assumes calls: "\<And>s cs. P (s\<lparr>f_calls := cs\<rparr>) = P s"
    and body: "\<And>s. P s \<Longrightarrow> wp body (\<lambda>_. P) s" and "P s"
  shows "wp (with_block_group K ino g body) (\<lambda>_. P) s"
  using assms(3) by (simp add: with_block_group_def calls)
    (auto intro: wp_mono [OF body] simp: calls)

lemma group_free_bits_frame [simp]:
  "group_free_bits (s\<lparr>f_calls := cs\<rparr>) g = group_free_bits s g"
  "group_free_bits (upd_gdesc h f s) g = group_free_bits s g"
  by (simp_all add: group_free_bits_def)

definition block_acct :: "super_block \<Rightarrow> ext4_group_t \<Rightarrow> (ext4_group_t \<Rightarrow> bool) \<Rightarrow> fs \<Rightarrow> bool" where
  "block_acct sb g A s \<longleftrightarrow> same_geometry sb (f_sb s) \<and> blocks_accounted s g \<and>
     (\<forall>h. h \<noteq> g \<longrightarrow> blocks_accounted s h = A h) \<and>
     \<not> (ext4_has_group_desc_csum sb \<and> bg_flags (f_gdesc s g) AND EXT4_BG_BLOCK_UNINIT \<noteq> 0)"

lemma has_csum_geometry:
  "same_geometry sb sb' \<Longrightarrow> ext4_has_group_desc_csum sb' = ext4_has_group_desc_csum sb"
  by (simp add: same_geometry_def ext4_has_group_desc_csum_def ext4_has_metadata_csum_def has_feature_defs)

lemma update_gdesc_flags:
  assumes "bitmap_csum_ok K"
  shows "\<not> (ext4_has_group_desc_csum sb \<and> bg_flags gd AND EXT4_BG_BLOCK_UNINIT \<noteq> 0) \<Longrightarrow>
      bg_flags (alloc_update_gdesc K sb g bm gd) = bg_flags gd"
    and "bg_flags (free_update_gdesc K sb g bm gd) = bg_flags gd"
  using assms
  by (auto simp: alloc_update_gdesc_def free_update_gdesc_def Let_def bitmap_csum_okD
      ext4_free_group_clusters_set_def)


lemma block_acct_calls [simp]: "block_acct sb g A (s\<lparr>f_calls := cs\<rparr>) = block_acct sb g A s"
  by (simp add: block_acct_def blocks_accounted_def)

lemma alloc_keeps_acct:
  assumes K: "bitmap_csum_ok K" "unclustered sb" "off < unat (s_clusters_per_group (EXT4_SB sb))"
    and s: "block_acct sb g A s" "\<not> f_bbitmap s g off"
  defines "s1 \<equiv> s\<lparr>f_bbitmap := (f_bbitmap s)(g := (f_bbitmap s g)(off := True))\<rparr>"
  shows "block_acct sb g A (upd_gdesc g (alloc_update_gdesc K (f_sb s1) g (f_bbitmap s1 g)) s1)"
proof -
  have geo: "same_geometry sb (f_sb s)" using s(1) by (simp add: block_acct_def)
  have n: "s_clusters_per_group (EXT4_SB (f_sb s)) = s_clusters_per_group (EXT4_SB sb)"
    using geo by (simp add: same_geometry_def)
  have bits: "group_free_bits s g = Suc (group_free_bits s1 g)"
    using card_set_bit [of off _ "f_bbitmap s g", OF K(3) s(2)] by (simp add: group_free_bits_def s1_def n)
  have uc: "unclustered (f_sb s)" using K(2) geo by (simp add: unclustered_def same_geometry_def)
  have cnt: "unat (ext4_free_group_clusters (f_sb s) (f_gdesc s g)) = Suc (group_free_bits s1 g)"
    using s(1) bits by (simp add: block_acct_def blocks_accounted_def)
  then have pos: "0 < ext4_free_group_clusters (f_sb s) (f_gdesc s g)"
    by (simp add: word_less_nat_alt)
  have fl: "\<not> (ext4_has_group_desc_csum (f_sb s) \<and> bg_flags (f_gdesc s g) AND EXT4_BG_BLOCK_UNINIT \<noteq> 0)"
    using s(1) has_csum_geometry [OF geo] by (simp add: block_acct_def)
  have h: "group_free_bits s1 h = group_free_bits s h" if "h \<noteq> g" for h
    using that by (simp add: group_free_bits_def s1_def)
  have s1: "f_sb s1 = f_sb s" "f_gdesc s1 = f_gdesc s" by (simp_all add: s1_def)
  have "blocks_accounted (upd_gdesc g (alloc_update_gdesc K (f_sb s1) g (f_bbitmap s1 g)) s1) h =
      (if h = g then True else blocks_accounted s h)" for h
    using h [of h] cnt alloc_gdesc_count [OF K(1) uc pos fl]
    by (simp add: blocks_accounted_def s1)
  then show ?thesis
    using s(1) update_gdesc_flags(1) [OF K(1) fl]
    by (auto simp: block_acct_def s1)
qed

lemma block_acct_counters [simp]:
  "block_acct sb g A (sb_free_blocks_add K e s) = block_acct sb g A s"
  "block_acct sb g A (percpu_freeclusters_add d s) = block_acct sb g A s"
  using counters_geometry(1) [of s d] counters_geometry(2) [of s K e]
  by (auto simp: block_acct_def blocks_accounted_def group_free_bits_def same_geometry_def
      ext4_free_group_clusters_def)

lemma block_alloc_body_acct:
  assumes K: "bitmap_csum_ok K" "unclustered sb" "off < unat (s_clusters_per_group (EXT4_SB sb))"
    and s: "block_acct sb g A s"
  shows "wp (block_alloc_body K g off) (\<lambda>_. block_acct sb g A) s"
proof -
  have upd: "block_acct sb g A (upd_gdesc g (alloc_update_gdesc K (f_sb s) g ((f_bbitmap s g)(off := True)))
      (s\<lparr>f_calls := cs, f_bbitmap := (f_bbitmap s)(g := (f_bbitmap s g)(off := True))\<rparr>))"
    if "\<not> f_bbitmap s g off" for cs
    using alloc_keeps_acct [OF K(1,2,3), of g A "s\<lparr>f_calls := cs\<rparr>"] s that by simp
  have same: "s'\<lparr>f_bbitmap := (f_bbitmap s')(g := (f_bbitmap s' g)(off := True))\<rparr> = s'"
    if "f_bbitmap s' g off" for s' :: fs using that by (simp add: fun_upd_idem)
  show ?thesis
    using s upd by (simp add: block_alloc_body_def same)
qed

definition narrow_fits :: "super_block \<Rightarrow> bool" where
  "narrow_fits sb = (unat (s_clusters_per_group (EXT4_SB sb)) < (if wide_desc sb then 2 ^ 32 else 2 ^ 16))"

lemma free_keeps_acct:
  assumes K: "bitmap_csum_ok K" "unclustered sb" "off < unat (s_clusters_per_group (EXT4_SB sb))"
    and s: "block_acct sb g A s" "f_bbitmap s g off" and fits: "narrow_fits sb"
  defines "s1 \<equiv> s\<lparr>f_bbitmap := (f_bbitmap s)(g := (f_bbitmap s g)(off := False))\<rparr>"
  shows "block_acct sb g A (upd_gdesc g (free_update_gdesc K (f_sb s1) g (f_bbitmap s1 g)) s1)"
proof -
  have geo: "same_geometry sb (f_sb s)" using s(1) by (simp add: block_acct_def)
  have n: "s_clusters_per_group (EXT4_SB (f_sb s)) = s_clusters_per_group (EXT4_SB sb)"
    using geo by (simp add: same_geometry_def)
  have bits: "group_free_bits s1 g = Suc (group_free_bits s g)"
    using card_clear_bit [of off _ "f_bbitmap s g", OF K(3) s(2)] by (simp add: group_free_bits_def s1_def n)
  have uc: "unclustered (f_sb s)" using K(2) geo by (simp add: unclustered_def same_geometry_def)
  have cnt: "unat (ext4_free_group_clusters (f_sb s) (f_gdesc s g)) = group_free_bits s g"
    using s(1) by (simp add: block_acct_def blocks_accounted_def)
  have "group_free_bits s1 g \<le> card {..<unat (s_clusters_per_group (EXT4_SB sb))}"
    unfolding group_free_bits_def by (rule card_mono) (auto simp: s1_def n)
  then have le: "Suc (group_free_bits s g) \<le> unat (s_clusters_per_group (EXT4_SB sb))"
    using bits by simp
  have b32: "unat (ext4_free_group_clusters (f_sb s) (f_gdesc s g)) + 1 < 2 ^ 32"
    using le cnt fits by (simp add: narrow_fits_def split: if_splits)
  have b16: "unat (ext4_free_group_clusters (f_sb s) (f_gdesc s g)) + 1 < 2 ^ 16" if "\<not> wide_desc (f_sb s)"
    using that le cnt fits geo by (simp add: narrow_fits_def same_geometry_def)
  have h: "group_free_bits s1 h = group_free_bits s h" if "h \<noteq> g" for h
    using that by (simp add: group_free_bits_def s1_def)
  have s1: "f_sb s1 = f_sb s" "f_gdesc s1 = f_gdesc s" by (simp_all add: s1_def)
  have "blocks_accounted (upd_gdesc g (free_update_gdesc K (f_sb s1) g (f_bbitmap s1 g)) s1) h =
      (if h = g then True else blocks_accounted s h)" for h
    using h [of h] cnt bits free_gdesc_count [OF K(1) uc b32 b16]
    by (simp add: blocks_accounted_def s1)
  then show ?thesis
    using s(1) update_gdesc_flags(2) [OF K(1)]
    by (auto simp: block_acct_def s1)
qed

lemma block_free_body_acct:
  assumes K: "bitmap_csum_ok K" "unclustered sb" "off < unat (s_clusters_per_group (EXT4_SB sb))"
    and s: "block_acct sb g A s" and fits: "narrow_fits sb"
  shows "wp (block_free_body K g off) (\<lambda>_. block_acct sb g A) s"
proof -
  have upd: "block_acct sb g A (upd_gdesc g (free_update_gdesc K (f_sb s) g ((f_bbitmap s g)(off := False)))
      (s\<lparr>f_calls := cs, f_bbitmap := (f_bbitmap s)(g := (f_bbitmap s g)(off := False))\<rparr>))"
    if "f_bbitmap s g off" for cs
    using free_keeps_acct [OF K(1,2,3), of g A "s\<lparr>f_calls := cs\<rparr>"] s that fits by simp
  have same: "s'\<lparr>f_bbitmap := (f_bbitmap s')(g := (f_bbitmap s' g)(off := False))\<rparr> = s'"
    if "\<not> f_bbitmap s' g off" for s' :: fs using that by (simp add: fun_upd_idem)
  show ?thesis
    using s upd by (simp add: block_free_body_def same)
qed

text \<open>
  What the code relies on in \<open>ext4_get_group_no_and_offset\<close> of \<open>balloc.c\<close>: for the blocks of the file
  system it is a one-to-one map into pairs of a group and a bit below the group's size, and it
  depends on the geometry of the file system only.
\<close>

definition data_block :: "super_block \<Rightarrow> u64 \<Rightarrow> bool" where
  "data_block sb b = (ucast (es_first_data_block (SB_ES sb)) \<le> b \<and> b < ext4_blocks_count (SB_ES sb))"

definition group_map_ok :: "kernel \<Rightarrow> super_block \<Rightarrow> bool" where
  "group_map_ok K sb \<longleftrightarrow>
     (\<forall>b. data_block sb b \<longrightarrow>
        snd (ext4_get_group_no_and_offset K sb b) < unat (s_clusters_per_group (EXT4_SB sb))) \<and>
     inj_on (ext4_get_group_no_and_offset K sb) {b. data_block sb b} \<and>
     (\<forall>sb'. same_geometry sb sb' \<longrightarrow>
        ext4_get_group_no_and_offset K sb' = ext4_get_group_no_and_offset K sb)"

lemma group_map_okD:
  assumes "group_map_ok K sb"
  shows "data_block sb b \<Longrightarrow> snd (ext4_get_group_no_and_offset K sb b) < unat (s_clusters_per_group (EXT4_SB sb))"
    and "inj_on (ext4_get_group_no_and_offset K sb) {b. data_block sb b}"
    and "same_geometry sb sb' \<Longrightarrow> ext4_get_group_no_and_offset K sb' = ext4_get_group_no_and_offset K sb"
  using assms unfolding group_map_ok_def by blast+

lemma data_block_geometry: "same_geometry sb sb' \<Longrightarrow> data_block sb' = data_block sb"
  by (simp add: same_geometry_def data_block_def fun_eq_iff)

lemma group_map_ok_geometry:
  assumes "group_map_ok K sb" "same_geometry sb sb'"
  shows "group_map_ok K sb'"
proof -
  have "ext4_get_group_no_and_offset K sb' = ext4_get_group_no_and_offset K sb"
    "s_clusters_per_group (EXT4_SB sb') = s_clusters_per_group (EXT4_SB sb)"
    using group_map_okD(3) [OF assms] assms(2) by (simp_all add: same_geometry_def)
  then show ?thesis
    using group_map_okD [OF assms(1)] data_block_geometry [OF assms(2)] same_geometry_trans [OF assms(2)]
    unfolding group_map_ok_def by metis
qed

lemma with_block_group_acct:
  assumes "\<And>s. block_acct sb g A s \<Longrightarrow> wp body (\<lambda>_. block_acct sb g A) s"
    and "block_acct sb g A s"
  shows "wp (with_block_group K ino g body) (\<lambda>_. block_acct sb g A) s"
  using assms by (intro with_block_group_keeps) simp_all
  

lemma demo_kernel_laws:
  "bitmap_csum_ok demo_kernel" "group_map_ok demo_kernel demo_sb" "unclustered demo_sb"
  "narrow_fits demo_sb" "\<And>g. blocks_accounted demo_fs g" "data_block demo_sb 5"
proof -
  show "bitmap_csum_ok demo_kernel" by (simp add: bitmap_csum_ok_def demo_kernel_def)
  have le: "unat (x AND 3) < 4" for x :: u64
  proof -
    have "x AND 3 = take_bit 2 x" by (simp add: take_bit_eq_mask mask_eq_exp_minus_1)
    then show ?thesis by (simp add: unat_take_bit)
  qed
  have inj: "inj_on (\<lambda>b :: u64. (if b < 4 then 0 else 1 :: u32, unat (b AND 3))) {b. b < 8}"
  proof (rule inj_onI)
    fix x y :: u64
    assume *: "x \<in> {b. b < 8}" "y \<in> {b. b < 8}"
      "(if x < 4 then 0 else 1 :: u32, unat (x AND 3)) = (if y < 4 then 0 else 1, unat (y AND 3))"
    have low: "unat (z AND 3) = unat z mod 4" for z :: u64
    proof -
      have "z AND 3 = take_bit 2 z" by (simp add: take_bit_eq_mask mask_eq_exp_minus_1)
      then show ?thesis by (simp add: unat_take_bit)
    qed
    have "unat x < 8" "unat y < 8" using * by (simp_all add: word_less_nat_alt)
    moreover have "(unat x < 4) = (unat y < 4)" using * by (auto simp: word_less_nat_alt split: if_splits)
    moreover have "unat x mod 4 = unat y mod 4" using * by (simp add: low)
    moreover have "n mod 4 = (if n < 4 then n else n - 4)" if "n < 8" for n :: nat
      using that by (simp add: le_mod_geq)
    ultimately have "unat x = unat y" by (smt (verit) add_diff_inverse_nat)
    then show "x = y" by (simp add: word_unat_eq_iff)
  qed
  have count: "ext4_blocks_count (SB_ES demo_sb) = 8"
    by (simp add: demo_sb_def demo_sbi_def demo_es_def EXT4_SB_def ext4_blocks_count_def
        ext4_read_incompat_64bit_val_def)
  show "group_map_ok demo_kernel demo_sb"
    using le inj count
    by (simp add: group_map_ok_def data_block_def demo_kernel_def demo_sb_def demo_sbi_def demo_es_def EXT4_SB_def)
  show "unclustered demo_sb" "narrow_fits demo_sb"
    by (simp_all add: unclustered_def narrow_fits_def demo_sb_def demo_sbi_def EXT4_SB_def
        EXT4_DESC_SIZE_def EXT4_MIN_DESC_SIZE_64BIT_def)
  show "blocks_accounted demo_fs g" for g
    by (simp add: blocks_accounted_def group_free_bits_def demo_fs_def demo_sb_def demo_sbi_def
        demo_gdesc_def EXT4_SB_def ext4_free_group_clusters_def EXT4_DESC_SIZE_def EXT4_MIN_DESC_SIZE_64BIT_def)
  show "data_block demo_sb 5"
    using count by (simp add: data_block_def demo_sb_def demo_sbi_def demo_es_def EXT4_SB_def)
qed


section \<open>The block pool\<close>

text \<open>
  The contract of the two handlers, over the set of available blocks. The results are error codes;
  a handler that fails after it has changed the bitmap still reports its error, so that only a
  result of 0 fixes the effect, while every other result leaves the pool or changes it at the block
  in question.
\<close>

datatype 'b block_op = Alloc 'b | Free 'b

primrec run_ops :: "('b \<Rightarrow> 's \<Rightarrow> int \<times> 's) \<Rightarrow> ('b \<Rightarrow> 's \<Rightarrow> int \<times> 's) \<Rightarrow> 'b block_op list \<Rightarrow> 's \<Rightarrow> 's" where
  "run_ops alloc release [] s = s"
| "run_ops alloc release (op # ops) s =
     run_ops alloc release ops (snd (case op of Alloc b \<Rightarrow> alloc b s | Free b \<Rightarrow> release b s))"

locale block_pool =
  fixes alloc :: "'b \<Rightarrow> 's \<Rightarrow> int \<times> 's" and release :: "'b \<Rightarrow> 's \<Rightarrow> int \<times> 's"
    and avail :: "'s \<Rightarrow> 'b set" and ok :: "'s \<Rightarrow> bool" and valid :: "'b \<Rightarrow> bool"
  assumes alloc_law: "ok s \<Longrightarrow> valid b \<Longrightarrow> alloc b s = (r, s') \<Longrightarrow>
      ok s' \<and> (avail s' = avail s \<or> avail s' = avail s - {b}) \<and>
      (r = 0 \<longrightarrow> b \<in> avail s \<and> b \<notin> avail s')"
    and release_law: "ok s \<Longrightarrow> valid b \<Longrightarrow> release b s = (r, s') \<Longrightarrow>
      ok s' \<and> (avail s' = avail s \<or> avail s' = insert b (avail s)) \<and>
      (r = 0 \<longrightarrow> b \<notin> avail s \<and> b \<in> avail s')"
begin

lemma alloc_release:
  assumes "ok s" "valid b" "alloc b s = (0, s1)" "release b s1 = (0, s2)"
  shows "avail s2 = avail s"
  using alloc_law [OF assms(1-3)] release_law [of s1 b 0 s2] assms by auto

lemma alloc_taken: "ok s \<Longrightarrow> valid b \<Longrightarrow> b \<notin> avail s \<Longrightarrow> fst (alloc b s) \<noteq> 0"
  using alloc_law [of s b "fst (alloc b s)" "snd (alloc b s)"] by auto

lemma run_ops_taken:
  assumes "ok s" "b \<notin> avail s" "Free b \<notin> set ops"
    and "\<forall>c. Alloc c \<in> set ops \<or> Free c \<in> set ops \<longrightarrow> valid c"
  shows "ok (run_ops alloc release ops s) \<and> b \<notin> avail (run_ops alloc release ops s)"
  using assms
proof (induction ops arbitrary: s)
  case (Cons op ops)
  define s1 where "s1 = snd (case op of Alloc b \<Rightarrow> alloc b s | Free b \<Rightarrow> release b s)"
  have "ok s1 \<and> b \<notin> avail s1"
  proof (cases op)
    case (Alloc c)
    then show ?thesis
      using alloc_law [of s c "fst (alloc c s)" s1] Cons.prems s1_def by auto
  next
    case (Free c)
    then show ?thesis
      using release_law [of s c "fst (release c s)" s1] Cons.prems s1_def by auto
  qed
  with Cons.IH [of s1] Cons.prems show ?case by (auto simp: s1_def)
qed simp

lemma alloc_exclusive:
  assumes "ok s" "valid b" "alloc b s = (0, s1)" "Free b \<notin> set ops"
    and "\<forall>c. Alloc c \<in> set ops \<or> Free c \<in> set ops \<longrightarrow> valid c"
  shows "fst (alloc b (run_ops alloc release ops s1)) \<noteq> 0"
  using run_ops_taken [of s1 b ops] alloc_law [OF assms(1-3)] assms alloc_taken by auto

end

definition free_blocks :: "kernel \<Rightarrow> fs \<Rightarrow> u64 set" where
  "free_blocks K s = {b. data_block (f_sb s) b \<and>
     \<not> (case ext4_get_group_no_and_offset K (f_sb s) b of (g, off) \<Rightarrow> f_bbitmap s g off)}"

definition fs_like :: "super_block \<Rightarrow> fs \<Rightarrow> bool" where
  "fs_like sb s = same_geometry sb (f_sb s)"


text \<open>The effect on the bitmap and the geometry, for every body and every kernel.\<close>

definition bit_effect :: "super_block \<Rightarrow> fs \<Rightarrow> ext4_group_t \<Rightarrow> nat \<Rightarrow> bool \<Rightarrow> int \<Rightarrow> fs \<Rightarrow> bool" where
  "bit_effect sb s g off v r s' \<longleftrightarrow> same_geometry sb (f_sb s') \<and>
     (f_bbitmap s' = f_bbitmap s \<or> f_bbitmap s' = (f_bbitmap s)(g := (f_bbitmap s g)(off := v))) \<and>
     (r = 0 \<longrightarrow> f_bbitmap s g off \<noteq> v \<and> f_bbitmap s' g off = v)"

lemma bit_effect_calls [simp]: "bit_effect sb s g off v r (s'\<lparr>f_calls := cs\<rparr>) = bit_effect sb s g off v r s'"
  "bit_effect sb (s\<lparr>f_calls := cs\<rparr>) g off v = bit_effect sb s g off v"
  by (simp_all add: bit_effect_def fun_eq_iff)

lemma block_alloc_body_effect:
  assumes "same_geometry sb (f_sb s)"
  shows "wp (block_alloc_body K g off) (bit_effect sb s g off True) s"
  using assms
  by (auto simp: block_alloc_body_def bit_effect_def)

lemma block_free_body_effect:
  assumes "same_geometry sb (f_sb s)"
  shows "wp (block_free_body K g off) (bit_effect sb s g off False) s"
  using assms
  by (auto simp: block_free_body_def bit_effect_def)

lemma with_block_group_effect:
  assumes body: "\<And>cs. wp body (bit_effect sb s g off v) (s\<lparr>f_calls := cs\<rparr>)"
    and s: "same_geometry sb (f_sb s)"
  shows "wp (with_block_group K ino g body) (bit_effect sb s g off v) s"
proof -
  have err: "bit_effect sb s g off v r s" if "r < 0" for r
    using that s by (simp add: bit_effect_def)
  have weak: "bit_effect sb s g off v r s' \<Longrightarrow> r' < 0 \<Longrightarrow> bit_effect sb s g off v r' s'" for r r' s'
    by (auto simp: bit_effect_def)
  have "wp body (\<lambda>r. wp (call K Journal_stop \<bind> (\<lambda>err. ret (if err < 0 then err else r)))
      (\<lambda>r. wp (void_call (Brelse (Block_bitmap g)) \<bind> (\<lambda>_. ret r)) (bit_effect sb s g off v)))
    (s\<lparr>f_calls := cs\<rparr>)" for cs
    by (rule wp_mono [OF body]) (auto intro: weak)
  then show ?thesis
    by (simp add: with_block_group_def err)
qed

lemma free_blocks_effect:
  assumes "bit_effect (f_sb s) s g off v r s'" "group_map_ok K (f_sb s)" "data_block (f_sb s) b"
    and "ext4_get_group_no_and_offset K (f_sb s) b = (g, off)"
  shows "(free_blocks K s' = free_blocks K s \<or>
      free_blocks K s' = (if v then free_blocks K s - {b} else insert b (free_blocks K s))) \<and>
    (r = 0 \<longrightarrow> (b \<in> free_blocks K s) = v \<and> (b \<in> free_blocks K s') = (\<not> v))"
proof -
  have sb: "same_geometry (f_sb s) (f_sb s')" using assms(1) by (simp add: bit_effect_def)
  have map: "ext4_get_group_no_and_offset K (f_sb s') = ext4_get_group_no_and_offset K (f_sb s)"
    using group_map_okD(3) [OF assms(2) sb] .
  have other: "ext4_get_group_no_and_offset K (f_sb s) c \<noteq> (g, off)"
    if "data_block (f_sb s) c" "c \<noteq> b" for c
    using inj_onD [OF group_map_okD(2) [OF assms(2)], of c b] assms(3,4) that by auto
  have mem: "c \<in> free_blocks K s' \<longleftrightarrow> data_block (f_sb s) c \<and>
      \<not> (case ext4_get_group_no_and_offset K (f_sb s) c of (g, off) \<Rightarrow> f_bbitmap s' g off)" for c
    by (simp add: free_blocks_def map data_block_geometry [OF sb])
  consider "f_bbitmap s' = f_bbitmap s" | "f_bbitmap s' = (f_bbitmap s)(g := (f_bbitmap s g)(off := v))"
    using assms(1) by (auto simp: bit_effect_def)
  then have "free_blocks K s' = free_blocks K s \<or>
      free_blocks K s' = (if v then free_blocks K s - {b} else insert b (free_blocks K s))"
  proof cases
    case 1
    then show ?thesis using mem by (auto simp: free_blocks_def)
  next
    case 2
    have "c \<in> free_blocks K s' \<longleftrightarrow> (if c = b then \<not> v else c \<in> free_blocks K s)" for c
      using other [of c] assms(3,4) unfolding mem
      by (cases "ext4_get_group_no_and_offset K (f_sb s) c") (auto simp: 2 free_blocks_def)
    then have "free_blocks K s' = (if v then free_blocks K s - {b} else insert b (free_blocks K s))"
      by (cases v) (simp_all add: set_eq_iff)
    then show ?thesis ..
  qed
  moreover have "r = 0 \<longrightarrow> (b \<in> free_blocks K s) = v \<and> (b \<in> free_blocks K s') = (\<not> v)"
  proof -
    have "b \<in> free_blocks K s \<longleftrightarrow> \<not> f_bbitmap s g off" "b \<in> free_blocks K s' \<longleftrightarrow> \<not> f_bbitmap s' g off"
      using assms(3,4) by (simp_all add: mem) (simp add: free_blocks_def)
    then show ?thesis using assms(1) by (auto simp: bit_effect_def)
  qed
  ultimately show ?thesis by blast
qed

lemma block_alloc_pool:
  assumes K: "group_map_ok K sb" and s: "same_geometry sb (f_sb s)" and b: "data_block sb b"
    and run: "run_state (evfs_block_alloc K ino b) s = (r, s')"
  shows "same_geometry sb (f_sb s') \<and>
    (free_blocks K s' = free_blocks K s \<or> free_blocks K s' = free_blocks K s - {b}) \<and>
    (r = 0 \<longrightarrow> b \<in> free_blocks K s \<and> b \<notin> free_blocks K s')"
proof -
  obtain g off where go: "ext4_get_group_no_and_offset K (f_sb s) b = (g, off)" by fastforce
  have K': "group_map_ok K (f_sb s)" "data_block (f_sb s) b"
    using group_map_ok_geometry [OF K s] b data_block_geometry [OF s] by simp_all
  have body: "wp (block_alloc_body K g off) (bit_effect (f_sb s) s g off True) (s\<lparr>f_calls := cs\<rparr>)" for cs
    using block_alloc_body_effect [of "f_sb s" "s\<lparr>f_calls := cs\<rparr>"] by simp
  have "wp (evfs_block_alloc K ino b) (bit_effect (f_sb s) s g off True) s"
    using with_block_group_effect [OF body] go by (simp add: evfs_block_alloc_def)
  then have e: "bit_effect (f_sb s) s g off True r s'" by (rule wpD [OF _ run])
  then have "same_geometry sb (f_sb s')"
    using same_geometry_trans [OF s] by (simp add: bit_effect_def)
  with free_blocks_effect [OF e K' go] show ?thesis by simp
qed

lemma block_free_pool:
  assumes K: "group_map_ok K sb" and s: "same_geometry sb (f_sb s)" and b: "data_block sb b"
    and run: "run_state (evfs_block_free K ino b) s = (r, s')"
  shows "same_geometry sb (f_sb s') \<and>
    (free_blocks K s' = free_blocks K s \<or> free_blocks K s' = insert b (free_blocks K s)) \<and>
    (r = 0 \<longrightarrow> b \<notin> free_blocks K s \<and> b \<in> free_blocks K s')"
proof -
  obtain g off where go: "ext4_get_group_no_and_offset K (f_sb s) b = (g, off)" by fastforce
  have K': "group_map_ok K (f_sb s)" "data_block (f_sb s) b"
    using group_map_ok_geometry [OF K s] b data_block_geometry [OF s] by simp_all
  have body: "wp (block_free_body K g off) (bit_effect (f_sb s) s g off False) (s\<lparr>f_calls := cs\<rparr>)" for cs
    using block_free_body_effect [of "f_sb s" "s\<lparr>f_calls := cs\<rparr>"] by simp
  have "wp (evfs_block_free K ino b) (bit_effect (f_sb s) s g off False) s"
    using with_block_group_effect [OF body] go by (simp add: evfs_block_free_def)
  then have e: "bit_effect (f_sb s) s g off False r s'" by (rule wpD [OF _ run])
  then have "same_geometry sb (f_sb s')"
    using same_geometry_trans [OF s] by (simp add: bit_effect_def)
  with free_blocks_effect [OF e K' go] show ?thesis by simp
qed

interpretation ext4_blocks: block_pool "\<lambda>b. run_state (evfs_block_alloc K ino b)"
    "\<lambda>b. run_state (evfs_block_free K ino b)" "free_blocks K"
    "\<lambda>s. group_map_ok K sb \<and> same_geometry sb (f_sb s)" "data_block sb" for K ino sb
  using block_alloc_pool block_free_pool by unfold_locales blast+

text \<open>
  C15 block_alloc_refines_pool: on the set of free blocks of the file system, a successful
  \<open>evfs_block_alloc\<close> takes exactly the block asked for, which was free, and a successful
  \<open>evfs_block_free\<close> gives back exactly that block, which was in use; a failing call changes the
  set at that block or not at all.
\<close>

theorem block_alloc_refines_pool:
  assumes "group_map_ok K (f_sb s)" "data_block (f_sb s) b"
  shows "wp (evfs_block_alloc K ino b) (\<lambda>r s'.
      (free_blocks K s' = free_blocks K s \<or> free_blocks K s' = free_blocks K s - {b}) \<and>
      (r = 0 \<longrightarrow> b \<in> free_blocks K s \<and> free_blocks K s' = free_blocks K s - {b})) s \<and>
    wp (evfs_block_free K ino b) (\<lambda>r s'.
      (free_blocks K s' = free_blocks K s \<or> free_blocks K s' = insert b (free_blocks K s)) \<and>
      (r = 0 \<longrightarrow> b \<notin> free_blocks K s \<and> free_blocks K s' = insert b (free_blocks K s))) s"
  using ext4_blocks.alloc_law [of K "f_sb s" s b ino] ext4_blocks.release_law [of K "f_sb s" s b ino] assms
  by (auto simp: wp_def split: prod.splits)

theorem block_alloc_refines_pool_witness:
  "wp (evfs_block_alloc demo_kernel 2 5) (\<lambda>r s'. r = 0 \<longrightarrow> 5 \<in> free_blocks demo_kernel demo_fs) demo_fs"
  using block_alloc_refines_pool [of demo_kernel demo_fs 5 2] demo_kernel_laws
  by (auto simp: demo_fs_def elim!: wp_mono)

text \<open>
  Result block_alloc_exclusive: a block handed out by \<open>evfs_block_alloc\<close> is not handed out a second time
  by any later call, whatever other blocks are allocated and freed in between, as long as nobody
  asks to free it.
\<close>

theorem block_alloc_exclusive:
  assumes "group_map_ok K (f_sb s)" "data_block (f_sb s) b"
    and "run_state (evfs_block_alloc K ino b) s = (0, s1)"
    and "Free b \<notin> set ops"
    and "\<forall>c. Alloc c \<in> set ops \<or> Free c \<in> set ops \<longrightarrow> data_block (f_sb s) c"
  shows "fst (run_state (evfs_block_alloc K ino b)
    (run_ops (\<lambda>b. run_state (evfs_block_alloc K ino b)) (\<lambda>b. run_state (evfs_block_free K ino b)) ops s1)) \<noteq> 0"
  using ext4_blocks.alloc_exclusive [of K "f_sb s" s b ino s1 ops] assms by simp

lemma demo_alloc: "\<exists>s1. run_state (evfs_block_alloc demo_kernel 2 5) demo_fs = (0, s1)"
proof -
  have "wp (evfs_block_alloc demo_kernel 2 5) (\<lambda>r _. r = 0) demo_fs"
    by (simp add: evfs_block_alloc_def with_block_group_def block_alloc_body_def demo_fs_def
        demo_kernel_def demo_answer_def)
  then show ?thesis by (auto simp: wp_def split: prod.splits)
qed

theorem block_alloc_exclusive_witness:
  "\<exists>s1. run_state (evfs_block_alloc demo_kernel 2 5) demo_fs = (0, s1) \<and>
     fst (run_state (evfs_block_alloc demo_kernel 2 5)
       (run_ops (\<lambda>b. run_state (evfs_block_alloc demo_kernel 2 b))
          (\<lambda>b. run_state (evfs_block_free demo_kernel 2 b)) [] s1)) \<noteq> 0"
proof -
  obtain s1 where s1: "run_state (evfs_block_alloc demo_kernel 2 5) demo_fs = (0, s1)"
    using demo_alloc by blast
  then show ?thesis
    using block_alloc_exclusive [of demo_kernel demo_fs 5 2 s1 "[]"] demo_kernel_laws(2,6)
    by (simp add: demo_fs_def)
qed

section \<open>The free-space iterator\<close>

text \<open>
  The loop of \<open>evfs_fspace_iter\<close>. Its counter is a 64-bit word and its bound is inclusive, so that
  it would not end for a block count of \<open>2\<^sup>6\<^sup>4 - 1\<close>; not ending is the value \<open>None\<close>.
\<close>

partial_function (option) fspace_loop ::
    "kernel \<Rightarrow> u64 \<Rightarrow> u64 \<Rightarrow> bool \<Rightarrow> u64 \<Rightarrow> u64 \<Rightarrow> fs \<Rightarrow> (u64 \<times> u64 \<times> fs) option" where
  "fspace_loop K total_blocks b in_free_extent found_start found_length s =
     (if b \<le> total_blocks then
        (case ext4_get_group_no_and_offset K (f_sb s) b of (grp, offset) \<Rightarrow>
         (case run_state (call K (Read_block_bitmap grp)) s of (bitmap_bh, s) \<Rightarrow>
          if bitmap_bh \<le> 0 then
            (if in_free_extent then Some (found_start, found_length, s)
             else fspace_loop K total_blocks (b + 1) in_free_extent found_start found_length s)
          else
            (let is_free = \<not> f_bbitmap s grp offset;
                 s = snd (run_state (void_call (Brelse (Block_bitmap grp))) s)
             in if is_free then
                  fspace_loop K total_blocks (b + 1) True
                    (if in_free_extent then found_start else b) (found_length + 1) s
                else if in_free_extent then Some (found_start, found_length, s)
                else fspace_loop K total_blocks (b + 1) in_free_extent found_start found_length s)))
      else Some (found_start, found_length, s))"

definition evfs_fspace_iter :: "kernel \<Rightarrow> u64 \<Rightarrow> fs \<Rightarrow> (int \<times> u64 \<times> u64 \<times> fs) option" where
  "evfs_fspace_iter K start s =
     (case fspace_loop K (ext4_blocks_count (SB_ES (f_sb s))) start False 0 0 s of
        None \<Rightarrow> None
      | Some (found_start, found_length, s') \<Rightarrow> Some (0, found_start, found_length, s'))"

text \<open>The blocks that the iterator counts as free, when a bitmap is readable or not by its group.\<close>

definition seen_free :: "kernel \<Rightarrow> (ext4_group_t \<Rightarrow> bool) \<Rightarrow> fs \<Rightarrow> u64 \<Rightarrow> bool" where
  "seen_free K rd s b = (case ext4_get_group_no_and_offset K (f_sb s) b of
     (g, off) \<Rightarrow> rd g \<and> \<not> f_bbitmap s g off)"

lemma seen_free_calls [simp]: "seen_free K rd (s\<lparr>f_calls := cs\<rparr>) = seen_free K rd s"
  by (simp add: seen_free_def fun_eq_iff)

lemma word_Suc_le:
  assumes "b \<le> tot" "tot < - 1"
  shows "unat ((b :: u64) + 1) = Suc (unat b)"
proof -
  have "unat b \<le> unat tot" "unat tot < 2 ^ 64 - 1"
    using assms by (simp_all add: word_le_nat_alt word_less_nat_alt unat_minus_1)
  then show ?thesis by (simp add: unat_word_ariths)
qed

text \<open>One round of the loop, as the three things it can do.\<close>

lemma fspace_loop_step:
  assumes "\<And>cs g. answer K cs (Read_block_bitmap g) > 0 \<longleftrightarrow> rd g"
  shows "\<exists>cs. fspace_loop K tot b ins st len s =
    (if \<not> b \<le> tot \<or> ins \<and> \<not> seen_free K rd s b then Some (st, len, s\<lparr>f_calls := cs\<rparr>)
     else if seen_free K rd s b then
       fspace_loop K tot (b + 1) True (if ins then st else b) (len + 1) (s\<lparr>f_calls := cs\<rparr>)
     else fspace_loop K tot (b + 1) False st len (s\<lparr>f_calls := cs\<rparr>))"
proof (cases "b \<le> tot")
  case True
  obtain g off where go: "ext4_get_group_no_and_offset K (f_sb s) b = (g, off)" by fastforce
  have rd: "answer K cs (Read_block_bitmap g) \<le> 0 \<longleftrightarrow> \<not> rd g" for cs
    using assms [of cs g] by linarith
  show ?thesis
    using True by (subst fspace_loop.simps)
      (auto simp: go seen_free_def call_def void_call_def rd Let_def)
next
  case False
  then show ?thesis
    by (subst fspace_loop.simps) (auto intro: exI [of _ "f_calls s"])
qed

definition free_run :: "(u64 \<Rightarrow> bool) \<Rightarrow> nat \<Rightarrow> nat \<Rightarrow> nat \<Rightarrow> nat \<Rightarrow> bool" where
  "free_run free lo tot st len \<longleftrightarrow>
     lo \<le> st \<and> st + len \<le> tot + 1 \<and> 0 < len \<and>
     (\<forall>i. lo \<le> i \<and> i < st \<longrightarrow> \<not> free (of_nat i)) \<and>
     (\<forall>i. st \<le> i \<and> i < st + len \<longrightarrow> free (of_nat i)) \<and>
     (st + len \<le> tot \<longrightarrow> \<not> free (of_nat (st + len)))"

lemma fspace_loop_inside:
  assumes rd: "\<And>cs g. answer K cs (Read_block_bitmap g) > 0 \<longleftrightarrow> rd g" and tot: "tot < - 1"
    and "0 < len" "unat st + unat len = unat b" "unat b \<le> unat tot + 1"
    and "\<forall>i. unat st \<le> i \<and> i < unat b \<longrightarrow> seen_free K rd s (of_nat i)"
  shows "\<exists>len' s'. fspace_loop K tot b True st len s = Some (st, len', s') \<and>
    unat st + unat len' \<le> unat tot + 1 \<and> len \<le> len' \<and>
    (\<forall>i. unat st \<le> i \<and> i < unat st + unat len' \<longrightarrow> seen_free K rd s (of_nat i)) \<and>
    (unat st + unat len' \<le> unat tot \<longrightarrow> \<not> seen_free K rd s (of_nat (unat st + unat len')))"
  using assms(3-6)
proof (induction "unat tot + 1 - unat b" arbitrary: b len s rule: less_induct)
  case less
  obtain cs where step: "fspace_loop K tot b True st len s =
    (if \<not> b \<le> tot \<or> \<not> seen_free K rd s b then Some (st, len, s\<lparr>f_calls := cs\<rparr>)
     else fspace_loop K tot (b + 1) True st (len + 1) (s\<lparr>f_calls := cs\<rparr>))"
    using fspace_loop_step [OF rd, where b = b and ins = True and st = st and len = len and s = s and tot = tot]
    by (fastforce cong: if_cong)
  show ?case
  proof (cases "b \<le> tot \<and> seen_free K rd s b")
    case True
    then have ub: "unat (b + 1) = Suc (unat b)" using word_Suc_le tot by blast
    have ul: "unat (len + 1) = Suc (unat len)"
    proof -
      have "unat len + 1 < 2 ^ 64"
        using less.prems(2) ub unsigned_less [of "b + 1", where 'a = nat] by simp
      then show ?thesis by (simp add: unat_word_ariths)
    qed
    have bt: "unat b \<le> unat tot" using True by (simp add: word_le_nat_alt)
    have "\<exists>len' s'. fspace_loop K tot (b + 1) True st (len + 1) (s\<lparr>f_calls := cs\<rparr>) = Some (st, len', s') \<and>
      unat st + unat len' \<le> unat tot + 1 \<and> len + 1 \<le> len' \<and>
      (\<forall>i. unat st \<le> i \<and> i < unat st + unat len' \<longrightarrow> seen_free K rd (s\<lparr>f_calls := cs\<rparr>) (of_nat i)) \<and>
      (unat st + unat len' \<le> unat tot \<longrightarrow>
        \<not> seen_free K rd (s\<lparr>f_calls := cs\<rparr>) (of_nat (unat st + unat len')))"
    proof (rule less.hyps)
      show "unat tot + 1 - unat (b + 1) < unat tot + 1 - unat b" using ub bt by simp
      show "0 < len + 1" using ul by (simp add: word_less_nat_alt)
      show "unat st + unat (len + 1) = unat (b + 1)" using ul ub less.prems(2) by simp
      show "unat (b + 1) \<le> unat tot + 1" using ub bt by simp
      show "\<forall>i. unat st \<le> i \<and> i < unat (b + 1) \<longrightarrow> seen_free K rd (s\<lparr>f_calls := cs\<rparr>) (of_nat i)"
        using less.prems(4) True ub by (auto simp: less_Suc_eq)
    qed
    moreover have "len \<le> len'" if "len + 1 \<le> len'" for len'
      using that ul by (simp add: word_le_nat_alt)
    ultimately show ?thesis using step True by auto
  next
    case False
    have "b = st + len"
      by (metis less.prems(2) of_nat_add of_nat_unat ucast_id)
    with False show ?thesis using step less.prems by (auto simp: word_le_nat_alt)
  qed
qed


lemma fspace_loop_search:
  assumes rd: "\<And>cs g. answer K cs (Read_block_bitmap g) > 0 \<longleftrightarrow> rd g" and tot: "tot < - 1"
    and "\<forall>i. lo \<le> i \<and> i < unat b \<longrightarrow> \<not> seen_free K rd s (of_nat i)" "lo \<le> unat b"
  shows "\<exists>st len s'. fspace_loop K tot b False 0 0 s = Some (st, len, s') \<and>
    (if len = 0 then st = 0 \<and> (\<forall>i. lo \<le> i \<and> i \<le> unat tot \<longrightarrow> \<not> seen_free K rd s (of_nat i))
     else free_run (seen_free K rd s) lo (unat tot) (unat st) (unat len))"
  using assms(3-4)
proof (induction "unat tot + 1 - unat b" arbitrary: b s rule: less_induct)
  case less
  obtain cs where step: "fspace_loop K tot b False 0 0 s =
    (if \<not> b \<le> tot then Some (0, 0, s\<lparr>f_calls := cs\<rparr>)
     else if seen_free K rd s b then fspace_loop K tot (b + 1) True b 1 (s\<lparr>f_calls := cs\<rparr>)
     else fspace_loop K tot (b + 1) False 0 0 (s\<lparr>f_calls := cs\<rparr>))"
    using fspace_loop_step [OF rd, where b = b and ins = False and st = 0 and len = 0 and s = s and tot = tot]
    by (fastforce cong: if_cong)
  consider "\<not> b \<le> tot" | "b \<le> tot" "seen_free K rd s b" | "b \<le> tot" "\<not> seen_free K rd s b" by blast
  then show ?case
  proof cases
    case 1
    then show ?thesis using step less.prems by (auto simp: word_le_nat_alt)
  next
    case 2
    have ub: "unat (b + 1) = Suc (unat b)" using 2 word_Suc_le tot by blast
    have bt: "unat b \<le> unat tot" using 2 by (simp add: word_le_nat_alt)
    obtain len s' where r: "fspace_loop K tot (b + 1) True b 1 (s\<lparr>f_calls := cs\<rparr>) = Some (b, len, s')"
      "unat b + unat len \<le> unat tot + 1" "1 \<le> len"
      "\<forall>i. unat b \<le> i \<and> i < unat b + unat len \<longrightarrow> seen_free K rd s (of_nat i)"
      "unat b + unat len \<le> unat tot \<longrightarrow> \<not> seen_free K rd s (of_nat (unat b + unat len))"
    proof -
      have "\<forall>i. unat b \<le> i \<and> i < unat (b + 1) \<longrightarrow> seen_free K rd (s\<lparr>f_calls := cs\<rparr>) (of_nat i)"
        using 2 ub by (metis le_antisym less_Suc_eq_le seen_free_calls of_nat_unat ucast_id)
      then show ?thesis
        using fspace_loop_inside [OF rd tot, where len = 1 and st = b and b = "b + 1" and s = "s\<lparr>f_calls := cs\<rparr>"]
          ub bt that by auto
    qed
    have "0 < unat len" using r(3) by (simp add: word_le_nat_alt)
    then have "free_run (seen_free K rd s) lo (unat tot) (unat b) (unat len)"
      using r less.prems by (simp add: free_run_def)
    moreover have "len \<noteq> 0" using r(3) by auto
    ultimately show ?thesis using step 2 r(1) by auto
  next
    case 3
    have ub: "unat (b + 1) = Suc (unat b)" using 3 word_Suc_le tot by blast
    have bt: "unat b \<le> unat tot" using 3 by (simp add: word_le_nat_alt)
    have "\<forall>i. lo \<le> i \<and> i < unat (b + 1) \<longrightarrow> \<not> seen_free K rd (s\<lparr>f_calls := cs\<rparr>) (of_nat i)"
      using less.prems(1) 3 ub by (auto simp: less_Suc_eq)
    moreover have "unat tot + 1 - unat (b + 1) < unat tot + 1 - unat b" "lo \<le> unat (b + 1)"
      using less.prems(2) ub bt by simp_all
    moreover have "fspace_loop K tot b False 0 0 s = fspace_loop K tot (b + 1) False 0 0 (s\<lparr>f_calls := cs\<rparr>)"
      using step 3 by simp
    ultimately show ?thesis
      using less.hyps [of "b + 1" "s\<lparr>f_calls := cs\<rparr>"] by (simp only: seen_free_calls)
  qed
qed

text \<open>
  C25 fspace_iter_first_run: for every file system of fewer than \<open>2\<^sup>6\<^sup>4 - 1\<close> blocks the iterator
  returns 0, and reports either the first maximal run of free blocks at or after the block it starts
  at, or a length of 0 when there is none. The range it looks at ends at the block whose number is
  the block count, one past the last block of the file system.
\<close>

theorem fspace_iter_first_run:
  assumes "\<And>cs g. answer K cs (Read_block_bitmap g) > 0 \<longleftrightarrow> rd g"
    and "ext4_blocks_count (SB_ES (f_sb s)) < - 1"
  shows "\<exists>st len s'. evfs_fspace_iter K start s = Some (0, st, len, s') \<and>
    (if len = 0 then
       st = 0 \<and> (\<forall>i. unat start \<le> i \<and> i \<le> unat (ext4_blocks_count (SB_ES (f_sb s))) \<longrightarrow>
         \<not> seen_free K rd s (of_nat i))
     else free_run (seen_free K rd s) (unat start) (unat (ext4_blocks_count (SB_ES (f_sb s)))) (unat st) (unat len))"
  using fspace_loop_search [OF assms, where b = start and lo = "unat start" and s = s]
  by (fastforce simp: evfs_fspace_iter_def)

lemma demo_reads: "answer demo_kernel cs (Read_block_bitmap g) > 0 \<longleftrightarrow> True"
  by (simp add: demo_kernel_def demo_answer_def)

lemma demo_count: "ext4_blocks_count (SB_ES (f_sb demo_fs)) = 8"
  by (simp add: demo_fs_def demo_sb_def demo_sbi_def demo_es_def EXT4_SB_def ext4_blocks_count_def
        ext4_read_incompat_64bit_val_def)

theorem fspace_iter_first_run_witness:
  "\<exists>st len s'. evfs_fspace_iter demo_kernel 3 demo_fs = Some (0, st, len, s')"
  using fspace_iter_first_run [of demo_kernel "\<lambda>_. True" demo_fs 3] demo_reads demo_count by auto

text \<open>
  Result fspace_iter_past_end: on the file system of 8 free blocks, numbered 0 to 7, the iterator started
  at block 8 reports that block 8 is free, although no such block exists.
\<close>

theorem fspace_iter_past_end:
  "\<exists>s'. evfs_fspace_iter demo_kernel 8 demo_fs = Some (0, 8, 1, s') \<and> \<not> data_block (f_sb demo_fs) 8"
proof -
  have sf: "seen_free demo_kernel (\<lambda>_. True) demo_fs 8"
    by (simp add: seen_free_def demo_fs_def demo_kernel_def)
  obtain cs where 1: "fspace_loop demo_kernel 8 8 False 0 0 demo_fs =
      fspace_loop demo_kernel 8 9 True 8 1 (demo_fs\<lparr>f_calls := cs\<rparr>)"
    using fspace_loop_step [OF demo_reads, where b = 8 and ins = False and st = 0 and len = 0 and s = demo_fs and tot = 8]
      sf by auto
  obtain cs' where 2: "fspace_loop demo_kernel 8 9 True 8 1 (demo_fs\<lparr>f_calls := cs\<rparr>) =
      Some (8, 1, demo_fs\<lparr>f_calls := cs'\<rparr>)"
    using fspace_loop_step [OF demo_reads, where b = 9 and ins = True and st = 8 and len = 1 and tot = 8
      and s = "demo_fs\<lparr>f_calls := cs\<rparr>"] by auto
  show ?thesis
    using 1 2 demo_count by (simp add: evfs_fspace_iter_def data_block_def)
qed

section \<open>Resources\<close>

text \<open>
  What a handler leaves behind: the calls it has made since it was entered release every lock, stop
  the transaction if one was started, and release the bitmap if it was read.
\<close>

definition resources_released :: "kernel \<Rightarrow> u64 \<Rightarrow> ext4_group_t \<Rightarrow> fs \<Rightarrow> fs \<Rightarrow> bool" where
  "resources_released K ino g s s' \<longleftrightarrow> (\<exists>cs. f_calls s' = f_calls s @ cs \<and>
     balance (Lock_group g) (Unlock_group g) cs = 0 \<and> balance Lock_sbh Unlock_sbh cs = 0 \<and>
     count_list cs (Brelse (Block_bitmap g)) = (if answer K (f_calls s) (Read_block_bitmap g) < 0 then 0 else 1) \<and>
     count_list cs Journal_stop =
       (if Journal_start ino 2 \<in> set cs \<and>
           answer K (f_calls s @ [Read_block_bitmap g, Get_group_desc g]) (Journal_start ino 2) \<ge> 0
        then 1 else 0))"

text \<open>A body keeps to the interface when it balances its locks and leaves the frame's calls alone.\<close>

definition body_balanced :: "u64 \<Rightarrow> ext4_group_t \<Rightarrow> int handler \<Rightarrow> bool" where
  "body_balanced ino g body \<longleftrightarrow> (\<forall>s. wp body (\<lambda>r s'. \<exists>cs. f_calls s' = f_calls s @ cs \<and>
     balance (Lock_group g) (Unlock_group g) cs = 0 \<and> balance Lock_sbh Unlock_sbh cs = 0 \<and>
     Brelse (Block_bitmap g) \<notin> set cs \<and> Journal_stop \<notin> set cs \<and> Journal_start ino 2 \<notin> set cs) s)"

lemma block_bodies_balanced:
  "body_balanced ino g (block_alloc_body K g off)" "body_balanced ino g (block_free_body K g off)"
  by (simp_all add: body_balanced_def block_alloc_body_def block_free_body_def balance_def)

lemma body_balancedD:
  assumes "body_balanced ino g body"
  shows "wp body (\<lambda>r s'. \<exists>cs. f_calls s' = f_calls s @ cs \<and>
     balance (Lock_group g) (Unlock_group g) cs = 0 \<and> balance Lock_sbh Unlock_sbh cs = 0 \<and>
     Brelse (Block_bitmap g) \<notin> set cs \<and> Journal_stop \<notin> set cs \<and> Journal_start ino 2 \<notin> set cs) s"
  using assms by (simp add: body_balanced_def)

lemma with_block_group_released:
  assumes "body_balanced ino g body"
  shows "wp (with_block_group K ino g body) (\<lambda>r s'. resources_released K ino g s s') s"
proof -
  have fin: "wp body (\<lambda>r. wp (call K Journal_stop \<bind> (\<lambda>err. ret (if err < 0 then err else r)))
      (\<lambda>r. wp (void_call (Brelse (Block_bitmap g)) \<bind> (\<lambda>_. ret r)) (\<lambda>r s'. resources_released K ino g s s')))
    (s\<lparr>f_calls := f_calls s @ [Read_block_bitmap g, Get_group_desc g, Journal_start ino 2]\<rparr>)"
    if "0 \<le> answer K (f_calls s) (Read_block_bitmap g)"
      "0 \<le> answer K (f_calls s @ [Read_block_bitmap g, Get_group_desc g]) (Journal_start ino 2)"
    using that by (intro wp_mono [OF body_balancedD [OF assms]])
      (auto simp: resources_released_def balance_def)
  show ?thesis
    using fin
    by (auto simp: with_block_group_def resources_released_def balance_def)
qed

text \<open>
  C26 block_ops_release: on every path through \<open>evfs_block_alloc\<close> and \<open>evfs_block_free\<close> the group lock
  and the superblock lock are released as often as taken, the transaction is stopped exactly when it
  was started, and the bitmap buffer is released exactly when it was read.
\<close>

theorem block_ops_release:
  fixes K b s
  defines "g \<equiv> fst (ext4_get_group_no_and_offset K (f_sb s) b)"
  shows "wp (evfs_block_alloc K ino b) (\<lambda>r s'. resources_released K ino g s s') s \<and>
    wp (evfs_block_free K ino b) (\<lambda>r s'. resources_released K ino g s s') s"
  using with_block_group_released block_bodies_balanced
  by (simp add: evfs_block_alloc_def evfs_block_free_def g_def split: prod.splits)

section \<open>Clusters\<close>

lemma num_B2C_C2B_minus_1:
  assumes k: "0 < k" "k < 16" and n: "0 < n" "unat n < 2 ^ 16"
    and sbi: "unat (s_cluster_bits sbi) = k" "s_cluster_ratio sbi = push_bit k 1"
  shows "EXT4_NUM_B2C sbi (EXT4_C2B sbi n - 1) = n"
proof -
  have k2: "(2 :: nat) \<le> 2 ^ k" "(2 :: nat) ^ k \<le> 2 ^ 15"
    using k power_increasing [of 1 k "2 :: nat"] power_increasing [of k 15 "2 :: nat"] by auto
  have "unat n * 2 ^ k \<le> 2 ^ 16 * 2 ^ 15"
    using n(2) k2(2) by (intro mult_le_mono) auto
  then have small: "unat n * 2 ^ k + 2 ^ k < 2 ^ 32" using k2 by simp
  have "unat (of_nat (2 ^ k) :: u32) = 2 ^ k"
    unfolding unat_of_nat using k2 by (simp add: take_bit_nat_eq_self)
  then have p: "unat (2 ^ k :: u32) = 2 ^ k" by simp
  have c2b: "unat (EXT4_C2B sbi n) = unat n * 2 ^ k"
    using small by (simp add: EXT4_C2B_def sbi push_bit_eq_mult unat_word_ariths p)
  have ratio: "unat (s_cluster_ratio sbi) = 2 ^ k"
    using k2 by (simp add: sbi push_bit_eq_mult p)
  have "1 \<le> unat n" using n(1) by (simp add: word_less_nat_alt)
  then have "1 * 1 \<le> unat n * 2 ^ k" by (intro mult_le_mono) auto
  have *: "EXT4_C2B sbi n - 1 + s_cluster_ratio sbi - 1 = of_nat (unat n * 2 ^ k + (2 ^ k - 2))"
  proof -
    have "EXT4_C2B sbi n = of_nat (unat n * 2 ^ k)" "s_cluster_ratio sbi = of_nat (2 ^ k)"
      using c2b ratio by (metis of_nat_unat ucast_id)+
    then show ?thesis using k2 by (simp add: of_nat_diff)
  qed
  have "unat (EXT4_C2B sbi n - 1 + s_cluster_ratio sbi - 1) = unat n * 2 ^ k + (2 ^ k - 2)"
    unfolding * unat_of_nat using small by (simp add: take_bit_nat_eq_self)
  then have "unat (EXT4_NUM_B2C sbi (EXT4_C2B sbi n - 1)) = (unat n * 2 ^ k + (2 ^ k - 2)) div 2 ^ k"
    by (simp add: EXT4_NUM_B2C_def sbi drop_bit_eq_div unat_div p)
  also have "\<dots> = unat n"
  proof -
    have "(m * q + r) div q = m" if "r < q" for m q r :: nat using that by simp
    moreover have "(2 :: nat) ^ k - 2 < 2 ^ k" using k2 by linarith
    ultimately show ?thesis by blast
  qed
  finally show ?thesis by (simp add: word_unat_eq_iff)
qed

text \<open>
  Result bigalloc_alloc_not_counted: on a file system with clusters of \<open>2\<^sup>k\<close> blocks, \<open>k > 0\<close>, the
  conversion of the free count to blocks, the subtraction of one block and the conversion back
  rounds up to the old count: the descriptor update of a successful allocation does not count the
  cluster as taken.
\<close>

theorem bigalloc_alloc_not_counted:
  assumes "0 < k" "k < 16" "unat (s_cluster_bits (EXT4_SB sb)) = k"
    and "s_cluster_ratio (EXT4_SB sb) = push_bit k 1"
    and "0 < ext4_free_group_clusters sb gd" "unat (ext4_free_group_clusters sb gd) < 2 ^ 16"
    and "\<not> ext4_has_group_desc_csum sb"
  shows "ext4_free_group_clusters sb (alloc_update_gdesc K sb g bm gd) = ext4_free_group_clusters sb gd"
  using num_B2C_C2B_minus_1 [OF assms(1,2,5,6,3,4)] assms(7)
  by (simp add: alloc_update_gdesc_def Let_def free_clusters.get_set_same)

definition demo_bigalloc :: super_block where
  "demo_bigalloc = demo_sb\<lparr>s_fs_info := demo_sbi\<lparr>s_cluster_bits := 4, s_cluster_ratio := 16\<rparr>\<rparr>"

theorem bigalloc_alloc_not_counted_witness:
  "ext4_free_group_clusters demo_bigalloc (alloc_update_gdesc demo_kernel demo_bigalloc 0 (\<lambda>_. False) demo_gdesc) = 4"
proof -
  have n: "ext4_free_group_clusters demo_bigalloc demo_gdesc = 4"
    by (simp add: demo_bigalloc_def demo_sbi_def demo_gdesc_def ext4_free_group_clusters_def EXT4_SB_def
        EXT4_DESC_SIZE_def EXT4_MIN_DESC_SIZE_64BIT_def)
  show ?thesis
    using bigalloc_alloc_not_counted [of 4 demo_bigalloc demo_gdesc demo_kernel 0 "\<lambda>_. False"]
    by (simp add: n) (simp add: demo_bigalloc_def demo_sbi_def demo_es_def demo_sb_def EXT4_SB_def
        ext4_has_group_desc_csum_def ext4_has_metadata_csum_def has_feature_defs)
qed

end
