(* ===== verification/Evfs_Inode.thy ===== *)
theory Evfs_Inode
  imports Evfs_Block
begin

unbundle bit_operations_syntax

text \<open>
  The inode operations of \<open>fs/ext4/evfs.c\<close>: the tracker of the inodes that eVFS has allocated, link
  counts, reading, allocating by number, freeing and iterating. A handler that uses the tracker
  returns \<open>None\<close> when \<open>evfs_bit_wrapper\<close> faults.
\<close>

section \<open>Link counts and the inode tracker\<close>

definition evfs_inode_dec_nlink :: "kernel \<Rightarrow> u64 \<Rightarrow> int handler" where
  "evfs_inode_dec_nlink K ino = do {
     modify (upd_inode ino (drop_nlink K));
     call K (Mark_inode_dirty ino)
   }"

definition evfs_inode_inc_nlink :: "kernel \<Rightarrow> u64 \<Rightarrow> int handler" where
  "evfs_inode_inc_nlink K ino = do {
     modify (upd_inode ino (inc_nlink K));
     call K (Mark_inode_dirty ino)
   }"

text \<open>
  \<open>evfs_bit_wrapper\<close> on \<open>sbi->s_inode_tracker\<close>; the allocation of a bitmap happens when the bitmap of
  the number is missing.
\<close>

definition tracker_op :: "kernel \<Rightarrow> evfs_bitop \<Rightarrow> u64 \<Rightarrow> int option handler" where
  "tracker_op K ebitop nr = do {
     t \<leftarrow> gets f_tracker;
     kz \<leftarrow> (case t of
              None \<Rightarrow> ret 1
            | Some tr \<Rightarrow> if in_range tr (unat nr) \<and> \<not> evfs_bm_test tr (unat nr div bits_per_bm)
                        then call K Kzalloc else ret 1);
     (case evfs_bit_wrapper (kz \<noteq> 0) t ebitop (unat nr) of
        (r, t') \<Rightarrow> do { modify (\<lambda>s. s\<lparr>f_tracker := t'\<rparr>); ret r })
   }"

definition evfs_inode_track :: "kernel \<Rightarrow> u64 \<Rightarrow> int option handler" where
  "evfs_inode_track K ino = do {
     r \<leftarrow> tracker_op K (EBO_BOOL test_and_set_bit) ino;
     ret (case r of None \<Rightarrow> None | Some v \<Rightarrow> Some (if v = 1 then - EEXIST else v))
   }"

definition evfs_inode_untrack :: "kernel \<Rightarrow> u64 \<Rightarrow> int option handler" where
  "evfs_inode_untrack K ino = do {
     r \<leftarrow> tracker_op K (EBO_BOOL test_and_clear_bit) ino;
     ret (case r of None \<Rightarrow> None
          | Some v \<Rightarrow> (let v = (if v = 0 then - ENOENT else v) in Some (if v = 1 then 0 else v)))
   }"

definition evfs_inode_untrack_nolock :: "kernel \<Rightarrow> u64 \<Rightarrow> int option handler" where
  "evfs_inode_untrack_nolock K ino = tracker_op K (EBO_VOID clear_bit) ino"

section \<open>Greeting, version and attributes\<close>

definition evfs_hello :: "int handler" where
  "evfs_hello = ret 0"

definition evfs_iver :: "u64 \<Rightarrow> (int \<times> u64) handler" where
  "evfs_iver ino = do {
     kver \<leftarrow> gets (\<lambda>s. i_version (f_inodes s ino));
     ret (0, kver)
   }"

record evfs_stat =
  est_dev :: u64
  est_ino :: u64
  est_mode :: u32
  est_nlink :: u32
  est_uid :: u32
  est_gid :: u32
  est_rdev :: u64
  est_version :: u64
  est_size :: int
  est_blksize :: u32
  est_blocks :: int
  est_atime :: int
  est_atime_nsec :: u64
  est_mtime :: int
  est_mtime_nsec :: u64
  est_ctime :: int
  est_ctime_nsec :: u64

text \<open>
  The attributes as the code fills them in; \<open>stack\<close> is what the uninitialised local variable
  \<open>stat\<close> holds on entry.
\<close>

definition fill_stat :: "super_block \<Rightarrow> inode \<Rightarrow> evfs_stat \<Rightarrow> evfs_stat" where
  "fill_stat sb ino stack = stack\<lparr>
     est_dev := ucast (s_dev sb), est_ino := i_ino ino, est_mode := ucast (i_mode ino),
     est_nlink := i_nlink ino, est_uid := i_uid ino, est_gid := i_gid ino,
     est_rdev := (if S_ISBLK (i_mode ino) \<or> S_ISCHR (i_mode ino) then ucast (i_rdev ino) else est_rdev stack),
     est_version := i_version ino, est_size := i_size ino,
     est_blksize := push_bit (i_blkbits ino) 1, est_blocks := i_blocks ino,
     est_atime := tv_sec (i_atime ino), est_atime_nsec := word_of_int (tv_nsec (i_atime ino)),
     est_mtime := tv_sec (i_mtime ino), est_mtime_nsec := word_of_int (tv_nsec (i_mtime ino)),
     est_ctime := tv_sec (i_ctime ino), est_ctime_nsec := word_of_int (tv_nsec (i_ctime ino))\<rparr>"

definition evfs_inode_read :: "kernel \<Rightarrow> evfs_stat \<Rightarrow> evfs_stat \<Rightarrow> u64 \<Rightarrow> (int \<times> evfs_stat) handler" where
  "evfs_inode_read K stack out iindex = do {
     ino \<leftarrow> call K (Iget iindex);
     if ino < 0 then ret (ino, out) else do {
     void_call (Inode_lock_shared iindex);
     stat \<leftarrow> gets (\<lambda>s. fill_stat (f_sb s) (f_inodes s iindex) stack);
     void_call (Inode_unlock_shared iindex);
     void_call (Iput iindex);
     ret (0, stat)
     }}"

section \<open>Allocating an inode by number\<close>

definition EXT4_INODES_PER_GROUP :: "super_block \<Rightarrow> u64" where
  "EXT4_INODES_PER_GROUP sb = s_inodes_per_group (EXT4_SB sb)"

definition ino_group :: "super_block \<Rightarrow> u64 \<Rightarrow> ext4_group_t" where
  "ino_group sb iindex = ucast ((iindex - 1) div EXT4_INODES_PER_GROUP sb)"

definition ino_offset :: "super_block \<Rightarrow> u64 \<Rightarrow> u64" where
  "ino_offset sb iindex = (iindex - 1) mod EXT4_INODES_PER_GROUP sb"

text \<open>
  The new in-memory inode, from the object that \<open>new_inode\<close> returns to the call of
  \<open>ext4_set_inode_flags\<close>.
\<close>

definition init_new_inode :: "kernel \<Rightarrow> timespec64 \<Rightarrow> ext4_group_t \<Rightarrow> u64 \<Rightarrow> inode" where
  "init_new_inode K now grp iindex =
     (let ino = (fresh_inode K)\<lparr>i_ino := iindex, i_mode := S_IFREG OR 0x1A4, i_blocks := 0,
                  i_atime := now, i_mtime := now, i_ctime := now\<rparr>;
          ino = set_nlink K ino 1
      in ino\<lparr>i_crtime := i_mtime ino, i_data := replicate 15 0, i_dir_start_lookup := 0, i_disksize := 0,
             i_flags := 0, i_file_acl := 0, i_dtime := 0, i_block_group := grp,
             i_last_alloc_group := NOT 0\<rparr>)"

text \<open>The generation number and the checksum seed that depends on it.\<close>

definition seed_new_inode :: "kernel \<Rightarrow> super_block \<Rightarrow> u32 \<Rightarrow> inode \<Rightarrow> inode" where
  "seed_new_inode K sb gen ino =
     (let ino = ino\<lparr>i_generation := gen\<rparr>;
          ino = (if ext4_has_metadata_csum sb then
                   (let csum = chksum K (s_csum_seed (EXT4_SB sb)) (le32 (ucast (i_ino ino)))
                    in ino\<lparr>i_csum_seed := chksum K csum (le32 (i_generation ino))\<rparr>)
                 else ino)
      in ino\<lparr>i_state_new := True\<rparr>)"

text \<open>
  The group descriptor: \<open>free\<close> is an \<open>int\<close>, which the comparison with the unsigned \<open>offset\<close> converts to
  64 bits by sign extension.
\<close>

definition inode_update_gdesc ::
    "kernel \<Rightarrow> super_block \<Rightarrow> ext4_group_t \<Rightarrow> u64 \<Rightarrow> (nat \<Rightarrow> bool) \<Rightarrow> (nat \<Rightarrow> bool) \<Rightarrow>
     ext4_group_desc \<Rightarrow> ext4_group_desc" where
  "inode_update_gdesc K sb grp offset bbitmap ibitmap gd =
     (let gd = ext4_free_inodes_set sb gd (ext4_free_inodes_count sb gd - 1)
      in if ext4_has_group_desc_csum sb then
           (let gd = (if bg_flags gd AND EXT4_BG_BLOCK_UNINIT \<noteq> 0 then
                        (let gd = gd\<lparr>bg_flags := bg_flags gd AND NOT EXT4_BG_BLOCK_UNINIT\<rparr>;
                             gd = ext4_free_group_clusters_set sb gd
                                    (ext4_free_clusters_after_init K sb grp gd)
                         in ext4_block_bitmap_csum_set K sb gd bbitmap)
                      else gd);
                free = (ucast (EXT4_INODES_PER_GROUP sb - ucast (ext4_itable_unused_count sb gd)) :: u32);
                (free, gd) =
                  (if bg_flags gd AND EXT4_BG_INODE_UNINIT \<noteq> 0
                   then (0, gd\<lparr>bg_flags := bg_flags gd AND NOT EXT4_BG_INODE_UNINIT\<rparr>)
                   else (free, gd));
                gd = (if offset > scast free
                      then ext4_itable_unused_set sb gd (ucast (EXT4_INODES_PER_GROUP sb - offset - 1))
                      else gd);
                gd = ext4_inode_bitmap_csum_set K sb gd ibitmap (EXT4_INODES_PER_GROUP sb div 8)
            in group_csum_set K sb grp gd)
         else gd)"

text \<open>From \<open>ext4_journal_start\<close> to the tracking of the inode number: the value of \<open>ret\<close>.\<close>

definition inode_alloc_claim :: "kernel \<Rightarrow> u64 \<Rightarrow> ext4_group_t \<Rightarrow> u64 \<Rightarrow> int option handler" where
  "inode_alloc_claim K iindex grp offset = do {
     err \<leftarrow> call K (Get_write_access (Inode_bitmap grp));
     if err < 0 then ret (Some err) else do {
     err \<leftarrow> call K (Get_write_access (Block_bitmap grp));
     if err < 0 then ret (Some err) else do {
     err \<leftarrow> call K (Get_write_access (Group_desc grp));
     if err < 0 then ret (Some err) else do {
     void_call (Lock_group grp);
     was_set \<leftarrow> test_and_set_ibitmap grp (unat offset);
     if was_set then do {
       void_call (Unlock_group grp);
       ret (Some (- EEXIST))
     } else do {
     void_call (Unlock_group grp);
     evfs_inode_track K iindex
     }}}}}"

text \<open>The labels \<open>fail_free_drop\<close> and \<open>fail_drop\<close>.\<close>

definition inode_alloc_fail_drop :: "kernel \<Rightarrow> u64 \<Rightarrow> unit handler" where
  "inode_alloc_fail_drop K iindex = do {
     modify (upd_inode iindex (clear_nlink K));
     void_call (Unlock_new_inode iindex)
   }"

definition inode_alloc_fail_free_drop :: "kernel \<Rightarrow> u64 \<Rightarrow> unit handler" where
  "inode_alloc_fail_free_drop K iindex = do {
     void_call (Dquot_free_inode iindex);
     inode_alloc_fail_drop K iindex
   }"

text \<open>
  From the locked inode on: quota, the inode itself, the group descriptor and the counters. The
  result is the value of \<open>ret\<close> at the label \<open>stop_journal\<close>.
\<close>

definition inode_alloc_commit :: "kernel \<Rightarrow> u64 \<Rightarrow> ext4_group_t \<Rightarrow> u64 \<Rightarrow> int handler" where
  "inode_alloc_commit K iindex grp offset = do {
     err \<leftarrow> call K (Dquot_alloc_inode iindex);
     if err \<noteq> 0 then do { inode_alloc_fail_drop K iindex; ret err } else do {
     err \<leftarrow> call K (Mark_inode_dirty iindex);
     if err \<noteq> 0 then do { inode_alloc_fail_free_drop K iindex; ret err } else do {
     void_call (Lock_group grp);
     modify (\<lambda>s. upd_gdesc grp (inode_update_gdesc K (f_sb s) grp offset (f_bbitmap s grp) (f_ibitmap s grp)) s);
     void_call (Unlock_group grp);
     modify (upd_sbi (\<lambda>sbi. sbi\<lparr>s_freeinodes_counter := s_freeinodes_counter sbi - 1\<rparr>));
     err \<leftarrow> call K (Handle_dirty_metadata (Group_desc grp));
     if err < 0 then do { inode_alloc_fail_free_drop K iindex; ret err } else do {
     err \<leftarrow> call K (Handle_dirty_metadata (Block_bitmap grp));
     if err < 0 then do { inode_alloc_fail_free_drop K iindex; ret err } else do {
     err \<leftarrow> call K (Handle_dirty_metadata (Inode_bitmap grp));
     if err < 0 then do { inode_alloc_fail_free_drop K iindex; ret err } else do {
     void_call (Unlock_new_inode iindex);
     ret 0
     }}}}}}"

definition inode_alloc_body :: "kernel \<Rightarrow> u64 \<Rightarrow> ext4_group_t \<Rightarrow> u64 \<Rightarrow> (int \<times> bool) option handler" where
  "inode_alloc_body K iindex grp offset = do {
     r \<leftarrow> inode_alloc_claim K iindex grp offset;
     (case r of
        None \<Rightarrow> ret None
      | Some err \<Rightarrow>
          if err < 0 then ret (Some (err, False)) else do {
          ino \<leftarrow> gets (\<lambda>s. init_new_inode K (f_now s) grp iindex);
          void_call (Set_inode_flags iindex);
          err \<leftarrow> call K (Insert_inode_locked iindex);
          if err < 0 then ret (Some (- EIO, False)) else do {
          modify (upd_inode iindex (\<lambda>_. ino));
          gen \<leftarrow> call K Get_random_u32;
          modify (\<lambda>s. upd_inode iindex (seed_new_inode K (f_sb s) (word_of_int gen)) s);
          r \<leftarrow> inode_alloc_commit K iindex grp offset;
          ret (Some (r, True))
          }})
   }"

text \<open>
  The whole handler. The calls on the new object are labelled with the number it is created for.
  The object is in the inode cache, the field \<open>f_inodes\<close>, from \<open>insert_inode_locked\<close> on: the flag
  that the label \<open>fail_init\<close> sets shows there when the insertion succeeded.
\<close>

definition evfs_inode_alloc :: "kernel \<Rightarrow> u64 \<Rightarrow> int option handler" where
  "evfs_inode_alloc K iindex = do {
     grp \<leftarrow> gets (\<lambda>s. ino_group (f_sb s) iindex);
     offset \<leftarrow> gets (\<lambda>s. ino_offset (f_sb s) iindex);
     inode_bitmap_bh \<leftarrow> call K (Read_inode_bitmap grp);
     if inode_bitmap_bh < 0 then ret (Some inode_bitmap_bh) else do {
     block_bitmap_bh \<leftarrow> call K (Read_block_bitmap grp);
     if block_bitmap_bh < 0 then do {
       void_call (Brelse (Inode_bitmap grp));
       ret (Some block_bitmap_bh)
     } else do {
     grpdsc \<leftarrow> call K (Get_group_desc grp);
     r \<leftarrow> (if grpdsc = 0 then ret (Some (- EINVAL)) else do {
       ino \<leftarrow> call K New_inode;
       if ino = 0 then ret (Some (- ENOMEM)) else do {
       err \<leftarrow> call K (Dquot_initialize iindex);
       if err \<noteq> 0 then do {
         void_call (Dquot_drop iindex);
         void_call (Iput iindex);
         ret (Some err)
       } else do {
       handle \<leftarrow> call K (Journal_start iindex 5);
       if handle < 0 then do {
         void_call (Dquot_drop iindex);
         void_call (Iput iindex);
         ret (Some handle)
       } else do {
       r \<leftarrow> inode_alloc_body K iindex grp offset;
       (case r of
          None \<Rightarrow> ret None
        | Some (rv, inserted) \<Rightarrow> do {
            err \<leftarrow> call K Journal_stop;
            rv \<leftarrow> ret (if err < 0 then err else rv);
            if rv \<ge> 0 then do {
              void_call (Iput iindex);
              ret (Some rv)
            } else do {
              void_call (Dquot_drop iindex);
              (if inserted then modify (upd_inode iindex (\<lambda>i. i\<lparr>i_noquota := True\<rparr>)) else ret ());
              void_call (Iput iindex);
              ret (Some rv)
            }})
       }}}});
     (case r of
        None \<Rightarrow> ret None
      | Some rv \<Rightarrow> do {
          void_call (Brelse (Block_bitmap grp));
          void_call (Brelse (Inode_bitmap grp));
          ret (Some rv)
        })
     }}}"

section \<open>Freeing an inode\<close>

definition evfs_inode_free :: "kernel \<Rightarrow> u64 \<Rightarrow> int option handler" where
  "evfs_inode_free K iindex = do {
     ino \<leftarrow> call K (Iget iindex);
     if ino < 0 then ret (Some ino) else do {
     void_call (Inode_lock iindex);
     handle \<leftarrow> call K (Journal_start iindex 3);
     r \<leftarrow> (if handle < 0 then ret (Some handle) else do {
       nlink \<leftarrow> gets (\<lambda>s. i_nlink (f_inodes s iindex));
       r \<leftarrow> (if nlink > 1 then ret (Some (- EBUSY)) else do {
         r \<leftarrow> evfs_inode_untrack K iindex;
         (case r of
            None \<Rightarrow> ret None
          | Some err \<Rightarrow>
              if err < 0 then ret (Some err) else do {
              evfs_inode_dec_nlink K iindex;
              call K (Orphan_add iindex);
              ret (Some 0)
              })
       });
       (case r of
          None \<Rightarrow> ret None
        | Some rv \<Rightarrow> do {
            err \<leftarrow> call K Journal_stop;
            ret (Some (if err < 0 then err else rv))
          })
     });
     (case r of
        None \<Rightarrow> ret None
      | Some rv \<Rightarrow> do {
          void_call (Inode_unlock iindex);
          void_call (Iput iindex);
          ret (Some rv)
        })
     }}"

section \<open>Iterating over the inodes in use\<close>

text \<open>
  The loop of \<open>evfs_inode_iter\<close>, over a 32-bit counter that takes the low half of the 64-bit start;
  its bound is inclusive, and not ending is the value \<open>None\<close>.
\<close>

partial_function (option) inode_iter_loop :: "kernel \<Rightarrow> u32 \<Rightarrow> u32 \<Rightarrow> fs \<Rightarrow> (u32 \<times> fs) option" where
  "inode_iter_loop K tot i s =
     (if i \<le> tot then
        (let grp = (ucast (ucast (i - 1) div EXT4_INODES_PER_GROUP (f_sb s)) :: u32);
             offset = unat ((ucast (i - 1) :: u64) mod EXT4_INODES_PER_GROUP (f_sb s))
         in case run_state (call K (Read_inode_bitmap grp)) s of (bitmap_bh, s) \<Rightarrow>
            if bitmap_bh \<le> 0 then inode_iter_loop K tot (i + 1) s
            else
              (let in_use = f_ibitmap s grp offset;
                   s = snd (run_state (void_call (Brelse (Inode_bitmap grp))) s)
               in if in_use then Some (i, s) else inode_iter_loop K tot (i + 1) s))
      else Some (0, s))"

definition evfs_inode_iter :: "kernel \<Rightarrow> u64 \<Rightarrow> fs \<Rightarrow> (int \<times> u64 \<times> fs) option" where
  "evfs_inode_iter K start s =
     (case inode_iter_loop K (es_inodes_count (SB_ES (f_sb s))) (ucast start) s of
        None \<Rightarrow> None
      | Some (found, s') \<Rightarrow> Some (0, ucast found, s'))"

section \<open>The tracker in the handlers\<close>

text \<open>
  The kernel's allocator is assumed to succeed where a property says that the tracker's memory is
  available.
\<close>

definition kzalloc_ok :: "kernel \<Rightarrow> bool" where
  "kzalloc_ok K = (\<forall>cs. answer K cs Kzalloc \<noteq> 0)"

definition live_tracker :: "fs \<Rightarrow> evfs_bm_tracker \<Rightarrow> bool" where
  "live_tracker s t = (f_tracker s = Some t \<and> bmt_inv t)"

lemma live_tracker_frame [simp]:
  "live_tracker (s\<lparr>f_calls := cs\<rparr>) t = live_tracker s t"
  "live_tracker (s\<lparr>f_ibitmap := b\<rparr>) t = live_tracker s t"
  by (simp_all add: live_tracker_def)

lemma tracker_op_run:
  assumes "kzalloc_ok K" "f_tracker s = Some t"
  shows "\<exists>cs. set cs \<subseteq> {Kzalloc} \<and> run_state (tracker_op K b n) s =
    (fst (evfs_bit_wrapper True (Some t) b (unat n)),
     s\<lparr>f_tracker := snd (evfs_bit_wrapper True (Some t) b (unat n)), f_calls := f_calls s @ cs\<rparr>)"
proof (cases "in_range t (unat n) \<and> \<not> evfs_bm_test t (unat n div bits_per_bm)")
  case True
  with assms show ?thesis
    by (intro exI [of _ "[Kzalloc]"])
      (simp add: tracker_op_def run_state_bind_eq call_def kzalloc_ok_def split: prod.split)
next
  case False
  have s: "s\<lparr>f_calls := f_calls s\<rparr> = s" by simp
  from False assms show ?thesis
    by (intro exI [of _ "[]"])
      (auto simp: tracker_op_def run_state_bind_eq split: prod.split)
qed

lemma count_Kzalloc: "set cs \<subseteq> {Kzalloc} \<Longrightarrow> c \<noteq> Kzalloc \<Longrightarrow> count_list cs c = 0"
  by (auto simp: count_list_0_iff)

text \<open>The three operations of \<open>evfs.c\<close> on the tracker, as rules over its contract.\<close>

lemma track_rule:
  assumes K: "kzalloc_ok K" and t: "live_tracker s t" and r: "in_range t (unat n)"
    and Q: "\<And>t' cs. set cs \<subseteq> {Kzalloc} \<Longrightarrow> bmt_inv t' \<Longrightarrow> in_range t' = in_range t \<Longrightarrow> tracked t' = (tracked t)(unat n := True) \<Longrightarrow>
      Q (Some (if tracked t (unat n) then - EEXIST else 0)) (s\<lparr>f_tracker := Some t', f_calls := f_calls s @ cs\<rparr>)"
  shows "wp (evfs_inode_track K n) Q s"
proof -
  have ft: "f_tracker s = Some t" and inv: "bmt_inv t" using t by (auto simp: live_tracker_def)
  from bmt.tas [OF inv r] obtain t' where
    "evfs_tas t (unat n) = (Some (of_bool (tracked t (unat n))), Some t')" "bmt_inv t'"
    "tracked t' = (tracked t)(unat n := True)" "in_range t' = in_range t" by blast
  moreover obtain cs where "set cs \<subseteq> {Kzalloc}" "run_state (tracker_op K (EBO_BOOL test_and_set_bit) n) s =
      (fst (evfs_tas t (unat n)), s\<lparr>f_tracker := snd (evfs_tas t (unat n)), f_calls := f_calls s @ cs\<rparr>)"
    unfolding evfs_tas_def using tracker_op_run [OF K ft] by blast
  ultimately show ?thesis using Q [of cs t']
    by (auto simp: evfs_inode_track_def wp_def run_state_bind_eq)
qed

lemma untrack_rule:
  assumes K: "kzalloc_ok K" and t: "live_tracker s t" and r: "in_range t (unat n)"
    and Q: "\<And>t' cs. set cs \<subseteq> {Kzalloc} \<Longrightarrow> bmt_inv t' \<Longrightarrow> in_range t' = in_range t \<Longrightarrow> tracked t' = (tracked t)(unat n := False) \<Longrightarrow>
      Q (Some (if tracked t (unat n) then 0 else - ENOENT)) (s\<lparr>f_tracker := Some t', f_calls := f_calls s @ cs\<rparr>)"
  shows "wp (evfs_inode_untrack K n) Q s"
proof -
  have ft: "f_tracker s = Some t" and inv: "bmt_inv t" using t by (auto simp: live_tracker_def)
  from bmt.tac [OF inv r] obtain t' where
    "evfs_tac t (unat n) = (Some (of_bool (tracked t (unat n))), Some t')" "bmt_inv t'"
    "tracked t' = (tracked t)(unat n := False)" "in_range t' = in_range t" by blast
  moreover obtain cs where "set cs \<subseteq> {Kzalloc}" "run_state (tracker_op K (EBO_BOOL test_and_clear_bit) n) s =
      (fst (evfs_tac t (unat n)), s\<lparr>f_tracker := snd (evfs_tac t (unat n)), f_calls := f_calls s @ cs\<rparr>)"
    unfolding evfs_tac_def using tracker_op_run [OF K ft] by blast
  ultimately show ?thesis using Q [of cs t']
    by (auto simp: evfs_inode_untrack_def wp_def run_state_bind_eq)
qed

lemma untrack_nolock_rule:
  assumes K: "kzalloc_ok K" and t: "live_tracker s t" and r: "in_range t (unat n)"
    and Q: "\<And>t' cs. set cs \<subseteq> {Kzalloc} \<Longrightarrow> bmt_inv t' \<Longrightarrow> in_range t' = in_range t \<Longrightarrow> tracked t' = (tracked t)(unat n := False) \<Longrightarrow>
      Q (Some 0) (s\<lparr>f_tracker := Some t', f_calls := f_calls s @ cs\<rparr>)"
  shows "wp (evfs_inode_untrack_nolock K n) Q s"
proof -
  have ft: "f_tracker s = Some t" and inv: "bmt_inv t" using t by (auto simp: live_tracker_def)
  from bmt.clr [OF inv r] obtain t' where
    "evfs_clr t (unat n) = (Some 0, Some t')" "bmt_inv t'"
    "tracked t' = (tracked t)(unat n := False)" "in_range t' = in_range t" by blast
  moreover obtain cs where "set cs \<subseteq> {Kzalloc}" "run_state (tracker_op K (EBO_VOID clear_bit) n) s =
      (fst (evfs_clr t (unat n)), s\<lparr>f_tracker := snd (evfs_clr t (unat n)), f_calls := f_calls s @ cs\<rparr>)"
    unfolding evfs_clr_def using tracker_op_run [OF K ft] by blast
  ultimately show ?thesis using Q [of cs t']
    by (auto simp: evfs_inode_untrack_nolock_def wp_def)
qed

lemma same_tracker: "f_tracker s = t \<Longrightarrow> s\<lparr>f_tracker := t\<rparr> = s"
  by (cases s) simp

lemma track_out_rule:
  assumes "f_tracker s = Some t" "\<not> in_range t (unat n)" "Q (Some (- EINVAL)) s"
  shows "wp (evfs_inode_track K n) Q s"
  using assms by (simp add: evfs_inode_track_def tracker_op_def evfs_bit_wrapper_def in_range_def not_less Let_def same_tracker)

section \<open>Allocation\<close>

definition claim_effect :: "fs \<Rightarrow> evfs_bm_tracker \<Rightarrow> u64 \<Rightarrow> ext4_group_t \<Rightarrow> nat \<Rightarrow> int option \<Rightarrow> fs \<Rightarrow> bool" where
  "claim_effect s t n g off r s' \<longleftrightarrow>
     f_sb s' = f_sb s \<and> f_gdesc s' = f_gdesc s \<and> f_bbitmap s' = f_bbitmap s \<and> f_inodes s' = f_inodes s \<and>
     f_now s' = f_now s \<and> (\<exists>t'. live_tracker s' t' \<and> in_range t' = in_range t \<and>
       (case r of None \<Rightarrow> False | Some v \<Rightarrow> v \<ge> 0 \<longrightarrow>
          v = 0 \<and> \<not> f_ibitmap s g off \<and> f_ibitmap s' = (f_ibitmap s)(g := (f_ibitmap s g)(off := True)) \<and>
          \<not> tracked t (unat n) \<and> tracked t' = (tracked t)(unat n := True)))"

lemma claim_ok:
  assumes K: "kzalloc_ok K" and t: "live_tracker s t" and r: "in_range t (unat n)"
  shows "wp (inode_alloc_claim K n g off) (claim_effect s t n g (unat off)) s"
  using t unfolding inode_alloc_claim_def
  apply (simp add: claim_effect_def)
  apply (intro conjI impI exI [of _ t]; simp?)
  apply (rule track_rule [OF K _ r])
   apply simp
  apply (auto simp: live_tracker_def claim_effect_def)
  done


lemma sb_counter_geometry [simp]:
  "same_geometry sb (f_sb (upd_sbi (\<lambda>sbi. sbi\<lparr>s_freeinodes_counter := c sbi\<rparr>) s)) = same_geometry sb (f_sb s)"
  by (simp add: same_geometry_def upd_sbi_def EXT4_SB_def EXT4_DESC_SIZE_def)

definition commit_effect :: "kernel \<Rightarrow> fs \<Rightarrow> u64 \<Rightarrow> ext4_group_t \<Rightarrow> u64 \<Rightarrow> int \<Rightarrow> fs \<Rightarrow> bool" where
  "commit_effect K s n g off r s' \<longleftrightarrow>
     f_ibitmap s' = f_ibitmap s \<and> f_bbitmap s' = f_bbitmap s \<and> f_tracker s' = f_tracker s \<and>
     same_geometry (f_sb s) (f_sb s') \<and>
     (\<forall>h. h \<noteq> g \<longrightarrow> f_gdesc s' h = f_gdesc s h) \<and>
     (r = 0 \<longrightarrow> f_inodes s' = f_inodes s \<and>
        s_freeinodes_counter (EXT4_SB (f_sb s')) = s_freeinodes_counter (EXT4_SB (f_sb s)) - 1 \<and>
        f_gdesc s' g = inode_update_gdesc K (f_sb s) g off (f_bbitmap s g) (f_ibitmap s g) (f_gdesc s g))"

lemma commit_ok: "wp (inode_alloc_commit K n g off) (commit_effect K s n g off) s"
  by (auto simp: inode_alloc_commit_def inode_alloc_fail_free_drop_def inode_alloc_fail_drop_def
      commit_effect_def upd_sbi_def EXT4_SB_def same_geometry_def EXT4_DESC_SIZE_def)

text \<open>The effect of a run of the handler that returns 0.\<close>

definition alloc_effect :: "kernel \<Rightarrow> fs \<Rightarrow> evfs_bm_tracker \<Rightarrow> u64 \<Rightarrow> fs \<Rightarrow> bool" where
  "alloc_effect K s t n s' \<longleftrightarrow>
     (let g = ino_group (f_sb s) n; off = ino_offset (f_sb s) n
      in \<not> f_ibitmap s g (unat off) \<and>
         f_ibitmap s' = (f_ibitmap s)(g := (f_ibitmap s g)(unat off := True)) \<and>
         \<not> tracked t (unat n) \<and>
         (\<exists>t'. live_tracker s' t' \<and> in_range t' = in_range t \<and> tracked t' = (tracked t)(unat n := True)) \<and>
         same_geometry (f_sb s) (f_sb s') \<and> f_bbitmap s' = f_bbitmap s \<and>
         s_freeinodes_counter (EXT4_SB (f_sb s')) = s_freeinodes_counter (EXT4_SB (f_sb s)) - 1 \<and>
         (\<forall>h. h \<noteq> g \<longrightarrow> f_gdesc s' h = f_gdesc s h) \<and>
         f_gdesc s' g = inode_update_gdesc K (f_sb s) g off (f_bbitmap s g) (f_ibitmap s' g) (f_gdesc s g) \<and>
         (\<exists>gen. f_inodes s' = (f_inodes s)(n := seed_new_inode K (f_sb s) gen (init_new_inode K (f_now s) g n))))"

lemma alloc_effect_calls [simp]:
  "alloc_effect K (s\<lparr>f_calls := cs\<rparr>) t n s' = alloc_effect K s t n s'"
  "alloc_effect K s t n (s'\<lparr>f_calls := cs\<rparr>) = alloc_effect K s t n s'"
  by (simp_all add: alloc_effect_def)

lemma inode_alloc_body_ok:
  assumes K: "kzalloc_ok K" and t: "live_tracker s t" and r: "in_range t (unat n)"
    and g: "g = ino_group (f_sb s) n" "off = ino_offset (f_sb s) n"
  shows "wp (inode_alloc_body K n g off) (\<lambda>r s'. case r of None \<Rightarrow> False
    | Some (v, ins) \<Rightarrow> v = 0 \<longrightarrow> alloc_effect K s t n s') s"
proof -
  have commit: "wp (inode_alloc_commit K n g off) (\<lambda>r' s'. wp (ret (Some (r', True)))
      (\<lambda>r s'. case r of None \<Rightarrow> False | Some (v, ins) \<Rightarrow> v = 0 \<longrightarrow> alloc_effect K s t n s') s') s2"
    if c: "claim_effect s t n g (unat off) (Some 0) s1"
      and s2: "s2 = upd_inode n (seed_new_inode K (f_sb s1) gen)
         (upd_inode n (\<lambda>_. init_new_inode K (f_now s1) g n) s1\<lparr>f_calls := cs\<rparr>)" for s1 s2 gen cs
    apply (rule wp_mono [OF commit_ok])
    using c unfolding s2
    by (auto simp: alloc_effect_def commit_effect_def claim_effect_def g Let_def live_tracker_def
        intro!: exI [of _ gen] simp del: fun_upd_apply) (auto simp: fun_eq_iff upd_inode_def)
  have rest: "wp (case r of None \<Rightarrow> ret None
      | Some err \<Rightarrow> if err < 0 then ret (Some (err, False)) else do {
          ino \<leftarrow> gets (\<lambda>s. init_new_inode K (f_now s) g n);
          void_call (Set_inode_flags n);
          err \<leftarrow> call K (Insert_inode_locked n);
          if err < 0 then ret (Some (- EIO, False)) else do {
          modify (upd_inode n (\<lambda>_. ino));
          gen \<leftarrow> call K Get_random_u32;
          modify (\<lambda>s. upd_inode n (seed_new_inode K (f_sb s) (word_of_int gen)) s);
          r \<leftarrow> inode_alloc_commit K n g off;
          ret (Some (r, True))
          }}) (\<lambda>r s'. case r of None \<Rightarrow> False | Some (v, ins) \<Rightarrow> v = 0 \<longrightarrow> alloc_effect K s t n s') s1"
    if c: "claim_effect s t n g (unat off) r s1" for r s1
  proof (cases r)
    case None
    then show ?thesis using c by (simp add: claim_effect_def)
  next
    case (Some v)
    show ?thesis
    proof (cases "v < 0")
      case False
      with c Some have v: "v = 0" by (auto simp: claim_effect_def)
      have c': "claim_effect s t n g (unat off) (Some 0) (s1\<lparr>f_calls := cs\<rparr>)" for cs
        using c Some v by (simp add: claim_effect_def)
      show ?thesis
        using commit [OF c' [simplified], OF refl] Some v
        by (auto simp: upd_inode_def wp_fun)
    qed (simp add: Some)
  qed
  show ?thesis
    unfolding inode_alloc_body_def wp_bind [of "inode_alloc_claim K n g off"]
    by (rule wp_mono [OF claim_ok [OF K t r]]) (rule rest)
qed

lemma inode_alloc_ok:
  assumes K: "kzalloc_ok K" and t: "live_tracker s t" and r: "in_range t (unat n)"
  shows "wp (evfs_inode_alloc K n) (\<lambda>r s'. r \<noteq> None \<and> (r = Some 0 \<longrightarrow> alloc_effect K s t n s')) s"
proof -
  have body: "wp (inode_alloc_body K n (ino_group (f_sb s) n) (ino_offset (f_sb s) n))
      (\<lambda>r s'. case r of None \<Rightarrow> False | Some (v, ins) \<Rightarrow> v = 0 \<longrightarrow> alloc_effect K s t n s') (s\<lparr>f_calls := cs\<rparr>)" for cs
    using inode_alloc_body_ok [OF K, of "s\<lparr>f_calls := cs\<rparr>" t n, OF _ r refl refl] t
    by (auto elim!: wp_mono split: option.splits)
  show ?thesis
    unfolding evfs_inode_alloc_def
    by (auto simp: wp_fun intro!: wp_mono [OF body] split: option.splits prod.splits)
qed

section \<open>Accounting of inodes\<close>

definition group_free_inodes :: "fs \<Rightarrow> ext4_group_t \<Rightarrow> nat" where
  "group_free_inodes s g = card {b. b < unat (EXT4_INODES_PER_GROUP (f_sb s)) \<and> \<not> f_ibitmap s g b}"

definition inodes_accounted :: "fs \<Rightarrow> ext4_group_t \<Rightarrow> bool" where
  "inodes_accounted s g =
     (unat (ext4_free_inodes_count (f_sb s) (f_gdesc s g)) = group_free_inodes s g)"

lemma inodes_accounted_calls [simp]: "inodes_accounted (s\<lparr>f_calls := cs\<rparr>) = inodes_accounted s"
  by (simp add: inodes_accounted_def group_free_inodes_def fun_eq_iff)

lemma free_inodes_frame [simp]:
  "ext4_free_inodes_count sb (ext4_free_group_clusters_set sb' gd c) = ext4_free_inodes_count sb gd"
  "ext4_free_inodes_count sb (ext4_itable_unused_set sb' gd c) = ext4_free_inodes_count sb gd"
  "ext4_free_inodes_count sb (gd\<lparr>bg_flags := fl\<rparr>) = ext4_free_inodes_count sb gd"
  by (simp_all add: gdesc_get_defs gdesc_set_defs Let_def)

lemma inode_update_gdesc_count:
  assumes "bitmap_csum_ok K"
  shows "ext4_free_inodes_count sb (inode_update_gdesc K sb g off bm im gd) =
    ext4_free_inodes_count sb (ext4_free_inodes_set sb gd (ext4_free_inodes_count sb gd - 1))"
  using assms by (simp add: inode_update_gdesc_def Let_def bitmap_csum_okD)

text \<open>
  C7 inode_alloc_accounting: a call of \<open>evfs_inode_alloc\<close> that returns 0 has taken an inode whose bit
  was clear and which eVFS did not track, has set exactly this bit and tracks exactly this number in
  addition, and keeps the free-inode count of every group equal to the number of clear bits of the
  group's inode bitmap; the call always returns.
\<close>

theorem inode_alloc_accounting:
  assumes "kzalloc_ok K" "bitmap_csum_ok K" "live_tracker s t" "in_range t (unat n)"
    and "\<And>g. inodes_accounted s g" "0 < EXT4_INODES_PER_GROUP (f_sb s)"
  shows "wp (evfs_inode_alloc K n) (\<lambda>r s'. r \<noteq> None \<and> (r = Some 0 \<longrightarrow>
     \<not> f_ibitmap s (ino_group (f_sb s) n) (unat (ino_offset (f_sb s) n)) \<and> \<not> tracked t (unat n) \<and>
     f_ibitmap s' = (f_ibitmap s)(ino_group (f_sb s) n :=
       (f_ibitmap s (ino_group (f_sb s) n))(unat (ino_offset (f_sb s) n) := True)) \<and>
     (\<exists>t'. live_tracker s' t' \<and> tracked t' = (tracked t)(unat n := True)) \<and>
     (\<forall>g. inodes_accounted s' g))) s"
proof (rule wp_mono [OF inode_alloc_ok [OF assms(1,3,4)]])
  fix r s'
  assume *: "r \<noteq> None \<and> (r = Some 0 \<longrightarrow> alloc_effect K s t n s')"
  define g off where go: "g = ino_group (f_sb s) n" "off = ino_offset (f_sb s) n"
  have off: "unat off < unat (EXT4_INODES_PER_GROUP (f_sb s))"
    using assms(6) unfolding go ino_offset_def by (simp add: word_less_nat_alt unat_mod)
  have acc: "inodes_accounted s' h" if e: "alloc_effect K s t n s'" for h
  proof -
    have geo: "same_geometry (f_sb s) (f_sb s')" using e by (simp add: alloc_effect_def Let_def)
    have ipg: "EXT4_INODES_PER_GROUP (f_sb s') = EXT4_INODES_PER_GROUP (f_sb s)"
      using geo by (simp add: same_geometry_def EXT4_INODES_PER_GROUP_def)
    have bm: "\<not> f_ibitmap s g (unat off)" "f_ibitmap s' = (f_ibitmap s)(g := (f_ibitmap s g)(unat off := True))"
      and oth: "h \<noteq> g \<Longrightarrow> f_gdesc s' h = f_gdesc s h"
      and upd: "f_gdesc s' g = inode_update_gdesc K (f_sb s) g off (f_bbitmap s g) (f_ibitmap s' g) (f_gdesc s g)"
      using e by (simp_all add: alloc_effect_def Let_def go)
    show ?thesis
    proof (cases "h = g")
      case False
      then show ?thesis using assms(5) [of h] oth bm(2) ipg
        by (simp add: inodes_accounted_def group_free_inodes_def free_clusters_geometry(2) [OF geo])
    next
      case True
      have cnt: "group_free_inodes s g = Suc (group_free_inodes s' g)"
        using card_set_bit [OF off, of "f_ibitmap s g"] bm by (simp add: group_free_inodes_def ipg)
      then have "0 < ext4_free_inodes_count (f_sb s) (f_gdesc s g)"
        using assms(5) [of g] by (simp add: inodes_accounted_def word_less_nat_alt)
      then show ?thesis
        using free_inodes.dec [of "f_sb s" "f_gdesc s g"] assms(5) [of g] cnt True
        by (simp add: inodes_accounted_def upd free_clusters_geometry(2) [OF geo]
            inode_update_gdesc_count [OF assms(2)])
    qed
  qed
  show "r \<noteq> None \<and> (r = Some 0 \<longrightarrow>
     \<not> f_ibitmap s (ino_group (f_sb s) n) (unat (ino_offset (f_sb s) n)) \<and> \<not> tracked t (unat n) \<and>
     f_ibitmap s' = (f_ibitmap s)(ino_group (f_sb s) n :=
       (f_ibitmap s (ino_group (f_sb s) n))(unat (ino_offset (f_sb s) n) := True)) \<and>
     (\<exists>t'. live_tracker s' t' \<and> tracked t' = (tracked t)(unat n := True)) \<and>
     (\<forall>g. inodes_accounted s' g))"
    using * acc by (auto simp: alloc_effect_def Let_def)
qed

definition demo_tracker :: evfs_bm_tracker where
  "demo_tracker = \<lparr>bitmaps = [None, None], num_bitmaps = 2\<rparr>"

definition demo_fs_tracked :: fs where
  "demo_fs_tracked = demo_fs\<lparr>f_tracker := Some demo_tracker\<rparr>"

lemma demo_tracker_laws:
  "kzalloc_ok demo_kernel" "live_tracker demo_fs_tracked demo_tracker" "in_range demo_tracker 12"
  "in_range demo_tracker 20"
  "\<And>g. inodes_accounted demo_fs_tracked g" "EXT4_INODES_PER_GROUP (f_sb demo_fs_tracked) = 32"
  by (simp_all add: kzalloc_ok_def demo_kernel_def demo_answer_def live_tracker_def demo_fs_tracked_def
      demo_tracker_def bmt_inv_def in_range_def inodes_accounted_def group_free_inodes_def demo_fs_def
      demo_sb_def demo_sbi_def demo_gdesc_def EXT4_SB_def EXT4_INODES_PER_GROUP_def
      ext4_free_inodes_count_def EXT4_DESC_SIZE_def EXT4_MIN_DESC_SIZE_64BIT_def)

theorem inode_alloc_accounting_witness:
  "wp (evfs_inode_alloc demo_kernel 12) (\<lambda>r s'. r \<noteq> None) demo_fs_tracked"
  using inode_alloc_accounting [OF demo_tracker_laws(1) demo_kernel_laws(1) demo_tracker_laws(2), of 12]
    demo_tracker_laws by (auto elim!: wp_mono)

section \<open>Freeing\<close>

definition free_effect :: "kernel \<Rightarrow> fs \<Rightarrow> evfs_bm_tracker \<Rightarrow> u64 \<Rightarrow> int option \<Rightarrow> fs \<Rightarrow> bool" where
  "free_effect K s t n r s' \<longleftrightarrow> r \<noteq> None \<and> (\<exists>t' cs. live_tracker s' t' \<and> in_range t' = in_range t \<and>
      f_calls s' = f_calls s @ cs \<and> balance (Inode_lock n) (Inode_unlock n) cs = 0 \<and>
      (r = Some 0 \<longrightarrow> tracked t (unat n) \<and> i_nlink (f_inodes s n) \<le> 1 \<and>
         tracked t' = (tracked t)(unat n := False) \<and> Orphan_add n \<in> set cs \<and>
         f_inodes s' = (f_inodes s)(n := drop_nlink K (f_inodes s n))) \<and>
      (\<not> tracked t (unat n) \<longrightarrow> r \<noteq> Some 0 \<and> f_inodes s' = f_inodes s \<and> tracked t' = tracked t))"

lemma inode_free_effect:
  assumes "kzalloc_ok K" "live_tracker s t" "in_range t (unat n)"
  shows "wp (evfs_inode_free K n) (free_effect K s t n) s"
proof (cases "i_nlink (f_inodes s n) > 1")
  case True
  with assms(2) show ?thesis
    unfolding evfs_inode_free_def by (auto simp: wp_fun free_effect_def balance_def)
next
  case False
  with assms(2) show ?thesis
    unfolding evfs_inode_free_def
    by (auto simp: wp_fun intro!: untrack_rule [OF assms(1) _ assms(3)])
      (auto simp: free_effect_def balance_def live_tracker_def count_Kzalloc evfs_inode_dec_nlink_def
        fun_upd_idem upd_inode_def not_less)
qed

text \<open>
  C22 inode_free_only_tracked: \<open>evfs_inode_free\<close> returns; it returns 0 only for an inode that eVFS
  tracks and that has at most one link, and then stops tracking exactly this inode, drops its link
  count and asks for it to be put on the orphan list; for an inode that eVFS does not track it
  returns an error and changes neither an inode nor what is tracked. The lock of the inode is released in
  every case.
\<close>

theorem inode_free_only_tracked:
  assumes "kzalloc_ok K" "live_tracker s t" "in_range t (unat n)"
  shows "wp (evfs_inode_free K n) (free_effect K s t n) s"
  using assms by (rule inode_free_effect)

theorem inode_free_only_tracked_witness:
  "wp (evfs_inode_free demo_kernel 12) (free_effect demo_kernel demo_fs_tracked demo_tracker 12) demo_fs_tracked"
  using inode_free_only_tracked [OF demo_tracker_laws(1,2), of 12] demo_tracker_laws(3) by simp

text \<open>
  C23 inode_alloc_free_roundtrip: freeing an inode right after it was allocated, both calls returning
  0, leaves eVFS tracking the same inodes as before, and the freed inode had the single link that the
  allocation gave it.
\<close>

theorem inode_alloc_free_roundtrip:
  assumes "kzalloc_ok K" "live_tracker s t" "in_range t (unat n)"
    and "\<And>i v. i_nlink (set_nlink K i v) = v"
    and "run_state (evfs_inode_alloc K n) s = (Some 0, s1)"
    and "run_state (evfs_inode_free K n) s1 = (Some 0, s2)"
  shows "(\<exists>t2. live_tracker s2 t2 \<and> tracked t2 = tracked t \<and> in_range t2 = in_range t) \<and>
    i_nlink (f_inodes s1 n) = 1 \<and> f_inodes s2 n = drop_nlink K (f_inodes s1 n)"
proof -
  have e: "alloc_effect K s t n s1"
    using wpD [OF inode_alloc_ok [OF assms(1-3)] assms(5)] by simp
  then obtain t1 where t1: "live_tracker s1 t1" "in_range t1 = in_range t"
    "tracked t1 = (tracked t)(unat n := True)" "\<not> tracked t (unat n)"
    by (auto simp: alloc_effect_def Let_def)
  have nl: "i_nlink (f_inodes s1 n) = 1"
    using e assms(4) by (auto simp: alloc_effect_def Let_def seed_new_inode_def init_new_inode_def)
  have "free_effect K s1 t1 n (Some 0) s2"
    using wpD [OF inode_free_effect [OF assms(1) t1(1)] assms(6)] t1(2) assms(3) by simp
  then show ?thesis using t1 nl by (auto simp: free_effect_def fun_upd_idem)
qed

lemmas inode_handler_defs = evfs_inode_alloc_def inode_alloc_body_def inode_alloc_claim_def
  inode_alloc_commit_def

text \<open>When the kernel around answers every call with success, an untracked inode with a clear bit is allocated.\<close>

lemma inode_alloc_succeeds:
  assumes "answer K = demo_answer" "live_tracker s t" "in_range t (unat n)" "\<not> tracked t (unat n)"
    and "\<not> f_ibitmap s (ino_group (f_sb s) n) (unat (ino_offset (f_sb s) n))"
  shows "wp (evfs_inode_alloc K n) (\<lambda>r s'. r = Some 0) s"
proof -
  have kz: "kzalloc_ok K" using assms(1) by (simp add: kzalloc_ok_def demo_answer_def)
  show ?thesis
    using assms unfolding inode_handler_defs
    by (simp add: wp_fun demo_answer_def) (rule track_rule [OF kz _ assms(3)]; simp add: demo_answer_def)
qed

lemma inode_free_succeeds:
  assumes "answer K = demo_answer" "live_tracker s t" "in_range t (unat n)" "tracked t (unat n)"
    and "i_nlink (f_inodes s n) \<le> 1"
  shows "wp (evfs_inode_free K n) (\<lambda>r s'. r = Some 0) s"
proof -
  have kz: "kzalloc_ok K" using assms(1) by (simp add: kzalloc_ok_def demo_answer_def)
  show ?thesis
    using assms unfolding evfs_inode_free_def evfs_inode_dec_nlink_def
    by (simp add: wp_fun demo_answer_def not_less) (rule untrack_rule [OF kz _ assms(3)]; simp add: demo_answer_def)
qed

lemma demo_untracked: "\<not> tracked demo_tracker n"
  by (simp add: tracked_def demo_tracker_def in_range_def)
    (metis less_2_cases nth_Cons_0 nth_Cons_Suc One_nat_def option.simps(4))

lemma demo_inode_cycle:
  "\<exists>s1 s2. run_state (evfs_inode_alloc demo_kernel 12) demo_fs_tracked = (Some 0, s1) \<and>
     run_state (evfs_inode_free demo_kernel 12) s1 = (Some 0, s2)"
proof -
  have ans: "answer demo_kernel = demo_answer" by (simp add: demo_kernel_def)
  have "\<not> f_ibitmap demo_fs_tracked g b" for g b by (simp add: demo_fs_tracked_def demo_fs_def)
  then have "wp (evfs_inode_alloc demo_kernel 12) (\<lambda>r s'. r = Some 0) demo_fs_tracked"
    using inode_alloc_succeeds [OF ans demo_tracker_laws(2), of 12] demo_tracker_laws(3) demo_untracked by simp
  then obtain s1 where s1: "run_state (evfs_inode_alloc demo_kernel 12) demo_fs_tracked = (Some 0, s1)"
    by (auto simp: wp_def split: prod.splits)
  then have e: "alloc_effect demo_kernel demo_fs_tracked demo_tracker 12 s1"
    using wpD [OF inode_alloc_ok [OF demo_tracker_laws(1,2), of 12] s1] demo_tracker_laws(3) by simp
  then obtain t1 where "live_tracker s1 t1" "in_range t1 12" "tracked t1 12"
    using demo_tracker_laws(3) by (auto simp: alloc_effect_def Let_def)
  moreover have "i_nlink (f_inodes s1 12) = 1"
    using e by (auto simp: alloc_effect_def Let_def seed_new_inode_def init_new_inode_def demo_kernel_def)
  ultimately have "wp (evfs_inode_free demo_kernel 12) (\<lambda>r s'. r = Some 0) s1"
    using inode_free_succeeds [OF ans, of s1 t1 12] by simp
  then show ?thesis using s1 by (auto simp: wp_def split: prod.splits)
qed

theorem inode_alloc_free_roundtrip_witness:
  "\<exists>s1 s2 t2. run_state (evfs_inode_alloc demo_kernel 12) demo_fs_tracked = (Some 0, s1) \<and>
     run_state (evfs_inode_free demo_kernel 12) s1 = (Some 0, s2) \<and>
     live_tracker s2 t2 \<and> tracked t2 = tracked demo_tracker"
proof -
  obtain s1 s2 where *: "run_state (evfs_inode_alloc demo_kernel 12) demo_fs_tracked = (Some 0, s1)"
    "run_state (evfs_inode_free demo_kernel 12) s1 = (Some 0, s2)"
    using demo_inode_cycle by blast
  have "i_nlink (set_nlink demo_kernel i v) = v" for i v by (simp add: demo_kernel_def)
  then show ?thesis
    using inode_alloc_free_roundtrip [OF demo_tracker_laws(1,2) _ _ *] demo_tracker_laws(3) * by auto
qed

section \<open>Failures that leave an inode behind\<close>

text \<open>
  Result inode_alloc_untracked_leak: when the number is outside the range of the tracker (as is the last
  inode of a file system whose inode count is a multiple of 64, see \<open>tracker_last_number\<close>), the
  handler sets the bit in the inode bitmap, fails to track the number, and returns \<open>-EINVAL\<close> with the
  bit still set and the free count as before: the accounting of the group is broken and the inode is
  lost.
\<close>

theorem inode_alloc_untracked_leak:
  assumes "answer K = demo_answer" "live_tracker s t" "\<not> in_range t (unat n)"
    and "inodes_accounted s (ino_group (f_sb s) n)" "0 < EXT4_INODES_PER_GROUP (f_sb s)"
    and "\<not> f_ibitmap s (ino_group (f_sb s) n) (unat (ino_offset (f_sb s) n))"
  shows "wp (evfs_inode_alloc K n) (\<lambda>r s'. r = Some (- EINVAL) \<and>
    f_ibitmap s' (ino_group (f_sb s) n) (unat (ino_offset (f_sb s) n)) \<and>
    \<not> inodes_accounted s' (ino_group (f_sb s) n)) s"
proof -
  define g off where go: "g = ino_group (f_sb s) n" "off = ino_offset (f_sb s) n"
  have off: "unat off < unat (EXT4_INODES_PER_GROUP (f_sb s))"
    using assms(5) unfolding go ino_offset_def by (simp add: word_less_nat_alt unat_mod)
  have broken: "\<not> inodes_accounted (s\<lparr>f_ibitmap := (f_ibitmap s)(g := (f_ibitmap s g)(unat off := True))\<rparr>) g"
    using assms(4,6) card_set_bit [OF off, of "f_ibitmap s g"]
    by (simp add: inodes_accounted_def group_free_inodes_def go)
  have ft: "f_tracker s = Some t" using assms(2) by (simp add: live_tracker_def)
  show ?thesis
    using assms(1,6) broken [unfolded go] ft unfolding inode_handler_defs
    by (simp add: wp_fun demo_answer_def) (rule track_out_rule [OF _ assms(3)]; simp add: demo_answer_def)
qed

theorem inode_alloc_untracked_leak_witness:
  "wp (evfs_inode_alloc demo_kernel 128) (\<lambda>r s'. r = Some (- EINVAL)) demo_fs_tracked"
proof -
  have "\<not> f_ibitmap demo_fs_tracked g b" for g b by (simp add: demo_fs_tracked_def demo_fs_def)
  moreover have "\<not> in_range demo_tracker (unat (128 :: u64))" by (simp add: in_range_def demo_tracker_def)
  moreover have "answer demo_kernel = demo_answer" by (simp add: demo_kernel_def)
  ultimately show ?thesis
    using inode_alloc_untracked_leak [of demo_kernel demo_fs_tracked demo_tracker 128] demo_tracker_laws
    by (auto elim!: wp_mono)
qed

section \<open>The unused tail of the inode table\<close>

lemma itable_frame [simp]:
  "ext4_itable_unused_count sb (ext4_free_inodes_set sb' gd c) = ext4_itable_unused_count sb gd"
  "ext4_itable_unused_count sb (ext4_free_group_clusters_set sb' gd c) = ext4_itable_unused_count sb gd"
  "ext4_itable_unused_count sb (gd\<lparr>bg_flags := fl\<rparr>) = ext4_itable_unused_count sb gd"
  "bg_flags (ext4_free_inodes_set sb gd c) = bg_flags gd"
  "bg_flags (ext4_free_group_clusters_set sb gd c) = bg_flags gd"
  by (simp_all add: gdesc_get_defs gdesc_set_defs Let_def)

lemma unat_scast_small: "unat (x :: u32) < 2 ^ 31 \<Longrightarrow> unat (scast x :: u64) = unat x"
proof -
  assume "unat x < 2 ^ 31"
  then have "take_bit 31 x = x"
    by (simp add: word_unat_eq_iff unat_take_bit)
  then have "\<not> bit x n" if "31 \<le> n" for n
    using that by (metis bit_take_bit_iff not_less)
  then have "(scast x :: u64) = ucast x"
    by (intro bit_word_eqI) (auto simp: bit_simps min_def)
  then show ?thesis
    using unsigned_less [of x, where 'a = nat] by (simp add: unsigned_ucast_eq take_bit_nat_eq_self)
qed

lemma ucast_sub_small:
  assumes "unat (b :: u32) \<le> unat (a :: u64)" "unat a < 2 ^ 31"
  shows "unat (ucast (a - ucast b) :: u32) = unat a - unat b"
proof -
  have "unat (ucast b :: u64) = unat b"
    using unsigned_less [of b, where 'a = nat] by (simp add: unsigned_ucast_eq take_bit_nat_eq_self)
  then have "unat (a - ucast b) = unat a - unat b"
    using assms(1) by (simp add: unat_sub word_le_nat_alt)
  then show ?thesis
    using assms(2) by (simp add: unsigned_ucast_eq take_bit_nat_eq_self)
qed

text \<open>
  C39 itable_unused_tail: in an initialised group with descriptor checksums, of which the last
  \<open>ext4_itable_unused_count\<close> inodes have never been used, the update for the inode at \<open>offset\<close> shrinks
  the unused tail just enough to leave the inode out of it when the inode lies beyond the first inode
  of the tail, and leaves the tail alone when the inode lies before it. The first inode of the tail
  itself is the one case that is missed: it stays inside the tail that is recorded as unused.
\<close>

theorem itable_unused_tail:
  fixes sb :: super_block and gd :: ext4_group_desc and off :: u64
  defines "ipg \<equiv> unat (EXT4_INODES_PER_GROUP sb)" and "unused \<equiv> unat (ext4_itable_unused_count sb gd)"
  assumes "bitmap_csum_ok K" "ext4_has_group_desc_csum sb" "bg_flags gd AND EXT4_BG_INODE_UNINIT = 0"
    and "ipg < 2 ^ 16" "unused \<le> ipg" "unat off < ipg"
    and "unused' = unat (ext4_itable_unused_count sb (inode_update_gdesc K sb g off bm im gd))"
  shows "unused' = (if ipg - unused < unat off then ipg - unat off - 1 else unused) \<and>
    (unat off < ipg - unused' \<longleftrightarrow> unat off \<noteq> ipg - unused)"
proof -
  let ?free = "ucast (EXT4_INODES_PER_GROUP sb - ucast (ext4_itable_unused_count sb gd)) :: u32"
  have "(bg_flags gd AND NOT EXT4_BG_BLOCK_UNINIT) AND EXT4_BG_INODE_UNINIT =
      (bg_flags gd AND EXT4_BG_INODE_UNINIT) AND NOT EXT4_BG_BLOCK_UNINIT"
    by (simp only: and.assoc and.commute and.left_commute)
  then have fl: "(bg_flags gd AND NOT EXT4_BG_BLOCK_UNINIT) AND EXT4_BG_INODE_UNINIT = 0"
    using assms(5) by simp
  have free: "unat ?free = ipg - unused"
    using ucast_sub_small [of "ext4_itable_unused_count sb gd" "EXT4_INODES_PER_GROUP sb"] assms(6,7)
    by (simp add: ipg_def unused_def)
  have "unat ?free < 2 ^ 31"
    unfolding free using assms(6) by simp
  then have "unat (scast ?free :: u64) = ipg - unused"
    by (rule trans [OF unat_scast_small free])
  then have cmp: "(off > scast ?free) = (ipg - unused < unat off)"
    by (simp only: word_less_nat_alt)
  have "unat (EXT4_INODES_PER_GROUP sb - off - 1) = ipg - unat off - 1"
    using assms(8) by (simp add: ipg_def unat_sub word_le_nat_alt)
  then have "unat (ucast (EXT4_INODES_PER_GROUP sb - off - 1) :: u32) = ipg - unat off - 1"
    using assms(6) by (simp add: unsigned_ucast_eq take_bit_nat_eq_self)
  then have set: "unat (ext4_itable_unused_count sb (ext4_itable_unused_set sb gd'
      (ucast (EXT4_INODES_PER_GROUP sb - off - 1)))) = ipg - unat off - 1" for gd'
    using assms(6) by (simp add: itable_unused.get_set)
  have "unused' = (if ipg - unused < unat off then ipg - unat off - 1 else unused)"
    using assms(3-5) fl cmp set
    by (simp add: assms(9) unused_def inode_update_gdesc_def Let_def bitmap_csum_okD)
  then show ?thesis using assms(6-8) by auto
qed

definition demo_csum_sb :: super_block where
  "demo_csum_sb = demo_sb\<lparr>s_fs_info := demo_sbi\<lparr>s_es := demo_es\<lparr>es_feature_ro_compat := EXT4_FEATURE_RO_COMPAT_GDT_CSUM\<rparr>\<rparr>\<rparr>"

theorem itable_unused_tail_witness:
  "unat (ext4_itable_unused_count demo_csum_sb
     (inode_update_gdesc demo_kernel demo_csum_sb 0 0 (\<lambda>_. False) (\<lambda>_. True) demo_gdesc)) = 32"
proof -
  have ipg: "EXT4_INODES_PER_GROUP demo_csum_sb = 32"
    by (simp add: demo_csum_sb_def demo_sbi_def EXT4_SB_def EXT4_INODES_PER_GROUP_def)
  have un: "ext4_itable_unused_count demo_csum_sb demo_gdesc = 32"
    by (simp add: demo_csum_sb_def demo_sbi_def demo_gdesc_def EXT4_SB_def ext4_itable_unused_count_def
        EXT4_DESC_SIZE_def EXT4_MIN_DESC_SIZE_64BIT_def)
  have "ext4_has_group_desc_csum demo_csum_sb"
    by (simp add: demo_csum_sb_def demo_sbi_def EXT4_SB_def ext4_has_group_desc_csum_def has_feature_defs flags)
  moreover have "bg_flags demo_gdesc AND EXT4_BG_INODE_UNINIT = 0" by (simp add: demo_gdesc_def)
  ultimately show ?thesis
    using itable_unused_tail [OF demo_kernel_laws(1), of demo_csum_sb demo_gdesc 0 _ 0 "\<lambda>_. False" "\<lambda>_. True", OF _ _ _ _ _ refl]
    by (simp add: ipg un)
qed

section \<open>Iterating\<close>

definition ino_in_use :: "kernel \<Rightarrow> (ext4_group_t \<Rightarrow> bool) \<Rightarrow> fs \<Rightarrow> u32 \<Rightarrow> bool" where
  "ino_in_use K rd s i =
     (let g = ucast (ucast (i - 1) div EXT4_INODES_PER_GROUP (f_sb s))
      in rd g \<and> f_ibitmap s g (unat ((ucast (i - 1) :: u64) mod EXT4_INODES_PER_GROUP (f_sb s))))"

lemma ino_in_use_calls [simp]: "ino_in_use K rd (s\<lparr>f_calls := cs\<rparr>) = ino_in_use K rd s"
  by (simp add: ino_in_use_def fun_eq_iff Let_def)

lemma inode_iter_step:
  assumes "\<And>cs g. answer K cs (Read_inode_bitmap g) > 0 \<longleftrightarrow> rd g"
  shows "\<exists>cs. inode_iter_loop K tot i s =
    (if \<not> i \<le> tot then Some (0, s\<lparr>f_calls := cs\<rparr>)
     else if ino_in_use K rd s i then Some (i, s\<lparr>f_calls := cs\<rparr>)
     else inode_iter_loop K tot (i + 1) (s\<lparr>f_calls := cs\<rparr>))"
proof (cases "i \<le> tot")
  case True
  have rd: "answer K cs (Read_inode_bitmap g) \<le> 0 \<longleftrightarrow> \<not> rd g" for cs g
    using assms [of cs g] by linarith
  show ?thesis
    using True by (subst inode_iter_loop.simps)
      (auto simp: ino_in_use_def call_def void_call_def rd Let_def)
next
  case False
  then show ?thesis
    by (subst inode_iter_loop.simps) (auto intro: exI [of _ "f_calls s"])
qed

lemma u32_Suc_le:
  assumes "b \<le> tot" "tot < - 1"
  shows "unat ((b :: u32) + 1) = Suc (unat b)"
proof -
  have "unat b \<le> unat tot" "unat tot < 2 ^ 32 - 1"
    using assms by (simp_all add: word_le_nat_alt word_less_nat_alt unat_minus_1)
  then show ?thesis by (simp add: unat_word_ariths)
qed

lemma inode_iter_search:
  assumes rd: "\<And>cs g. answer K cs (Read_inode_bitmap g) > 0 \<longleftrightarrow> rd g" and tot: "tot < - 1"
    and "\<forall>j. lo \<le> j \<and> j < unat i \<longrightarrow> \<not> ino_in_use K rd s (of_nat j)" "lo \<le> unat i"
  shows "\<exists>found s'. inode_iter_loop K tot i s = Some (found, s') \<and>
    ((found = 0 \<and> (\<forall>j. lo \<le> j \<and> j \<le> unat tot \<longrightarrow> \<not> ino_in_use K rd s (of_nat j))) \<or>
     (lo \<le> unat found \<and> found \<le> tot \<and> ino_in_use K rd s found \<and>
      (\<forall>j. lo \<le> j \<and> j < unat found \<longrightarrow> \<not> ino_in_use K rd s (of_nat j))))"
  using assms(3-4)
proof (induction "unat tot + 1 - unat i" arbitrary: i s rule: less_induct)
  case less
  obtain cs where step: "inode_iter_loop K tot i s =
    (if \<not> i \<le> tot then Some (0, s\<lparr>f_calls := cs\<rparr>)
     else if ino_in_use K rd s i then Some (i, s\<lparr>f_calls := cs\<rparr>)
     else inode_iter_loop K tot (i + 1) (s\<lparr>f_calls := cs\<rparr>))"
    using inode_iter_step [OF rd] by blast
  show ?case
  proof (cases "i \<le> tot \<and> \<not> ino_in_use K rd s i")
    case False
    then show ?thesis using step less.prems by (auto simp: word_le_nat_alt)
  next
    case True
    then have ui: "unat (i + 1) = Suc (unat i)" using u32_Suc_le tot by blast
    have it: "unat i \<le> unat tot" using True by (simp add: word_le_nat_alt)
    have "\<forall>j. lo \<le> j \<and> j < unat (i + 1) \<longrightarrow> \<not> ino_in_use K rd (s\<lparr>f_calls := cs\<rparr>) (of_nat j)"
      using less.prems(1) True ui by (auto simp: less_Suc_eq)
    moreover have "unat tot + 1 - unat (i + 1) < unat tot + 1 - unat i" "lo \<le> unat (i + 1)"
      using less.prems(2) ui it by simp_all
    moreover have "inode_iter_loop K tot i s = inode_iter_loop K tot (i + 1) (s\<lparr>f_calls := cs\<rparr>)"
      using step True by simp
    ultimately show ?thesis
      using less.hyps [of "i + 1" "s\<lparr>f_calls := cs\<rparr>"] by (simp only: ino_in_use_calls)
  qed
qed

text \<open>
  Result inode_iter_first: for every file system of fewer than \<open>2\<^sup>3\<^sup>2 - 1\<close> inodes \<open>evfs_inode_iter\<close> returns 0
  and reports the first inode in use at or after the low 32 bits of the start number, or 0 when
  there is none (bitmaps that cannot be read count as unused).
\<close>

theorem inode_iter_first:
  assumes "\<And>cs g. answer K cs (Read_inode_bitmap g) > 0 \<longleftrightarrow> rd g"
    and "es_inodes_count (SB_ES (f_sb s)) < - 1"
  shows "\<exists>found s'. evfs_inode_iter K start s = Some (0, ucast (found :: u32), s') \<and>
    ((found = 0 \<and> (\<forall>j. unat (ucast start :: u32) \<le> j \<and> j \<le> unat (es_inodes_count (SB_ES (f_sb s))) \<longrightarrow>
        \<not> ino_in_use K rd s (of_nat j))) \<or>
     (unat (ucast start :: u32) \<le> unat found \<and> found \<le> es_inodes_count (SB_ES (f_sb s)) \<and>
      ino_in_use K rd s found \<and>
      (\<forall>j. unat (ucast start :: u32) \<le> j \<and> j < unat found \<longrightarrow> \<not> ino_in_use K rd s (of_nat j))))"
proof -
  obtain found s' where "inode_iter_loop K (es_inodes_count (SB_ES (f_sb s))) (ucast start) s = Some (found, s')"
    "(found = 0 \<and> (\<forall>j. unat (ucast start :: u32) \<le> j \<and> j \<le> unat (es_inodes_count (SB_ES (f_sb s))) \<longrightarrow>
        \<not> ino_in_use K rd s (of_nat j))) \<or>
     (unat (ucast start :: u32) \<le> unat found \<and> found \<le> es_inodes_count (SB_ES (f_sb s)) \<and>
      ino_in_use K rd s found \<and>
      (\<forall>j. unat (ucast start :: u32) \<le> j \<and> j < unat found \<longrightarrow> \<not> ino_in_use K rd s (of_nat j)))"
  proof -
    have "\<forall>j. unat (ucast start :: u32) \<le> j \<and> j < unat (ucast start :: u32) \<longrightarrow> \<not> ino_in_use K rd s (of_nat j)"
      by auto
    from inode_iter_search [OF assms this order_refl] that show ?thesis by blast
  qed
  then show ?thesis by (intro exI [of _ found] exI [of _ s']) (simp add: evfs_inode_iter_def)
qed

theorem inode_iter_first_witness:
  "\<exists>found s'. evfs_inode_iter demo_kernel 1 demo_fs = Some (0, ucast (found :: u32), s')"
proof -
  have "answer demo_kernel cs (Read_inode_bitmap g) > 0 \<longleftrightarrow> True" for cs g
    by (simp add: demo_kernel_def demo_answer_def)
  moreover have "es_inodes_count (SB_ES (f_sb demo_fs)) = 64"
    by (simp add: demo_fs_def demo_sb_def demo_sbi_def demo_es_def EXT4_SB_def)
  ultimately show ?thesis
    using inode_iter_first [of demo_kernel "\<lambda>_. True" demo_fs 1] by auto
qed

end
