(* ===== verification/Ext4_Dirent.thy ===== *)
theory Ext4_Dirent
  imports Ext4_Gdesc "HOL-Library.Multiset"
begin

unbundle bit_operations_syntax

text \<open>
  Directory entries: the record lengths of \<open>fs/ext4/ext4.h\<close> and the routines of \<open>fs/ext4/namei.c\<close>
  that search a directory block, find room in it, insert an entry and delete one. A block is a list
  of bytes and a pointer into it is an offset, so that the overlap of the records is that of the code.
  The parameters are \<open>ext4_check_dir_entry\<close> of \<open>dir.c\<close> (true for an error) and the name comparison
  \<open>fscrypt_match_name\<close> of the VFS; directories are not case-folded.
\<close>

section \<open>Record lengths\<close>

definition EXT4_DIR_ROUND :: u32 where "EXT4_DIR_ROUND = 3"
definition EXT4_MAX_REC_LEN :: u32 where "EXT4_MAX_REC_LEN = 65535"

definition ext4_dir_rec_len :: "u8 \<Rightarrow> bool \<Rightarrow> u32" where
  "ext4_dir_rec_len name_len hash_in_dirent =
     (let rec_len = ucast name_len + 8 + EXT4_DIR_ROUND;
          rec_len = (if hash_in_dirent then rec_len + 8 else rec_len)
      in rec_len AND NOT EXT4_DIR_ROUND)"

text \<open>The two conversions, for pages of 64 KiB and for smaller ones; \<open>None\<close> is a failed \<open>BUG_ON\<close>.\<close>

definition ext4_rec_len_from_disk :: "bool \<Rightarrow> u16 \<Rightarrow> u32 \<Rightarrow> u32" where
  "ext4_rec_len_from_disk page_64k dlen blocksize =
     (let len = ucast dlen
      in if page_64k then
           (if len = EXT4_MAX_REC_LEN \<or> len = 0 then blocksize
            else (len AND 65532) OR push_bit 16 (len AND 3))
         else len)"

definition ext4_rec_len_to_disk :: "bool \<Rightarrow> u32 \<Rightarrow> u32 \<Rightarrow> u16 option" where
  "ext4_rec_len_to_disk page_64k len blocksize =
     (if len > blocksize \<or> blocksize > push_bit 18 1 \<or> len AND 3 \<noteq> 0 then None
      else if page_64k then
        (if len < 65536 then Some (ucast len)
         else if len = blocksize then
           (if blocksize = 65536 then Some (ucast EXT4_MAX_REC_LEN) else Some 0)
         else Some (ucast ((len AND 65532) OR (drop_bit 16 len AND 3))))
      else Some (ucast len))"

lemma mask_numerals: "(3 :: u32) = mask 2" "(65532 :: u32) = mask 16 AND NOT (mask 2)"
  by (simp_all add: mask_eq_exp_minus_1)

lemma and_3_0: "(x :: u32) AND 3 = 0 \<longleftrightarrow> unat x mod 4 = 0"
proof -
  have "x AND 3 = take_bit 2 x" by (simp add: take_bit_eq_mask mask_numerals)
  then show ?thesis by (simp add: word_unat_eq_iff unat_take_bit)
qed

lemma ext4_dir_rec_len_unat:
  "unat (ext4_dir_rec_len n h) = (unat n + 11 + (if h then 8 else 0)) div 4 * 4"
proof -
  have n: "unat (ucast n :: u32) = unat n" "unat n < 256"
    using unsigned_less [of n, where 'a = nat] by (simp_all add: unsigned_ucast_eq take_bit_nat_eq_self)
  have a: "unat (x AND NOT 3) = unat x div 4 * 4" for x :: u32
  proof -
    have "x AND NOT 3 = push_bit 2 (drop_bit 2 x)"
      unfolding mask_numerals by (rule bit_word_eqI) (auto simp: bit_simps simp flip: add_2_eq_Suc)
    moreover have "unat x div 4 * 4 < 2 ^ 32"
      using unsigned_less [of x, where 'a = nat] by (intro le_less_trans [OF div_times_less_eq_dividend]) simp
    ultimately show ?thesis
      by (simp add: push_bit_eq_mult drop_bit_eq_div unat_word_ariths unat_div mult.commute)
  qed
  have a4: "unat (x AND - 4) = unat x div 4 * 4" for x :: u32 using a [of x] by simp
  have "unat (ucast n + 8 + 3 :: u32) = unat n + 11" "unat (ucast n + 8 + 3 + 8 :: u32) = unat n + 19"
    using n by (simp_all add: unat_word_ariths)
  then show ?thesis
    by (simp add: ext4_dir_rec_len_def EXT4_DIR_ROUND_def a4 add.commute)
qed

lemma u32_below:
  assumes "unat (x :: u32) < 2 ^ k" "k \<le> n"
  shows "\<not> bit x n"
proof -
  have "take_bit k x = x" using assms(1) by (simp add: word_unat_eq_iff unat_take_bit)
  then show ?thesis using assms(2) by (metis bit_take_bit_iff not_less)
qed

lemma decode_long:
  fixes len :: u32
  defines "v \<equiv> (len AND 65532) OR (drop_bit 16 len AND 3)"
  assumes "len < push_bit 18 1" "len AND 3 = 0"
  shows "(v AND 65532) OR push_bit 16 (v AND 3) = len" "ucast (ucast v :: u16) = v"
proof -
  have hi: "\<not> bit len n" if "18 \<le> n" for n
    using assms(2) u32_below [of len 18 n] that by (simp add: push_bit_eq_mult word_less_nat_alt)
  have lo: "\<not> bit len n" if "n < 2" for n
  proof -
    have "take_bit 2 len = 0" using assms(3) by (simp add: take_bit_eq_mask mask_numerals)
    then have "\<not> bit (take_bit 2 len) n" by simp
    then show ?thesis using that by (simp add: bit_take_bit_iff)
  qed
  have b: "bit v n = ((2 \<le> n \<and> n < 16 \<and> bit len n) \<or> (n < 2 \<and> bit len (n + 16)))" for n
    unfolding v_def mask_numerals by (auto simp: bit_simps add.commute)
  show "(v AND 65532) OR push_bit 16 (v AND 3) = len"
    unfolding mask_numerals
  proof (rule bit_word_eqI)
    fix n assume "n < LENGTH(32)"
    show "bit ((v AND mask 16 AND NOT (mask 2)) OR push_bit 16 (v AND mask 2)) n = bit len n"
    proof -
      consider "n < 2" | "2 \<le> n" "n < 16" | m where "n = m + 16" "m < 2" | "18 \<le> n"
        by (cases "n < 2"; cases "n < 16"; cases "n < 18") (auto simp: not_less intro: that(3) [of "n - 16"])
      then show ?thesis
        by cases (use hi lo in \<open>simp_all add: bit_simps b\<close>)
    qed
  qed
  show "ucast (ucast v :: u16) = v"
    by (rule bit_word_eqI) (auto simp: bit_simps b)
qed

text \<open>
  Result rec_len_roundtrip: a record length that is a multiple of 4 and at most the block size, with
  blocks of at most 256 KiB on machines with 64 KiB pages and of less than 64 KiB otherwise, is
  stored without loss; the one exception is the length of 262140 bytes, which has the encoding of a
  record that fills a block of 64 KiB.
\<close>

theorem rec_len_roundtrip:
  assumes "len \<le> blocksize" "unat len mod 4 = 0" "0 < len" "len \<noteq> 262140"
    and "blocksize \<le> push_bit 18 1" "\<not> page_64k \<Longrightarrow> blocksize < 65536"
  shows "\<exists>d. ext4_rec_len_to_disk page_64k len blocksize = Some d \<and>
    ext4_rec_len_from_disk page_64k d blocksize = len"
proof -
  have a3: "len AND 3 = 0" using assms(2) and_3_0 by simp
  have bug: "\<not> (len > blocksize \<or> blocksize > push_bit 18 1 \<or> len AND 3 \<noteq> 0)"
    using assms(1,5) a3 by (simp add: not_less)
  have small: "ucast (ucast len :: u16) = len" "len AND 65532 = len"
    if "len < 65536"
  proof -
    have hi: "\<not> bit len n" if "16 \<le> n" for n
      using \<open>len < 65536\<close> u32_below [of len 16 n] that by (simp add: word_less_nat_alt)
    then have lt: "bit len n \<Longrightarrow> n < 16" for n by (meson not_less)
    show "ucast (ucast len :: u16) = len"
      by (rule bit_word_eqI) (use lt in \<open>auto simp: bit_simps\<close>)
    have "len AND mask 16 AND NOT (mask 2) = len AND NOT (len AND mask 2)"
      by (rule bit_word_eqI) (use lt in \<open>auto simp: bit_simps\<close>)
    then show "len AND 65532 = len"
      using a3 unfolding mask_numerals by simp
  qed
  consider "\<not> page_64k" | "page_64k" "len < 65536" | "page_64k" "\<not> len < 65536" "len = blocksize"
    | "page_64k" "\<not> len < 65536" "len \<noteq> blocksize" by blast
  then show ?thesis
  proof cases
    case 1
    then show ?thesis using small(1) assms(1,6) bug
      by (simp add: ext4_rec_len_to_disk_def ext4_rec_len_from_disk_def)
  next
    case 2
    have "len \<noteq> 65535" using assms(2) by auto
    with 2 show ?thesis using small assms(3) bug
      by (auto simp: ext4_rec_len_to_disk_def ext4_rec_len_from_disk_def Let_def EXT4_MAX_REC_LEN_def)
  next
    case 3
    then show ?thesis using bug
      by (auto simp: ext4_rec_len_to_disk_def ext4_rec_len_from_disk_def Let_def EXT4_MAX_REC_LEN_def)
  next
    case 4
    define v where "v = (len AND 65532) OR (drop_bit 16 len AND 3)"
    have "len < push_bit 18 1" using assms(1,5) 4(3) by order
    then have d: "(v AND 65532) OR push_bit 16 (v AND 3) = len" "ucast (ucast v :: u16) = v"
      using decode_long [of len] a3 by (simp_all add: v_def)
    have "v \<noteq> 65535" using d(1) assms(4) by auto
    moreover have "v \<noteq> 0" using d(1) assms(3) by auto
    ultimately show ?thesis using 4 bug d
      by (simp add: ext4_rec_len_to_disk_def ext4_rec_len_from_disk_def Let_def EXT4_MAX_REC_LEN_def
          flip: v_def)
  qed
qed

theorem rec_len_roundtrip_witness:
  "\<exists>d. ext4_rec_len_to_disk False 12 4096 = Some d \<and> ext4_rec_len_from_disk False d 4096 = 12"
  using rec_len_roundtrip [of 12 4096 False] by simp

section \<open>Directory blocks\<close>

text \<open>The fields of \<open>struct ext4_dir_entry_2\<close> at an offset of a block, and writing to the block.\<close>

definition de_inode :: "u8 list \<Rightarrow> nat \<Rightarrow> u32" where
  "de_inode blk off = get_le32 [blk ! off, blk ! (off + 1), blk ! (off + 2), blk ! (off + 3)]"

definition de_rec_len :: "u8 list \<Rightarrow> nat \<Rightarrow> u16" where
  "de_rec_len blk off = get_le16 [blk ! (off + 4), blk ! (off + 5)]"

definition de_name_len :: "u8 list \<Rightarrow> nat \<Rightarrow> u8" where
  "de_name_len blk off = blk ! (off + 6)"

definition de_file_type :: "u8 list \<Rightarrow> nat \<Rightarrow> u8" where
  "de_file_type blk off = blk ! (off + 7)"

definition de_name :: "u8 list \<Rightarrow> nat \<Rightarrow> u8 list" where
  "de_name blk off = map (\<lambda>i. blk ! (off + 8 + i)) [0..<unat (de_name_len blk off)]"

lemmas de_defs = de_inode_def de_rec_len_def de_name_len_def de_file_type_def de_name_def

definition put :: "nat \<Rightarrow> u8 list \<Rightarrow> u8 list \<Rightarrow> u8 list" where
  "put off bs blk = take off blk @ bs @ drop (off + length bs) blk"

text \<open>
  In the rest the page size is below 64 KiB, so that the length on disk is the length; a directory is
  described by the flag of its entries' hashes.
\<close>

definition rlen_at :: "u8 list \<Rightarrow> nat \<Rightarrow> nat" where
  "rlen_at blk off = unat (ext4_rec_len_from_disk False (de_rec_len blk off) 0)"

definition nlen_at :: "bool \<Rightarrow> u8 list \<Rightarrow> nat \<Rightarrow> nat" where
  "nlen_at h blk off = unat (ext4_dir_rec_len (de_name_len blk off) h)"

definition ext4_match :: "(u8 list \<Rightarrow> u8 list \<Rightarrow> bool) \<Rightarrow> u8 list \<Rightarrow> u8 list \<Rightarrow> nat \<Rightarrow> bool" where
  "ext4_match match_name fname blk off =
     (if de_inode blk off = 0 then False else match_name fname (de_name blk off))"

text \<open>\<open>struct ext4_dir_entry_2\<close> has 263 bytes and is padded to 264.\<close>

definition EXT4_BASE_DIR_LEN :: nat where
  "EXT4_BASE_DIR_LEN = 264 - 255"

text \<open>\<open>ext4_search_dir\<close>: the return value and, for 1, the offset of the entry.\<close>

function ext4_search_dir ::
    "(u8 list \<Rightarrow> u8 list \<Rightarrow> bool) \<Rightarrow> (u8 list \<Rightarrow> nat \<Rightarrow> bool) \<Rightarrow> u8 list \<Rightarrow> nat \<Rightarrow> u8 list \<Rightarrow> nat \<Rightarrow> int \<times> nat" where
  "ext4_search_dir match_name check blk buf_size fname off =
     (if off + EXT4_BASE_DIR_LEN < buf_size then
        if off + 8 + unat (de_name_len blk off) \<le> buf_size \<and> ext4_match match_name fname blk off then
          (if check blk off then (- 1, 0) else (1, off))
        else if rlen_at blk off = 0 then (- 1, 0)
        else ext4_search_dir match_name check blk buf_size fname (off + rlen_at blk off)
      else (0, 0))"
  by pat_completeness auto

termination
  by (relation "measure (\<lambda>(match_name, check, blk, buf_size, fname, off). buf_size - off)") auto

declare ext4_search_dir.simps [simp del]

text \<open>
  \<open>ext4_find_dest_de\<close>: an error code or the offset of an entry with room. The loop follows record
  lengths that \<open>ext4_check_dir_entry\<close> has accepted; not ending is the value \<open>None\<close>.
\<close>

partial_function (option) find_dest_loop ::
    "(u8 list \<Rightarrow> u8 list \<Rightarrow> bool) \<Rightarrow> (u8 list \<Rightarrow> nat \<Rightarrow> bool) \<Rightarrow> bool \<Rightarrow> u8 list \<Rightarrow> nat \<Rightarrow> u8 list \<Rightarrow> nat \<Rightarrow> nat \<Rightarrow>
     (int + nat) option" where
  "find_dest_loop match_name check h blk buf_size fname reclen off =
     (if off + reclen \<le> buf_size then
        if check blk off then Some (Inl (- EUCLEAN))
        else if ext4_match match_name fname blk off then Some (Inl (- EEXIST))
        else if (if de_inode blk off \<noteq> 0 then int (rlen_at blk off) - int (nlen_at h blk off)
                 else int (rlen_at blk off)) \<ge> int reclen then Some (Inr off)
        else find_dest_loop match_name check h blk buf_size fname reclen (off + rlen_at blk off)
      else Some (Inl (- ENOSPC)))"

definition ext4_find_dest_de ::
    "(u8 list \<Rightarrow> u8 list \<Rightarrow> bool) \<Rightarrow> (u8 list \<Rightarrow> nat \<Rightarrow> bool) \<Rightarrow> bool \<Rightarrow> u8 list \<Rightarrow> nat \<Rightarrow> u8 list \<Rightarrow> (int + nat) option" where
  "ext4_find_dest_de match_name check h blk buf_size fname =
     find_dest_loop match_name check h blk buf_size fname
       (unat (ext4_dir_rec_len (of_nat (length fname)) h)) 0"

text \<open>The file type that \<open>ext4_set_de_type\<close> stores, by the table \<open>ext4_type_by_mode\<close>.\<close>

definition ext4_type_by_mode :: "u16 \<Rightarrow> u8" where
  "ext4_type_by_mode m =
     (if m = 0x8 then 1 else if m = 0x4 then 2 else if m = 0x2 then 3 else if m = 0x6 then 4
      else if m = 0x1 then 5 else if m = 0xC then 6 else if m = 0xA then 7 else 0)"

definition ext4_set_de_type :: "bool \<Rightarrow> u16 \<Rightarrow> nat \<Rightarrow> u8 list \<Rightarrow> u8 list" where
  "ext4_set_de_type has_filetype mode off blk =
     (if has_filetype then blk[off + 7 := ext4_type_by_mode (drop_bit 12 (mode AND 0xF000))] else blk)"

text \<open>
  \<open>ext4_insert_dentry\<close>, without the hashes of encrypted and case-folded directories: split the
  entry if it is in use, then fill in the new one.
\<close>

definition fill_dentry :: "bool \<Rightarrow> u16 \<Rightarrow> u32 \<Rightarrow> u8 list \<Rightarrow> nat \<Rightarrow> u8 list \<Rightarrow> u8 list" where
  "fill_dentry has_filetype mode ino fname off blk =
     (let blk = blk[off + 7 := 0];
          blk = put off (le32 ino) blk;
          blk = ext4_set_de_type has_filetype mode off blk;
          blk = blk[off + 6 := of_nat (length fname)]
      in put (off + 8) fname blk)"

definition ext4_insert_dentry ::
    "bool \<Rightarrow> bool \<Rightarrow> u16 \<Rightarrow> u32 \<Rightarrow> u8 list \<Rightarrow> nat \<Rightarrow> u8 list \<Rightarrow> u8 list" where
  "ext4_insert_dentry h has_filetype mode ino fname off blk =
     (let nlen = nlen_at h blk off; rlen = rlen_at blk off
      in if de_inode blk off \<noteq> 0 then
           (let off1 = off + nlen;
                blk = put (off1 + 4) (le16 (of_nat (rlen - nlen))) blk;
                blk = put (off + 4) (le16 (of_nat nlen)) blk
            in fill_dentry has_filetype mode ino fname off1 blk)
         else fill_dentry has_filetype mode ino fname off blk)"

text \<open>\<open>ext4_generic_delete_entry\<close>: the return value and the block.\<close>

partial_function (option) generic_delete_loop ::
    "(u8 list \<Rightarrow> nat \<Rightarrow> bool) \<Rightarrow> nat \<Rightarrow> nat \<Rightarrow> nat option \<Rightarrow> nat \<Rightarrow> u8 list \<Rightarrow> (int \<times> u8 list) option" where
  "generic_delete_loop check limit de_del pde off blk =
     (if off < limit then
        if check blk off then Some (- EUCLEAN, blk)
        else if off = de_del then
          (case pde of
             Some p \<Rightarrow>
               (let blk = put (p + 4) (le16 (of_nat (rlen_at blk p + rlen_at blk off))) blk
                in Some (0, put off (replicate (rlen_at blk off) 0) blk))
           | None \<Rightarrow>
               (let blk = put off (le32 0) blk
                in Some (0, put (off + 6) (replicate (rlen_at blk off - 6) 0) blk)))
        else generic_delete_loop check limit de_del (Some off) (off + rlen_at blk off) blk
      else Some (- ENOENT, blk))"

definition ext4_generic_delete_entry ::
    "(u8 list \<Rightarrow> nat \<Rightarrow> bool) \<Rightarrow> nat \<Rightarrow> u8 list \<Rightarrow> nat \<Rightarrow> nat \<Rightarrow> (int \<times> u8 list) option" where
  "ext4_generic_delete_entry check de_del blk buf_size csum_size =
     generic_delete_loop check (buf_size - csum_size) de_del None 0 blk"

section \<open>The entries of a block\<close>

lemma length_put [simp]: "off + length bs \<le> length blk \<Longrightarrow> length (put off bs blk) = length blk"
  by (simp add: put_def)

lemma nth_put:
  assumes "off + length bs \<le> length blk" "i < length blk"
  shows "put off bs blk ! i = (if off \<le> i \<and> i < off + length bs then bs ! (i - off) else blk ! i)"
  using assms by (auto simp: put_def nth_append min_def)

definition entry_ok :: "bool \<Rightarrow> u8 list \<Rightarrow> nat \<Rightarrow> nat \<Rightarrow> bool" where
  "entry_ok h blk off lim = (nlen_at h blk off \<le> rlen_at blk off \<and> off + rlen_at blk off \<le> lim \<and>
     lim \<le> length blk \<and> rlen_at blk off mod 4 = 0)"

inductive chain :: "bool \<Rightarrow> u8 list \<Rightarrow> nat \<Rightarrow> nat \<Rightarrow> nat list \<Rightarrow> bool" for h blk where
  chain_Nil: "chain h blk lim lim []"
| chain_Cons: "entry_ok h blk off lim \<Longrightarrow> chain h blk (off + rlen_at blk off) lim offs \<Longrightarrow>
    chain h blk off lim (off # offs)"

inductive_simps chain_Nil_iff [simp]: "chain h blk off lim []"
inductive_simps chain_Cons_iff [simp]: "chain h blk off lim (x # offs)"

definition live :: "u8 list \<Rightarrow> nat list \<Rightarrow> (u32 \<times> u8 list) list" where
  "live blk offs = map (\<lambda>p. (de_inode blk p, de_name blk p)) (filter (\<lambda>p. de_inode blk p \<noteq> 0) offs)"

lemma live_simps [simp]:
  "live blk [] = []"
  "live blk (x # xs) = (if de_inode blk x \<noteq> 0 then [(de_inode blk x, de_name blk x)] else []) @ live blk xs"
  "live blk (xs @ ys) = live blk xs @ live blk ys"
  by (simp_all add: live_def)

lemma nlen_bounds: "8 + unat (de_name_len blk off) \<le> nlen_at h blk off" "nlen_at h blk off mod 4 = 0"
  by (auto simp: nlen_at_def ext4_dir_rec_len_unat)

lemma fields_cong:
  assumes "\<forall>i. off \<le> i \<and> i < lim \<longrightarrow> blk' ! i = blk ! i" "off + 8 \<le> lim"
  shows "de_inode blk' off = de_inode blk off" "de_rec_len blk' off = de_rec_len blk off"
    "de_name_len blk' off = de_name_len blk off" "rlen_at blk' off = rlen_at blk off"
    "nlen_at h blk' off = nlen_at h blk off"
  using assms by (simp_all add: de_defs rlen_at_def nlen_at_def)

lemma name_cong:
  assumes "\<forall>i. off \<le> i \<and> i < lim \<longrightarrow> blk' ! i = blk ! i" "off + 8 + unat (de_name_len blk off) \<le> lim"
  shows "de_name blk' off = de_name blk off"
  using assms fields_cong(3) [OF assms(1)] by (simp add: de_name_def)

lemma entry_ok_room: "entry_ok h blk off lim \<Longrightarrow> off + 8 + unat (de_name_len blk off) \<le> off + rlen_at blk off"
  using nlen_bounds(1) [of blk off h] by (simp add: entry_ok_def)

lemma chain_bounds: "chain h blk off lim offs \<Longrightarrow> off \<le> lim"
  by (induction offs arbitrary: off) (auto simp: entry_ok_def dest: le_trans [OF le_add1])

lemma chain_length: "chain h blk off lim offs \<Longrightarrow> offs \<noteq> [] \<Longrightarrow> lim \<le> length blk"
  by (cases offs) (auto simp: entry_ok_def)

lemma chain_cong:
  assumes "\<forall>i. off \<le> i \<and> i < lim \<longrightarrow> blk' ! i = blk ! i" "length blk' = length blk"
    and "chain h blk off lim offs"
  shows "chain h blk' off lim offs \<and> live blk' offs = live blk offs"
  using assms(3,1)
proof (induction offs arbitrary: off rule: list.induct)
  case (Cons x offs)
  then have e: "x = off" "entry_ok h blk off lim" "chain h blk (off + rlen_at blk off) lim offs" by simp_all
  have le: "off + 8 \<le> lim" "off + 8 + unat (de_name_len blk off) \<le> lim"
    using entry_ok_room [OF e(2)] e(2) by (simp_all add: entry_ok_def)
  note f = fields_cong [OF Cons.prems(2) le(1)] name_cong [OF Cons.prems(2) le(2)]
  have "chain h blk' (off + rlen_at blk off) lim offs \<and> live blk' offs = live blk offs"
    using Cons.IH [OF e(3)] Cons.prems(2) by simp
  then show ?case using e f assms(2) by (simp add: entry_ok_def)
qed simp

lemma chain_split:
  "chain h blk off lim (xs @ p # ys) \<longleftrightarrow> chain h blk off p xs \<and> chain h blk p lim (p # ys)"
proof (induction xs arbitrary: off)
  case (Cons x xs)
  have "entry_ok h blk off lim \<longleftrightarrow> entry_ok h blk off p"
    if "chain h blk (off + rlen_at blk off) p xs" "chain h blk p lim (p # ys)"
    using chain_bounds [OF that(1)] chain_bounds [OF that(2)] chain_length [OF that(2)]
    by (auto simp: entry_ok_def)
  then show ?case using Cons.IH by auto
qed auto

lemma fill_dentry_fields:
  fixes ft mode ino
  assumes "off + 8 + length fname \<le> length blk" "length fname \<le> 255"
  defines "blk' \<equiv> fill_dentry ft mode ino fname off blk"
  shows "length blk' = length blk" "de_inode blk' off = ino" "de_name blk' off = fname"
    "de_name_len blk' off = of_nat (length fname)" "de_rec_len blk' off = de_rec_len blk off"
    "\<And>i. i < length blk \<Longrightarrow> i < off \<or> off + 8 + length fname \<le> i \<Longrightarrow> blk' ! i = blk ! i"
proof -
  have u: "unat (of_nat (length fname) :: u8) = length fname"
    using assms(2) by (simp add: unat_of_nat take_bit_nat_eq_self)
  define b1 where "b1 = put off (le32 ino) (blk[off + 7 := 0])"
  define b2 where "b2 = (ext4_set_de_type ft mode off b1)[off + 6 := of_nat (length fname)]"
  have l1: "length b1 = length blk" using assms(1) by (simp add: b1_def)
  have l2: "length b2 = length blk" by (simp add: b2_def ext4_set_de_type_def l1)
  have b': "blk' = put (off + 8) fname b2"
    by (simp add: blk'_def fill_dentry_def Let_def b1_def b2_def)
  show len: "length blk' = length blk" using assms(1) l2 by (simp add: b')
  have n1: "b1 ! i = (if off \<le> i \<and> i < off + 4 then le32 ino ! (i - off) else if i = off + 7 then 0 else blk ! i)"
    if "i < length blk" for i
    using that assms(1) unfolding b1_def by (subst nth_put) (auto simp: nth_list_update)
  have n2: "b2 ! i = (if i = off + 6 then of_nat (length fname)
      else if ft \<and> i = off + 7 then ext4_type_by_mode (drop_bit 12 (mode AND 0xF000)) else b1 ! i)"
    if "i < length blk" for i
    using that assms(1) l1 unfolding b2_def ext4_set_de_type_def by (auto simp: nth_list_update)
  have n: "blk' ! i = (if off + 8 \<le> i \<and> i < off + 8 + length fname then fname ! (i - (off + 8)) else b2 ! i)"
    if "i < length blk" for i
    using that assms(1) l2 unfolding b' by (subst nth_put) auto
  show "\<And>i. i < length blk \<Longrightarrow> i < off \<or> off + 8 + length fname \<le> i \<Longrightarrow> blk' ! i = blk ! i"
    by (auto simp: n n2 n1)
  show nl: "de_name_len blk' off = of_nat (length fname)"
    using assms(1) by (simp add: de_name_len_def n n2)
  show "de_inode blk' off = ino"
    using assms(1) get_le32_le32 [of ino "[]"] by (simp add: de_inode_def n n2 n1 le32_def)
  show "de_rec_len blk' off = de_rec_len blk off"
    using assms(1) by (simp add: de_rec_len_def n n2 n1)
  show "de_name blk' off = fname"
    using assms(1) by (intro nth_equalityI) (simp_all add: de_name_def nl u n)
qed

section \<open>Finding room\<close>

definition room :: "bool \<Rightarrow> u8 list \<Rightarrow> nat \<Rightarrow> nat \<Rightarrow> bool" where
  "room h blk off reclen =
     (if de_inode blk off \<noteq> 0 then nlen_at h blk off + reclen \<le> rlen_at blk off else reclen \<le> rlen_at blk off)"

lemma chain_member:
  "chain h blk off lim offs \<Longrightarrow> p \<in> set offs \<Longrightarrow> entry_ok h blk p lim \<and> off \<le> p"
  by (induction offs arbitrary: off) (auto dest: le_trans [OF le_add1])

lemma find_dest_loop_ok:
  assumes "\<And>p. entry_ok h blk p lim \<Longrightarrow> \<not> check blk p" "chain h blk off lim offs" "0 < reclen"
  shows "\<exists>r. find_dest_loop mn check h blk lim fname reclen off = Some r \<and>
    (case r of
       Inr p \<Rightarrow> p \<in> set offs \<and> room h blk p reclen
     | Inl e \<Rightarrow> e = - EEXIST \<and> (\<exists>p \<in> set offs. ext4_match mn fname blk p) \<or>
         e = - ENOSPC \<and> (\<forall>p \<in> set offs. \<not> room h blk p reclen))"
  using assms(2)
proof (induction offs arbitrary: off rule: list.induct)
  case Nil
  then show ?case using assms(3) by (subst find_dest_loop.simps) simp
next
  case (Cons x offs)
  then have e: "x = off" "entry_ok h blk off lim" "chain h blk (off + rlen_at blk off) lim offs" by simp_all
  have rm: "room h blk off reclen \<longleftrightarrow>
      (if de_inode blk off \<noteq> 0 then int (rlen_at blk off) - int (nlen_at h blk off)
       else int (rlen_at blk off)) \<ge> int reclen"
    by (auto simp: room_def)
  show ?case
  proof (cases "off + reclen \<le> lim \<and> \<not> ext4_match mn fname blk off \<and> \<not> room h blk off reclen")
    case True
    then have "find_dest_loop mn check h blk lim fname reclen off =
        find_dest_loop mn check h blk lim fname reclen (off + rlen_at blk off)"
      using assms(1) [OF e(2)] rm by (subst find_dest_loop.simps) simp
    then show ?thesis using Cons.IH [OF e(3)] e(1) True by (auto split: sum.splits)
  next
    case False
    have "\<not> room h blk p reclen" if "\<not> off + reclen \<le> lim" "p = off \<or> p \<in> set offs" for p
    proof -
      have "entry_ok h blk p lim \<and> off \<le> p"
        using that(2) e chain_member [OF e(3)] by (auto dest: le_trans [OF le_add1])
      then show ?thesis using that(1) by (auto simp: room_def entry_ok_def)
    qed
    then show ?thesis using False assms(1) [OF e(2)] rm e(1)
      by (subst find_dest_loop.simps) (auto simp: of_nat_diff)
  qed
qed

section \<open>Insertion\<close>

lemma rlen_at_16: "rlen_at blk off = unat (de_rec_len blk off)"
proof -
  have "unat (ucast w :: u32) = unat w" for w :: u16
    using unsigned_less [of w, where 'a = nat] by (simp add: unsigned_ucast_eq take_bit_nat_eq_self)
  then show ?thesis by (simp add: rlen_at_def ext4_rec_len_from_disk_def)
qed

lemma rec_len_put:
  assumes "off + 6 \<le> length blk" "n < 2 ^ 16"
  shows "rlen_at (put (off + 4) (le16 (of_nat n)) blk) off = n"
proof -
  have "de_rec_len (put (off + 4) (le16 (of_nat n)) blk) off = of_nat n"
    using assms(1) get_le16_le16 [of "of_nat n" "[]"]
    by (simp add: de_rec_len_def nth_put le16_def)
  then show ?thesis using assms(2) by (simp add: rlen_at_16 unat_of_nat take_bit_nat_eq_self)
qed

lemma live_mset:
  "mset (live blk (xs @ p # ys)) =
     (if de_inode blk p \<noteq> 0 then {#(de_inode blk p, de_name blk p)#} else {#}) + mset (live blk xs) + mset (live blk ys)"
  by simp

lemma fill_entry_ok:
  fixes ft mode ino
  assumes "reclen = unat (ext4_dir_rec_len (of_nat (length fname)) h)" "length fname \<le> 255"
    and "off + rlen_at blk off \<le> lim" "lim \<le> length blk" "reclen \<le> rlen_at blk off" "rlen_at blk off mod 4 = 0"
  defines "blk' \<equiv> fill_dentry ft mode ino fname off blk"
  shows "entry_ok h blk' off lim" "rlen_at blk' off = rlen_at blk off" "length blk' = length blk"
    "de_inode blk' off = ino" "de_name blk' off = fname"
    "\<And>i. i < length blk \<Longrightarrow> i < off \<or> off + rlen_at blk off \<le> i \<Longrightarrow> blk' ! i = blk ! i"
proof -
  have "8 + length fname \<le> reclen"
    using assms(1,2) by (auto simp: ext4_dir_rec_len_unat unat_of_nat take_bit_nat_eq_self)
  then have r: "off + 8 + length fname \<le> off + rlen_at blk off" using assms(5) by simp
  then have "off + 8 + length fname \<le> length blk" using assms(3,4) by simp
  note f = fill_dentry_fields [OF this assms(2), where ft = ft and mode = mode and ino = ino, folded blk'_def]
  show rl: "rlen_at blk' off = rlen_at blk off" using f(5) by (simp add: rlen_at_16)
  show "length blk' = length blk" "de_inode blk' off = ino" "de_name blk' off = fname" using f by simp_all
  show "entry_ok h blk' off lim"
    using assms(1,3-6) f by (simp add: entry_ok_def rl nlen_at_def)
  show "\<And>i. i < length blk \<Longrightarrow> i < off \<or> off + rlen_at blk off \<le> i \<Longrightarrow> blk' ! i = blk ! i"
    using f(6) r by auto
qed

lemma insert_unused:
  fixes ft mode
  assumes c: "chain h blk off lim (xs @ p # ys)" and "de_inode blk p = 0" "ino \<noteq> 0" "length fname \<le> 255"
    and "unat (ext4_dir_rec_len (of_nat (length fname)) h) \<le> rlen_at blk p"
  defines "blk' \<equiv> fill_dentry ft mode ino fname p blk"
  shows "chain h blk' off lim (xs @ p # ys) \<and> length blk' = length blk \<and>
    mset (live blk' (xs @ p # ys)) = add_mset (ino, fname) (mset (live blk (xs @ p # ys)))"
proof -
  have e: "chain h blk off p xs" "entry_ok h blk p lim" "chain h blk (p + rlen_at blk p) lim ys"
    using c by (simp_all add: chain_split)
  have lim: "lim \<le> length blk" "p + rlen_at blk p \<le> lim" "rlen_at blk p mod 4 = 0"
    using e(2) by (simp_all add: entry_ok_def)
  note f = fill_entry_ok [OF refl assms(4) lim(2,1) assms(5) lim(3), where ft = ft and mode = mode and ino = ino,
      folded blk'_def]
  have x: "chain h blk' off p xs \<and> live blk' xs = live blk xs"
    by (rule chain_cong) (use f(3,6) lim e in auto)
  have y: "chain h blk' (p + rlen_at blk p) lim ys \<and> live blk' ys = live blk ys"
    by (rule chain_cong) (use f(3,6) lim e in auto)
  show ?thesis using x y f assms(2,3) by (simp add: chain_split)
qed

lemma insert_split:
  fixes ft mode
  assumes c: "chain h blk off lim (xs @ p # ys)" and "de_inode blk p \<noteq> 0" "ino \<noteq> 0" "length fname \<le> 255"
    and room: "nlen_at h blk p + unat (ext4_dir_rec_len (of_nat (length fname)) h) \<le> rlen_at blk p"
  defines "q \<equiv> p + nlen_at h blk p"
  defines "b2 \<equiv> put (p + 4) (le16 (of_nat (nlen_at h blk p)))
    (put (q + 4) (le16 (of_nat (rlen_at blk p - nlen_at h blk p))) blk)"
  defines "blk' \<equiv> fill_dentry ft mode ino fname q b2"
  shows "chain h blk' off lim (xs @ p # q # ys) \<and> length blk' = length blk \<and>
    mset (live blk' (xs @ p # q # ys)) = add_mset (ino, fname) (mset (live blk (xs @ p # ys)))"
proof -
  have e: "chain h blk off p xs" "entry_ok h blk p lim" "chain h blk (p + rlen_at blk p) lim ys"
    using c by (simp_all add: chain_split)
  have lim: "lim \<le> length blk" "p + rlen_at blk p \<le> lim" "rlen_at blk p mod 4 = 0"
    using e(2) by (simp_all add: entry_ok_def)
  let ?n = "nlen_at h blk p" and ?r = "rlen_at blk p"
  have r16: "?r < 2 ^ 16" using unsigned_less [of "de_rec_len blk p", where 'a = nat] by (simp add: rlen_at_16)
  have n8: "8 + unat (de_name_len blk p) \<le> ?n" "?n mod 4 = 0" using nlen_bounds by auto
  have new8: "8 \<le> unat (ext4_dir_rec_len (of_nat (length fname)) h)"
    by (simp add: ext4_dir_rec_len_unat)
  have q: "q + 6 \<le> length blk" "p + 6 \<le> length blk" using room new8 lim n8 by (simp_all add: q_def)
  define b1 where "b1 = put (q + 4) (le16 (of_nat (?r - ?n))) blk"
  have l1: "length b1 = length blk" using q by (simp add: b1_def)
  have l2: "length b2 = length blk" using q l1 by (simp add: b2_def flip: b1_def)
  have n1: "b1 ! i = blk ! i" if "i < length blk" "i < q + 4 \<or> q + 6 \<le> i" for i
    using that q by (auto simp: b1_def nth_put)
  have n2: "b2 ! i = b1 ! i" if "i < length blk" "i < p + 4 \<or> p + 6 \<le> i" for i
    using that q l1 by (auto simp: b2_def nth_put simp flip: b1_def)
  have rp: "rlen_at b2 p = ?n"
    unfolding b2_def b1_def [symmetric] using q r16 room l1 by (intro rec_len_put) auto
  have "rlen_at b2 q = rlen_at b1 q"
    using q n8 l1 by (simp add: rlen_at_16 de_rec_len_def n2 q_def)
  also have "\<dots> = ?r - ?n" unfolding b1_def using q r16 by (intro rec_len_put) auto
  finally have rq: "rlen_at b2 q = ?r - ?n" .
  have mod: "(?r - ?n) mod 4 = 0" using lim(3) n8(2) room by (simp add: mod_eq_0_iff_dvd)
  have fill: "q + rlen_at b2 q \<le> lim" "lim \<le> length b2"
    "unat (ext4_dir_rec_len (of_nat (length fname)) h) \<le> rlen_at b2 q" "rlen_at b2 q mod 4 = 0"
    unfolding rq using room lim l2 mod by (simp_all add: q_def)
  note f = fill_entry_ok [OF refl assms(4) fill, where ft = ft and mode = mode and ino = ino, folded blk'_def]
  have out: "blk' ! i = blk ! i" if "i < length blk" "i < p + 4 \<or> p + 6 \<le> i \<and> i < q \<or> p + ?r \<le> i" for i
  proof -
    have "i < q \<or> q + rlen_at b2 q \<le> i" unfolding rq using that(2) room n8 by (auto simp: q_def)
    moreover have "i < q + 4 \<or> q + 6 \<le> i" "i < p + 4 \<or> p + 6 \<le> i"
      using that(2) room new8 n8 by (auto simp: q_def)
    ultimately show ?thesis using f(6) [of i] n1 [of i] n2 [of i] that(1) l2 by simp
  qed
  have x: "chain h blk' off p xs \<and> live blk' xs = live blk xs"
    by (rule chain_cong) (use out f(3) l2 lim e in auto)
  have y: "chain h blk' (p + ?r) lim ys \<and> live blk' ys = live blk ys"
    by (rule chain_cong) (use out f(3) l2 lim e in auto)
  have pb: "p + 8 + unat (de_name_len blk p) \<le> length blk" using lim room n8 by linarith
  have plt: "p + 8 + unat (de_name_len blk p) \<le> q" using n8 by (simp add: q_def)
  have pin: "de_inode blk' p = de_inode blk p" "de_name_len blk' p = de_name_len blk p"
    using out pb plt by (simp_all add: de_inode_def de_name_len_def)
  have pnm: "de_name blk' p = de_name blk p"
    using out pb plt pin(2) by (auto simp: de_name_def intro!: nth_equalityI)
  have prl: "rlen_at blk' p = ?n"
  proof -
    have "de_rec_len blk' p = de_rec_len b2 p"
      using f(6) l2 pb plt by (simp add: de_rec_len_def)
    then show ?thesis using rp by (simp add: rlen_at_16)
  qed
  have next1: "p + ?n = q" and next2: "q + (?r - ?n) = p + ?r" using room by (simp_all add: q_def)
  have pok: "entry_ok h blk' p lim"
    using room lim n8 f(3) l2 by (simp add: entry_ok_def prl nlen_at_def pin)
  show ?thesis
    using x y f pok pin pnm prl assms(2,3) l2 rq next1 next2
    by (simp add: chain_split)
qed

lemma rlen_ge_8: "entry_ok h blk off lim \<Longrightarrow> 8 \<le> rlen_at blk off"
  using nlen_bounds(1) [of blk off h] by (simp add: entry_ok_def)

lemma insert_at:
  fixes ft mode
  assumes "chain h blk 0 lim offs" "p \<in> set offs" "room h blk p (unat (ext4_dir_rec_len (of_nat (length fname)) h))" "ino \<noteq> 0" "length fname \<le> 255"
  defines "blk' \<equiv> ext4_insert_dentry h ft mode ino fname p blk"
  shows "\<exists>offs'. chain h blk' 0 lim offs' \<and> length blk' = length blk \<and> mset (live blk' offs') = add_mset (ino, fname) (mset (live blk offs))"
    "\<And>i. lim \<le> i \<Longrightarrow> i < length blk \<Longrightarrow> blk' ! i = blk ! i"
proof -
  obtain xs ys where o: "offs = xs @ p # ys" using assms(2) by (auto dest: split_list)
  have c: "chain h blk 0 lim (xs @ p # ys)" using assms(1) o by simp
  have ok: "p + rlen_at blk p \<le> lim" "lim \<le> length blk" using chain_member [OF assms(1,2)] by (auto simp: entry_ok_def)
  have nd: "8 + length fname \<le> unat (ext4_dir_rec_len (of_nat (length fname)) h)" using assms(5) by (auto simp: ext4_dir_rec_len_unat unat_of_nat take_bit_nat_eq_self)
  show "\<exists>offs'. chain h blk' 0 lim offs' \<and> length blk' = length blk \<and> mset (live blk' offs') = add_mset (ino, fname) (mset (live blk offs))"
  proof (cases "de_inode blk p = 0")
    case True
    then have "blk' = fill_dentry ft mode ino fname p blk" by (simp add: blk'_def ext4_insert_dentry_def Let_def)
    then show ?thesis using insert_unused [OF c True assms(4,5), of ft mode] assms(3) True unfolding o
      by (auto simp: room_def simp del: chain_Cons_iff)
  next
    case False
    then have "blk' = fill_dentry ft mode ino fname (p + nlen_at h blk p) (put (p + 4) (le16 (of_nat (nlen_at h blk p)))
        (put (p + nlen_at h blk p + 4) (le16 (of_nat (rlen_at blk p - nlen_at h blk p))) blk))"
      by (simp add: blk'_def ext4_insert_dentry_def Let_def)
    then show ?thesis using insert_split [OF c False assms(4,5), of ft mode] assms(3) False unfolding o
      by (auto simp: room_def simp del: chain_Cons_iff)
  qed
  fix i assume i: "lim \<le> i" "i < length blk"
  let ?q = "p + nlen_at h blk p"
  show "blk' ! i = blk ! i"
  proof (cases "de_inode blk p = 0")
    case True
    then have r: "unat (ext4_dir_rec_len (of_nat (length fname)) h) \<le> rlen_at blk p" using assms(3) by (simp add: room_def)
    have "p + 8 + length fname \<le> length blk" using r nd ok by simp
    from fill_dentry_fields(6) [OF this assms(5) i(2), of ft mode ino] show ?thesis
      using True r nd ok i by (simp add: blk'_def ext4_insert_dentry_def Let_def)
  next
    case False
    then have r: "nlen_at h blk p + unat (ext4_dir_rec_len (of_nat (length fname)) h) \<le> rlen_at blk p" using assms(3) by (simp add: room_def)
    let ?b2 = "put (p + 4) (le16 (of_nat (nlen_at h blk p))) (put (?q + 4) (le16 (of_nat (rlen_at blk p - nlen_at h blk p))) blk)"
    have l: "length ?b2 = length blk" "?b2 ! i = blk ! i" using r nd ok i by (simp_all add: nth_put)
    have "?q + 8 + length fname \<le> length ?b2" using r nd ok l by simp
    from fill_dentry_fields(6) [OF this assms(5), of i ft mode ino] show ?thesis
      using False r nd ok i l by (simp add: blk'_def ext4_insert_dentry_def Let_def)
  qed
qed

text \<open>
  Result dir_insert_ok: on a well-formed directory block, \<open>ext4_find_dest_de\<close> ends; when it reports the
  name as present the name is in the block, when it reports a lack of space no entry has room for the
  new one, and otherwise \<open>ext4_insert_dentry\<close> at the entry it found yields a well-formed block of the
  same size with exactly one entry more, the new one.
\<close>

theorem dir_insert_ok:
  assumes "\<And>p. entry_ok h blk p lim \<Longrightarrow> \<not> check blk p" "chain h blk 0 lim offs"
    and "length fname \<le> 255" "ino \<noteq> 0"
  shows "\<exists>r. ext4_find_dest_de mn check h blk lim fname = Some r \<and>
    (case r of
       Inl e \<Rightarrow> e = - EEXIST \<and> (\<exists>p \<in> set offs. ext4_match mn fname blk p) \<or>
         e = - ENOSPC \<and> (\<forall>p \<in> set offs. \<not> room h blk p (unat (ext4_dir_rec_len (of_nat (length fname)) h)))
     | Inr p \<Rightarrow> (let blk' = ext4_insert_dentry h ft mode ino fname p blk
         in length blk' = length blk \<and> (\<exists>offs'. chain h blk' 0 lim offs' \<and>
            mset (live blk' offs') = add_mset (ino, fname) (mset (live blk offs)))))"
proof -
  let ?n = "unat (ext4_dir_rec_len (of_nat (length fname)) h)"
  have "0 < ?n" by (simp add: ext4_dir_rec_len_unat)
  from find_dest_loop_ok [where check = check, OF assms(1,2) this, of mn fname] obtain r where
    r: "ext4_find_dest_de mn check h blk lim fname = Some r"
    "case r of Inr p \<Rightarrow> p \<in> set offs \<and> room h blk p ?n
     | Inl e \<Rightarrow> e = - EEXIST \<and> (\<exists>p \<in> set offs. ext4_match mn fname blk p) \<or>
         e = - ENOSPC \<and> (\<forall>p \<in> set offs. \<not> room h blk p ?n)"
    by (auto simp: ext4_find_dest_de_def)
  show ?thesis
  proof (cases r)
    case (Inl e)
    then show ?thesis using r by auto
  next
    case (Inr p)
    then have "p \<in> set offs" "room h blk p ?n" using r(2) by simp_all
    from insert_at(1) [OF assms(2) this assms(4,3), of ft mode] show ?thesis using r(1) Inr by (auto simp: Let_def)
  qed
qed

section \<open>Deletion\<close>

lemma chain_less: "chain h blk off p xs \<Longrightarrow> xs \<noteq> [] \<Longrightarrow> off < p"
  using rlen_ge_8 [of h blk off p] chain_bounds [of h blk "off + rlen_at blk off" p "tl xs"]
  by (cases xs) auto

lemma generic_delete_run:
  assumes "\<And>p. entry_ok h blk p lim \<Longrightarrow> \<not> check blk p" "chain h blk off lim (xs @ p # ys)"
  shows "generic_delete_loop check lim p pde off blk =
    generic_delete_loop check lim p (if xs = [] then pde else Some (last xs)) p blk"
  using assms(2)
proof (induction xs arbitrary: off pde)
  case (Cons x xs)
  then have e: "x = off" "entry_ok h blk off lim" "chain h blk (off + rlen_at blk off) lim (xs @ p # ys)" by simp_all
  have "off < p" using Cons.prems chain_less [of h blk off p "x # xs"] by (simp only: chain_split) simp
  moreover have "off < lim" using e(2) rlen_ge_8 [OF e(2)] by (simp add: entry_ok_def)
  ultimately have "generic_delete_loop check lim p pde off blk =
      generic_delete_loop check lim p (Some off) (off + rlen_at blk off) blk"
    using assms(1) [OF e(2)] by (subst generic_delete_loop.simps) simp
  then show ?case using Cons.IH [OF e(3), of "Some off"] e(1) by simp
qed simp

lemma replicate_put:
  assumes "off + n \<le> length blk" "i < length blk"
  shows "put off (replicate n 0) blk ! i = (if off \<le> i \<and> i < off + n then 0 else blk ! i)"
  using assms by (auto simp: nth_put)

lemma get_le_zero [simp]: "get_le32 [0, 0, 0, 0] = 0" "get_le16 [0, 0] = 0"
  by (simp_all add: get_le32_def get_le16_def)

lemma delete_first:
  assumes c: "chain h blk p lim (p # ys)" and "de_inode blk p \<noteq> 0"
  defines "blk' \<equiv> put (p + 6) (replicate (rlen_at blk p - 6) 0) (put p (le32 0) blk)"
  shows "chain h blk' p lim (p # ys) \<and> length blk' = length blk \<and>
    mset (live blk (p # ys)) = add_mset (de_inode blk p, de_name blk p) (mset (live blk' (p # ys)))"
proof -
  have e: "entry_ok h blk p lim" "chain h blk (p + rlen_at blk p) lim ys" using c by simp_all
  have lim: "lim \<le> length blk" "p + rlen_at blk p \<le> lim" "rlen_at blk p mod 4 = 0" "8 \<le> rlen_at blk p"
    using e(1) rlen_ge_8 [OF e(1)] by (simp_all add: entry_ok_def)
  have l1: "length (put p (le32 0) blk) = length blk" using lim by simp
  have len: "length blk' = length blk" using lim l1 by (simp add: blk'_def)
  have n: "blk' ! i = (if p + 6 \<le> i \<and> i < p + rlen_at blk p then 0
      else if p \<le> i \<and> i < p + 4 then 0 else blk ! i)" if "i < length blk" for i
    using that lim l1 unfolding blk'_def by (subst replicate_put) (auto simp: nth_put le32_def nth_Cons')
  have z: "de_inode blk' p = 0" "de_name_len blk' p = 0" "de_rec_len blk' p = de_rec_len blk p"
    using lim by (simp_all add: de_inode_def de_name_len_def de_rec_len_def n)
  have "nlen_at h blk' p \<le> nlen_at h blk p"
    by (simp add: nlen_at_def ext4_dir_rec_len_unat z div_le_mono)
  then have ok: "entry_ok h blk' p lim" "rlen_at blk' p = rlen_at blk p"
    using e(1) z(3) len by (simp_all add: entry_ok_def rlen_at_16)
  have y: "chain h blk' (p + rlen_at blk p) lim ys \<and> live blk' ys = live blk ys"
    by (rule chain_cong) (use n len lim e in auto)
  show ?thesis using ok y z len assms(2) by simp
qed

lemma delete_merge:
  assumes c: "chain h blk off lim (xs @ l # p # ys)" and "de_inode blk p \<noteq> 0" "lim < 2 ^ 16"
  defines "blk' \<equiv> put p (replicate (rlen_at blk p) 0)
    (put (l + 4) (le16 (of_nat (rlen_at blk l + rlen_at blk p))) blk)"
  shows "chain h blk' off lim (xs @ l # ys) \<and> length blk' = length blk \<and>
    mset (live blk (xs @ l # p # ys)) = add_mset (de_inode blk p, de_name blk p) (mset (live blk' (xs @ l # ys)))"
proof -
  have e: "chain h blk off l xs" "entry_ok h blk l lim" "p = l + rlen_at blk l" "entry_ok h blk p lim"
    "chain h blk (p + rlen_at blk p) lim ys"
    using c by (auto simp: chain_split)
  have lim: "lim \<le> length blk" "p + rlen_at blk p \<le> lim" "(rlen_at blk l + rlen_at blk p) mod 4 = 0"
    using e(2,4) by (simp_all add: entry_ok_def mod_eq_0_iff_dvd)
  have rm: "l + 8 + unat (de_name_len blk l) \<le> p" using entry_ok_room [OF e(2)] e(3) by simp
  define b1 where "b1 = put (l + 4) (le16 (of_nat (rlen_at blk l + rlen_at blk p))) blk"
  have l1: "length b1 = length blk" using rm lim by (simp add: b1_def)
  have len: "length blk' = length blk" unfolding blk'_def b1_def [symmetric] using lim l1 by simp
  have n1: "b1 ! i = blk ! i" if "i < length blk" "i < l + 4 \<or> l + 6 \<le> i" for i
    using that rm lim by (auto simp: b1_def nth_put)
  have n: "blk' ! i = (if p \<le> i \<and> i < p + rlen_at blk p then 0 else b1 ! i)" if "i < length blk" for i
    using that lim l1 unfolding blk'_def b1_def [symmetric] by (subst replicate_put) auto
  have out: "blk' ! i = blk ! i"
    if "i < length blk" "i < l + 4 \<or> l + 6 \<le> i \<and> i < p \<or> p + rlen_at blk p \<le> i" for i
    using that n [OF that(1)] n1 [OF that(1)] rm lim by auto
  have "rlen_at b1 l = rlen_at blk l + rlen_at blk p"
    unfolding b1_def using rm lim e(3) assms(3) by (intro rec_len_put) auto
  moreover have "de_rec_len blk' l = de_rec_len b1 l"
    using rm lim by (simp add: de_rec_len_def n)
  ultimately have rl: "rlen_at blk' l = rlen_at blk l + rlen_at blk p" by (simp add: rlen_at_16)
  have lf: "de_inode blk' l = de_inode blk l" "de_name_len blk' l = de_name_len blk l"
    using out rm lim by (simp_all add: de_inode_def de_name_len_def)
  have nm: "de_name blk' l = de_name blk l"
    using out rm lim lf(2) by (auto simp: de_name_def intro!: nth_equalityI)
  have ok: "entry_ok h blk' l lim"
    using e(2,3) lim len by (simp add: entry_ok_def rl nlen_at_def lf)
  have x: "chain h blk' off l xs \<and> live blk' xs = live blk xs"
    by (rule chain_cong) (use out len lim rm e in auto)
  have y: "chain h blk' (p + rlen_at blk p) lim ys \<and> live blk' ys = live blk ys"
    by (rule chain_cong) (use out len lim e in auto)
  show ?thesis
    using x y ok rl lf nm len e(3) assms(2) by (simp add: chain_split add.assoc)
qed

lemma delete_at:
  assumes "\<And>p. entry_ok h blk p lim \<Longrightarrow> \<not> check blk p" "chain h blk 0 lim offs"
    and "p \<in> set offs" "de_inode blk p \<noteq> 0" "lim = buf_size - csum_size" "lim < 2 ^ 16"
  shows "\<exists>blk' offs'. ext4_generic_delete_entry check p blk buf_size csum_size = Some (0, blk') \<and>
    length blk' = length blk \<and> chain h blk' 0 lim offs' \<and>
    mset (live blk offs) = add_mset (de_inode blk p, de_name blk p) (mset (live blk' offs')) \<and>
    (\<forall>i. lim \<le> i \<and> i < length blk \<longrightarrow> blk' ! i = blk ! i)"
proof -
  obtain xs ys where o: "offs = xs @ p # ys" using assms(3) by (auto dest: split_list)
  have ok: "entry_ok h blk p lim" using assms(2,3) chain_member by blast
  have lt: "p < lim" using ok rlen_ge_8 [OF ok] by (simp add: entry_ok_def)
  have p8: "p + 8 \<le> length blk" using ok rlen_ge_8 [OF ok] by (simp add: entry_ok_def)
  have run: "ext4_generic_delete_entry check p blk buf_size csum_size =
      generic_delete_loop check lim p (if xs = [] then None else Some (last xs)) p blk"
    using generic_delete_run [where check = check, OF assms(1), where off = 0 and xs = xs and ys = ys and p = p and pde = None] assms(2,5) o
    by (simp add: ext4_generic_delete_entry_def)
  show ?thesis
  proof (cases xs rule: rev_cases)
    case Nil
    then have p0: "p = 0" using assms(2) o by simp
    have "rlen_at (put p (le32 0) blk) p = rlen_at blk p"
      using p8 by (simp add: rlen_at_16 de_rec_len_def nth_put)
    then have "ext4_generic_delete_entry check p blk buf_size csum_size =
        Some (0, put (p + 6) (replicate (rlen_at blk p - 6) 0) (put p (le32 0) blk))"
      unfolding run using Nil lt assms(1) [OF ok] by (subst generic_delete_loop.simps) (simp add: Let_def)
    moreover have c: "chain h blk p lim (p # ys)" using assms(2) o Nil p0 by simp
    moreover have "put (p + 6) (replicate (rlen_at blk p - 6) 0) (put p (le32 0) blk) ! i = blk ! i" if "lim \<le> i" "i < length blk" for i
      using that ok rlen_ge_8 [OF ok] by (subst replicate_put) (auto simp: nth_put entry_ok_def)
    ultimately show ?thesis using delete_first [OF c assms(4)] unfolding o Nil append_Nil p0 by blast
  next
    case (snoc zs l)
    have c: "chain h blk 0 lim (zs @ l # p # ys)" using assms(2) o snoc by simp
    have l: "p = l + rlen_at blk l" "entry_ok h blk l lim" using c by (auto simp: chain_split)
    then have "rlen_at (put (l + 4) (le16 (of_nat (rlen_at blk l + rlen_at blk p))) blk) p = rlen_at blk p"
      using p8 rlen_ge_8 [of h blk l lim] by (simp add: rlen_at_16 de_rec_len_def nth_put)
    then have "ext4_generic_delete_entry check p blk buf_size csum_size =
        Some (0, put p (replicate (rlen_at blk p) 0)
          (put (l + 4) (le16 (of_nat (rlen_at blk l + rlen_at blk p))) blk))"
      unfolding run using snoc lt assms(1) [OF ok] by (subst generic_delete_loop.simps) (simp add: Let_def)
    moreover have "put p (replicate (rlen_at blk p) 0) (put (l + 4) (le16 (of_nat (rlen_at blk l + rlen_at blk p))) blk) ! i = blk ! i"
      if "lim \<le> i" "i < length blk" for i
      using that ok l rlen_ge_8 [OF l(2)] by (subst replicate_put) (auto simp: nth_put entry_ok_def)
    ultimately show ?thesis using delete_merge [OF c assms(4,6)] unfolding o snoc by auto
  qed
qed

text \<open>
  Result dir_delete_ok: deleting an entry in use from a well-formed directory block succeeds and leaves a
  well-formed block of the same size with exactly the other entries: a later entry is merged into the
  one before it, the first one stays as an unused record.
\<close>

theorem dir_delete_ok:
  assumes "\<And>p. entry_ok h blk p lim \<Longrightarrow> \<not> check blk p" "chain h blk 0 lim offs"
    and "p \<in> set offs" "de_inode blk p \<noteq> 0" "lim = buf_size - csum_size" "lim < 2 ^ 16"
  shows "\<exists>blk' offs'. ext4_generic_delete_entry check p blk buf_size csum_size = Some (0, blk') \<and>
    length blk' = length blk \<and> chain h blk' 0 lim offs' \<and>
    mset (live blk offs) = add_mset (de_inode blk p, de_name blk p) (mset (live blk' offs'))"
  using delete_at [where check = check, OF assms] by blast

section \<open>Search\<close>

lemma search_loop_ok:
  assumes mn: "\<And>f n. mn f n \<longleftrightarrow> n = f" and "\<And>p. entry_ok h blk p lim \<Longrightarrow> \<not> check blk p"
    and "chain h blk off lim offs" "fname \<noteq> []"
  shows "case ext4_search_dir mn check blk lim fname off of (r, p) \<Rightarrow>
    r = 1 \<and> p \<in> set offs \<and> de_inode blk p \<noteq> 0 \<and> de_name blk p = fname \<or>
    r = 0 \<and> (\<forall>p \<in> set offs. de_inode blk p = 0 \<or> de_name blk p \<noteq> fname)"
  using assms(3)
proof (induction offs arbitrary: off rule: list.induct)
  case Nil
  then show ?case by (subst ext4_search_dir.simps) (simp add: EXT4_BASE_DIR_LEN_def)
next
  case (Cons x offs)
  then have e: "x = off" "entry_ok h blk off lim" "chain h blk (off + rlen_at blk off) lim offs" by simp_all
  have rm: "off + 8 + unat (de_name_len blk off) \<le> lim" "0 < rlen_at blk off"
    using entry_ok_room [OF e(2)] e(2) rlen_ge_8 [OF e(2)] by (simp_all add: entry_ok_def)
  show ?case
  proof (cases "ext4_match mn fname blk off")
    case True
    then have m: "de_inode blk off \<noteq> 0" "de_name blk off = fname"
      by (auto simp: ext4_match_def mn split: if_splits)
    have "off + EXT4_BASE_DIR_LEN < lim"
    proof -
      have "de_name_len blk off \<noteq> 0" using m(2) assms(4) by (auto simp: de_name_def)
      then have "unat (de_name_len blk off) \<ge> 1" by (simp add: word_unat_eq_iff)
      then have "12 \<le> nlen_at h blk off" by (simp add: nlen_at_def ext4_dir_rec_len_unat)
      then show ?thesis using e(2) by (simp add: entry_ok_def EXT4_BASE_DIR_LEN_def)
    qed
    then show ?thesis using True m e rm assms(2) [OF e(2)]
      by (subst ext4_search_dir.simps) simp
  next
    case False
    then have m: "de_inode blk off = 0 \<or> de_name blk off \<noteq> fname"
      by (auto simp: ext4_match_def mn)
    show ?thesis
    proof (cases "off + EXT4_BASE_DIR_LEN < lim")
      case True
      then have "ext4_search_dir mn check blk lim fname off =
          ext4_search_dir mn check blk lim fname (off + rlen_at blk off)"
        using False rm by (subst ext4_search_dir.simps) simp
      then show ?thesis using Cons.IH [OF e(3)] m e(1) by (auto split: prod.splits)
    next
      case out: False
      have "offs = []"
      proof (rule ccontr)
        assume "offs \<noteq> []"
        then have "off + rlen_at blk off < lim" using chain_less [OF e(3)] by simp
        moreover have "8 \<le> rlen_at blk off" using rlen_ge_8 [OF e(2)] .
        moreover have "off + rlen_at blk off + 8 \<le> lim"
          using e(3) \<open>offs \<noteq> []\<close> rlen_ge_8 [of h blk "off + rlen_at blk off" lim]
          by (cases offs) (auto simp: entry_ok_def)
        ultimately show False using out by (simp add: EXT4_BASE_DIR_LEN_def)
      qed
      then show ?thesis using out m e(1) by (subst ext4_search_dir.simps) simp
    qed
  qed
qed

text \<open>
  Result dir_search_ok: on a well-formed block, with names compared byte by byte, \<open>ext4_search_dir\<close> finds an
  entry in use with the name asked for if there is one, and returns 0 otherwise.
\<close>

theorem dir_search_ok:
  assumes "\<And>f n. mn f n \<longleftrightarrow> n = f" "\<And>p. entry_ok h blk p lim \<Longrightarrow> \<not> check blk p"
    and "chain h blk 0 lim offs" "fname \<noteq> []"
  shows "case ext4_search_dir mn check blk lim fname 0 of (r, p) \<Rightarrow>
    if fname \<in> snd ` set (live blk offs)
    then r = 1 \<and> (de_inode blk p, fname) \<in> set (live blk offs) \<and> de_name blk p = fname
    else r = 0"
  using search_loop_ok [where check = check, OF assms] by (auto simp: live_def image_iff split: prod.splits)

definition demo_dir :: "u8 list" where
  "demo_dir = le32 5 @ le16 24 @ [1, 0] @ [97] @ replicate 15 0"

lemma demo_dir_chain: "chain False demo_dir 0 24 [0]" "de_inode demo_dir 0 = 5" "de_name demo_dir 0 = [97]"
  "length demo_dir = 24"
proof -
  have f: "rlen_at demo_dir 0 = 24" "de_name_len demo_dir 0 = 1" "de_inode demo_dir 0 = 5" "length demo_dir = 24"
    by (simp_all add: demo_dir_def rlen_at_16 de_rec_len_def de_name_len_def de_inode_def le32_def le16_def
        get_le16_def get_le32_def)
  then show "de_inode demo_dir 0 = 5" "length demo_dir = 24" by simp_all
  show "chain False demo_dir 0 24 [0]"
    using f by (simp add: entry_ok_def nlen_at_def ext4_dir_rec_len_unat)
  show "de_name demo_dir 0 = [97]"
    by (simp add: de_name_def f) (simp add: demo_dir_def le32_def le16_def)
qed

theorem dir_search_ok_witness:
  "fst (ext4_search_dir (\<lambda>f n. n = f) (\<lambda>_ _. False) demo_dir 24 [97] 0) = 1"
  using dir_search_ok [of "\<lambda>f n. n = f" False demo_dir 24 "\<lambda>_ _. False" "[0]" "[97]"] demo_dir_chain
  by (auto simp: live_def split: prod.splits)

theorem dir_insert_ok_witness:
  "\<exists>r. ext4_find_dest_de (\<lambda>f n. n = f) (\<lambda>_ _. False) False demo_dir 24 [98] = Some r"
  using dir_insert_ok [of False demo_dir 24 "\<lambda>_ _. False" "[0]" "[98]" 6 "\<lambda>f n. n = f"] demo_dir_chain
  by auto

theorem dir_delete_ok_witness:
  "\<exists>blk'. ext4_generic_delete_entry (\<lambda>_ _. False) 0 demo_dir 24 0 = Some (0, blk')"
  using dir_delete_ok [of False demo_dir 24 "\<lambda>_ _. False" "[0]" 0 24 0] demo_dir_chain by auto

end
