(* ===== verification/Ext4_Dirblock.thy ===== *)
theory Ext4_Dirblock
  imports Evfs_State Ext4_Dirent
begin

unbundle bit_operations_syntax

text \<open>
  Whole directory blocks, from \<open>fs/ext4/namei.c\<close>: the checksum record at the end of a leaf block, the
  checksum of an index block, the first block of a new directory, and the index entries of a hashed
  directory (their accessors, the sorting of the split map and the insertion of an index entry).
  \<open>blk\<close> is the content of the buffer, a pointer is an offset in it.
\<close>

section \<open>The checksum record of a leaf block\<close>

definition EXT4_BLOCK_SIZE :: "super_block \<Rightarrow> nat" where
  "EXT4_BLOCK_SIZE sb = unat (s_blocksize sb)"

text \<open>\<open>struct ext4_dir_entry_tail\<close> is 12 bytes long; the two reserved fields lie where an entry has its inode number and the length of its name.\<close>

definition EXT4_DIRENT_TAIL :: "nat \<Rightarrow> nat" where
  "EXT4_DIRENT_TAIL blocksize = blocksize - 12"

definition ext4_initialize_dirent_tail :: "nat \<Rightarrow> u8 list \<Rightarrow> u8 list" where
  "ext4_initialize_dirent_tail blocksize blk =
     (let t = EXT4_DIRENT_TAIL blocksize;
          blk = put t (replicate 12 0) blk;
          blk = put (t + 4) (le16 12) blk
      in blk[t + 7 := 0xDE])"

definition get_dirent_tail :: "super_block \<Rightarrow> u8 list \<Rightarrow> nat option" where
  "get_dirent_tail sb blk =
     (let t = EXT4_DIRENT_TAIL (EXT4_BLOCK_SIZE sb)
      in if de_inode blk t \<noteq> 0 \<or> rlen_at blk t \<noteq> 12 \<or> de_name_len blk t \<noteq> 0 \<or> de_file_type blk t \<noteq> 0xDE
         then None else Some t)"

text \<open>The 32-bit value at an offset, and the checksum field of the record.\<close>

definition u32_at :: "u8 list \<Rightarrow> nat \<Rightarrow> u32" where
  "u32_at blk off = get_le32 [blk ! off, blk ! (off + 1), blk ! (off + 2), blk ! (off + 3)]"

definition u16_at :: "u8 list \<Rightarrow> nat \<Rightarrow> u16" where
  "u16_at blk off = get_le16 [blk ! off, blk ! (off + 1)]"

definition ext4_dirblock_csum :: "kernel \<Rightarrow> inode \<Rightarrow> u8 list \<Rightarrow> u32" where
  "ext4_dirblock_csum K ino dirent = chksum K (i_csum_seed ino) dirent"

definition ext4_dirblock_csum_verify :: "kernel \<Rightarrow> super_block \<Rightarrow> inode \<Rightarrow> u8 list \<Rightarrow> bool" where
  "ext4_dirblock_csum_verify K sb ino blk =
     (if \<not> ext4_has_metadata_csum sb then True
      else (case get_dirent_tail sb blk of
              None \<Rightarrow> False
            | Some t \<Rightarrow> u32_at blk (t + 8) = ext4_dirblock_csum K ino (take t blk)))"

definition ext4_dirblock_csum_set :: "kernel \<Rightarrow> super_block \<Rightarrow> inode \<Rightarrow> u8 list \<Rightarrow> u8 list" where
  "ext4_dirblock_csum_set K sb ino blk =
     (if \<not> ext4_has_metadata_csum sb then blk
      else (case get_dirent_tail sb blk of
              None \<Rightarrow> blk
            | Some t \<Rightarrow> put (t + 8) (le32 (ext4_dirblock_csum K ino (take t blk))) blk))"

definition ext4_handle_dirty_dirblock :: "kernel \<Rightarrow> u64 \<Rightarrow> int handler" where
  "ext4_handle_dirty_dirblock K dir = do {
     modify (\<lambda>s. s\<lparr>f_dirblk := (f_dirblk s)(dir := ext4_dirblock_csum_set K (f_sb s) (f_inodes s dir) (f_dirblk s dir))\<rparr>);
     call K (Handle_dirty_metadata (Dir_block dir))
   }"

section \<open>The checksum of an index block\<close>

text \<open>
  \<open>get_dx_countlimit\<close>: the offset of the pair of limit and count, for an index node (whose single fake
  entry spans the block) and for the root. \<open>struct dx_root_info\<close> has 8 bytes.
\<close>

definition get_dx_countlimit :: "super_block \<Rightarrow> u8 list \<Rightarrow> nat option" where
  "get_dx_countlimit sb blk =
     (let blocksize = EXT4_BLOCK_SIZE sb; rlen = rlen_at blk 0
      in if rlen = blocksize then Some 8
         else if rlen = 12 then
           (if int (rlen_at blk 12) \<noteq> int blocksize - 12 then None
            else if u32_at blk 24 \<noteq> 0 \<or> blk ! 29 \<noteq> 8 then None
            else Some 32)
         else None)"

definition ext4_dx_csum :: "kernel \<Rightarrow> inode \<Rightarrow> u8 list \<Rightarrow> nat \<Rightarrow> nat \<Rightarrow> nat \<Rightarrow> u32" where
  "ext4_dx_csum K ino blk count_offset cnt t =
     (let size = count_offset + cnt * 8;
          csum = chksum K (i_csum_seed ino) (take size blk);
          csum = chksum K csum (take 4 (drop t blk));
          csum = chksum K csum (le32 0)
      in csum)"

definition ext4_dx_csum_verify :: "kernel \<Rightarrow> super_block \<Rightarrow> inode \<Rightarrow> u8 list \<Rightarrow> bool" where
  "ext4_dx_csum_verify K sb ino blk =
     (if \<not> ext4_has_metadata_csum sb then True
      else (case get_dx_countlimit sb blk of
              None \<Rightarrow> False
            | Some c \<Rightarrow>
                (let limit = unat (u16_at blk c); cnt = unat (u16_at blk (c + 2))
                 in if c + limit * 8 > EXT4_BLOCK_SIZE sb - 8 then False
                    else (let t = c + limit * 8
                          in u32_at blk (t + 4) = ext4_dx_csum K ino blk c cnt t))))"

definition ext4_dx_csum_set :: "kernel \<Rightarrow> super_block \<Rightarrow> inode \<Rightarrow> u8 list \<Rightarrow> u8 list" where
  "ext4_dx_csum_set K sb ino blk =
     (if \<not> ext4_has_metadata_csum sb then blk
      else (case get_dx_countlimit sb blk of
              None \<Rightarrow> blk
            | Some c \<Rightarrow>
                (let limit = unat (u16_at blk c); cnt = unat (u16_at blk (c + 2))
                 in if c + limit * 8 > EXT4_BLOCK_SIZE sb - 8 then blk
                    else (let t = c + limit * 8
                          in put (t + 4) (le32 (ext4_dx_csum K ino blk c cnt t)) blk))))"

section \<open>The first block of a directory\<close>

text \<open>
  \<open>ext4_init_dot_dotdot\<close> writes two entries with the same steps (\<open>dot_entry\<close>; \<open>strcpy\<close> writes the
  terminating zero byte too) and returns the offset after them.
\<close>

definition dot_entry :: "bool \<Rightarrow> nat \<Rightarrow> u32 \<Rightarrow> u8 list \<Rightarrow> u16 \<Rightarrow> u8 list \<Rightarrow> u8 list" where
  "dot_entry has_filetype de ino name rec_len blk =
     (let blk = put de (le32 ino) blk;
          blk = blk[de + 6 := of_nat (length name)];
          blk = put (de + 4) (le16 rec_len) blk;
          blk = put (de + 8) (name @ [0]) blk
      in ext4_set_de_type has_filetype S_IFDIR de blk)"

definition ext4_init_dot_dotdot ::
    "bool \<Rightarrow> u32 \<Rightarrow> nat \<Rightarrow> nat \<Rightarrow> u32 \<Rightarrow> bool \<Rightarrow> u8 list \<Rightarrow> nat \<times> u8 list" where
  "ext4_init_dot_dotdot has_filetype ino blocksize csum_size parent_ino dotdot_real_len blk =
     (let blk = dot_entry has_filetype 0 ino [46] (ucast (ext4_dir_rec_len 1 False)) blk;
          de = rlen_at blk 0;
          rec_len = (if \<not> dotdot_real_len then of_nat (blocksize - (csum_size + unat (ext4_dir_rec_len 1 False)))
                     else ucast (ext4_dir_rec_len 2 False));
          blk = dot_entry has_filetype de parent_ino [46, 46] rec_len blk
      in (de + rlen_at blk de, blk))"

section \<open>Checksums verify after they are set\<close>

lemma fields_below:
  assumes "\<And>i. i < lim \<Longrightarrow> blk' ! i = blk ! i" "off + 8 \<le> lim"
  shows "de_inode blk' off = de_inode blk off" "rlen_at blk' off = rlen_at blk off"
    "de_name_len blk' off = de_name_len blk off" "de_file_type blk' off = de_file_type blk off"
  using assms by (simp_all add: de_defs rlen_at_16)

lemma u32_at_put: "off + 4 \<le> length blk \<Longrightarrow> u32_at (put off (le32 w) blk) off = w"
  using get_le32_le32 [of w "[]"] by (simp add: u32_at_def nth_put le32_def)

lemma u16_at_put: "off + 2 \<le> length blk \<Longrightarrow> u16_at (put off (le16 w) blk) off = w"
  using get_le16_le16 [of w "[]"] by (simp add: u16_at_def nth_put le16_def)

lemma take_put: "n \<le> off \<Longrightarrow> off \<le> length blk \<Longrightarrow> take n (put off bs blk) = take n blk"
  by (simp add: put_def)

text \<open>A block whose length is the block size of the file system, with room for the record.\<close>

definition block_fits :: "super_block \<Rightarrow> u8 list \<Rightarrow> bool" where
  "block_fits sb blk = (length blk = EXT4_BLOCK_SIZE sb \<and> 12 \<le> length blk)"

lemma tail_kept:
  assumes "get_dirent_tail sb blk = Some t" "block_fits sb blk"
  shows "get_dirent_tail sb (put (t + 8) (le32 w) blk) = Some t" "t + 12 = length blk"
proof -
  show t: "t + 12 = length blk"
    using assms by (auto simp: get_dirent_tail_def Let_def EXT4_DIRENT_TAIL_def block_fits_def split: if_splits)
  have "put (t + 8) (le32 w) blk ! i = blk ! i" if "i < t + 8" for i
    using that t by (simp add: nth_put)
  from fields_below [OF this, where off = t] show "get_dirent_tail sb (put (t + 8) (le32 w) blk) = Some t"
    using assms(1) by (auto simp: get_dirent_tail_def Let_def split: if_splits)
qed

lemma dirblock_csum_set_frame:
  assumes "block_fits sb blk" "i < length blk" "ext4_has_metadata_csum sb \<Longrightarrow> i < length blk - 4"
  shows "ext4_dirblock_csum_set K sb ino blk ! i = blk ! i"
  using assms tail_kept(2) [OF _ assms(1)]
  by (auto simp: ext4_dirblock_csum_set_def nth_put split: option.splits) 

lemma length_dirblock_csum_set:
  "block_fits sb blk \<Longrightarrow> length (ext4_dirblock_csum_set K sb ino blk) = length blk"
  using tail_kept(2) [of sb blk] by (auto simp: ext4_dirblock_csum_set_def split: option.splits)

lemma initialized_tail:
  assumes "block_fits sb blk"
  shows "get_dirent_tail sb (ext4_initialize_dirent_tail (length blk) blk) = Some (length blk - 12)"
    "block_fits sb (ext4_initialize_dirent_tail (length blk) blk)"
    "\<And>i. i < length blk - 12 \<Longrightarrow> ext4_initialize_dirent_tail (length blk) blk ! i = blk ! i"
proof -
  define blk' where "blk' = ext4_initialize_dirent_tail (length blk) blk"
  have len: "12 \<le> length blk" "length blk = EXT4_BLOCK_SIZE sb" using assms by (simp_all add: block_fits_def)
  then have "length blk = (length blk - 12) + 12" by linarith
  then obtain t where t: "length blk = t + 12" by blast
  then have t': "length blk - 12 = t" by simp
  have tl: "EXT4_DIRENT_TAIL (EXT4_BLOCK_SIZE sb) = t"
    by (simp add: EXT4_DIRENT_TAIL_def t' flip: len(2))
  have b: "blk' = (put (t + 4) (le16 12) (put t (replicate 12 0) blk))[t + 7 := 0xDE]"
    by (simp add: blk'_def ext4_initialize_dirent_tail_def Let_def EXT4_DIRENT_TAIL_def t)
  have n: "blk' ! t = 0" "blk' ! (t + 1) = 0" "blk' ! (t + 2) = 0" "blk' ! (t + 3) = 0"
      "blk' ! (t + 4) = 12" "blk' ! (t + 5) = 0" "blk' ! (t + 6) = 0" "blk' ! (t + 7) = 0xDE"
    by (simp_all add: b t nth_put le16_def)
  show "get_dirent_tail sb (ext4_initialize_dirent_tail (length blk) blk) = Some (length blk - 12)"
    unfolding blk'_def [symmetric] t'
    using n by (simp add: get_dirent_tail_def Let_def tl de_defs rlen_at_16 get_le16_def get_le32_def)
  show "block_fits sb (ext4_initialize_dirent_tail (length blk) blk)"
    unfolding blk'_def [symmetric] using len t by (simp add: block_fits_def b)
  show "\<And>i. i < length blk - 12 \<Longrightarrow> ext4_initialize_dirent_tail (length blk) blk ! i = blk ! i"
    unfolding blk'_def [symmetric] using t by (simp add: b nth_put)
qed

lemma dirblock_csum_verifies:
  assumes "block_fits sb blk" "ext4_has_metadata_csum sb \<Longrightarrow> get_dirent_tail sb blk \<noteq> None"
  shows "ext4_dirblock_csum_verify K sb ino (ext4_dirblock_csum_set K sb ino blk)"
proof (cases "ext4_has_metadata_csum sb")
  case True
  then obtain t where t: "get_dirent_tail sb blk = Some t" using assms(2) by blast
  with tail_kept [OF t assms(1)] True show ?thesis
    by (simp add: ext4_dirblock_csum_verify_def ext4_dirblock_csum_set_def u32_at_put take_put)
qed (simp add: ext4_dirblock_csum_verify_def)


lemma dx_countlimit_kept:
  assumes "get_dx_countlimit sb blk = Some c" "40 \<le> off" "off + 4 \<le> length blk"
  shows "get_dx_countlimit sb (put off (le32 w) blk) = Some c"
proof -
  have n: "put off (le32 w) blk ! i = blk ! i" if "i < 40" for i
    using that assms(2,3) by (simp add: nth_put)
  have f: "rlen_at (put off (le32 w) blk) 0 = rlen_at blk 0" "rlen_at (put off (le32 w) blk) 12 = rlen_at blk 12"
    "u32_at (put off (le32 w) blk) 24 = u32_at blk 24"
    using n by (simp_all add: rlen_at_16 de_rec_len_def u32_at_def)
  have "put off (le32 w) blk ! 29 = blk ! 29" using n by simp
  then have "get_dx_countlimit sb (put off (le32 w) blk) = get_dx_countlimit sb blk"
    unfolding get_dx_countlimit_def Let_def f by (simp only:)
  with assms(1) show ?thesis by simp
qed

lemma dx_countlimit_offset: "get_dx_countlimit sb blk = Some c \<Longrightarrow> c = 8 \<or> c = 32"
  by (auto simp: get_dx_countlimit_def Let_def split: if_splits)

text \<open>An index block: the counts are where \<open>get_dx_countlimit\<close> finds them and the record of the checksum follows the room for the entries.\<close>

definition dx_block_ok :: "super_block \<Rightarrow> u8 list \<Rightarrow> bool" where
  "dx_block_ok sb blk = (case get_dx_countlimit sb blk of None \<Rightarrow> False
     | Some c \<Rightarrow> c + unat (u16_at blk c) * 8 + 8 \<le> length blk \<and> 4 \<le> unat (u16_at blk c) \<and>
         unat (u16_at blk (c + 2)) \<le> unat (u16_at blk c))"

lemma dx_csum_verifies:
  assumes "block_fits sb blk" "dx_block_ok sb blk"
  shows "ext4_dx_csum_verify K sb ino (ext4_dx_csum_set K sb ino blk)"
proof (cases "ext4_has_metadata_csum sb")
  case True
  obtain c where c: "get_dx_countlimit sb blk = Some c" using assms(2) by (auto simp: dx_block_ok_def split: option.splits)
  define t where "t = c + unat (u16_at blk c) * 8"
  have b: "t + 8 \<le> length blk" "4 \<le> unat (u16_at blk c)" "unat (u16_at blk (c + 2)) \<le> unat (u16_at blk c)"
    using assms(2) c by (simp_all add: dx_block_ok_def t_def)
  have nb: "\<not> EXT4_BLOCK_SIZE sb - 8 < t" using b(1) assms(1) by (auto simp: block_fits_def)
  define blk' where "blk' = put (t + 4) (le32 (ext4_dx_csum K ino blk c (unat (u16_at blk (c + 2))) t)) blk"
  have set: "ext4_dx_csum_set K sb ino blk = blk'"
    using True c nb by (simp add: ext4_dx_csum_set_def Let_def blk'_def t_def [symmetric])
  have c8: "c = 8 \<or> c = 32" using dx_countlimit_offset [OF c] .
  have n: "blk' ! i = blk ! i" if "i < t + 4" for i
    using that b by (simp add: blk'_def nth_put)
  have c': "get_dx_countlimit sb blk' = Some c" "u16_at blk' c = u16_at blk c" "u16_at blk' (c + 2) = u16_at blk (c + 2)"
    unfolding blk'_def using b c8 n dx_countlimit_kept [OF c, of "t + 4"]
    by (auto simp: u16_at_def t_def nth_put)
  have "ext4_dx_csum K ino blk' c (unat (u16_at blk (c + 2))) t = ext4_dx_csum K ino blk c (unat (u16_at blk (c + 2))) t"
    using b by (simp add: ext4_dx_csum_def Let_def blk'_def take_put t_def put_def min_def drop_take)
  moreover have "u32_at blk' (t + 4) = ext4_dx_csum K ino blk c (unat (u16_at blk (c + 2))) t"
    using b by (simp add: blk'_def u32_at_put)
  ultimately show ?thesis
    using True c' nb by (simp add: ext4_dx_csum_verify_def set Let_def t_def [symmetric])
qed (simp add: ext4_dx_csum_verify_def)

text \<open>
  Result dir_csum_verifies: a leaf block of a directory with a checksum record, and an index block whose
  entries leave room for it, verify after their checksum is set, whatever the checksum function is;
  setting it changes nothing of the leaf block but the last four bytes, and a leaf block has such a record after
  \<open>ext4_initialize_dirent_tail\<close>.
\<close>

theorem dir_csum_verifies:
  assumes "block_fits sb blk" "dx_block_ok sb dx" "block_fits sb dx"
  shows "ext4_dx_csum_verify K sb ino (ext4_dx_csum_set K sb ino dx) \<and>
    (get_dirent_tail sb blk \<noteq> None \<longrightarrow> ext4_dirblock_csum_verify K sb ino (ext4_dirblock_csum_set K sb ino blk)) \<and>
    get_dirent_tail sb (ext4_initialize_dirent_tail (length blk) blk) \<noteq> None \<and>
    (\<forall>i < length blk - 4. ext4_dirblock_csum_set K sb ino blk ! i = blk ! i)"
  using assms dx_csum_verifies [OF assms(3,2)] dirblock_csum_verifies [OF assms(1)] initialized_tail(1) [OF assms(1)]
    dirblock_csum_set_frame [OF assms(1)] by simp

definition demo_csum_sb :: super_block where
  "demo_csum_sb = demo_sb\<lparr>s_fs_info := demo_sbi\<lparr>s_chksum_driver := True, s_es := demo_es\<lparr>es_feature_ro_compat := 0x400\<rparr>\<rparr>\<rparr>"

definition demo_dx_block :: "u8 list" where
  "demo_dx_block = put 4 (le16 1024) (put 8 (le16 100) (put 10 (le16 2) (replicate 1024 0)))"

lemma demo_blocks:
  "block_fits demo_csum_sb (replicate 1024 0)" "block_fits demo_csum_sb demo_dx_block" "dx_block_ok demo_csum_sb demo_dx_block"
  by (simp_all add: block_fits_def demo_csum_sb_def demo_sb_def EXT4_BLOCK_SIZE_def demo_dx_block_def dx_block_ok_def
      get_dx_countlimit_def rlen_at_16 de_rec_len_def u16_at_def nth_put le16_def get_le16_def)

theorem dir_csum_verifies_witness:
  "ext4_dx_csum_verify demo_kernel demo_csum_sb demo_inode (ext4_dx_csum_set demo_kernel demo_csum_sb demo_inode demo_dx_block) \<and>
   get_dirent_tail demo_csum_sb (ext4_initialize_dirent_tail 1024 (replicate 1024 0)) \<noteq> None"
  using dir_csum_verifies [OF demo_blocks(1,3,2), of demo_kernel demo_inode] by simp

section \<open>A new directory\<close>

lemma dot_entry_fields:
  fixes ft :: bool and ino :: u32 and rl :: u16
  assumes "de + 9 + length name \<le> length blk" "length name < 256"
  defines "blk' \<equiv> dot_entry ft de ino name rl blk"
  shows "length blk' = length blk" "de_inode blk' de = ino" "de_rec_len blk' de = rl"
    "de_name blk' de = name" "de_name_len blk' de = of_nat (length name)"
    "\<And>i. i < length blk \<Longrightarrow> i < de \<or> de + 9 + length name \<le> i \<Longrightarrow> blk' ! i = blk ! i"
proof -
  show len: "length blk' = length blk"
    using assms(1) by (simp add: blk'_def dot_entry_def Let_def ext4_set_de_type_def)
  have n: "blk' ! i = (if de \<le> i \<and> i < de + 4 then le32 ino ! (i - de) else if i = de + 6 then of_nat (length name)
      else if de + 4 \<le> i \<and> i < de + 6 then le16 rl ! (i - (de + 4))
      else if de + 8 \<le> i \<and> i < de + 9 + length name then (name @ [0]) ! (i - (de + 8))
      else if i = de + 7 then blk' ! i else blk ! i)" if "i < length blk" for i
    using that assms(1) by (auto simp: blk'_def dot_entry_def Let_def ext4_set_de_type_def nth_put nth_list_update)
  show "de_inode blk' de = ino" using assms(1) get_le32_le32 [of ino "[]"] by (simp add: de_inode_def n le32_def)
  show "de_rec_len blk' de = rl" using assms(1) get_le16_le16 [of rl "[]"] by (simp add: de_rec_len_def n le16_def)
  show nl: "de_name_len blk' de = of_nat (length name)" using assms(1) by (simp add: de_name_len_def n)
  have "unat (of_nat (length name) :: u8) = length name" using assms(2) by (simp add: unsigned_of_nat take_bit_nat_eq_self)
  then show "de_name blk' de = name"
    using assms(1) by (auto simp: de_name_def nl n nth_append intro!: nth_equalityI)
  show "\<And>i. i < length blk \<Longrightarrow> i < de \<or> de + 9 + length name \<le> i \<Longrightarrow> blk' ! i = blk ! i"
    by (subst n) auto
qed

text \<open>
  Result new_dir_block: the first block of a new directory, written by \<open>ext4_init_dot_dotdot\<close> into a block
  of any content, is a well-formed chain of two records that ends where the checksum record begins and
  holds exactly the entries \<open>.\<close> and \<open>..\<close> with the two inode numbers.
\<close>

theorem new_dir_block:
  assumes "length blk = n" "n mod 4 = 0" "csum = 0 \<or> csum = 12" "1024 \<le> n" "n < 65536" "ino \<noteq> 0" "parent \<noteq> 0"
    and "ext4_init_dot_dotdot ft ino n csum parent False blk = (next, blk')"
  shows "next = n - csum \<and> chain False blk' 0 (n - csum) [0, 12] \<and> length blk' = n \<and>
    live blk' [0, 12] = [(ino, [46]), (parent, [46, 46])]"
proof -
  define b1 where "b1 = dot_entry ft 0 ino [46] 12 blk"
  define b2 where "b2 = dot_entry ft 12 parent [46, 46] (of_nat (n - (csum + 12))) b1"
  have rl: "unat (ext4_dir_rec_len 1 False) = 12" "ucast (ext4_dir_rec_len 1 False) = (12 :: u16)"
    by (simp_all add: ext4_dir_rec_len_def Let_def EXT4_DIR_ROUND_def)
  note f1 = dot_entry_fields [where de = 0 and name = "[46]" and blk = blk and ft = ft and ino = ino and rl = 12, folded b1_def]
  have l1: "length b1 = n" using f1(1) assms by simp
  note f2 = dot_entry_fields [where de = 12 and name = "[46, 46]" and blk = b1 and ft = ft and ino = parent and rl = "of_nat (n - (csum + 12))", folded b2_def]
  have l2: "length b2 = n" using f2(1) assms l1 by simp
  have r1: "rlen_at b1 0 = 12" using f1(3) assms by (simp add: rlen_at_16)
  have keep: "b2 ! i = b1 ! i" if "i < 12" for i using f2(6) [of i] that assms l1 by simp
  have d0: "de_inode b2 0 = ino" "rlen_at b2 0 = 12" "de_name_len b2 0 = 1" "de_name b2 0 = [46]"
    using f1(2-5) assms keep r1 by (simp_all add: de_defs rlen_at_16)
  have "unat (of_nat (n - (csum + 12)) :: u16) = n - (csum + 12)"
    using assms by (simp add: unsigned_of_nat take_bit_nat_eq_self)
  then have d1: "de_inode b2 12 = parent" "rlen_at b2 12 = n - (csum + 12)" "de_name_len b2 12 = 2" "de_name b2 12 = [46, 46]"
    using f2(2-5) assms l1 by (simp_all add: rlen_at_16)
  have e: "next = 12 + rlen_at b2 12" "blk' = b2"
    using assms(8) r1 by (auto simp: ext4_init_dot_dotdot_def Let_def rl b1_def [symmetric] b2_def [symmetric])
  show ?thesis
    using assms(2-7) d0 d1 e l2
    by (auto simp: entry_ok_def nlen_at_def ext4_dir_rec_len_unat)
qed

theorem new_dir_block_witness:
  "chain False (snd (ext4_init_dot_dotdot True 12 1024 12 2 False (replicate 1024 0))) 0 1012 [0, 12]"
  using new_dir_block [of "replicate 1024 0" 1024 12 12 2 True
      "fst (ext4_init_dot_dotdot True 12 1024 12 2 False (replicate 1024 0))"
      "snd (ext4_init_dot_dotdot True 12 1024 12 2 False (replicate 1024 0))"] by (simp del: chain_Cons_iff)

section \<open>Sorting the map of a split\<close>

record dx_map_entry =
  dm_hash :: u32
  dm_offs :: u16
  dm_size :: u16

definition swap_at :: "'a list \<Rightarrow> nat \<Rightarrow> nat \<Rightarrow> 'a list" where
  "swap_at xs i j = xs[i := xs ! j, j := xs ! i]"

text \<open>
  One pass of the comb sort with the gap \<open>cnt\<close>, for \<open>q\<close> from the given index downwards, the passes with
  shrinking gaps (\<open>count - 9 < 2\<close> is an unsigned comparison), one pass of the bubble sort, and the
  bubble sort until nothing moves.
\<close>

fun comb_pass :: "nat \<Rightarrow> nat \<Rightarrow> dx_map_entry list \<Rightarrow> dx_map_entry list" where
  "comb_pass cnt 0 m = m"
| "comb_pass cnt (Suc q) m =
     comb_pass cnt q (if dm_hash (m ! (q + cnt)) < dm_hash (m ! q) then swap_at m (q + cnt) q else m)"

definition comb_gap :: "nat \<Rightarrow> nat" where
  "comb_gap cnt = (let c = cnt * 10 div 13 in if c = 9 \<or> c = 10 then 11 else c)"

lemma comb_gap_less: "2 < cnt \<Longrightarrow> comb_gap cnt < cnt"
  by (auto simp: comb_gap_def Let_def)

function comb_loop :: "nat \<Rightarrow> dx_map_entry list \<Rightarrow> dx_map_entry list" where
  "comb_loop cnt m =
     (if 2 < cnt then comb_loop (comb_gap cnt) (comb_pass (comb_gap cnt) (length m - comb_gap cnt) m) else m)"
  by pat_completeness auto

termination
  by (relation "measure fst") (auto simp: comb_gap_less)

declare comb_loop.simps [simp del]

fun bubble_pass :: "nat \<Rightarrow> bool \<Rightarrow> dx_map_entry list \<Rightarrow> dx_map_entry list \<times> bool" where
  "bubble_pass 0 moved m = (m, moved)"
| "bubble_pass (Suc q) moved m =
     (if dm_hash (m ! (q + 1)) \<ge> dm_hash (m ! q) then bubble_pass q moved m
      else bubble_pass q True (swap_at m (q + 1) q))"

text \<open>The number of inversions decreases with every exchange of neighbours, so the loop ends.\<close>

fun inversions :: "u32 list \<Rightarrow> nat" where
  "inversions [] = 0"
| "inversions (x # xs) = length (filter (\<lambda>y. y < x) xs) + inversions xs"

definition crossings :: "u32 list \<Rightarrow> u32 list \<Rightarrow> nat" where
  "crossings us ws = sum_list (map (\<lambda>x. length (filter (\<lambda>y. y < x) ws)) us)"

lemma inversions_append: "inversions (us @ ws) = inversions us + crossings us ws + inversions ws"
  by (induction us) (simp_all add: crossings_def)

lemma inversions_swap:
  assumes "b < a"
  shows "inversions (us @ b # a # vs) < inversions (us @ a # b # vs)"
proof -
  have "crossings us (b # a # vs) = crossings us (a # b # vs)"
    by (simp add: crossings_def) (rule arg_cong [where f = sum_list], auto)
  then show ?thesis using assms by (simp add: inversions_append)
qed

lemma swap_split:
  assumes "Suc q < length m"
  shows "m = take q m @ m ! q # m ! Suc q # drop (Suc (Suc q)) m"
    "swap_at m (Suc q) q = take q m @ m ! Suc q # m ! q # drop (Suc (Suc q)) m"
proof -
  show "m = take q m @ m ! q # m ! Suc q # drop (Suc (Suc q)) m"
    using assms by (metis Cons_nth_drop_Suc Suc_lessD append_take_drop_id)
  show "swap_at m (Suc q) q = take q m @ m ! Suc q # m ! q # drop (Suc (Suc q)) m"
    using assms by (auto simp: swap_at_def nth_append nth_list_update nth_Cons' min_def simp flip: Suc_diff_le intro!: nth_equalityI
        arg_cong [where f = "(!) m"])
qed

lemma mset_swap_at: "i < length m \<Longrightarrow> j < length m \<Longrightarrow> mset (swap_at m i j) = mset m"
  by (simp add: swap_at_def mset_swap)

lemma length_swap_at [simp]: "length (swap_at m i j) = length m"
  by (simp add: swap_at_def)

lemma bubble_pass_facts:
  assumes "bubble_pass q moved m = (m', moved')" "q < length m \<or> q = 0"
  shows "mset m' = mset m \<and> inversions (map dm_hash m') \<le> inversions (map dm_hash m) \<and>
    (moved' \<noteq> moved \<longrightarrow> inversions (map dm_hash m') < inversions (map dm_hash m)) \<and> (moved \<longrightarrow> moved') \<and>
    (\<not> moved' \<longrightarrow> m' = m \<and> (\<forall>i<q. dm_hash (m ! i) \<le> dm_hash (m ! Suc i)))"
  using assms
proof (induction q arbitrary: moved m)
  case (Suc q)
  show ?case
  proof (cases "dm_hash (m ! q) \<le> dm_hash (m ! Suc q)")
    case True
    with Suc.IH [of moved m] Suc.prems show ?thesis by (auto simp: less_Suc_eq)
  next
    case False
    let ?m = "swap_at m (Suc q) q"
    have q: "Suc q < length m" using Suc.prems(2) by simp
    have "inversions (map dm_hash ?m) < inversions (map dm_hash m)"
      using inversions_swap [of "dm_hash (m ! Suc q)" "dm_hash (m ! q)" "map dm_hash (take q m)" "map dm_hash (drop (Suc (Suc q)) m)"]
        False swap_split [OF q] by (metis (no_types, lifting) list.simps(9) map_append not_le)
    moreover have "mset ?m = mset m" using q by (intro mset_swap_at) simp_all
    moreover have "bubble_pass q True ?m = (m', moved')" using Suc.prems(1) False by simp
    ultimately show ?thesis using Suc.IH [of True ?m] q by auto
  qed
qed simp

function bubble_loop :: "dx_map_entry list \<Rightarrow> dx_map_entry list" where
  "bubble_loop m = (case bubble_pass (length m - 1) False m of (m', moved) \<Rightarrow> if moved then bubble_loop m' else m')"
  by pat_completeness auto

termination
proof (relation "measure (\<lambda>m. inversions (map dm_hash m))", goal_cases)
  case (2 m m' moved)
  then show ?case using bubble_pass_facts [of "length m - 1" False m m' moved] by (cases m) auto
qed simp

declare bubble_loop.simps [simp del]

definition dx_sort_map :: "dx_map_entry list \<Rightarrow> dx_map_entry list" where
  "dx_sort_map m = bubble_loop (comb_loop (length m) m)"

lemma mset_comb_pass: "q + cnt \<le> length m \<Longrightarrow> mset (comb_pass cnt q m) = mset m \<and> length (comb_pass cnt q m) = length m"
  by (induction q arbitrary: m) (simp_all add: mset_swap_at)

lemma mset_comb_loop: "mset (comb_loop cnt m) = mset m"
proof (induction cnt m rule: comb_loop.induct)
  case (1 cnt m)
  show ?case
  proof (cases "length m - comb_gap cnt = 0")
    case True
    then show ?thesis using 1 by (subst comb_loop.simps) simp
  next
    case False
    then show ?thesis using 1 mset_comb_pass [of "length m - comb_gap cnt" "comb_gap cnt" m] by (subst comb_loop.simps) simp
  qed
qed

lemma bubble_loop_ok: "mset (bubble_loop m) = mset m \<and> sorted (map dm_hash (bubble_loop m))"
proof (induction m rule: bubble_loop.induct)
  case (1 m)
  obtain m' moved where p: "bubble_pass (length m - 1) False m = (m', moved)" by fastforce
  note f = bubble_pass_facts [OF p]
  show ?case
  proof (cases moved)
    case True
    then show ?thesis using 1 [OF p [symmetric]] p f by (subst (1 2) bubble_loop.simps) (cases m; simp)
  next
    case False
    then have m: "m' = m" "\<forall>i<length m - 1. dm_hash (m ! i) \<le> dm_hash (m ! Suc i)"
      using f by (cases m; simp)+
    then have "sorted (map dm_hash m)" by (auto simp: sorted_iff_nth_Suc)
    then show ?thesis using p False m(1) by (subst (1 2) bubble_loop.simps) simp
  qed
qed

text \<open>
  Result dx_sort_map_sorts: \<open>dx_sort_map\<close> ends on every map, and its result holds the same entries in the
  order of their hashes.
\<close>

theorem dx_sort_map_sorts: "mset (dx_sort_map m) = mset m \<and> sorted (map dm_hash (dx_sort_map m))"
  using bubble_loop_ok mset_comb_loop by (simp add: dx_sort_map_def)

section \<open>Index entries\<close>

text \<open>
  An index block holds an array of pairs of a hash and a block number, at the offset \<open>entries\<close>; the hash
  of the first pair is overlaid with the limit and the count of the array.
\<close>

definition dx_get_block :: "u8 list \<Rightarrow> nat \<Rightarrow> u32" where
  "dx_get_block blk entry = u32_at blk (entry + 4) AND 0x0fffffff"

definition dx_set_block :: "nat \<Rightarrow> u32 \<Rightarrow> u8 list \<Rightarrow> u8 list" where
  "dx_set_block entry v blk = put (entry + 4) (le32 v) blk"

definition dx_get_hash :: "u8 list \<Rightarrow> nat \<Rightarrow> u32" where
  "dx_get_hash blk entry = u32_at blk entry"

definition dx_set_hash :: "nat \<Rightarrow> u32 \<Rightarrow> u8 list \<Rightarrow> u8 list" where
  "dx_set_hash entry v blk = put entry (le32 v) blk"

definition dx_get_count :: "u8 list \<Rightarrow> nat \<Rightarrow> nat" where
  "dx_get_count blk entries = unat (u16_at blk (entries + 2))"

definition dx_get_limit :: "u8 list \<Rightarrow> nat \<Rightarrow> nat" where
  "dx_get_limit blk entries = unat (u16_at blk entries)"

definition dx_set_count :: "nat \<Rightarrow> nat \<Rightarrow> u8 list \<Rightarrow> u8 list" where
  "dx_set_count entries v blk = put (entries + 2) (le16 (of_nat v)) blk"

definition dx_set_limit :: "nat \<Rightarrow> nat \<Rightarrow> u8 list \<Rightarrow> u8 list" where
  "dx_set_limit entries v blk = put entries (le16 (of_nat v)) blk"

definition dx_root_limit :: "super_block \<Rightarrow> nat \<Rightarrow> nat" where
  "dx_root_limit sb infosize =
     (let entry_space = EXT4_BLOCK_SIZE sb - unat (ext4_dir_rec_len 1 False) - unat (ext4_dir_rec_len 2 False) - infosize;
          entry_space = (if ext4_has_metadata_csum sb then entry_space - 8 else entry_space)
      in entry_space div 8)"

definition dx_node_limit :: "super_block \<Rightarrow> bool \<Rightarrow> nat" where
  "dx_node_limit sb h =
     (let entry_space = EXT4_BLOCK_SIZE sb - unat (ext4_dir_rec_len 0 h);
          entry_space = (if ext4_has_metadata_csum sb then entry_space - 8 else entry_space)
      in entry_space div 8)"

text \<open>\<open>dx_insert_block\<close> after the entry \<open>at\<close>; \<open>None\<close> is a failed assertion.\<close>

definition dx_insert_block :: "nat \<Rightarrow> nat \<Rightarrow> u32 \<Rightarrow> u32 \<Rightarrow> u8 list \<Rightarrow> u8 list option" where
  "dx_insert_block entries at hash block blk =
     (let new = at + 8; cnt = dx_get_count blk entries
      in if \<not> cnt < dx_get_limit blk entries \<or> \<not> at < entries + 8 * cnt then None
         else (let blk = put (new + 8) (take (entries + 8 * cnt - new) (drop new blk)) blk;
                   blk = dx_set_hash new hash blk;
                   blk = dx_set_block new block blk
               in Some (dx_set_count entries (cnt + 1) blk)))"

text \<open>The pairs after the first, and the block number of the first.\<close>

definition dx_pair :: "u8 list \<Rightarrow> nat \<Rightarrow> nat \<Rightarrow> u32 \<times> u32" where
  "dx_pair blk entries i = (dx_get_hash blk (entries + 8 * i), u32_at blk (entries + 8 * i + 4))"

definition dx_pairs :: "u8 list \<Rightarrow> nat \<Rightarrow> (u32 \<times> u32) list" where
  "dx_pairs blk entries = map (dx_pair blk entries) [1..<dx_get_count blk entries]"

lemma u32_at_cong: "(\<And>i. off \<le> i \<Longrightarrow> i < off + 4 \<Longrightarrow> blk' ! i = blk ! i) \<Longrightarrow> u32_at blk' off = u32_at blk off"
  by (simp add: u32_at_def)

lemma u32_at_shift:
  assumes "\<And>i. i < 4 \<Longrightarrow> blk' ! (off' + i) = blk ! (off + i)"
  shows "u32_at blk' off' = u32_at blk off"
  using assms [of 0] assms [of 1] assms [of 2] assms [of 3] by (simp add: u32_at_def)

lemma insert_block_bytes:
  assumes "entries + 8 * cnt + 8 \<le> length blk" "at = entries + 8 * k" "k < cnt"
  defines "blk1 \<equiv> put (at + 16) (take (entries + 8 * cnt - (at + 8)) (drop (at + 8) blk)) blk"
  shows "length blk1 = length blk" "i < at + 16 \<Longrightarrow> blk1 ! i = blk ! i"
    "at + 16 \<le> i \<Longrightarrow> i < entries + 8 * cnt + 8 \<Longrightarrow> blk1 ! i = blk ! (i - 8)"
proof -
  have b: "at + 16 + length (take (entries + 8 * cnt - (at + 8)) (drop (at + 8) blk)) = entries + 8 * cnt + 8"
    using assms(1-3) by simp
  show "length blk1 = length blk" unfolding blk1_def using b assms(1) by simp
  show "i < at + 16 \<Longrightarrow> blk1 ! i = blk ! i" unfolding blk1_def using b assms(1) by (simp add: nth_put)
  show "at + 16 \<le> i \<Longrightarrow> i < entries + 8 * cnt + 8 \<Longrightarrow> blk1 ! i = blk ! (i - 8)"
    unfolding blk1_def using b assms(1) by (simp add: nth_put)
qed

text \<open>
  Result dx_insert_ok: inserting an index entry after the entry of index \<open>k\<close> of an array that is not full puts the
  new pair at the position \<open>k + 1\<close>, shifts the later pairs, and keeps the earlier ones, the first block number
  and the limit.
\<close>

theorem dx_insert_ok:
  assumes "dx_get_count blk e = cnt" "dx_get_limit blk e = lim" "k < cnt" "cnt < lim" "e + 8 * lim \<le> length blk"
  shows "\<exists>blk'. dx_insert_block e (e + 8 * k) h b blk = Some blk' \<and> length blk' = length blk \<and>
    dx_get_limit blk' e = lim \<and> dx_get_count blk' e = cnt + 1 \<and> dx_get_block blk' e = dx_get_block blk e \<and>
    dx_pairs blk' e = take k (dx_pairs blk e) @ (h, b) # drop k (dx_pairs blk e)"
proof -
  let ?at = "e + 8 * k"
  define b1 where "b1 = put (?at + 16) (take (e + 8 * cnt - (?at + 8)) (drop (?at + 8) blk)) blk"
  define b2 where "b2 = dx_set_block (?at + 8) b (dx_set_hash (?at + 8) h b1)"
  define b3 where "b3 = dx_set_count e (cnt + 1) b2"
  have fit: "e + 8 * cnt + 8 \<le> length blk" using assms(4,5) by simp
  note i1 = insert_block_bytes [OF fit refl assms(3), folded b1_def]
  have len: "length b1 = length blk" "length b2 = length blk" "length b3 = length blk"
    using i1(1) fit assms(3) by (simp_all add: b2_def b3_def dx_set_block_def dx_set_hash_def dx_set_count_def)
  have n2: "b2 ! i = b1 ! i" if "i < length blk" "i < ?at + 8 \<or> ?at + 16 \<le> i" for i
    using that len fit assms(3) by (auto simp: b2_def dx_set_block_def dx_set_hash_def nth_put)
  have n3: "b3 ! i = b2 ! i" if "i < length blk" "i < e + 2 \<or> e + 4 \<le> i" for i
    using that len fit assms(3) by (auto simp: b3_def dx_set_count_def nth_put)
  have old: "b3 ! i = blk ! i" if "i < ?at + 8" "i < e + 2 \<or> e + 4 \<le> i" for i
    using that n3 [of i] n2 [of i] i1(2) [of i] fit assms(3) by simp
  have moved: "b3 ! i = blk ! (i - 8)" if "?at + 16 \<le> i" "i < e + 8 * cnt + 8" for i
    using that n3 [of i] n2 [of i] i1(3) [of i] fit by simp
  have new: "u32_at b3 (?at + 8) = h" "u32_at b3 (?at + 12) = b"
  proof -
    have "u32_at b3 (?at + 8) = u32_at b2 (?at + 8)" "u32_at b3 (?at + 12) = u32_at b2 (?at + 12)"
      using n3 fit assms(3) by (intro u32_at_cong; simp)+
    moreover have "u32_at b2 (?at + 12) = b"
      using len fit assms(3) u32_at_put [of "?at + 12" "dx_set_hash (?at + 8) h b1" b]
      by (simp add: b2_def dx_set_block_def dx_set_hash_def add.commute add.left_commute)
    moreover have "u32_at b2 (?at + 8) = u32_at (dx_set_hash (?at + 8) h b1) (?at + 8)"
      using len fit assms(3) by (intro u32_at_cong) (simp add: b2_def dx_set_block_def dx_set_hash_def nth_put)
    moreover have "u32_at (dx_set_hash (?at + 8) h b1) (?at + 8) = h"
      using len fit assms(3) by (simp add: dx_set_hash_def u32_at_put)
    ultimately show "u32_at b3 (?at + 8) = h" "u32_at b3 (?at + 12) = b" by simp_all
  qed
  have lim: "dx_get_limit b3 e = lim" using old [of e] old [of "e + 1"] assms(2) by (simp add: dx_get_limit_def u16_at_def)
  have "lim < 65536" using assms(2) unsigned_less [of "u16_at blk e", where 'a = nat] by (simp add: dx_get_limit_def)
  then have "unat (of_nat (cnt + 1) :: u16) = cnt + 1"
    using assms(4) by (simp add: unsigned_of_nat take_bit_nat_eq_self del: of_nat_Suc of_nat_add)
  then have cnt: "dx_get_count b3 e = cnt + 1"
    using len fit by (simp add: dx_get_count_def b3_def dx_set_count_def u16_at_put del: of_nat_Suc of_nat_add)
  have first: "dx_get_block b3 e = dx_get_block blk e"
    using old by (simp add: dx_get_block_def u32_at_def)
  have pair: "dx_pair b3 e i = (if i \<le> k then dx_pair blk e i else if i = k + 1 then (h, b) else dx_pair blk e (i - 1))"
    if "1 \<le> i" "i < cnt + 1" for i
  proof -
    consider "i \<le> k" | "i = k + 1" | "k + 1 < i" by linarith
    then show ?thesis
    proof cases
      case 1
      then show ?thesis using old that by (simp add: dx_pair_def dx_get_hash_def u32_at_def)
    next
      case 2
      then show ?thesis using new by (simp add: dx_pair_def dx_get_hash_def add.commute add.left_commute)
    next
      case 3
      then obtain j where j: "i = Suc j" "k < j" by (cases i) auto
      show ?thesis using j moved that
        by (simp add: dx_pair_def dx_get_hash_def) (intro conjI u32_at_shift; simp add: add.commute add.left_commute)
    qed
  qed
  have "dx_pairs b3 e = take k (dx_pairs blk e) @ (h, b) # drop k (dx_pairs blk e)"
    using assms(1,3) pair
    by (intro nth_equalityI) (auto simp: dx_pairs_def cnt nth_append nth_Cons' min_def simp del: upt_Suc)
  moreover have "dx_insert_block e ?at h b blk = Some b3"
    using assms(1-4) by (simp add: dx_insert_block_def Let_def b3_def b2_def b1_def add.assoc)
  ultimately show ?thesis using len(3) lim cnt first by blast
qed

theorem dx_insert_ok_witness:
  "\<exists>blk'. dx_insert_block 8 16 7 3 demo_dx_block = Some blk' \<and> dx_get_count blk' 8 = 3"
  using dx_insert_ok [of demo_dx_block 8 2 100 1 7 3]
  by (auto simp: demo_dx_block_def dx_get_count_def dx_get_limit_def u16_at_def nth_put le16_def get_le16_def)

section \<open>Probing the index\<close>

definition ERR_BAD_DX_DIR :: int where "ERR_BAD_DX_DIR = - (4095 - 1)"

definition ext4_dir_htree_level :: "super_block \<Rightarrow> nat" where
  "ext4_dir_htree_level sb = (if ext4_has_feature_largedir sb then 3 else 2)"

text \<open>A frame: the block, and the offsets of its array of entries and of the entry that was chosen.\<close>

record dx_frame =
  fr_bh :: "u8 list"
  fr_entries :: nat
  fr_at :: nat

text \<open>The choice in one index block, or \<open>None\<close> for a count that is zero or beyond the limit.\<close>

definition dx_choose :: "u8 list \<Rightarrow> nat \<Rightarrow> u32 \<Rightarrow> dx_frame option" where
  "dx_choose blk entries hash =
     (let cnt = dx_get_count blk entries
      in if cnt = 0 \<or> cnt > dx_get_limit blk entries then None
         else (let p = bin_upper (\<lambda>i. dx_get_hash blk (entries + 8 * i)) hash 1 cnt
               in Some \<lparr>fr_bh = blk, fr_entries = entries, fr_at = entries + 8 * (p - 1)\<rparr>))"

text \<open>
  The loop of \<open>dx_probe\<close>, for the levels that are left: \<open>read\<close> is \<open>ext4_read_dirblock\<close> for index blocks,
  \<open>blocks\<close> the blocks on the way from the root. The result is an error or the frames from the root down.
\<close>

fun dx_probe_loop ::
    "(u32 \<Rightarrow> int + u8 list) \<Rightarrow> super_block \<Rightarrow> bool \<Rightarrow> u32 \<Rightarrow> u32 list \<Rightarrow> nat \<Rightarrow> u8 list \<Rightarrow> nat \<Rightarrow> int + dx_frame list" where
  "dx_probe_loop read sb h hash blocks left blk entries =
     (case dx_choose blk entries hash of
        None \<Rightarrow> Inl ERR_BAD_DX_DIR
      | Some fr \<Rightarrow>
          (let block = dx_get_block blk (fr_at fr)
           in if block \<in> set blocks then Inl ERR_BAD_DX_DIR
              else (case left of
                      0 \<Rightarrow> Inr [fr]
                    | Suc left' \<Rightarrow>
                        (case read block of
                           Inl err \<Rightarrow> Inl err
                         | Inr blk' \<Rightarrow>
                             if dx_get_limit blk' 8 \<noteq> dx_node_limit sb h then Inl ERR_BAD_DX_DIR
                             else (case dx_probe_loop read sb h hash (blocks @ [block]) left' blk' 8 of
                                     Inl err \<Rightarrow> Inl err
                                   | Inr frs \<Rightarrow> Inr (fr # frs))))))"

declare dx_probe_loop.simps [simp del]

text \<open>
  \<open>dx_probe\<close>: the checks of the root block, then the loop. \<open>hashfn\<close> is \<open>ext4fs_dirhash\<close> of the name for a
  hash version, or the hash that the caller has; \<open>s_hash_unsigned\<close> is added to the three oldest versions. The info of the root starts
  at offset 24: version at 28, length at 29, levels at 30, flags at 31.
\<close>

definition dx_probe ::
    "(u32 \<Rightarrow> int + u8 list) \<Rightarrow> (nat \<Rightarrow> int + u32) \<Rightarrow> super_block \<Rightarrow> bool \<Rightarrow> nat \<Rightarrow> int + dx_frame list" where
  "dx_probe read hashfn sb h s_hash_unsigned =
     (case read 0 of
        Inl err \<Rightarrow> Inl err
      | Inr root \<Rightarrow>
          (let version = unat (root ! 28); info_length = unat (root ! 29); indirect = unat (root ! 30)
           in if version \<noteq> 2 \<and> version \<noteq> 1 \<and> version \<noteq> 0 \<and> version \<noteq> 6 then Inl ERR_BAD_DX_DIR
              else if h \<and> version \<noteq> 6 \<or> \<not> h \<and> version = 6 then Inl ERR_BAD_DX_DIR
              else (case hashfn (if version \<le> 2 then version + s_hash_unsigned else version) of
                      Inl err \<Rightarrow> Inl err
                    | Inr hash \<Rightarrow>
                        if root ! 31 AND 1 \<noteq> 0 then Inl ERR_BAD_DX_DIR
                        else if indirect \<ge> ext4_dir_htree_level sb then Inl ERR_BAD_DX_DIR
                        else (let entries = 24 + info_length
                              in if dx_get_limit root entries \<noteq> dx_root_limit sb info_length then Inl ERR_BAD_DX_DIR
                                 else dx_probe_loop read sb h hash [0] indirect root entries))))"

text \<open>
  What a good frame is: the chosen entry is in the array, its hash is not above the one sought (unless
  it is the first) and that of the next entry is.
\<close>

definition frame_ok :: "u32 \<Rightarrow> dx_frame \<Rightarrow> bool" where
  "frame_ok hash fr = (\<exists>k < dx_get_count (fr_bh fr) (fr_entries fr). fr_at fr = fr_entries fr + 8 * k \<and>
     dx_get_count (fr_bh fr) (fr_entries fr) \<le> dx_get_limit (fr_bh fr) (fr_entries fr) \<and>
     (0 < k \<longrightarrow> dx_get_hash (fr_bh fr) (fr_at fr) \<le> hash) \<and>
     (k + 1 < dx_get_count (fr_bh fr) (fr_entries fr) \<longrightarrow> hash < dx_get_hash (fr_bh fr) (fr_at fr + 8)))"

lemma dx_choose_ok:
  assumes "dx_choose blk e hash = Some fr"
  shows "frame_ok hash fr" "fr_bh fr = blk" "fr_entries fr = e"
proof -
  let ?c = "dx_get_count blk e" and ?key = "\<lambda>i. dx_get_hash blk (e + 8 * i)"
  let ?p = "bin_upper ?key hash 1 ?c"
  have c: "1 \<le> ?c" "?c \<le> dx_get_limit blk e" and fr: "fr = \<lparr>fr_bh = blk, fr_entries = e, fr_at = e + 8 * (?p - 1)\<rparr>"
    using assms by (auto simp: dx_choose_def Let_def split: if_splits)
  show "fr_bh fr = blk" "fr_entries fr = e" using fr by simp_all
  have b: "1 \<le> ?p" "?p \<le> ?c" using c(1) by (rule bin_upper_bounds)+
  have s: "1 < ?p \<longrightarrow> ?key (?p - 1) \<le> hash" "?p < ?c \<longrightarrow> hash < ?key ?p"
    using bin_upper_split [OF c(1), of 1 ?key hash ?c] by simp_all
  obtain k where k: "?p = Suc k" using b(1) by (cases ?p) auto
  show "frame_ok hash fr" unfolding frame_ok_def
    using s b c k by (intro exI [of _ k]) (auto simp: fr add.commute add.left_commute)
qed

text \<open>The blocks that the frames lead to: each is the one that the next frame was read from.\<close>

fun linked :: "(u32 \<Rightarrow> int + u8 list) \<Rightarrow> dx_frame list \<Rightarrow> bool" where
  "linked read (f # g # fs) = (read (dx_get_block (fr_bh f) (fr_at f)) = Inr (fr_bh g) \<and> linked read (g # fs))"
| "linked read _ = True"

definition leads_to :: "dx_frame \<Rightarrow> u32" where
  "leads_to fr = dx_get_block (fr_bh fr) (fr_at fr)"

lemma dx_probe_loop_ok:
  assumes "dx_probe_loop read sb h hash blocks left blk e = Inr frs" "distinct blocks"
  shows "length frs = Suc left \<and> (\<forall>fr \<in> set frs. frame_ok hash fr) \<and> linked read frs \<and> fr_bh (hd frs) = blk \<and>
    distinct (blocks @ map leads_to frs)"
  using assms
proof (induction left arbitrary: blocks blk e frs)
  case 0
  then show ?case
    using dx_choose_ok [of blk e hash]
    by (auto simp: dx_probe_loop.simps [where left = 0] Let_def leads_to_def split: option.splits if_splits)
next
  case (Suc left)
  obtain fr where fr: "dx_choose blk e hash = Some fr"
    using Suc.prems by (auto simp: dx_probe_loop.simps [where left = "Suc left"] split: option.splits)
  note f = dx_choose_ok [OF fr]
  let ?b = "dx_get_block blk (fr_at fr)"
  obtain blk' frs' where r: "?b \<notin> set blocks" "read ?b = Inr blk'" "frs = fr # frs'"
    "dx_probe_loop read sb h hash (blocks @ [?b]) left blk' 8 = Inr frs'"
    using Suc.prems(1) fr
    by (auto simp: dx_probe_loop.simps [where left = "Suc left"] Let_def split: option.splits if_splits sum.splits)
  have "distinct (blocks @ [?b])" using r(1) Suc.prems(2) by simp
  note IH = Suc.IH [OF r(4) this]
  then have "frs' \<noteq> []" by auto
  then obtain g gs where g: "frs' = g # gs" by (cases frs') auto
  show ?case using IH f r g by (auto simp: leads_to_def)
qed

text \<open>
  Result dx_probe_path: when \<open>dx_probe\<close> succeeds it has a frame for each level of the index, the first of the
  root block and each further one of the block to which the choice before it leads; every choice is an
  entry of its array whose hash does not exceed the hash of the name while the next one does; and no
  block is met twice on the way.
\<close>

theorem dx_probe_path:
  assumes "dx_probe read hashfn sb h u = Inr frs"
  shows "\<exists>root hash v. read 0 = Inr root \<and> hashfn v = Inr hash \<and> length frs = Suc (unat (root ! 30)) \<and>
    length frs \<le> 3 \<and> fr_bh (hd frs) = root \<and> linked read frs \<and> (\<forall>fr \<in> set frs. frame_ok hash fr) \<and>
    distinct (0 # map leads_to frs)"
proof -
  obtain root where root: "read 0 = Inr root"
    using assms by (auto simp: dx_probe_def split: sum.splits)
  obtain v hash e where p: "hashfn v = Inr hash" "dx_probe_loop read sb h hash [0] (unat (root ! 30)) root e = Inr frs"
    "unat (root ! 30) < ext4_dir_htree_level sb"
    using assms root by (auto simp: dx_probe_def Let_def not_le split: sum.splits if_splits)
  show ?thesis using root p dx_probe_loop_ok [OF p(2)] by (auto simp: ext4_dir_htree_level_def split: if_splits)
qed

definition demo_dx_root :: "u8 list" where
  "demo_dx_root = put 28 [1, 8, 0, 0] (put 32 (le16 124) (put 34 (le16 1) ((replicate 1024 0)[36 := 5])))"

lemma demo_dx_probe:
  "dx_probe (\<lambda>_. Inr demo_dx_root) (\<lambda>_. Inr 77) demo_sb False 3 =
     Inr [\<lparr>fr_bh = demo_dx_root, fr_entries = 32, fr_at = 32\<rparr>]"
proof -
  have n: "demo_dx_root ! 28 = 1" "demo_dx_root ! 29 = 8" "demo_dx_root ! 30 = 0" "demo_dx_root ! 31 = 0"
    by (simp_all add: demo_dx_root_def nth_put le16_def nth_list_update)
  have c: "dx_get_count demo_dx_root 32 = 1" "dx_get_limit demo_dx_root 32 = 124" "dx_get_block demo_dx_root 32 = 5"
    by (simp_all add: demo_dx_root_def nth_put le16_def nth_list_update dx_get_count_def dx_get_limit_def dx_get_block_def
        u16_at_def u32_at_def get_le16_def get_le32_def)
  have "dx_root_limit demo_sb 8 = 124"
    by (simp add: dx_root_limit_def Let_def EXT4_BLOCK_SIZE_def demo_sb_def demo_sbi_def demo_es_def ext4_dir_rec_len_unat
        ext4_has_metadata_csum_def has_feature_defs EXT4_SB_def)
  moreover have "bin_upper key x 1 1 = 1" for key :: "nat \<Rightarrow> u32" and x by (simp add: bin_upper.simps)
  ultimately show ?thesis using n c
    by (simp add: dx_probe_def Let_def ext4_dir_htree_level_def dx_probe_loop.simps dx_choose_def)
qed

theorem dx_probe_path_witness:
  "frame_ok 77 \<lparr>fr_bh = demo_dx_root, fr_entries = 32, fr_at = 32\<rparr> \<and>
   leads_to \<lparr>fr_bh = demo_dx_root, fr_entries = 32, fr_at = 32\<rparr> \<noteq> 0"
  using dx_probe_path [OF demo_dx_probe] by auto

end
