(* ===== verification/Evfs_Dentry.thy ===== *)
theory Evfs_Dentry
  imports Evfs_Inode Ext4_Dirblock
begin

unbundle bit_operations_syntax

text \<open>
  The directory entry operations of \<open>fs/ext4/evfs.c\<close> and the link and unlink routines of
  \<open>fs/ext4/namei.c\<close> that they call. The routines that change a directory of any layout
  (\<open>ext4_find_entry\<close>, \<open>ext4_add_entry\<close>, \<open>ext4_delete_entry\<close>) are calls with an arbitrary answer here, and
  \<open>entry_inode\<close> is the inode number in the entry found; their work on a single block is the subject of
  \<open>Ext4_Dirent\<close>. The first block of a directory is \<open>f_dirblk\<close>.
\<close>

section \<open>Linking and unlinking\<close>

definition EXT4_LINK_MAX :: u32 where "EXT4_LINK_MAX = 65000"
definition EXT4_INDEX_FL :: u32 where "EXT4_INDEX_FL = 0x1000"

definition is_dx :: "super_block \<Rightarrow> inode \<Rightarrow> bool" where
  "is_dx sb dir = (ext4_has_feature_dir_index sb \<and> i_flags dir AND EXT4_INDEX_FL \<noteq> 0)"

definition ext4_inc_count :: "kernel \<Rightarrow> super_block \<Rightarrow> inode \<Rightarrow> inode" where
  "ext4_inc_count K sb ino =
     (let ino = inc_nlink K ino
      in if is_dx sb ino \<and> (i_nlink ino > EXT4_LINK_MAX \<or> i_nlink ino = 2) then set_nlink K ino 1 else ino)"

definition ext4_dec_count :: "kernel \<Rightarrow> inode \<Rightarrow> inode" where
  "ext4_dec_count K ino = (if \<not> S_ISDIR (i_mode ino) \<or> i_nlink ino > 2 then drop_nlink K ino else ino)"

definition set_ctime_current :: "u64 \<Rightarrow> unit handler" where
  "set_ctime_current ino = modify (\<lambda>s. upd_inode ino (\<lambda>i. i\<lparr>i_ctime := f_now s\<rparr>) s)"

definition set_mctime_current :: "u64 \<Rightarrow> unit handler" where
  "set_mctime_current ino = modify (\<lambda>s. upd_inode ino (\<lambda>i. i\<lparr>i_ctime := f_now s, i_mtime := f_now s\<rparr>) s)"

text \<open>
  One round of \<open>__ext4_link\<close>: the error code, and whether the transaction was started (if not the
  code returns at once). The journal credits are not modelled.
\<close>

definition ext4_link_once :: "kernel \<Rightarrow> u64 \<Rightarrow> u64 \<Rightarrow> u8 list \<Rightarrow> (int \<times> bool) handler" where
  "ext4_link_once K dir ino name = do {
     handle \<leftarrow> call K (Journal_start dir 0);
     if handle < 0 then ret (handle, False) else do {
     set_ctime_current ino;
     modify (\<lambda>s. upd_inode ino (ext4_inc_count K (f_sb s)) s);
     void_call (Ihold ino);
     err \<leftarrow> call K (Add_entry dir name ino);
     err \<leftarrow> (if err = 0 then do {
       err \<leftarrow> call K (Mark_inode_dirty ino);
       nlink \<leftarrow> gets (\<lambda>s. i_nlink (f_inodes s ino));
       (if nlink = 1 then do { call K (Orphan_del ino); ret () } else ret ());
       void_call (D_instantiate ino);
       ret err
     } else do {
       modify (upd_inode ino (drop_nlink K));
       void_call (Iput ino);
       ret err
     });
     call K Journal_stop;
     ret (err, True)
     }}"

text \<open>The loop around it; a kernel that asks for a retry every time is the value \<open>None\<close>.\<close>

partial_function (option) ext4_link_retry ::
    "kernel \<Rightarrow> u64 \<Rightarrow> u64 \<Rightarrow> u8 list \<Rightarrow> fs \<Rightarrow> (int \<times> fs) option" where
  "ext4_link_retry K dir ino name s =
     (case run_state (ext4_link_once K dir ino name) s of ((err, started), s) \<Rightarrow>
        if started \<and> err = - ENOSPC then
          (case run_state (call K Should_retry_alloc) s of (again, s) \<Rightarrow>
             if again \<noteq> 0 then ext4_link_retry K dir ino name s else Some (err, s))
        else Some (err, s))"

definition ext4_link_internal :: "kernel \<Rightarrow> u64 \<Rightarrow> u64 \<Rightarrow> u8 list \<Rightarrow> int option handler" where
  "ext4_link_internal K dir ino name = State (\<lambda>s.
     case ext4_link_retry K dir ino name s of None \<Rightarrow> (None, s) | Some (err, s') \<Rightarrow> (Some err, s'))"

definition ext4_update_dx_flag :: "super_block \<Rightarrow> inode \<Rightarrow> inode" where
  "ext4_update_dx_flag sb ino =
     (if \<not> ext4_has_feature_dir_index sb \<and> i_flags ino AND EXT4_INDEX_FL \<noteq> 0
      then ino\<lparr>i_flags := i_flags ino AND NOT EXT4_INDEX_FL\<rparr> else ino)"

lemma dx_flag_nlink [simp]: "i_nlink (ext4_update_dx_flag sb ino) = i_nlink ino"
  by (simp add: ext4_update_dx_flag_def)

text \<open>\<open>__ext4_unlink\<close> outside of a fast-commit replay.\<close>

definition ext4_unlink_entry :: "kernel \<Rightarrow> u64 \<Rightarrow> u8 list \<Rightarrow> u64 \<Rightarrow> int handler" where
  "ext4_unlink_entry K dir name ino = do {
     bh \<leftarrow> call K (Find_entry dir name);
     if bh < 0 then ret bh
     else if bh = 0 then ret (- ENOENT)
     else do {
     found \<leftarrow> gets (\<lambda>s. entry_inode K (f_calls s));
     r \<leftarrow> (if ucast found \<noteq> ino then ret (- ENOENT) else do {
       handle \<leftarrow> call K (Journal_start dir 0);
       if handle < 0 then ret handle else do {
       r \<leftarrow> (do {
         r \<leftarrow> call K (Delete_entry dir name);
         if r \<noteq> 0 then ret r else do {
         set_mctime_current dir;
         modify (\<lambda>s. upd_inode dir (ext4_update_dx_flag (f_sb s)) s);
         r \<leftarrow> call K (Mark_inode_dirty dir);
         if r \<noteq> 0 then ret r else do {
         modify (upd_inode ino (\<lambda>i. if i_nlink i = 0 then i else drop_nlink K i));
         nlink \<leftarrow> gets (\<lambda>s. i_nlink (f_inodes s ino));
         (if nlink = 0 then do { call K (Orphan_add ino); ret () } else ret ());
         set_ctime_current ino;
         call K (Mark_inode_dirty ino)
         }}
       });
       call K Journal_stop;
       ret r
       }});
     void_call (Brelse (Dir_block dir));
     ret r
     }}"

section \<open>Adding an entry\<close>

text \<open>
  \<open>evfs_dentry_add\<close>; \<open>strlen\<close> stops at the first zero byte of the buffer, whose last byte the caller
  has set to zero.
\<close>

definition strlen :: "u8 list \<Rightarrow> nat" where
  "strlen name = length (takeWhile (\<lambda>c. c \<noteq> 0) name)"

definition dentry_add_locked :: "kernel \<Rightarrow> u64 \<Rightarrow> u64 \<Rightarrow> u8 list \<Rightarrow> int option handler" where
  "dentry_add_locked K dir child name = do {
     child_dentry \<leftarrow> call K (D_alloc dir name);
     if child_dentry = 0 then ret (Some (- ENOMEM)) else do {
     err \<leftarrow> call K (Dquot_initialize dir);
     r \<leftarrow> (if err \<noteq> 0 then ret (Some err) else ext4_link_internal K dir child name);
     (case r of
        None \<Rightarrow> ret None
      | Some rv \<Rightarrow> do {
          void_call (Dput_child name);
          ret (Some rv)
        })
     }}"

definition evfs_dentry_add :: "kernel \<Rightarrow> u64 \<Rightarrow> u64 \<Rightarrow> u8 list \<Rightarrow> int option handler" where
  "evfs_dentry_add K parent_ino child_ino name =
     (if strlen name = 0 \<or> strlen name > 255 then ret (Some (- EINVAL)) else do {
     dir_inode \<leftarrow> call K (Iget parent_ino);
     if dir_inode < 0 then ret (Some dir_inode) else do {
     void_call (Inode_lock parent_ino);
     mode \<leftarrow> gets (\<lambda>s. i_mode (f_inodes s parent_ino));
     r \<leftarrow> (if \<not> S_ISDIR mode then ret (Some (- ENOTDIR)) else do {
       parent_dentry \<leftarrow> call K (D_find_any_alias parent_ino);
       if parent_dentry = 0 then ret (Some (- ENOENT)) else do {
       child_inode \<leftarrow> call K (Iget child_ino);
       r \<leftarrow> (if child_inode < 0 then ret (Some child_inode) else do {
         void_call (Inode_lock child_ino);
         r \<leftarrow> dentry_add_locked K parent_ino child_ino (take (strlen name) name);
         (case r of
            None \<Rightarrow> ret None
          | Some rv \<Rightarrow> do {
              void_call (Inode_unlock child_ino);
              void_call (Iput child_ino);
              ret (Some rv)
            })
       });
       (case r of
          None \<Rightarrow> ret None
        | Some rv \<Rightarrow> do {
            void_call (Dput_parent parent_ino);
            ret (Some rv)
          })
       }});
     (case r of
        None \<Rightarrow> ret None
      | Some rv \<Rightarrow> do {
          void_call (Inode_unlock parent_ino);
          void_call (Iput parent_ino);
          ret (Some rv)
        })
     }})"

section \<open>Reading and updating the entry of an index\<close>

text \<open>
  The walk over the first block of a directory that \<open>evfs_dentry_read\<close> and \<open>evfs_dentry_update\<close> share:
  the offset of the entry with the wanted index among those in use. The code does not check the
  entries; reading a field past the end of the block is \<open>Walk_fault\<close>.
\<close>

datatype walk_result = Walk_found nat | Walk_end nat | Walk_fault

function dentry_walk :: "u8 list \<Rightarrow> nat \<Rightarrow> nat \<Rightarrow> nat \<Rightarrow> nat \<Rightarrow> walk_result" where
  "dentry_walk blk limit target offset entry_count =
     (if offset < limit then
        if offset + 6 > length blk then Walk_fault
        else if unat (de_rec_len blk offset) = 0 then Walk_end offset
        else if de_inode blk offset \<noteq> 0 \<and> entry_count = target then Walk_found offset
        else dentry_walk blk limit target (offset + unat (de_rec_len blk offset))
               (if de_inode blk offset \<noteq> 0 then entry_count + 1 else entry_count)
      else Walk_end offset)"
  by pat_completeness auto

termination
  by (relation "measure (\<lambda>(blk, limit, target, offset, entry_count). limit - offset)") auto

declare dentry_walk.simps [simp del]

definition walk_limit :: "super_block \<Rightarrow> nat" where
  "walk_limit sb = unat (s_blocksize sb) - (if ext4_has_metadata_csum sb then 12 else 0)"

record de_read_out =
  dr_ino_num :: u64
  dr_file_type :: u8
  dr_name_len :: u8
  dr_name :: "u8 list"

text \<open>\<open>out\<close> is what the caller's argument holds on entry; its name is a buffer of 255 bytes.\<close>

definition read_found :: "u8 list \<Rightarrow> nat \<Rightarrow> de_read_out \<Rightarrow> de_read_out" where
  "read_found blk off out =
     out\<lparr>dr_ino_num := ucast (de_inode blk off), dr_file_type := de_file_type blk off,
         dr_name_len := de_name_len blk off,
         dr_name := (de_name blk off @ drop (unat (de_name_len blk off)) (dr_name out))[254 := 0]\<rparr>"

definition evfs_dentry_read :: "kernel \<Rightarrow> u64 \<Rightarrow> u32 \<Rightarrow> de_read_out \<Rightarrow> (int \<times> de_read_out) option handler" where
  "evfs_dentry_read K dir_ino target out = do {
     dir_inode \<leftarrow> call K (Iget dir_ino);
     if dir_inode < 0 then ret (Some (dir_inode, out)) else do {
     void_call (Inode_lock_shared dir_ino);
     mode \<leftarrow> gets (\<lambda>s. i_mode (f_inodes s dir_ino));
     r \<leftarrow> (if \<not> S_ISDIR mode then ret (Some (- ENOTDIR, out)) else do {
       bh \<leftarrow> call K (Bread dir_ino 0);
       if bh \<le> 0 then ret (Some (if bh \<noteq> 0 then bh else - EIO, out)) else do {
       blk \<leftarrow> gets (\<lambda>s. f_dirblk s dir_ino);
       limit \<leftarrow> gets (\<lambda>s. walk_limit (f_sb s));
       (case dentry_walk blk limit (unat target) 0 0 of
          Walk_fault \<Rightarrow> ret None
        | Walk_found off \<Rightarrow>
            if off + 8 + unat (de_name_len blk off) > length blk then ret None
            else do {
              void_call (Brelse (Dir_block dir_ino));
              ret (Some (0, read_found blk off out))
            }
        | Walk_end off \<Rightarrow> do {
            void_call (Brelse (Dir_block dir_ino));
            ret (Some (0, out\<lparr>dr_ino_num := 0, dr_file_type := 0, dr_name_len := 0,
              dr_name := (dr_name out)[0 := 0]\<rparr>))
          })
       }});
     (case r of
        None \<Rightarrow> ret None
      | Some v \<Rightarrow> do {
          void_call (Inode_unlock_shared dir_ino);
          void_call (Iput dir_ino);
          ret (Some v)
        })
     }}"

section \<open>Deleting an entry\<close>

text \<open>
  The variables \<open>parent_dput_called\<close> and \<open>child_dput_called\<close> are true at the labels that test them
  exactly when the corresponding \<open>dput\<close> was reached: the lock of the directory is released only on the
  paths that do not take a reference to its dentry.
\<close>

definition dentry_delete_child :: "kernel \<Rightarrow> u64 \<Rightarrow> u64 \<Rightarrow> u8 list \<Rightarrow> int option handler" where
  "dentry_delete_child K dir child name = do {
     void_call (Inode_lock child);
     r \<leftarrow> evfs_inode_untrack_nolock K child;
     (case r of
        None \<Rightarrow> ret None
      | Some err \<Rightarrow>
          if err < 0 then do {
            void_call (Inode_unlock child);
            void_call (Iput child);
            ret (Some err)
          } else do {
          target_dentry \<leftarrow> call K (D_alloc dir name);
          if target_dentry = 0 then do {
            void_call (Inode_unlock child);
            void_call (Iput child);
            ret (Some (- ENOMEM))
          } else do {
          void_call (D_add child);
          err \<leftarrow> call K (Dquot_initialize dir);
          rv \<leftarrow> (if err \<noteq> 0 then ret err else do {
            err \<leftarrow> call K (Dquot_initialize child);
            if err \<noteq> 0 then ret err else ext4_unlink_entry K dir name child
          });
          void_call (Dput_child name);
          void_call (Inode_unlock child);
          ret (Some rv)
          }})
   }"

definition evfs_dentry_delete :: "kernel \<Rightarrow> u64 \<Rightarrow> u8 list \<Rightarrow> int option handler" where
  "evfs_dentry_delete K dir_ino name = do {
     dir_inode \<leftarrow> call K (Iget dir_ino);
     if dir_inode < 0 then ret (Some dir_inode) else do {
     void_call (Inode_lock dir_ino);
     mode \<leftarrow> gets (\<lambda>s. i_mode (f_inodes s dir_ino));
     if \<not> S_ISDIR mode then do {
       void_call (Inode_unlock dir_ino);
       void_call (Iput dir_ino);
       ret (Some (- ENOTDIR))
     } else do {
     parent_dentry \<leftarrow> call K (D_find_any_alias dir_ino);
     if parent_dentry = 0 then do {
       void_call (Inode_unlock dir_ino);
       void_call (Iput dir_ino);
       ret (Some (- ENOENT))
     } else do {
     nm \<leftarrow> ret (take (strlen name) name);
     bh \<leftarrow> call K (Find_entry dir_ino nm);
     r \<leftarrow> (if bh \<le> 0 then ret (Some (if bh \<noteq> 0 then bh else - ENOENT)) else do {
       child_ino \<leftarrow> gets (\<lambda>s. entry_inode K (f_calls s));
       void_call (Brelse (Dir_block dir_ino));
       child_inode \<leftarrow> call K (Iget (ucast child_ino));
       if child_inode < 0 then ret (Some child_inode)
       else dentry_delete_child K dir_ino (ucast child_ino) nm
     });
     (case r of
        None \<Rightarrow> ret None
      | Some rv \<Rightarrow> do {
          void_call (Dput_parent dir_ino);
          void_call (Iput dir_ino);
          ret (Some rv)
        })
     }}}}"

section \<open>Updating an entry\<close>

text \<open>
  The body of \<open>evfs_dentry_update\<close> under the test \<open>old_ino_num >= 0\<close>, which is always true of an
  unsigned number: \<open>old_ino\<close> is \<open>-1\<close> when the walk did not find the entry, and \<open>off\<close> is the offset at
  which it stopped. The result is \<open>None\<close> for a fault, else \<open>ret\<close> and the inodes that were taken.
\<close>

definition dentry_update_swap ::
    "kernel \<Rightarrow> u64 \<Rightarrow> u64 \<Rightarrow> u64 \<Rightarrow> nat \<Rightarrow> (int \<times> u64 list) option handler" where
  "dentry_update_swap K dir new_ino old_ino off = do {
     new_inode \<leftarrow> call K (Iget new_ino);
     if new_inode < 0 then ret (Some (new_inode, [])) else do {
     void_call (Inode_lock new_ino);
     err \<leftarrow> evfs_inode_inc_nlink K new_ino;
     if err < 0 then ret (Some (err, [new_ino])) else do {
     void_call (Inode_unlock new_ino);
     old_inode \<leftarrow> call K (Iget old_ino);
     if old_inode < 0 then ret (Some (old_inode, [new_ino])) else do {
     void_call (Inode_lock old_ino);
     err \<leftarrow> evfs_inode_dec_nlink K old_ino;
     if err < 0 then ret (Some (err, [new_ino, old_ino])) else do {
     nlink \<leftarrow> gets (\<lambda>s. i_nlink (f_inodes s old_ino));
     r \<leftarrow> (if nlink = 0 then do {
       r \<leftarrow> evfs_inode_untrack_nolock K old_ino;
       (case r of
          None \<Rightarrow> ret None
        | Some err \<Rightarrow> if err < 0 then ret (Some err) else do { call K (Orphan_add old_ino); ret (Some 0) })
     } else ret (Some 0));
     (case r of
        None \<Rightarrow> ret None
      | Some err \<Rightarrow>
          if err < 0 then ret (Some (err, [new_ino, old_ino])) else do {
          void_call (Inode_unlock old_ino);
          len \<leftarrow> gets (\<lambda>s. length (f_dirblk s dir));
          if off + 4 > len then ret None else do {
          modify (\<lambda>s. s\<lparr>f_dirblk := (f_dirblk s)(dir := put off (le32 (ucast new_ino)) (f_dirblk s dir))\<rparr>);
          err \<leftarrow> ext4_handle_dirty_dirblock K dir;
          if err \<noteq> 0 then ret (Some (err, [new_ino, old_ino])) else do {
          set_mctime_current dir;
          err \<leftarrow> call K (Mark_inode_dirty dir);
          ret (Some (err, [new_ino, old_ino]))
          }}})
     }}}}}"

text \<open>
  The whole handler returns \<open>err\<close>, not \<open>ret\<close>: what \<open>ext4_journal_stop\<close> answered, and on the path of
  \<open>-ENOTDIR\<close> the uninitialised variable, and on the path where the transaction does not start too;
  \<open>junk\<close> is its value.
\<close>

definition iput_all :: "u64 list \<Rightarrow> unit handler" where
  "iput_all is = modify (\<lambda>s. s\<lparr>f_calls := f_calls s @ map Iput is\<rparr>)"

definition evfs_dentry_update :: "kernel \<Rightarrow> int \<Rightarrow> u64 \<Rightarrow> u32 \<Rightarrow> u64 \<Rightarrow> int option handler" where
  "evfs_dentry_update K junk dir_ino target new_ino = do {
     dir_inode \<leftarrow> call K (Iget dir_ino);
     if dir_inode < 0 then ret (Some dir_inode) else do {
     void_call (Inode_lock dir_ino);
     mode \<leftarrow> gets (\<lambda>s. i_mode (f_inodes s dir_ino));
     r \<leftarrow> (if \<not> S_ISDIR mode then ret (Some junk) else do {
       handle \<leftarrow> call K (Journal_start dir_ino 4);
       if handle < 0 then ret (Some junk) else do {
       bh \<leftarrow> call K (Bread dir_ino 0);
       r \<leftarrow> (if bh \<le> 0 then ret (Some []) else do {
         err \<leftarrow> call K (Get_write_access (Dir_block dir_ino));
         r \<leftarrow> (if err \<noteq> 0 then ret (Some (err, [])) else do {
           blk \<leftarrow> gets (\<lambda>s. f_dirblk s dir_ino);
           limit \<leftarrow> gets (\<lambda>s. walk_limit (f_sb s));
           (case dentry_walk blk limit (unat target) 0 0 of
              Walk_fault \<Rightarrow> ret None
            | Walk_found off \<Rightarrow> dentry_update_swap K dir_ino new_ino (ucast (de_inode blk off)) off
            | Walk_end off \<Rightarrow> dentry_update_swap K dir_ino new_ino (- 1) off)
         });
         (case r of
            None \<Rightarrow> ret None
          | Some (rv, taken) \<Rightarrow> do {
              void_call (Brelse (Dir_block dir_ino));
              ret (Some taken)
            })
       });
       (case r of
          None \<Rightarrow> ret None
        | Some taken \<Rightarrow> do {
            err \<leftarrow> call K Journal_stop;
            iput_all taken;
            ret (Some err)
          })
       }});
     (case r of
        None \<Rightarrow> ret None
      | Some err \<Rightarrow> do {
          void_call (Inode_unlock dir_ino);
          void_call (Iput dir_ino);
          ret (Some err)
        })
     }}"

section \<open>Reading entries by index\<close>

definition in_use :: "u8 list \<Rightarrow> nat list \<Rightarrow> nat list" where
  "in_use blk offs = filter (\<lambda>p. de_inode blk p \<noteq> 0) offs"

lemma live_in_use: "live blk offs = map (\<lambda>p. (de_inode blk p, de_name blk p)) (in_use blk offs)"
  by (simp add: live_def in_use_def)

lemma dentry_walk_chain:
  assumes "chain h blk off lim offs" "cnt \<le> target"
  shows "dentry_walk blk lim target off cnt =
    (if target - cnt < length (in_use blk offs) then Walk_found (in_use blk offs ! (target - cnt)) else Walk_end lim)"
  using assms
proof (induction offs arbitrary: off cnt rule: list.induct)
  case Nil
  then show ?case by (subst dentry_walk.simps) (simp add: in_use_def)
next
  case (Cons x offs)
  then have e: "x = off" "entry_ok h blk off lim" "chain h blk (off + rlen_at blk off) lim offs" by simp_all
  have b: "off < lim" "off + 6 \<le> length blk" "rlen_at blk off = unat (de_rec_len blk off)" "rlen_at blk off \<noteq> 0"
    using e(2) rlen_ge_8 [OF e(2)] by (simp_all add: entry_ok_def rlen_at_16)
  show ?case
  proof (cases "de_inode blk off \<noteq> 0 \<and> cnt = target")
    case True
    then show ?thesis using b e(1) by (subst dentry_walk.simps) (simp add: in_use_def)
  next
    case False
    then have "dentry_walk blk lim target off cnt = dentry_walk blk lim target (off + rlen_at blk off)
        (if de_inode blk off \<noteq> 0 then cnt + 1 else cnt)"
      using b by (subst dentry_walk.simps) auto
    moreover have "target - cnt = Suc (target - (cnt + 1))" if "cnt \<noteq> target"
      using that Cons.prems(2) by simp
    ultimately show ?thesis
      using Cons.IH [OF e(3), of cnt] Cons.IH [OF e(3), of "cnt + 1"] Cons.prems(2) False e(1)
      by (auto simp: in_use_def)
  qed
qed

definition read_result :: "u8 list \<Rightarrow> nat list \<Rightarrow> nat \<Rightarrow> de_read_out \<Rightarrow> bool" where
  "read_result blk offs target out =
     (if target < length (live blk offs)
      then dr_ino_num out = ucast (fst (live blk offs ! target)) \<and>
           take (min 254 (unat (dr_name_len out))) (dr_name out) = take 254 (snd (live blk offs ! target)) \<and>
           unat (dr_name_len out) = length (snd (live blk offs ! target))
      else dr_ino_num out = 0 \<and> dr_name_len out = 0)"

lemma length_de_name [simp]: "length (de_name blk off) = unat (de_name_len blk off)"
  by (simp add: de_name_def)

text \<open>
  Result dentry_read_nth: for a directory whose first block is well formed, \<open>evfs_dentry_read\<close> returns
  without a fault; when it returns 0 after reading the block it reports the inode number and the
  length of the name of the entry in use with the wanted index, with the name up to the byte that it
  always clears at the end of the buffer, or the inode number 0 when there are fewer entries. Every lock
  and reference it takes is given back.
\<close>

theorem dentry_read_nth:
  assumes "chain h (f_dirblk s dir) 0 (walk_limit (f_sb s)) offs" "length (dr_name out) = 255"
  shows "wp (evfs_dentry_read K dir target out) (\<lambda>r s'. \<exists>v out' cs. r = Some (v, out') \<and>
      f_calls s' = f_calls s @ cs \<and> s' = s\<lparr>f_calls := f_calls s @ cs\<rparr> \<and>
      balance (Inode_lock_shared dir) (Inode_unlock_shared dir) cs = 0 \<and>
      (answer K (f_calls s) (Iget dir) \<ge> 0 \<longrightarrow> count_list cs (Iput dir) = 1) \<and>
      (v = 0 \<longrightarrow> read_result (f_dirblk s dir) offs (unat target) out')) s"
proof -
  let ?blk = "f_dirblk s dir" and ?lim = "walk_limit (f_sb s)"
  have walk: "dentry_walk ?blk ?lim (unat target) 0 0 =
      (if unat target < length (live ?blk offs) then Walk_found (in_use ?blk offs ! unat target) else Walk_end ?lim)"
    using dentry_walk_chain [OF assms(1), of 0 "unat target"] by (simp add: live_in_use)
  have room: "\<not> length ?blk < in_use ?blk offs ! unat target + 8 + unat (de_name_len ?blk (in_use ?blk offs ! unat target))"
    "live ?blk offs ! unat target =
       (de_inode ?blk (in_use ?blk offs ! unat target), de_name ?blk (in_use ?blk offs ! unat target))"
    if "unat target < length (live ?blk offs)"
  proof -
    let ?p = "in_use ?blk offs ! unat target"
    have "?p \<in> set (in_use ?blk offs)" using that by (simp add: live_in_use)
    then have "entry_ok h ?blk ?p ?lim" using chain_member [OF assms(1)] by (simp add: in_use_def)
    then show "\<not> length ?blk < ?p + 8 + unat (de_name_len ?blk ?p)"
      using entry_ok_room [of h ?blk ?p ?lim] by (simp add: entry_ok_def)
    show "live ?blk offs ! unat target = (de_inode ?blk ?p, de_name ?blk ?p)"
      using that by (simp add: live_in_use)
  qed
  have res: "read_result ?blk offs (unat target) (read_found ?blk (in_use ?blk offs ! unat target) out)"
    if "unat target < length (live ?blk offs)"
    using that room(2) assms(2)
    by (auto simp: read_result_def read_found_def take_update_swap min_def list_update_beyond)
  show ?thesis
    using walk room(1) res
    by (auto simp: evfs_dentry_read_def wp_fun balance_def read_result_def)
qed

definition demo_out :: de_read_out where
  "demo_out = \<lparr>dr_ino_num = 0, dr_file_type = 0, dr_name_len = 0, dr_name = replicate 255 0\<rparr>"

definition demo_dir_fs :: fs where
  "demo_dir_fs = demo_fs_tracked\<lparr>f_sb := demo_sb\<lparr>s_blocksize := 24\<rparr>, f_dirblk := (\<lambda>_. demo_dir),
     f_inodes := (\<lambda>n. demo_inode\<lparr>i_ino := n, i_nlink := 2, i_mode := (if n = 2 then S_IFDIR else S_IFREG)\<rparr>)\<rparr>"

lemma demo_dir_fs_chain: "chain False (f_dirblk demo_dir_fs 2) 0 (walk_limit (f_sb demo_dir_fs)) [0]"
proof -
  have "walk_limit (f_sb demo_dir_fs) = 24"
    by (simp add: walk_limit_def demo_dir_fs_def demo_sb_def demo_sbi_def demo_es_def EXT4_SB_def
        ext4_has_metadata_csum_def has_feature_defs)
  then show ?thesis using demo_dir_chain(1) by (simp add: demo_dir_fs_def)
qed

theorem dentry_read_nth_witness:
  "wp (evfs_dentry_read demo_kernel 2 0 demo_out) (\<lambda>r s'. \<exists>v out'. r = Some (v, out')) demo_dir_fs"
  using dentry_read_nth [OF demo_dir_fs_chain, of demo_out demo_kernel 0]
  by (auto simp: demo_out_def elim!: wp_mono)

section \<open>Updating entries\<close>

text \<open>
  C34 dentry_update_missing: when the directory has no entry of the index that is to be updated, the
  test that should detect it never fails: the handler raises the link count of the new inode, then
  fails to load the inode of number \<open>-1\<close>, and returns 0, the answer of \<open>ext4_journal_stop\<close>, with the
  directory unchanged and the link count raised.
\<close>

theorem dentry_update_missing:
  assumes "chain h (f_dirblk s dir) 0 (walk_limit (f_sb s)) offs"
    and "length (live (f_dirblk s dir) offs) \<le> unat target"
    and "S_ISDIR (i_mode (f_inodes s dir))" "\<And>cs. answer K cs (Iget (- 1)) < 0"
    and "\<And>cs c. c \<noteq> Iget (- 1) \<Longrightarrow> answer K cs c = demo_answer cs c" "new_ino \<noteq> - 1" "dir \<noteq> - 1"
  shows "wp (evfs_dentry_update K junk dir target new_ino) (\<lambda>r s'. r = Some 0 \<and>
    f_inodes s' new_ino = inc_nlink K (f_inodes s new_ino) \<and> f_dirblk s' = f_dirblk s) s"
proof -
  have walk: "dentry_walk (f_dirblk s dir) (walk_limit (f_sb s)) (unat target) 0 0 = Walk_end (walk_limit (f_sb s))"
    using dentry_walk_chain [OF assms(1), of 0 "unat target"] assms(2) by (simp add: live_in_use)
  show ?thesis
    using assms(3,4,6,7) walk
    by (simp add: evfs_dentry_update_def dentry_update_swap_def evfs_inode_inc_nlink_def wp_fun
        assms(5) demo_answer_def iput_all_def upd_inode_def)
qed

lemma filter_nth_split:
  assumes "k < length (filter P xs)" "filter P xs ! k = p"
  shows "\<exists>us vs. xs = us @ p # vs \<and> length (filter P us) = k \<and> P p"
  using assms
proof (induction xs arbitrary: k)
  case (Cons x xs)
  show ?case
  proof (cases "P x \<and> k = 0")
    case True
    then show ?thesis using Cons.prems by (intro exI [of _ "[]"] exI [of _ xs]) auto
  next
    case False
    define k' where "k' = (if P x then k - 1 else k)"
    have "k' < length (filter P xs)" "filter P xs ! k' = p"
      using Cons.prems False by (auto simp: k'_def split: if_splits)
    from Cons.IH [OF this] obtain us vs where "xs = us @ p # vs" "length (filter P us) = k'" "P p" by blast
    then show ?thesis using False by (intro exI [of _ "x # us"] exI [of _ vs]) (auto simp: k'_def)
  qed
qed simp

lemma put_inode_chain:
  fixes w :: u32
  assumes c: "chain h blk off lim (xs @ p # ys)"
  defines "blk' \<equiv> put p (le32 w) blk"
  shows "chain h blk' off lim (xs @ p # ys)" "live blk' xs = live blk xs" "live blk' ys = live blk ys"
    "de_inode blk' p = w" "de_name blk' p = de_name blk p" "length blk' = length blk"
proof -
  have e: "chain h blk off p xs" "entry_ok h blk p lim" "chain h blk (p + rlen_at blk p) lim ys"
    using c by (simp_all add: chain_split)
  have lim: "lim \<le> length blk" "p + rlen_at blk p \<le> lim" "8 \<le> rlen_at blk p"
    "p + 8 + unat (de_name_len blk p) \<le> length blk"
    using e(2) rlen_ge_8 [OF e(2)] entry_ok_room [OF e(2)] by (simp_all add: entry_ok_def)
  show len: "length blk' = length blk" using lim by (simp add: blk'_def)
  have n: "blk' ! i = blk ! i" if "i < length blk" "i < p \<or> p + 4 \<le> i" for i
    using that lim by (auto simp: blk'_def nth_put)
  show "de_inode blk' p = w"
    using lim get_le32_le32 [of w "[]"] by (simp add: de_inode_def blk'_def nth_put le32_def)
  have f: "de_name_len blk' p = de_name_len blk p" "de_rec_len blk' p = de_rec_len blk p"
    using n lim by (simp_all add: de_name_len_def de_rec_len_def)
  show "de_name blk' p = de_name blk p"
    using n lim f by (auto simp: de_name_def intro!: nth_equalityI)
  have x: "chain h blk' off p xs \<and> live blk' xs = live blk xs"
    by (rule chain_cong) (use n len lim e in auto)
  have y: "chain h blk' (p + rlen_at blk p) lim ys \<and> live blk' ys = live blk ys"
    by (rule chain_cong) (use n len lim e in auto)
  have "entry_ok h blk' p lim" "rlen_at blk' p = rlen_at blk p"
    using e(2) f len by (simp_all add: entry_ok_def rlen_at_16 nlen_at_def)
  then show "chain h blk' off lim (xs @ p # ys)" using x y by (simp add: chain_split)
  show "live blk' xs = live blk xs" "live blk' ys = live blk ys" using x y by auto
qed

lemma get_dirent_tail_put:
  assumes "p + 4 \<le> EXT4_BLOCK_SIZE sb - 12" "block_fits sb blk"
  shows "get_dirent_tail sb (put p (le32 w) blk) = get_dirent_tail sb blk"
proof -
  let ?t = "EXT4_DIRENT_TAIL (EXT4_BLOCK_SIZE sb)"
  have n: "put p (le32 w) blk ! i = blk ! i" if "?t \<le> i" "i < ?t + 12" for i
    using that assms by (auto simp: nth_put EXT4_DIRENT_TAIL_def block_fits_def)
  then have "de_inode (put p (le32 w) blk) ?t = de_inode blk ?t" "rlen_at (put p (le32 w) blk) ?t = rlen_at blk ?t"
    "de_name_len (put p (le32 w) blk) ?t = de_name_len blk ?t" "de_file_type (put p (le32 w) blk) ?t = de_file_type blk ?t"
    by (simp_all add: de_defs rlen_at_16)
  then show ?thesis by (simp add: get_dirent_tail_def Let_def)
qed

lemma csum_verify_seed:
  "i_csum_seed ino' = i_csum_seed ino \<Longrightarrow> ext4_dirblock_csum_verify K sb ino' blk = ext4_dirblock_csum_verify K sb ino blk"
  by (simp add: ext4_dirblock_csum_verify_def ext4_dirblock_csum_def split: option.split)

lemma csum_set_chain:
  assumes "block_fits sb blk" "chain h blk 0 (walk_limit sb) offs"
  shows "chain h (ext4_dirblock_csum_set K sb ino blk) 0 (walk_limit sb) offs \<and>
    live (ext4_dirblock_csum_set K sb ino blk) offs = live blk offs"
proof (rule chain_cong [OF _ _ assms(2)])
  have lim: "walk_limit sb \<le> length blk" "ext4_has_metadata_csum sb \<Longrightarrow> walk_limit sb \<le> length blk - 12"
    using assms(1) by (simp_all add: walk_limit_def block_fits_def EXT4_BLOCK_SIZE_def)
  show "\<forall>i. 0 \<le> i \<and> i < walk_limit sb \<longrightarrow> ext4_dirblock_csum_set K sb ino blk ! i = blk ! i"
  proof (intro allI impI dirblock_csum_set_frame [OF assms(1)])
    fix i
    assume i: "0 \<le> i \<and> i < walk_limit sb"
    then show "i < length blk" using lim(1) by simp
    show "i < length blk - 4" if "ext4_has_metadata_csum sb" using i lim(2) [OF that] by simp
  qed
qed (simp add: length_dirblock_csum_set [OF assms(1)])

lemma dentry_update_run:
  assumes "dentry_walk (f_dirblk s dir) (walk_limit (f_sb s)) (unat target) 0 0 = Walk_found p"
    and "S_ISDIR (i_mode (f_inodes s dir))" "answer K = demo_answer"
    and "new_ino \<noteq> ucast (de_inode (f_dirblk s dir) p)" "dir \<noteq> new_ino" "dir \<noteq> ucast (de_inode (f_dirblk s dir) p)"
    and "i_nlink (drop_nlink K (f_inodes s (ucast (de_inode (f_dirblk s dir) p)))) \<noteq> 0" "p + 8 \<le> length (f_dirblk s dir)"
    and Q: "\<And>s'. f_dirblk s' dir = ext4_dirblock_csum_set K (f_sb s) (f_inodes s dir) (put p (le32 (ucast new_ino)) (f_dirblk s dir)) \<Longrightarrow>
      i_csum_seed (f_inodes s' dir) = i_csum_seed (f_inodes s dir) \<Longrightarrow>
      f_inodes s' new_ino = inc_nlink K (f_inodes s new_ino) \<Longrightarrow>
      f_inodes s' (ucast (de_inode (f_dirblk s dir) p)) = drop_nlink K (f_inodes s (ucast (de_inode (f_dirblk s dir) p))) \<Longrightarrow> Q (Some 0) s'"
  shows "wp (evfs_dentry_update K junk dir target new_ino) Q s"
  using assms(1-8)
  by (simp add: evfs_dentry_update_def dentry_update_swap_def evfs_inode_inc_nlink_def evfs_inode_dec_nlink_def
      wp_fun demo_answer_def iput_all_def upd_inode_def set_mctime_current_def ext4_handle_dirty_dirblock_def)
    (rule Q; simp)

definition update_effect :: "kernel \<Rightarrow> fs \<Rightarrow> u64 \<Rightarrow> bool \<Rightarrow> nat list \<Rightarrow> nat \<Rightarrow> u64 \<Rightarrow> u32 \<Rightarrow> u8 list \<Rightarrow> fs \<Rightarrow> bool" where
  "update_effect K s dir h offs k new_ino old name s' \<longleftrightarrow>
     chain h (f_dirblk s' dir) 0 (walk_limit (f_sb s)) offs \<and>
     live (f_dirblk s' dir) offs = (live (f_dirblk s dir) offs)[k := (ucast new_ino, name)] \<and>
     ext4_dirblock_csum_verify K (f_sb s) (f_inodes s' dir) (f_dirblk s' dir) \<and>
     f_inodes s' new_ino = inc_nlink K (f_inodes s new_ino) \<and>
     f_inodes s' (ucast old) = drop_nlink K (f_inodes s (ucast old))"

text \<open>
  C24 dentry_update_ok: when the entry of the wanted index exists, the calls around succeed and the
  inode that the entry named keeps a link, \<open>evfs_dentry_update\<close> returns 0, the entry names the new
  inode and keeps its name, every other entry is unchanged, one link has moved from the old inode
  to the new one, and the checksum of the block is right when the block has a record for it.
\<close>

theorem dentry_update_ok:
  assumes "chain h (f_dirblk s dir) 0 (walk_limit (f_sb s)) offs"
    and "unat target < length (live (f_dirblk s dir) offs)" "live (f_dirblk s dir) offs ! unat target = (old, name)"
    and "S_ISDIR (i_mode (f_inodes s dir))" "answer K = demo_answer"
    and "(ucast new_ino :: u32) \<noteq> 0" "new_ino \<noteq> ucast old" "dir \<noteq> new_ino" "dir \<noteq> ucast old"
    and "i_nlink (drop_nlink K (f_inodes s (ucast old))) \<noteq> 0"
    and "block_fits (f_sb s) (f_dirblk s dir)"
    and "ext4_has_metadata_csum (f_sb s) \<Longrightarrow> get_dirent_tail (f_sb s) (f_dirblk s dir) \<noteq> None"
  shows "wp (evfs_dentry_update K junk dir target new_ino)
    (\<lambda>r s'. r = Some 0 \<and> update_effect K s dir h offs (unat target) new_ino old name s') s"
proof -
  let ?blk = "f_dirblk s dir" and ?lim = "walk_limit (f_sb s)"
  have t: "unat target < length (in_use ?blk offs)" using assms(2) by (simp add: live_in_use)
  define p where "p = in_use ?blk offs ! unat target"
  obtain xs ys where o: "offs = xs @ p # ys" "length (in_use ?blk xs) = unat target" "de_inode ?blk p \<noteq> 0"
    using filter_nth_split [of "unat target" "\<lambda>p. de_inode ?blk p \<noteq> 0" offs p] t
    by (auto simp: in_use_def p_def)
  have old: "old = de_inode ?blk p" "name = de_name ?blk p"
    using assms(2,3) t by (auto simp: live_in_use p_def)
  have walk: "dentry_walk ?blk ?lim (unat target) 0 0 = Walk_found p"
    using dentry_walk_chain [OF assms(1), of 0 "unat target"] t by (simp add: p_def)
  define new where "new = put p (le32 (ucast new_ino)) ?blk"
  note c = put_inode_chain [OF assms(1) [unfolded o(1)], where w = "ucast new_ino", folded new_def]
  have "length (live ?blk xs) = unat target" using o(2) by (simp add: live_in_use)
  then have l: "live new offs = (live ?blk offs)[unat target := (ucast new_ino, name)]"
    using c(2-5) o(1,3) assms(6) old by (simp add: list_update_append)
  have e: "entry_ok h ?blk p ?lim" using chain_member [OF assms(1), of p] o(1) by simp
  then have room: "p + 8 \<le> length ?blk" "p + 8 \<le> ?lim"
    using rlen_ge_8 [of h ?blk p ?lim] by (simp_all add: entry_ok_def)
  have fits: "block_fits (f_sb s) new" using assms(11) c(6) by (simp add: block_fits_def)
  have tail: "get_dirent_tail (f_sb s) new \<noteq> None" if csum: "ext4_has_metadata_csum (f_sb s)"
    using assms(12) [OF csum] csum room(2) assms(11) get_dirent_tail_put [of p "f_sb s" ?blk "ucast new_ino"]
    by (simp add: walk_limit_def EXT4_BLOCK_SIZE_def new_def)
  note chain' = csum_set_chain [OF fits c(1) [folded o(1)]]
  have fin: "update_effect K s dir h offs (unat target) new_ino old name s'"
    if "f_dirblk s' dir = ext4_dirblock_csum_set K (f_sb s) (f_inodes s dir) new"
      "i_csum_seed (f_inodes s' dir) = i_csum_seed (f_inodes s dir)"
      "f_inodes s' new_ino = inc_nlink K (f_inodes s new_ino)"
      "f_inodes s' (ucast old) = drop_nlink K (f_inodes s (ucast old))" for s'
    using that chain' l dirblock_csum_verifies [OF fits tail, of K "f_inodes s dir"]
      csum_verify_seed [OF that(2), of K "f_sb s"] by (simp add: update_effect_def)
  show ?thesis
    by (rule dentry_update_run [OF walk assms(4,5) assms(7-10) [unfolded old] room(1)]) (use fin in \<open>simp add: old new_def\<close>)
qed

theorem dentry_update_missing_witness:
  "wp (evfs_dentry_update (demo_kernel\<lparr>answer := \<lambda>cs c. if c = Iget (- 1) then - ENOENT else demo_answer cs c\<rparr>) 7 2 5 12)
     (\<lambda>r s'. r = Some 0 \<and> i_nlink (f_inodes s' 12) = 3) demo_dir_fs"
proof -
  have "length (live (f_dirblk demo_dir_fs 2) [0]) \<le> unat (5 :: u32)" by (simp add: live_def)
  then show ?thesis
    using dentry_update_missing [OF demo_dir_fs_chain, of 5
        "demo_kernel\<lparr>answer := \<lambda>cs c. if c = Iget (- 1) then - ENOENT else demo_answer cs c\<rparr>" 12 7]
    by (auto simp: demo_dir_fs_def S_ISDIR_def demo_kernel_def demo_inode_def elim!: wp_mono)
qed

theorem dentry_update_ok_witness:
  "wp (evfs_dentry_update demo_kernel 7 2 0 20)
     (\<lambda>r s'. r = Some 0 \<and> live (f_dirblk s' 2) [0] = [(20, [97])] \<and> i_nlink (f_inodes s' 20) = 3 \<and>
       i_nlink (f_inodes s' 5) = 1) demo_dir_fs"
proof -
  have l: "live (f_dirblk demo_dir_fs 2) [0] = [(5, [97])]"
    using demo_dir_chain by (simp add: live_def demo_dir_fs_def)
  have k: "answer demo_kernel = demo_answer" "S_ISDIR (i_mode (f_inodes demo_dir_fs 2))"
    "i_nlink (drop_nlink demo_kernel (f_inodes demo_dir_fs 5)) = 1" "i_nlink (inc_nlink demo_kernel (f_inodes demo_dir_fs 20)) = 3"
    by (simp_all add: demo_kernel_def demo_dir_fs_def S_ISDIR_def)
  have f: "block_fits (f_sb demo_dir_fs) (f_dirblk demo_dir_fs 2)" "\<not> ext4_has_metadata_csum (f_sb demo_dir_fs)"
    using demo_dir_chain(4)
    by (simp_all add: block_fits_def demo_dir_fs_def EXT4_BLOCK_SIZE_def demo_sb_def demo_sbi_def demo_es_def EXT4_SB_def
        ext4_has_metadata_csum_def has_feature_defs)
  have "wp (evfs_dentry_update demo_kernel 7 2 0 20)
    (\<lambda>r s'. r = Some 0 \<and> update_effect demo_kernel demo_dir_fs 2 False [0] (unat (0 :: u32)) 20 5 [97] s') demo_dir_fs"
    by (rule dentry_update_ok [OF demo_dir_fs_chain]) (use l k f in simp_all)
  then show ?thesis by (rule wp_mono) (use l k in \<open>simp add: update_effect_def\<close>)
qed

section \<open>Locks\<close>

text \<open>The calls that take and release no inode lock, and the helpers that make no others.\<close>

definition no_locks :: "kcall set" where
  "no_locks = - (range Inode_lock \<union> range Inode_unlock)"

lemma no_locks_mem [simp]: "c \<in> no_locks \<longleftrightarrow> (\<forall>n. c \<noteq> Inode_lock n \<and> c \<noteq> Inode_unlock n)"
  by (auto simp: no_locks_def)

lemma no_locks_balance [simp]: "set cs \<subseteq> no_locks \<Longrightarrow> balance (Inode_lock n) (Inode_unlock n) cs = 0"
  by (rule balance_outside(1)) auto

lemma quiet_untrack: "stays (calls_rel no_locks) (evfs_inode_untrack_nolock K n)"
  unfolding evfs_inode_untrack_nolock_def tracker_op_def by (intro stays_intros) simp_all

lemma quiet_unlink: "stays (calls_rel no_locks) (ext4_unlink_entry K dir name ino)"
  unfolding ext4_unlink_entry_def set_mctime_current_def set_ctime_current_def
  by (intro stays_intros) simp_all

lemma quiet_link_once: "stays (calls_rel no_locks) (ext4_link_once K dir ino name)"
  unfolding ext4_link_once_def set_ctime_current_def by (intro stays_intros) simp_all

text \<open>The retry loop stays in every relation in which its body stays.\<close>

context fs_closed
begin

lemma link_retry_stays:
  assumes "ext4_link_retry K dir ino name s = Some p"
    and once: "\<And>K dir ino name s r s'. run_state (ext4_link_once K dir ino name) s = (r, s') \<Longrightarrow> R s s'"
    and again: "\<And>s. R s (s\<lparr>f_calls := f_calls s @ [Should_retry_alloc]\<rparr>)"
  shows "R s (snd p)"
  using assms(1)
proof (rule ext4_link_retry.raw_induct [where P = "\<lambda>_ _ _ _ s p. R s (snd p)", rotated])
  fix rec K dir ino name s and p :: "int \<times> fs"
  assume IH: "\<And>(K :: kernel) (dir :: u64) (ino :: u64) (name :: u8 list) s p. rec K dir ino name s = Some p \<Longrightarrow> R s (snd p)"
    and step: "(case run_state (ext4_link_once K dir ino name) s of ((err, started), s) \<Rightarrow>
        if started \<and> err = - ENOSPC then
          (case run_state (call K Should_retry_alloc) s of (again, s) \<Rightarrow>
             if again \<noteq> 0 then rec K dir ino name s else Some (err, s))
        else Some (err, s)) = Some p"
  obtain e st s1 where r: "run_state (ext4_link_once K dir ino name) s = ((e, st), s1)" by (metis surj_pair)
  note s1 = once [OF r]
  have s2: "R s (s1\<lparr>f_calls := f_calls s1 @ [Should_retry_alloc]\<rparr>)" using trans [OF s1 again] .
  show "R s (snd p)"
  proof (cases "st \<and> e = - ENOSPC \<and> answer K (f_calls s1) Should_retry_alloc \<noteq> 0")
    case True
    then have "rec K dir ino name (s1\<lparr>f_calls := f_calls s1 @ [Should_retry_alloc]\<rparr>) = Some p"
      using step r by (simp add: call_def)
    from IH [OF this] show ?thesis using trans [OF s2] by blast
  next
    case False
    then show ?thesis using step r s1 s2 by (auto simp: call_def split: if_splits)
  qed
qed

lemma link_stays:
  assumes "\<And>K dir ino name s r s'. run_state (ext4_link_once K dir ino name) s = (r, s') \<Longrightarrow> R s s'"
    and "\<And>s. R s (s\<lparr>f_calls := f_calls s @ [Should_retry_alloc]\<rparr>)"
  shows "stays R (ext4_link_internal K dir ino name)"
  using link_retry_stays [OF _ assms] by (auto simp: stays_def ext4_link_internal_def wp_def refl split: option.splits)

end

lemma quiet_link: "stays (calls_rel no_locks) (ext4_link_internal K dir ino name)"
  by (rule calling.link_stays, erule staysD [OF quiet_link_once]) (simp add: calls_rel_def)

lemma quiet_add_locked: "stays (calls_rel no_locks) (dentry_add_locked K dir child name)"
  unfolding dentry_add_locked_def by (intro stays_intros quiet_link) simp_all

text \<open>
  C28 dentry_add_locks: on every path on which \<open>evfs_dentry_add\<close> returns, it has released each inode
  lock exactly as often as it has taken it.
\<close>

theorem dentry_add_locks:
  "wp (evfs_dentry_add K parent_ino child_ino name) (\<lambda>r s'. r = None \<or>
     (\<exists>cs. f_calls s' = f_calls s @ cs \<and> (\<forall>n. balance (Inode_lock n) (Inode_unlock n) cs = 0))) s"
  unfolding evfs_dentry_add_def
  by (auto simp: wp_fun balance_append balance_Cons intro!: calls_in_rule [OF quiet_add_locked])
    (auto simp: balance_append balance_Cons split: option.splits)

lemma delete_child_locks:
  "wp (dentry_delete_child K dir child name) (\<lambda>r s'. r = None \<or>
     (\<exists>cs. f_calls s' = f_calls s @ cs \<and> (\<forall>n. balance (Inode_lock n) (Inode_unlock n) cs = 0))) s"
  unfolding dentry_delete_child_def
  by (auto simp: wp_fun intro!: calls_in_rule [OF quiet_untrack] calls_in_rule [OF quiet_unlink] split: option.splits)
    (auto simp: balance_append balance_Cons)

text \<open>
  C33 dentry_delete_locks: \<open>evfs_dentry_delete\<close> releases the lock of the directory only when it gives up
  before it holds a reference to its dentry: in every call that finds the directory and its dentry,
  successful calls included, it returns with the lock of the directory held, so that the next operation
  on this directory waits for ever.
\<close>

theorem dentry_delete_locks:
  "wp (evfs_dentry_delete K dir name) (\<lambda>r s'. r = None \<or>
     (\<exists>cs. f_calls s' = f_calls s @ cs \<and> balance (Inode_lock dir) (Inode_unlock dir) cs =
        of_bool (answer K (f_calls s) (Iget dir) \<ge> 0 \<and> S_ISDIR (i_mode (f_inodes s dir)) \<and>
          answer K (f_calls s @ [Iget dir, Inode_lock dir]) (D_find_any_alias dir) \<noteq> 0))) s"
  unfolding evfs_dentry_delete_def
  by (auto simp: wp_fun balance_append balance_Cons intro!: wp_mono [OF delete_child_locks])
    (auto simp: balance_append balance_Cons split: option.splits)

section \<open>Link counts\<close>

text \<open>What the VFS does to a link count, where it does not warn.\<close>

definition nlink_laws :: "kernel \<Rightarrow> bool" where
  "nlink_laws K = ((\<forall>i. inc_nlink K i = i\<lparr>i_nlink := i_nlink i + 1\<rparr>) \<and>
     (\<forall>i. drop_nlink K i = i\<lparr>i_nlink := i_nlink i - 1\<rparr>))"

definition plain_links :: "fs \<Rightarrow> u64 \<Rightarrow> bool" where
  "plain_links s ino = (\<not> is_dx (f_sb s) (f_inodes s ino))"

definition link_effect :: "fs \<Rightarrow> u64 \<Rightarrow> int \<Rightarrow> fs \<Rightarrow> bool" where
  "link_effect s ino err s' \<longleftrightarrow> plain_links s' ino \<and> f_tracker s' = f_tracker s \<and> f_ibitmap s' = f_ibitmap s \<and>
     (\<forall>n. i_mode (f_inodes s' n) = i_mode (f_inodes s n)) \<and>
     i_nlink (f_inodes s' ino) = i_nlink (f_inodes s ino) + of_bool (err = 0)"

lemma link_once_effect:
  assumes "nlink_laws K" "\<And>cs. answer K cs (Mark_inode_dirty ino) = 0" "plain_links s ino"
  shows "wp (ext4_link_once K dir ino name) (\<lambda>(err, _) s'. link_effect s ino err s') s"
  using assms unfolding ext4_link_once_def set_ctime_current_def
  by (auto simp: wp_fun nlink_laws_def plain_links_def link_effect_def ext4_inc_count_def is_dx_def Let_def upd_inode_def)

lemma link_retry_effect:
  assumes "ext4_link_retry K dir ino name s = Some p"
  shows "nlink_laws K \<longrightarrow> (\<forall>cs. answer K cs (Mark_inode_dirty ino) = 0) \<longrightarrow> plain_links s ino \<longrightarrow>
    link_effect s ino (fst p) (snd p)"
  using assms
proof (rule ext4_link_retry.raw_induct [where P = "\<lambda>K _ ino _ s p. nlink_laws K \<longrightarrow>
    (\<forall>cs. answer K cs (Mark_inode_dirty ino) = 0) \<longrightarrow> plain_links s ino \<longrightarrow> link_effect s ino (fst p) (snd p)", rotated],
    intro impI)
  fix rec K dir ino name s p
  assume IH: "\<And>(K :: kernel) (dir :: u64) (ino :: u64) (name :: u8 list) s p. rec K dir ino name s = Some p \<Longrightarrow>
      nlink_laws K \<longrightarrow> (\<forall>cs. answer K cs (Mark_inode_dirty ino) = 0) \<longrightarrow> plain_links s ino \<longrightarrow>
      link_effect s ino (fst p) (snd p)"
    and step: "(case run_state (ext4_link_once K dir ino name) s of ((err, started), s) \<Rightarrow>
        if started \<and> err = - ENOSPC then
          (case run_state (call K Should_retry_alloc) s of (again, s) \<Rightarrow>
             if again \<noteq> 0 then rec K dir ino name s else Some (err, s))
        else Some (err, s)) = Some p"
    and h: "nlink_laws K" "\<forall>cs. answer K cs (Mark_inode_dirty ino) = 0" "plain_links s ino"
  obtain e st s1 where r: "run_state (ext4_link_once K dir ino name) s = ((e, st), s1)"
    by (metis surj_pair)
  have once: "link_effect s ino e s1"
    using wpD [OF link_once_effect [OF h(1) _ h(3)] r] h(2) by simp
  show "link_effect s ino (fst p) (snd p)"
  proof (cases "st \<and> e = - ENOSPC \<and> answer K (f_calls s1) Should_retry_alloc \<noteq> 0")
    case True
    then have "rec K dir ino name (s1\<lparr>f_calls := f_calls s1 @ [Should_retry_alloc]\<rparr>) = Some p"
      using step r by (simp add: call_def)
    from IH [OF this] show ?thesis using once h True by (simp add: link_effect_def plain_links_def)
  next
    case False
    then show ?thesis using step r once by (auto simp: call_def link_effect_def plain_links_def split: if_splits)
  qed
qed

lemma link_internal_rule:
  assumes "nlink_laws K" "\<And>cs. answer K cs (Mark_inode_dirty ino) = 0" "plain_links s ino"
    and "\<And>err s'. link_effect s ino err s' \<Longrightarrow> Q (Some err) s'" "Q None s"
  shows "wp (ext4_link_internal K dir ino name) Q s"
  using assms link_retry_effect [of K dir ino name s]
  by (auto simp: ext4_link_internal_def wp_def split: option.splits)

lemma link_effect_frame [simp]:
  "link_effect (s\<lparr>f_calls := cs\<rparr>) ino err s' = link_effect s ino err s'"
  "link_effect s ino err (s'\<lparr>f_calls := cs\<rparr>) = link_effect s ino err s'"
  "plain_links (s\<lparr>f_calls := cs\<rparr>) ino = plain_links s ino"
  by (simp_all add: link_effect_def plain_links_def)

lemma link_effect_none: "plain_links s ino \<Longrightarrow> err \<noteq> 0 \<Longrightarrow> link_effect s ino err s"
  by (simp add: link_effect_def)

lemma dentry_add_effect:
  assumes "nlink_laws K" "\<And>cs. answer K cs (Mark_inode_dirty child) = 0" "plain_links s child"
  shows "wp (evfs_dentry_add K parent child name)
    (\<lambda>r s'. r = None \<or> (\<exists>err. r = Some err \<and> link_effect s child err s')) s"
  using assms unfolding evfs_dentry_add_def dentry_add_locked_def
  by (auto simp: wp_fun link_effect_none intro!: link_internal_rule [OF assms(1)])

text \<open>
  Result dentry_add_links: a call of \<open>evfs_dentry_add\<close> that returns raises the link count of the child by
  one when it returns 0 and leaves it as it was when it returns an error, whatever the journal, the
  quotas, the dentry cache and the block allocator answer and however often the link is retried; the
  limit \<open>EXT4_LINK_MAX\<close> is not consulted. (The inode of the child is assumed to be written without
  error, and not to be a hashed directory, whose count saturates.)
\<close>

theorem dentry_add_links:
  assumes "nlink_laws K" "\<And>cs. answer K cs (Mark_inode_dirty child) = 0" "plain_links s child"
  shows "wp (evfs_dentry_add K parent child name)
    (\<lambda>r s'. r = None \<or> (\<exists>err. r = Some err \<and> link_effect s child err s')) s"
  using assms by (rule dentry_add_effect)

theorem dentry_add_links_witness:
  "wp (evfs_dentry_add demo_kernel 2 12 [98, 0])
    (\<lambda>r s'. r = None \<or> (\<exists>err. r = Some err \<and> link_effect demo_dir_fs 12 err s')) demo_dir_fs"
  by (rule dentry_add_links)
    (simp_all add: nlink_laws_def demo_kernel_def demo_answer_def plain_links_def is_dx_def demo_dir_fs_def demo_inode_def)

text \<open>When the calls around it succeed, the entry is added.\<close>

lemma link_internal_succeeds:
  assumes "answer K = demo_answer"
  shows "wp (ext4_link_internal K parent child nm) (\<lambda>r s'. r = Some 0 \<and> Add_entry parent nm child \<in> set (f_calls s')) s"
proof -
  have "ext4_link_retry K parent child nm s =
      Some (0, snd (run_state (ext4_link_once K parent child nm) s)) \<and>
      Add_entry parent nm child \<in> set (f_calls (snd (run_state (ext4_link_once K parent child nm) s)))"
    by (subst ext4_link_retry.simps)
      (auto simp: ext4_link_once_def run_state_bind_eq call_def assms demo_answer_def void_call_def
        set_ctime_current_def)
  then show ?thesis by (simp add: ext4_link_internal_def wp_def)
qed

lemma dentry_add_succeeds:
  assumes "answer K = demo_answer" "S_ISDIR (i_mode (f_inodes s parent))" "0 < strlen name" "strlen name \<le> 255"
  shows "wp (evfs_dentry_add K parent child name) (\<lambda>r s'. r = Some 0 \<and>
     Add_entry parent (take (strlen name) name) child \<in> set (f_calls s')) s"
  using assms unfolding evfs_dentry_add_def dentry_add_locked_def
  by (auto simp: wp_fun demo_answer_def intro!: wp_mono [OF link_internal_succeeds [OF assms(1)]])

section \<open>Unlinking\<close>

lemma unat_ucast_u64: "unat (ucast (n :: u32) :: u64) = unat n"
  by (simp add: unsigned_ucast_eq take_bit_nat_eq_self less_trans [OF unsigned_less])

definition unlink_effect :: "fs \<Rightarrow> evfs_bm_tracker \<Rightarrow> u64 \<Rightarrow> fs \<Rightarrow> bool" where
  "unlink_effect s t ino s' \<longleftrightarrow> f_ibitmap s' = f_ibitmap s \<and>
     (\<exists>t'. live_tracker s' t' \<and> in_range t' = in_range t \<and> tracked t' = (tracked t)(unat ino := False)) \<and>
     (i_nlink (f_inodes s ino) \<noteq> 0 \<longrightarrow> i_nlink (f_inodes s' ino) = i_nlink (f_inodes s ino) - 1)"

lemma unlink_effect_frame [simp]:
  "unlink_effect (s\<lparr>f_calls := cs\<rparr>) t ino s' = unlink_effect s t ino s'"
  "unlink_effect s t ino (s'\<lparr>f_calls := cs\<rparr>) = unlink_effect s t ino s'"
  by (simp_all add: unlink_effect_def)

lemma unlink_entry_effect:
  assumes "nlink_laws K"
  shows "wp (ext4_unlink_entry K dir name ino) (\<lambda>r s'. r = 0 \<longrightarrow> f_ibitmap s' = f_ibitmap s \<and>
    f_tracker s' = f_tracker s \<and> (i_nlink (f_inodes s ino) \<noteq> 0 \<longrightarrow> i_nlink (f_inodes s' ino) = i_nlink (f_inodes s ino) - 1)) s"
  using assms unfolding ext4_unlink_entry_def set_mctime_current_def set_ctime_current_def
  by (auto simp: wp_fun nlink_laws_def upd_inode_def)

lemma delete_child_effect:
  assumes "kzalloc_ok K" "nlink_laws K" "live_tracker s t" "in_range t (unat child)"
  shows "wp (dentry_delete_child K dir child name) (\<lambda>r s'. r \<noteq> None \<and> (r = Some 0 \<longrightarrow> unlink_effect s t child s')) s"
  using assms(3) unfolding dentry_delete_child_def
  by (auto simp: wp_fun intro!: untrack_nolock_rule [OF assms(1) _ assms(4)] wp_mono [OF unlink_entry_effect [OF assms(2)]])
    (auto simp: unlink_effect_def live_tracker_def)

lemma dentry_delete_effect:
  assumes "kzalloc_ok K" "nlink_laws K" "live_tracker s t" "\<And>cs. entry_inode K cs = n" "in_range t (unat n)"
  shows "wp (evfs_dentry_delete K dir name) (\<lambda>r s'. r \<noteq> None \<and> (r = Some 0 \<longrightarrow> unlink_effect s t (ucast n) s')) s"
proof -
  have n: "in_range t (unat (ucast n :: u64))" using assms(5) by (simp add: unat_ucast_u64)
  show ?thesis
    using assms(3,4) unfolding evfs_dentry_delete_def
    by (auto simp: wp_fun intro!: wp_mono [OF delete_child_effect [OF assms(1,2) _ n]])
qed

text \<open>
  C29 dentry_delete_untracks: \<open>evfs_dentry_delete\<close> returns, and when it returns 0 the inode that the
  entry named has lost one link and is no longer tracked, however many links it still has; its bit in
  the inode bitmap is not touched.
\<close>

theorem dentry_delete_untracks:
  assumes "kzalloc_ok K" "nlink_laws K" "live_tracker s t" "\<And>cs. entry_inode K cs = n" "in_range t (unat n)"
  shows "wp (evfs_dentry_delete K dir name) (\<lambda>r s'. r \<noteq> None \<and> (r = Some 0 \<longrightarrow> unlink_effect s t (ucast n) s')) s"
  using assms by (rule dentry_delete_effect)

theorem dentry_delete_untracks_witness:
  "wp (evfs_dentry_delete demo_kernel 2 [97, 0]) (\<lambda>r s'. r \<noteq> None \<and>
     (r = Some 0 \<longrightarrow> unlink_effect demo_dir_fs demo_tracker 12 s')) demo_dir_fs"
proof -
  have "live_tracker demo_dir_fs demo_tracker"
    using demo_tracker_laws(2) by (simp add: demo_dir_fs_def live_tracker_def)
  then show ?thesis
    using dentry_delete_untracks [OF demo_tracker_laws(1), of demo_dir_fs demo_tracker 12 2 "[97, 0]"] demo_tracker_laws(3)
    by (simp add: nlink_laws_def demo_kernel_def)
qed

end
