(* ===== verification/Ext4_Extent.thy ===== *)
theory Ext4_Extent
  imports Evfs_State
begin

unbundle bit_operations_syntax

text \<open>
  The extent tree of \<open>fs/ext4/extents.c\<close>: validation of a node, the binary searches and the walk from the
  root to a leaf, the search for neighbours, merging, insertion and splitting. The accessors, constants
  and sizes of \<open>ext4_extents.h\<close>, which is not part of the repository, are the parameter \<open>ext_ops\<close> with the
  laws \<open>ext_laws\<close>; \<open>block_valid\<close> is \<open>ext4_inode_block_valid\<close>. A node is its header with the entries in use,
  a pointer to an entry is its position.
\<close>

section \<open>Extents and nodes\<close>

record ext4_extent_idx =
  ei_block :: ext4_lblk_t
  ei_pblock :: u64

record ext_node =
  eh_magic :: u16
  eh_max :: u16
  eh_depth :: u16
  eh_exts :: "ext4_extent list"
  eh_idxs :: "ext4_extent_idx list"

definition eh_entries :: "ext_node \<Rightarrow> nat" where
  "eh_entries eh = (if eh_depth eh = 0 then length (eh_exts eh) else length (eh_idxs eh))"

record ext_ops =
  actual_len :: "u16 \<Rightarrow> nat"
  is_unwritten :: "u16 \<Rightarrow> bool"
  mark_unwritten :: "u16 \<Rightarrow> u16"
  mark_initialized :: "u16 \<Rightarrow> u16"
  EXT_INIT_MAX_LEN :: nat
  EXT_UNWRITTEN_MAX_LEN :: nat
  EXT_MAX_BLOCKS :: u32
  EXT4_EXT_MAGIC :: u16
  EXT4_MAX_EXTENT_DEPTH :: nat
  sizeof_header :: nat
  sizeof_extent :: nat
  sizeof_idx :: nat
  sizeof_i_data :: nat
  block_valid :: "u64 \<Rightarrow> nat \<Rightarrow> bool"

text \<open>
  What the header promises of the length field: a length up to \<open>EXT_INIT_MAX_LEN\<close> is stored as it is and
  is that of an initialised extent, a length below it can be marked unwritten, and every stored value
  is one or the other.
\<close>

definition ext_laws :: "ext_ops \<Rightarrow> bool" where
  "ext_laws X \<longleftrightarrow> EXT_INIT_MAX_LEN X = 32768 \<and> EXT_UNWRITTEN_MAX_LEN X = 32767 \<and> EXT_MAX_BLOCKS X = 0xffffffff \<and>
     (\<forall>n. 0 < n \<and> n \<le> 32768 \<longrightarrow> \<not> is_unwritten X (of_nat n) \<and> actual_len X (of_nat n) = n) \<and>
     (\<forall>n. 0 < n \<and> n \<le> 32767 \<longrightarrow> is_unwritten X (mark_unwritten X (of_nat n)) \<and>
        actual_len X (mark_unwritten X (of_nat n)) = n) \<and>
     (\<forall>w. 0 < actual_len X w \<longrightarrow> (if is_unwritten X w then actual_len X w \<le> 32767 \<and> w = mark_unwritten X (of_nat (actual_len X w))
        else actual_len X w \<le> 32768 \<and> w = of_nat (actual_len X w)))"

abbreviation ext4_ext_get_actual_len :: "ext_ops \<Rightarrow> ext4_extent \<Rightarrow> nat" where
  "ext4_ext_get_actual_len X e \<equiv> actual_len X (ee_len e)"

abbreviation ext4_ext_is_unwritten :: "ext_ops \<Rightarrow> ext4_extent \<Rightarrow> bool" where
  "ext4_ext_is_unwritten X e \<equiv> is_unwritten X (ee_len e)"

section \<open>Validation of a node\<close>

definition ext4_ext_space_block :: "ext_ops \<Rightarrow> super_block \<Rightarrow> nat" where
  "ext4_ext_space_block X sb = (unat (s_blocksize sb) - sizeof_header X) div sizeof_extent X"

definition ext4_ext_space_block_idx :: "ext_ops \<Rightarrow> super_block \<Rightarrow> nat" where
  "ext4_ext_space_block_idx X sb = (unat (s_blocksize sb) - sizeof_header X) div sizeof_idx X"

definition ext4_ext_space_root :: "ext_ops \<Rightarrow> nat" where
  "ext4_ext_space_root X = (sizeof_i_data X - sizeof_header X) div sizeof_extent X"

definition ext4_ext_space_root_idx :: "ext_ops \<Rightarrow> nat" where
  "ext4_ext_space_root_idx X = (sizeof_i_data X - sizeof_header X) div sizeof_idx X"

definition ext4_ext_max_entries :: "ext_ops \<Rightarrow> super_block \<Rightarrow> nat \<Rightarrow> nat \<Rightarrow> nat" where
  "ext4_ext_max_entries X sb ext_depth depth =
     (if depth = ext_depth then
        (if depth = 0 then ext4_ext_space_root X else ext4_ext_space_root_idx X)
      else
        (if depth = 0 then ext4_ext_space_block X sb else ext4_ext_space_block_idx X sb))"

definition ext4_valid_extent :: "ext_ops \<Rightarrow> ext4_extent \<Rightarrow> bool" where
  "ext4_valid_extent X e =
     (let len = ext4_ext_get_actual_len X e
      in if ee_block e + of_nat len \<le> ee_block e then False else block_valid X (ee_pblock e) len)"

definition ext4_valid_extent_idx :: "ext_ops \<Rightarrow> ext4_extent_idx \<Rightarrow> bool" where
  "ext4_valid_extent_idx X ix = block_valid X (ei_pblock ix) 1"

text \<open>The two loops of \<open>ext4_valid_extent_entries\<close>; \<open>cur\<close> is where the entry before ends.\<close>

fun valid_exts :: "ext_ops \<Rightarrow> u32 \<Rightarrow> ext4_extent list \<Rightarrow> bool" where
  "valid_exts X cur [] = True"
| "valid_exts X cur (e # es) =
     (if \<not> ext4_valid_extent X e then False
      else if ee_block e < cur then False
      else valid_exts X (ee_block e + of_nat (ext4_ext_get_actual_len X e)) es)"

fun valid_idxs :: "ext_ops \<Rightarrow> u32 \<Rightarrow> ext4_extent_idx list \<Rightarrow> bool" where
  "valid_idxs X cur [] = True"
| "valid_idxs X cur (i # is) =
     (if \<not> ext4_valid_extent_idx X i then False
      else if ei_block i < cur then False
      else valid_idxs X (ei_block i + 1) is)"

definition ext4_valid_extent_entries :: "ext_ops \<Rightarrow> nat \<Rightarrow> ext_node \<Rightarrow> u32 \<Rightarrow> nat \<Rightarrow> bool" where
  "ext4_valid_extent_entries X ext_depth eh lblk depth =
     (if eh_entries eh = 0 then True
      else if depth = 0 then
        (if depth \<noteq> ext_depth \<and> lblk \<noteq> ee_block (hd (eh_exts eh)) then False else valid_exts X 0 (eh_exts eh))
      else
        (if depth \<noteq> ext_depth \<and> lblk \<noteq> ei_block (hd (eh_idxs eh)) then False else valid_idxs X 0 (eh_idxs eh)))"

text \<open>\<open>__ext4_ext_check\<close>; \<open>csum_ok\<close> is what \<open>ext4_extent_block_csum_verify\<close> says of the block.\<close>

definition ext4_ext_check :: "ext_ops \<Rightarrow> super_block \<Rightarrow> nat \<Rightarrow> bool \<Rightarrow> ext_node \<Rightarrow> nat \<Rightarrow> u32 \<Rightarrow> int" where
  "ext4_ext_check X sb ext_depth csum_ok eh depth lblk =
     (if eh_magic eh \<noteq> EXT4_EXT_MAGIC X then - EUCLEAN
      else if unat (eh_depth eh) \<noteq> depth then - EUCLEAN
      else if eh_max eh = 0 then - EUCLEAN
      else if unat (eh_max eh) > ext4_ext_max_entries X sb ext_depth depth then - EUCLEAN
      else if eh_entries eh > unat (eh_max eh) then - EUCLEAN
      else if eh_entries eh = 0 \<and> depth > 0 then - EUCLEAN
      else if \<not> ext4_valid_extent_entries X ext_depth eh lblk depth then - EUCLEAN
      else if depth > 32 then - EUCLEAN
      else if ext_depth \<noteq> depth \<and> \<not> csum_ok then - EBADMSG
      else 0)"

section \<open>What a valid node is\<close>

text \<open>The first block of an extent and the one after its last, as numbers that do not wrap.\<close>

definition ext_start :: "ext4_extent \<Rightarrow> nat" where
  "ext_start e = unat (ee_block e)"

definition ext_end :: "ext_ops \<Rightarrow> ext4_extent \<Rightarrow> nat" where
  "ext_end X e = unat (ee_block e) + ext4_ext_get_actual_len X e"

definition ext_ok :: "ext_ops \<Rightarrow> ext4_extent \<Rightarrow> bool" where
  "ext_ok X e = (0 < ext4_ext_get_actual_len X e \<and> ext_end X e < 2 ^ 32)"

definition exts_ok :: "ext_ops \<Rightarrow> ext4_extent list \<Rightarrow> bool" where
  "exts_ok X es = ((\<forall>e \<in> set es. ext_ok X e) \<and> sorted_wrt (\<lambda>a b. ext_end X a \<le> ext_start b) es)"

lemma exts_ok_simps [simp]:
  "exts_ok X []" "exts_ok X (e # es) = (ext_ok X e \<and> (\<forall>f \<in> set es. ext_end X e \<le> ext_start f) \<and> exts_ok X es)"
  by (auto simp: exts_ok_def)

lemma exts_ok_append:
  "exts_ok X (es @ fs) = (exts_ok X es \<and> exts_ok X fs \<and> (\<forall>e \<in> set es. \<forall>f \<in> set fs. ext_end X e \<le> ext_start f))"
  by (auto simp: exts_ok_def sorted_wrt_append)

lemma actual_len_bound: "ext_laws X \<Longrightarrow> actual_len X w \<le> 32768"
  by (cases "0 < actual_len X w") (auto simp: ext_laws_def split: if_splits dest!: spec [of _ w])

lemma no_wrap:
  fixes b :: u32
  assumes "\<not> b + of_nat len \<le> b" "len \<le> 32768"
  shows "0 < len" "unat b + len < 2 ^ 32" "unat (b + of_nat len) = unat b + len"
proof -
  have l: "unat (of_nat len :: u32) = len" using assms(2) by (simp add: unsigned_of_nat take_bit_nat_eq_self)
  show p: "0 < len" using assms(1) by (cases len) auto
  have "unat (b + of_nat len) = (unat b + len) mod 2 ^ 32" by (simp add: unat_word_ariths l)
  moreover have "unat b < unat (b + of_nat len)" using assms(1) by (simp add: word_le_nat_alt)
  ultimately show lt: "unat b + len < 2 ^ 32"
    using assms(2) unsigned_less [of b, where 'a = nat] by (simp add: not_less mod_if split: if_splits)
  show "unat (b + of_nat len) = unat b + len" using lt by (simp add: unat_word_ariths l)
qed

lemma valid_exts_ok:
  assumes "ext_laws X" "valid_exts X cur es"
  shows "exts_ok X es \<and> (\<forall>e \<in> set es. unat cur \<le> ext_start e)"
  using assms(2)
proof (induction es arbitrary: cur)
  case (Cons e es)
  let ?l = "ext4_ext_get_actual_len X e"
  have v: "\<not> ee_block e + of_nat ?l \<le> ee_block e" "cur \<le> ee_block e" "valid_exts X (ee_block e + of_nat ?l) es"
    using Cons.prems by (auto simp: ext4_valid_extent_def Let_def split: if_splits)
  note w = no_wrap [OF v(1) actual_len_bound [OF assms(1)]]
  note IH = Cons.IH [OF v(3)]
  have c: "unat cur \<le> ext_start e" using v(2) by (simp add: ext_start_def word_le_nat_alt)
  show ?case using IH w c by (fastforce simp: ext_ok_def ext_end_def ext_start_def)
qed simp

lemma u32_plus_one: "(x :: u32) \<noteq> 0xffffffff \<Longrightarrow> unat (x + 1) = Suc (unat x)"
proof -
  assume "x \<noteq> 0xffffffff"
  then have "unat x \<noteq> 4294967295" by (auto simp: word_unat_eq_iff)
  moreover have "unat x < 4294967296" using unsigned_less [of x, where 'a = nat] by simp
  ultimately show ?thesis by (simp add: unat_word_ariths mod_if)
qed

lemma valid_idxs_ok:
  assumes "valid_idxs X cur is" "\<forall>i \<in> set is. ei_block i \<noteq> 0xffffffff"
  shows "sorted_wrt (<) (map ei_block is) \<and> (\<forall>i \<in> set is. cur \<le> ei_block i)"
  using assms
proof (induction "is" arbitrary: cur)
  case (Cons i "is")
  have v: "cur \<le> ei_block i" "valid_idxs X (ei_block i + 1) is"
    using Cons.prems by (auto split: if_splits)
  have "ei_block i < ei_block i + 1" using Cons.prems(2) by (simp add: word_less_nat_alt u32_plus_one)
  then show ?case using Cons.IH [OF v(2)] Cons.prems(2) v(1) by fastforce
qed simp

text \<open>
  C21 ext_check_sound: a node that \<open>__ext4_ext_check\<close> accepts has at most as many entries as its header says
  and as fit in it, an index node is not empty, the extents of a leaf are not empty, do not wrap and
  follow one another without overlap, and the first entry of a node below the root has the logical block that its parent names;
  the entries of an index node are strictly increasing, unless one has the block number \<open>0xffffffff\<close>.
\<close>

theorem ext_check_sound:
  assumes "ext_laws X" "ext4_ext_check X sb ext_depth csum_ok eh depth lblk = 0"
  shows "eh_entries eh \<le> unat (eh_max eh) \<and> unat (eh_max eh) \<le> ext4_ext_max_entries X sb ext_depth depth \<and>
    unat (eh_depth eh) = depth \<and>
    (depth = 0 \<longrightarrow> exts_ok X (eh_exts eh) \<and> (ext_depth \<noteq> 0 \<and> eh_exts eh \<noteq> [] \<longrightarrow> ee_block (hd (eh_exts eh)) = lblk)) \<and>
    (depth > 0 \<longrightarrow> eh_idxs eh \<noteq> [] \<and> (depth \<noteq> ext_depth \<longrightarrow> ei_block (hd (eh_idxs eh)) = lblk) \<and>
      ((\<forall>i \<in> set (eh_idxs eh). ei_block i \<noteq> 0xffffffff) \<longrightarrow> sorted_wrt (<) (map ei_block (eh_idxs eh))))"
proof -
  have c: "unat (eh_depth eh) = depth" "unat (eh_max eh) \<le> ext4_ext_max_entries X sb ext_depth depth"
    "eh_entries eh \<le> unat (eh_max eh)" "depth > 0 \<Longrightarrow> eh_entries eh \<noteq> 0"
    "ext4_valid_extent_entries X ext_depth eh lblk depth"
    using assms(2) by (auto simp: ext4_ext_check_def split: if_splits)
  have leaf: "exts_ok X (eh_exts eh) \<and> (ext_depth \<noteq> 0 \<and> eh_exts eh \<noteq> [] \<longrightarrow> ee_block (hd (eh_exts eh)) = lblk)" if "depth = 0"
    using c(1,5) that valid_exts_ok [OF assms(1), of 0 "eh_exts eh"]
    by (auto simp: ext4_valid_extent_entries_def eh_entries_def unat_eq_zero split: if_splits)
  have idx: "eh_idxs eh \<noteq> [] \<and> (depth \<noteq> ext_depth \<longrightarrow> ei_block (hd (eh_idxs eh)) = lblk) \<and> valid_idxs X 0 (eh_idxs eh)" if "depth > 0"
    using c that by (auto simp: ext4_valid_extent_entries_def eh_entries_def split: if_splits)
  show ?thesis using c(1-3) leaf idx valid_idxs_ok [of X 0 "eh_idxs eh"] by auto
qed

section \<open>Reading a node\<close>

text \<open>
  \<open>__read_extent_tree_block\<close>: \<open>load\<close> is the buffer cache, which answers an error number or the node, whether the
  buffer was verified before and whether its checksum is right; \<open>force\<close> is the flag \<open>EXT4_EX_FORCE_CACHE\<close>.
\<close>

definition read_extent_tree_block ::
    "ext_ops \<Rightarrow> super_block \<Rightarrow> nat \<Rightarrow> bool \<Rightarrow> (u64 \<Rightarrow> int + ext_node \<times> bool \<times> bool) \<Rightarrow> ext4_extent_idx \<Rightarrow> nat \<Rightarrow> int + ext_node" where
  "read_extent_tree_block X sb ext_depth force load idx depth =
     (case load (ei_pblock idx) of
        Inl err \<Rightarrow> Inl err
      | Inr (eh, verified, csum_ok) \<Rightarrow>
          if verified \<and> \<not> force then Inr eh
          else (let err = ext4_ext_check X sb ext_depth csum_ok eh depth (ei_block idx)
                in if err \<noteq> 0 then Inl err else Inr eh))"

text \<open>\<open>ext4_cache_extents\<close>: the calls of \<open>ext4_es_cache_extent\<close>, with first block, length, physical block and state.\<close>

datatype es_status = EXTENT_STATUS_WRITTEN | EXTENT_STATUS_UNWRITTEN | EXTENT_STATUS_HOLE

type_synonym es_entry = "u32 \<times> u32 \<times> u64 \<times> es_status"

fun cache_extents :: "ext_ops \<Rightarrow> u32 \<Rightarrow> ext4_extent list \<Rightarrow> es_entry list" where
  "cache_extents X prev [] = []"
| "cache_extents X prev (ex # es) =
     (let lblk = ee_block ex; len = of_nat (ext4_ext_get_actual_len X ex)
      in (if prev \<noteq> 0 \<and> prev \<noteq> lblk then [(prev, lblk - prev, NOT 0, EXTENT_STATUS_HOLE)] else []) @
         (lblk, len, ee_pblock ex, if ext4_ext_is_unwritten X ex then EXTENT_STATUS_UNWRITTEN else EXTENT_STATUS_WRITTEN) #
         cache_extents X (lblk + len) es)"

definition ext4_cache_extents :: "ext_ops \<Rightarrow> ext_node \<Rightarrow> es_entry list" where
  "ext4_cache_extents X eh = cache_extents X 0 (eh_exts eh)"

section \<open>From the root to a leaf\<close>

record ext4_ext_path =
  p_hdr :: ext_node
  p_idx :: nat
  p_ext :: "nat option"

definition ext4_ext_binsearch_idx :: "ext_node \<Rightarrow> u32 \<Rightarrow> nat" where
  "ext4_ext_binsearch_idx eh block =
     bin_upper (\<lambda>i. ei_block (eh_idxs eh ! i)) block 1 (length (eh_idxs eh)) - 1"

definition ext4_ext_binsearch :: "ext_node \<Rightarrow> u32 \<Rightarrow> nat option" where
  "ext4_ext_binsearch eh block =
     (if eh_exts eh = [] then None
      else Some (bin_upper (\<lambda>i. ee_block (eh_exts eh ! i)) block 1 (length (eh_exts eh)) - 1))"

text \<open>
  The loop of \<open>ext4_find_extent\<close> for the levels below; \<open>read\<close> is \<open>read_extent_tree_block\<close>, given the index
  and the depth of the node. The path leads from the root to the leaf.
\<close>

fun find_walk :: "(ext4_extent_idx \<Rightarrow> nat \<Rightarrow> int + ext_node) \<Rightarrow> nat \<Rightarrow> ext_node \<Rightarrow> u32 \<Rightarrow> int + ext4_ext_path list" where
  "find_walk read 0 eh block = Inr [\<lparr>p_hdr = eh, p_idx = 0, p_ext = ext4_ext_binsearch eh block\<rparr>]"
| "find_walk read (Suc i) eh block =
     (let k = ext4_ext_binsearch_idx eh block
      in case read (eh_idxs eh ! k) i of
           Inl err \<Rightarrow> Inl err
         | Inr eh' \<Rightarrow>
             (case find_walk read i eh' block of
                Inl err \<Rightarrow> Inl err
              | Inr path \<Rightarrow> Inr (\<lparr>p_hdr = eh, p_idx = k, p_ext = None\<rparr> # path)))"

definition ext4_find_extent ::
    "ext_ops \<Rightarrow> bool \<Rightarrow> (ext4_extent_idx \<Rightarrow> nat \<Rightarrow> int + ext_node) \<Rightarrow> ext_node \<Rightarrow> u32 \<Rightarrow> int + ext4_ext_path list" where
  "ext4_find_extent X mem_ok read root block =
     (let depth = unat (eh_depth root)
      in if depth > EXT4_MAX_EXTENT_DEPTH X then Inl (- EUCLEAN)
         else if \<not> mem_ok then Inl (- ENOMEM)
         else find_walk read depth root block)"

text \<open>
  The entry to the right of the path: in the leaf if there is one, else in the lowest index node that has
  one. Both functions scan the path from the leaf upwards.
\<close>

fun next_index :: "ext4_ext_path list \<Rightarrow> u32 option" where
  "next_index [] = None"
| "next_index (p # ps) =
     (if Suc (p_idx p) < length (eh_idxs (p_hdr p)) then Some (ei_block (eh_idxs (p_hdr p) ! Suc (p_idx p)))
      else next_index ps)"

definition leaf_next :: "ext4_ext_path \<Rightarrow> u32 option" where
  "leaf_next p = (case p_ext p of
     Some k \<Rightarrow> if Suc k < length (eh_exts (p_hdr p)) then Some (ee_block (eh_exts (p_hdr p) ! Suc k)) else None
   | None \<Rightarrow> None)"

definition ext4_ext_next_allocated_block :: "ext_ops \<Rightarrow> ext4_ext_path list \<Rightarrow> u32" where
  "ext4_ext_next_allocated_block X path =
     (case leaf_next (last path) of
        Some b \<Rightarrow> b
      | None \<Rightarrow> (case next_index (rev (butlast path)) of Some b \<Rightarrow> b | None \<Rightarrow> EXT_MAX_BLOCKS X))"

definition ext4_ext_next_leaf_block :: "ext_ops \<Rightarrow> ext4_ext_path list \<Rightarrow> u32" where
  "ext4_ext_next_leaf_block X path =
     (case next_index (rev (butlast path)) of Some b \<Rightarrow> b | None \<Rightarrow> EXT_MAX_BLOCKS X)"

section \<open>The tree as one list of extents\<close>

fun tree_exts :: "(ext4_extent_idx \<Rightarrow> nat \<Rightarrow> int + ext_node) \<Rightarrow> nat \<Rightarrow> ext_node \<Rightarrow> ext4_extent list" where
  "tree_exts read 0 eh = eh_exts eh"
| "tree_exts read (Suc i) eh =
     concat (map (\<lambda>ix. case read ix i of Inl err \<Rightarrow> [] | Inr eh' \<Rightarrow> tree_exts read i eh') (eh_idxs eh))"

text \<open>
  A tree is well formed when its extents are in order, every index leads to a node that can be read and
  is not empty, and the block in the index is that of the first extent below it (which is what
  \<open>__ext4_ext_check\<close> requires of a node and its parent).
\<close>

fun tree_ok :: "ext_ops \<Rightarrow> (ext4_extent_idx \<Rightarrow> nat \<Rightarrow> int + ext_node) \<Rightarrow> nat \<Rightarrow> ext_node \<Rightarrow> bool" where
  "tree_ok X read 0 eh = exts_ok X (eh_exts eh)"
| "tree_ok X read (Suc i) eh =
     (eh_idxs eh \<noteq> [] \<and> sorted_wrt (<) (map ei_block (eh_idxs eh)) \<and> exts_ok X (tree_exts read (Suc i) eh) \<and>
      (\<forall>ix \<in> set (eh_idxs eh). case read ix i of Inl err \<Rightarrow> False
         | Inr eh' \<Rightarrow> tree_ok X read i eh' \<and> tree_exts read i eh' \<noteq> [] \<and> ee_block (hd (tree_exts read i eh')) = ei_block ix))"

text \<open>The position of the last extent that does not start after \<open>b\<close>, or 0, and the one after it.\<close>

definition flat_pos :: "ext4_extent list \<Rightarrow> u32 \<Rightarrow> nat" where
  "flat_pos es b = length (filter (\<lambda>e. ee_block e \<le> b) es) - 1"

definition flat_next :: "ext4_extent list \<Rightarrow> u32 \<Rightarrow> u32 option" where
  "flat_next es b = (if Suc (flat_pos es b) < length es then Some (ee_block (es ! Suc (flat_pos es b))) else None)"

lemma exts_ok_starts: "exts_ok X es \<Longrightarrow> sorted_wrt (<) (map ee_block es)"
  by (induction es) (auto simp: ext_ok_def ext_end_def ext_start_def word_less_nat_alt)

lemma filter_prefix:
  fixes es :: "ext4_extent list"
  assumes "sorted_wrt (<) (map ee_block es)" "\<And>i. i < length es \<Longrightarrow> ee_block (es ! i) \<le> b \<longleftrightarrow> i < n" "n \<le> length es"
  shows "length (filter (\<lambda>e. ee_block e \<le> b) es) = n"
proof -
  have "filter (\<lambda>e. ee_block e \<le> b) es = filter (\<lambda>e. ee_block e \<le> b) (take n es) @ filter (\<lambda>e. ee_block e \<le> b) (drop n es)"
    by (metis append_take_drop_id filter_append)
  moreover have "filter (\<lambda>e. ee_block e \<le> b) (take n es) = take n es"
    using assms(2,3) by (intro filter_True) (auto simp: in_set_conv_nth)
  moreover have "filter (\<lambda>e. ee_block e \<le> b) (drop n es) = []"
    using assms(2,3) by (auto simp: filter_empty_conv in_set_conv_nth)
  ultimately show ?thesis using assms(3) by simp
qed

text \<open>The binary searches find this position.\<close>

lemma sorted_keys: "sorted_wrt (<) (map f xs) \<Longrightarrow> i \<le> j \<Longrightarrow> j < length xs \<Longrightarrow> (f (xs ! i) :: u32) \<le> f (xs ! j)"
  by (cases "i = j") (auto dest!: sorted_wrt_nth_less [where i = i and j = j])

lemma binsearch_pos:
  assumes "exts_ok X (eh_exts eh)" "eh_exts eh \<noteq> []"
  shows "ext4_ext_binsearch eh b = Some (flat_pos (eh_exts eh) b)"
proof -
  let ?es = "eh_exts eh" and ?k = "bin_upper (\<lambda>i. ee_block (eh_exts eh ! i)) b 1 (length (eh_exts eh))"
  have s: "sorted_wrt (<) (map ee_block ?es)" using exts_ok_starts [OF assms(1)] .
  have l: "1 \<le> length ?es" using assms(2) by (cases ?es) auto
  have k: "1 \<le> ?k" "?k \<le> length ?es" using l by (rule bin_upper_bounds)+
  have i: "ee_block (?es ! i) \<le> b \<longleftrightarrow> i < ?k" if "1 \<le> i" "i < length ?es" for i
    using that s by (intro bin_upper_sorted [OF l]) (auto intro: sorted_keys)
  show ?thesis
  proof (cases "ee_block (?es ! 0) \<le> b")
    case True
    have "length (filter (\<lambda>e. ee_block e \<le> b) ?es) = ?k"
      by (rule filter_prefix [OF s _ k(2)]) (metis True i k(1) less_one linorder_not_le less_le_trans zero_less_one)
    then show ?thesis using assms(2) by (simp add: ext4_ext_binsearch_def flat_pos_def)
  next
    case False
    have none: "\<not> ee_block (?es ! i) \<le> b" if "i < length ?es" for i
      using False sorted_keys [OF s, of 0 i] that by auto
    then have "length (filter (\<lambda>e. ee_block e \<le> b) ?es) = 0" by (intro filter_prefix [OF s]) auto
    moreover have "?k = 1"
    proof (rule ccontr)
      assume "?k \<noteq> 1"
      then obtain m where "?k = Suc m" "1 \<le> m" using k(1) by (cases ?k) auto
      then show False using i [of m] none [of m] k(2) by simp
    qed
    ultimately show ?thesis using assms(2) by (simp add: ext4_ext_binsearch_def flat_pos_def)
  qed
qed

lemma binsearch_idx_pos:
  fixes b :: u32
  assumes "sorted_wrt (<) (map ei_block (eh_idxs eh))" "eh_idxs eh \<noteq> []"
  defines "k \<equiv> ext4_ext_binsearch_idx eh b"
  shows "k < length (eh_idxs eh)" "k = 0 \<or> ei_block (eh_idxs eh ! k) \<le> b"
    "\<And>j. k < j \<Longrightarrow> j < length (eh_idxs eh) \<Longrightarrow> b < ei_block (eh_idxs eh ! j)"
proof -
  let ?is = "eh_idxs eh" and ?k = "bin_upper (\<lambda>i. ei_block (eh_idxs eh ! i)) b 1 (length (eh_idxs eh))"
  have l: "1 \<le> length ?is" using assms(2) by (cases ?is) auto
  have b: "1 \<le> ?k" "?k \<le> length ?is" using l by (rule bin_upper_bounds)+
  have i: "ei_block (?is ! i) \<le> b \<longleftrightarrow> i < ?k" if "1 \<le> i" "i < length ?is" for i
    using that assms(1) by (intro bin_upper_sorted [OF l]) (auto intro: sorted_keys)
  have k: "?k = Suc k" using b by (simp add: k_def ext4_ext_binsearch_idx_def)
  show "k < length ?is" using b k by simp
  show "k = 0 \<or> ei_block (?is ! k) \<le> b" using i [of k] b k by (cases "k = 0") auto
  show "\<And>j. k < j \<Longrightarrow> j < length ?is \<Longrightarrow> b < ei_block (?is ! j)"
    using i k by (metis One_nat_def Suc_leI gr_implies_not0 less_Suc_eq_le not_le not_less_eq zero_less_iff_neq_zero)
qed


lemma flat_pos_append:
  assumes "\<And>e. e \<in> set as \<Longrightarrow> ee_block e \<le> b" "\<And>e. e \<in> set cs \<Longrightarrow> b < ee_block e"
    and "as = [] \<or> (bs \<noteq> [] \<and> ee_block (hd bs) \<le> b)"
  shows "flat_pos (as @ bs @ cs) b = length as + flat_pos bs b"
proof -
  have "filter (\<lambda>e. ee_block e \<le> b) as = as" "filter (\<lambda>e. ee_block e \<le> b) cs = []"
    using assms(1,2) by (auto simp: filter_empty_conv not_le intro!: filter_True)
  moreover have "as \<noteq> [] \<Longrightarrow> filter (\<lambda>e. ee_block e \<le> b) bs \<noteq> []"
    using assms(3) by (auto simp: filter_empty_conv intro!: bexI [of _ "hd bs"])
  ultimately show ?thesis
    by (cases "filter (\<lambda>e. ee_block e \<le> b) bs"; cases "as = []") (auto simp: flat_pos_def)
qed

lemma flat_pos_less: "bs \<noteq> [] \<Longrightarrow> flat_pos bs b < length bs"
  using length_filter_le [of "\<lambda>e. ee_block e \<le> b" bs]
  by (cases bs) (auto simp: flat_pos_def simp del: filter.simps length_filter_le)

lemma concat_split: "k < length cs \<Longrightarrow> concat cs = concat (take k cs) @ cs ! k @ concat (drop (Suc k) cs)"
  by (metis append_take_drop_id concat.simps(2) concat_append Cons_nth_drop_Suc)

lemma exts_before: "exts_ok X (es @ f # fs) \<Longrightarrow> e \<in> set es \<Longrightarrow> ee_block e < ee_block f"
  using exts_ok_starts [of X "es @ f # fs"] by (simp add: sorted_wrt_append)

lemma exts_after: "exts_ok X (f # fs) \<Longrightarrow> e \<in> set (f # fs) \<Longrightarrow> ee_block f \<le> ee_block e"
  using exts_ok_starts [of X "f # fs"] by auto

lemma next_index_append:
  "next_index (xs @ [p]) = (case next_index xs of Some n \<Rightarrow> Some n | None \<Rightarrow> next_index [p])"
  by (induction xs) auto

text \<open>The path ends in a leaf whose extents are a stretch of the whole list, at the right position.\<close>

lemma find_walk_flat:
  assumes "tree_ok X read i eh"
  shows "\<exists>path as cs. find_walk read i eh b = Inr path \<and> path \<noteq> [] \<and>
    tree_exts read i eh = as @ eh_exts (p_hdr (last path)) @ cs \<and>
    (tree_exts read i eh \<noteq> [] \<longrightarrow> (\<exists>k. p_ext (last path) = Some k \<and> k < length (eh_exts (p_hdr (last path))) \<and>
       flat_pos (tree_exts read i eh) b = length as + k)) \<and>
    (tree_exts read i eh = [] \<longrightarrow> p_ext (last path) = None) \<and>
    (case leaf_next (last path) of Some n \<Rightarrow> Some n | None \<Rightarrow> next_index (rev (butlast path))) =
      flat_next (tree_exts read i eh) b"
  using assms
proof (induction i arbitrary: eh)
  case 0
  show ?case
  proof (cases "eh_exts eh = []")
    case True
    then show ?thesis by (simp add: ext4_ext_binsearch_def leaf_next_def flat_next_def)
  next
    case False
    then show ?thesis
      using 0 binsearch_pos [of X eh b] flat_pos_less [of "eh_exts eh" b]
      by (auto simp: leaf_next_def flat_next_def intro!: exI [of _ "[]"] split: option.splits)
  qed
next
  case (Suc i)
  let ?is = "eh_idxs eh" and ?k = "ext4_ext_binsearch_idx eh b"
  define ch where "ch = (\<lambda>ix. case read ix i of Inl err \<Rightarrow> [] | Inr eh' \<Rightarrow> tree_exts read i eh')"
  define cs where "cs = map ch ?is"
  have es: "tree_exts read (Suc i) eh = concat cs" by (simp add: cs_def ch_def)
  have ok: "?is \<noteq> []" "sorted_wrt (<) (map ei_block ?is)" "exts_ok X (concat cs)"
    using Suc.prems unfolding es [symmetric] by simp_all
  note k = binsearch_idx_pos [OF ok(2,1), of b]
  have child: "\<exists>eh'. read (?is ! j) i = Inr eh' \<and> tree_ok X read i eh' \<and> cs ! j = tree_exts read i eh' \<and> cs ! j \<noteq> [] \<and>
      ee_block (hd (cs ! j)) = ei_block (?is ! j)" if "j < length ?is" for j
  proof -
    have "?is ! j \<in> set ?is" using that by simp
    then show ?thesis using Suc.prems that by (fastforce simp: cs_def ch_def split: sum.splits)
  qed
  have lcs: "length cs = length ?is" by (simp add: cs_def)
  let ?as = "concat (take ?k cs)" and ?bs = "cs ! ?k" and ?cs = "concat (drop (Suc ?k) cs)"
  have sp: "concat cs = ?as @ ?bs @ ?cs" using concat_split [of ?k cs] k(1) lcs by simp
  obtain eh' where eh': "read (?is ! ?k) i = Inr eh'" "tree_ok X read i eh'" "?bs = tree_exts read i eh'"
    "?bs \<noteq> []" "ee_block (hd ?bs) = ei_block (?is ! ?k)" using child [OF k(1)] by blast
  obtain f fs where f: "?bs = f # fs" using eh'(4) by (cases ?bs) auto
  have as: "ee_block e \<le> b" if "e \<in> set ?as" for e
  proof -
    have "ee_block e < ee_block f" using exts_before [of X ?as f "fs @ ?cs" e] that ok(3) sp f by simp
    moreover have "?k \<noteq> 0" using that by (cases "?k = 0") simp_all
    ultimately show ?thesis using k(2) eh'(5) f by simp
  qed
  have cs: "b < ee_block e" if e: "e \<in> set ?cs" for e
  proof -
    obtain c where "c \<in> set (drop (Suc ?k) cs)" "e \<in> set c" using e by auto
    then obtain m where "m < length (drop (Suc ?k) cs)" "drop (Suc ?k) cs ! m = c" by (auto simp: in_set_conv_nth)
    then have j: "?k < Suc ?k + m" "Suc ?k + m < length cs" "e \<in> set (cs ! (Suc ?k + m))"
      using \<open>e \<in> set c\<close> by auto
    define j where "j = Suc ?k + m"
    note j = j [folded j_def]
    have "exts_ok X (cs ! j)" using ok(3) concat_split [OF j(2)] by (simp add: exts_ok_append)
    then have "ee_block (hd (cs ! j)) \<le> ee_block e"
      using exts_after [of X "hd (cs ! j)" "tl (cs ! j)" e] j(3) by (cases "cs ! j") auto
    then show ?thesis using k(3) [OF j(1)] child [of j] j(2) lcs by force
  qed
  have pos: "flat_pos (concat cs) b = length ?as + flat_pos ?bs b"
    unfolding sp using as cs k(2) eh'(4,5) by (intro flat_pos_append) auto
  have q: "flat_pos ?bs b < length ?bs" using eh'(4) by (rule flat_pos_less)
  have nxt: "flat_next (concat cs) b = (case flat_next ?bs b of Some n \<Rightarrow> Some n
      | None \<Rightarrow> if Suc ?k < length ?is then Some (ei_block (?is ! Suc ?k)) else None)"
  proof (cases "Suc (flat_pos ?bs b) < length ?bs")
    case True
    then show ?thesis by (simp add: flat_next_def pos) (simp add: sp nth_append)
  next
    case False
    then have e: "Suc (flat_pos ?bs b) = length ?bs" using q by simp
    show ?thesis
    proof (cases "Suc ?k < length ?is")
      case True
      obtain eh2 where c2: "cs ! Suc ?k \<noteq> []" "ee_block (hd (cs ! Suc ?k)) = ei_block (?is ! Suc ?k)"
        using child [OF True] by blast
      have "?cs = cs ! Suc ?k @ concat (drop (Suc (Suc ?k)) cs)"
        using True lcs by (metis Cons_nth_drop_Suc concat.simps(2))
      then show ?thesis
        using e c2 True by (simp add: flat_next_def pos) (simp add: sp nth_append hd_conv_nth)
    next
      case last: False
      then have "?cs = []" using lcs by simp
      then show ?thesis using e last by (simp add: flat_next_def pos) (simp add: sp)
    qed
  qed
  from Suc.IH [OF eh'(2)] obtain path as' cs' where p: "find_walk read i eh' b = Inr path" "path \<noteq> []"
    "?bs = as' @ eh_exts (p_hdr (last path)) @ cs'"
    "\<exists>j. p_ext (last path) = Some j \<and> j < length (eh_exts (p_hdr (last path))) \<and> flat_pos ?bs b = length as' + j"
    "(case leaf_next (last path) of Some n \<Rightarrow> Some n | None \<Rightarrow> next_index (rev (butlast path))) = flat_next ?bs b"
    using eh'(3,4) by auto
  let ?p = "\<lparr>p_hdr = eh, p_idx = ?k, p_ext = None\<rparr>"
  have w: "find_walk read (Suc i) eh b = Inr (?p # path)" using eh'(1) p(1) by (simp add: Let_def)
  have n: "(case leaf_next (last path) of Some n \<Rightarrow> Some n | None \<Rightarrow> next_index (rev (butlast (?p # path)))) =
      flat_next (concat cs) b"
    using p(2) p(5) [symmetric] nxt by (simp add: next_index_append split: option.splits)
  show ?case
    unfolding es using w p(2-4) n sp pos eh'(4)
    by (intro exI [of _ "?p # path"] exI [of _ "?as @ as'"] exI [of _ "cs' @ ?cs"]) auto
qed

text \<open>
  C10 find_extent_flat: on a well-formed tree of any depth, \<open>ext4_find_extent\<close> returns a path whose leaf
  holds the last extent that does not start after the block (or the first extent of the file), and
  \<open>ext4_ext_next_allocated_block\<close> of this path is the start of the extent that follows it in the file, or
  \<open>EXT_MAX_BLOCKS\<close>: the two behave as on the sorted list of all extents.
\<close>

theorem find_extent_flat:
  assumes "tree_ok X read (unat (eh_depth root)) root" "unat (eh_depth root) \<le> EXT4_MAX_EXTENT_DEPTH X"
    and "es = tree_exts read (unat (eh_depth root)) root"
  shows "\<exists>path. ext4_find_extent X True read root b = Inr path \<and>
    (case p_ext (last path) of None \<Rightarrow> es = [] | Some k \<Rightarrow> es \<noteq> [] \<and> eh_exts (p_hdr (last path)) ! k = es ! flat_pos es b) \<and>
    ext4_ext_next_allocated_block X path = (case flat_next es b of Some n \<Rightarrow> n | None \<Rightarrow> EXT_MAX_BLOCKS X)"
proof -
  obtain path as cs where p: "find_walk read (unat (eh_depth root)) root b = Inr path"
    "es = as @ eh_exts (p_hdr (last path)) @ cs"
    "es \<noteq> [] \<longrightarrow> (\<exists>k. p_ext (last path) = Some k \<and> k < length (eh_exts (p_hdr (last path))) \<and> flat_pos es b = length as + k)"
    "es = [] \<longrightarrow> p_ext (last path) = None"
    "(case leaf_next (last path) of Some n \<Rightarrow> Some n | None \<Rightarrow> next_index (rev (butlast path))) = flat_next es b"
    using find_walk_flat [OF assms(1), of b] assms(3) by blast
  have nx: "ext4_ext_next_allocated_block X path = (case flat_next es b of Some n \<Rightarrow> n | None \<Rightarrow> EXT_MAX_BLOCKS X)"
    unfolding p(5) [symmetric] by (auto simp: ext4_ext_next_allocated_block_def split: option.splits)
  show ?thesis
  proof (cases "es = []")
    case True
    then show ?thesis using p(1,4) nx assms(2) by (auto simp: ext4_find_extent_def Let_def)
  next
    case False
    then obtain k where k: "p_ext (last path) = Some k" "k < length (eh_exts (p_hdr (last path)))"
      "flat_pos es b = length as + k" using p(3) by blast
    then have "es ! flat_pos es b = eh_exts (p_hdr (last path)) ! k" by (simp add: p(2) nth_append)
    then show ?thesis using False k(1) p(1) nx assms(2) by (auto simp: ext4_find_extent_def Let_def)
  qed
qed

section \<open>Concrete accessors and trees\<close>

definition demo_ops :: ext_ops where
  "demo_ops =
     \<lparr>actual_len = (\<lambda>w. if unat w \<le> 32768 then unat w else unat w - 32768), is_unwritten = (\<lambda>w. unat w > 32768),
      mark_unwritten = (\<lambda>w. w + 0x8000),
      mark_initialized = (\<lambda>w. if unat w > 32768 then w - 0x8000 else w), EXT_INIT_MAX_LEN = 32768, EXT_UNWRITTEN_MAX_LEN = 32767,
      EXT_MAX_BLOCKS = 0xffffffff, EXT4_EXT_MAGIC = 0xf30a, EXT4_MAX_EXTENT_DEPTH = 5, sizeof_header = 12,
      sizeof_extent = 12, sizeof_idx = 12, sizeof_i_data = 60, block_valid = (\<lambda>_ _. True)\<rparr>"

lemma demo_ops_laws: "ext_laws demo_ops"
proof -
  have small: "unat (of_nat n :: u16) = n" if "n \<le> 32768" for n
    using that by (simp add: unsigned_of_nat take_bit_nat_eq_self)
  have mark: "unat (of_nat n + 0x8000 :: u16) = n + 32768" if "n \<le> 32767" for n
  proof -
    have "unat (of_nat n + 0x8000 :: u16) = unat (of_nat (n + 32768) :: u16)" by simp
    also have "\<dots> = n + 32768" using that by (simp add: unsigned_of_nat take_bit_nat_eq_self del: of_nat_add)
    finally show ?thesis .
  qed
  have bk: "w = of_nat (unat w - 32768) + 0x8000" if "unat w > 32768" for w :: u16
  proof -
    have "of_nat (unat w - 32768) + 0x8000 = (of_nat (unat w - 32768 + 32768) :: u16)" by simp
    then show ?thesis using that by (simp del: of_nat_add)
  qed
  have "unat w - 32768 \<le> 32767" for w :: u16
    using unsigned_less [of w, where 'a = nat] by simp
  then show ?thesis
    using small mark bk by (auto simp: ext_laws_def demo_ops_def)
qed

definition demo_leaf :: "ext4_extent list \<Rightarrow> ext_node" where
  "demo_leaf es = \<lparr>eh_magic = 0xf30a, eh_max = 4, eh_depth = 0, eh_exts = es, eh_idxs = []\<rparr>"

definition demo_ext :: "u32 \<Rightarrow> u16 \<Rightarrow> u64 \<Rightarrow> ext4_extent" where
  "demo_ext b l p = \<lparr>ee_block = b, ee_len = l, ee_pblock = p\<rparr>"

definition demo_read :: "ext4_extent_idx \<Rightarrow> nat \<Rightarrow> int + ext_node" where
  "demo_read ix d = Inr (demo_leaf (if ei_block ix = 0 then [demo_ext 0 2 100] else [demo_ext 5 3 200, demo_ext 9 1 300]))"

definition demo_root :: ext_node where
  "demo_root = \<lparr>eh_magic = 0xf30a, eh_max = 4, eh_depth = 1, eh_exts = [],
     eh_idxs = [\<lparr>ei_block = 0, ei_pblock = 50\<rparr>, \<lparr>ei_block = 5, ei_pblock = 51\<rparr>]\<rparr>"

lemmas demo_ext_defs = demo_leaf_def demo_ext_def demo_read_def demo_root_def ext_ok_def ext_end_def ext_start_def demo_ops_def

theorem ext_check_sound_witness:
  "exts_ok demo_ops (eh_exts (demo_leaf [demo_ext 5 3 200, demo_ext 9 1 300]))"
proof -
  have "ext4_ext_check demo_ops demo_sb 1 True (demo_leaf [demo_ext 5 3 200, demo_ext 9 1 300]) 0 5 = 0"
    by (simp add: ext4_ext_check_def ext4_ext_max_entries_def ext4_ext_space_block_def eh_entries_def demo_sb_def
        ext4_valid_extent_entries_def ext4_valid_extent_def demo_ext_defs)
  from ext_check_sound [OF demo_ops_laws this] show ?thesis by simp
qed

theorem find_extent_flat_witness:
  "\<exists>path. ext4_find_extent demo_ops True demo_read demo_root 7 = Inr path \<and>
     ext4_ext_next_allocated_block demo_ops path = 9"
proof -
  have "tree_ok demo_ops demo_read (unat (eh_depth demo_root)) demo_root"
    by (simp add: demo_ext_defs)
  moreover have "flat_next (tree_exts demo_read (unat (eh_depth demo_root)) demo_root) 7 = Some 9"
    by (simp add: demo_ext_defs flat_next_def flat_pos_def)
  ultimately show ?thesis
    using find_extent_flat [of demo_ops demo_read demo_root _ 7] by (fastforce simp: demo_root_def demo_ops_def)
qed

section \<open>The mapping of a file\<close>

text \<open>The block and the state of a logical block, by the extent that covers it.\<close>

definition covers :: "ext_ops \<Rightarrow> ext4_extent \<Rightarrow> nat \<Rightarrow> bool" where
  "covers X e lb = (ext_start e \<le> lb \<and> lb < ext_end X e)"

definition image_of :: "ext_ops \<Rightarrow> ext4_extent \<Rightarrow> nat \<Rightarrow> u64 \<times> bool" where
  "image_of X e lb = (ee_pblock e + of_nat (lb - ext_start e), ext4_ext_is_unwritten X e)"

fun ext_lookup :: "ext_ops \<Rightarrow> ext4_extent list \<Rightarrow> nat \<Rightarrow> (u64 \<times> bool) option" where
  "ext_lookup X [] lb = None"
| "ext_lookup X (e # es) lb = (if covers X e lb then Some (image_of X e lb) else ext_lookup X es lb)"

lemma ext_lookup_append:
  "ext_lookup X (es @ fs) lb = (case ext_lookup X es lb of Some v \<Rightarrow> Some v | None \<Rightarrow> ext_lookup X fs lb)"
  by (induction es) auto

lemma ext_lookup_None: "ext_lookup X es lb = None \<longleftrightarrow> (\<forall>e \<in> set es. \<not> covers X e lb)"
  by (induction es) auto

lemma ext_end_unat:
  assumes "ext_laws X" "ext_ok X e"
  shows "unat (of_nat (ext4_ext_get_actual_len X e) :: u32) = ext4_ext_get_actual_len X e"
    "unat (ee_block e + of_nat (ext4_ext_get_actual_len X e)) = ext_end X e"
proof -
  show l: "unat (of_nat (ext4_ext_get_actual_len X e) :: u32) = ext4_ext_get_actual_len X e"
    using actual_len_bound [OF assms(1), of "ee_len e"] by (simp add: unsigned_of_nat take_bit_nat_eq_self)
  show "unat (ee_block e + of_nat (ext4_ext_get_actual_len X e)) = ext_end X e"
    using assms(2) by (simp add: unat_word_ariths l ext_ok_def ext_end_def)
qed

text \<open>What an entry of the extent status tree says of the blocks it is about.\<close>

fun es_says :: "es_entry \<Rightarrow> nat \<Rightarrow> (u64 \<times> bool) option" where
  "es_says (b, l, p, EXTENT_STATUS_HOLE) lb = None"
| "es_says (b, l, p, EXTENT_STATUS_WRITTEN) lb = Some (p + of_nat (lb - unat b), False)"
| "es_says (b, l, p, EXTENT_STATUS_UNWRITTEN) lb = Some (p + of_nat (lb - unat b), True)"

definition es_about :: "es_entry \<Rightarrow> nat \<Rightarrow> bool" where
  "es_about en lb = (unat (fst en) \<le> lb \<and> lb < unat (fst en) + unat (fst (snd en)))"

lemma cache_extents_sound:
  assumes "ext_laws X" "exts_ok X es" "\<forall>e \<in> set es. unat prev \<le> ext_start e"
    and "en \<in> set (cache_extents X prev es)" "es_about en lb"
  shows "unat prev \<le> lb \<and> ext_lookup X es lb = es_says en lb"
  using assms(2-4)
proof (induction es arbitrary: prev)
  case (Cons e es)
  let ?len = "of_nat (ext4_ext_get_actual_len X e) :: u32"
  have ok: "ext_ok X e" "\<forall>f \<in> set es. ext_end X e \<le> ext_start f" "exts_ok X es" "unat prev \<le> ext_start e"
    using Cons.prems by simp_all
  note u = ext_end_unat [OF assms(1) ok(1)]
  have le: "ext_start e \<le> ext_end X e" by (simp add: ext_start_def ext_end_def)
  consider (hole) "en = (prev, ee_block e - prev, NOT 0, EXTENT_STATUS_HOLE)"
    | (ext) "en = (ee_block e, ?len, ee_pblock e, if ext4_ext_is_unwritten X e then EXTENT_STATUS_UNWRITTEN else EXTENT_STATUS_WRITTEN)"
    | (tail) "en \<in> set (cache_extents X (ee_block e + ?len) es)"
    using Cons.prems(3) by (auto simp: Let_def split: if_splits)
  then show ?case
  proof cases
    case hole
    have "unat (ee_block e - prev) = unat (ee_block e) - unat prev"
      using ok(4) by (simp add: unat_sub word_le_nat_alt ext_start_def)
    then have "unat prev \<le> lb" "lb < ext_start e"
      using assms(5) ok(4) by (auto simp: hole es_about_def ext_start_def)
    moreover from this have "\<forall>f \<in> set (e # es). \<not> covers X f lb"
      using ok(2) le by (fastforce simp: covers_def)
    ultimately show ?thesis using ext_lookup_None [of X "e # es" lb] by (simp add: hole)
  next
    case ext
    then show ?thesis using assms(5) ok(4) u(1)
      by (auto simp: es_about_def covers_def image_of_def ext_start_def ext_end_def)
  next
    case tail
    then have "ext_end X e \<le> lb \<and> ext_lookup X es lb = es_says en lb"
      using Cons.IH [of "ee_block e + ?len"] ok by (simp add: u(2))
    then show ?thesis using ok(4) le by (simp add: covers_def)
  qed
qed simp

lemma cache_extents_complete:
  assumes "ext_laws X" "exts_ok X es" "ext_lookup X es lb \<noteq> None"
  shows "\<exists>en \<in> set (cache_extents X prev es). es_about en lb"
  using assms(2,3)
proof (induction es arbitrary: prev)
  case (Cons e es)
  show ?case
  proof (cases "covers X e lb")
    case True
    then show ?thesis using ext_end_unat(1) [OF assms(1), of e] Cons.prems(1)
      by (auto simp: Let_def es_about_def covers_def ext_start_def ext_end_def)
  next
    case False
    then show ?thesis using Cons.IH [of "ee_block e + of_nat (ext4_ext_get_actual_len X e)"] Cons.prems
      by (auto simp: Let_def)
  qed
qed simp

text \<open>
  Result cached_leaf_agrees: what \<open>ext4_cache_extents\<close> records of a leaf that \<open>__read_extent_tree_block\<close> accepted after
  checking it agrees with the leaf: a block that an entry is about has the physical block and the state that the
  entry says, a block in a recorded hole is in no extent, and every mapped block is in some entry.
\<close>

theorem cached_leaf_agrees:
  assumes "ext_laws X" "read_extent_tree_block X sb ext_depth force load idx 0 = Inr eh"
    and "load (ei_pblock idx) = Inr (eh0, verified, csum_ok)" "force \<or> \<not> verified"
  shows "(\<forall>en \<in> set (ext4_cache_extents X eh). \<forall>lb. es_about en lb \<longrightarrow> ext_lookup X (eh_exts eh) lb = es_says en lb) \<and>
    (\<forall>lb. ext_lookup X (eh_exts eh) lb \<noteq> None \<longrightarrow> (\<exists>en \<in> set (ext4_cache_extents X eh). es_about en lb))"
proof -
  have "ext4_ext_check X sb ext_depth csum_ok eh 0 (ei_block idx) = 0"
    using assms(2-4) by (auto simp: read_extent_tree_block_def Let_def split: if_splits)
  then have ok: "exts_ok X (eh_exts eh)"
    using valid_exts_ok [OF assms(1), of 0 "eh_exts eh"]
    by (cases "eh_exts eh = []") (auto simp: ext4_ext_check_def ext4_valid_extent_entries_def eh_entries_def unat_eq_zero split: if_splits)
  show ?thesis
    using cache_extents_sound [OF assms(1) ok, of 0] cache_extents_complete [OF assms(1) ok]
    by (simp add: ext4_cache_extents_def)
qed

theorem cached_leaf_agrees_witness:
  "ext4_cache_extents demo_ops (demo_leaf [demo_ext 5 3 200, demo_ext 9 1 300]) =
     [(5, 3, 200, EXTENT_STATUS_WRITTEN), (8, 1, NOT 0, EXTENT_STATUS_HOLE), (9, 1, 300, EXTENT_STATUS_WRITTEN)] \<and>
   ext_lookup demo_ops [demo_ext 5 3 200, demo_ext 9 1 300] 7 = Some (202, False)"
proof -
  let ?leaf = "demo_leaf [demo_ext 5 3 200, demo_ext 9 1 300]"
  have c: "ext4_cache_extents demo_ops ?leaf =
     [(5, 3, 200, EXTENT_STATUS_WRITTEN), (8, 1, NOT 0, EXTENT_STATUS_HOLE), (9, 1, 300, EXTENT_STATUS_WRITTEN)]"
    by (simp add: ext4_cache_extents_def demo_ext_defs)
  have "read_extent_tree_block demo_ops demo_sb 1 False (\<lambda>_. Inr (?leaf, False, True)) \<lparr>ei_block = 5, ei_pblock = 50\<rparr> 0 = Inr ?leaf"
    by (simp add: read_extent_tree_block_def ext4_ext_check_def ext4_ext_max_entries_def ext4_ext_space_block_def eh_entries_def demo_sb_def
        ext4_valid_extent_entries_def ext4_valid_extent_def demo_ext_defs)
  from cached_leaf_agrees [OF demo_ops_laws this, of _ False True] have
    "es_about (5, 3, 200, EXTENT_STATUS_WRITTEN) 7 \<longrightarrow>
     ext_lookup demo_ops (eh_exts ?leaf) 7 = es_says (5, 3, 200, EXTENT_STATUS_WRITTEN) 7"
    by (simp add: c)
  moreover have "eh_exts ?leaf = [demo_ext 5 3 200, demo_ext 9 1 300]" by (simp add: demo_leaf_def)
  ultimately show ?thesis by (simp add: c es_about_def)
qed

section \<open>Merging\<close>

definition ext4_can_extents_be_merged :: "ext_ops \<Rightarrow> ext4_extent \<Rightarrow> ext4_extent \<Rightarrow> bool" where
  "ext4_can_extents_be_merged X e1 e2 =
     (let ext1_ee_len = ext4_ext_get_actual_len X e1; ext2_ee_len = ext4_ext_get_actual_len X e2
      in if ext4_ext_is_unwritten X e1 \<noteq> ext4_ext_is_unwritten X e2 then False
         else if ee_block e1 + of_nat ext1_ee_len \<noteq> ee_block e2 then False
         else if ext1_ee_len + ext2_ee_len > EXT_INIT_MAX_LEN X then False
         else if ext4_ext_is_unwritten X e1 \<and> ext1_ee_len + ext2_ee_len > EXT_UNWRITTEN_MAX_LEN X then False
         else ee_pblock e1 + of_nat ext1_ee_len = ee_pblock e2)"

text \<open>The length of two extents in the state of the first, as the code writes it.\<close>

definition joined_len :: "ext_ops \<Rightarrow> ext4_extent \<Rightarrow> ext4_extent \<Rightarrow> u16" where
  "joined_len X e1 e2 =
     (let l = of_nat (ext4_ext_get_actual_len X e1 + ext4_ext_get_actual_len X e2)
      in if ext4_ext_is_unwritten X e1 then mark_unwritten X l else l)"

text \<open>\<open>ext4_ext_try_to_merge_right\<close> at an extent, given those to its right in the leaf, and whether it merged.\<close>

fun merge_run :: "ext_ops \<Rightarrow> ext4_extent \<Rightarrow> ext4_extent list \<Rightarrow> ext4_extent list \<times> bool" where
  "merge_run X e [] = ([e], False)"
| "merge_run X e (f # fs) =
     (if ext4_can_extents_be_merged X e f then (fst (merge_run X (e\<lparr>ee_len := joined_len X e f\<rparr>) fs), True)
      else (e # f # fs, False))"

definition ext4_ext_try_to_merge_right :: "ext_ops \<Rightarrow> ext4_extent list \<Rightarrow> nat \<Rightarrow> ext4_extent list \<times> bool" where
  "ext4_ext_try_to_merge_right X es k =
     (case merge_run X (es ! k) (drop (Suc k) es) of (fs, merge_done) \<Rightarrow> (take k es @ fs, merge_done))"

text \<open>\<open>ext4_ext_try_to_merge\<close>; moving a single leaf up into the inode changes no extent.\<close>

definition ext4_ext_try_to_merge :: "ext_ops \<Rightarrow> ext4_extent list \<Rightarrow> nat \<Rightarrow> ext4_extent list" where
  "ext4_ext_try_to_merge X es k =
     (case (if k > 0 then ext4_ext_try_to_merge_right X es (k - 1) else (es, False)) of
        (es1, merge_done) \<Rightarrow> if \<not> merge_done then fst (ext4_ext_try_to_merge_right X es1 k) else es1)"

lemma init_len:
  assumes "ext_laws X" "0 < n" "n \<le> 32768"
  shows "\<not> is_unwritten X (of_nat n)" "actual_len X (of_nat n) = n"
  using assms by (simp_all add: ext_laws_def)

lemma unwritten_len:
  assumes "ext_laws X" "0 < n" "n \<le> 32767"
  shows "is_unwritten X (mark_unwritten X (of_nat n))" "actual_len X (mark_unwritten X (of_nat n)) = n"
  using assms by (simp_all add: ext_laws_def)

lemma joined_len_laws:
  assumes "ext_laws X" "ext4_can_extents_be_merged X e f" "ext_ok X e" "ext_ok X f"
  shows "actual_len X (joined_len X e f) = ext4_ext_get_actual_len X e + ext4_ext_get_actual_len X f"
    "is_unwritten X (joined_len X e f) = ext4_ext_is_unwritten X e"
proof -
  let ?n = "ext4_ext_get_actual_len X e + ext4_ext_get_actual_len X f"
  have m: "EXT_INIT_MAX_LEN X = 32768" "EXT_UNWRITTEN_MAX_LEN X = 32767" using assms(1) by (simp_all add: ext_laws_def)
  have n: "0 < ?n" "?n \<le> 32768" "ext4_ext_is_unwritten X e \<Longrightarrow> ?n \<le> 32767"
    using assms(2-4) by (auto simp: ext4_can_extents_be_merged_def ext_ok_def Let_def m split: if_splits)
  show "actual_len X (joined_len X e f) = ?n" "is_unwritten X (joined_len X e f) = ext4_ext_is_unwritten X e"
    unfolding joined_len_def Let_def
    using init_len [OF assms(1) n(1,2)] unwritten_len [OF assms(1) n(1)] n(3) by simp_all
qed

lemma merge_adjacent:
  assumes "ext_laws X" "ext4_can_extents_be_merged X e f" "ext_ok X e" "ext_ok X f"
  defines "m \<equiv> e\<lparr>ee_len := joined_len X e f\<rparr>"
  shows "ext_end X e = ext_start f" "ext_start m = ext_start e" "ext_end X m = ext_end X f" "ext_ok X m"
    "ext_lookup X (m # fs) lb = ext_lookup X (e # f # fs) lb"
proof -
  note j = joined_len_laws [OF assms(1-4)]
  have u: "ext4_ext_is_unwritten X e = ext4_ext_is_unwritten X f" "ee_block e + of_nat (ext4_ext_get_actual_len X e) = ee_block f"
    "ee_pblock e + of_nat (ext4_ext_get_actual_len X e) = ee_pblock f"
    using assms(2) by (auto simp: ext4_can_extents_be_merged_def Let_def split: if_splits)
  have l: "unat (of_nat (ext4_ext_get_actual_len X e) :: u32) = ext4_ext_get_actual_len X e"
    using actual_len_bound [OF assms(1), of "ee_len e"] by (simp add: unsigned_of_nat take_bit_nat_eq_self)
  show s: "ext_end X e = ext_start f"
    using assms(3) l unfolding u(2) [symmetric] ext_start_def ext_end_def ext_ok_def by (simp add: unat_word_ariths)
  show st: "ext_start m = ext_start e" by (simp add: m_def ext_start_def)
  show en: "ext_end X m = ext_end X f" using s j by (simp add: m_def ext_end_def ext_start_def)
  show "ext_ok X m" using en assms(3,4) j by (simp add: m_def ext_ok_def)
  have pos: "ext_end X e = ext_start e + ext4_ext_get_actual_len X e" by (simp add: ext_end_def ext_start_def)
  have im: "image_of X m lb = (if covers X e lb then image_of X e lb else image_of X f lb)" if "covers X m lb"
  proof (cases "covers X e lb")
    case False
    then have "lb - ext_start e = (lb - ext_start f) + ext4_ext_get_actual_len X e"
      using that s pos st by (auto simp: covers_def)
    then show ?thesis using False u(1,3) [symmetric] j(2) st by (simp add: image_of_def m_def algebra_simps)
  qed (use j st in \<open>simp add: image_of_def m_def\<close>)
  have "covers X m lb \<longleftrightarrow> covers X e lb \<or> covers X f lb"
    using s st en pos assms(3,4) by (auto simp: covers_def ext_ok_def ext_end_def ext_start_def)
  then show "ext_lookup X (m # fs) lb = ext_lookup X (e # f # fs) lb" using im by auto
qed

lemma merge_run_ok:
  assumes "ext_laws X" "exts_ok X (e # fs)"
  shows "exts_ok X (fst (merge_run X e fs)) \<and> (\<forall>lb. ext_lookup X (fst (merge_run X e fs)) lb = ext_lookup X (e # fs) lb) \<and>
    (\<forall>g \<in> set (fst (merge_run X e fs)). ext_start e \<le> ext_start g)"
  using assms(2)
proof (induction fs arbitrary: e)
  case (Cons f fs)
  show ?case
  proof (cases "ext4_can_extents_be_merged X e f")
    case True
    let ?m = "e\<lparr>ee_len := joined_len X e f\<rparr>"
    have ok: "ext_ok X e" "ext_ok X f" using Cons.prems by simp_all
    note m = merge_adjacent [OF assms(1) True ok]
    have "exts_ok X (?m # fs)" using Cons.prems m(3,4) by simp
    from Cons.IH [OF this] show ?thesis using True m(2,5) by simp
  next
    case False
    then show ?thesis using Cons.prems by (auto simp: ext_end_def ext_start_def)
  qed
qed simp

text \<open>Two lists of extents with the same mapping, and nothing before a given block.\<close>

definition same_map :: "ext_ops \<Rightarrow> ext4_extent list \<Rightarrow> ext4_extent list \<Rightarrow> bool" where
  "same_map X es fs = (\<forall>lb. ext_lookup X es lb = ext_lookup X fs lb)"

lemma merge_right_ok:
  assumes "ext_laws X" "exts_ok X es" "k < length es"
  shows "exts_ok X (fst (ext4_ext_try_to_merge_right X es k)) \<and>
    same_map X (fst (ext4_ext_try_to_merge_right X es k)) es \<and>
    (\<not> snd (ext4_ext_try_to_merge_right X es k) \<longrightarrow> fst (ext4_ext_try_to_merge_right X es k) = es)"
proof -
  define as e bs where d: "as = take k es" "e = es ! k" "bs = drop (Suc k) es"
  have es: "as @ e # bs = es" using assms(3) by (simp add: d id_take_nth_drop [symmetric])
  have ok: "exts_ok X (e # bs)" "exts_ok X as" "\<forall>a \<in> set as. ext_end X a \<le> ext_start e"
    using assms(2) by (simp_all add: exts_ok_append flip: es)
  obtain fs dn where m: "merge_run X e bs = (fs, dn)" by fastforce
  note r = merge_run_ok [OF assms(1) ok(1), unfolded m fst_conv]
  have res: "ext4_ext_try_to_merge_right X es k = (as @ fs, dn)" by (simp add: ext4_ext_try_to_merge_right_def m flip: d)
  have "exts_ok X (as @ fs)" using r ok by (auto simp: exts_ok_append intro: le_trans)
  moreover have "same_map X (as @ fs) (as @ e # bs)" using r by (simp add: same_map_def ext_lookup_append split: option.splits)
  moreover have "\<not> dn \<Longrightarrow> fs = e # bs" using m by (cases bs) (auto split: if_splits)
  ultimately show ?thesis using es by (auto simp: res)
qed

lemma try_to_merge_ok:
  assumes "ext_laws X" "exts_ok X es" "k < length es"
  shows "exts_ok X (ext4_ext_try_to_merge X es k) \<and> same_map X (ext4_ext_try_to_merge X es k) es"
proof (cases "k > 0")
  case True
  have k: "k - 1 < length es" using assms(3) by simp
  obtain es1 d where m: "ext4_ext_try_to_merge_right X es (k - 1) = (es1, d)" by fastforce
  show ?thesis
    using merge_right_ok [OF assms(1,2) k] merge_right_ok [OF assms] m True
    by (auto simp: ext4_ext_try_to_merge_def)
next
  case False
  then show ?thesis using merge_right_ok [OF assms] by (simp add: ext4_ext_try_to_merge_def)
qed

section \<open>Insertion into a leaf\<close>

definition list_insert :: "nat \<Rightarrow> 'a \<Rightarrow> 'a list \<Rightarrow> 'a list" where
  "list_insert k x xs = take k xs @ x # drop k xs"

text \<open>
  \<open>ext4_ext_insert_extent\<close> for a leaf with room: joining the new extent to the one that the path
  points to or to a neighbour of it, else inserting it before or after that extent; then merging.
  \<open>pre_io\<close> is the flag \<open>EXT4_GET_BLOCKS_PRE_IO\<close>, under which nothing is joined. \<open>None\<close> is an empty extent
  or a failed assertion.
\<close>

definition leaf_place :: "ext4_extent list \<Rightarrow> nat option \<Rightarrow> ext4_extent \<Rightarrow> (ext4_extent list \<times> nat) option" where
  "leaf_place es near newext =
     (case near of
        None \<Rightarrow> Some (list_insert 0 newext es, 0)
      | Some k \<Rightarrow>
          if ee_block newext > ee_block (es ! k) then Some (list_insert (Suc k) newext es, Suc k)
          else if ee_block newext = ee_block (es ! k) then None
          else Some (list_insert k newext es, k))"

text \<open>Appending the new extent to the one at \<open>k\<close>, or prepending it.\<close>

definition prepended :: "ext_ops \<Rightarrow> ext4_extent \<Rightarrow> ext4_extent \<Rightarrow> ext4_extent" where
  "prepended X newext ex =
     ex\<lparr>ee_block := ee_block newext, ee_pblock := ee_pblock newext,
        ee_len := (let l = of_nat (ext4_ext_get_actual_len X ex + ext4_ext_get_actual_len X newext)
                   in if ext4_ext_is_unwritten X ex then mark_unwritten X l else l)\<rparr>"

definition join_at :: "ext_ops \<Rightarrow> ext4_extent list \<Rightarrow> bool \<Rightarrow> nat \<Rightarrow> ext4_extent \<Rightarrow> (ext4_extent list \<times> nat) option" where
  "join_at X es prepend k newext =
     (if \<not> prepend \<and> ext4_can_extents_be_merged X (es ! k) newext
      then Some (es[k := (es ! k)\<lparr>ee_len := joined_len X (es ! k) newext\<rparr>], k)
      else if ext4_can_extents_be_merged X newext (es ! k) then Some (es[k := prepended X newext (es ! k)], k)
      else None)"

definition leaf_join :: "ext_ops \<Rightarrow> ext4_extent list \<Rightarrow> nat \<Rightarrow> ext4_extent \<Rightarrow> (ext4_extent list \<times> nat) option" where
  "leaf_join X es k newext =
     (if Suc k < length es \<and> ee_block (es ! k) + of_nat (ext4_ext_get_actual_len X (es ! k)) < ee_block newext
      then join_at X es True (Suc k) newext
      else if k > 0 \<and> ee_block newext + of_nat (ext4_ext_get_actual_len X newext) < ee_block (es ! k)
      then join_at X es False (k - 1) newext
      else join_at X es False k newext)"

definition ext4_ext_insert_extent ::
    "ext_ops \<Rightarrow> bool \<Rightarrow> ext4_extent list \<Rightarrow> nat option \<Rightarrow> ext4_extent \<Rightarrow> ext4_extent list option" where
  "ext4_ext_insert_extent X pre_io es near newext =
     (if ext4_ext_get_actual_len X newext = 0 then None
      else (case (case near of Some k \<Rightarrow> if pre_io then None else leaf_join X es k newext | None \<Rightarrow> None) of
              Some (es', k) \<Rightarrow> Some (ext4_ext_try_to_merge X es' k)
            | None \<Rightarrow>
                (case leaf_place es near newext of
                   None \<Rightarrow> None
                 | Some (es', k) \<Rightarrow> Some (if pre_io then es' else ext4_ext_try_to_merge X es' k))))"

text \<open>The new extent is in order and overlaps none, and the path is the one to its first block.\<close>

definition fits_in :: "ext_ops \<Rightarrow> ext4_extent list \<Rightarrow> ext4_extent \<Rightarrow> bool" where
  "fits_in X es e = (ext_ok X e \<and> (\<forall>f \<in> set es. ext_end X f \<le> ext_start e \<or> ext_end X e \<le> ext_start f))"

definition insert_point :: "ext4_extent list \<Rightarrow> ext4_extent \<Rightarrow> nat" where
  "insert_point es e = length (filter (\<lambda>f. ee_block f \<le> ee_block e) es)"

lemma sorted_filter_take:
  assumes "sorted_wrt (<) (map ee_block es)"
  shows "filter (\<lambda>f. ee_block f \<le> b) es = take (length (filter (\<lambda>f. ee_block f \<le> b) es)) es \<and>
    (\<forall>f \<in> set (drop (length (filter (\<lambda>f. ee_block f \<le> b) es)) es). b < ee_block f)"
  using assms
proof (induction es)
  case (Cons e es)
  show ?case
  proof (cases "ee_block e \<le> b")
    case False
    then have "filter (\<lambda>f. ee_block f \<le> b) es = []"
      using Cons.prems by (fastforce simp: filter_empty_conv)
    then show ?thesis using False Cons.prems by (auto simp: not_le intro: less_trans)
  qed (use Cons in simp)
qed simp

lemma fits_split:
  assumes "exts_ok X es" "fits_in X es e"
  shows "exts_ok X (list_insert (insert_point es e) e es)"
    "same_map X (list_insert (insert_point es e) e es) (e # es)"
    "\<forall>f \<in> set (take (insert_point es e) es). ext_end X f \<le> ext_start e"
    "\<forall>f \<in> set (drop (insert_point es e) es). ext_end X e \<le> ext_start f"
proof -
  let ?n = "insert_point es e"
  note s = sorted_filter_take [OF exts_ok_starts [OF assms(1)], of "ee_block e", folded insert_point_def]
  have l: "ext_end X f \<le> ext_start e" if "f \<in> set (take ?n es)" for f
  proof -
    have "f \<in> set (filter (\<lambda>f. ee_block f \<le> ee_block e) es)" using that s by metis
    then have f: "f \<in> set es" "ext_start f \<le> ext_start e" by (auto simp: ext_start_def word_le_nat_alt)
    then show ?thesis using assms(2) by (auto simp: fits_in_def ext_ok_def ext_end_def ext_start_def)
  qed
  have r: "ext_end X e \<le> ext_start f" if "f \<in> set (drop ?n es)" for f
  proof -
    have "ee_block e < ee_block f" using that s by blast
    then have f: "f \<in> set es" "ext_start e < ext_start f" using that by (auto simp: ext_start_def word_less_nat_alt dest: in_set_dropD)
    then show ?thesis using assms by (auto simp: fits_in_def exts_ok_def ext_ok_def ext_end_def ext_start_def)
  qed
  show "\<forall>f \<in> set (take ?n es). ext_end X f \<le> ext_start e" "\<forall>f \<in> set (drop ?n es). ext_end X e \<le> ext_start f"
    using l r by simp_all
  have sp: "exts_ok X (take ?n es)" "exts_ok X (drop ?n es)"
    "\<forall>f \<in> set (take ?n es). \<forall>g \<in> set (drop ?n es). ext_end X f \<le> ext_start g"
    using assms(1) exts_ok_append [of X "take ?n es" "drop ?n es"] by simp_all
  show "exts_ok X (list_insert ?n e es)"
    using sp l r assms(2) by (auto simp: list_insert_def exts_ok_append fits_in_def)
  have "ext_lookup X (take ?n es) lb = None" if "covers X e lb" for lb
    using l that by (fastforce simp: ext_lookup_None covers_def)
  then show "same_map X (list_insert ?n e es) (e # es)"
    using ext_lookup_append [of X "take ?n es" "drop ?n es"]
    by (auto simp: same_map_def list_insert_def ext_lookup_append split: option.splits)
qed

lemma leaf_place_ok:
  assumes "exts_ok X es" "fits_in X es e" "near = (if es = [] then None else Some (flat_pos es (ee_block e)))"
  shows "leaf_place es near e = Some (list_insert (insert_point es e) e es, insert_point es e)"
proof (cases "es = []")
  case True
  then show ?thesis using assms(3) by (simp add: leaf_place_def insert_point_def)
next
  case False
  let ?n = "insert_point es e" and ?k = "flat_pos es (ee_block e)"
  have k: "?k = ?n - 1" by (simp add: flat_pos_def insert_point_def)
  note f = fits_split [OF assms(1,2)]
  have pos: "0 < ext4_ext_get_actual_len X f" if "f \<in> set (e # es)" for f
    using assms(1,2) that by (auto simp: exts_ok_def fits_in_def ext_ok_def)
  have le: "?n \<le> length es" by (simp add: insert_point_def)
  show ?thesis
  proof (cases "?n = 0")
    case True
    then have "ext_end X e \<le> ext_start (es ! 0)" using f(4) False by (cases es) auto
    then have "ee_block e < ee_block (es ! 0)"
      using pos [of e] by (simp add: ext_end_def ext_start_def word_less_nat_alt)
    then show ?thesis using False True assms(3) k by (auto simp: leaf_place_def)
  next
    case n: False
    then have "es ! ?k \<in> set (take ?n es)" using k le by (auto simp: in_set_conv_nth intro!: exI [of _ "?n - 1"])
    then have "ext_end X (es ! ?k) \<le> ext_start e" "es ! ?k \<in> set es" using f(3) in_set_takeD by fastforce+
    then have "ee_block (es ! ?k) < ee_block e"
      using pos [of "es ! ?k"] by (simp add: ext_end_def ext_start_def word_less_nat_alt)
    then show ?thesis using False n assms(3) k by (simp add: leaf_place_def)
  qed
qed


text \<open>Joining the new extent at its left or right neighbour.\<close>

lemma same_map_mid:
  assumes "same_map X (m # bs) (e # f # bs)" "\<And>a lb. a \<in> set as \<Longrightarrow> covers X n lb \<Longrightarrow> \<not> covers X a lb"
    and "{e, f} = {n, ex}" "\<And>lb. covers X n lb \<Longrightarrow> \<not> covers X ex lb"
  shows "same_map X (as @ m # bs) (n # as @ ex # bs)"
proof -
  have "ext_lookup X (as @ m # bs) lb = ext_lookup X (n # as @ ex # bs) lb" for lb
  proof -
    have "ext_lookup X (m # bs) lb = ext_lookup X (n # ex # bs) lb"
      using assms(1,3,4) by (auto simp: same_map_def doubleton_eq_iff)
    moreover have "covers X n lb \<Longrightarrow> ext_lookup X as lb = None" using assms(2) by (auto simp: ext_lookup_None)
    ultimately show ?thesis by (auto simp: ext_lookup_append split: option.splits)
  qed
  then show ?thesis by (simp add: same_map_def)
qed

lemma fits_disjoint: "fits_in X es n \<Longrightarrow> e \<in> set es \<Longrightarrow> covers X n lb \<Longrightarrow> \<not> covers X e lb"
  by (auto simp: fits_in_def covers_def)

lemma join_ok:
  assumes "ext_laws X" "exts_ok X es" "fits_in X es n" "k < length es"
  shows "ext4_can_extents_be_merged X (es ! k) n \<Longrightarrow>
      exts_ok X (es[k := (es ! k)\<lparr>ee_len := joined_len X (es ! k) n\<rparr>]) \<and>
      same_map X (es[k := (es ! k)\<lparr>ee_len := joined_len X (es ! k) n\<rparr>]) (n # es)" (is "?A \<Longrightarrow> ?B")
    and "ext4_can_extents_be_merged X n (es ! k) \<Longrightarrow>
      exts_ok X (es[k := n\<lparr>ee_len := joined_len X n (es ! k)\<rparr>]) \<and>
      same_map X (es[k := n\<lparr>ee_len := joined_len X n (es ! k)\<rparr>]) (n # es)" (is "?C \<Longrightarrow> ?D")
proof -
  define as ex bs where d: "as = take k es" "ex = es ! k" "bs = drop (Suc k) es"
  have es: "es = as @ ex # bs" "k = length as" using assms(4) by (simp_all add: d id_take_nth_drop)
  have ok: "ext_ok X ex" "exts_ok X as" "exts_ok X bs" "\<forall>a \<in> set as. ext_end X a \<le> ext_start ex"
    "\<forall>b \<in> set bs. ext_end X ex \<le> ext_start b" "\<forall>a \<in> set as. \<forall>b \<in> set bs. ext_end X a \<le> ext_start b"
    using assms(2) unfolding es(1) by (auto simp: exts_ok_append)
  have n: "ext_ok X n" using assms(3) by (simp add: fits_in_def)
  have ne: "ext_start e < ext_end X e" if "e \<in> set (n # ex # as @ bs)" for e
    using that assms(2) n unfolding es(1) by (auto simp: exts_ok_def ext_ok_def ext_end_def ext_start_def)
  have out: "ext_end X f \<le> ext_start n \<or> ext_end X n \<le> ext_start f" if "f \<in> set (as @ ex # bs)" for f
    using that assms(3) unfolding es(1) by (auto simp: fits_in_def)
  note dis = fits_disjoint [OF assms(3)]
  show ?B if c: ?A
  proof -
    define m where "m = ex\<lparr>ee_len := joined_len X ex n\<rparr>"
    note m = merge_adjacent [OF assms(1) c [folded d(2)] ok(1) n, folded m_def]
    have "\<forall>b \<in> set bs. ext_end X n \<le> ext_start b" using out ok(5) m(1) ne by fastforce
    then have "exts_ok X (as @ m # bs)" using ok m(2-4) by (auto simp: exts_ok_append)
    moreover have "same_map X (as @ m # bs) (n # as @ ex # bs)"
      by (rule same_map_mid [of X m bs ex n]) (use m(5) dis es(1) in \<open>auto simp: same_map_def\<close>)
    ultimately show ?thesis by (simp add: d(2) [symmetric] m_def [symmetric]) (simp add: es)
  qed
  show ?D if c: ?C
  proof -
    define m where "m = n\<lparr>ee_len := joined_len X n ex\<rparr>"
    note m = merge_adjacent [OF assms(1) c [folded d(2)] n ok(1), folded m_def]
    have "\<forall>a \<in> set as. ext_end X a \<le> ext_start n" using out ok(4) m(1) ne by fastforce
    then have "exts_ok X (as @ m # bs)" using ok m(2-4) by (auto simp: exts_ok_append)
    moreover have "same_map X (as @ m # bs) (n # as @ ex # bs)"
      by (rule same_map_mid [of X m bs n ex]) (use m(5) dis es(1) in \<open>auto simp: same_map_def\<close>)
    ultimately show ?thesis by (simp add: d(2) [symmetric] m_def [symmetric]) (simp add: es)
  qed
qed

lemma prepended_eq:
  "ext4_can_extents_be_merged X n ex \<Longrightarrow> prepended X n ex = n\<lparr>ee_len := joined_len X n ex\<rparr>"
  by (cases n; cases ex)
    (auto simp: prepended_def joined_len_def ext4_can_extents_be_merged_def Let_def add.commute split: if_splits)

lemma join_at_ok:
  assumes "ext_laws X" "exts_ok X es" "fits_in X es n" "k < length es" "join_at X es p k n = Some (es', k')"
  shows "exts_ok X es' \<and> same_map X es' (n # es) \<and> k' < length es'"
  using assms(4,5) join_ok [OF assms(1-4)] by (auto simp: join_at_def prepended_eq split: if_splits)

lemma leaf_join_ok:
  assumes "ext_laws X" "exts_ok X es" "fits_in X es n" "k < length es" "leaf_join X es k n = Some (es', k')"
  shows "exts_ok X es' \<and> same_map X es' (n # es) \<and> k' < length es'"
proof -
  obtain p j where "j < length es" "join_at X es p j n = Some (es', k')"
    using assms(4,5) less_imp_diff_less [OF assms(4), of 1] unfolding leaf_join_def by (metis (full_types))
  then show ?thesis by (rule join_at_ok [OF assms(1-3)])
qed

lemma same_map_trans: "same_map X a b \<Longrightarrow> same_map X b c \<Longrightarrow> same_map X a c"
  by (simp add: same_map_def)

text \<open>
  Result insert_extent_ok: inserting an extent that overlaps none, through the path to its first block,
  succeeds in a leaf with room, whether it is joined to a neighbour or not; the extents stay in order and without overlap, the
  blocks of the new extent get its mapping and every other block keeps its own.
\<close>

theorem insert_extent_ok:
  assumes "ext_laws X" "exts_ok X es" "fits_in X es n" "near = ext4_ext_binsearch (leaf\<lparr>eh_exts := es\<rparr>) (ee_block n)"
  shows "\<exists>es'. ext4_ext_insert_extent X pre_io es near n = Some es' \<and> exts_ok X es' \<and>
    (\<forall>lb. ext_lookup X es' lb = (if covers X n lb then Some (image_of X n lb) else ext_lookup X es lb))"
proof -
  have near: "near = (if es = [] then None else Some (flat_pos es (ee_block n)))"
    using assms(2,4) binsearch_pos [of X "leaf\<lparr>eh_exts := es\<rparr>" "ee_block n"] by (simp add: ext4_ext_binsearch_def)
  have len: "ext4_ext_get_actual_len X n \<noteq> 0" using assms(3) by (simp add: fits_in_def ext_ok_def)
  have fin: "exts_ok X es' \<and> (\<forall>lb. ext_lookup X es' lb = (if covers X n lb then Some (image_of X n lb) else ext_lookup X es lb))"
    if "exts_ok X es'" "same_map X es' (n # es)" for es'
    using that by (simp add: same_map_def)
  have merged: "exts_ok X (ext4_ext_try_to_merge X es' k) \<and> same_map X (ext4_ext_try_to_merge X es' k) (n # es)"
    if "exts_ok X es'" "same_map X es' (n # es)" "k < length es'" for es' k
    using try_to_merge_ok [OF assms(1) that(1,3)] same_map_trans that(2) by blast
  show ?thesis
  proof (cases "es \<noteq> [] \<and> \<not> pre_io \<and> leaf_join X es (flat_pos es (ee_block n)) n \<noteq> None")
    case True
    then obtain es' k where j: "leaf_join X es (flat_pos es (ee_block n)) n = Some (es', k)" by auto
    have "flat_pos es (ee_block n) < length es" using True flat_pos_less by simp
    note jo = leaf_join_ok [OF assms(1-3) this j]
    have "ext4_ext_insert_extent X pre_io es near n = Some (ext4_ext_try_to_merge X es' k)"
      using True near len j by (simp add: ext4_ext_insert_extent_def)
    then show ?thesis using merged [of es' k] fin jo by blast
  next
    case False
    let ?es = "list_insert (insert_point es n) n es"
    note pl = leaf_place_ok [OF assms(2,3) near]
    have k: "insert_point es n < length ?es" by (simp add: list_insert_def insert_point_def le_imp_less_Suc)
    have e: "ext4_ext_insert_extent X pre_io es near n =
        Some (if pre_io then ?es else ext4_ext_try_to_merge X ?es (insert_point es n))"
      using False near len pl by (auto simp: ext4_ext_insert_extent_def split: option.split if_splits)
    show ?thesis using e fits_split(1,2) [OF assms(2,3)] merged [OF _ _ k] fin by (cases pre_io) auto
  qed
qed

theorem insert_extent_ok_witness:
  "\<exists>es'. ext4_ext_insert_extent demo_ops False [demo_ext 0 2 100]
     (ext4_ext_binsearch (demo_leaf [demo_ext 0 2 100]) 2) (demo_ext 2 1 102) = Some es' \<and> ext_lookup demo_ops es' 2 = Some (102, False)"
  using insert_extent_ok [OF demo_ops_laws, of "[demo_ext 0 2 100]" "demo_ext 2 1 102" _ "demo_leaf []" False]
  by (fastforce simp: fits_in_def covers_def image_of_def demo_ext_defs)

text \<open>
  Result merge_keeps_map: \<open>ext4_ext_try_to_merge\<close> at any extent of a leaf leaves the extents in order and
  without overlap, and every logical block with the same physical block and the same state.
\<close>

theorem merge_keeps_map:
  assumes "ext_laws X" "exts_ok X es" "k < length es"
  shows "exts_ok X (ext4_ext_try_to_merge X es k) \<and> same_map X (ext4_ext_try_to_merge X es k) es"
  using assms by (rule try_to_merge_ok)

theorem merge_keeps_map_witness:
  "ext4_ext_try_to_merge demo_ops [demo_ext 0 2 100, demo_ext 2 1 102] 1 = [demo_ext 0 3 100] \<and>
   same_map demo_ops [demo_ext 0 3 100] [demo_ext 0 2 100, demo_ext 2 1 102]"
proof -
  have e: "ext4_ext_try_to_merge demo_ops [demo_ext 0 2 100, demo_ext 2 1 102] 1 = [demo_ext 0 3 100]"
    by (simp add: ext4_ext_try_to_merge_def ext4_ext_try_to_merge_right_def ext4_can_extents_be_merged_def joined_len_def demo_ext_defs)
  have "exts_ok demo_ops [demo_ext 0 2 100, demo_ext 2 1 102]" by (simp add: demo_ext_defs)
  from merge_keeps_map [OF demo_ops_laws this, of 1] show ?thesis using e by simp
qed

section \<open>Operations that keep the mapping\<close>

text \<open>A list that maps the same blocks stays between the bounds of the other.\<close>

lemma same_map_bounds:
  assumes "exts_ok X es" "exts_ok X fs" "same_map X es fs" "e \<in> set es"
  shows "(\<forall>f \<in> set fs. lo \<le> ext_start f) \<Longrightarrow> lo \<le> ext_start e" "(\<forall>f \<in> set fs. ext_end X f \<le> hi) \<Longrightarrow> ext_end X e \<le> hi"
proof -
  have pos: "0 < ext4_ext_get_actual_len X e" using assms(1,4) by (simp add: exts_ok_def ext_ok_def)
  have mem: "\<exists>f \<in> set fs. covers X f lb" if "covers X e lb" for lb
  proof -
    have "ext_lookup X es lb \<noteq> None" using that assms(4) by (auto simp: ext_lookup_None)
    then have "ext_lookup X fs lb \<noteq> None" using assms(3) by (simp add: same_map_def)
    then show ?thesis by (auto simp: ext_lookup_None)
  qed
  show "lo \<le> ext_start e" if "\<forall>f \<in> set fs. lo \<le> ext_start f"
    using mem [of "ext_start e"] pos that by (fastforce simp: covers_def ext_start_def ext_end_def)
  show "ext_end X e \<le> hi" if "\<forall>f \<in> set fs. ext_end X f \<le> hi"
    using mem [of "ext_end X e - 1"] pos that by (fastforce simp: covers_def ext_start_def ext_end_def)
qed

lemma exts_ok_middle:
  assumes "exts_ok X (as @ ms @ bs)" "exts_ok X ms'" "same_map X ms' ms"
  shows "exts_ok X (as @ ms' @ bs) \<and> same_map X (as @ ms' @ bs) (as @ ms @ bs)"
proof -
  have ms: "exts_ok X ms" using assms(1) by (simp add: exts_ok_append)
  have "ext_end X a \<le> ext_start e" if "a \<in> set as" "e \<in> set ms'" for a e
    using same_map_bounds(1) [OF assms(2) ms assms(3) that(2)] assms(1) that(1) by (auto simp: exts_ok_append)
  moreover have "ext_end X e \<le> ext_start b" if "b \<in> set bs" "e \<in> set ms'" for b e
    using same_map_bounds(2) [OF assms(2) ms assms(3) that(2)] assms(1) that(1) by (auto simp: exts_ok_append)
  moreover have "ext_lookup X (ms' @ bs) lb = ext_lookup X (ms @ bs) lb" for lb
    using assms(3) by (simp add: ext_lookup_append same_map_def)
  ultimately show ?thesis using assms(1,2) by (auto simp: exts_ok_append same_map_def ext_lookup_append [of X as] split: option.splits)
qed

text \<open>
  The contract of the operations that rearrange the extents of a leaf: on the lists of their domain they keep the order and every
  mapping. What is kept within the leaf is then kept in the whole file.
\<close>

locale mapping_keeper =
  fixes X :: ext_ops and f :: "ext4_extent list \<Rightarrow> ext4_extent list" and dom :: "ext4_extent list \<Rightarrow> bool"
  assumes keeps: "dom es \<Longrightarrow> exts_ok X es \<Longrightarrow> exts_ok X (f es) \<and> same_map X (f es) es"
begin

lemma within:
  assumes "dom es" "exts_ok X (as @ es @ bs)"
  shows "exts_ok X (as @ f es @ bs) \<and> same_map X (as @ f es @ bs) (as @ es @ bs)"
proof -
  have "exts_ok X es" using assms(2) by (simp add: exts_ok_append)
  then show ?thesis using exts_ok_middle [OF assms(2)] keeps [OF assms(1)] by blast
qed

lemma in_file:
  assumes "dom (drop lo (take hi es))" "exts_ok X es" "lo \<le> hi"
  shows "exts_ok X (take lo es @ f (drop lo (take hi es)) @ drop hi es) \<and>
    same_map X (take lo es @ f (drop lo (take hi es)) @ drop hi es) es"
proof -
  have "es = take lo es @ drop lo (take hi es) @ drop hi es"
    using assms(3) by (metis append_assoc append_take_drop_id min.absorb1 take_take)
  then show ?thesis using within [OF assms(1), of "take lo es" "drop hi es"] assms(2) by simp
qed

end

interpretation merging: mapping_keeper X "\<lambda>es. ext4_ext_try_to_merge X es k" "\<lambda>es. ext_laws X \<and> k < length es" for X k
  by unfold_locales (simp add: try_to_merge_ok)

end
