(* ===== verification/Evfs_Extent.thy ===== *)
theory Evfs_Extent
  imports Evfs_Inode Ext4_Extent
begin

unbundle bit_operations_syntax

text \<open>
  The extent operations of \<open>fs/ext4/evfs.c\<close> and the splitting of an extent in \<open>fs/ext4/extents.c\<close>. The
  extents of an inode are \<open>f_extents\<close>, the list of those in all leaves of its tree; on it \<open>ext4_find_extent\<close>
  and \<open>ext4_ext_next_allocated_block\<close> behave as \<open>Ext4_Extent\<close> shows. Where a function stays within one leaf,
  the kernel's \<open>leaf_bounds\<close> says which stretch of the list the leaf is; it is an arbitrary function of the
  history, so that what is proved holds for every shape of the tree. The calls that can fail
  (\<open>ext4_find_extent\<close>, \<open>ext4_ext_get_access\<close>, \<open>ext4_ext_dirty\<close>, \<open>ext4_ext_insert_extent\<close>) answer an error number.
\<close>

section \<open>Splitting\<close>

definition upd_extents :: "u64 \<Rightarrow> (ext4_extent list \<Rightarrow> ext4_extent list) \<Rightarrow> fs \<Rightarrow> fs" where
  "upd_extents ino f s = s\<lparr>f_extents := (f_extents s)(ino := f (f_extents s ino))\<rparr>"

definition put_extents :: "u64 \<Rightarrow> ext4_extent list \<Rightarrow> unit handler" where
  "put_extents ino es = modify (upd_extents ino (\<lambda>_. es))"

text \<open>
  \<open>ext4_split_extent_at\<close> of the extent at position \<open>k\<close> with the flag \<open>EXT4_GET_BLOCKS_PRE_IO\<close> and without
  \<open>EXT4_EXT_MAY_ZEROOUT\<close>; \<open>unwrit1\<close> and \<open>unwrit2\<close> are the flags that mark the two halves. \<open>None\<close> is a failed
  \<open>BUG_ON\<close>.
\<close>

definition split_halves :: "ext_ops \<Rightarrow> bool \<Rightarrow> bool \<Rightarrow> u32 \<Rightarrow> ext4_extent \<Rightarrow> ext4_extent \<times> ext4_extent" where
  "split_halves X unwrit1 unwrit2 split ex =
     (let l1 = of_nat (unat (split - ee_block ex));
          l2 = of_nat (ext4_ext_get_actual_len X ex - unat (split - ee_block ex))
      in (ex\<lparr>ee_len := if unwrit1 then mark_unwritten X l1 else l1\<rparr>,
          \<lparr>ee_block = split, ee_len = if unwrit2 then mark_unwritten X l2 else l2,
           ee_pblock = ucast (split - ee_block ex) + ee_pblock ex\<rparr>))"

definition split_at :: "ext_ops \<Rightarrow> bool \<Rightarrow> bool \<Rightarrow> nat \<Rightarrow> u32 \<Rightarrow> ext4_extent list \<Rightarrow> ext4_extent list" where
  "split_at X unwrit1 unwrit2 k split es =
     list_insert (Suc k) (snd (split_halves X unwrit1 unwrit2 split (es ! k)))
       (es[k := fst (split_halves X unwrit1 unwrit2 split (es ! k))])"

text \<open>
  \<open>ext4_ext_insert_extent\<close> of the second half behind position \<open>k\<close>: finding or making room in a leaf can fail before
  the extent is inserted, \<open>ext4_ext_correct_indexes\<close> and \<open>ext4_ext_dirty\<close> after it.
\<close>

definition insert_second :: "kernel \<Rightarrow> u64 \<Rightarrow> nat \<Rightarrow> ext4_extent \<Rightarrow> int handler" where
  "insert_second K ino k newex = do {
     err \<leftarrow> call K (Insert_extent ino);
     if err \<noteq> 0 then ret err else do {
     modify (upd_extents ino (list_insert (Suc k) newex));
     err \<leftarrow> call K (Ext_dirty ino);
     if err \<noteq> 0 then ret err else call K (Ext_dirty ino)
     }}"

definition fix_extent_len :: "kernel \<Rightarrow> u64 \<Rightarrow> nat \<Rightarrow> ext4_extent \<Rightarrow> int \<Rightarrow> int option handler" where
  "fix_extent_len K ino k orig_ex err = do {
     modify (upd_extents ino (\<lambda>es. es[k := (es ! k)\<lparr>ee_len := ee_len orig_ex\<rparr>]));
     call K (Ext_dirty ino);
     ret (Some err)
   }"

definition ext4_split_extent_at ::
    "kernel \<Rightarrow> ext_ops \<Rightarrow> u64 \<Rightarrow> nat \<Rightarrow> u32 \<Rightarrow> bool \<Rightarrow> bool \<Rightarrow> int option handler" where
  "ext4_split_extent_at K X ino k split unwrit1 unwrit2 = do {
     ex \<leftarrow> gets (\<lambda>s. f_extents s ino ! k);
     if split < ee_block ex \<or> split \<ge> ee_block ex + of_nat (ext4_ext_get_actual_len X ex) then ret None
     else if \<not> ext4_ext_is_unwritten X ex \<and> (unwrit1 \<or> unwrit2) then ret None
     else do {
     err \<leftarrow> call K (Ext_get_access ino);
     if err \<noteq> 0 then ret (Some err)
     else if split = ee_block ex then do {
       modify (upd_extents ino (\<lambda>es. es[k := ex\<lparr>ee_len :=
         if unwrit2 then mark_unwritten X (ee_len ex) else mark_initialized X (ee_len ex)\<rparr>]));
       err \<leftarrow> call K (Ext_dirty ino);
       ret (Some err)
     } else do {
     modify (upd_extents ino (\<lambda>es. es[k := fst (split_halves X unwrit1 unwrit2 split ex)]));
     err \<leftarrow> call K (Ext_dirty ino);
     if err \<noteq> 0 then fix_extent_len K ino k ex err
     else do {
     err \<leftarrow> insert_second K ino k (snd (split_halves X unwrit1 unwrit2 split ex));
     if err \<noteq> - ENOSPC \<and> err \<noteq> - EDQUOT \<and> err \<noteq> - ENOMEM then ret (Some err)
     else fix_extent_len K ino k ex err
     }}}}"

definition ext4_force_split_extent_at :: "kernel \<Rightarrow> ext_ops \<Rightarrow> u64 \<Rightarrow> nat \<Rightarrow> u32 \<Rightarrow> int option handler" where
  "ext4_force_split_extent_at K X ino k lblk = do {
     unwritten \<leftarrow> gets (\<lambda>s. ext4_ext_is_unwritten X (f_extents s ino ! k));
     ext4_split_extent_at K X ino k lblk unwritten unwritten
   }"

text \<open>\<open>ext4_ext_try_to_merge\<close> within the leaf of position \<open>k\<close>.\<close>

definition merge_in_leaf :: "kernel \<Rightarrow> ext_ops \<Rightarrow> u64 \<Rightarrow> nat \<Rightarrow> unit handler" where
  "merge_in_leaf K X ino k = modify (\<lambda>s.
     let es = f_extents s ino; lo = min (fst (leaf_bounds K (f_calls s) k)) k; hi = max k (snd (leaf_bounds K (f_calls s) k));
         leaf = drop lo (take (Suc hi) es)
     in upd_extents ino (\<lambda>_. take lo es @ ext4_ext_try_to_merge X leaf (k - lo) @ drop (Suc hi) es) s)"

section \<open>Replacing one stretch of blocks\<close>

record ext4_evfs_ext =
  log_start :: u32
  phy_start :: u64
  len :: u32

definition zero_ext :: ext4_evfs_ext where
  "zero_ext = \<lparr>log_start = 0, phy_start = 0, len = 0\<rparr>"

text \<open>
  One round of the loop of \<open>__evfs_extent_map\<close>: a fault, another round with new values of \<open>lblk\<close> and
  \<open>len\<close>, or the end with the return value, \<open>curr\<close> and \<open>next\<close>. When \<open>ext4_find_extent\<close> fails, the code
  passes the error pointer to \<open>ext4_free_ext_path\<close>, which dereferences it.
\<close>

datatype map_step = Map_fault | Map_again u32 u32 | Map_done int ext4_evfs_ext ext4_evfs_ext

definition skip_hole :: "ext4_evfs_ext \<Rightarrow> u32 \<Rightarrow> map_step" where
  "skip_hole cur jump =
     Map_done 0 (cur\<lparr>len := jump\<rparr>)
       \<lparr>log_start = log_start cur + jump, phy_start = phy_start cur + ucast jump, len = len cur - jump\<rparr>"

definition map_swap :: "kernel \<Rightarrow> ext_ops \<Rightarrow> u64 \<Rightarrow> ext4_evfs_ext \<Rightarrow> u32 \<Rightarrow> u32 \<Rightarrow> nat \<Rightarrow> map_step handler" where
  "map_swap K X ino cur lblk ln k = do {
     es \<leftarrow> gets (\<lambda>s. f_extents s ino);
     put_extents ino (es[k := (es ! k)\<lparr>ee_pblock := phy_start cur + ucast lblk - ucast (log_start cur)\<rparr>]);
     merge_in_leaf K X ino k;
     err \<leftarrow> call K (Ext_dirty ino);
     void_call (Free_ext_path ino);
     if err \<noteq> 0 then ret (Map_done err cur zero_ext)
     else (let e_end = ee_block (es ! k) + of_nat (ext4_ext_get_actual_len X (es ! k));
               nxt = (if lblk + len cur > e_end
                      then \<lparr>log_start = e_end,
                            phy_start = phy_start cur + ucast lblk - ucast (log_start cur) +
                              of_nat (ext4_ext_get_actual_len X (es ! k)),
                            len = log_start cur + len cur - e_end\<rparr>
                      else zero_ext)
           in ret (Map_done 0 \<lparr>log_start = lblk, phy_start = ee_pblock (es ! k), len = ln\<rparr> nxt))
   }"

text \<open>The end of the round after a split: an error ends the loop, success starts another round.\<close>

definition after_split :: "u64 \<Rightarrow> ext4_evfs_ext \<Rightarrow> u32 \<Rightarrow> u32 \<Rightarrow> int option \<Rightarrow> map_step handler" where
  "after_split ino cur lblk ln r = (case r of
     None \<Rightarrow> ret Map_fault
   | Some err \<Rightarrow> do {
       void_call (Free_ext_path ino);
       ret (if err \<noteq> 0 then Map_done err cur zero_ext else Map_again lblk ln)
     })"

text \<open>A block inside the extent at \<open>k\<close>: split before it, split behind the range, or exchange.\<close>

definition map_covered :: "kernel \<Rightarrow> ext_ops \<Rightarrow> u64 \<Rightarrow> ext4_evfs_ext \<Rightarrow> u32 \<Rightarrow> u32 \<Rightarrow> nat \<Rightarrow> u32 \<Rightarrow> u32 \<Rightarrow> map_step handler" where
  "map_covered K X ino cur lblk ln k e_blk e_end =
     (if log_start cur + ln \<le> lblk then do { void_call (Free_ext_path ino); ret (Map_done 1 cur zero_ext) }
      else do {
      ln \<leftarrow> ret (log_start cur + ln - lblk);
      if e_blk < lblk then do {
        r \<leftarrow> ext4_force_split_extent_at K X ino k lblk;
        after_split ino cur lblk ln r
      } else do {
      ln \<leftarrow> ret (if e_end < lblk + ln then e_end - lblk else ln);
      if e_end > lblk + ln then do {
        r \<leftarrow> ext4_force_split_extent_at K X ino k (lblk + ln);
        after_split ino cur lblk ln r
      } else map_swap K X ino cur lblk ln k
      }})"

definition extent_map_step :: "kernel \<Rightarrow> ext_ops \<Rightarrow> u64 \<Rightarrow> ext4_evfs_ext \<Rightarrow> u32 \<Rightarrow> u32 \<Rightarrow> map_step handler" where
  "extent_map_step K X ino cur lblk ln = do {
     path \<leftarrow> call K (Find_extent ino lblk);
     if path < 0 then ret Map_fault else do {
     es \<leftarrow> gets (\<lambda>s. f_extents s ino);
     if es = [] then do { void_call (Free_ext_path ino); ret (Map_done 1 cur zero_ext) } else do {
     k \<leftarrow> ret (flat_pos es lblk);
     e_blk \<leftarrow> ret (ee_block (es ! k));
     e_end \<leftarrow> ret (ee_block (es ! k) + of_nat (ext4_ext_get_actual_len X (es ! k)));
     if lblk < e_blk then do { void_call (Free_ext_path ino); ret (skip_hole cur (e_blk - lblk)) }
     else if lblk \<ge> e_end then do {
       void_call (Free_ext_path ino);
       (case flat_next es lblk of
          None \<Rightarrow> ret (Map_done 1 cur zero_ext)
        | Some nxt \<Rightarrow>
            if nxt \<ge> EXT_MAX_BLOCKS X then ret (Map_done 1 cur zero_ext)
            else if nxt - e_end > 0 then ret (skip_hole cur (nxt - e_end))
            else ret (Map_again nxt ln))
     }
     else map_covered K X ino cur lblk ln k e_blk e_end
     }}}"

text \<open>The loop; a loop that does not end is \<open>None\<close>, a fault is \<open>Some (None, s)\<close>.\<close>

partial_function (option) extent_map_loop ::
    "kernel \<Rightarrow> ext_ops \<Rightarrow> u64 \<Rightarrow> ext4_evfs_ext \<Rightarrow> u32 \<Rightarrow> u32 \<Rightarrow> fs \<Rightarrow>
     ((int \<times> ext4_evfs_ext \<times> ext4_evfs_ext) option \<times> fs) option" where
  "extent_map_loop K X ino cur lblk ln s =
     (case run_state (extent_map_step K X ino cur lblk ln) s of
        (Map_fault, s) \<Rightarrow> Some (None, s)
      | (Map_again lblk ln, s) \<Rightarrow> extent_map_loop K X ino cur lblk ln s
      | (Map_done r c n, s) \<Rightarrow> Some (Some (r, c, n), s))"

definition evfs_extent_map ::
    "kernel \<Rightarrow> ext_ops \<Rightarrow> u64 \<Rightarrow> ext4_evfs_ext \<Rightarrow> (int \<times> ext4_evfs_ext \<times> ext4_evfs_ext) option handler" where
  "evfs_extent_map K X ino cur = do {
     void_call (Es_remove_extent ino (log_start cur) (len cur));
     State (\<lambda>s. case extent_map_loop K X ino cur (log_start cur) (len cur) s of None \<Rightarrow> (None, s) | Some r \<Rightarrow> r)
   }"

section \<open>Moving and reading extents\<close>

text \<open>The loop of \<open>evfs_extent_move\<close>: the value of \<open>ret\<close> and what was written to \<open>out.exts\<close>; the code ends it when as many extents are written as blocks were asked for.\<close>

fun extent_move_loop ::
    "kernel \<Rightarrow> ext_ops \<Rightarrow> u64 \<Rightarrow> nat \<Rightarrow> ext4_evfs_ext \<Rightarrow> ext4_evfs_ext list \<Rightarrow> (int \<times> ext4_evfs_ext list) option handler" where
  "extent_move_loop K X ino 0 cur out = ret (Some (0, out))"
| "extent_move_loop K X ino (Suc left) cur out =
     (if len cur = 0 then ret (Some (0, out)) else do {
     r \<leftarrow> evfs_extent_map K X ino cur;
     (case r of
        None \<Rightarrow> ret None
      | Some (err, c, n) \<Rightarrow>
          if err < 0 then ret (Some (err, out))
          else extent_move_loop K X ino left n (out @ [c]))
     })"

definition evfs_extent_move ::
    "kernel \<Rightarrow> ext_ops \<Rightarrow> u64 \<Rightarrow> u64 \<Rightarrow> ext4_evfs_ext \<Rightarrow> u32 \<times> ext4_evfs_ext list \<Rightarrow>
     (int \<times> u32 \<times> ext4_evfs_ext list) option handler" where
  "evfs_extent_move K X ino exp_iver ext out0 = do {
     inode \<leftarrow> call K (Iget ino);
     if inode < 0 then ret (Some (inode, out0)) else do {
     void_call (Inode_lock ino);
     void_call (Down_write_data_sem ino);
     iver \<leftarrow> evfs_iver ino;
     r \<leftarrow> (if snd iver \<noteq> exp_iver then ret (Some (- EAGAIN, out0)) else do {
       handle \<leftarrow> call K (Journal_start ino 0);
       if handle < 0 then ret (Some (handle, out0)) else do {
       void_call (Dio_wait ino);
       r \<leftarrow> extent_move_loop K X ino (unat (len ext)) ext [];
       (case r of
          None \<Rightarrow> ret None
        | Some (rv, out) \<Rightarrow> do {
            err \<leftarrow> call K Journal_stop;
            ret (Some (if err \<noteq> 0 then err else rv, of_nat (length out), out @ drop (length out) (snd out0)))
          })
       }});
     (case r of
        None \<Rightarrow> ret None
      | Some v \<Rightarrow> do {
          void_call (Up_write_data_sem ino);
          void_call (Inode_unlock ino);
          void_call (Iput ino);
          ret (Some v)
        })
     }}"

text \<open>
  The loop of \<open>evfs_extent_read\<close> over the buffer \<open>out.exts\<close>: after an entry is written, \<open>count\<close> is incremented
  before the next block is computed from \<open>out.exts[count]\<close>, the entry after it; past the end of the buffer this reads
  \<open>beyond\<close>. The last component of the result is whether a path is left to be freed.
\<close>

fun extent_read_loop ::
    "kernel \<Rightarrow> ext_ops \<Rightarrow> u64 \<Rightarrow> ext4_evfs_ext \<Rightarrow> nat \<Rightarrow> u32 \<Rightarrow> nat \<Rightarrow> ext4_evfs_ext list \<Rightarrow>
     (nat \<times> ext4_evfs_ext list \<times> bool) handler" where
  "extent_read_loop K X ino beyond 0 block cnt exts = ret (cnt, exts, 0 < cnt)"
| "extent_read_loop K X ino beyond (Suc left) block cnt exts = do {
     path \<leftarrow> call K (Find_extent ino block);
     if path < 0 then ret (cnt, exts, False) else do {
     es \<leftarrow> gets (\<lambda>s. f_extents s ino);
     if es = [] then ret (cnt, exts, True)
     else (let ex = es ! flat_pos es block; l = of_nat (ext4_ext_get_actual_len X ex)
           in if ee_block ex + l \<le> block then ret (cnt, exts, True)
              else (let exts = exts[cnt := \<lparr>log_start = ee_block ex, phy_start = ee_pblock ex, len = l\<rparr>];
                        following = (if Suc cnt < length exts then exts ! Suc cnt else beyond)
                    in extent_read_loop K X ino beyond left (log_start following + len following) (Suc cnt) exts))
     }}"

text \<open>\<open>args->out\<close> before the call is \<open>(num0, buf)\<close>, after it the number and the buffer that are returned.\<close>

definition evfs_extent_read ::
    "kernel \<Rightarrow> ext_ops \<Rightarrow> ext4_evfs_ext \<Rightarrow> u64 \<Rightarrow> u32 \<Rightarrow> u32 \<times> ext4_evfs_ext list \<Rightarrow>
     (int \<times> u32 \<times> ext4_evfs_ext list) handler" where
  "evfs_extent_read K X beyond ino max_num_exts out0 = do {
     inode \<leftarrow> call K (Iget ino);
     if inode < 0 then ret (inode, out0) else do {
     void_call (Down_read_data_sem ino);
     (cnt, exts, path) \<leftarrow> extent_read_loop K X ino beyond (unat max_num_exts) 0 0 (snd out0);
     void_call (Up_read_data_sem ino);
     (if path then void_call (Free_ext_path ino) else ret ());
     void_call (Iput ino);
     ret (0, of_nat cnt, exts)
     }}"

section \<open>Splitting and exchanging on the list of extents\<close>

lemma flat_pos_at:
  assumes "exts_ok X es" "k < length es" "covers X (es ! k) (unat b)"
  shows "flat_pos es b = k"
proof -
  have s: "sorted_wrt (<) (map ee_block es)" using assms(1) by (rule exts_ok_starts)
  have "ee_block (es ! i) \<le> b \<longleftrightarrow> i < Suc k" if "i < length es" for i
  proof (cases "i \<le> k")
    case True
    then have "ee_block (es ! i) \<le> ee_block (es ! k)" using sorted_keys [OF s] assms(2) by simp
    moreover have "ee_block (es ! k) \<le> b" using assms(3) by (simp add: covers_def ext_start_def word_le_nat_alt)
    ultimately show ?thesis using True by simp
  next
    case False
    then have "ext_end X (es ! k) \<le> ext_start (es ! i)"
      using assms(1) that by (auto simp: exts_ok_def intro: sorted_wrt_nth_less)
    then show ?thesis using False assms(3) by (simp add: covers_def ext_start_def word_le_nat_alt)
  qed
  then have "length (filter (\<lambda>e. ee_block e \<le> b) es) = Suc k" using filter_prefix [OF s] assms(2) by simp
  then show ?thesis by (simp add: flat_pos_def)
qed

lemma ext_lookup_Some:
  assumes "ext_lookup X es lb = Some v"
  obtains k where "k < length es" "covers X (es ! k) lb" "v = image_of X (es ! k) lb"
proof -
  have "\<exists>k < length es. covers X (es ! k) lb \<and> v = image_of X (es ! k) lb"
    using assms
  proof (induction es)
    case (Cons e es)
    then show ?case by (cases "covers X e lb") (auto intro: exI [of _ 0] exI [of _ "Suc _"])
  qed simp
  then show ?thesis using that by blast
qed

lemma ext_lookup_nth:
  assumes "exts_ok X es" "k < length es" "covers X (es ! k) lb"
  shows "ext_lookup X es lb = Some (image_of X (es ! k) lb)"
  using assms
proof (induction es arbitrary: k)
  case (Cons e es)
  show ?case
  proof (cases k)
    case (Suc j)
    then have "es ! j \<in> set es" using Cons.prems(2) by simp
    then have "ext_end X e \<le> ext_start (es ! j)" using Cons.prems(1) by simp
    then have "\<not> covers X e lb" using Cons.prems(3) Suc by (simp add: covers_def)
    then show ?thesis using Cons.IH [of j] Cons.prems Suc by simp
  qed (use Cons.prems in simp)
qed simp

text \<open>The two halves of an extent.\<close>

lemma split_halves_ok:
  fixes split :: u32
  assumes "ext_laws X" "ext_ok X e" "ext_start e < unat split" "unat split < ext_end X e" "u = ext4_ext_is_unwritten X e"
    and "(e1, e2) = split_halves X u u split e"
  shows "ext_start e1 = ext_start e" "ext_end X e1 = unat split" "ext_start e2 = unat split" "ext_end X e2 = ext_end X e"
    and "ext_ok X e1" "ext_ok X e2" "same_map X [e1, e2] [e]" "ee_block e2 = split"
proof -
  let ?n = "unat (split - ee_block e)"
  let ?m = "ext4_ext_get_actual_len X e - ?n"
  have n: "?n = unat split - unat (ee_block e)"
    using assms(3) by (simp add: unat_sub word_le_nat_alt ext_start_def)
  have b: "0 < ?n" "0 < ?m" "?n + ?m = ext4_ext_get_actual_len X e"
    using assms(3,4) by (auto simp: n ext_start_def ext_end_def)
  have total: "ext4_ext_get_actual_len X e \<le> 32768" using actual_len_bound [OF assms(1)] .
  have un: "?n \<le> 32767" "?m \<le> 32767" using b total by auto
  have e: "e1 = e\<lparr>ee_len := if u then mark_unwritten X (of_nat ?n) else of_nat ?n\<rparr>"
    "e2 = \<lparr>ee_block = split, ee_len = if u then mark_unwritten X (of_nat ?m) else of_nat ?m,
           ee_pblock = ucast (split - ee_block e) + ee_pblock e\<rparr>"
    using assms(6) by (simp_all add: split_halves_def Let_def)
  have l1: "actual_len X (ee_len e1) = ?n" "is_unwritten X (ee_len e1) = u"
    unfolding e using init_len [OF assms(1) b(1)] unwritten_len [OF assms(1) b(1)] un by (auto simp: le_Suc_eq)
  have l2: "actual_len X (ee_len e2) = ?m" "is_unwritten X (ee_len e2) = u"
    unfolding e using init_len [OF assms(1) b(2)] unwritten_len [OF assms(1) b(2)] un by (auto simp: le_Suc_eq)
  show s: "ext_start e1 = ext_start e" "ext_start e2 = unat split" "ee_block e2 = split" by (simp_all add: ext_start_def e)
  show en: "ext_end X e1 = unat split" "ext_end X e2 = ext_end X e"
    using l1 l2 b n assms(3) by (simp_all add: ext_end_def ext_start_def e)
  show "ext_ok X e1" "ext_ok X e2"
    using assms(2,4) b l1 l2 en by (simp_all add: ext_ok_def)
  have img: "ee_pblock e2 + of_nat (lb - ext_start e2) = ee_pblock e + of_nat (lb - ext_start e)" if "unat split \<le> lb" for lb
  proof -
    have "?n + (lb - unat split) = lb - unat (ee_block e)" using n that assms(3) by (simp add: ext_start_def)
    then have "(of_nat ?n :: u64) + of_nat (lb - unat split) = of_nat (lb - unat (ee_block e))" by (metis of_nat_add)
    then show ?thesis by (simp add: e ext_start_def add.left_commute [of _ "ee_pblock e"] add.assoc)
  qed
  show "same_map X [e1, e2] [e]"
    unfolding same_map_def
  proof
    fix lb
    have i1: "image_of X e1 lb = image_of X e lb" using l1(2) assms(5) s by (simp add: image_of_def e(1))
    have i2: "unat split \<le> lb \<Longrightarrow> image_of X e2 lb = image_of X e lb"
      unfolding image_of_def l2(2) assms(5) using img [of lb] by blast
    have "covers X e lb = (covers X e1 lb \<or> covers X e2 lb)"
      using assms(3,4) unfolding covers_def s en by linarith
    moreover have "covers X e2 lb \<Longrightarrow> unat split \<le> lb" by (simp add: covers_def s)
    ultimately show "ext_lookup X [e1, e2] lb = ext_lookup X [e] lb" using i1 i2 by auto
  qed
qed

lemma split_at_ok:
  fixes split :: u32
  assumes "ext_laws X" "exts_ok X es" "k < length es" "ext_start (es ! k) < unat split" "unat split < ext_end X (es ! k)"
    and "u = ext4_ext_is_unwritten X (es ! k)"
  shows "exts_ok X (split_at X u u k split es) \<and> same_map X (split_at X u u k split es) es"
    and "ext_start (split_at X u u k split es ! k) = ext_start (es ! k)" "ext_end X (split_at X u u k split es ! k) = unat split"
    and "ext_start (split_at X u u k split es ! Suc k) = unat split"
    and "ext_end X (split_at X u u k split es ! Suc k) = ext_end X (es ! k)"
    and "length (split_at X u u k split es) = Suc (length es)"
proof -
  define as e bs where d: "as = take k es" "e = es ! k" "bs = drop (Suc k) es"
  obtain e1 e2 where h: "(e1, e2) = split_halves X u u split (es ! k)" by (metis surj_pair)
  have es: "es = as @ [e] @ bs" "k = length as" using assms(3) by (simp_all add: d id_take_nth_drop)
  have la: "length as = k" using assms(3) by (simp add: d)
  have sp: "split_at X u u k split es = as @ [e1, e2] @ bs"
    using assms(3) by (simp add: split_at_def list_insert_def d flip: h) (simp add: take_Suc_conv_app_nth)
  have ok: "ext_ok X (es ! k)" using assms(2,3) by (simp add: exts_ok_def)
  note r = split_halves_ok [OF assms(1) ok assms(4,5,6) h]
  have "exts_ok X [e1, e2]" using r by simp
  then show "exts_ok X (split_at X u u k split es) \<and> same_map X (split_at X u u k split es) es"
    using exts_ok_middle [of X as "[e]" bs "[e1, e2]"] assms(2) r(7) unfolding sp d(2) [symmetric] es(1) [symmetric] by simp
  show "ext_start (split_at X u u k split es ! k) = ext_start (es ! k)" "ext_end X (split_at X u u k split es ! k) = unat split"
    "ext_start (split_at X u u k split es ! Suc k) = unat split"
    "ext_end X (split_at X u u k split es ! Suc k) = ext_end X (es ! k)"
    "length (split_at X u u k split es) = Suc (length es)"
    unfolding sp using r(1-4) assms(3) la by (simp_all add: nth_append d(3))
qed

interpretation splitting: mapping_keeper X "\<lambda>es. split_at X (ext4_ext_is_unwritten X (es ! k)) (ext4_ext_is_unwritten X (es ! k)) k split es"
    "\<lambda>es. ext_laws X \<and> k < length es \<and> ext_start (es ! k) < unat split \<and> unat split < ext_end X (es ! k)" for X k split
  by unfold_locales (simp add: split_at_ok(1))

definition repoint :: "nat \<Rightarrow> u64 \<Rightarrow> ext4_extent list \<Rightarrow> ext4_extent list" where
  "repoint k p es = es[k := (es ! k)\<lparr>ee_pblock := p\<rparr>]"

lemma repoint_ok:
  assumes "exts_ok X es" "k < length es"
  shows "exts_ok X (repoint k p es)"
    and "ext_lookup X (repoint k p es) lb =
      (if covers X (es ! k) lb then Some (p + of_nat (lb - ext_start (es ! k)), ext4_ext_is_unwritten X (es ! k)) else ext_lookup X es lb)"
proof -
  define as e bs where d: "as = take k es" "e = es ! k" "bs = drop (Suc k) es"
  have es: "es = as @ e # bs" "k = length as" using assms(2) by (simp_all add: d id_take_nth_drop)
  let ?e = "e\<lparr>ee_pblock := p\<rparr>"
  have same: "ext_start ?e = ext_start e" "ext_end X ?e = ext_end X e" "ext_ok X ?e = ext_ok X e"
    by (simp_all add: ext_start_def ext_end_def ext_ok_def)
  have rp: "repoint k p es = as @ ?e # bs" unfolding repoint_def d(2) [symmetric] by (simp add: es)
  show ok: "exts_ok X (repoint k p es)" using assms(1) unfolding rp by (simp add: es(1) exts_ok_append same)
  show "ext_lookup X (repoint k p es) lb =
      (if covers X (es ! k) lb then Some (p + of_nat (lb - ext_start (es ! k)), ext4_ext_is_unwritten X (es ! k)) else ext_lookup X es lb)"
  proof (cases "covers X e lb")
    case True
    moreover have k: "k < length (repoint k p es)" "repoint k p es ! k = ?e" using assms(2) by (simp_all add: repoint_def d(2))
    ultimately have "covers X (repoint k p es ! k) lb" by (simp add: covers_def same)
    note this k
    then show ?thesis using True ext_lookup_nth [OF ok k(1)]
      by (simp add: k(2) image_of_def same) (simp add: d(2))
  next
    case False
    then have "\<not> covers X ?e lb" by (simp add: covers_def same)
    then show ?thesis using False by (simp add: rp d(2) [symmetric]) (simp add: es(1) ext_lookup_append split: option.split)
  qed
qed

lemma merge_in_leaf_ok:
  assumes "ext_laws X" "exts_ok X es" "k < length es" "lo \<le> k" "k \<le> hi"
  shows "exts_ok X (take lo es @ ext4_ext_try_to_merge X (drop lo (take (Suc hi) es)) (k - lo) @ drop (Suc hi) es) \<and>
    same_map X (take lo es @ ext4_ext_try_to_merge X (drop lo (take (Suc hi) es)) (k - lo) @ drop (Suc hi) es) es"
proof (rule merging.in_file)
  show "ext_laws X \<and> k - lo < length (drop lo (take (Suc hi) es))" using assms(1,3-5) by (simp add: less_diff_conv2)
qed (use assms(2,4,5) in auto)

section \<open>The handlers\<close>

text \<open>The state without the extents of one inode and the history: what the extent operations leave alone.\<close>

definition forget :: "u64 \<Rightarrow> fs \<Rightarrow> fs" where
  "forget ino s = s\<lparr>f_extents := (f_extents s)(ino := []), f_calls := []\<rparr>"

lemma forget_simps [simp]:
  "forget ino (upd_extents ino f s) = forget ino s" "forget ino (s\<lparr>f_calls := cs\<rparr>) = forget ino s"
  by (simp_all add: forget_def upd_extents_def)

lemma forget_others: "forget ino s' = forget ino s \<Longrightarrow> j \<noteq> ino \<Longrightarrow> f_extents s' j = f_extents s j"
proof -
  assume "forget ino s' = forget ino s" "j \<noteq> ino"
  then have "f_extents (forget ino s') j = f_extents (forget ino s) j" by simp
  then show ?thesis using \<open>j \<noteq> ino\<close> by (simp add: forget_def)
qed

text \<open>The calls of the extent tree all succeed.\<close>

definition ext_calls_ok :: "kernel \<Rightarrow> u64 \<Rightarrow> bool" where
  "ext_calls_ok K ino \<longleftrightarrow> (\<forall>cs c. c \<in> {Ext_get_access ino, Ext_dirty ino, Insert_extent ino} \<longrightarrow> answer K cs c = 0)"

lemma upd_extents_simps [simp]:
  "f_extents (upd_extents ino f s) = (f_extents s)(ino := f (f_extents s ino))"
  "f_calls (upd_extents ino f s) = f_calls s"
  by (simp_all add: upd_extents_def)

lemma insert_second_wp:
  "wp (insert_second K ino k e) (\<lambda>err s'. forget ino s' = forget ino s \<and>
     (err = 0 \<longrightarrow> f_extents s' ino = list_insert (Suc k) e (f_extents s ino)) \<and> (ext_calls_ok K ino \<longrightarrow> err = 0)) s"
  by (simp add: insert_second_def wp_fun ext_calls_ok_def)

lemma fix_extent_len_wp: "wp (fix_extent_len K ino k ex err) (\<lambda>r s'. r = Some err \<and> forget ino s' = forget ino s) s"
  by (simp add: fix_extent_len_def wp_fun)

lemma force_split_wp:
  fixes split :: u32
  assumes "ext_laws X" "exts_ok X (f_extents s ino)" "k < length (f_extents s ino)"
    and "ext_start (f_extents s ino ! k) < unat split" "unat split < ext_end X (f_extents s ino ! k)"
    and "u = ext4_ext_is_unwritten X (f_extents s ino ! k)"
  shows "wp (ext4_force_split_extent_at K X ino k split) (\<lambda>r s'. \<exists>err. r = Some err \<and> forget ino s' = forget ino s \<and>
    (err = 0 \<longrightarrow> f_extents s' ino = split_at X u u k split (f_extents s ino)) \<and> (ext_calls_ok K ino \<longrightarrow> err = 0)) s"
proof -
  let ?e = "f_extents s ino ! k"
  have ok: "ext_ok X ?e" using assms(2,3) by (simp add: exts_ok_def)
  have b: "ee_block ?e < split" "\<not> split < ee_block ?e" "split \<noteq> ee_block ?e"
    "\<not> ee_block ?e + of_nat (ext4_ext_get_actual_len X ?e) \<le> split"
    using assms(4,5) ext_end_unat(2) [OF assms(1) ok] by (auto simp: word_less_nat_alt word_le_nat_alt ext_start_def)
  have fin: "wp (if err \<noteq> - ENOSPC \<and> err \<noteq> - EDQUOT \<and> err \<noteq> - ENOMEM then ret (Some err) else fix_extent_len K ino k ?e err)
      (\<lambda>r s'. \<exists>err. r = Some err \<and> forget ino s' = forget ino s \<and>
        (err = 0 \<longrightarrow> f_extents s' ino = split_at X u u k split (f_extents s ino)) \<and> (ext_calls_ok K ino \<longrightarrow> err = 0)) s2"
    if "forget ino s2 = forget ino s" "err = 0 \<longrightarrow> f_extents s2 ino = split_at X u u k split (f_extents s ino)" "ext_calls_ok K ino \<longrightarrow> err = 0" for err s2
    using that by (auto intro!: wp_mono [OF fix_extent_len_wp])
  have okK: "ext_calls_ok K ino \<Longrightarrow> answer K cs (Ext_get_access ino) = 0 \<and> answer K cs (Ext_dirty ino) = 0" for cs
    by (simp add: ext_calls_ok_def)
  show ?thesis
    unfolding ext4_force_split_extent_at_def ext4_split_extent_at_def
    using b okK
    by (auto simp: wp_fun assms(6) [symmetric] split_at_def
        intro!: wp_mono [OF fix_extent_len_wp] wp_mono [OF insert_second_wp] fin)
qed

text \<open>The blocks of \<open>cur\<close> up to the length in \<open>c\<close> are exchanged, \<open>n\<close> is what is left to do.\<close>

definition exchanged ::
    "ext_ops \<Rightarrow> ext4_extent list \<Rightarrow> ext4_extent list \<Rightarrow> ext4_evfs_ext \<Rightarrow> ext4_evfs_ext \<Rightarrow> ext4_evfs_ext \<Rightarrow> bool" where
  "exchanged X es es' cur c n \<longleftrightarrow>
     log_start c = log_start cur \<and> 0 < len c \<and> len c \<le> len cur \<and>
     (\<exists>u. \<forall>i < unat (len c).
        ext_lookup X es (unat (log_start cur) + i) = Some (phy_start c + of_nat i, u) \<and>
        ext_lookup X es' (unat (log_start cur) + i) = Some (phy_start cur + of_nat i, u)) \<and>
     (\<forall>lb. lb < unat (log_start cur) \<or> unat (log_start cur) + unat (len c) \<le> lb \<longrightarrow>
        ext_lookup X es' lb = ext_lookup X es lb) \<and>
     n = (if len c = len cur then zero_ext
          else \<lparr>log_start = log_start cur + len c, phy_start = phy_start cur + ucast (len c), len = len cur - len c\<rparr>)"

definition map_post ::
    "kernel \<Rightarrow> ext_ops \<Rightarrow> u64 \<Rightarrow> ext4_evfs_ext \<Rightarrow> fs \<Rightarrow> (int \<times> ext4_evfs_ext \<times> ext4_evfs_ext) option \<Rightarrow> fs \<Rightarrow> bool" where
  "map_post K X ino cur s r s' \<longleftrightarrow> (\<exists>err c n. r = Some (err, c, n) \<and> forget ino s' = forget ino s \<and>
     (ext_calls_ok K ino \<longrightarrow> err = 0) \<and>
     (err = 0 \<longrightarrow> exts_ok X (f_extents s' ino) \<and> exchanged X (f_extents s ino) (f_extents s' ino) cur c n))"

lemma map_post_same_map:
  assumes "map_post K X ino cur s1 r s'" "same_map X (f_extents s1 ino) (f_extents s ino)" "forget ino s1 = forget ino s"
  shows "map_post K X ino cur s r s'"
  using assms by (auto simp: map_post_def exchanged_def same_map_def)

lemma map_swap_wp:
  assumes "ext_laws X" "exts_ok X (f_extents s ino)" "k < length (f_extents s ino)" "log_start cur = b"
    and "e = f_extents s ino ! k"
  shows "wp (map_swap K X ino cur b ln k) (\<lambda>r s'. \<exists>err c n. r = Map_done err c n \<and> forget ino s' = forget ino s \<and>
    (ext_calls_ok K ino \<longrightarrow> err = 0) \<and> exts_ok X (f_extents s' ino) \<and>
    (\<forall>lb. ext_lookup X (f_extents s' ino) lb =
      (if covers X e lb then Some (phy_start cur + of_nat (lb - ext_start e), ext4_ext_is_unwritten X e) else ext_lookup X (f_extents s ino) lb)) \<and>
    (err = 0 \<longrightarrow> c = \<lparr>log_start = b, phy_start = ee_pblock e, len = ln\<rparr> \<and>
      n = (let e_end = ee_block e + of_nat (ext4_ext_get_actual_len X e)
           in if b + len cur > e_end
              then \<lparr>log_start = e_end, phy_start = phy_start cur + of_nat (ext4_ext_get_actual_len X e), len = b + len cur - e_end\<rparr>
              else zero_ext))) s"
proof -
  let ?es = "f_extents s ino"
  let ?rp = "repoint k (phy_start cur) ?es"
  have rp: "exts_ok X ?rp" "k < length ?rp" using repoint_ok(1) [OF assms(2,3)] assms(3) by (simp_all add: repoint_def)
  let ?m = "\<lambda>lo hi. take lo ?rp @ ext4_ext_try_to_merge X (drop lo (take (Suc hi) ?rp)) (k - lo) @ drop (Suc hi) ?rp"
  have m: "exts_ok X (?m lo hi)"
    "ext_lookup X (?m lo hi) lb =
      (if covers X e lb then Some (phy_start cur + of_nat (lb - ext_start e), ext4_ext_is_unwritten X e) else ext_lookup X ?es lb)"
    if "lo \<le> k" "k \<le> hi" for lo hi lb
    using merge_in_leaf_ok [OF assms(1) rp that] repoint_ok(2) [OF assms(2,3), of "phy_start cur" lb]
    by (simp_all add: same_map_def assms(5))
  show ?thesis
    by (simp add: map_swap_def put_extents_def merge_in_leaf_def wp_fun Let_def assms(4,5) [symmetric] m
        ext_calls_ok_def repoint_def [symmetric])
qed

lemma loop_rule:
  assumes "wp (extent_map_step K X ino cur lblk ln) (\<lambda>r s'. case r of
      Map_fault \<Rightarrow> P None s'
    | Map_again l n \<Rightarrow> \<exists>r s''. extent_map_loop K X ino cur l n s' = Some (r, s'') \<and> P r s''
    | Map_done e c n \<Rightarrow> P (Some (e, c, n)) s') s"
  shows "\<exists>r s'. extent_map_loop K X ino cur lblk ln s = Some (r, s') \<and> P r s'"
  using assms by (subst extent_map_loop.simps) (auto simp: wp_def split: prod.splits map_step.splits)

text \<open>A round at a block that an extent covers.\<close>

lemma covered_step:
  assumes "ext_laws X" "exts_ok X (f_extents s ino)" "k < length (f_extents s ino)" "e = f_extents s ino ! k" "covers X e (unat b)"
    and "\<And>cs. answer K cs (Find_extent ino b) \<ge> 0"
    and "wp (map_covered K X ino cur b ln k (ee_block e) (ee_block e + of_nat (ext4_ext_get_actual_len X e))) Q
      (s\<lparr>f_calls := f_calls s @ [Find_extent ino b]\<rparr>)"
  shows "wp (extent_map_step K X ino cur b ln) Q s"
proof -
  have ok: "ext_ok X e" using assms(2,3,4) by (simp add: exts_ok_def)
  have "\<not> b < ee_block e" "\<not> ee_block e + of_nat (ext4_ext_get_actual_len X e) \<le> b"
    using assms(5) ext_end_unat(2) [OF assms(1) ok] by (simp_all add: covers_def ext_start_def word_less_nat_alt word_le_nat_alt)
  moreover have "flat_pos (f_extents s ino) b = k" using flat_pos_at [OF assms(2,3)] assms(4,5) by simp
  moreover have "f_extents s ino \<noteq> []" using assms(3) by auto
  moreover have "\<not> answer K (f_calls s) (Find_extent ino b) < 0" using assms(6) [of "f_calls s"] by simp
  ultimately show ?thesis using assms(7) by (simp add: extent_map_step_def wp_fun assms(4) [symmetric])
qed

text \<open>The request does not wrap and \<open>ext4_find_extent\<close> does not fail.\<close>

definition request_ok :: "kernel \<Rightarrow> u64 \<Rightarrow> ext4_evfs_ext \<Rightarrow> bool" where
  "request_ok K ino cur \<longleftrightarrow> 0 < len cur \<and> unat (log_start cur) + unat (len cur) < 2 ^ 32 \<and>
     (\<forall>cs b. answer K cs (Find_extent ino b) \<ge> 0)"

lemma request_words:
  assumes "request_ok K ino cur"
  shows "unat (log_start cur + len cur) = unat (log_start cur) + unat (len cur)" "0 < unat (len cur)"
    "\<not> log_start cur + len cur \<le> log_start cur" "answer K cs (Find_extent ino b) \<ge> 0"
proof -
  show a: "unat (log_start cur + len cur) = unat (log_start cur) + unat (len cur)"
    using assms by (simp add: request_ok_def unat_word_ariths)
  show z: "0 < unat (len cur)" using assms by (simp add: request_ok_def unat_gt_0 word_gt_0)
  show "\<not> log_start cur + len cur \<le> log_start cur" using a z by (simp add: word_le_nat_alt)
  show "answer K cs (Find_extent ino b) \<ge> 0" using assms by (simp add: request_ok_def)
qed

abbreviation (input) maps_to where
  "maps_to K X ino cur s \<equiv> \<exists>r s'. extent_map_loop K X ino cur (log_start cur) (len cur) s = Some (r, s') \<and> map_post K X ino cur s r s'"

lemma loop_exact:
  assumes "ext_laws X" "exts_ok X (f_extents s ino)" "k < length (f_extents s ino)" "e = f_extents s ino ! k"
    and "request_ok K ino cur" "ext_start e = unat (log_start cur)" "ext_end X e \<le> unat (log_start cur) + unat (len cur)"
  shows "maps_to K X ino cur s"
proof -
  let ?b = "log_start cur" and ?a = "ext4_ext_get_actual_len X e"
  let ?fin = "ee_block e + of_nat ?a"
  have ok: "ext_ok X e" using assms(2,3,4) by (simp add: exts_ok_def)
  note w = request_words [OF assms(5)] and u = ext_end_unat [OF assms(1) ok]
  have be: "ee_block e = ?b" using assms(6) by (simp add: ext_start_def word_unat_eq_iff)
  have ln: "(if ?fin < ?b + len cur then ?fin - ?b else len cur) = of_nat ?a"
  proof (cases "?fin < ?b + len cur")
    case False
    then have "?fin = ?b + len cur" using assms(7) w(1) u(2) by (simp add: word_less_nat_alt word_unat_eq_iff)
    then show ?thesis using False be by simp
  qed (simp add: be)
  have le: "\<not> ?b + len cur < ?fin \<longleftrightarrow> True" using assms(7) w(1) u(2) by (simp add: word_less_nat_alt)
  have cov: "covers X e (unat ?b)" using ok assms(6) by (simp add: covers_def ext_ok_def ext_end_def ext_start_def)
  have lb: "covers X e lb \<longleftrightarrow> unat ?b \<le> lb \<and> lb < unat ?b + ?a" for lb
    using be by (simp add: covers_def ext_start_def ext_end_def)
  have post: "map_post K X ino cur s (Some (err, c, n)) s'"
    if "forget ino s' = forget ino s" "ext_calls_ok K ino \<longrightarrow> err = 0" "exts_ok X (f_extents s' ino)"
      "\<forall>lb. ext_lookup X (f_extents s' ino) lb =
        (if covers X e lb then Some (phy_start cur + of_nat (lb - ext_start e), ext4_ext_is_unwritten X e) else ext_lookup X (f_extents s ino) lb)"
      "err = 0 \<longrightarrow> c = \<lparr>log_start = ?b, phy_start = ee_pblock e, len = of_nat ?a\<rparr> \<and>
        n = (if ?b + len cur > ?fin then \<lparr>log_start = ?fin, phy_start = phy_start cur + of_nat ?a, len = ?b + len cur - ?fin\<rparr> else zero_ext)"
    for err c n s'
  proof -
    have old: "ext_lookup X (f_extents s ino) (unat ?b + i) = Some (ee_pblock e + of_nat i, ext4_ext_is_unwritten X e)" if "i < ?a" for i
      using ext_lookup_nth [OF assms(2,3), of "unat ?b + i"] that lb assms(4) be by (simp add: image_of_def ext_start_def)
    have a: "(of_nat ?a :: u32) \<le> len cur" "0 < (of_nat ?a :: u32)" "(ucast (of_nat ?a :: u32) :: u64) = of_nat ?a"
      "(?b + len cur > ?fin) = (of_nat ?a \<noteq> len cur)" "?b + len cur - ?fin = len cur - of_nat ?a"
    proof -
      show "(of_nat ?a :: u32) \<le> len cur" using assms(7) be u(1) by (simp add: word_le_nat_alt ext_end_def)
      show "0 < (of_nat ?a :: u32)" using ok u(1) by (simp add: word_less_nat_alt ext_ok_def)
      show "(ucast (of_nat ?a :: u32) :: u64) = of_nat ?a" by (metis u(1) of_nat_unat)
      show "(?b + len cur > ?fin) = (of_nat ?a \<noteq> len cur)"
        using assms(7) be u w(1) by (auto simp: word_less_nat_alt word_unat_eq_iff ext_end_def)
      show "?b + len cur - ?fin = len cur - of_nat ?a" by (simp add: be)
    qed
    show ?thesis
      unfolding map_post_def exchanged_def
      using that old a u(1) be by (auto simp: lb ext_start_def intro!: exI [of _ "ext4_ext_is_unwritten X e"])
  qed
  show ?thesis
    by (rule loop_rule, rule covered_step [OF assms(1-4) cov w(4)])
      (use be w(3) le in \<open>auto simp: map_covered_def wp_fun ln Let_def intro!: post
        wp_mono [OF map_swap_wp [where b = ?b and e = e]]\<close>, use assms in \<open>auto simp: Let_def intro!: post\<close>)
qed

lemma map_post_error:
  "err \<noteq> 0 \<Longrightarrow> \<not> ext_calls_ok K ino \<Longrightarrow> forget ino s' = forget ino s \<Longrightarrow> map_post K X ino cur s (Some (err, c, n)) s'"
  by (simp add: map_post_def)

text \<open>A round that splits: the loop goes on with the split extents.\<close>

lemma split_round:
  fixes split :: u32
  assumes "ext_laws X" "exts_ok X (f_extents s ino)" "k < length (f_extents s ino)" "e = f_extents s ino ! k"
    and "ext_start e < unat split" "unat split < ext_end X e" "u = ext4_ext_is_unwritten X e"
    and goes_on: "\<And>s1. f_extents s1 ino = split_at X u u k split (f_extents s ino) \<Longrightarrow> maps_to K X ino cur s1"
  shows "wp (State_Monad.bind (ext4_force_split_extent_at K X ino k split) (after_split ino cur (log_start cur) (len cur)))
    (\<lambda>r s'. case r of
      Map_fault \<Rightarrow> map_post K X ino cur s None s'
    | Map_again l n \<Rightarrow> \<exists>r s''. extent_map_loop K X ino cur l n s' = Some (r, s'') \<and> map_post K X ino cur s r s''
    | Map_done e c n \<Rightarrow> map_post K X ino cur s (Some (e, c, n)) s') s"
proof -
  have sp: "exts_ok X (split_at X u u k split (f_extents s ino)) \<and> same_map X (split_at X u u k split (f_extents s ino)) (f_extents s ino)"
    using splitting.keeps [of X k "f_extents s ino" split] assms(1-7) by simp
  have again: "\<exists>r s'. extent_map_loop K X ino cur (log_start cur) (len cur) s1 = Some (r, s') \<and> map_post K X ino cur s r s'"
    if "f_extents s1 ino = split_at X u u k split (f_extents s ino)" "forget ino s1 = forget ino s" for s1
    using goes_on [OF that(1)] map_post_same_map [of K X ino cur s1 _ _ s] that sp by auto
  have "wp (ext4_force_split_extent_at K X ino k split) (\<lambda>r s'. \<exists>err. r = Some err \<and> forget ino s' = forget ino s \<and>
      (err = 0 \<longrightarrow> f_extents s' ino = split_at X u u k split (f_extents s ino)) \<and> (ext_calls_ok K ino \<longrightarrow> err = 0)) s"
    using assms(1-7) by (intro force_split_wp) auto
  then show ?thesis
    unfolding wp_bind
    by (rule wp_mono) (auto simp: after_split_def wp_fun intro!: map_post_error again)
qed

lemma loop_start:
  assumes "ext_laws X" "exts_ok X (f_extents s ino)" "k < length (f_extents s ino)" "e = f_extents s ino ! k"
    and "request_ok K ino cur" "ext_start e = unat (log_start cur)"
  shows "maps_to K X ino cur s"
proof (cases "ext_end X e \<le> unat (log_start cur) + unat (len cur)")
  case True
  then show ?thesis using loop_exact [OF assms] by blast
next
  case False
  let ?b = "log_start cur" and ?s = "s\<lparr>f_calls := f_calls s @ [Find_extent ino (log_start cur)]\<rparr>"
  have ok: "ext_ok X e" using assms(2,3,4) by (simp add: exts_ok_def)
  note w = request_words [OF assms(5)] and u = ext_end_unat [OF assms(1) ok]
  have be: "ee_block e = ?b" using assms(6) by (simp add: ext_start_def word_unat_eq_iff)
  have cov: "covers X e (unat ?b)" using ok assms(6) by (simp add: covers_def ext_ok_def ext_end_def ext_start_def)
  have b: "ext_start e < unat (?b + len cur)" "unat (?b + len cur) < ext_end X e" using False w(1,2) assms(6) by auto
  have e_end: "?b + len cur < ee_block e + of_nat (ext4_ext_get_actual_len X e)" using b(2) u(2) by (simp add: word_less_nat_alt)
  have goes_on: "maps_to K X ino cur s1"
    if "f_extents s1 ino = split_at X (ext4_ext_is_unwritten X e) (ext4_ext_is_unwritten X e) k (?b + len cur) (f_extents s ino)" for s1
    using loop_exact [OF assms(1), of s1 ino k "f_extents s1 ino ! k" K cur] that assms(3,5,6) w(1)
      split_at_ok(1-3,6) [OF assms(1-3), folded assms(4), OF b refl] by simp
  have st: "wp (State_Monad.bind (ext4_force_split_extent_at K X ino k (?b + len cur)) (after_split ino cur ?b (len cur)))
    (\<lambda>r s'. case r of
      Map_fault \<Rightarrow> map_post K X ino cur ?s None s'
    | Map_again l n \<Rightarrow> \<exists>r s''. extent_map_loop K X ino cur l n s' = Some (r, s'') \<and> map_post K X ino cur ?s r s''
    | Map_done e c n \<Rightarrow> map_post K X ino cur ?s (Some (e, c, n)) s') ?s"
    by (rule split_round [OF assms(1), where e = e and u = "ext4_ext_is_unwritten X e"])
      (use assms b goes_on in auto)
  have eq: "map_post K X ino cur ?s = map_post K X ino cur s" by (simp add: map_post_def fun_eq_iff)
  show ?thesis
    by (rule loop_rule, rule covered_step [OF assms(1-4) cov w(4)])
      (use be w(3) e_end not_less_iff_gr_or_eq st [unfolded eq] in \<open>auto simp: map_covered_def wp_fun\<close>)
qed

lemma loop_covered:
  assumes "ext_laws X" "exts_ok X (f_extents s ino)" "k < length (f_extents s ino)" "e = f_extents s ino ! k"
    and "request_ok K ino cur" "covers X e (unat (log_start cur))"
  shows "maps_to K X ino cur s"
proof (cases "ext_start e = unat (log_start cur)")
  case True
  then show ?thesis using loop_start [OF assms(1-5)] by blast
next
  case False
  let ?b = "log_start cur" and ?s = "s\<lparr>f_calls := f_calls s @ [Find_extent ino (log_start cur)]\<rparr>"
  note w = request_words [OF assms(5)]
  have b: "ext_start e < unat ?b" "unat ?b < ext_end X e" using False assms(6) by (auto simp: covers_def)
  have lt: "ee_block e < ?b" using b(1) by (simp add: ext_start_def word_less_nat_alt)
  have goes_on: "maps_to K X ino cur s1"
    if "f_extents s1 ino = split_at X (ext4_ext_is_unwritten X e) (ext4_ext_is_unwritten X e) k ?b (f_extents s ino)" for s1
    using loop_start [OF assms(1), of s1 ino "Suc k" "f_extents s1 ino ! Suc k" K cur] that assms(3,5)
      split_at_ok(1,4,6) [OF assms(1-3), folded assms(4), OF b refl] by simp
  have st: "wp (State_Monad.bind (ext4_force_split_extent_at K X ino k ?b) (after_split ino cur ?b (len cur)))
    (\<lambda>r s'. case r of
      Map_fault \<Rightarrow> map_post K X ino cur ?s None s'
    | Map_again l n \<Rightarrow> \<exists>r s''. extent_map_loop K X ino cur l n s' = Some (r, s'') \<and> map_post K X ino cur ?s r s''
    | Map_done e c n \<Rightarrow> map_post K X ino cur ?s (Some (e, c, n)) s') ?s"
    by (rule split_round [OF assms(1), where e = e and u = "ext4_ext_is_unwritten X e"])
      (use assms b goes_on in auto)
  have eq: "map_post K X ino cur ?s = map_post K X ino cur s" by (simp add: map_post_def fun_eq_iff)
  show ?thesis
    by (rule loop_rule, rule covered_step [OF assms(1-4,6) w(4)])
      (use lt w(3) st [unfolded eq] in \<open>simp add: map_covered_def wp_fun\<close>)
qed

lemma extent_map_wp:
  assumes "ext_laws X" "exts_ok X (f_extents s ino)" "ext_lookup X (f_extents s ino) (unat (log_start cur)) \<noteq> None"
    and "request_ok K ino cur"
  shows "wp (evfs_extent_map K X ino cur) (map_post K X ino cur s) s"
proof -
  let ?s = "s\<lparr>f_calls := f_calls s @ [Es_remove_extent ino (log_start cur) (len cur)]\<rparr>"
  obtain k where k: "k < length (f_extents s ino)" "covers X (f_extents s ino ! k) (unat (log_start cur))"
    using assms(3) ext_lookup_Some by (metis not_Some_eq)
  have eq: "map_post K X ino cur ?s = map_post K X ino cur s" by (simp add: map_post_def fun_eq_iff)
  obtain r s' where "extent_map_loop K X ino cur (log_start cur) (len cur) ?s = Some (r, s')" "map_post K X ino cur s r s'"
    using loop_covered [OF assms(1), of ?s ino k "f_extents s ino ! k" K cur] assms(2,4) k by (auto simp: eq)
  then show ?thesis by (simp add: evfs_extent_map_def wp_fun) (simp add: wp_def)
qed

text \<open>
  C9 extent_map_swaps: for a request whose first block is mapped, \<open>__evfs_extent_map\<close> ends, whatever the kernel
  answers as long as the extent tree can be searched. When it returns 0, a first part of the requested
  blocks, at least one, has the new physical blocks and keeps its state, \<open>curr\<close> describes the physical blocks
  that this part had before, every other block keeps its mapping, \<open>next\<close> is the rest of the request, and
  the extents are still in order and without overlap. It returns 0 if no call of the extent tree fails.
\<close>

theorem extent_map_swaps:
  assumes "ext_laws X" "exts_ok X (f_extents s ino)" "ext_lookup X (f_extents s ino) (unat (log_start cur)) \<noteq> None"
    and "request_ok K ino cur"
  shows "wp (evfs_extent_map K X ino cur) (\<lambda>r s'. \<exists>err c n. r = Some (err, c, n) \<and>
    forget ino s' = forget ino s \<and> (ext_calls_ok K ino \<longrightarrow> err = 0) \<and>
    (err = 0 \<longrightarrow> exts_ok X (f_extents s' ino) \<and> exchanged X (f_extents s ino) (f_extents s' ino) cur c n)) s"
  using extent_map_wp [OF assms] by (rule wp_mono) (simp add: map_post_def)

text \<open>The extents of \<open>out\<close> tile the \<open>n\<close> blocks from \<open>b\<close> and give their physical blocks in \<open>es\<close>.\<close>

fun tiles :: "ext_ops \<Rightarrow> ext4_extent list \<Rightarrow> nat \<Rightarrow> nat \<Rightarrow> ext4_evfs_ext list \<Rightarrow> bool" where
  "tiles X es b n [] \<longleftrightarrow> n = 0"
| "tiles X es b n (c # cs) \<longleftrightarrow> unat (log_start c) = b \<and> 0 < unat (len c) \<and> unat (len c) \<le> n \<and>
     (\<forall>i < unat (len c). map_option fst (ext_lookup X es (b + i)) = Some (phy_start c + of_nat i)) \<and>
     tiles X es (b + unat (len c)) (n - unat (len c)) cs"

lemma tiles_cong:
  "(\<And>lb. b \<le> lb \<Longrightarrow> ext_lookup X es lb = ext_lookup X es' lb) \<Longrightarrow> tiles X es b n cs = tiles X es' b n cs"
  by (induction cs arbitrary: b n) auto

text \<open>All blocks of the request have their new physical block, in their old state.\<close>

definition moved :: "ext_ops \<Rightarrow> ext4_extent list \<Rightarrow> ext4_extent list \<Rightarrow> ext4_evfs_ext \<Rightarrow> bool" where
  "moved X es es' ext \<longleftrightarrow> (\<forall>lb. ext_lookup X es' lb =
     (if unat (log_start ext) \<le> lb \<and> lb < unat (log_start ext) + unat (len ext)
      then map_option (\<lambda>(p, u). (phy_start ext + of_nat (lb - unat (log_start ext)), u)) (ext_lookup X es lb)
      else ext_lookup X es lb))"

lemma moved_none: "len ext = 0 \<Longrightarrow> moved X es es ext"
  by (auto simp: moved_def)

lemma moved_step:
  assumes "exchanged X es es1 cur c n" "moved X es1 es' n" "unat (log_start cur) + unat (len cur) < 2 ^ 32"
  shows "moved X es es' cur"
proof -
  have l: "0 < unat (len c)" "unat (len c) \<le> unat (len cur)" "log_start c = log_start cur"
    using assms(1) by (auto simp: exchanged_def word_le_nat_alt unat_gt_0 word_gt_0)
  obtain u where u: "\<And>i. i < unat (len c) \<Longrightarrow>
      ext_lookup X es (unat (log_start cur) + i) = Some (phy_start c + of_nat i, u) \<and>
      ext_lookup X es1 (unat (log_start cur) + i) = Some (phy_start cur + of_nat i, u)"
    using assms(1) by (auto simp: exchanged_def)
  have out: "\<And>lb. lb < unat (log_start cur) \<or> unat (log_start cur) + unat (len c) \<le> lb \<Longrightarrow> ext_lookup X es1 lb = ext_lookup X es lb"
    using assms(1) by (auto simp: exchanged_def)
  have n: "n = (if len c = len cur then zero_ext
      else \<lparr>log_start = log_start cur + len c, phy_start = phy_start cur + ucast (len c), len = len cur - len c\<rparr>)"
    using assms(1) by (simp add: exchanged_def)
  let ?b = "unat (log_start cur)"
  have rest: "ext_lookup X es' lb = (if ?b + unat (len c) \<le> lb \<and> lb < ?b + unat (len cur)
      then map_option (\<lambda>(p, u). (phy_start cur + of_nat (lb - ?b), u)) (ext_lookup X es1 lb) else ext_lookup X es1 lb)" for lb
  proof (cases "len c = len cur")
    case True
    then show ?thesis using assms(2) n by (auto simp: moved_def zero_ext_def)
  next
    case False
    have w: "unat (log_start cur + len c) = ?b + unat (len c)" "unat (len cur - len c) = unat (len cur) - unat (len c)"
      using assms(3) l(2) by (simp_all add: unat_word_ariths unat_sub word_le_nat_alt)
    have "(ucast (len c) :: u64) + of_nat (lb - (?b + unat (len c))) = of_nat (lb - ?b)" if "?b + unat (len c) \<le> lb"
    proof -
      have "(of_nat (unat (len c)) :: u64) + of_nat (lb - (?b + unat (len c))) = of_nat (unat (len c) + (lb - (?b + unat (len c))))"
        by (simp only: of_nat_add)
      also have "unat (len c) + (lb - (?b + unat (len c))) = lb - ?b" using that by simp
      finally show ?thesis by simp
    qed
    then show ?thesis
      using assms(2) n False w l(2) by (simp add: moved_def add.assoc)
  qed
  show ?thesis
    unfolding moved_def
  proof
    fix lb
    show "ext_lookup X es' lb = (if ?b \<le> lb \<and> lb < ?b + unat (len cur)
        then map_option (\<lambda>(p, u). (phy_start cur + of_nat (lb - ?b), u)) (ext_lookup X es lb) else ext_lookup X es lb)"
    proof (cases "?b \<le> lb \<and> lb < ?b + unat (len c)")
      case True
      then have "lb - ?b < unat (len c)" by linarith
      with True show ?thesis using rest [of lb] u [of "lb - ?b"] l(2) by simp
    next
      case False
      then show ?thesis using rest [of lb] out [of lb] by auto
    qed
  qed
qed

lemma move_loop_wp:
  assumes "ext_laws X" "exts_ok X (f_extents s ino)" "unat (len cur) \<le> left"
    and "\<forall>i < unat (len cur). ext_lookup X (f_extents s ino) (unat (log_start cur) + i) \<noteq> None"
    and "len cur = 0 \<or> request_ok K ino cur" "ext_calls_ok K ino"
  shows "wp (extent_move_loop K X ino left cur out) (\<lambda>r s'. \<exists>cs. r = Some (0, out @ cs) \<and>
    tiles X (f_extents s ino) (unat (log_start cur)) (unat (len cur)) cs \<and> exts_ok X (f_extents s' ino) \<and>
    moved X (f_extents s ino) (f_extents s' ino) cur \<and> forget ino s' = forget ino s) s"
  using assms(2-5)
proof (induction left arbitrary: cur out s)
  case 0
  then have "len cur = 0" by (simp add: unat_eq_zero)
  then show ?case using 0 by (simp add: moved_none)
next
  case (Suc left)
  show ?case
  proof (cases "len cur = 0")
    case True
    then show ?thesis using Suc.prems by (simp add: moved_none)
  next
    case False
    let ?b = "unat (log_start cur)"
    have rq: "request_ok K ino cur" using Suc.prems(4) False by simp
    note w = request_words [OF rq]
    have first: "ext_lookup X (f_extents s ino) ?b \<noteq> None" using Suc.prems(3) w(2) by (metis add.right_neutral)
    have nowrap: "?b + unat (len cur) < 2 ^ 32" using rq by (simp add: request_ok_def)
    have step: "wp (extent_move_loop K X ino left n (out @ [c])) (\<lambda>r s'. \<exists>cs. r = Some (0, out @ cs) \<and>
        tiles X (f_extents s ino) ?b (unat (len cur)) cs \<and> exts_ok X (f_extents s' ino) \<and>
        moved X (f_extents s ino) (f_extents s' ino) cur \<and> forget ino s' = forget ino s) s1"
      if ok1: "exts_ok X (f_extents s1 ino)" and ex: "exchanged X (f_extents s ino) (f_extents s1 ino) cur c n"
        and fg: "forget ino s1 = forget ino s" for c n s1
    proof -
      let ?c = "unat (len c)"
      have l: "log_start c = log_start cur" "0 < ?c" "?c \<le> unat (len cur)" "len c \<le> len cur"
        using ex by (auto simp: exchanged_def word_le_nat_alt unat_gt_0 word_gt_0)
      have same: "\<And>lb. ?b + ?c \<le> lb \<Longrightarrow> ext_lookup X (f_extents s1 ino) lb = ext_lookup X (f_extents s ino) lb"
        and old: "\<forall>i < ?c. map_option fst (ext_lookup X (f_extents s ino) (?b + i)) = Some (phy_start c + of_nat i)"
        using ex by (auto simp: exchanged_def)
      have n: "unat (len n) = unat (len cur) - ?c" "len n = 0 \<or> unat (log_start n) = ?b + ?c" "len n = 0 \<or> request_ok K ino n"
      proof -
        have n0: "n = (if len c = len cur then zero_ext
            else \<lparr>log_start = log_start cur + len c, phy_start = phy_start cur + ucast (len c), len = len cur - len c\<rparr>)"
          using ex by (simp add: exchanged_def)
        have a: "unat (log_start cur + len c) = ?b + ?c" using nowrap l(3) by (simp add: unat_word_ariths)
        have d: "unat (len cur - len c) = unat (len cur) - ?c" using l(4) by (simp add: unat_sub)
        show "unat (len n) = unat (len cur) - ?c" "len n = 0 \<or> unat (log_start n) = ?b + ?c"
          using a d by (auto simp: n0 zero_ext_def)
        show "len n = 0 \<or> request_ok K ino n"
          using a d nowrap l(3) rq by (auto simp: n0 zero_ext_def request_ok_def word_gt_0)
      qed
      have none: "tiles X es b 0 cs = (cs = [])" for es b cs by (cases cs) auto
      have till: "tiles X (f_extents s1 ino) (unat (log_start n)) (unat (len n)) cs \<Longrightarrow>
          tiles X (f_extents s ino) ?b (unat (len cur)) (c # cs)" for cs
        using l n(1,2) old tiles_cong [of "?b + ?c" X "f_extents s1 ino" "f_extents s ino"] same
        by (cases "len n = 0") (simp_all add: none)
      have mp: "\<forall>i < unat (len n). ext_lookup X (f_extents s1 ino) (unat (log_start n) + i) \<noteq> None"
      proof (intro allI impI)
        fix i assume i: "i < unat (len n)"
        then have ln: "unat (log_start n) = ?b + ?c" using n(2) by auto
        have "?c + i < unat (len cur)" using i n(1) by simp
        then have "ext_lookup X (f_extents s ino) (?b + (?c + i)) \<noteq> None" using Suc.prems(3) by blast
        then show "ext_lookup X (f_extents s1 ino) (unat (log_start n) + i) \<noteq> None"
          using ln same [of "?b + ?c + i"] by (simp add: add.assoc)
      qed
      have le: "unat (len n) \<le> left" using Suc.prems(2) l(2) n(1) by simp
      show ?thesis
        by (rule wp_mono [OF Suc.IH [OF ok1 le mp n(3)]])
          (use till moved_step [OF ex _ nowrap] fg in auto)
    qed
    show ?thesis
      using False assms(6)
      by (auto simp: wp_fun map_post_def intro!: wp_mono [OF extent_map_wp [OF assms(1) Suc.prems(1) first rq]] step)
  qed
qed

text \<open>
  C3 extent_move_ok: \<open>evfs_extent_move\<close> of a range that is mapped throughout, with the expected version and no
  failing call, ends and returns 0; every block of the range has its new physical block and keeps its state, every other block
  and the rest of the file system are unchanged, and the extents that it gives out tile the range and name the physical blocks it
  had before, so that the caller can free them.
\<close>

theorem extent_move_ok:
  assumes "ext_laws X" "exts_ok X (f_extents s ino)" "len ext = 0 \<or> request_ok K ino ext" "ext_calls_ok K ino"
    and "\<forall>i < unat (len ext). ext_lookup X (f_extents s ino) (unat (log_start ext) + i) \<noteq> None"
    and "\<And>cs. answer K cs (Iget ino) \<ge> 0" "\<And>cs n. answer K cs (Journal_start ino n) \<ge> 0" "\<And>cs. answer K cs Journal_stop = 0"
    and "exp_iver = i_version (f_inodes s ino)"
  shows "wp (evfs_extent_move K X ino exp_iver ext (num0, buf)) (\<lambda>r s'. \<exists>out.
    r = Some (0, of_nat (length out), out @ drop (length out) buf) \<and>
    tiles X (f_extents s ino) (unat (log_start ext)) (unat (len ext)) out \<and>
    moved X (f_extents s ino) (f_extents s' ino) ext \<and> exts_ok X (f_extents s' ino) \<and> forget ino s' = forget ino s) s"
proof -
  have not: "\<not> answer K cs (Iget ino) < 0" "\<not> answer K cs (Journal_start ino n) < 0" for cs n
    using assms(6,7) by (simp_all add: not_less)
  show ?thesis
    unfolding evfs_extent_move_def
    using assms(2,5)
    by (auto simp: wp_fun evfs_iver_def not assms(8,9) intro!: wp_mono [OF move_loop_wp [OF assms(1) _ _ _ assms(3,4)]])
qed

text \<open>The calls of the extent tree of an inode; none takes or releases a lock, a reference or a transaction.\<close>

definition ext_calls :: "u64 \<Rightarrow> kcall set" where
  "ext_calls ino = {Free_ext_path ino, Ext_get_access ino, Ext_dirty ino, Insert_extent ino} \<union>
     range (Find_extent ino) \<union> range (\<lambda>(b, l). Es_remove_extent ino b l)"

lemma ext_calls_mem [simp]:
  "Free_ext_path ino \<in> ext_calls ino" "Ext_get_access ino \<in> ext_calls ino" "Ext_dirty ino \<in> ext_calls ino"
  "Insert_extent ino \<in> ext_calls ino" "Find_extent ino b \<in> ext_calls ino" "Es_remove_extent ino b l \<in> ext_calls ino"
  by (auto simp: ext_calls_def intro: range_eqI [of _ _ "(b, l)"])

text \<open>The loop stays in every relation in which its body stays.\<close>

context fs_closed
begin

lemma map_loop_stays:
  assumes "extent_map_loop K X ino cur lblk ln s = Some p"
  shows "(\<forall>cur lblk ln. stays R (extent_map_step K X ino cur lblk ln)) \<longrightarrow> R s (snd p)"
  using assms
proof (rule extent_map_loop.raw_induct [where P = "\<lambda>K X ino _ _ _ s p.
    (\<forall>cur lblk ln. stays R (extent_map_step K X ino cur lblk ln)) \<longrightarrow> R s (snd p)", rotated])
  fix rec K X ino cur lblk ln s and p :: "(int \<times> ext4_evfs_ext \<times> ext4_evfs_ext) option \<times> fs"
  assume IH: "\<And>K X ino (cur :: ext4_evfs_ext) (lblk :: u32) (ln :: u32) s p. rec K X ino cur lblk ln s = Some p \<Longrightarrow>
      (\<forall>cur lblk ln. stays R (extent_map_step K X ino cur lblk ln)) \<longrightarrow> R s (snd p)"
    and step: "(case run_state (extent_map_step K X ino cur lblk ln) s of (Map_fault, s) \<Rightarrow> Some (None, s)
        | (Map_again lblk ln, s) \<Rightarrow> rec K X ino cur lblk ln s | (Map_done r c n, s) \<Rightarrow> Some (Some (r, c, n), s)) = Some p"
  show "(\<forall>cur lblk ln. stays R (extent_map_step K X ino cur lblk ln)) \<longrightarrow> R s (snd p)"
  proof
    assume body: "\<forall>cur lblk ln. stays R (extent_map_step K X ino cur lblk ln)"
    obtain m s1 where r: "run_state (extent_map_step K X ino cur lblk ln) s = (m, s1)" by fastforce
    then have s1: "R s s1" using body by (metis staysD)
    show "R s (snd p)"
    proof (cases m)
      case (Map_again l n)
      then have "rec K X ino cur l n s1 = Some p" using step r by simp
      from IH [OF this] body show ?thesis using trans [OF s1] by blast
    qed (use step r s1 in auto)
  qed
qed

lemma map_stays:
  assumes "\<And>cur lblk ln. stays R (extent_map_step K X ino cur lblk ln)" "\<And>b l. stays R (void_call (Es_remove_extent ino b l))"
  shows "stays R (evfs_extent_map K X ino cur)"
proof -
  have "stays R (State (\<lambda>s. case extent_map_loop K X ino cur b l s of None \<Rightarrow> (None, s) | Some r \<Rightarrow> r))" for b l
  proof -
    have "R s (snd p)" if "extent_map_loop K X ino cur b l s = Some p" for s p
      using map_loop_stays [OF that] assms(1) by blast
    then show ?thesis by (auto simp: stays_def wp_def refl split: option.split)
  qed
  then show ?thesis unfolding evfs_extent_map_def by (intro stays_bind assms(2))
qed

lemma move_loop_stays:
  assumes "\<And>cur. stays R (evfs_extent_map K X ino cur)"
  shows "stays R (extent_move_loop K X ino left cur out)"
  by (induction left arbitrary: cur out) (auto intro!: stays_ret stays_if stays_bind stays_option stays_prod assms)

end

lemma calls_in_step: "stays (calls_rel (ext_calls ino)) (extent_map_step K X ino cur lblk ln)"
  unfolding extent_map_step_def map_covered_def map_swap_def after_split_def ext4_force_split_extent_at_def
    ext4_split_extent_at_def insert_second_def fix_extent_len_def put_extents_def merge_in_leaf_def
  by (intro stays_intros) (simp_all add: Let_def calling.stays_ret)

lemma calls_in_move_loop: "stays (calls_rel (ext_calls ino)) (extent_move_loop K X ino left cur out)"
  by (intro calling.move_loop_stays calling.map_stays calls_in_step stays_intros) simp

text \<open>
  C27 extent_move_releases: on every path on which \<open>evfs_extent_move\<close> returns, for every behaviour of the kernel,
  the inode lock and \<open>i_data_sem\<close> are released as often as they are taken, the inode that was loaded is put once,
  and a transaction that was started is stopped once; with a version other than the expected one it
  returns \<open>-EAGAIN\<close> and changes nothing.
\<close>

theorem extent_move_releases:
  "wp (evfs_extent_move K X ino exp_iver ext out0) (\<lambda>r s'. case r of None \<Rightarrow> True | Some (rv, out) \<Rightarrow>
     (\<exists>cs. f_calls s' = f_calls s @ cs \<and> balance (Inode_lock ino) (Inode_unlock ino) cs = 0 \<and>
        balance (Down_write_data_sem ino) (Up_write_data_sem ino) cs = 0 \<and>
        count_list cs (Iput ino) = of_bool (answer K (f_calls s) (Iget ino) \<ge> 0) \<and>
        (count_list cs Journal_stop = 1 \<longleftrightarrow> (answer K (f_calls s) (Iget ino) \<ge> 0 \<and> i_version (f_inodes s ino) = exp_iver \<and>
           answer K (f_calls s @ [Iget ino, Inode_lock ino, Down_write_data_sem ino]) (Journal_start ino 0) \<ge> 0)) \<and>
        (answer K (f_calls s) (Iget ino) \<ge> 0 \<and> i_version (f_inodes s ino) \<noteq> exp_iver \<longrightarrow>
           rv = - EAGAIN \<and> out = out0 \<and> s' = s\<lparr>f_calls := f_calls s @ cs\<rparr>))) s"
proof -
  have no: "Inode_lock ino \<notin> ext_calls ino" "Inode_unlock ino \<notin> ext_calls ino" "Down_write_data_sem ino \<notin> ext_calls ino"
    "Up_write_data_sem ino \<notin> ext_calls ino" "Iput ino \<notin> ext_calls ino" "Journal_stop \<notin> ext_calls ino"
    by (auto simp: ext_calls_def)
  note b = balance_outside(1) [OF _ no(1,2)] balance_outside(1) [OF _ no(3,4)] balance_outside(2) [OF _ no(5) no(5)]
    balance_outside(2) [OF _ no(6) no(6)]
  show ?thesis
    unfolding evfs_extent_move_def
    by (auto simp: wp_fun evfs_iver_def balance_append balance_Cons b intro!: calls_in_rule [OF calls_in_move_loop]
        split: option.split)
qed

section \<open>Holes, failing searches, and reading\<close>

text \<open>
  Result extent_map_fault: when \<open>ext4_find_extent\<close> fails, \<open>__evfs_extent_map\<close> does not return its error: the error path hands
  the error pointer to \<open>ext4_free_ext_path\<close>, which dereferences it.
\<close>

theorem extent_map_fault:
  assumes "answer K (f_calls s) (Find_extent ino lblk) < 0"
  shows "\<exists>s'. extent_map_loop K X ino cur lblk ln s = Some (None, s')"
  using assms by (subst extent_map_loop.simps) (simp add: extent_map_step_def call_def run_state_bind_eq)

lemma flat_pos_between:
  assumes "exts_ok X es" "Suc k < length es" "ext_start (es ! k) \<le> unat b" "unat b < ext_start (es ! Suc k)"
  shows "flat_pos es b = k"
proof -
  have s: "sorted_wrt (<) (map ee_block es)" using assms(1) by (rule exts_ok_starts)
  have "ee_block (es ! i) \<le> b \<longleftrightarrow> i < Suc k" if "i < length es" for i
  proof (cases "i \<le> k")
    case True
    then have "ee_block (es ! i) \<le> ee_block (es ! k)" using sorted_keys [OF s] assms(2) by simp
    then show ?thesis using True assms(3) by (simp add: ext_start_def word_le_nat_alt)
  next
    case False
    then have "ee_block (es ! Suc k) \<le> ee_block (es ! i)" using sorted_keys [OF s] that by simp
    then show ?thesis using False assms(4) by (simp add: ext_start_def word_le_nat_alt)
  qed
  then have "length (filter (\<lambda>e. ee_block e \<le> b) es) = Suc k" using filter_prefix [OF s] assms(2) by simp
  then show ?thesis by (simp add: flat_pos_def)
qed

text \<open>
  A request that starts in the hole behind an extent: the code skips as many blocks as the whole hole has,
  wherever in the hole the request starts.
\<close>

lemma map_hole:
  assumes "ext_laws X" "exts_ok X (f_extents s ino)" "Suc k < length (f_extents s ino)" "request_ok K ino cur"
    and "e = f_extents s ino ! k" "f = f_extents s ino ! Suc k"
    and "ext_end X e \<le> unat (log_start cur)" "unat (log_start cur) < ext_start f"
  shows "wp (evfs_extent_map K X ino cur) (\<lambda>r s'. forget ino s' = forget ino s \<and> f_extents s' = f_extents s \<and>
    (let jump = ee_block f - (ee_block e + of_nat (ext4_ext_get_actual_len X e))
     in r = Some (0, cur\<lparr>len := jump\<rparr>,
       \<lparr>log_start = log_start cur + jump, phy_start = phy_start cur + ucast jump, len = len cur - jump\<rparr>))) s"
proof -
  let ?s = "s\<lparr>f_calls := f_calls s @ [Es_remove_extent ino (log_start cur) (len cur)]\<rparr>" and ?es = "f_extents s ino"
  let ?fin = "ee_block e + of_nat (ext4_ext_get_actual_len X e)"
  have ok: "ext_ok X e" "ext_ok X f" using assms(2,3,5,6) by (simp_all add: exts_ok_def)
  note u = ext_end_unat [OF assms(1) ok(1)]
  have le: "ext_start e \<le> ext_end X e" by (simp add: ext_start_def ext_end_def)
  have pos: "flat_pos ?es (log_start cur) = k"
    using flat_pos_between [OF assms(2,3)] assms(5-8) le by simp
  have nx: "flat_next ?es (log_start cur) = Some (ee_block f)" using pos assms(3,6) by (simp add: flat_next_def)
  have c: "\<not> log_start cur < ee_block e" "?fin \<le> log_start cur" "log_start cur < ee_block f"
    using assms(7,8) u(2) le by (simp_all add: word_less_nat_alt word_le_nat_alt ext_start_def)
  have j: "ee_block f - ?fin > 0" using c by (simp add: word_gt_0)
  have mx: "\<not> EXT_MAX_BLOCKS X \<le> ee_block f"
    using ok(2) assms(1) by (simp add: ext_laws_def ext_ok_def ext_end_def word_le_nat_alt)
  have f: "\<not> answer K cs (Find_extent ino b) < 0" for cs b using assms(4) by (simp add: request_ok_def not_less)
  have ne: "?es \<noteq> []" using assms(3) by auto
  have "\<exists>s'. extent_map_loop K X ino cur (log_start cur) (len cur) ?s = Some (Some (0, cur\<lparr>len := ee_block f - ?fin\<rparr>,
      \<lparr>log_start = log_start cur + (ee_block f - ?fin), phy_start = phy_start cur + ucast (ee_block f - ?fin),
       len = len cur - (ee_block f - ?fin)\<rparr>), s') \<and> forget ino s' = forget ino s \<and> f_extents s' = f_extents s"
    using c j mx f ne pos nx
    by (subst extent_map_loop.simps)
      (simp add: extent_map_step_def call_def void_call_def run_state_bind_eq skip_hole_def flip: assms(5))
  then show ?thesis by (auto simp: evfs_extent_map_def wp_fun Let_def) (auto simp: wp_def)
qed

definition demo_file_fs :: "ext4_extent list \<Rightarrow> fs" where
  "demo_file_fs es = demo_fs\<lparr>f_extents := (\<lambda>_. es)\<rparr>"

lemma demo_calls: "ext_calls_ok demo_kernel ino" "answer demo_kernel cs (Find_extent ino b) \<ge> 0"
  "answer demo_kernel cs (Iget ino) \<ge> 0" "answer demo_kernel cs (Journal_start ino n) \<ge> 0" "answer demo_kernel cs Journal_stop = 0"
  by (simp_all add: ext_calls_ok_def demo_kernel_def demo_answer_def)


text \<open>Reading into a buffer of zeros: every round looks at block 0.\<close>

lemma read_loop_zero:
  assumes "exts_ok X (f_extents s ino)" "f_extents s ino = e # es" "ext_laws X" "\<And>cs b. answer K cs (Find_extent ino b) \<ge> 0"
    and "v = \<lparr>log_start = ee_block e, phy_start = ee_pblock e, len = of_nat (ext4_ext_get_actual_len X e)\<rparr>"
  shows "wp (extent_read_loop K X ino zero_ext left 0 n (replicate n v @ replicate left zero_ext))
    (\<lambda>r s'. r = (n + left, replicate (n + left) v, 0 < n + left) \<and> forget ino s' = forget ino s \<and> f_extents s' = f_extents s) s"
  using assms(1,2)
proof (induction left arbitrary: n s)
  case (Suc left)
  have ok: "ext_ok X e" "\<forall>f \<in> set es. ext_end X e \<le> ext_start f" using Suc.prems by simp_all
  have e0: "\<not> ee_block e + of_nat (ext4_ext_get_actual_len X e) \<le> 0"
    using ok(1) ext_end_unat(2) [OF assms(3) ok(1)] by (simp add: word_le_nat_alt ext_ok_def ext_end_def)
  have "filter (\<lambda>f. ee_block f \<le> 0) es = []"
    using ok by (fastforce simp: filter_empty_conv ext_ok_def ext_end_def ext_start_def)
  then have p0: "flat_pos (f_extents s ino) 0 = 0" using Suc.prems(2) by (simp add: flat_pos_def)
  have fr: "\<not> answer K (f_calls s) (Find_extent ino 0) < 0" using assms(4) by (simp add: not_less)
  have upd: "(replicate n v @ replicate (Suc left) zero_ext)[n := v] = replicate (Suc n) v @ replicate left zero_ext"
    by (simp add: list_update_append replicate_append_same)
  have z: "(if Suc n < length (replicate (Suc n) v @ replicate left zero_ext)
      then (replicate (Suc n) v @ replicate left zero_ext) ! Suc n else zero_ext) = zero_ext"
    by (simp add: nth_append)
  let ?s = "s\<lparr>f_calls := f_calls s @ [Find_extent ino 0]\<rparr>"
  have IH: "wp (extent_read_loop K X ino zero_ext left 0 (Suc n) (replicate (Suc n) v @ replicate left zero_ext))
      (\<lambda>r s'. r = (n + Suc left, replicate (n + Suc left) v, 0 < n + Suc left) \<and> forget ino s' = forget ino s \<and> f_extents s' = f_extents s) ?s"
    using Suc.IH [of ?s "Suc n"] Suc.prems by (simp del: replicate_Suc)
  show ?case
    using IH fr e0
    by (simp add: wp_fun Suc.prems(2) p0 [unfolded Suc.prems(2)] Let_def upd assms(5) [symmetric] z zero_ext_def [symmetric] del: replicate_Suc)
      (simp add: zero_ext_def nth_append)
qed simp


section \<open>Inputs at which the properties apply\<close>

abbreviation (input) demo_move where
  "demo_move \<equiv> \<lparr>log_start = 5, phy_start = 500, len = 2\<rparr>"

lemma demo_move_ok:
  "exts_ok demo_ops (f_extents (demo_file_fs [demo_ext 4 4 200]) 12)" "request_ok demo_kernel 12 demo_move"
  "ext_lookup demo_ops (f_extents (demo_file_fs [demo_ext 4 4 200]) 12) (unat (log_start demo_move)) \<noteq> None"
  "\<forall>i < unat (len demo_move). ext_lookup demo_ops (f_extents (demo_file_fs [demo_ext 4 4 200]) 12) (unat (log_start demo_move) + i) \<noteq> None"
  using demo_calls(2) by (simp_all add: request_ok_def demo_file_fs_def covers_def demo_ext_defs)

theorem extent_map_swaps_witness:
  "wp (evfs_extent_map demo_kernel demo_ops 12 demo_move) (\<lambda>r s'. \<exists>c n. r = Some (0, c, n) \<and>
     exchanged demo_ops [demo_ext 4 4 200] (f_extents s' 12) demo_move c n) (demo_file_fs [demo_ext 4 4 200])"
  using extent_map_swaps [OF demo_ops_laws demo_move_ok(1,3,2)] demo_calls(1)
  by (auto simp: demo_file_fs_def elim!: wp_mono)

theorem extent_move_ok_witness:
  "wp (evfs_extent_move demo_kernel demo_ops 12 0 demo_move (0, replicate 2 zero_ext)) (\<lambda>r s'. (\<exists>out. r = Some (0, out)) \<and>
     moved demo_ops [demo_ext 4 4 200] (f_extents s' 12) demo_move) (demo_file_fs [demo_ext 4 4 200])"
  by (rule wp_mono [OF extent_move_ok [OF demo_ops_laws demo_move_ok(1) _ demo_calls(1) demo_move_ok(4) demo_calls(3-5)]])
    (use demo_move_ok(2) in \<open>auto simp: demo_file_fs_def demo_fs_def demo_inode_def\<close>)

theorem extent_map_fault_witness:
  "\<exists>s'. extent_map_loop (demo_kernel\<lparr>answer := \<lambda>_ _. - EIO\<rparr>) demo_ops 12 demo_move 5 2 demo_fs = Some (None, s')"
  by (rule extent_map_fault) simp


theorem extent_move_releases_witness:
  "wp (evfs_extent_move demo_kernel demo_ops 12 7 \<lparr>log_start = 0, phy_start = 500, len = 2\<rparr> (0, []))
     (\<lambda>r s'. r = Some (- EAGAIN, 0, []) \<and> f_extents s' = f_extents (demo_file_fs [demo_ext 0 2 100]) \<and>
        balance (Inode_lock 12) (Inode_unlock 12) (f_calls s') = 0 \<and> count_list (f_calls s') (Iput 12) = 1)
     (demo_file_fs [demo_ext 0 2 100])"
proof -
  let ?m = "evfs_extent_move demo_kernel demo_ops 12 7 \<lparr>log_start = 0, phy_start = 500, len = 2\<rparr> (0, [])"
    and ?s = "demo_file_fs [demo_ext 0 2 100]"
  have v: "i_version (f_inodes ?s 12) = 0" "f_calls ?s = []" by (simp_all add: demo_file_fs_def demo_fs_def demo_inode_def)
  have "wp ?m (\<lambda>r s'. r \<noteq> None) ?s"
    using v by (auto simp: evfs_extent_move_def evfs_iver_def wp_fun demo_kernel_def demo_answer_def)
  moreover note extent_move_releases [of demo_kernel demo_ops 12 7 "\<lparr>log_start = 0, phy_start = 500, len = 2\<rparr>" "(0, [])" ?s]
  ultimately show ?thesis
    by (auto simp: wp_def v demo_kernel_def demo_answer_def split: option.splits prod.splits) (drule arg_cong [where f = f_extents], simp)
qed

end
