(* ===== verification/Evfs_Ioctl.thy ===== *)
theory Evfs_Ioctl
  imports Evfs_Dentry Evfs_Extent
begin

unbundle bit_operations_syntax

text \<open>
  The dispatcher \<open>ext4_ioctl_evfs\<close> of \<open>fs/ext4/evfs.c\<close> over the handlers of the other theories. A request is the
  command with what the caller's structure holds in \<open>in\<close>; what is copied back to the caller is a list of
  \<open>user_out\<close>, in the order of the calls of \<open>copy_to_user\<close>. Memory that the code hands out without having written it (the
  stack and the result of \<open>kmalloc\<close>) is the parameter \<open>junk\<close>.
\<close>

section \<open>Requests\<close>

datatype evfs_cmd =
    EXT4_EVFS_HELLO
  | EXT4_EVFS_IVER
  | EXT4_EVFS_BLK_ALLOC u64
  | EXT4_EVFS_BLK_FREE u64
  | EXT4_EVFS_INO_ALLOC u64
  | EXT4_EVFS_INO_FREE u64
  | EXT4_EVFS_INO_READ u64
  | EXT4_EVFS_DEN_ADD u64 u64 "u8 list"
  | EXT4_EVFS_DEN_READ u64 u32
  | EXT4_EVFS_DEN_DELETE u64 "u8 list"
  | EXT4_EVFS_DEN_UPDATE u64 u32 u64
  | EXT4_EVFS_EXT_READ u64 u32
  | EXT4_EVFS_EXT_MV u64 u64 ext4_evfs_ext
  | EXT4_EVFS_other

datatype user_out =
    User_version u64
  | User_stat evfs_stat
  | User_dentry de_read_out
  | User_num u32
  | User_exts "ext4_evfs_ext list"

record junk =
  junk_stat :: evfs_stat
  junk_stack_stat :: evfs_stat
  junk_dentry :: de_read_out
  junk_err :: int
  junk_num :: u32
  junk_exts :: "nat \<Rightarrow> ext4_evfs_ext list"
  junk_beyond :: ext4_evfs_ext

definition EXT4_NAME_LEN :: nat where
  "EXT4_NAME_LEN = 255"

definition sizeof_evfs_ext :: u64 where
  "sizeof_evfs_ext = 24"

section \<open>Copying to and from the caller\<close>

text \<open>\<open>copy_from_user\<close> and \<open>copy_to_user\<close> return the number of bytes that were not copied.\<close>

type_synonym ioctl_result = "(int \<times> user_out list) option"

definition from_user :: "kernel \<Rightarrow> ioctl_result handler \<Rightarrow> ioctl_result handler" where
  "from_user K m = do {
     n \<leftarrow> call K Copy_from_user;
     if n \<noteq> 0 then ret (Some (- EFAULT, [])) else m
   }"

definition to_user :: "kernel \<Rightarrow> user_out list \<Rightarrow> user_out \<Rightarrow> (user_out list \<Rightarrow> ioctl_result handler) \<Rightarrow> ioctl_result handler" where
  "to_user K outs v m = do {
     n \<leftarrow> call K Copy_to_user;
     if n \<noteq> 0 then ret (Some (- EFAULT, outs)) else m (outs @ [v])
   }"

definition finish :: "int option \<Rightarrow> ioctl_result" where
  "finish r = map_option (\<lambda>v. (v, [])) r"

text \<open>The end of the two extent commands: both results are copied out, and only then is the buffer freed.\<close>

definition copy_exts :: "kernel \<Rightarrow> int \<Rightarrow> u32 \<times> ext4_evfs_ext list \<Rightarrow> ioctl_result handler" where
  "copy_exts K rv out =
     to_user K [] (User_num (fst out)) (\<lambda>outs. to_user K outs (User_exts (snd out)) (\<lambda>outs. do {
       void_call Kfree;
       ret (Some (rv, outs))
     }))"

section \<open>The dispatcher\<close>

definition ext4_ioctl_evfs :: "kernel \<Rightarrow> ext_ops \<Rightarrow> junk \<Rightarrow> evfs_cmd \<Rightarrow> u64 \<Rightarrow> ioctl_result handler" where
  "ext4_ioctl_evfs K X J cmd ino = (case cmd of
     EXT4_EVFS_HELLO \<Rightarrow> do { r \<leftarrow> evfs_hello; ret (finish (Some r)) }
   | EXT4_EVFS_IVER \<Rightarrow> do {
       (r, u_ver) \<leftarrow> evfs_iver ino;
       to_user K [] (User_version u_ver) (\<lambda>outs. ret (Some (r, outs)))
     }
   | EXT4_EVFS_BLK_ALLOC arg \<Rightarrow> do { r \<leftarrow> evfs_block_alloc K ino arg; ret (finish (Some r)) }
   | EXT4_EVFS_BLK_FREE arg \<Rightarrow> do { r \<leftarrow> evfs_block_free K ino arg; ret (finish (Some r)) }
   | EXT4_EVFS_INO_ALLOC arg \<Rightarrow> do { r \<leftarrow> evfs_inode_alloc K arg; ret (finish r) }
   | EXT4_EVFS_INO_FREE arg \<Rightarrow> do { r \<leftarrow> evfs_inode_free K arg; ret (finish r) }
   | EXT4_EVFS_INO_READ iindex \<Rightarrow> from_user K (do {
       (r, out) \<leftarrow> evfs_inode_read K (junk_stack_stat J) (junk_stat J) iindex;
       to_user K [] (User_stat out) (\<lambda>outs. ret (Some (r, outs)))
     })
   | EXT4_EVFS_DEN_ADD parent_ino_num child_ino_num name \<Rightarrow> from_user K (do {
       r \<leftarrow> evfs_dentry_add K parent_ino_num child_ino_num (name[EXT4_NAME_LEN - 1 := 0]);
       ret (finish r)
     })
   | EXT4_EVFS_DEN_READ dir_ino_num target_dentry_index \<Rightarrow> from_user K (do {
       r \<leftarrow> evfs_dentry_read K dir_ino_num target_dentry_index (junk_dentry J);
       (case r of
          None \<Rightarrow> ret None
        | Some (rv, out) \<Rightarrow> to_user K [] (User_dentry out) (\<lambda>outs. ret (Some (rv, outs))))
     })
   | EXT4_EVFS_DEN_DELETE dir_ino_num name \<Rightarrow> from_user K (do {
       r \<leftarrow> evfs_dentry_delete K dir_ino_num (name[EXT4_NAME_LEN - 1 := 0]);
       ret (finish r)
     })
   | EXT4_EVFS_DEN_UPDATE dir_ino_num target_dentry_index new_ino_num \<Rightarrow> from_user K (do {
       r \<leftarrow> evfs_dentry_update K (junk_err J) dir_ino_num target_dentry_index new_ino_num;
       ret (finish r)
     })
   | EXT4_EVFS_EXT_READ ino_num max_num_exts \<Rightarrow> from_user K (from_user K (do {
       p \<leftarrow> call K (Kmalloc (sizeof_evfs_ext * ucast max_num_exts));
       if p = 0 then ret (Some (- ENOMEM, [])) else do {
       (rv, out) \<leftarrow> evfs_extent_read K X (junk_beyond J) ino_num max_num_exts (junk_num J, junk_exts J (unat max_num_exts));
       copy_exts K rv out
       }}))
   | EXT4_EVFS_EXT_MV ino_num exp_iver ext \<Rightarrow> from_user K (from_user K (do {
       p \<leftarrow> call K (Kmalloc (sizeof_evfs_ext * ucast (len ext)));
       if p = 0 then ret (Some (- ENOMEM, [])) else do {
       r \<leftarrow> evfs_extent_move K X ino_num exp_iver ext (junk_num J, junk_exts J (unat (len ext)));
       (case r of
          None \<Rightarrow> ret None
        | Some (rv, out) \<Rightarrow> copy_exts K rv out)
       }}))
   | EXT4_EVFS_other \<Rightarrow> ret (Some (- ENOTTY, [])))"

section \<open>What a request can change\<close>

text \<open>Each handler keeps every part of the state that does not depend on the fields it writes.\<close>

definition ignores_calls :: "(fs \<Rightarrow> 'b) \<Rightarrow> bool" where
  "ignores_calls f \<longleftrightarrow> (\<forall>s cs. f (s\<lparr>f_calls := cs\<rparr>) = f s)"

definition ignores_inodes :: "(fs \<Rightarrow> 'b) \<Rightarrow> bool" where
  "ignores_inodes f \<longleftrightarrow> (\<forall>s i. f (s\<lparr>f_inodes := i\<rparr>) = f s)"

definition ignores_tracker :: "(fs \<Rightarrow> 'b) \<Rightarrow> bool" where
  "ignores_tracker f \<longleftrightarrow> (\<forall>s t. f (s\<lparr>f_tracker := t\<rparr>) = f s)"

definition ignores_alloc :: "(fs \<Rightarrow> 'b) \<Rightarrow> bool" where
  "ignores_alloc f \<longleftrightarrow> (\<forall>s v. f (s\<lparr>f_sb := v\<rparr>) = f s) \<and> (\<forall>s v. f (s\<lparr>f_gdesc := v\<rparr>) = f s) \<and>
     (\<forall>s v. f (s\<lparr>f_bbitmap := v\<rparr>) = f s) \<and> (\<forall>s v. f (s\<lparr>f_ibitmap := v\<rparr>) = f s)"

lemmas ignores_defs = ignores_calls_def ignores_inodes_def ignores_tracker_def ignores_alloc_def

lemma keeps_bitmaps [stays_intros]:
  "ignores_alloc f \<Longrightarrow> stays (keeps f) (test_and_set_bbitmap g off)"
  "ignores_alloc f \<Longrightarrow> stays (keeps f) (test_and_clear_bbitmap g off)"
  "ignores_alloc f \<Longrightarrow> stays (keeps f) (test_and_set_ibitmap g off)"
  by (simp_all add: stays_def keeps_def ignores_alloc_def)

lemma keeps_walk [stays_intros]:
  "(\<And>off. stays R (a off)) \<Longrightarrow> (\<And>off. stays R (b off)) \<Longrightarrow> stays R c \<Longrightarrow>
   stays R (case w of Walk_found off \<Rightarrow> a off | Walk_end off \<Rightarrow> b off | Walk_fault \<Rightarrow> c)"
  by (cases w) simp_all

lemma keeps_tracker_op: "ignores_calls f \<Longrightarrow> ignores_tracker f \<Longrightarrow> stays (keeps f) (tracker_op K op n)"
  unfolding tracker_op_def by (intro stays_intros) (simp_all add: keeps_def ignores_defs)

lemma block_ops_keep:
  assumes "ignores_calls f" "ignores_alloc f"
  shows "stays (keeps f) (evfs_block_alloc K ino b)" "stays (keeps f) (evfs_block_free K ino b)"
  unfolding evfs_block_alloc_def evfs_block_free_def with_block_group_def block_alloc_body_def block_free_body_def
    percpu_freeclusters_add_def sb_free_blocks_add_def
  using assms by (intro stays_intros; simp add: keeps_def ignores_defs upd_defs)+

lemma inode_alloc_keeps:
  assumes "ignores_calls f" "ignores_alloc f" "ignores_inodes f" "ignores_tracker f"
  shows "stays (keeps f) (evfs_inode_alloc K n)"
  unfolding evfs_inode_alloc_def inode_alloc_body_def inode_alloc_claim_def inode_alloc_commit_def
    inode_alloc_fail_free_drop_def inode_alloc_fail_drop_def evfs_inode_track_def
  using assms by (intro stays_intros keeps_tracker_op; simp add: keeps_def ignores_defs upd_defs)+

lemma inode_free_keeps:
  assumes "ignores_calls f" "ignores_inodes f" "ignores_tracker f"
  shows "stays (keeps f) (evfs_inode_free K n)"
  unfolding evfs_inode_free_def evfs_inode_untrack_def evfs_inode_dec_nlink_def
  using assms by (intro stays_intros keeps_tracker_op; simp add: keeps_def ignores_defs upd_defs)+

lemma reads_keep:
  assumes "ignores_calls f"
  shows "stays (keeps f) (evfs_inode_read K st out n)" "stays (keeps f) (evfs_dentry_read K dir target dout)"
    "stays (keeps f) (evfs_iver n)" "stays (keeps f) evfs_hello"
  unfolding evfs_inode_read_def evfs_dentry_read_def evfs_iver_def evfs_hello_def
  using assms by (intro stays_intros; simp add: keeps_def ignores_defs Let_def)+

lemma extent_read_keeps:
  assumes "ignores_calls f"
  shows "stays (keeps f) (evfs_extent_read K X v n m out)"
proof -
  have "stays (keeps f) (extent_read_loop K X n v left b cnt exts)" for left b cnt exts
  proof (induction left arbitrary: b cnt exts)
    case (Suc left)
    then show ?case
      unfolding extent_read_loop.simps Let_def
      by (intro stays_intros) (use assms in \<open>simp_all add: ignores_calls_def\<close>)
  qed (simp add: keeping.stays_ret)
  then show ?thesis
    unfolding evfs_extent_read_def by (intro stays_intros) (use assms in \<open>simp_all add: ignores_calls_def\<close>)
qed

lemma dentry_ops_keep:
  assumes "ignores_calls f" "ignores_inodes f"
  shows "stays (keeps f) (evfs_dentry_add K dir child name)"
    "(\<And>s d. f (s\<lparr>f_dirblk := d\<rparr>) = f s) \<Longrightarrow> ignores_tracker f \<Longrightarrow> stays (keeps f) (evfs_dentry_update K j dir target child)"
    "ignores_tracker f \<Longrightarrow> stays (keeps f) (evfs_dentry_delete K dir name)"
proof -
  have once: "stays (keeps f) (ext4_link_once K dir ino name)" for K dir ino name
    unfolding ext4_link_once_def set_ctime_current_def
    using assms by (intro stays_intros; simp add: keeps_def ignores_defs upd_defs)
  have link: "stays (keeps f) (ext4_link_internal K dir ino name)" for K dir ino name
    by (rule keeping_fs.link_stays, erule staysD [OF once]) (use assms in \<open>simp add: keeps_def ignores_calls_def\<close>)
  show "stays (keeps f) (evfs_dentry_add K dir child name)"
    unfolding evfs_dentry_add_def dentry_add_locked_def
    using assms by (intro stays_intros link; simp add: keeps_def ignores_defs)
  show "stays (keeps f) (evfs_dentry_update K j dir target child)" if "\<And>s d. f (s\<lparr>f_dirblk := d\<rparr>) = f s" "ignores_tracker f"
    unfolding evfs_dentry_update_def dentry_update_swap_def iput_all_def evfs_inode_inc_nlink_def evfs_inode_dec_nlink_def
      set_mctime_current_def evfs_inode_untrack_nolock_def ext4_handle_dirty_dirblock_def
    using assms that by (intro stays_intros keeps_tracker_op; simp add: keeps_def ignores_defs upd_defs)
  show "stays (keeps f) (evfs_dentry_delete K dir name)" if "ignores_tracker f"
    unfolding evfs_dentry_delete_def dentry_delete_child_def evfs_inode_untrack_nolock_def ext4_unlink_entry_def
      set_mctime_current_def set_ctime_current_def
    using assms that by (intro stays_intros keeps_tracker_op; simp add: keeps_def ignores_defs upd_defs)
qed

lemma extent_move_keeps:
  assumes "ignores_calls f" "\<And>s es. f (s\<lparr>f_extents := (f_extents s)(n := es)\<rparr>) = f s"
  shows "stays (keeps f) (evfs_extent_move K X n v e out)"
proof -
  have "stays (keeps f) (extent_map_step K X n cur lblk ln)" for cur lblk ln
    unfolding extent_map_step_def map_covered_def map_swap_def after_split_def ext4_force_split_extent_at_def
      ext4_split_extent_at_def insert_second_def fix_extent_len_def put_extents_def merge_in_leaf_def
    using assms by (intro stays_intros; simp add: keeps_def ignores_defs upd_extents_def Let_def keeping.stays_ret)
  then have "stays (keeps f) (extent_move_loop K X n left cur out)" for left cur out
    by (intro keeping_fs.move_loop_stays keeping_fs.map_stays stays_intros) (use assms in \<open>simp_all add: ignores_calls_def\<close>)
  then show ?thesis
    unfolding evfs_extent_move_def evfs_iver_def
    by (intro stays_intros) (use assms in \<open>simp_all add: ignores_calls_def\<close>)
qed

text \<open>Which parts of the file system a command may write.\<close>

definition writes_alloc :: "evfs_cmd \<Rightarrow> bool" where
  "writes_alloc cmd = (case cmd of EXT4_EVFS_BLK_ALLOC b \<Rightarrow> True | EXT4_EVFS_BLK_FREE b \<Rightarrow> True | EXT4_EVFS_INO_ALLOC n \<Rightarrow> True
     | _ \<Rightarrow> False)"

definition writes_tracker :: "evfs_cmd \<Rightarrow> bool" where
  "writes_tracker cmd = (case cmd of EXT4_EVFS_INO_ALLOC n \<Rightarrow> True | EXT4_EVFS_INO_FREE n \<Rightarrow> True
     | EXT4_EVFS_DEN_DELETE d nm \<Rightarrow> True | EXT4_EVFS_DEN_UPDATE d i n \<Rightarrow> True | _ \<Rightarrow> False)"

definition writes_inodes :: "evfs_cmd \<Rightarrow> bool" where
  "writes_inodes cmd = (case cmd of EXT4_EVFS_INO_ALLOC n \<Rightarrow> True | EXT4_EVFS_INO_FREE n \<Rightarrow> True | EXT4_EVFS_DEN_ADD d n nm \<Rightarrow> True
     | EXT4_EVFS_DEN_DELETE d nm \<Rightarrow> True | EXT4_EVFS_DEN_UPDATE d i n \<Rightarrow> True | _ \<Rightarrow> False)"

definition alloc_part :: "fs \<Rightarrow> super_block \<times> (ext4_group_t \<Rightarrow> ext4_group_desc) \<times> (ext4_group_t \<Rightarrow> nat \<Rightarrow> bool) \<times> (ext4_group_t \<Rightarrow> nat \<Rightarrow> bool)" where
  "alloc_part s = (f_sb s, f_gdesc s, f_bbitmap s, f_ibitmap s)"

lemma keeps_user:
  assumes "ignores_calls f"
  shows "stays (keeps f) m \<Longrightarrow> stays (keeps f) (from_user K m)"
    "(\<And>outs. stays (keeps f) (g outs)) \<Longrightarrow> stays (keeps f) (to_user K outs v g)"
    "stays (keeps f) (copy_exts K rv out)"
  unfolding from_user_def to_user_def copy_exts_def
  by (intro stays_intros; use assms in \<open>simp add: ignores_calls_def\<close>)+

text \<open>A command keeps what its handler keeps.\<close>

lemma ioctl_keeps:
  assumes "ignores_calls f"
    and "writes_alloc cmd \<Longrightarrow> ignores_alloc f" "writes_tracker cmd \<Longrightarrow> ignores_tracker f" "writes_inodes cmd \<Longrightarrow> ignores_inodes f"
    and "\<And>d i n s v. cmd = EXT4_EVFS_DEN_UPDATE d i n \<Longrightarrow> f (s\<lparr>f_dirblk := v\<rparr>) = f s"
    and "\<And>n v e s es. cmd = EXT4_EVFS_EXT_MV n v e \<Longrightarrow> f (s\<lparr>f_extents := (f_extents s)(n := es)\<rparr>) = f s"
  shows "stays (keeps f) (ext4_ioctl_evfs K X J cmd ino)"
proof -
  have fin: "stays (keeps f) (m \<bind> (\<lambda>r. ret (finish r)))" if "stays (keeps f) m" for m :: "int option handler"
    using that by (intro stays_intros)
  have fin1: "stays (keeps f) (m \<bind> (\<lambda>r. ret (finish (Some r))))" if "stays (keeps f) m" for m :: "int handler"
    using that by (intro stays_intros)
  have c: "stays (keeps f) (call K c)" for c using assms(1) by (intro stays_intros) (simp add: ignores_calls_def)
  show ?thesis
    unfolding ext4_ioctl_evfs_def
    using assms(2-6)
    by (cases cmd)
      (auto simp: writes_alloc_def writes_tracker_def writes_inodes_def
        intro!: fin fin1 c keeps_user [OF assms(1)] stays_intros block_ops_keep [OF assms(1)] inode_alloc_keeps [OF assms(1)]
          inode_free_keeps [OF assms(1)] reads_keep [OF assms(1)] extent_read_keeps [OF assms(1)] dentry_ops_keep [OF assms(1)]
          extent_move_keeps [OF assms(1)])
qed


section \<open>The buffer of the extent commands\<close>

lemma stays_calls_mono: "stays (calls_rel A) m \<Longrightarrow> A \<subseteq> B \<Longrightarrow> stays (calls_rel B) m"
  unfolding stays_def by (intro allI, drule spec, erule wp_mono) (auto simp: calls_rel_def)

lemma extent_ops_no_kfree:
  "stays (calls_rel (- {Kfree})) (evfs_extent_move K X n v e out)" "stays (calls_rel (- {Kfree})) (evfs_extent_read K X w n m out)"
proof -
  have sub: "ext_calls n \<subseteq> - {Kfree}" by (auto simp: ext_calls_def)
  show "stays (calls_rel (- {Kfree})) (evfs_extent_move K X n v e out)"
    unfolding evfs_extent_move_def evfs_iver_def
    by (intro stays_intros stays_calls_mono [OF calls_in_move_loop sub]) simp_all
  have "stays (calls_rel (- {Kfree})) (extent_read_loop K X n w left b cnt exts)" for left b cnt exts
  proof (induction left arbitrary: b cnt exts)
    case (Suc left)
    then show ?case unfolding extent_read_loop.simps Let_def by (intro stays_intros) simp_all
  qed (simp add: calling.stays_ret)
  then show "stays (calls_rel (- {Kfree})) (evfs_extent_read K X w n m out)"
    unfolding evfs_extent_read_def by (intro stays_intros) simp_all
qed

definition buffer_post :: "fs \<Rightarrow> ioctl_result \<Rightarrow> fs \<Rightarrow> bool" where
  "buffer_post s r s' = (case r of None \<Rightarrow> True | Some (rv, outs) \<Rightarrow> \<exists>cs. f_calls s' = f_calls s @ cs \<and>
     (if length outs = 2 then count_list cs Kfree = 1 else rv = - EFAULT \<and> Kfree \<notin> set cs))"

lemma copy_exts_buffer:
  assumes "\<exists>cs. f_calls s1 = f_calls s @ cs \<and> Kfree \<notin> set cs"
  shows "wp (copy_exts K rv out) (buffer_post s) s1"
  using assms by (auto simp: copy_exts_def to_user_def wp_fun buffer_post_def)

text \<open>
  C37 ioctl_buffer_leak: once the buffer of one of the two extent commands is allocated, a call that returns has
  freed it exactly once if both results could be copied to the caller; if either copy fails, the call returns
  \<open>-EFAULT\<close> and the buffer is never freed.
\<close>

theorem ioctl_buffer_leak:
  assumes "\<And>cs. answer K cs Copy_from_user = 0" "\<And>cs n. answer K cs (Kmalloc n) \<noteq> 0"
  shows "wp (ext4_ioctl_evfs K X J (EXT4_EVFS_EXT_READ n m) ino) (buffer_post s) s \<and>
    wp (ext4_ioctl_evfs K X J (EXT4_EVFS_EXT_MV n v e) ino) (buffer_post s) s"
proof
  show "wp (ext4_ioctl_evfs K X J (EXT4_EVFS_EXT_READ n m) ino) (buffer_post s) s"
    using assms by (auto simp: ext4_ioctl_evfs_def from_user_def wp_fun intro!: calls_in_rule [OF extent_ops_no_kfree(2)] copy_exts_buffer)
  show "wp (ext4_ioctl_evfs K X J (EXT4_EVFS_EXT_MV n v e) ino) (buffer_post s) s"
    using assms
    by (auto simp: ext4_ioctl_evfs_def from_user_def wp_fun intro!: calls_in_rule [OF extent_ops_no_kfree(1)] copy_exts_buffer
        split: option.split simp: buffer_post_def)
qed

text \<open>
  C38 ioctl_discloses_junk: when the version is not the expected one, or the inode to be read cannot be loaded, the extent commands copy out
  a count and a buffer that nothing has written: the caller gets uninitialised kernel memory beside the error.
\<close>

theorem ioctl_discloses_junk:
  assumes "\<And>cs. answer K cs Copy_from_user = 0" "\<And>cs. answer K cs Copy_to_user = 0" "\<And>cs k. answer K cs (Kmalloc k) \<noteq> 0"
    and "\<And>cs. answer K cs (Iget n) \<ge> 0" "i_version (f_inodes s n) \<noteq> v" "\<And>cs. answer K cs (Iget bad) = err" "err < 0"
  shows "wp (ext4_ioctl_evfs K X J (EXT4_EVFS_EXT_MV n v e) ino)
      (\<lambda>r s'. r = Some (- EAGAIN, [User_num (junk_num J), User_exts (junk_exts J (unat (len e)))])) s \<and>
    wp (ext4_ioctl_evfs K X J (EXT4_EVFS_EXT_READ bad m) ino)
      (\<lambda>r s'. r = Some (err, [User_num (junk_num J), User_exts (junk_exts J (unat m))])) s"
proof
  have i: "\<not> answer K cs (Iget n) < 0" for cs using assms(4) by (simp add: not_less)
  show "wp (ext4_ioctl_evfs K X J (EXT4_EVFS_EXT_MV n v e) ino)
      (\<lambda>r s'. r = Some (- EAGAIN, [User_num (junk_num J), User_exts (junk_exts J (unat (len e)))])) s"
    using assms(1-3,5) i
    by (simp add: ext4_ioctl_evfs_def from_user_def to_user_def copy_exts_def evfs_extent_move_def evfs_iver_def wp_fun)
  show "wp (ext4_ioctl_evfs K X J (EXT4_EVFS_EXT_READ bad m) ino)
      (\<lambda>r s'. r = Some (err, [User_num (junk_num J), User_exts (junk_exts J (unat m))])) s"
    using assms(1-3,6,7)
    by (simp add: ext4_ioctl_evfs_def from_user_def to_user_def copy_exts_def evfs_extent_read_def wp_fun)
qed

definition demo_stat :: evfs_stat where
  "demo_stat =
     \<lparr>est_dev = 0, est_ino = 0, est_mode = 0, est_nlink = 0, est_uid = 0, est_gid = 0, est_rdev = 0,
     est_version = 0, est_size = 0, est_blksize = 0, est_blocks = 0, est_atime = 0, est_atime_nsec = 0,
     est_mtime = 0, est_mtime_nsec = 0, est_ctime = 0, est_ctime_nsec = 0\<rparr>"

definition demo_junk :: junk where
  "demo_junk = \<lparr>junk_stat = demo_stat, junk_stack_stat = demo_stat, junk_dentry = demo_out, junk_err = 7, junk_num = 9,
     junk_exts = (\<lambda>n. replicate n zero_ext), junk_beyond = zero_ext\<rparr>"

theorem ioctl_buffer_leak_witness:
  "wp (ext4_ioctl_evfs demo_kernel demo_ops demo_junk (EXT4_EVFS_EXT_READ 12 2) 2) (buffer_post demo_fs) demo_fs"
  using ioctl_buffer_leak [of demo_kernel demo_ops demo_junk 12 2 2 demo_fs]
  by (simp add: demo_kernel_def demo_answer_def)

theorem ioctl_discloses_junk_witness:
  "wp (ext4_ioctl_evfs (demo_kernel\<lparr>answer := \<lambda>cs c. if c = Iget 99 then - EIO else demo_answer cs c\<rparr>) demo_ops demo_junk
       (EXT4_EVFS_EXT_READ 99 1) 2) (\<lambda>r s'. r = Some (- EIO, [User_num 9, User_exts [zero_ext]])) demo_fs"
  using ioctl_discloses_junk [of "demo_kernel\<lparr>answer := \<lambda>cs c. if c = Iget 99 then - EIO else demo_answer cs c\<rparr>" 12 demo_fs 5 99
      "- EIO" demo_ops demo_junk zero_ext 2 1]
  by (simp add: demo_answer_def demo_fs_def demo_inode_def demo_junk_def)


end
