(* ===== verification/Ext4_Dirsplit.thy ===== *)
theory Ext4_Dirsplit
  imports Ext4_Dirblock
begin

unbundle bit_operations_syntax

text \<open>
  Splitting a leaf block of a hashed directory, from \<open>fs/ext4/namei.c\<close>: the map of hashes of a block, the move of entries to
  a new block, packing what is left, and \<open>do_split\<close> around them. The map is a list here; in the code it lies at the end of the
  new block, behind the entries that are copied there. \<open>dirhash\<close> is \<open>ext4fs_dirhash\<close> of \<open>hash.c\<close>, the other parameters are
  those of \<open>Ext4_Dirent\<close>; pages are smaller than 64 KiB.
\<close>

section \<open>Moving entries between blocks\<close>

definition slice :: "nat \<Rightarrow> nat \<Rightarrow> u8 list \<Rightarrow> u8 list" where
  "slice off n blk = take n (drop off blk)"

text \<open>\<open>EXT4_DIRENT_HASHES\<close>: the hash that is stored behind the name, at the next multiple of 4.\<close>

definition EXT4_DIRENT_HASH :: "u8 list \<Rightarrow> nat \<Rightarrow> u32" where
  "EXT4_DIRENT_HASH blk off = u32_at blk (off + (8 + unat (de_name_len blk off) + 3) div 4 * 4)"

text \<open>The hash of an entry, from the entry itself or by \<open>ext4fs_dirhash\<close> (\<open>dirhash\<close>), which may fail.\<close>

definition dirent_hash :: "(u8 list \<Rightarrow> int + u32) \<Rightarrow> bool \<Rightarrow> u8 list \<Rightarrow> nat \<Rightarrow> int + u32" where
  "dirent_hash dirhash h blk off =
     (if h then Inr (EXT4_DIRENT_HASH blk off) else dirhash (de_name blk off))"

partial_function (option) make_map_loop ::
    "(u8 list \<Rightarrow> nat \<Rightarrow> bool) \<Rightarrow> (u8 list \<Rightarrow> int + u32) \<Rightarrow> bool \<Rightarrow> u8 list \<Rightarrow> nat \<Rightarrow> nat \<Rightarrow> dx_map_entry list \<Rightarrow>
     (int + dx_map_entry list) option" where
  "make_map_loop check dirhash h blk buflen off map_tail =
     (if off < buflen then
        if check blk off then Some (Inl (- EUCLEAN))
        else if de_name_len blk off \<noteq> 0 \<and> de_inode blk off \<noteq> 0 then
          (case dirent_hash dirhash h blk off of
             Inl err \<Rightarrow> Some (Inl err)
           | Inr hv \<Rightarrow> make_map_loop check dirhash h blk buflen (off + rlen_at blk off)
               (\<lparr>dm_hash = hv, dm_offs = of_nat (off div 4), dm_size = of_nat (rlen_at blk off)\<rparr> # map_tail))
        else make_map_loop check dirhash h blk buflen (off + rlen_at blk off) map_tail
      else Some (Inr map_tail))"

definition dx_make_map ::
    "(u8 list \<Rightarrow> nat \<Rightarrow> bool) \<Rightarrow> (u8 list \<Rightarrow> int + u32) \<Rightarrow> bool \<Rightarrow> nat \<Rightarrow> u8 list \<Rightarrow> (int + dx_map_entry list) option" where
  "dx_make_map check dirhash h csum_size blk = make_map_loop check dirhash h blk (length blk - csum_size) 0 []"

text \<open>
  \<open>dx_move_dirents\<close>: copy the entries of the map from the first block to the second, with the shortest record
  lengths, and wipe them in the first one. The result is both blocks and the offset of the last entry copied.
\<close>

fun dx_move_dirents :: "bool \<Rightarrow> dx_map_entry list \<Rightarrow> u8 list \<Rightarrow> u8 list \<Rightarrow> nat \<Rightarrow> nat \<Rightarrow> u8 list \<times> u8 list \<times> nat" where
  "dx_move_dirents h [] from_blk to_blk to rec_len = (from_blk, to_blk, to - rec_len)"
| "dx_move_dirents h (m # mp) from_blk to_blk to rec_len =
     (let de = 4 * unat (dm_offs m);
          rec_len = nlen_at h from_blk de;
          to_blk = put to (slice de rec_len from_blk) to_blk;
          to_blk = put (to + 4) (le16 (of_nat rec_len)) to_blk;
          from_blk = put de (le32 0) from_blk;
          from_blk = put (de + 6) (replicate (rlen_at from_blk de - 6) 0) from_blk
      in dx_move_dirents h mp from_blk to_blk (to + rec_len) rec_len)"

text \<open>\<open>dx_pack_dirents\<close>: move the entries in use to the front of the block. The loop runs over the checksum record too.\<close>

partial_function (option) pack_loop :: "bool \<Rightarrow> nat \<Rightarrow> nat \<Rightarrow> nat \<Rightarrow> nat \<Rightarrow> u8 list \<Rightarrow> (nat \<times> u8 list) option" where
  "pack_loop h blocksize de to prev blk =
     (if de < blocksize then
        (let nxt = de + rlen_at blk de
         in if de_inode blk de \<noteq> 0 \<and> de_name_len blk de \<noteq> 0 then
              (let rec_len = nlen_at h blk de;
                   blk = (if de > to then put to (slice de rec_len blk) blk else blk);
                   blk = put (to + 4) (le16 (of_nat rec_len)) blk
               in pack_loop h blocksize nxt (to + rec_len) to blk)
            else pack_loop h blocksize nxt to prev blk)
      else Some (prev, blk))"

definition dx_pack_dirents :: "bool \<Rightarrow> nat \<Rightarrow> u8 list \<Rightarrow> (nat \<times> u8 list) option" where
  "dx_pack_dirents h blocksize blk = pack_loop h blocksize 0 0 0 blk"

text \<open>
  The loop of \<open>do_split\<close> over the sizes, from the end of the mp, for \<open>n = i + 1\<close> entries that are left: the value of
  \<open>i + 1\<close> when it ends, and \<open>move\<close>. Then the index at which the mp is split.
\<close>

fun split_scan :: "nat \<Rightarrow> dx_map_entry list \<Rightarrow> nat \<Rightarrow> nat \<Rightarrow> nat \<Rightarrow> nat \<times> nat" where
  "split_scan blocksize mp 0 moved_size move = (0, move)"
| "split_scan blocksize mp (Suc i) moved_size move =
     (if moved_size + unat (dm_size (mp ! i)) div 2 > blocksize div 2 then (Suc i, move)
      else split_scan blocksize mp i (moved_size + unat (dm_size (mp ! i))) (move + 1))"

definition split_index :: "nat \<Rightarrow> dx_map_entry list \<Rightarrow> nat" where
  "split_index blocksize mp =
     (case split_scan blocksize mp (length mp) 0 0 of
        (n, move) \<Rightarrow> if n > 1 then length mp - move else length mp div 2)"

text \<open>
  The part of \<open>do_split\<close> between the calls to the journal: both blocks, the offsets of their last entries, the hash at
  which the block is split and whether it continues in the first block. \<open>mp[split]\<close> with an empty mp and
  \<open>mp[split - 1]\<close> with \<open>split = 0\<close> are outside the array; reading there is the result \<open>None\<close>, as is a loop that does not end.
\<close>

record split_result =
  sp_data1 :: "u8 list"
  sp_data2 :: "u8 list"
  sp_de :: nat
  sp_de2 :: nat
  sp_hash2 :: u32
  sp_continued :: bool

definition close_block :: "nat \<Rightarrow> nat \<Rightarrow> nat \<Rightarrow> u8 list \<Rightarrow> u8 list" where
  "close_block blocksize csum_size de blk =
     (let blk = put (de + 4) (le16 (of_nat (blocksize - csum_size - de))) blk
      in if csum_size \<noteq> 0 then ext4_initialize_dirent_tail blocksize blk else blk)"

definition split_blocks ::
    "(u8 list \<Rightarrow> nat \<Rightarrow> bool) \<Rightarrow> (u8 list \<Rightarrow> int + u32) \<Rightarrow> bool \<Rightarrow> nat \<Rightarrow> nat \<Rightarrow> u8 list \<Rightarrow> u8 list \<Rightarrow> (int + split_result) option" where
  "split_blocks check dirhash h blocksize csum_size data1 data2 =
     (case dx_make_map check dirhash h csum_size data1 of
        None \<Rightarrow> None
      | Some (Inl err) \<Rightarrow> Some (Inl err)
      | Some (Inr mp) \<Rightarrow>
          (let mp = dx_sort_map mp;
               split = split_index blocksize mp
           in if split = 0 then None
              else (case dx_move_dirents h (drop split mp) data1 data2 0 0 of
                      (data1, data2, de2) \<Rightarrow>
                        (case dx_pack_dirents h blocksize data1 of
                           None \<Rightarrow> None
                         | Some (de, data1) \<Rightarrow>
                             Some (Inr \<lparr>sp_data1 = close_block blocksize csum_size de data1,
                               sp_data2 = close_block blocksize csum_size de2 data2, sp_de = de, sp_de2 = de2,
                               sp_hash2 = dm_hash (mp ! split),
                               sp_continued = (dm_hash (mp ! split) = dm_hash (mp ! (split - 1)))\<rparr>)))))"

section \<open>Copies and wiped entries\<close>

text \<open>The records of a chain do not overlap.\<close>

lemma chain_apart:
  assumes "chain h blk off lim offs" "p \<in> set offs" "q \<in> set offs" "p < q"
  shows "p + rlen_at blk p \<le> q"
  using assms
proof (induction offs arbitrary: off rule: list.induct)
  case (Cons x offs)
  then show ?case using chain_member [of h blk "off + rlen_at blk off" lim offs]
    by (auto dest: add_leD1 leD)
qed simp

lemma chain_strict:
  assumes "chain h blk off lim offs"
  shows "sorted_wrt (<) offs"
  using assms
proof (induction offs arbitrary: off rule: list.induct)
  case (Cons x offs)
  then show ?case using chain_member [of h blk "off + rlen_at blk off" lim offs] rlen_ge_8 [of h blk off lim]
    by fastforce
qed simp

lemma chain_aligned:
  "chain h blk off lim offs \<Longrightarrow> off mod 4 = 0 \<Longrightarrow> p \<in> set offs \<Longrightarrow> p mod 4 = 0"
proof (induction offs arbitrary: off rule: list.induct)
  case (Cons x offs)
  have "(off + rlen_at blk off) mod 4 = 0" using Cons.prems by (auto simp: entry_ok_def mod_eq_0_iff_dvd)
  then show ?case using Cons by auto
qed simp

text \<open>A chain depends only on the record lengths and name lengths of its entries.\<close>

lemma chain_fields:
  assumes "chain h blk off lim offs" "length blk' = length blk"
    and "\<And>p. p \<in> set offs \<Longrightarrow> rlen_at blk' p = rlen_at blk p \<and> nlen_at h blk' p \<le> nlen_at h blk p"
  shows "chain h blk' off lim offs"
  using assms(1,3)
proof (induction offs arbitrary: off rule: list.induct)
  case (Cons x offs)
  then have x: "x = off" "entry_ok h blk off lim" "chain h blk (off + rlen_at blk off) lim offs"
    "rlen_at blk' off = rlen_at blk off" "nlen_at h blk' off \<le> nlen_at h blk off" by auto
  then show ?case using Cons.IH [OF x(3)] Cons.prems(2) assms(2) by (auto simp: entry_ok_def intro: order_trans [OF x(5)])
qed simp

lemma length_slice [simp]: "off + n \<le> length blk \<Longrightarrow> length (slice off n blk) = n"
  by (simp add: slice_def)

lemma nth_slice: "off + n \<le> length blk \<Longrightarrow> i < n \<Longrightarrow> slice off n blk ! i = blk ! (off + i)"
  by (simp add: slice_def)

text \<open>What \<open>dx_move_dirents\<close> and \<open>dx_pack_dirents\<close> do to one entry: copy it and shorten the copy.\<close>

definition copy_entry :: "nat \<Rightarrow> nat \<Rightarrow> u8 list \<Rightarrow> nat \<Rightarrow> u8 list \<Rightarrow> u8 list" where
  "copy_entry de n from_blk to to_blk = put (to + 4) (le16 (of_nat n)) (put to (slice de n from_blk) to_blk)"

lemma copy_entry:
  assumes "de + n \<le> length from_blk" "to + n \<le> length to_blk" "n = nlen_at h from_blk de" 
  defines "b \<equiv> copy_entry de n from_blk to to_blk"
  shows "length b = length to_blk" "de_inode b to = de_inode from_blk de" "de_name b to = de_name from_blk de"
    "de_name_len b to = de_name_len from_blk de" "rlen_at b to = n" "entry_ok h b to (to + n)"
    "\<And>i. i < length to_blk \<Longrightarrow> i < to \<or> to + n \<le> i \<Longrightarrow> b ! i = to_blk ! i"
proof -
  have n: "8 + unat (de_name_len from_blk de) \<le> n" "n mod 4 = 0" using nlen_bounds(1) [of from_blk de h] nlen_bounds(2) [of h from_blk de] assms(3) by auto
  have n16: "n < 2 ^ 16"
    using unsigned_less [of "de_name_len from_blk de", where 'a = nat] by (auto simp: assms(3) nlen_at_def ext4_dir_rec_len_unat)
  define c where "c = put to (slice de n from_blk) to_blk"
  have lc: "length c = length to_blk" using assms(1,2) by (simp add: c_def)
  have c: "c ! i = (if to \<le> i \<and> i < to + n then from_blk ! (de + (i - to)) else to_blk ! i)" if "i < length to_blk" for i
    using assms(1,2) that by (auto simp: c_def nth_put nth_slice)
  have b: "b = put (to + 4) (le16 (of_nat n)) c" by (simp add: b_def copy_entry_def c_def)
  show lb: "length b = length to_blk" using lc n assms(2) by (simp add: b)
  have bc: "b ! i = c ! i" if "i < length to_blk" "i < to + 4 \<or> to + 6 \<le> i" for i
    using that lc n assms(2) by (auto simp: b nth_put)
  show nl: "de_name_len b to = de_name_len from_blk de" using bc c n assms(2) by (simp add: de_name_len_def)
  show "de_inode b to = de_inode from_blk de" using bc c n assms(2) by (simp add: de_inode_def)
  show "de_name b to = de_name from_blk de" using bc c n assms(2) by (auto simp: de_name_def nl add.assoc intro!: nth_equalityI)
  show rl: "rlen_at b to = n" unfolding b using lc n n16 assms(2) by (intro rec_len_put) simp_all
  have "nlen_at h b to = n" by (simp add: nlen_at_def nl assms(3))
  then show "entry_ok h b to (to + n)" using rl n lb assms(2) by (simp add: entry_ok_def)
  show "\<And>i. i < length to_blk \<Longrightarrow> i < to \<or> to + n \<le> i \<Longrightarrow> b ! i = to_blk ! i" using bc c n by auto
qed

text \<open>A copy at the end of a chain prolongs it.\<close>

lemma chain_snoc:
  assumes "chain h b off to offs" "entry_ok h b to lim" "to + rlen_at b to = lim"
  shows "chain h b off lim (offs @ [to])"
  using assms by (simp add: chain_split)

lemma copy_prolongs:
  assumes "de + n \<le> length from_blk" "to + n \<le> length to_blk" "n = nlen_at h from_blk de" "chain h to_blk 0 to offs"
    and "de_inode from_blk de \<noteq> 0"
  defines "b \<equiv> copy_entry de n from_blk to to_blk"
  shows "chain h b 0 (to + n) (offs @ [to])"
    "live b (offs @ [to]) = live to_blk offs @ [(de_inode from_blk de, de_name from_blk de)]"
proof -
  note c = copy_entry [OF assms(1-3), folded b_def]
  have p: "chain h b 0 to offs \<and> live b offs = live to_blk offs"
    by (rule chain_cong [OF _ c(1) assms(4)]) (use c(7) assms(2) in auto)
  show "chain h b 0 (to + n) (offs @ [to])" using p c(5,6) by (intro chain_snoc) auto
  show "live b (offs @ [to]) = live to_blk offs @ [(de_inode from_blk de, de_name from_blk de)]"
    using p c(2,3) assms(5) by simp
qed

definition same_rec :: "u8 list \<Rightarrow> u8 list \<Rightarrow> nat \<Rightarrow> bool" where
  "same_rec blk blk' p \<longleftrightarrow> (\<forall>i. p \<le> i \<and> i < p + rlen_at blk p \<longrightarrow> blk' ! i = blk ! i)"

lemma same_recD:
  assumes "same_rec blk blk' p" "entry_ok h blk p lim"
  shows "de_inode blk' p = de_inode blk p" "de_name_len blk' p = de_name_len blk p" "rlen_at blk' p = rlen_at blk p"
    "nlen_at h blk' p = nlen_at h blk p" "de_name blk' p = de_name blk p"
proof -
  have a: "\<forall>i. p \<le> i \<and> i < p + rlen_at blk p \<longrightarrow> blk' ! i = blk ! i" using assms(1) by (simp add: same_rec_def)
  show "de_inode blk' p = de_inode blk p" "de_name_len blk' p = de_name_len blk p" "rlen_at blk' p = rlen_at blk p"
    "nlen_at h blk' p = nlen_at h blk p"
    using fields_cong [OF a] rlen_ge_8 [OF assms(2)] by simp_all
  show "de_name blk' p = de_name blk p" by (rule name_cong [OF a entry_ok_room [OF assms(2)]])
qed

lemma same_rec_range:
  assumes "chain h blk off lim offs" "p \<in> set offs" "\<And>i. off \<le> i \<Longrightarrow> i < lim \<Longrightarrow> blk' ! i = blk ! i"
  shows "same_rec blk blk' p"
  using chain_member [OF assms(1,2)] assms(3) by (auto simp: same_rec_def entry_ok_def)

text \<open>Wiping an entry as \<open>dx_move_dirents\<close> does keeps its record length.\<close>

definition wipe :: "nat \<Rightarrow> u8 list \<Rightarrow> u8 list" where
  "wipe p blk = put (p + 6) (replicate (rlen_at (put p (le32 0) blk) p - 6) 0) (put p (le32 0) blk)"

lemma wipe:
  assumes "entry_ok h blk p lim"
  shows "length (wipe p blk) = length blk" "de_inode (wipe p blk) p = 0" "rlen_at (wipe p blk) p = rlen_at blk p"
    "nlen_at h (wipe p blk) p \<le> nlen_at h blk p"
    "\<And>i. i < length blk \<Longrightarrow> i < p \<or> p + rlen_at blk p \<le> i \<Longrightarrow> wipe p blk ! i = blk ! i"
proof -
  have b: "p + rlen_at blk p \<le> length blk" "8 \<le> rlen_at blk p" using assms rlen_ge_8 [OF assms] by (auto simp: entry_ok_def)
  have r: "rlen_at (put p (le32 0) blk) p = rlen_at blk p" using b by (simp add: rlen_at_16 de_rec_len_def nth_put)
  have l: "length (put p (le32 0) blk) = length blk" using b by simp
  show len: "length (wipe p blk) = length blk" using b l by (simp add: wipe_def r)
  have n: "wipe p blk ! i = (if p + 6 \<le> i \<and> i < p + rlen_at blk p then 0 else if p \<le> i \<and> i < p + 4 then 0 else blk ! i)"
    if "i < length blk" for i
    using that b l unfolding wipe_def r by (subst replicate_put) (auto simp: nth_put le32_def nth_Cons')
  show "de_inode (wipe p blk) p = 0" "rlen_at (wipe p blk) p = rlen_at blk p"
    using b by (simp_all add: rlen_at_16 de_inode_def de_rec_len_def n)
  have "de_name_len (wipe p blk) p = 0" using b by (simp add: de_name_len_def n)
  then show "nlen_at h (wipe p blk) p \<le> nlen_at h blk p"
    by (simp add: nlen_at_def ext4_dir_rec_len_unat div_le_mono)
  show "\<And>i. i < length blk \<Longrightarrow> i < p \<or> p + rlen_at blk p \<le> i \<Longrightarrow> wipe p blk ! i = blk ! i"
    using b by (auto simp: n)
qed

lemma chain_wipe:
  assumes "chain h blk off lim offs" "p \<in> set offs"
  shows "chain h (wipe p blk) off lim offs" "\<And>q. q \<in> set offs \<Longrightarrow> q \<noteq> p \<Longrightarrow> same_rec blk (wipe p blk) q"
proof -
  have p: "entry_ok h blk p lim" using chain_member [OF assms] by simp
  note w = wipe [OF p]
  show same: "same_rec blk (wipe p blk) q" if q: "q \<in> set offs" "q \<noteq> p" for q
  proof -
    have "q + rlen_at blk q \<le> length blk" using chain_member [OF assms(1) q(1)] by (simp add: entry_ok_def)
    moreover have "q + rlen_at blk q \<le> p \<or> p + rlen_at blk p \<le> q"
      using chain_apart [OF assms(1) q(1) assms(2)] chain_apart [OF assms q(1)] q(2) by linarith
    ultimately show ?thesis using w(5) by (auto simp: same_rec_def)
  qed
  show "chain h (wipe p blk) off lim offs"
  proof (rule chain_fields [OF assms(1) w(1)])
    fix q assume q: "q \<in> set offs"
    then show "rlen_at (wipe p blk) q = rlen_at blk q \<and> nlen_at h (wipe p blk) q \<le> nlen_at h blk q"
      using w(3,4) same_recD [OF same [OF q]] chain_member [OF assms(1) q] by (cases "q = p") auto
  qed
qed

section \<open>The map of a block\<close>

text \<open>The entries that \<open>dx_make_map\<close> and \<open>dx_pack_dirents\<close> take for entries in use have a name.\<close>

definition named :: "u8 list \<Rightarrow> nat list \<Rightarrow> bool" where
  "named blk offs \<longleftrightarrow> (\<forall>p \<in> set offs. de_inode blk p \<noteq> 0 \<longrightarrow> de_name_len blk p \<noteq> 0)"

definition used :: "u8 list \<Rightarrow> nat list \<Rightarrow> nat list" where
  "used blk offs = filter (\<lambda>p. de_inode blk p \<noteq> 0) offs"

abbreviation (input) dent :: "u8 list \<Rightarrow> nat \<Rightarrow> u32 \<times> u8 list" where
  "dent blk p \<equiv> (de_inode blk p, de_name blk p)"

lemma live_used: "live blk offs = map (dent blk) (used blk offs)"
  by (simp add: live_def used_def)

definition map_entry :: "(u8 list \<Rightarrow> u32) \<Rightarrow> u8 list \<Rightarrow> nat \<Rightarrow> dx_map_entry" where
  "map_entry hv blk p = \<lparr>dm_hash = hv (de_name blk p), dm_offs = of_nat (p div 4), dm_size = of_nat (rlen_at blk p)\<rparr>"

lemma make_map_ok:
  assumes "\<And>p. entry_ok h blk p lim \<Longrightarrow> \<not> check blk p" "chain h blk off lim offs" "named blk offs"
    and "\<And>p. p \<in> set (used blk offs) \<Longrightarrow> dirent_hash dirhash h blk p = Inr (hv (de_name blk p))"
  shows "make_map_loop check dirhash h blk lim off acc = Some (Inr (rev (map (map_entry hv blk) (used blk offs)) @ acc))"
  using assms(2-4)
proof (induction offs arbitrary: off acc rule: list.induct)
  case Nil
  then show ?case by (subst make_map_loop.simps) (simp add: used_def)
next
  case (Cons x offs)
  then have e: "x = off" "entry_ok h blk off lim" "chain h blk (off + rlen_at blk off) lim offs" by simp_all
  have lt: "off < lim" using rlen_ge_8 [OF e(2)] e(2) by (simp add: entry_ok_def)
  have IH: "make_map_loop check dirhash h blk lim (off + rlen_at blk off) acc' =
      Some (Inr (rev (map (map_entry hv blk) (used blk offs)) @ acc'))" for acc'
    by (rule Cons.IH [OF e(3)]) (use Cons.prems in \<open>auto simp: named_def used_def\<close>)
  show ?case
  proof (cases "de_inode blk off = 0")
    case True
    then show ?thesis using lt assms(1) [OF e(2)] IH e(1) by (subst make_map_loop.simps) (simp add: used_def)
  next
    case False
    then have "de_name_len blk off \<noteq> 0" "dirent_hash dirhash h blk off = Inr (hv (de_name blk off))"
      using Cons.prems(2,3) e(1) by (auto simp: named_def used_def)
    then show ?thesis using False lt assms(1) [OF e(2)] IH e(1)
      by (subst make_map_loop.simps) (simp add: used_def map_entry_def)
  qed
qed

section \<open>Moving and packing\<close>

definition map_offs :: "dx_map_entry \<Rightarrow> nat" where
  "map_offs m = 4 * unat (dm_offs m)"

lemma dx_move_step:
  "dx_move_dirents h (m # ms) d1 d2 to rl =
     dx_move_dirents h ms (wipe (map_offs m) d1)
       (copy_entry (map_offs m) (nlen_at h d1 (map_offs m)) d1 to d2) (to + nlen_at h d1 (map_offs m)) (nlen_at h d1 (map_offs m))"
  by (simp add: map_offs_def copy_entry_def wipe_def Let_def)

lemma move_ok:
  assumes "chain h d1 0 lim offs" "distinct (map map_offs ms)" "set (map map_offs ms) \<subseteq> set (used d1 offs)"
    and "chain h d2 0 to done" "to + (\<Sum>m\<leftarrow>ms. nlen_at h d1 (map_offs m)) \<le> length d2"
    and "dx_move_dirents h ms d1 d2 to rl = (d1', d2', de2)" "done \<noteq> [] \<Longrightarrow> last done = to - rl"
  shows "length d1' = length d1 \<and> length d2' = length d2 \<and> chain h d1' 0 lim offs \<and>
    (\<forall>q \<in> set offs. if q \<in> set (map map_offs ms) then de_inode d1' q = 0 else same_rec d1 d1' q) \<and>
    (\<forall>i. lim \<le> i \<and> i < length d1 \<longrightarrow> d1' ! i = d1 ! i) \<and>
    (\<exists>done'. chain h d2' 0 (to + (\<Sum>m\<leftarrow>ms. nlen_at h d1 (map_offs m))) done' \<and> length done' = length done + length ms \<and>
       live d2' done' = live d2 done @ map (dent d1 \<circ> map_offs) ms \<and> (done' \<noteq> [] \<longrightarrow> de2 = last done'))"
  using assms
proof (induction ms arbitrary: d1 d2 to rl "done")
  case Nil
  then show ?case by (auto simp: same_rec_def)
next
  case (Cons m ms)
  let ?p = "map_offs m" and ?n = "nlen_at h d1 (map_offs m)"
  let ?d1 = "wipe ?p d1" and ?d2 = "copy_entry ?p ?n d1 to d2"
  have p: "?p \<in> set offs" "de_inode d1 ?p \<noteq> 0" "?p \<notin> set (map map_offs ms)"
    using Cons.prems(2,3) by (auto simp: used_def)
  have ok: "entry_ok h d1 ?p lim" using chain_member [OF Cons.prems(1) p(1)] by simp
  note w = wipe [OF ok] and cw = chain_wipe [OF Cons.prems(1) p(1)]
  have oth: "map_offs m' \<in> set offs \<and> map_offs m' \<noteq> ?p \<and> de_inode d1 (map_offs m') \<noteq> 0" if "m' \<in> set ms" for m'
    using that Cons.prems(3) p(3) by (auto simp: used_def) (metis imageI)
  have same: "same_rec d1 ?d1 (map_offs m')" "entry_ok h d1 (map_offs m') lim" if "m' \<in> set ms" for m'
    using oth [OF that] cw(2) chain_member [OF Cons.prems(1)] by auto
  note sd = same_recD [OF same]
  have sum: "(\<Sum>m'\<leftarrow>ms. nlen_at h ?d1 (map_offs m')) = (\<Sum>m'\<leftarrow>ms. nlen_at h d1 (map_offs m'))"
    by (rule arg_cong [where f = sum_list]) (simp add: sd(4))
  have fit: "?p + ?n \<le> length d1" "to + ?n \<le> length d2" using ok Cons.prems(5) by (auto simp: entry_ok_def)
  note cp = copy_prolongs [OF fit refl Cons.prems(4) p(2)] and ce = copy_entry [OF fit refl]
  have d: "distinct (map map_offs ms)" "set (map map_offs ms) \<subseteq> set (used ?d1 offs)"
    using Cons.prems(2) oth sd(1) by (auto simp: used_def)
  have b: "to + ?n + (\<Sum>m'\<leftarrow>ms. nlen_at h ?d1 (map_offs m')) \<le> length ?d2"
    unfolding sum using Cons.prems(5) ce(1) by simp
  have lst: "done @ [to] \<noteq> [] \<Longrightarrow> last (done @ [to]) = to + ?n - ?n" by simp
  have IH: "length d1' = length ?d1 \<and> length d2' = length ?d2 \<and> chain h d1' 0 lim offs \<and>
    (\<forall>q \<in> set offs. if q \<in> set (map map_offs ms) then de_inode d1' q = 0 else same_rec ?d1 d1' q) \<and>
    (\<forall>i. lim \<le> i \<and> i < length ?d1 \<longrightarrow> d1' ! i = ?d1 ! i) \<and>
    (\<exists>done'. chain h d2' 0 (to + ?n + (\<Sum>m\<leftarrow>ms. nlen_at h ?d1 (map_offs m))) done' \<and>
       length done' = length (done @ [to]) + length ms \<and>
       live d2' done' = live ?d2 (done @ [to]) @ map (dent ?d1 \<circ> map_offs) ms \<and> (done' \<noteq> [] \<longrightarrow> de2 = last done'))"
    by (rule Cons.IH [OF cw(1) d cp(1) b Cons.prems(6) [unfolded dx_move_step] lst])
  have ent: "map (dent ?d1 \<circ> map_offs) ms = map (dent d1 \<circ> map_offs) ms" using sd(1,5) by simp
  have left: "if q \<in> set (map map_offs (m # ms)) then de_inode d1' q = 0 else same_rec d1 d1' q" if q: "q \<in> set offs" for q
  proof -
    have okq: "entry_ok h d1 q lim" using chain_member [OF Cons.prems(1) q] by simp
    have a: "if q \<in> set (map map_offs ms) then de_inode d1' q = 0 else same_rec ?d1 d1' q" using IH q by blast
    have okw: "entry_ok h ?d1 q lim" using chain_member [OF cw(1) q] by simp
    show ?thesis
    proof (cases "q = ?p")
      case True
      then show ?thesis using a p(3) w(2) same_recD(1) [OF _ okw, of d1'] by auto
    next
      case False
      have "same_rec d1 ?d1 q" by (rule cw(2) [OF q False])
      then show ?thesis using a False same_recD(3) [OF \<open>same_rec d1 ?d1 q\<close> okq] by (auto simp: same_rec_def)
    qed
  qed
  have high: "d1' ! i = d1 ! i" if "lim \<le> i" "i < length d1" for i
  proof -
    have "d1' ! i = ?d1 ! i" using IH that w(1) by auto
    also have "\<dots> = d1 ! i" using that ok by (intro w(5)) (auto simp: entry_ok_def)
    finally show ?thesis .
  qed
  obtain done' where dn: "chain h d2' 0 (to + ?n + (\<Sum>m\<leftarrow>ms. nlen_at h d1 (map_offs m))) done'"
    "length done' = length (done @ [to]) + length ms"
    "live d2' done' = live ?d2 (done @ [to]) @ map (dent d1 \<circ> map_offs) ms" "done' \<noteq> [] \<longrightarrow> de2 = last done'"
    using IH unfolding sum ent by blast
  have "live d2' done' = live d2 done @ map (dent d1 \<circ> map_offs) (m # ms)" unfolding dn(3) cp(2) by simp
  then have fin: "\<exists>done'. chain h d2' 0 (to + (\<Sum>m\<leftarrow>m # ms. nlen_at h d1 (map_offs m))) done' \<and>
      length done' = length done + length (m # ms) \<and>
      live d2' done' = live d2 done @ map (dent d1 \<circ> map_offs) (m # ms) \<and> (done' \<noteq> [] \<longrightarrow> de2 = last done')"
    using dn by (intro exI [of _ done']) (simp add: add.assoc)
  have "length d1' = length d1 \<and> length d2' = length d2 \<and> chain h d1' 0 lim offs" using IH w(1) ce(1) by simp
  with fin left high show ?case by blast
qed

lemma put_slice_id: "to + n \<le> length blk \<Longrightarrow> put to (slice to n blk) blk = blk"
  by (intro nth_equalityI) (auto simp: nth_put nth_slice)

text \<open>What follows the chain in a block of \<open>bs\<close> bytes: nothing, or an unused record up to the end.\<close>

definition tailed :: "nat \<Rightarrow> nat \<Rightarrow> u8 list \<Rightarrow> bool" where
  "tailed bs lim blk \<longleftrightarrow> bs \<le> length blk \<and> (lim = bs \<or> lim + 8 \<le> bs \<and> de_inode blk lim = 0 \<and> lim + rlen_at blk lim = bs)"

lemma tailed_cong:
  "tailed bs lim blk \<Longrightarrow> length blk' = length blk \<Longrightarrow> (\<And>i. lim \<le> i \<Longrightarrow> i < length blk \<Longrightarrow> blk' ! i = blk ! i) \<Longrightarrow> tailed bs lim blk'"
  by (auto simp: tailed_def de_inode_def rlen_at_16 de_rec_len_def)

lemma pack_ok:
  assumes "chain h blk 0 to done" "chain h blk off lim rest" "to \<le> off" "named blk rest" "tailed bs lim blk"
  shows "\<exists>de blk' done'. pack_loop h bs off to prev blk = Some (de, blk') \<and> length blk' = length blk \<and>
    chain h blk' 0 (to + (\<Sum>p\<leftarrow>used blk rest. nlen_at h blk p)) (done @ done') \<and>
    to + (\<Sum>p\<leftarrow>used blk rest. nlen_at h blk p) \<le> lim \<and>
    live blk' (done @ done') = live blk done @ live blk rest \<and> de = last (prev # done') \<and>
    length done' = length (used blk rest)"
  using assms
proof (induction rest arbitrary: blk to off prev "done" rule: list.induct)
  case Nil
  have "pack_loop h bs bs to prev blk = Some (prev, blk)" by (subst pack_loop.simps) simp
  then have "pack_loop h bs lim to prev blk = Some (prev, blk)"
    using Nil.prems(5) by (subst pack_loop.simps) (auto simp: tailed_def Let_def)
  then show ?case using Nil by (auto simp: used_def intro!: exI [of _ "[]"])
next
  case (Cons x rest)
  then have e: "x = off" "entry_ok h blk off lim" "chain h blk (off + rlen_at blk off) lim rest" by simp_all
  have lt: "off < bs" using rlen_ge_8 [OF e(2)] e(2) Cons.prems(5) by (auto simp: entry_ok_def tailed_def)
  show ?case
  proof (cases "de_inode blk off = 0")
    case True
    then have "pack_loop h bs off to prev blk = pack_loop h bs (off + rlen_at blk off) to prev blk"
      using lt by (subst pack_loop.simps) (simp add: Let_def)
    then show ?thesis
      using Cons.IH [OF Cons.prems(1) e(3), of prev] Cons.prems(3-5) True e(1) by (auto simp: used_def named_def)
  next
    case False
    let ?n = "nlen_at h blk off"
    let ?b = "copy_entry off ?n blk to blk"
    have nn: "de_name_len blk off \<noteq> 0" using Cons.prems(4) e(1) False by (simp add: named_def)
    have fit: "off + ?n \<le> length blk" "to + ?n \<le> length blk" "?n \<le> rlen_at blk off" "off + rlen_at blk off \<le> lim" "lim \<le> length blk"
      using e(2) Cons.prems(3) by (auto simp: entry_ok_def)
    note ce = copy_entry [OF fit(1,2) refl] and cp = copy_prolongs [OF fit(1,2) refl Cons.prems(1) False]
    have step: "pack_loop h bs off to prev blk = pack_loop h bs (off + rlen_at blk off) (to + ?n) to ?b"
    proof (cases "off = to")
      case True
      then show ?thesis using lt False nn fit by (subst pack_loop.simps) (simp add: Let_def copy_entry_def put_slice_id)
    next
      case False
      then show ?thesis using lt \<open>de_inode blk off \<noteq> 0\<close> nn Cons.prems(3) by (subst pack_loop.simps) (simp add: Let_def copy_entry_def)
    qed
    have later: "?b ! i = blk ! i" if "off + rlen_at blk off \<le> i" "i < length blk" for i
      by (rule ce(7)) (use that fit Cons.prems(3) in auto)
    have r: "chain h ?b (off + rlen_at blk off) lim rest \<and> live ?b rest = live blk rest"
      by (rule chain_cong [OF _ ce(1) e(3)]) (use later fit in auto)
    have sr: "same_rec blk ?b p" "entry_ok h blk p lim" if "p \<in> set rest" for p
      using same_rec_range [OF e(3) that, of ?b] later fit chain_member [OF e(3) that] by auto
    have us: "used ?b rest = used blk rest" "(\<Sum>p\<leftarrow>used blk rest. nlen_at h ?b p) = (\<Sum>p\<leftarrow>used blk rest. nlen_at h blk p)"
      using same_recD(1,4) [OF sr] by (auto simp: used_def intro!: filter_cong arg_cong [where f = sum_list])
    have nm: "named ?b rest" using Cons.prems(4) same_recD(1,2) [OF sr] by (auto simp: named_def)
    have le: "to + ?n \<le> off + rlen_at blk off" using fit(3) Cons.prems(3) by simp
    have tl: "tailed bs lim ?b" by (rule tailed_cong [OF Cons.prems(5) ce(1)]) (use later fit in auto)
    obtain de blk' done' where IH: "pack_loop h bs (off + rlen_at blk off) (to + ?n) to ?b = Some (de, blk')" "length blk' = length ?b"
      "chain h blk' 0 (to + ?n + (\<Sum>p\<leftarrow>used ?b rest. nlen_at h ?b p)) ((done @ [to]) @ done')"
      "to + ?n + (\<Sum>p\<leftarrow>used ?b rest. nlen_at h ?b p) \<le> lim"
      "live blk' ((done @ [to]) @ done') = live ?b (done @ [to]) @ live ?b rest" "de = last (to # done')"
      "length done' = length (used ?b rest)"
      using Cons.IH [OF cp(1) conjunct1 [OF r] le nm tl, of to] by blast
    show ?thesis
      using IH False e(1) ce(1) r cp(2) unfolding step us
      by (intro exI [of _ de] exI [of _ blk'] exI [of _ "to # done'"]) (auto simp: used_def add.assoc)
  qed
qed

text \<open>Stretching the last record of a chain to the end of the block.\<close>

lemma stretch_last:
  assumes "chain h b 0 T offs" "offs \<noteq> []" "T \<le> lim" "lim \<le> length b" "lim mod 4 = 0" "lim < 2 ^ 16"
  defines "b' \<equiv> put (last offs + 4) (le16 (of_nat (lim - last offs))) b"
  shows "chain h b' 0 lim offs" "live b' offs = live b offs" "length b' = length b"
    "\<And>i. lim \<le> i \<Longrightarrow> i < length b \<Longrightarrow> b' ! i = b ! i"
proof -
  obtain xs p where o: "offs = xs @ [p]" using assms(2) by (cases offs rule: rev_cases) auto
  have c: "chain h b 0 p xs" "entry_ok h b p T" "p + rlen_at b p = T" using assms(1) by (auto simp: o chain_split)
  have bd: "p + rlen_at b p \<le> lim" "8 \<le> rlen_at b p" "nlen_at h b p \<le> rlen_at b p"
    using c assms(3) rlen_ge_8 [OF c(2)] by (auto simp: entry_ok_def)
  have nm: "p + 8 + unat (de_name_len b p) \<le> lim" using entry_ok_room [OF c(2)] bd(1) by simp
  have b': "b' = put (p + 4) (le16 (of_nat (lim - p))) b" by (simp add: b'_def o)
  show len: "length b' = length b" using bd assms(4) by (simp add: b')
  have n: "b' ! i = b ! i" if "i < length b" "i < p + 4 \<or> p + 6 \<le> i" for i
    using that bd assms(4) by (auto simp: b' nth_put)
  have rl: "rlen_at b' p = lim - p" unfolding b' using bd assms(4,6) by (intro rec_len_put) auto
  have f: "de_inode b' p = de_inode b p" "de_name_len b' p = de_name_len b p"
    using n bd assms(4) by (simp_all add: de_inode_def de_name_len_def)
  have nme: "de_name b' p = de_name b p" using n nm assms(4) by (auto simp: de_name_def f intro!: nth_equalityI)
  have x: "chain h b' 0 p xs \<and> live b' xs = live b xs"
    by (rule chain_cong [OF _ len c(1)]) (use n bd assms(4) in auto)
  have "p mod 4 = 0" using chain_aligned [OF assms(1), of p] by (simp add: o)
  then have "(lim - p) mod 4 = 0" using assms(5) bd by (simp add: mod_eq_0_iff_dvd)
  then have "entry_ok h b' p lim" using bd assms(4) len by (simp add: entry_ok_def rl nlen_at_def f)
  then show "chain h b' 0 lim offs" using x rl bd by (simp add: o chain_split)
  show "live b' offs = live b offs" using x f nme by (simp add: o)
  show "\<And>i. lim \<le> i \<Longrightarrow> i < length b \<Longrightarrow> b' ! i = b ! i" using n bd by auto
qed

section \<open>Where the map is split\<close>

lemma split_scan_sum: "split_scan bs m n sz mv = (n', mv') \<Longrightarrow> n' + mv' = n + mv \<and> n' \<le> n"
  by (induction n arbitrary: sz mv) (fastforce split: if_splits intro: le_SucI)+

lemma split_index_bounds:
  assumes "2 \<le> length m" "unat (dm_size (last m)) \<le> bs"
  shows "0 < split_index bs m" "split_index bs m < length m"
proof -
  obtain n mv where s: "split_scan bs m (length m) 0 0 = (n, mv)" by fastforce
  obtain k where k: "length m = Suc k" using assms(1) by (cases "length m") auto
  have "m \<noteq> []" using assms(1) by auto
  then have "unat (dm_size (m ! k)) div 2 \<le> bs div 2" using assms(2) by (simp add: k last_conv_nth div_le_mono)
  then have "split_scan bs m k (unat (dm_size (m ! k))) 1 = (n, mv)" using s by (simp add: k)
  from split_scan_sum [OF this] have n: "n + mv = length m" "n \<le> k" by (simp_all add: k)
  have i: "split_index bs m = (if 1 < n then length m - mv else length m div 2)" unfolding split_index_def s by simp
  show "0 < split_index bs m" "split_index bs m < length m" unfolding i using n assms(1) k by auto
qed

lemma chain_sum: "chain h blk off lim offs \<Longrightarrow> off + (\<Sum>p\<leftarrow>offs. rlen_at blk p) = lim"
  by (induction offs arbitrary: off) (auto simp: add.assoc [symmetric])

lemma used_sum:
  assumes "chain h blk off lim offs"
  shows "off + (\<Sum>p\<leftarrow>used blk offs. nlen_at h blk p) \<le> lim"
proof -
  have "(\<Sum>p\<leftarrow>used blk offs. nlen_at h blk p) \<le> (\<Sum>p\<leftarrow>offs. rlen_at blk p)"
    using assms
  proof (induction offs arbitrary: off rule: list.induct)
    case (Cons x offs)
    then have "nlen_at h blk x \<le> rlen_at blk x" "(\<Sum>p\<leftarrow>used blk offs. nlen_at h blk p) \<le> (\<Sum>p\<leftarrow>offs. rlen_at blk p)"
      by (auto simp: entry_ok_def)
    then show ?case by (auto simp: used_def)
  qed (simp add: used_def)
  then show ?thesis using chain_sum [OF assms] by simp
qed

text \<open>The space that entries take with the shortest records.\<close>

definition need :: "bool \<Rightarrow> u8 list \<Rightarrow> nat" where
  "need h name = unat (ext4_dir_rec_len (of_nat (length name)) h)"

definition live_size :: "bool \<Rightarrow> (u32 \<times> u8 list) list \<Rightarrow> nat" where
  "live_size h es = (\<Sum>e\<leftarrow>es. need h (snd e))"

lemma nlen_need: "nlen_at h blk p = need h (de_name blk p)"
  by (simp add: nlen_at_def need_def de_name_def)

lemma used_size: "(\<Sum>p\<leftarrow>used blk offs. nlen_at h blk p) = live_size h (live blk offs)"
  by (simp add: live_size_def live_used comp_def nlen_need)

lemma live_size_mset:
  assumes "mset l = mset l'"
  shows "live_size h l = live_size h l'"
proof -
  have "sum_mset (image_mset (\<lambda>e. need h (snd e)) (mset l)) = sum_mset (image_mset (\<lambda>e. need h (snd e)) (mset l'))"
    by (simp only: assms)
  then show ?thesis by (simp add: live_size_def sum_mset_sum_list flip: mset_map)
qed

text \<open>When the records of a chain take no more space than their entries need, this holds for the last one as well.\<close>

lemma packed_last:
  assumes "chain h b off T offs" "off + live_size h (live b offs) = T" "length (live b offs) = length offs" "offs \<noteq> []"
  shows "last offs + nlen_at h b (last offs) = T"
proof -
  have "length (used b offs) = length offs" using assms(3) by (simp add: live_used)
  then have all: "used b offs = offs" by (metis filter_id_conv length_filter_less nat_neq_iff used_def)
  have le: "nlen_at h b p \<le> rlen_at b p" if "p \<in> set offs" for p using chain_member [OF assms(1) that] by (simp add: entry_ok_def)
  have eq: "(\<Sum>p\<leftarrow>offs. nlen_at h b p) = (\<Sum>p\<leftarrow>offs. rlen_at b p)"
    using chain_sum [OF assms(1)] assms(2) used_size [of h b offs] unfolding all by simp
  obtain xs p where o: "offs = xs @ [p]" using assms(4) by (cases offs rule: rev_cases) auto
  have "(\<Sum>q\<leftarrow>xs. nlen_at h b q) \<le> (\<Sum>q\<leftarrow>xs. rlen_at b q)" using le by (intro sum_list_mono) (simp add: o)
  then have "nlen_at h b p = rlen_at b p" using eq le [of p] by (simp add: o)
  moreover have "p + rlen_at b p = T" using assms(1) by (simp add: o chain_split)
  ultimately show ?thesis by (simp add: o)
qed

text \<open>A leaf block of a hashed directory, with or without the record of its checksum.\<close>

definition leaf_block :: "bool \<Rightarrow> nat \<Rightarrow> u8 list \<Rightarrow> nat list \<Rightarrow> bool" where
  "leaf_block h csum_size blk offs \<longleftrightarrow> (csum_size = 0 \<or> csum_size = 12 \<and> 12 \<le> length blk) \<and> length blk mod 4 = 0 \<and> length blk < 2 ^ 16 \<and>
     chain h blk 0 (length blk - csum_size) offs \<and> named blk offs \<and> tailed (length blk) (length blk - csum_size) blk"

lemma map_entry_fields:
  assumes "chain h blk 0 lim offs" "length blk < 2 ^ 16" "p \<in> set (used blk offs)"
  shows "map_offs (map_entry hv blk p) = p" "unat (dm_size (map_entry hv blk p)) = rlen_at blk p" "entry_ok h blk p lim"
proof -
  have p: "p \<in> set offs" using assms(3) by (simp add: used_def)
  show ok: "entry_ok h blk p lim" using chain_member [OF assms(1) p] by simp
  have "p < 2 ^ 16" "rlen_at blk p < 2 ^ 16" using ok rlen_ge_8 [OF ok] assms(2) by (auto simp: entry_ok_def)
  moreover have "4 * (p div 4) = p" using chain_aligned [OF assms(1) _ p] by presburger
  ultimately show "map_offs (map_entry hv blk p) = p" "unat (dm_size (map_entry hv blk p)) = rlen_at blk p"
    by (simp_all add: map_offs_def map_entry_def unat_of_nat take_bit_nat_eq_self)
qed

text \<open>The sorted map of a block: its offsets are those of the entries in use, its hashes the hashes of their names.\<close>

lemma sorted_map:
  fixes hv blk offs
  assumes "chain h blk 0 lim offs" "length blk < 2 ^ 16"
  defines "m \<equiv> dx_sort_map (rev (map (map_entry hv blk) (used blk offs)))"
  shows "mset (map map_offs m) = mset (used blk offs)" "sorted (map dm_hash m)"
    "map dm_hash m = map (hv \<circ> de_name blk \<circ> map_offs) m" "\<forall>e \<in> set m. unat (dm_size e) \<le> lim"
proof -
  have mm: "mset m = mset (map (map_entry hv blk) (used blk offs))" and so: "sorted (map dm_hash m)"
    using dx_sort_map_sorts [of "rev (map (map_entry hv blk) (used blk offs))"] by (simp_all add: m_def)
  show "sorted (map dm_hash m)" by (rule so)
  have me: "map_offs (map_entry hv blk p) = p" "unat (dm_size (map_entry hv blk p)) \<le> lim" if p: "p \<in> set (used blk offs)" for p
    using map_entry_fields [OF assms(1,2) p] by (simp_all add: entry_ok_def)
  have "mset (map map_offs m) = image_mset map_offs (mset (map (map_entry hv blk) (used blk offs)))" using mm by simp
  also have "\<dots> = mset (map (map_offs \<circ> map_entry hv blk) (used blk offs))" by (simp add: image_mset.compositionality)
  also have "map (map_offs \<circ> map_entry hv blk) (used blk offs) = used blk offs" using me(1) by (intro map_idI) simp
  finally show "mset (map map_offs m) = mset (used blk offs)" .
  have "set m = map_entry hv blk ` set (used blk offs)" using mm by (metis mset_eq_setD set_map)
  then have e: "\<exists>p \<in> set (used blk offs). x = map_entry hv blk p" if "x \<in> set m" for x using that by auto
  show "map dm_hash m = map (hv \<circ> de_name blk \<circ> map_offs) m"
  proof (rule map_cong)
    fix x assume "x \<in> set m"
    from e [OF this] obtain p where "p \<in> set (used blk offs)" "x = map_entry hv blk p" ..
    then show "dm_hash x = (hv \<circ> de_name blk \<circ> map_offs) x" using me(1) by simp (simp add: map_entry_def)
  qed simp
  show "\<forall>e \<in> set m. unat (dm_size e) \<le> lim" using e me(2) by blast
qed

lemma init_tail:
  assumes "12 \<le> length blk"
  shows "length (ext4_initialize_dirent_tail (length blk) blk) = length blk"
    "\<And>i. i < length blk - 12 \<Longrightarrow> ext4_initialize_dirent_tail (length blk) blk ! i = blk ! i"
  using assms by (auto simp: ext4_initialize_dirent_tail_def Let_def EXT4_DIRENT_TAIL_def nth_put nth_list_update)

text \<open>The last steps for a block: stretch its last record and write the record of the checksum.\<close>

lemma close_block:
  assumes "chain h b 0 T offs" "offs \<noteq> []" "T \<le> bs - csum_size" "bs mod 4 = 0" "bs < 2 ^ 16"
    and "csum_size = 0 \<or> csum_size = 12 \<and> 12 \<le> bs" "length b = bs"
  defines "b2 \<equiv> close_block bs csum_size (last offs) b"
  shows "chain h b2 0 (bs - csum_size) offs" "live b2 offs = live b offs" "length b2 = bs"
    "nlen_at h b2 (last offs) = nlen_at h b (last offs)"
proof -
  define b1 where "b1 = put (last offs + 4) (le16 (of_nat (bs - csum_size - last offs))) b"
  have b2: "b2 = (if csum_size \<noteq> 0 then ext4_initialize_dirent_tail bs b1 else b1)"
    by (simp add: b2_def close_block_def b1_def Let_def)
  have m: "(bs - csum_size) mod 4 = 0" using assms(4,6) by (auto simp: mod_eq_0_iff_dvd)
  have "bs - csum_size \<le> length b" "bs - csum_size < 2 ^ 16" using assms(5,7) by simp_all
  note s = stretch_last [OF assms(1-3) this(1) m this(2), folded b1_def]
  have l: "length b1 = bs" using s(3) assms(7) by simp
  show len: "length b2 = bs" using l init_tail(1) [of b1] assms(6) by (auto simp: b2)
  have eq: "b2 ! i = b1 ! i" if "i < bs - csum_size" for i
    using that l init_tail(2) [of b1] assms(6) by (auto simp: b2)
  have "chain h b2 0 (bs - csum_size) offs \<and> live b2 offs = live b1 offs"
    using s(1) len l eq by (intro chain_cong) auto
  then show "chain h b2 0 (bs - csum_size) offs" "live b2 offs = live b offs" using s(2) by auto
  have ok: "entry_ok h b (last offs) T" using chain_member [OF assms(1)] assms(2) by simp
  then have "last offs + 8 \<le> bs - csum_size" using rlen_ge_8 [OF ok] assms(3) by (simp add: entry_ok_def)
  then have "b2 ! (last offs + 6) = b1 ! (last offs + 6)" "b1 ! (last offs + 6) = b ! (last offs + 6)"
    using eq assms(7) by (simp_all add: b1_def nth_put)
  then show "nlen_at h b2 (last offs) = nlen_at h b (last offs)" by (simp add: nlen_at_def de_name_len_def)
qed

text \<open>
  What a split of a block with the entries at \<open>offs\<close> promises, with \<open>hv\<close> the hash of a name: two well-formed blocks that share the
  entries of the old one between them, separated by the hash, packed at the start of the blocks, and the offsets of their last
  records, which have the free space.
\<close>

definition split_ok :: "(u8 list \<Rightarrow> u32) \<Rightarrow> bool \<Rightarrow> nat \<Rightarrow> u8 list \<Rightarrow> nat list \<Rightarrow> split_result \<Rightarrow> nat list \<Rightarrow> nat list \<Rightarrow> bool" where
  "split_ok hv h lim blk offs r offs1 offs2 \<longleftrightarrow>
     length (sp_data1 r) = length blk \<and> length (sp_data2 r) = length blk \<and>
     chain h (sp_data1 r) 0 lim offs1 \<and> chain h (sp_data2 r) 0 lim offs2 \<and>
     live (sp_data1 r) offs1 \<noteq> [] \<and> live (sp_data2 r) offs2 \<noteq> [] \<and>
     sp_de r = last offs1 \<and> sp_de r + nlen_at h (sp_data1 r) (sp_de r) = live_size h (live (sp_data1 r) offs1) \<and>
     sp_de2 r = last offs2 \<and> sp_de2 r + nlen_at h (sp_data2 r) (sp_de2 r) = live_size h (live (sp_data2 r) offs2) \<and>
     mset (live blk offs) = mset (live (sp_data1 r) offs1) + mset (live (sp_data2 r) offs2) \<and>
     (\<forall>e \<in> set (live (sp_data1 r) offs1). hv (snd e) < sp_hash2 r \<or> hv (snd e) = sp_hash2 r \<and> sp_continued r) \<and>
     (\<forall>e \<in> set (live (sp_data2 r) offs2). sp_hash2 r \<le> hv (snd e)) \<and>
     (\<exists>e \<in> set (live (sp_data2 r) offs2). hv (snd e) = sp_hash2 r)"

lemma mset_filter_other:
  assumes "mset xs = mset as + mset bs" "distinct xs"
  shows "mset (filter (\<lambda>x. x \<notin> set bs) xs) = mset as"
proof -
  have m: "mset xs = mset (as @ bs)" using assms(1) by simp
  then have "distinct (as @ bs)" using assms(2) by (metis mset_eq_imp_distinct_iff)
  then have "filter (\<lambda>x. x \<notin> set bs) (as @ bs) = as" by (auto simp: filter_id_conv)
  then show ?thesis using m by (metis mset_filter)
qed

text \<open>The blocks after the entries of the second part of the map have been moved.\<close>

lemma move_parts:
  assumes "chain h d1 0 lim offs" "mset (map map_offs m) = mset (used d1 offs)" "length d2 = length d1" "k < length m" "lim \<le> length d1"
    and "dx_move_dirents h (drop k m) d1 d2 0 0 = (d1', d2', de2)"
  shows "length d1' = length d1" "length d2' = length d1" "chain h d1' 0 lim offs"
    "\<And>i. lim \<le> i \<Longrightarrow> i < length d1 \<Longrightarrow> d1' ! i = d1 ! i" "named d1 offs \<Longrightarrow> named d1' offs"
    "mset (live d1' offs) = mset (map (dent d1 \<circ> map_offs) (take k m))"
    "\<exists>offs2. chain h d2' 0 (live_size h (live d2' offs2)) offs2 \<and> offs2 \<noteq> [] \<and> live_size h (live d2' offs2) \<le> lim \<and>
      live d2' offs2 = map (dent d1 \<circ> map_offs) (drop k m) \<and> de2 = last offs2 \<and> length (live d2' offs2) = length offs2"
proof -
  let ?B = "drop k m" and ?A = "take k m"
  have dis: "distinct (used d1 offs)"
    using chain_strict [OF assms(1)] by (auto simp: used_def strict_sorted_iff intro: distinct_filter)
  then have dm: "distinct (map map_offs m)" using assms(2) by (metis mset_eq_imp_distinct_iff)
  have AB: "mset (used d1 offs) = mset (map map_offs ?A) + mset (map map_offs ?B)"
    by (metis assms(2) append_take_drop_id map_append mset_append)
  have sub: "set (map map_offs ?B) \<subseteq> set (used d1 offs)" using AB by (metis mset_append set_append set_mset_mset Un_upper2)
  have dB: "distinct (map map_offs ?B)" using dm by (metis distinct_drop drop_map)
  have sumeq: "(\<Sum>e\<leftarrow>m. nlen_at h d1 (map_offs e)) = (\<Sum>p\<leftarrow>used d1 offs. nlen_at h d1 p)"
  proof -
    have "sum_mset (image_mset (nlen_at h d1) (mset (map map_offs m))) = sum_mset (image_mset (nlen_at h d1) (mset (used d1 offs)))"
      by (simp only: assms(2))
    then show ?thesis by (simp add: sum_mset_sum_list image_mset.compositionality comp_def flip: mset_map)
  qed
  have "(\<Sum>e\<leftarrow>?A. nlen_at h d1 (map_offs e)) + (\<Sum>e\<leftarrow>?B. nlen_at h d1 (map_offs e)) = (\<Sum>e\<leftarrow>m. nlen_at h d1 (map_offs e))"
    by (metis append_take_drop_id map_append sum_list_append)
  then have T: "(\<Sum>e\<leftarrow>?B. nlen_at h d1 (map_offs e)) \<le> lim"
    using used_sum [OF assms(1)] sumeq by simp
  have "0 + (\<Sum>e\<leftarrow>?B. nlen_at h d1 (map_offs e)) \<le> length d2" using T assms(3,5) by simp
  note mv = move_ok [OF assms(1) dB sub _ this assms(6), of "[]"]
  from mv show "length d1' = length d1" "length d2' = length d1" "chain h d1' 0 lim offs"
    "\<And>i. lim \<le> i \<Longrightarrow> i < length d1 \<Longrightarrow> d1' ! i = d1 ! i" using assms(3) by simp_all
  have st: "if q \<in> set (map map_offs ?B) then de_inode d1' q = 0 else same_rec d1 d1' q" if "q \<in> set offs" for q
    using mv that by simp
  have keep: "de_inode d1' q = de_inode d1 q" "de_name_len d1' q = de_name_len d1 q" "de_name d1' q = de_name d1 q"
    if "q \<in> set offs" "q \<notin> set (map map_offs ?B)" for q
  proof -
    have "same_rec d1 d1' q" "entry_ok h d1 q lim" using st [OF that(1)] that(2) chain_member [OF assms(1) that(1)] by simp_all
    from same_recD [OF this] show "de_inode d1' q = de_inode d1 q" "de_name_len d1' q = de_name_len d1 q" "de_name d1' q = de_name d1 q" by simp_all
  qed
  show "named d1' offs" if "named d1 offs"
    unfolding named_def
  proof (intro ballI impI)
    fix q assume q: "q \<in> set offs" "de_inode d1' q \<noteq> 0"
    then have "q \<notin> set (map map_offs ?B)" using st [OF q(1)] by (auto simp del: set_map)
    then show "de_name_len d1' q \<noteq> 0" using keep [OF q(1)] q that by (simp add: named_def)
  qed
  have u: "used d1' offs = filter (\<lambda>p. p \<notin> set (map map_offs ?B)) (used d1 offs)"
  proof -
    have "(de_inode d1' q \<noteq> 0) = (q \<notin> set (map map_offs ?B) \<and> de_inode d1 q \<noteq> 0)" if "q \<in> set offs" for q
      using st [OF that] keep(1) [OF that] by (cases "q \<in> set (map map_offs ?B)") simp_all
    then show ?thesis unfolding used_def filter_filter by (intro filter_cong) auto
  qed
  have "live d1' offs = map (dent d1) (used d1' offs)"
    unfolding live_used
  proof (rule map_cong)
    fix p assume "p \<in> set (used d1' offs)"
    then have "p \<in> set offs" "p \<notin> set (map map_offs ?B)" unfolding u by (auto simp: used_def simp del: set_map)
    from keep [OF this] show "dent d1' p = dent d1 p" by simp
  qed simp
  then have "mset (live d1' offs) = image_mset (dent d1) (mset (used d1' offs))" by simp
  also have "mset (used d1' offs) = mset (map map_offs ?A)" unfolding u by (rule mset_filter_other [OF AB dis])
  finally show "mset (live d1' offs) = mset (map (dent d1 \<circ> map_offs) ?A)" by (simp add: image_mset.compositionality comp_def)
  obtain offs2 where o: "chain h d2' 0 (\<Sum>e\<leftarrow>?B. nlen_at h d1 (map_offs e)) offs2" "length offs2 = length ?B"
    "live d2' offs2 = map (dent d1 \<circ> map_offs) ?B" "offs2 \<noteq> [] \<longrightarrow> de2 = last offs2"
    using mv by auto
  have "offs2 \<noteq> []" using o(2) assms(4) by auto
  moreover have "live_size h (live d2' offs2) = (\<Sum>e\<leftarrow>?B. nlen_at h d1 (map_offs e))"
    unfolding o(3) by (simp add: live_size_def nlen_need comp_def)
  moreover have "length (live d2' offs2) = length offs2" using o(2,3) by simp
  ultimately show "\<exists>offs2. chain h d2' 0 (live_size h (live d2' offs2)) offs2 \<and> offs2 \<noteq> [] \<and> live_size h (live d2' offs2) \<le> lim \<and>
      live d2' offs2 = map (dent d1 \<circ> map_offs) ?B \<and> de2 = last offs2 \<and> length (live d2' offs2) = length offs2"
    using o T by (intro exI [of _ offs2]) simp
qed


lemma sorted_parts:
  assumes "sorted (map f m)" "k < length m" "0 < k"
  shows "x \<in> set (take k m) \<Longrightarrow> f x < f (m ! k) \<or> f x = f (m ! k) \<and> f (m ! k) = f (m ! (k - 1))"
    "x \<in> set (drop k m) \<Longrightarrow> f (m ! k) \<le> (f x :: u32)"
proof -
  have le: "f (m ! i) \<le> f (m ! j)" if "i \<le> j" "j < length m" for i j
    using assms(1) that sorted_nth_mono [of "map f m" i j] by simp
  show "f x < f (m ! k) \<or> f x = f (m ! k) \<and> f (m ! k) = f (m ! (k - 1))" if x: "x \<in> set (take k m)"
  proof -
    obtain i where i: "i < k" "x = m ! i" using x assms(2) by (auto simp: in_set_conv_nth)
    have "f x \<le> f (m ! (k - 1))" "f (m ! (k - 1)) \<le> f (m ! k)" using i assms(2,3) by (auto intro!: le)
    then show ?thesis by (cases "f x = f (m ! k)") auto
  qed
  show "f (m ! k) \<le> f x" if x: "x \<in> set (drop k m)"
  proof -
    obtain i where "i < length m - k" "x = m ! (k + i)" using x assms(2) by (auto simp: in_set_conv_nth)
    then show ?thesis by (auto intro!: le)
  qed
qed

text \<open>The hashes of the entries of the two parts of the sorted map.\<close>

lemma split_hashes:
  fixes hv d1 offs
  defines "m \<equiv> dx_sort_map (rev (map (map_entry hv d1) (used d1 offs)))"
  assumes "chain h d1 0 lim offs" "length d1 < 2 ^ 16" "0 < k" "k < length m"
    and "mset l1 = mset (map (dent d1 \<circ> map_offs) (take k m))" "mset l2 = mset (map (dent d1 \<circ> map_offs) (drop k m))"
  shows "mset (live d1 offs) = mset l1 + mset l2"
    "e \<in> set l1 \<Longrightarrow> hv (snd e) < dm_hash (m ! k) \<or> hv (snd e) = dm_hash (m ! k) \<and> dm_hash (m ! k) = dm_hash (m ! (k - 1))"
    "e \<in> set l2 \<Longrightarrow> dm_hash (m ! k) \<le> hv (snd e)" "\<exists>e \<in> set l2. hv (snd e) = dm_hash (m ! k)"
proof -
  note sm = sorted_map [OF assms(2,3), where hv = hv, folded m_def]
  note sp = sorted_parts [OF sm(2) assms(5,4)]
  have hv: "hv (de_name d1 (map_offs x)) = dm_hash x" if "x \<in> set m" for x
    using sm(3) that by (simp add: map_eq_conv)
  have "mset (live d1 offs) = image_mset (dent d1) (mset (map map_offs m))" by (simp only: live_used mset_map [where f = "dent d1"] sm(1))
  also have "\<dots> = mset (map (dent d1 \<circ> map_offs) m)" by (simp add: image_mset.compositionality comp_def)
  also have "\<dots> = mset l1 + mset l2" unfolding assms(6,7) by (metis append_take_drop_id map_append mset_append)
  finally show "mset (live d1 offs) = mset l1 + mset l2" .
  have "m ! k \<in> set (drop k m)" using assms(5) by (metis Cons_nth_drop_Suc list.set_intros(1))
  then have "dent d1 (map_offs (m ! k)) \<in> set l2" using mset_eq_setD [OF assms(7)] by auto
  then show "\<exists>e \<in> set l2. hv (snd e) = dm_hash (m ! k)" using hv [OF nth_mem [OF assms(5)]] by force
  show "hv (snd e) < dm_hash (m ! k) \<or> hv (snd e) = dm_hash (m ! k) \<and> dm_hash (m ! k) = dm_hash (m ! (k - 1))" if e: "e \<in> set l1"
  proof -
    have "e \<in> set (map (dent d1 \<circ> map_offs) (take k m))" using e mset_eq_setD [OF assms(6)] by simp
    then obtain x where x: "x \<in> set (take k m)" "e = dent d1 (map_offs x)" by auto
    show ?thesis unfolding x(2) snd_conv hv [OF in_set_takeD [OF x(1)]] by (rule sp(1) [OF x(1)])
  qed
  show "dm_hash (m ! k) \<le> hv (snd e)" if e: "e \<in> set l2"
  proof -
    have "e \<in> set (map (dent d1 \<circ> map_offs) (drop k m))" using e mset_eq_setD [OF assms(7)] by simp
    then obtain x where x: "x \<in> set (drop k m)" "e = dent d1 (map_offs x)" by auto
    show ?thesis unfolding x(2) snd_conv hv [OF in_set_dropD [OF x(1)]] by (rule sp(2) [OF x(1)])
  qed
qed

lemma split_blocks_run:
  assumes "leaf_block h cs d1 offs" "length d2 = length d1" "2 \<le> length (used d1 offs)"
    and "\<And>p. entry_ok h d1 p (length d1 - cs) \<Longrightarrow> \<not> check d1 p"
    and "\<And>p. p \<in> set (used d1 offs) \<Longrightarrow> dirent_hash dirhash h d1 p = Inr (hv (de_name d1 p))"
  shows "\<exists>r offs1 offs2. split_blocks check dirhash h (length d1) cs d1 d2 = Some (Inr r) \<and>
    split_ok hv h (length d1 - cs) d1 offs r offs1 offs2 \<and>
    dx_make_map check dirhash h cs d1 = Some (Inr (rev (map (map_entry hv d1) (used d1 offs)))) \<and>
    (let m = dx_sort_map (rev (map (map_entry hv d1) (used d1 offs))); k = split_index (length d1) m
     in mset (live (sp_data1 r) offs1) = mset (map (dent d1 \<circ> map_offs) (take k m)) \<and>
        live (sp_data2 r) offs2 = map (dent d1 \<circ> map_offs) (drop k m))"
proof -
  let ?lim = "length d1 - cs" and ?m = "dx_sort_map (rev (map (map_entry hv d1) (used d1 offs)))"
  let ?k = "split_index (length d1) ?m"
  have lf: "chain h d1 0 ?lim offs" "named d1 offs" "tailed (length d1) ?lim d1" "length d1 mod 4 = 0" "length d1 < 2 ^ 16"
    "cs = 0 \<or> cs = 12 \<and> 12 \<le> length d1"
    using assms(1) by (auto simp: leaf_block_def)
  have mk: "dx_make_map check dirhash h cs d1 = Some (Inr (rev (map (map_entry hv d1) (used d1 offs))))"
    using make_map_ok [where check = check and dirhash = dirhash and hv = hv and acc = "[]", OF assms(4) lf(1,2) assms(5)]
    by (simp add: dx_make_map_def)
  note sm = sorted_map [OF lf(1,5), where hv = hv]
  have len: "2 \<le> length ?m" using sm(1) assms(3) by (metis length_map size_mset)
  then have "unat (dm_size (last ?m)) \<le> length d1" using sm(4) by (metis diff_le_self last_in_set le_trans list.size(3) not_numeral_le_zero)
  note k = split_index_bounds [OF len this]
  obtain d1' d2' de2 where mv: "dx_move_dirents h (drop ?k ?m) d1 d2 0 0 = (d1', d2', de2)" by (metis prod_cases3)
  note mp = move_parts [OF lf(1) sm(1) assms(2) k(2) _ mv]
  have l1: "length d1' = length d1" "length d2' = length d1" using mp(1,2) by simp_all
  have c1: "chain h d1' 0 ?lim offs" "named d1' offs" using mp(3,5) lf(2) by simp_all
  have t1: "tailed (length d1) ?lim d1'" by (rule tailed_cong [OF lf(3) l1(1)]) (use mp(4) in simp)
  obtain de b1 offs1 where p: "dx_pack_dirents h (length d1) d1' = Some (de, b1)" "length b1 = length d1'"
    "chain h b1 0 (live_size h (live b1 offs1)) offs1" "live_size h (live b1 offs1) \<le> ?lim"
    "live b1 offs1 = live d1' offs" "de = last (0 # offs1)" "length (live b1 offs1) = length offs1"
    using pack_ok [of h d1' 0 "[]" 0 ?lim offs "length d1" 0] c1 t1
    by (auto simp: dx_pack_dirents_def used_size live_used [of d1'])
  obtain offs2 where o2: "chain h d2' 0 (live_size h (live d2' offs2)) offs2" "offs2 \<noteq> []" "live_size h (live d2' offs2) \<le> ?lim"
    "live d2' offs2 = map (dent d1 \<circ> map_offs) (drop ?k ?m)" "de2 = last offs2" "length (live d2' offs2) = length offs2"
    using mp(7) by auto
  have lv: "mset (live b1 offs1) = mset (map (dent d1 \<circ> map_offs) (take ?k ?m))" using p(5) mp(6) by simp
  then have ln: "live b1 offs1 \<noteq> []" "live d2' offs2 \<noteq> []" using k o2(4) by auto
  then have o1: "offs1 \<noteq> []" by auto
  then have de: "de = last offs1" using p(6) by simp
  note f1 = close_block [OF p(3) o1 p(4) lf(4-6) trans [OF p(2) l1(1)], folded de]
    and f2 = close_block [OF o2(1-3) lf(4-6) l1(2), folded o2(5)]
  have pk: "de + nlen_at h b1 de = live_size h (live b1 offs1)" "de2 + nlen_at h d2' de2 = live_size h (live d2' offs2)"
    using packed_last [OF p(3) _ p(7) o1] packed_last [OF o2(1) _ o2(6,2)] by (simp_all add: de o2(5))
  note sh = split_hashes [OF lf(1,5) k lv arg_cong [where f = mset, OF o2(4)]]
  define r where "r = \<lparr>sp_data1 = close_block (length d1) cs de b1, sp_data2 = close_block (length d1) cs de2 d2', sp_de = de, sp_de2 = de2,
    sp_hash2 = dm_hash (?m ! ?k), sp_continued = (dm_hash (?m ! ?k) = dm_hash (?m ! (?k - 1)))\<rparr>"
  have run: "split_blocks check dirhash h (length d1) cs d1 d2 = Some (Inr r)"
    using k by (simp add: split_blocks_def mk mv p(1) Let_def r_def)
  have "split_ok hv h ?lim d1 offs r offs1 offs2"
    unfolding split_ok_def r_def split_result.simps f1(2,4) f2(2,4)
    by (intro conjI ballI f1(1,3) f2(1,3) ln de o2(5) pk sh)
  moreover have "live (sp_data1 r) offs1 = live b1 offs1" "live (sp_data2 r) offs2 = live d2' offs2"
    using f1(2) f2(2) by (simp_all add: r_def)
  ultimately show ?thesis using run lv o2(4) mk unfolding Let_def by metis
qed

text \<open>
  Result split_blocks_ok: a leaf block of a hashed directory with at least two entries is split into two well-formed blocks that
  hold the entries of the old block between them, none of them lost or doubled and both blocks with at least one; the
  entries of the first block have hashes below the hash that separates them, or equal to it when the split is marked as
  continued, and those of the second block have hashes that are not below it.
\<close>

theorem split_blocks_ok:
  assumes "leaf_block h cs d1 offs" "length d2 = length d1" "2 \<le> length (used d1 offs)"
    and "\<And>p. entry_ok h d1 p (length d1 - cs) \<Longrightarrow> \<not> check d1 p"
    and "\<And>p. p \<in> set (used d1 offs) \<Longrightarrow> dirent_hash dirhash h d1 p = Inr (hv (de_name d1 p))"
  shows "\<exists>r offs1 offs2. split_blocks check dirhash h (length d1) cs d1 d2 = Some (Inr r) \<and>
    split_ok hv h (length d1 - cs) d1 offs r offs1 offs2"
  using split_blocks_run [where check = check and dirhash = dirhash and hv = hv, OF assms] by blast

section \<open>Room after a split\<close>

text \<open>
  The loop of \<open>do_split\<close> weighs an entry by the length of its record, \<open>dm_size\<close>; the space that the entry takes afterwards is
  \<open>w e\<close>, which is at most that. When the loop does not stop at the first entry of the map, both parts take
  at most half of the block and half of an entry.
\<close>

definition weight :: "(dx_map_entry \<Rightarrow> nat) \<Rightarrow> dx_map_entry list \<Rightarrow> nat" where
  "weight w es = (\<Sum>e\<leftarrow>es. w e)"

lemma weight_simps [simp]: "weight w [] = 0" "weight w (e # es) = w e + weight w es" "weight w (es @ fs) = weight w es + weight w fs"
  by (simp_all add: weight_def)

lemma weight_mono: "(\<And>e. e \<in> set es \<Longrightarrow> w e \<le> v e) \<Longrightarrow> weight w es \<le> weight v es"
  by (simp add: weight_def sum_list_mono)

lemma split_scan_weight:
  fixes w :: "dx_map_entry \<Rightarrow> nat"
  defines "z \<equiv> \<lambda>e. unat (dm_size e)"
  assumes "split_scan bs m n sz mv = (n', mv')" "n \<le> length m" "\<And>e. e \<in> set m \<Longrightarrow> w e \<le> z e \<and> w e \<le> W"
    and "sw \<le> sz" "sw \<le> bs div 2 + (W + 1) div 2"
  shows "sw + weight w (drop n' (take n m)) \<le> bs div 2 + (W + 1) div 2 \<and>
    (0 < n' \<longrightarrow> bs div 2 < sz + weight z (drop n' (take n m)) + z (m ! (n' - 1)) div 2)"
  using assms(2,3,5,6)
proof (induction n arbitrary: sz mv sw)
  case (Suc n)
  let ?e = "m ! n"
  have e: "w ?e \<le> z ?e" "w ?e \<le> W" using assms(4) Suc.prems(2) by (auto intro: nth_mem)
  show ?case
  proof (cases "sz + z ?e div 2 > bs div 2")
    case True
    then show ?thesis using Suc.prems by (auto simp: z_def)
  next
    case False
    have s: "split_scan bs m n (sz + z ?e) (Suc mv) = (n', mv')" using Suc.prems(1) False by (simp add: z_def)
    have n': "n' \<le> n" using split_scan_sum [OF s] by simp
    have "sw + w ?e \<le> bs div 2 + (W + 1) div 2" using False Suc.prems(3) e by linarith
    from Suc.IH [OF s _ _ this] Suc.prems(2,3) e(1)
    have IH: "sw + w ?e + weight w (drop n' (take n m)) \<le> bs div 2 + (W + 1) div 2"
      "0 < n' \<longrightarrow> bs div 2 < sz + z ?e + weight z (drop n' (take n m)) + z (m ! (n' - 1)) div 2" by auto
    have "drop n' (take (Suc n) m) = drop n' (take n m) @ [?e]" using n' Suc.prems(2) by (simp add: take_Suc_conv_app_nth)
    then show ?thesis using IH by (simp add: add.assoc add.commute add.left_commute)
  qed
qed simp

lemma split_parts_weight:
  fixes w :: "dx_map_entry \<Rightarrow> nat"
  defines "z \<equiv> \<lambda>e. unat (dm_size e)"
  assumes "fst (split_scan bs m (length m) 0 0) \<noteq> 1" "\<And>e. e \<in> set m \<Longrightarrow> w e \<le> z e \<and> w e \<le> W" "weight z m \<le> bs" "even bs"
  shows "weight w (take (split_index bs m) m) \<le> bs div 2 + (W + 1) div 2"
    "weight w (drop (split_index bs m) m) \<le> bs div 2 + (W + 1) div 2"
proof -
  obtain n mv where s: "split_scan bs m (length m) 0 0 = (n, mv)" by fastforce
  have nm: "n + mv = length m" using split_scan_sum [OF s] by simp
  have "weight w (drop n m) \<le> bs div 2 + (W + 1) div 2 \<and> (0 < n \<longrightarrow> bs div 2 < weight z (drop n m) + z (m ! (n - 1)) div 2)"
    using split_scan_weight [OF s, of w W 0] assms(3) by (simp add: z_def)
  then have b: "weight w (drop n m) \<le> bs div 2 + (W + 1) div 2" "0 < n \<Longrightarrow> bs div 2 < weight z (drop n m) + z (m ! (n - 1)) div 2"
    by simp_all
  have "weight w (take (split_index bs m) m) \<le> bs div 2 + (W + 1) div 2 \<and> weight w (drop (split_index bs m) m) \<le> bs div 2 + (W + 1) div 2"
  proof (cases "1 < n")
    case True
    then have k: "split_index bs m = n" using nm by (auto simp: split_index_def s)
    obtain j where j: "n = Suc j" "j < length m" using True nm by (cases n) auto
    have t: "take n m = take j m @ [m ! j]" "m = take j m @ m ! j # drop n m"
      using j by (simp_all add: take_Suc_conv_app_nth id_take_nth_drop [symmetric])
    have "weight z m = weight z (take j m) + z (m ! j) + weight z (drop n m)" by (subst t(2)) simp
    moreover have "weight w (take j m) \<le> weight z (take j m)" using assms(3) by (intro weight_mono) (auto dest: in_set_takeD)
    moreover have "w (m ! j) \<le> z (m ! j)" "w (m ! j) \<le> W" using assms(3) j(2) by (auto intro: nth_mem)
    moreover obtain c where "bs = 2 * c" using assms(5) by (elim evenE)
    moreover have "bs div 2 < weight z (drop n m) + z (m ! j) div 2" using b(2) j(1) True by simp
    ultimately have "weight w (take j m) + w (m ! j) \<le> bs div 2 + (W + 1) div 2" using assms(4) by linarith
    then show ?thesis using b(1) unfolding k t(1) by simp
  next
    case False
    then have "n = 0" using assms(2) s by simp
    then have "weight w m \<le> bs div 2 + (W + 1) div 2" using b(1) by simp
    moreover have "weight w m = weight w (take k m) + weight w (drop k m)" for k by (metis append_take_drop_id weight_simps(3))
    ultimately show ?thesis by (metis add_leD1 add_leD2)
  qed
  then show "weight w (take (split_index bs m) m) \<le> bs div 2 + (W + 1) div 2"
    "weight w (drop (split_index bs m) m) \<le> bs div 2 + (W + 1) div 2" by simp_all
qed


text \<open>The last record of a block after the split has room for what is left of the block.\<close>

lemma last_room:
  assumes "chain h b 0 lim offs" "offs \<noteq> []" "last offs + nlen_at h b (last offs) = sz" "sz + reclen \<le> lim"
  shows "room h b (last offs) reclen"
proof -
  obtain xs p where o: "offs = xs @ [p]" using assms(2) by (cases offs rule: rev_cases) auto
  then have "p + rlen_at b p = lim" using assms(1) by (simp add: chain_split)
  then show ?thesis using assms(3,4) by (simp add: o room_def)
qed

lemma need_bound: "need h (de_name blk p) \<le> 272"
  using unsigned_less [of "de_name_len blk p", where 'a = nat] by (auto simp: ext4_dir_rec_len_unat nlen_at_def simp flip: nlen_need)

text \<open>What the entries of the sorted map weigh: the space they need is at most the length of their records, which fit into the block.\<close>

lemma map_weights:
  fixes hv d1 offs
  defines "m \<equiv> dx_sort_map (rev (map (map_entry hv d1) (used d1 offs)))"
  assumes "chain h d1 0 lim offs" "length d1 < 2 ^ 16"
  shows "e \<in> set m \<Longrightarrow> nlen_at h d1 (map_offs e) \<le> unat (dm_size e) \<and> nlen_at h d1 (map_offs e) \<le> 272"
    "weight (\<lambda>e. unat (dm_size e)) m \<le> lim"
proof -
  let ?z = "\<lambda>e. unat (dm_size e)"
  have mm: "mset m = mset (map (map_entry hv d1) (used d1 offs))"
    using dx_sort_map_sorts [of "rev (map (map_entry hv d1) (used d1 offs))"] by (simp add: m_def)
  note me = map_entry_fields [OF assms(2,3)]
  show "nlen_at h d1 (map_offs e) \<le> ?z e \<and> nlen_at h d1 (map_offs e) \<le> 272" if e: "e \<in> set m"
  proof -
    obtain p where p: "p \<in> set (used d1 offs)" "e = map_entry hv d1 p" using mset_eq_setD [OF mm] e by auto
    then show ?thesis using me(1,2) [OF p(1), of hv] me(3) [OF p(1)] need_bound [of h d1 p] by (auto simp: entry_ok_def nlen_need)
  qed
  have "weight ?z m = sum_mset (image_mset ?z (mset m))" by (simp add: weight_def sum_mset_sum_list flip: mset_map)
  also have "\<dots> = weight ?z (map (map_entry hv d1) (used d1 offs))" unfolding mm by (simp add: weight_def sum_mset_sum_list flip: mset_map)
  also have "\<dots> = (\<Sum>p\<leftarrow>used d1 offs. rlen_at d1 p)"
    using me(2) by (auto simp: weight_def comp_def intro!: arg_cong [where f = sum_list])
  also have "\<dots> \<le> (\<Sum>p\<leftarrow>offs. rlen_at d1 p)" unfolding used_def by (rule sum_list_filter_le_nat)
  also have "\<dots> = lim" using chain_sum [OF assms(2)] by simp
  finally show "weight ?z m \<le> lim" .
qed

text \<open>
  Result split_leaves_room: when the loop over the sizes does not stop at the first entry, both blocks that result from the split of
  a leaf block of at least 1024 bytes have room for an entry with the longest name.
\<close>

theorem split_leaves_room:
  assumes "leaf_block h cs d1 offs" "length d2 = length d1" "2 \<le> length (used d1 offs)"
    and "\<And>p. entry_ok h d1 p (length d1 - cs) \<Longrightarrow> \<not> check d1 p"
    and "\<And>p. p \<in> set (used d1 offs) \<Longrightarrow> dirent_hash dirhash h d1 p = Inr (hv (de_name d1 p))"
    and "1024 \<le> length d1" "dx_make_map check dirhash h cs d1 = Some (Inr m)"
    and "fst (split_scan (length d1) (dx_sort_map m) (length m) 0 0) \<noteq> 1"
  shows "\<exists>r. split_blocks check dirhash h (length d1) cs d1 d2 = Some (Inr r) \<and>
    room h (sp_data1 r) (sp_de r) 272 \<and> room h (sp_data2 r) (sp_de2 r) 272"
proof -
  let ?m = "dx_sort_map m" and ?z = "\<lambda>e. unat (dm_size e)" and ?w = "\<lambda>e. nlen_at h d1 (map_offs e)"
  let ?k = "split_index (length d1) ?m"
  obtain r offs1 offs2 where r: "split_blocks check dirhash h (length d1) cs d1 d2 = Some (Inr r)"
    "split_ok hv h (length d1 - cs) d1 offs r offs1 offs2" "m = rev (map (map_entry hv d1) (used d1 offs))"
    "mset (live (sp_data1 r) offs1) = mset (map (dent d1 \<circ> map_offs) (take ?k ?m))"
    "live (sp_data2 r) offs2 = map (dent d1 \<circ> map_offs) (drop ?k ?m)"
    using split_blocks_run [where check = check and dirhash = dirhash and hv = hv, OF assms(1-5)] assms(7) by (auto simp: Let_def)
  have lf: "chain h d1 0 (length d1 - cs) offs" "length d1 < 2 ^ 16" "length d1 mod 4 = 0" "cs = 0 \<or> cs = 12"
    using assms(1) by (auto simp: leaf_block_def)
  note mw = map_weights [OF lf(1,2), where hv = hv, folded r(3)]
  have ev: "even (length d1)" using lf(3) by (auto simp: mod_eq_0_iff_dvd elim: dvd_trans [rotated])
  have sc: "fst (split_scan (length d1) ?m (length ?m) 0 0) \<noteq> 1" using assms(8) dx_sort_map_sorts [of m] by (metis size_mset)
  have "weight ?z ?m \<le> length d1" using mw(2) by simp
  note sp = split_parts_weight [OF sc mw(1) this ev]
  have w: "live_size h (live (sp_data1 r) offs1) = weight ?w (take ?k ?m)" "live_size h (live (sp_data2 r) offs2) = weight ?w (drop ?k ?m)"
    using live_size_mset [OF r(4)] by (simp_all add: r(5) live_size_def weight_def nlen_need comp_def)
  have fit: "length d1 div 2 + (272 + 1) div 2 + 272 \<le> length d1 - cs" using assms(6) lf(4) ev by (auto elim!: evenE)
  have s: "chain h (sp_data1 r) 0 (length d1 - cs) offs1" "chain h (sp_data2 r) 0 (length d1 - cs) offs2" "offs1 \<noteq> []" "offs2 \<noteq> []"
    "sp_de r = last offs1" "sp_de2 r = last offs2"
    "sp_de r + nlen_at h (sp_data1 r) (sp_de r) = weight ?w (take ?k ?m)" "sp_de2 r + nlen_at h (sp_data2 r) (sp_de2 r) = weight ?w (drop ?k ?m)"
    using r(2) w by (auto simp: split_ok_def)
  have "room h (sp_data1 r) (sp_de r) 272" "room h (sp_data2 r) (sp_de2 r) 272"
    unfolding s(5,6) using s(5-8) sp fit by (auto intro!: last_room [OF s(1,3)] last_room [OF s(2,4)])
  with r(1) show ?thesis by blast
qed

section \<open>The split of a leaf block\<close>

text \<open>
  \<open>do_split\<close> with the calls that can fail: appending a block, access to the leaf and to the index block, and writing them
  back. \<open>data2\<close> is the new block, \<open>newblock\<close> its number. The result is an error number or the block in which the new entry goes (true for
  the second) with the offset of its last record; and the two leaf blocks and the index block. The block that does not
  get the new entry is written back here, with its checksum.
\<close>

datatype dcall = D_append | D_access_leaf | D_access_frame | D_dirty_leaf | D_dirty_frame

definition csum_size_of :: "super_block \<Rightarrow> nat" where
  "csum_size_of sb = (if ext4_has_metadata_csum sb then 12 else 0)"

definition do_split ::
    "(dcall \<Rightarrow> int) \<Rightarrow> kernel \<Rightarrow> super_block \<Rightarrow> inode \<Rightarrow> (u8 list \<Rightarrow> nat \<Rightarrow> bool) \<Rightarrow> (u8 list \<Rightarrow> int + u32) \<Rightarrow> bool \<Rightarrow> u32 \<Rightarrow> u32 \<Rightarrow>
     u8 list \<Rightarrow> u8 list \<Rightarrow> dx_frame \<Rightarrow> ((int + bool \<times> nat) \<times> u8 list \<times> u8 list \<times> u8 list) option" where
  "do_split A K sb dir check dirhash h hash newblock data1 data2 frame =
     (if A D_append < 0 then Some (Inl (A D_append), data1, data2, fr_bh frame)
      else if A D_access_leaf \<noteq> 0 then Some (Inl (A D_access_leaf), data1, data2, fr_bh frame)
      else if A D_access_frame \<noteq> 0 then Some (Inl (A D_access_frame), data1, data2, fr_bh frame)
      else (case split_blocks check dirhash h (EXT4_BLOCK_SIZE sb) (csum_size_of sb) data1 data2 of
              None \<Rightarrow> None
            | Some (Inl err) \<Rightarrow> Some (Inl err, data1, data2, fr_bh frame)
            | Some (Inr r) \<Rightarrow>
                (let second = (hash \<ge> sp_hash2 r);
                     de = (if second then sp_de2 r else sp_de r)
                 in case dx_insert_block (fr_entries frame) (fr_at frame) (sp_hash2 r + of_bool (sp_continued r)) newblock (fr_bh frame) of
                      None \<Rightarrow> None
                    | Some fb \<Rightarrow>
                        (let data1 = (if second then ext4_dirblock_csum_set K sb dir (sp_data1 r) else sp_data1 r);
                             data2 = (if second then sp_data2 r else ext4_dirblock_csum_set K sb dir (sp_data2 r))
                         in if A D_dirty_leaf \<noteq> 0 then Some (Inl (A D_dirty_leaf), data1, data2, fb)
                            else (let fb = ext4_dx_csum_set K sb dir fb
                                  in if A D_dirty_frame \<noteq> 0 then Some (Inl (A D_dirty_frame), data1, data2, fb)
                                     else Some (Inr (second, de), data1, data2, fb))))))"

text \<open>Setting the checksum of a block does not touch its entries.\<close>

lemma csum_set_entries:
  fixes K dir
  assumes "block_fits sb b" "chain h b 0 (length b - csum_size_of sb) offs" "offs \<noteq> []"
  defines "b' \<equiv> ext4_dirblock_csum_set K sb dir b"
  shows "length b' = length b" "chain h b' 0 (length b - csum_size_of sb) offs" "live b' offs = live b offs"
    "nlen_at h b' (last offs) = nlen_at h b (last offs)"
proof -
  show len: "length b' = length b" unfolding b'_def by (rule length_dirblock_csum_set [OF assms(1)])
  have n: "b' ! i = b ! i" if "i < length b - csum_size_of sb" for i
    unfolding b'_def by (rule dirblock_csum_set_frame [OF assms(1)]) (use that in \<open>auto simp: csum_size_of_def\<close>)
  have "chain h b' 0 (length b - csum_size_of sb) offs \<and> live b' offs = live b offs"
    by (rule chain_cong [OF _ len assms(2)]) (use n in auto)
  then show "chain h b' 0 (length b - csum_size_of sb) offs" "live b' offs = live b offs" by simp_all
  have ok: "entry_ok h b (last offs) (length b - csum_size_of sb)" using chain_member [OF assms(2)] assms(3) by simp
  then have "last offs + 6 < length b - csum_size_of sb" using rlen_ge_8 [OF ok] by (simp add: entry_ok_def)
  from n [OF this] show "nlen_at h b' (last offs) = nlen_at h b (last offs)" by (simp add: nlen_at_def de_name_len_def)
qed

lemma split_ok_csum:
  assumes "split_ok hv h (length blk - csum_size_of sb) blk offs r offs1 offs2" "block_fits sb blk"
  shows "split_ok hv h (length blk - csum_size_of sb) blk offs (r\<lparr>sp_data1 := ext4_dirblock_csum_set K sb dir (sp_data1 r)\<rparr>) offs1 offs2"
    "split_ok hv h (length blk - csum_size_of sb) blk offs (r\<lparr>sp_data2 := ext4_dirblock_csum_set K sb dir (sp_data2 r)\<rparr>) offs1 offs2"
proof -
  have s: "length (sp_data1 r) = length blk" "length (sp_data2 r) = length blk" "offs1 \<noteq> []" "offs2 \<noteq> []"
    "chain h (sp_data1 r) 0 (length blk - csum_size_of sb) offs1" "chain h (sp_data2 r) 0 (length blk - csum_size_of sb) offs2"
    "sp_de r = last offs1" "sp_de2 r = last offs2"
    using assms(1) by (auto simp: split_ok_def)
  have f: "block_fits sb (sp_data1 r)" "block_fits sb (sp_data2 r)" using assms(2) s(1,2) by (simp_all add: block_fits_def)
  have c1: "length (ext4_dirblock_csum_set K sb dir (sp_data1 r)) = length blk"
    "chain h (ext4_dirblock_csum_set K sb dir (sp_data1 r)) 0 (length blk - csum_size_of sb) offs1"
    "live (ext4_dirblock_csum_set K sb dir (sp_data1 r)) offs1 = live (sp_data1 r) offs1"
    "nlen_at h (ext4_dirblock_csum_set K sb dir (sp_data1 r)) (last offs1) = nlen_at h (sp_data1 r) (last offs1)"
    using csum_set_entries [OF f(1), where K = K and dir = dir and h = h and offs = offs1] s by simp_all
  have c2: "length (ext4_dirblock_csum_set K sb dir (sp_data2 r)) = length blk"
    "chain h (ext4_dirblock_csum_set K sb dir (sp_data2 r)) 0 (length blk - csum_size_of sb) offs2"
    "live (ext4_dirblock_csum_set K sb dir (sp_data2 r)) offs2 = live (sp_data2 r) offs2"
    "nlen_at h (ext4_dirblock_csum_set K sb dir (sp_data2 r)) (last offs2) = nlen_at h (sp_data2 r) (last offs2)"
    using csum_set_entries [OF f(2), where K = K and dir = dir and h = h and offs = offs2] s by simp_all
  show "split_ok hv h (length blk - csum_size_of sb) blk offs (r\<lparr>sp_data1 := ext4_dirblock_csum_set K sb dir (sp_data1 r)\<rparr>) offs1 offs2"
    "split_ok hv h (length blk - csum_size_of sb) blk offs (r\<lparr>sp_data2 := ext4_dirblock_csum_set K sb dir (sp_data2 r)\<rparr>) offs1 offs2"
    using assms(1) c1 c2 s(7,8) by (simp_all add: split_ok_def)
qed

text \<open>
  Result do_split_ok: when its calls succeed, \<open>do_split\<close> on a leaf block with at least two entries leaves the entries of the block
  in two well-formed blocks, separated by a hash (see \<open>split_ok\<close>), enters the new block with this hash, plus one when the
  hash occurs in both blocks, in the index behind the block that was split, and chooses the second block for
  the new entry exactly when the hash of its name is not below the separating hash.
\<close>

theorem do_split_ok:
  assumes "leaf_block h (csum_size_of sb) d1 offs" "length d2 = length d1" "block_fits sb d1" "2 \<le> length (used d1 offs)"
    and "\<And>p. entry_ok h d1 p (length d1 - csum_size_of sb) \<Longrightarrow> \<not> check d1 p"
    and "\<And>p. p \<in> set (used d1 offs) \<Longrightarrow> dirent_hash dirhash h d1 p = Inr (hv (de_name d1 p))" "\<And>c. A c = 0"
    and "fr_at fr = fr_entries fr + 8 * k" "k < dx_get_count (fr_bh fr) (fr_entries fr)"
    and "dx_get_count (fr_bh fr) (fr_entries fr) < dx_get_limit (fr_bh fr) (fr_entries fr)"
    and "fr_entries fr + 8 * dx_get_limit (fr_bh fr) (fr_entries fr) \<le> length (fr_bh fr)"
  shows "\<exists>r offs1 offs2 fb. split_ok hv h (length d1 - csum_size_of sb) d1 offs r offs1 offs2 \<and>
    do_split A K sb dir check dirhash h hash newblock d1 d2 fr =
      Some (Inr (sp_hash2 r \<le> hash, if sp_hash2 r \<le> hash then sp_de2 r else sp_de r), sp_data1 r, sp_data2 r, ext4_dx_csum_set K sb dir fb) \<and>
    dx_pairs fb (fr_entries fr) = take k (dx_pairs (fr_bh fr) (fr_entries fr)) @
      (sp_hash2 r + of_bool (sp_continued r), newblock) # drop k (dx_pairs (fr_bh fr) (fr_entries fr)) \<and>
    dx_get_block fb (fr_entries fr) = dx_get_block (fr_bh fr) (fr_entries fr)"
proof -
  have bs: "EXT4_BLOCK_SIZE sb = length d1" using assms(3) by (simp add: block_fits_def)
  obtain r offs1 offs2 where r: "split_blocks check dirhash h (length d1) (csum_size_of sb) d1 d2 = Some (Inr r)"
    "split_ok hv h (length d1 - csum_size_of sb) d1 offs r offs1 offs2"
    using split_blocks_run [where check = check and dirhash = dirhash and hv = hv, OF assms(1,2,4,5,6)] by blast
  obtain fb where fb: "dx_insert_block (fr_entries fr) (fr_at fr) (sp_hash2 r + of_bool (sp_continued r)) newblock (fr_bh fr) = Some fb"
    "dx_pairs fb (fr_entries fr) = take k (dx_pairs (fr_bh fr) (fr_entries fr)) @
      (sp_hash2 r + of_bool (sp_continued r), newblock) # drop k (dx_pairs (fr_bh fr) (fr_entries fr))"
    "dx_get_block fb (fr_entries fr) = dx_get_block (fr_bh fr) (fr_entries fr)"
    using dx_insert_ok [OF refl refl assms(9-11)] assms(8) by metis
  define r' where "r' = (if sp_hash2 r \<le> hash then r\<lparr>sp_data1 := ext4_dirblock_csum_set K sb dir (sp_data1 r)\<rparr>
    else r\<lparr>sp_data2 := ext4_dirblock_csum_set K sb dir (sp_data2 r)\<rparr>)"
  have ok: "split_ok hv h (length d1 - csum_size_of sb) d1 offs r' offs1 offs2" using split_ok_csum [OF r(2) assms(3)] by (simp add: r'_def)
  have same: "sp_hash2 r' = sp_hash2 r" "sp_continued r' = sp_continued r" "sp_de r' = sp_de r" "sp_de2 r' = sp_de2 r"
    by (simp_all add: r'_def)
  have run: "do_split A K sb dir check dirhash h hash newblock d1 d2 fr =
      Some (Inr (sp_hash2 r \<le> hash, if sp_hash2 r \<le> hash then sp_de2 r else sp_de r), sp_data1 r', sp_data2 r', ext4_dx_csum_set K sb dir fb)"
    by (simp add: do_split_def bs r(1) fb(1) assms(7) Let_def r'_def)
  show ?thesis
    by (intro exI [of _ r'] exI [of _ offs1] exI [of _ offs2] exI [of _ fb] conjI) (simp_all only: ok same run fb(2,3))
qed

text \<open>
  Result split_faults: with fewer than two entries in use the map is split at index 0, and \<open>map[split - 1]\<close> is read with an
  unsigned index that has wrapped around (for an empty map \<open>map[split]\<close> is outside the block already).
\<close>

theorem split_faults:
  assumes "leaf_block h cs d1 offs" "length (used d1 offs) < 2"
    and "\<And>p. entry_ok h d1 p (length d1 - cs) \<Longrightarrow> \<not> check d1 p"
    and "\<And>p. p \<in> set (used d1 offs) \<Longrightarrow> dirent_hash dirhash h d1 p = Inr (hv (de_name d1 p))"
  shows "split_blocks check dirhash h (length d1) cs d1 d2 = None"
proof -
  let ?m = "dx_sort_map (rev (map (map_entry hv d1) (used d1 offs)))"
  have lf: "chain h d1 0 (length d1 - cs) offs" "named d1 offs" "length d1 < 2 ^ 16" using assms(1) by (auto simp: leaf_block_def)
  have mk: "dx_make_map check dirhash h cs d1 = Some (Inr (rev (map (map_entry hv d1) (used d1 offs))))"
    using make_map_ok [where check = check and dirhash = dirhash and hv = hv and acc = "[]", OF assms(3) lf(1,2) assms(4)]
    by (simp add: dx_make_map_def)
  note sm = sorted_map [OF lf(1,3), where hv = hv]
  have len: "length ?m < 2" using sm(1) assms(2) by (metis length_map size_mset)
  have "split_index (length d1) ?m = 0"
  proof (cases ?m)
    case (Cons e es)
    then have "es = []" "unat (dm_size e) div 2 \<le> length d1 div 2" using len sm(4) by (auto intro: div_le_mono le_trans [OF _ diff_le_self])
    then show ?thesis using Cons by (simp add: split_index_def)
  qed (simp add: split_index_def)
  then show ?thesis by (simp add: split_blocks_def mk)
qed

section \<open>A block that is split\<close>

definition demo_dirleaf :: "u8 list" where
  "demo_dirleaf = le32 5 @ le16 12 @ [1, 0, 97, 0, 0, 0] @ le32 6 @ le16 12 @ [1, 0, 98, 0, 0, 0] @ le32 0 @ le16 1000 @ replicate 994 0"

definition demo_hash :: "u8 list \<Rightarrow> u32" where
  "demo_hash n = ucast (hd n)"

lemma demo_dirleaf_fields:
  "length demo_dirleaf = 1024" "rlen_at demo_dirleaf 0 = 12" "rlen_at demo_dirleaf 12 = 12" "rlen_at demo_dirleaf 24 = 1000"
  "de_inode demo_dirleaf 0 = 5" "de_inode demo_dirleaf 12 = 6" "de_inode demo_dirleaf 24 = 0"
  "de_name_len demo_dirleaf 0 = 1" "de_name_len demo_dirleaf 12 = 1" "de_name_len demo_dirleaf 24 = 0"
  by (simp_all add: demo_dirleaf_def rlen_at_16 de_rec_len_def de_name_len_def de_inode_def le32_def le16_def get_le16_def get_le32_def)

lemma demo_dirleaf_ok: "leaf_block False 0 demo_dirleaf [0, 12, 24]" "used demo_dirleaf [0, 12, 24] = [0, 12]"
proof -
  note f = demo_dirleaf_fields
  show "leaf_block False 0 demo_dirleaf [0, 12, 24]"
    by (simp add: leaf_block_def f entry_ok_def nlen_at_def ext4_dir_rec_len_unat named_def tailed_def)
  show "used demo_dirleaf [0, 12, 24] = [0, 12]" by (simp add: used_def f)
qed

lemmas demo_split_facts = demo_dirleaf_ok demo_dirleaf_fields(1)

abbreviation (input) "demo_dirhash \<equiv> \<lambda>n. Inr (demo_hash n) :: int + u32"

lemma demo_dirent_hash: "dirent_hash demo_dirhash False demo_dirleaf p = Inr (demo_hash (de_name demo_dirleaf p))"
  by (simp add: dirent_hash_def)

theorem split_blocks_ok_witness:
  "\<exists>r. split_blocks (\<lambda>_ _. False) demo_dirhash False 1024 0 demo_dirleaf (replicate 1024 0) = Some (Inr r)"
  using split_blocks_ok [of False 0 demo_dirleaf "[0, 12, 24]" "replicate 1024 0" "\<lambda>_ _. False" demo_dirhash demo_hash]
    demo_split_facts demo_dirent_hash by auto

theorem do_split_ok_witness:
  "\<exists>t b1 b2 fb. do_split (\<lambda>_. 0) demo_kernel demo_sb demo_inode (\<lambda>_ _. False) demo_dirhash False 98 7 demo_dirleaf (replicate 1024 0)
     \<lparr>fr_bh = demo_dx_root, fr_entries = 32, fr_at = 32\<rparr> = Some (Inr t, b1, b2, fb)"
proof -
  have "csum_size_of demo_sb = 0" "EXT4_BLOCK_SIZE demo_sb = 1024"
    by (simp_all add: csum_size_of_def EXT4_BLOCK_SIZE_def demo_sb_def demo_sbi_def demo_es_def ext4_has_metadata_csum_def has_feature_defs EXT4_SB_def)
  moreover have "dx_get_count demo_dx_root 32 = 1" "dx_get_limit demo_dx_root 32 = 124" "length demo_dx_root = 1024"
    by (simp_all add: demo_dx_root_def nth_put le16_def nth_list_update dx_get_count_def dx_get_limit_def u16_at_def get_le16_def)
  ultimately show ?thesis
    using do_split_ok [of False demo_sb demo_dirleaf "[0, 12, 24]" "replicate 1024 0" "\<lambda>_ _. False" demo_dirhash demo_hash "\<lambda>_. 0"
        "\<lparr>fr_bh = demo_dx_root, fr_entries = 32, fr_at = 32\<rparr>" 0 demo_kernel demo_inode 98 7]
      demo_split_facts demo_dirent_hash by (fastforce simp: block_fits_def)
qed

theorem split_leaves_room_witness:
  "\<exists>r. split_blocks (\<lambda>_ _. False) demo_dirhash False 1024 0 demo_dirleaf (replicate 1024 0) = Some (Inr r) \<and>
     room False (sp_data1 r) (sp_de r) 272 \<and> room False (sp_data2 r) (sp_de2 r) 272"
proof -
  let ?m = "rev (map (map_entry demo_hash demo_dirleaf) [0, 12])"
  have ch: "chain False demo_dirleaf 0 1024 [0, 12, 24]" "named demo_dirleaf [0, 12, 24]"
    using demo_dirleaf_ok(1) demo_dirleaf_fields(1) by (simp_all add: leaf_block_def del: chain_Cons_iff)
  have mk: "dx_make_map (\<lambda>_ _. False) demo_dirhash False 0 demo_dirleaf = Some (Inr ?m)"
    using make_map_ok [of False demo_dirleaf 1024 "\<lambda>_ _. False" 0 "[0, 12, 24]" demo_dirhash demo_hash "[]"] ch demo_dirent_hash
    by (simp add: dx_make_map_def demo_dirleaf_fields(1) demo_dirleaf_ok(2) del: chain_Cons_iff)
  have "set (dx_sort_map ?m) = set ?m" "length (dx_sort_map ?m) = length ?m"
    using dx_sort_map_sorts [of ?m] by (metis mset_eq_setD, metis size_mset)
  then have "unat (dm_size (dx_sort_map ?m ! i)) = 12" if "i < 2" for i
    using that nth_mem [of i "dx_sort_map ?m"] by (auto simp: map_entry_def demo_dirleaf_fields)
  then have "fst (split_scan 1024 (dx_sort_map ?m) (Suc (Suc 0)) 0 0) \<noteq> 1" by simp
  then show ?thesis
    using split_leaves_room [of False 0 demo_dirleaf "[0, 12, 24]" "replicate 1024 0" "\<lambda>_ _. False" demo_dirhash demo_hash ?m]
      demo_split_facts demo_dirent_hash mk by (simp add: eval_nat_numeral(3) [symmetric])
qed

theorem split_faults_witness:
  "split_blocks (\<lambda>_ _. False) demo_dirhash False 24 0 demo_dir (replicate 24 0) = None"
  using split_faults [of False 0 demo_dir "[0]" "\<lambda>_ _. False" demo_dirhash demo_hash "replicate 24 0"] demo_dir_chain
  by (simp add: leaf_block_def named_def tailed_def used_def dirent_hash_def del: chain_Cons_iff)
    (simp add: demo_dir_def de_name_len_def le32_def le16_def)

end
