(* ===== verification/Ext4_Dir.thy ===== *)
theory Ext4_Dir
  imports Evfs_Dentry Ext4_Dirsplit
begin

unbundle bit_operations_syntax

text \<open>
  Whole directories: \<open>src/linux-6.8/fs/ext4/namei.c\<close>, reading and appending blocks (\<open>__ext4_read_dirblock\<close>, \<open>ext4_append\<close>), adding an entry
  (\<open>add_dirent_to_buf\<close>, \<open>ext4_add_entry\<close>), deleting one (\<open>ext4_delete_entry\<close>) and finding one block by block with read-ahead
  (\<open>search_dirblock\<close>, \<open>__ext4_find_entry\<close>). A directory is its inode and the bytes of its blocks; the calls that leave the file
  (reading, allocating and journalling blocks) are answered by the environment.

  For a directory without an index the three operations keep the blocks well formed, with valid checksums, and do to the entries
  what their names say. The locale \<open>directory\<close> states this as an interface; the lemma of the locale that a
  sequence of operations refines a map from names to inode numbers is carried over to the model by the interpretation \<open>linear\<close>.
\<close>

section \<open>Directories\<close>

text \<open>
  A directory: its inode and its blocks. What the operations call is answered by \<open>dv_answer\<close>; a call that returns a pointer
  answers a negative error number, 0 for \<open>NULL\<close> (a hole) or a positive number.
\<close>

record dirfile =
  df_inode :: inode
  df_blocks :: "u8 list list"

datatype dir_call =
    Dir_bread nat
  | Dir_create nat
  | Dir_batch nat nat
  | Dir_buffer nat
  | Dir_map_blocks nat
  | Dir_mark_dirty
  | Dir_access nat
  | Dir_dirty nat
  | Dir_split dcall

text \<open>
  The surroundings of an operation: the kernel and the superblock, \<open>s_max_dir_size_kb\<close>, the current time, which buffers have been
  verified, what \<open>ext4_check_dir_entry\<close> says (true for an error), how names are compared, and whether the entries carry hashes.
\<close>

record dir_env =
  dv_answer :: "dir_call \<Rightarrow> int"
  dv_kernel :: kernel
  dv_sb :: super_block
  dv_max_dir_size_kb :: int
  dv_now :: timespec64
  dv_verified :: "nat \<Rightarrow> bool"
  dv_check :: "u8 list \<Rightarrow> nat \<Rightarrow> bool"
  dv_match :: "u8 list \<Rightarrow> u8 list \<Rightarrow> bool"
  dv_hashed :: bool

definition dv_blocksize :: "dir_env \<Rightarrow> nat" where
  "dv_blocksize E = EXT4_BLOCK_SIZE (dv_sb E)"

definition dv_csum_size :: "dir_env \<Rightarrow> nat" where
  "dv_csum_size E = csum_size_of (dv_sb E)"

datatype dirblock_type_t = EITHER | INDEX | DIRENT | DIRENT_HTREE

text \<open>\<open>__ext4_read_dirblock\<close>, without the simulated failures: an error number, or the block, or \<open>None\<close> for a hole.\<close>

definition ext4_read_dirblock :: "dir_env \<Rightarrow> dirfile \<Rightarrow> nat \<Rightarrow> dirblock_type_t \<Rightarrow> int + u8 list option" where
  "ext4_read_dirblock E d block type =
     (let inode = df_inode d; sb = dv_sb E; a = dv_answer E (Dir_bread block)
      in if int block \<ge> i_size inode div 2 ^ i_blkbits inode then Inl (- EUCLEAN)
         else if a < 0 then Inl a
         else if a = 0 \<and> (type = INDEX \<or> type = DIRENT_HTREE) then Inl (- EUCLEAN)
         else if a = 0 then Inr None
         else (let blk = df_blocks d ! block;
                   is_dx_block = (is_dx sb inode \<and> (block = 0 \<or> rlen_at blk 0 = dv_blocksize E))
               in if \<not> is_dx_block \<and> type = INDEX then Inl (- EUCLEAN)
                  else if \<not> ext4_has_metadata_csum sb \<or> dv_verified E block then Inr (Some blk)
                  else if is_dx_block \<and> type = INDEX \<and> \<not> ext4_dx_csum_verify (dv_kernel E) sb inode blk then Inl (- EBADMSG)
                  else if \<not> is_dx_block \<and> \<not> ext4_dirblock_csum_verify (dv_kernel E) sb inode blk then Inl (- EBADMSG)
                  else Inr (Some blk)))"

text \<open>
  \<open>ext4_append\<close>: the number of the new block or an error number. \<open>new\<close> is what the buffer of the new block holds. The last
  two failures leave the directory longer by the new block.
\<close>

definition ext4_append :: "dir_env \<Rightarrow> u8 list \<Rightarrow> dirfile \<Rightarrow> (int + nat) \<times> dirfile" where
  "ext4_append E new d =
     (let A = dv_answer E; inode = df_inode d; bs = int (dv_blocksize E)
      in if dv_max_dir_size_kb E \<noteq> 0 \<and> i_size inode div 1024 \<ge> dv_max_dir_size_kb E then (Inl (- ENOSPC), d)
         else (let block = nat (i_size inode div bs)
               in if A (Dir_map_blocks block) < 0 then (Inl (A (Dir_map_blocks block)), d)
                  else if A (Dir_map_blocks block) \<noteq> 0 then (Inl (- EUCLEAN), d)
                  else if A (Dir_create block) < 0 then (Inl (A (Dir_create block)), d)
                  else (let d = \<lparr>df_inode = inode\<lparr>i_size := i_size inode + bs, i_disksize := i_size inode + bs\<rparr>,
                                 df_blocks = df_blocks d @ [new]\<rparr>
                        in if A Dir_mark_dirty \<noteq> 0 then (Inl (A Dir_mark_dirty), d)
                           else if A (Dir_access block) \<noteq> 0 then (Inl (A (Dir_access block)), d)
                           else (Inr block, d))))"

section \<open>Adding an entry\<close>

text \<open>What an entry is made of: the mode and the number of the inode, and the name.\<close>

record new_entry =
  ne_mode :: u16
  ne_ino :: u32
  ne_name :: "u8 list"

text \<open>
  \<open>add_dirent_to_buf\<close> on the block with number \<open>n\<close>, at the record \<open>de\<close> or, when it is not given, at the first record with room.
  Of the directory's inode the times, the flag of the index and the version change. \<open>None\<close> is a loop that does not end.
\<close>

definition insert_into :: "dir_env \<Rightarrow> new_entry \<Rightarrow> nat \<Rightarrow> nat \<Rightarrow> dirfile \<Rightarrow> int \<times> dirfile" where
  "insert_into E ne de n d =
     (let A = dv_answer E; sb = dv_sb E
      in if A (Dir_access n) \<noteq> 0 then (A (Dir_access n), d)
         else (let blk = ext4_insert_dentry (dv_hashed E) (ext4_has_feature_filetype sb) (ne_mode ne) (ne_ino ne) (ne_name ne) de (df_blocks d ! n);
                   inode = (df_inode d)\<lparr>i_ctime := dv_now E, i_mtime := dv_now E\<rparr>;
                   inode = ext4_update_dx_flag sb inode;
                   inode = inode\<lparr>i_version := i_version inode + 1\<rparr>;
                   err2 = A Dir_mark_dirty;
                   blk = ext4_dirblock_csum_set (dv_kernel E) sb inode blk;
                   err = A (Dir_dirty n)
               in (if err \<noteq> 0 then err else err2, \<lparr>df_inode = inode, df_blocks = (df_blocks d)[n := blk]\<rparr>)))"

definition add_dirent_to_buf :: "dir_env \<Rightarrow> new_entry \<Rightarrow> nat option \<Rightarrow> nat \<Rightarrow> dirfile \<Rightarrow> (int \<times> dirfile) option" where
  "add_dirent_to_buf E ne de n d =
     (case de of
        Some off \<Rightarrow> Some (insert_into E ne off n d)
      | None \<Rightarrow>
          (case ext4_find_dest_de (dv_match E) (dv_check E) (dv_hashed E) (df_blocks d ! n)
                  (dv_blocksize E - dv_csum_size E) (ne_name ne) of
             None \<Rightarrow> None
           | Some (Inl err) \<Rightarrow> Some (err, d)
           | Some (Inr off) \<Rightarrow> Some (insert_into E ne off n d)))"

text \<open>The label \<open>add_to_new_block\<close> of \<open>ext4_add_entry\<close>: the block becomes one unused record, then the entry is added at it.\<close>

definition fresh_block :: "dir_env \<Rightarrow> u8 list \<Rightarrow> u8 list" where
  "fresh_block E blk =
     (let blk = put 0 (le32 0) blk;
          blk = put 4 (le16 (of_nat (dv_blocksize E - dv_csum_size E))) blk
      in if dv_csum_size E \<noteq> 0 then ext4_initialize_dirent_tail (dv_blocksize E) blk else blk)"

definition add_to_new_block :: "dir_env \<Rightarrow> new_entry \<Rightarrow> nat \<Rightarrow> dirfile \<Rightarrow> (int \<times> dirfile) option" where
  "add_to_new_block E ne n d =
     add_dirent_to_buf E ne (Some 0) n (d\<lparr>df_blocks := (df_blocks d)[n := fresh_block E (df_blocks d ! n)]\<rparr>)"

text \<open>
  The loop of \<open>ext4_add_entry\<close> over the blocks, for \<open>left\<close> blocks from \<open>block\<close> on; \<open>make_indexed\<close> is the call of \<open>make_indexed_dir\<close>
  when the only block is full. Names are set up by the caller and directories have no inline data.
\<close>

fun add_entry_loop ::
    "dir_env \<Rightarrow> (nat \<Rightarrow> dirfile \<Rightarrow> (int \<times> dirfile) option) \<Rightarrow> bool \<Rightarrow> u8 list \<Rightarrow> new_entry \<Rightarrow> nat \<Rightarrow> nat \<Rightarrow> dirfile \<Rightarrow> (int \<times> dirfile) option" where
  "add_entry_loop E make_indexed may_index new ne 0 block d =
     (case ext4_append E new d of
        (Inl err, d) \<Rightarrow> Some (err, d)
      | (Inr n, d) \<Rightarrow> add_to_new_block E ne n d)"
| "add_entry_loop E make_indexed may_index new ne (Suc left) block d =
     (case ext4_read_dirblock E d block DIRENT of
        Inl err \<Rightarrow> Some (err, d)
      | Inr None \<Rightarrow>
          (if dv_answer E (Dir_create block) < 0 then Some (dv_answer E (Dir_create block), d)
           else add_to_new_block E ne block (d\<lparr>df_blocks := (df_blocks d)[block := new]\<rparr>))
      | Inr (Some _) \<Rightarrow>
          (case add_dirent_to_buf E ne None block d of
             None \<Rightarrow> None
           | Some (retval, d) \<Rightarrow>
               if retval \<noteq> - ENOSPC then Some (retval, d)
               else if may_index then make_indexed block d
               else add_entry_loop E make_indexed may_index new ne left (block + 1) d))"

definition ext4_add_entry ::
    "dir_env \<Rightarrow> (nat \<Rightarrow> dirfile \<Rightarrow> (int \<times> dirfile) option) \<Rightarrow> (dirfile \<Rightarrow> (int \<times> dirfile) option) \<Rightarrow> u8 list \<Rightarrow> new_entry \<Rightarrow> dirfile \<Rightarrow>
     (int \<times> dirfile) option" where
  "ext4_add_entry E make_indexed dx_add new ne d =
     (let sb = dv_sb E; blocks = (\<lambda>d. nat (i_size (df_inode d) div int (dv_blocksize E)))
      in if is_dx sb (df_inode d) then
           (case dx_add d of
              None \<Rightarrow> None
            | Some (retval, d) \<Rightarrow>
                if retval = 0 \<or> retval \<noteq> ERR_BAD_DX_DIR then Some (retval, d)
                else if ext4_has_metadata_csum sb then Some (- EUCLEAN, d)
                else (let d = d\<lparr>df_inode := (df_inode d)\<lparr>i_flags := i_flags (df_inode d) AND NOT EXT4_INDEX_FL\<rparr>\<rparr>
                      in if dv_answer E Dir_mark_dirty \<noteq> 0 then Some (dv_answer E Dir_mark_dirty, d)
                         else add_entry_loop E make_indexed False new ne (blocks d) 0 d))
         else add_entry_loop E make_indexed (blocks d = 1 \<and> ext4_has_feature_dir_index sb) new ne (blocks d) 0 d)"

section \<open>Deleting an entry\<close>

text \<open>\<open>ext4_delete_entry\<close> of the entry at \<open>de_del\<close> in block \<open>n\<close>.\<close>

definition ext4_delete_entry :: "dir_env \<Rightarrow> nat \<Rightarrow> nat \<Rightarrow> dirfile \<Rightarrow> (int \<times> dirfile) option" where
  "ext4_delete_entry E n de_del d =
     (let A = dv_answer E
      in if A (Dir_access n) \<noteq> 0 then Some (A (Dir_access n), d)
         else (case ext4_generic_delete_entry (dv_check E) de_del (df_blocks d ! n) (dv_blocksize E) (dv_csum_size E) of
                 None \<Rightarrow> None
               | Some (err, blk) \<Rightarrow>
                   if err \<noteq> 0 then Some (err, d\<lparr>df_blocks := (df_blocks d)[n := blk]\<rparr>)
                   else (let inode = (df_inode d)\<lparr>i_version := i_version (df_inode d) + 1\<rparr>;
                             blk = ext4_dirblock_csum_set (dv_kernel E) (dv_sb E) inode blk
                         in Some (A (Dir_dirty n), \<lparr>df_inode = inode, df_blocks = (df_blocks d)[n := blk]\<rparr>))))"

section \<open>Finding an entry\<close>

text \<open>
  The result of a search: the block and the offset of the entry, no entry (\<open>NULL\<close>), or an error pointer.
\<close>

datatype found = Found nat nat | Not_found | Find_err int

definition is_dx_internal_node :: "dir_env \<Rightarrow> dirfile \<Rightarrow> nat \<Rightarrow> u8 list \<Rightarrow> bool" where
  "is_dx_internal_node E d block blk =
     (if \<not> is_dx (dv_sb E) (df_inode d) then False
      else if block = 0 then True
      else de_inode blk 0 = 0 \<and> rlen_at blk 0 = dv_blocksize E)"

definition search_dirblock :: "dir_env \<Rightarrow> u8 list \<Rightarrow> u8 list \<Rightarrow> int \<times> nat" where
  "search_dirblock E blk fname = ext4_search_dir (dv_match E) (dv_check E) blk (dv_blocksize E) fname 0"

definition NAMEI_RA_SIZE :: nat where "NAMEI_RA_SIZE = 8"

text \<open>
  The loop of \<open>__ext4_find_entry\<close>, from \<open>block\<close> until it comes back to \<open>start\<close>. The buffer at \<open>ra_ptr\<close> of the read-ahead array is that
  of block \<open>ra_base + ra_ptr\<close>, since the array was filled from \<open>ra_base\<close> on. The result \<open>Some None\<close> is the end of the loop
  without an entry; \<open>None\<close> is a loop that does not end.
\<close>

partial_function (option) find_loop ::
    "dir_env \<Rightarrow> dirfile \<Rightarrow> u8 list \<Rightarrow> nat \<Rightarrow> nat \<Rightarrow> nat \<Rightarrow> nat \<Rightarrow> nat \<Rightarrow> nat \<Rightarrow> found option option" where
  "find_loop E d fname nblocks start block ra_ptr ra_max ra_base =
     (let refill = (ra_ptr \<ge> ra_max);
          max' = (if refill then min (if block < start then start - block else nblocks - block) NAMEI_RA_SIZE else ra_max);
          base' = (if refill then block else ra_base);
          ptr' = (if refill then 0 else ra_ptr);
          retval = (if refill then dv_answer E (Dir_batch block max') else 0);
          n = base' + ptr';
          a = dv_answer E (Dir_buffer n);
          blk = df_blocks d ! n;
          block' = (if block + 1 \<ge> nblocks then 0 else block + 1)
      in if retval \<noteq> 0 then Some (Some (Find_err retval))
         else if a < 0 then Some (Some (Find_err (- EIO)))
         else if a \<noteq> 0 \<and> \<not> dv_verified E n \<and> \<not> is_dx_internal_node E d block blk \<and>
             \<not> ext4_dirblock_csum_verify (dv_kernel E) (dv_sb E) (df_inode d) blk then Some (Some (Find_err (- EBADMSG)))
         else (case (if a = 0 then (0, 0) else search_dirblock E blk fname) of
                 (i, off) \<Rightarrow>
                   if i = 1 then Some (Some (Found block off))
                   else if i < 0 then Some (Some Not_found)
                   else if block' \<noteq> start then find_loop E d fname nblocks start block' (ptr' + 1) max' base'
                   else Some None))"

text \<open>
  After the loop: if the directory has grown meanwhile, the new part is searched. \<open>grown\<close> lists the numbers of blocks that
  \<open>i_size\<close> stands for each time it is read again.
\<close>

fun find_grown :: "dir_env \<Rightarrow> dirfile \<Rightarrow> u8 list \<Rightarrow> nat \<Rightarrow> nat list \<Rightarrow> found option" where
  "find_grown E d fname nblocks [] = Some Not_found"
| "find_grown E d fname nblocks (m # grown) =
     (if nblocks < m then
        (case find_loop E d fname m 0 nblocks 0 0 0 of
           None \<Rightarrow> None
         | Some (Some r) \<Rightarrow> Some r
         | Some None \<Rightarrow> find_grown E d fname m grown)
      else Some Not_found)"

definition find_blocks :: "dir_env \<Rightarrow> dirfile \<Rightarrow> u8 list \<Rightarrow> nat \<Rightarrow> nat \<Rightarrow> nat list \<Rightarrow> found option" where
  "find_blocks E d fname nblocks start grown =
     (case find_loop E d fname nblocks start start 0 0 0 of
        None \<Rightarrow> None
      | Some (Some r) \<Rightarrow> Some r
      | Some None \<Rightarrow> find_grown E d fname nblocks grown)"

text \<open>\<open>__ext4_find_entry\<close>; \<open>dx_find\<close> is the search through the index. The second result is the directory with the block in which the next search starts.\<close>

definition note_start :: "dirfile \<Rightarrow> found \<Rightarrow> dirfile" where
  "note_start d r = (case r of Found block off \<Rightarrow> d\<lparr>df_inode := (df_inode d)\<lparr>i_dir_start_lookup := of_nat block\<rparr>\<rparr> | _ \<Rightarrow> d)"

definition ext4_find_entry ::
    "dir_env \<Rightarrow> (dirfile \<Rightarrow> u8 list \<Rightarrow> found option) \<Rightarrow> nat list \<Rightarrow> u8 list \<Rightarrow> dirfile \<Rightarrow> (found \<times> dirfile) option" where
  "ext4_find_entry E dx_find grown fname d =
     (let nblocks = nat (i_size (df_inode d) div int (dv_blocksize E));
          start = unat (i_dir_start_lookup (df_inode d));
          run = (\<lambda>nblocks start. map_option (\<lambda>r. (r, note_start d r)) (find_blocks E d fname nblocks start grown));
          linear = (if nblocks = 0 then Some (Not_found, d) else run nblocks (if start \<ge> nblocks then 0 else start))
      in if length fname > 255 then Some (Not_found, d)
         else if fname = [46] \<or> fname = [46, 46] then run 1 0
         else if is_dx (dv_sb E) (df_inode d) then
           (case dx_find d fname of
              None \<Rightarrow> None
            | Some r \<Rightarrow> if r \<noteq> Find_err ERR_BAD_DX_DIR then Some (r, d) else linear)
         else linear)"

section \<open>The entries of a directory\<close>

text \<open>A directory of leaf blocks with the offsets of the records of each block, and all its entries.\<close>

definition dir_leaf :: "dir_env \<Rightarrow> u8 list \<Rightarrow> nat list \<Rightarrow> bool" where
  "dir_leaf E blk offs \<longleftrightarrow> leaf_block (dv_hashed E) (dv_csum_size E) blk offs \<and> length blk = dv_blocksize E"

definition dir_blocks :: "dir_env \<Rightarrow> dirfile \<Rightarrow> nat list list \<Rightarrow> bool" where
  "dir_blocks E d ofss \<longleftrightarrow> length ofss = length (df_blocks d) \<and> (\<forall>n < length ofss. dir_leaf E (df_blocks d ! n) (ofss ! n)) \<and>
     i_size (df_inode d) = int (dv_blocksize E * length ofss) \<and> 2 ^ i_blkbits (df_inode d) = int (dv_blocksize E)"

definition dir_entries :: "dirfile \<Rightarrow> nat list list \<Rightarrow> (u32 \<times> u8 list) multiset" where
  "dir_entries d ofss = (\<Sum>n<length ofss. mset (live (df_blocks d ! n) (ofss ! n)))"

text \<open>What the operations rely on: names are compared byte by byte and well-formed records pass the check; the calls succeed.\<close>

definition names_ok :: "dir_env \<Rightarrow> bool" where
  "names_ok E \<longleftrightarrow> (\<forall>f n. dv_match E f n \<longleftrightarrow> n = f) \<and>
     (\<forall>blk p. entry_ok (dv_hashed E) blk p (dv_blocksize E - dv_csum_size E) \<longrightarrow> \<not> dv_check E blk p)"

definition reads_ok :: "dir_env \<Rightarrow> dirfile \<Rightarrow> bool" where
  "reads_ok E d \<longleftrightarrow> (\<forall>n. dv_answer E (Dir_buffer n) > 0 \<and> dv_answer E (Dir_bread n) > 0) \<and> (\<forall>n m. dv_answer E (Dir_batch n m) = 0) \<and>
     (\<forall>n < length (df_blocks d). dv_verified E n \<or> ext4_dirblock_csum_verify (dv_kernel E) (dv_sb E) (df_inode d) (df_blocks d ! n))"

lemma dir_entries_mem: "e \<in># dir_entries d ofss \<longleftrightarrow> (\<exists>n < length ofss. e \<in> set (live (df_blocks d ! n) (ofss ! n)))"
  by (auto simp: dir_entries_def set_mset_sum)

text \<open>Searching a whole block, the record of the checksum included.\<close>

lemma search_tailed:
  assumes "\<And>f n. mn f n \<longleftrightarrow> n = f" "\<And>p. entry_ok h blk p lim \<Longrightarrow> \<not> check blk p"
    and "chain h blk off lim offs" "fname \<noteq> []" "tailed bs lim blk"
  shows "case ext4_search_dir mn check blk bs fname off of (r, p) \<Rightarrow>
    r = 1 \<and> p \<in> set offs \<and> de_inode blk p \<noteq> 0 \<and> de_name blk p = fname \<or>
    r = 0 \<and> (\<forall>p \<in> set offs. de_inode blk p = 0 \<or> de_name blk p \<noteq> fname)"
proof (cases "lim = bs")
  case True
  then show ?thesis using search_loop_ok [where check = check, OF assms(1-4)] by simp
next
  case False
  then have t: "lim + 8 \<le> bs" "de_inode blk lim = 0" "lim + rlen_at blk lim = bs" using assms(5) by (auto simp: tailed_def)
  show ?thesis using assms(3)
  proof (induction offs arbitrary: off rule: list.induct)
    case Nil
    have "ext4_search_dir mn check blk bs fname bs = (0, 0)" by (subst ext4_search_dir.simps) simp
    then have "ext4_search_dir mn check blk bs fname lim = (0, 0)" using t
      by (subst ext4_search_dir.simps) (auto simp: ext4_match_def)
    then show ?case using Nil by simp
  next
    case (Cons x offs)
    then have e: "x = off" "entry_ok h blk off lim" "chain h blk (off + rlen_at blk off) lim offs" by simp_all
    have rm: "off + 8 + unat (de_name_len blk off) \<le> bs" "0 < rlen_at blk off" "off + EXT4_BASE_DIR_LEN < bs"
      using entry_ok_room [OF e(2)] e(2) rlen_ge_8 [OF e(2)] t(1) by (auto simp: entry_ok_def EXT4_BASE_DIR_LEN_def)
    show ?case
    proof (cases "ext4_match mn fname blk off")
      case True
      then have "de_inode blk off \<noteq> 0" "de_name blk off = fname" by (auto simp: ext4_match_def assms(1) split: if_splits)
      then show ?thesis using True e rm assms(2) [OF e(2)] by (subst ext4_search_dir.simps) simp
    next
      case False
      then have "ext4_search_dir mn check blk bs fname off = ext4_search_dir mn check blk bs fname (off + rlen_at blk off)"
        using rm by (subst ext4_search_dir.simps) simp
      moreover have "de_inode blk off = 0 \<or> de_name blk off \<noteq> fname" using False by (auto simp: ext4_match_def assms(1))
      ultimately show ?thesis using Cons.IH [OF e(3)] e(1) by (auto split: prod.splits)
    qed
  qed
qed

definition entry_at :: "u8 list \<Rightarrow> nat list \<Rightarrow> u8 list \<Rightarrow> nat \<Rightarrow> bool" where
  "entry_at blk offs fname p \<longleftrightarrow> p \<in> set offs \<and> de_inode blk p \<noteq> 0 \<and> de_name blk p = fname"

lemma entry_at_live: "(\<exists>p. entry_at blk offs fname p) \<longleftrightarrow> fname \<in> snd ` set (live blk offs)"
  by (force simp: entry_at_def live_def)

lemma search_leaf:
  assumes "names_ok E" "dir_leaf E blk offs" "fname \<noteq> []"
  shows "(\<exists>p. search_dirblock E blk fname = (1, p) \<and> entry_at blk offs fname p) \<or>
    (\<exists>p. search_dirblock E blk fname = (0, p)) \<and> (\<forall>p. \<not> entry_at blk offs fname p)"
proof -
  have l: "chain (dv_hashed E) blk 0 (dv_blocksize E - dv_csum_size E) offs" "tailed (dv_blocksize E) (dv_blocksize E - dv_csum_size E) blk"
    using assms(2) by (auto simp: dir_leaf_def leaf_block_def)
  have "case search_dirblock E blk fname of (r, p) \<Rightarrow>
    r = 1 \<and> p \<in> set offs \<and> de_inode blk p \<noteq> 0 \<and> de_name blk p = fname \<or>
    r = 0 \<and> (\<forall>p \<in> set offs. de_inode blk p = 0 \<or> de_name blk p \<noteq> fname)"
    unfolding search_dirblock_def by (rule search_tailed [OF _ _ l(1) assms(3) l(2)]) (use assms(1) in \<open>auto simp: names_ok_def\<close>)
  then show ?thesis by (auto simp: entry_at_def split: prod.splits)
qed

section \<open>Finding an entry block by block\<close>

text \<open>
  The read-ahead array is in step with the block: it is used up, or its next buffer is that of the block and what is
  left of it ends before the loop wraps around or comes back to its start.
\<close>

definition in_step :: "nat \<Rightarrow> nat \<Rightarrow> nat \<Rightarrow> nat \<Rightarrow> nat \<Rightarrow> nat \<Rightarrow> bool" where
  "in_step N start block ptr mx bse \<longleftrightarrow> mx \<le> ptr \<or> bse + ptr = block \<and> bse + mx \<le> (if block < start then start else N)"

definition step_block :: "nat \<Rightarrow> nat \<Rightarrow> nat" where
  "step_block N block = (if block + 1 \<ge> N then 0 else block + 1)"

lemma find_loop_step:
  assumes "reads_ok E d" "names_ok E" "dir_leaf E (df_blocks d ! block) offs" "fname \<noteq> []" "block < N" "start < N" "N \<le> length (df_blocks d)"
    and "in_step N start block ptr mx bse"
  shows "(\<exists>p. entry_at (df_blocks d ! block) offs fname p \<and> find_loop E d fname N start block ptr mx bse = Some (Some (Found block p))) \<or>
    (\<forall>p. \<not> entry_at (df_blocks d ! block) offs fname p) \<and>
    (if step_block N block = start then find_loop E d fname N start block ptr mx bse = Some None
     else \<exists>ptr' mx' bse'. in_step N start (step_block N block) ptr' mx' bse' \<and>
       find_loop E d fname N start block ptr mx bse = find_loop E d fname N start (step_block N block) ptr' mx' bse')"
proof -
  define mx' where "mx' = (if mx \<le> ptr then min (if block < start then start - block else N - block) NAMEI_RA_SIZE else mx)"
  define bse' where "bse' = (if mx \<le> ptr then block else bse)"
  define ptr' where "ptr' = (if mx \<le> ptr then 0 else ptr)"
  have n: "bse' + ptr' = block" using assms(8) by (auto simp: bse'_def ptr'_def in_step_def)
  have b: "bse' + mx' \<le> (if block < start then start else N)"
    using assms(5,6,8) by (auto simp: bse'_def mx'_def in_step_def split: if_splits)
  have a: "dv_answer E (Dir_buffer block) > 0" "dv_answer E (Dir_batch block m) = 0" for m using assms(1) by (simp_all add: reads_ok_def)
  have v: "dv_verified E block \<or> ext4_dirblock_csum_verify (dv_kernel E) (dv_sb E) (df_inode d) (df_blocks d ! block)"
    using assms(1,5,7) by (simp add: reads_ok_def)
  have run: "find_loop E d fname N start block ptr mx bse =
      (case search_dirblock E (df_blocks d ! block) fname of (i, off) \<Rightarrow>
         if i = 1 then Some (Some (Found block off)) else if i < 0 then Some (Some Not_found)
         else if step_block N block \<noteq> start then find_loop E d fname N start (step_block N block) (ptr' + 1) mx' bse'
         else Some None)"
    apply (subst find_loop.simps)
    apply (unfold Let_def)
    apply (fold mx'_def bse'_def ptr'_def step_block_def)
    apply (unfold n)
    using a v by (auto split: prod.splits)
  have st: "in_step N start (step_block N block) (ptr' + 1) mx' bse'" if "step_block N block \<noteq> start"
    using that n b assms(5,6) by (auto simp: in_step_def step_block_def split: if_splits)
  from search_leaf [OF assms(2-4)] show ?thesis
  proof (elim disjE exE conjE)
    fix p assume "search_dirblock E (df_blocks d ! block) fname = (1, p)" "entry_at (df_blocks d ! block) offs fname p"
    then show ?thesis by (simp add: run)
  next
    fix p assume "search_dirblock E (df_blocks d ! block) fname = (0, p)" "\<forall>p. \<not> entry_at (df_blocks d ! block) offs fname p"
    then show ?thesis using st by (auto simp: run)
  qed
qed

lemma step_block_mod: "N > 0 \<Longrightarrow> step_block N ((start + j) mod N) = (start + Suc j) mod N"
  using mod_less_divisor [of N "start + j"] by (auto simp: step_block_def mod_Suc simp del: mod_less_divisor)

lemma step_block_start:
  assumes "start < N" "j < N"
  shows "(start + Suc j) mod N = start \<longleftrightarrow> Suc j = N"
proof (cases "start + Suc j < N")
  case True
  then show ?thesis using assms by auto
next
  case False
  then have "start + Suc j - N < N" using assms by simp
  then have "(start + Suc j) mod N = start + Suc j - N" using False by (simp add: le_mod_geq)
  then show ?thesis using False assms by auto
qed

lemma find_loop_ok:
  assumes "reads_ok E d" "names_ok E" "dir_blocks E d ofss" "fname \<noteq> []" "start < length ofss" "j < length ofss"
    and "in_step (length ofss) start ((start + j) mod length ofss) ptr mx bse"
  shows "(\<exists>b p. b < length ofss \<and> entry_at (df_blocks d ! b) (ofss ! b) fname p \<and>
      find_loop E d fname (length ofss) start ((start + j) mod length ofss) ptr mx bse = Some (Some (Found b p))) \<or>
    find_loop E d fname (length ofss) start ((start + j) mod length ofss) ptr mx bse = Some None \<and>
    (\<forall>i. j \<le> i \<and> i < length ofss \<longrightarrow> (\<forall>p. \<not> entry_at (df_blocks d ! ((start + i) mod length ofss)) (ofss ! ((start + i) mod length ofss)) fname p))"
  using assms(6,7)
proof (induction "length ofss - j" arbitrary: j ptr mx bse rule: less_induct)
  case less
  let ?N = "length ofss" and ?b = "(start + j) mod length ofss"
  have N: "0 < ?N" using less.prems(1) by (rule le_less_trans [OF le0])
  then have "?b < ?N" by simp
  then have N: "0 < ?N" "?b < ?N" "?N = length (df_blocks d)" "dir_leaf E (df_blocks d ! ?b) (ofss ! ?b)"
    using assms(3) N unfolding dir_blocks_def by blast+
  note st = find_loop_step [OF assms(1,2) N(4) assms(4) N(2) assms(5) eq_imp_le [OF N(3)] less.prems(2)]
  have nx: "step_block ?N ?b = (start + Suc j) mod ?N" using step_block_mod [OF N(1)] by simp
  note eq = step_block_start [OF assms(5) less.prems(1)]
  show ?case
  proof (cases "\<exists>p. entry_at (df_blocks d ! ?b) (ofss ! ?b) fname p")
    case True
    then show ?thesis using st N(2) by blast
  next
    case False
    then have s2: "if Suc j = ?N then find_loop E d fname ?N start ?b ptr mx bse = Some None
       else \<exists>ptr' mx' bse'. in_step ?N start ((start + Suc j) mod ?N) ptr' mx' bse' \<and>
         find_loop E d fname ?N start ?b ptr mx bse = find_loop E d fname ?N start ((start + Suc j) mod ?N) ptr' mx' bse'"
      using st unfolding nx eq by blast
    show ?thesis
    proof (cases "Suc j = ?N")
      case True
      then have "i = j" if "j \<le> i" "i < ?N" for i using that by linarith
      moreover have "find_loop E d fname ?N start ?b ptr mx bse = Some None" using s2 True by (simp only: if_True)
      ultimately show ?thesis using False by blast
    next
      case sj: False
      then have j: "Suc j < ?N" using less.prems(1) by simp
      obtain ptr' mx' bse' where s: "in_step ?N start ((start + Suc j) mod ?N) ptr' mx' bse'"
        "find_loop E d fname ?N start ?b ptr mx bse = find_loop E d fname ?N start ((start + Suc j) mod ?N) ptr' mx' bse'"
        using s2 sj by (simp only: if_False) blast
      have "?N - Suc j < ?N - j" using j by simp
      note IH = less.hyps [OF this j s(1)]
      have "(\<forall>i. j \<le> i \<and> i < ?N \<longrightarrow> Q i) \<longleftrightarrow> Q j \<and> (\<forall>i. Suc j \<le> i \<and> i < ?N \<longrightarrow> Q i)" for Q
        using less.prems(1) by (metis Suc_leD le_antisym le_refl not_less_eq_eq)
      then show ?thesis using IH False unfolding s(2) by simp
    qed
  qed
qed

lemma all_blocks_visited: "b < N \<Longrightarrow> start < N \<Longrightarrow> \<exists>i<N. (start + i) mod N = (b :: nat)"
proof -
  assume b: "b < N" "start < N"
  show ?thesis
  proof (cases "start \<le> b")
    case True
    then show ?thesis using b by (intro exI [of _ "b - start"]) simp
  next
    case False
    then have "(start + (N - start + b)) mod N = b" "N - start + b < N" using b by simp_all
    then show ?thesis by blast
  qed
qed

text \<open>
  In a directory without an index, whose blocks are well formed and can be read, \<open>ext4_find_entry\<close> ends; it finds an
  entry in use with the name if some block has one, wherever the search starts, and reports none otherwise. The buffer
  that the read-ahead hands out is at every step that of the block which is searched.
\<close>

lemma find_linear:
  assumes "reads_ok E d" "names_ok E" "dir_blocks E d ofss" "fname \<noteq> []" "fname \<noteq> [46]" "fname \<noteq> [46, 46]" "length fname \<le> 255"
    and "\<not> is_dx (dv_sb E) (df_inode d)" "0 < dv_blocksize E"
  shows "\<exists>r. ext4_find_entry E dx_find [] fname d = Some (r, note_start d r) \<and>
    (if fname \<in> snd ` set_mset (dir_entries d ofss)
     then \<exists>b p. r = Found b p \<and> b < length ofss \<and> entry_at (df_blocks d ! b) (ofss ! b) fname p
     else r = Not_found)"
proof -
  let ?N = "length ofss" and ?s = "unat (i_dir_start_lookup (df_inode d))"
  have size: "nat (i_size (df_inode d) div int (dv_blocksize E)) = ?N"
    using assms(3,9) by (simp add: dir_blocks_def)
  have mem: "fname \<in> snd ` set_mset (dir_entries d ofss) \<longleftrightarrow> (\<exists>b<?N. \<exists>p. entry_at (df_blocks d ! b) (ofss ! b) fname p)"
    unfolding entry_at_live by (auto simp: dir_entries_mem image_iff) (metis dir_entries_mem snd_conv)+
  show ?thesis
  proof (cases "?N = 0")
    case True
    then have "fname \<notin> snd ` set_mset (dir_entries d ofss)" unfolding mem by simp
    then show ?thesis using assms(4-8) True by (simp add: ext4_find_entry_def size Let_def note_start_def)
  next
    case False
    define start where "start = (if ?s \<ge> ?N then 0 else ?s)"
    have st: "start < ?N" "(start + 0) mod ?N = start" using False by (auto simp: start_def)
    have ins: "in_step ?N start ((start + 0) mod ?N) 0 0 0" by (simp add: in_step_def)
    define r where "r = (case find_loop E d fname ?N start start 0 0 0 of Some (Some r) \<Rightarrow> r | _ \<Rightarrow> Not_found)"
    from find_loop_ok [OF assms(1-4) st(1) _ ins]
    have l: "(\<exists>b p. b < ?N \<and> entry_at (df_blocks d ! b) (ofss ! b) fname p \<and> find_loop E d fname ?N start start 0 0 0 = Some (Some (Found b p))) \<or>
      find_loop E d fname ?N start start 0 0 0 = Some None \<and> (\<forall>b<?N. \<forall>p. \<not> entry_at (df_blocks d ! b) (ofss ! b) fname p)"
      using all_blocks_visited [OF _ st(1)] False unfolding st(2) by (metis le0 neq0_conv)
    then have "find_blocks E d fname ?N start [] = Some r" by (auto simp: find_blocks_def r_def)
    then have "ext4_find_entry E dx_find [] fname d = Some (r, note_start d r)"
      using assms(4-8) False by (simp add: ext4_find_entry_def size Let_def start_def)
    then show ?thesis using l unfolding mem by (auto simp: r_def)
  qed
qed

section \<open>Changing one block\<close>

lemma named_live: "named blk offs \<longleftrightarrow> (\<forall>e \<in> set (live blk offs). snd e \<noteq> [])"
  by (auto simp: named_def live_def de_name_def word_unat_eq_iff)

text \<open>A block whose entries have been changed is a good leaf again, once its checksum is set.\<close>

definition dv_ok :: "dir_env \<Rightarrow> bool" where
  "dv_ok E \<longleftrightarrow> 1024 \<le> dv_blocksize E \<and> dv_blocksize E < 2 ^ 16 \<and> dv_blocksize E mod 4 = 0"

definition tail_ok :: "dir_env \<Rightarrow> u8 list \<Rightarrow> bool" where
  "tail_ok E blk \<longleftrightarrow> (ext4_has_metadata_csum (dv_sb E) \<longrightarrow> get_dirent_tail (dv_sb E) blk \<noteq> None)"

abbreviation sealed :: "dir_env \<Rightarrow> inode \<Rightarrow> u8 list \<Rightarrow> bool" where
  "sealed E dir blk \<equiv> ext4_dirblock_csum_verify (dv_kernel E) (dv_sb E) dir blk"

abbreviation seal :: "dir_env \<Rightarrow> inode \<Rightarrow> u8 list \<Rightarrow> u8 list" where
  "seal E dir blk \<equiv> ext4_dirblock_csum_set (dv_kernel E) (dv_sb E) dir blk"

lemma sealed_tail: "sealed E dir blk \<Longrightarrow> tail_ok E blk"
  by (auto simp: tail_ok_def ext4_dirblock_csum_verify_def split: option.splits)

lemma sealed_cong: "i_csum_seed i = i_csum_seed j \<Longrightarrow> sealed E i blk = sealed E j blk"
  by (simp add: ext4_dirblock_csum_verify_def ext4_dirblock_csum_def split: option.splits)

lemma csum_size_cases: "dv_csum_size E = 0 \<and> \<not> ext4_has_metadata_csum (dv_sb E) \<or> dv_csum_size E = 12 \<and> ext4_has_metadata_csum (dv_sb E)"
  by (simp add: dv_csum_size_def csum_size_of_def)

lemma tail_ok_cong:
  assumes "dv_ok E" "tail_ok E blk" "\<And>i. dv_blocksize E - dv_csum_size E \<le> i \<Longrightarrow> i < dv_blocksize E \<Longrightarrow> blk' ! i = blk ! i"
  shows "tail_ok E blk'"
  using csum_size_cases [of E] assms
  by (auto simp: tail_ok_def get_dirent_tail_def EXT4_DIRENT_TAIL_def Let_def de_defs rlen_at_16 dv_blocksize_def [symmetric] dv_ok_def split: if_splits)

lemma tail_ok_tailed:
  assumes "dv_ok E" "tail_ok E blk" "length blk = dv_blocksize E"
  shows "tailed (dv_blocksize E) (dv_blocksize E - dv_csum_size E) blk"
  using csum_size_cases [of E] assms
  by (auto simp: tail_ok_def tailed_def get_dirent_tail_def EXT4_DIRENT_TAIL_def Let_def dv_blocksize_def [symmetric] dv_ok_def split: if_splits)

lemma csum_leaf:
  fixes dir
  assumes "dv_ok E" "length blk = dv_blocksize E" "chain (dv_hashed E) blk 0 (dv_blocksize E - dv_csum_size E) offs"
    and "named blk offs" "tail_ok E blk"
  shows "dir_leaf E (seal E dir blk) offs" "live (seal E dir blk) offs = live blk offs" "sealed E dir (seal E dir blk)"
proof -
  let ?b = "seal E dir blk"
  have f: "block_fits (dv_sb E) blk" using assms(1,2) by (simp add: block_fits_def dv_ok_def dv_blocksize_def)
  have c: "chain (dv_hashed E) blk 0 (length blk - csum_size_of (dv_sb E)) offs" using assms(2,3) by (simp add: dv_csum_size_def)
  have ne: "offs \<noteq> []" using assms(1,3) csum_size_cases [of E] by (auto simp: dv_ok_def)
  note s = csum_set_entries [OF f c ne, where K = "dv_kernel E" and dir = dir]
  show sl: "sealed E dir ?b" by (rule dirblock_csum_verifies [OF f]) (use assms(5) in \<open>simp add: tail_ok_def\<close>)
  have "tailed (dv_blocksize E) (dv_blocksize E - dv_csum_size E) ?b"
    by (rule tail_ok_tailed [OF assms(1) sealed_tail [OF sl]]) (use s(1) assms(2) in simp)
  then show "dir_leaf E ?b offs"
    using s assms(1,2,4) csum_size_cases [of E] by (auto simp: dir_leaf_def leaf_block_def dv_ok_def dv_csum_size_def named_live)
  show "live ?b offs = live blk offs" by (rule s(3))
qed

lemma insert_leaf:
  assumes "dv_ok E" "dir_leaf E blk offs" "tail_ok E blk" "p \<in> set offs" "room (dv_hashed E) blk p (need (dv_hashed E) fname)"
    and "ino \<noteq> 0" "fname \<noteq> []" "length fname \<le> 255"
  shows "\<exists>b offs'. seal E dir (ext4_insert_dentry (dv_hashed E) ft mode ino fname p blk) = b \<and> dir_leaf E b offs' \<and> sealed E dir b \<and>
    mset (live b offs') = add_mset (ino, fname) (mset (live blk offs))"
proof -
  let ?lim = "dv_blocksize E - dv_csum_size E" and ?b = "ext4_insert_dentry (dv_hashed E) ft mode ino fname p blk"
  have l: "chain (dv_hashed E) blk 0 ?lim offs" "named blk offs" "length blk = dv_blocksize E"
    using assms(2) by (auto simp: dir_leaf_def leaf_block_def)
  note i = insert_at [OF l(1) assms(4) assms(5) [unfolded need_def] assms(6,8), where ft = ft and mode = mode]
  obtain offs' where o: "chain (dv_hashed E) ?b 0 ?lim offs'" "length ?b = length blk" "mset (live ?b offs') = add_mset (ino, fname) (mset (live blk offs))"
    using i(1) by blast
  have "set (live ?b offs') = insert (ino, fname) (set (live blk offs))" using arg_cong [where f = set_mset, OF o(3)] by simp
  then have nm: "named ?b offs'" using l(2) assms(7) by (auto simp: named_live)
  have t: "tail_ok E ?b" by (rule tail_ok_cong [OF assms(1,3)]) (use i(2) l(3) in simp)
  show ?thesis using csum_leaf [OF assms(1) _ o(1) nm t, where dir = dir] o(2,3) l(3) by (metis)
qed

lemma delete_leaf:
  assumes "dv_ok E" "names_ok E" "dir_leaf E blk offs" "tail_ok E blk" "entry_at blk offs fname p"
  shows "\<exists>b. ext4_generic_delete_entry (dv_check E) p blk (dv_blocksize E) (dv_csum_size E) = Some (0, b) \<and>
    (\<exists>offs'. dir_leaf E (seal E dir b) offs' \<and> sealed E dir (seal E dir b) \<and>
      mset (live blk offs) = add_mset (de_inode blk p, fname) (mset (live (seal E dir b) offs')))"
proof -
  let ?lim = "dv_blocksize E - dv_csum_size E"
  have l: "chain (dv_hashed E) blk 0 ?lim offs" "named blk offs" "length blk = dv_blocksize E"
    using assms(3) by (auto simp: dir_leaf_def leaf_block_def)
  have p: "p \<in> set offs" "de_inode blk p \<noteq> 0" "de_name blk p = fname" using assms(5) by (auto simp: entry_at_def)
  have "?lim < 2 ^ 16" using assms(1) by (auto simp: dv_ok_def intro: le_less_trans [OF diff_le_self])
  moreover have ck: "\<And>p. entry_ok (dv_hashed E) blk p ?lim \<Longrightarrow> \<not> dv_check E blk p" using assms(2) by (simp add: names_ok_def)
  ultimately obtain b offs' where b: "ext4_generic_delete_entry (dv_check E) p blk (dv_blocksize E) (dv_csum_size E) = Some (0, b)"
    "length b = length blk" "chain (dv_hashed E) b 0 ?lim offs'" "mset (live blk offs) = add_mset (de_inode blk p, fname) (mset (live b offs'))"
    "\<forall>i. ?lim \<le> i \<and> i < length blk \<longrightarrow> b ! i = blk ! i"
    using delete_at [where check = "dv_check E", OF _ l(1) p(1,2) refl] p(3) by blast
  have "set (live blk offs) = insert (de_inode blk p, fname) (set (live b offs'))" using arg_cong [where f = set_mset, OF b(4)] by simp
  then have nm: "named b offs'" using l(2) by (auto simp: named_live)
  have t: "tail_ok E b" by (rule tail_ok_cong [OF assms(1,4)]) (use b(5) l(3) in simp)
  from csum_leaf [OF assms(1) _ b(3) nm t, where dir = dir] show ?thesis using b(1,2,4) l(3) by auto
qed

lemma fresh_leaf:
  assumes "dv_ok E" "length blk = dv_blocksize E"
  shows "dir_leaf E (fresh_block E blk) [0]" "live (fresh_block E blk) [0] = []" "tail_ok E (fresh_block E blk)"
    "rlen_at (fresh_block E blk) 0 = dv_blocksize E - dv_csum_size E"
proof -
  let ?lim = "dv_blocksize E - dv_csum_size E"
  define b1 where "b1 = put 4 (le16 (of_nat ?lim)) (put 0 (le32 0) blk)"
  define b where "b = fresh_block E blk"
  have bs: "1024 \<le> dv_blocksize E" "dv_blocksize E < 2 ^ 16" "dv_blocksize E mod 4 = 0" using assms(1) by (simp_all add: dv_ok_def)
  have b_eq: "b = (if dv_csum_size E \<noteq> 0 then ext4_initialize_dirent_tail (length b1) b1 else b1)"
    using assms(2) bs by (simp add: b_def b1_def fresh_block_def Let_def)
  have l1: "length b1 = dv_blocksize E" using assms(2) bs by (simp add: b1_def)
  have f1: "block_fits (dv_sb E) b1" using l1 bs by (simp add: block_fits_def dv_blocksize_def)
  have len: "length b = dv_blocksize E" using initialized_tail(2) [OF f1] l1 by (simp add: b_eq block_fits_def dv_blocksize_def)
  have n: "b ! i = b1 ! i" if "i < ?lim" for i
    using that initialized_tail(3) [OF f1] csum_size_cases [of E] l1 by (auto simp: b_eq)
  have lim: "8 \<le> ?lim" "?lim \<le> dv_blocksize E" "276 \<le> ?lim" "?lim mod 4 = 0" using bs csum_size_cases [of E] by (auto simp: mod_eq_0_iff_dvd)
  have "rlen_at b1 0 = ?lim" unfolding b1_def using bs assms(2) by (intro rec_len_put [where off = 0, simplified]) auto
  then show rl: "rlen_at (fresh_block E blk) 0 = ?lim" using n lim by (simp add: rlen_at_16 de_rec_len_def flip: b_def)
  have i0: "de_inode b 0 = 0" using n lim assms(2) bs by (simp add: de_inode_def b1_def nth_put le32_def)
  show "live (fresh_block E blk) [0] = []" using i0 by (simp add: live_def flip: b_def)
  show t: "tail_ok E (fresh_block E blk)"
    using initialized_tail(1) [OF f1] csum_size_cases [of E] by (auto simp: tail_ok_def b_eq simp flip: b_def)
  have "nlen_at (dv_hashed E) b 0 \<le> 276" using unsigned_less [of "de_name_len b 0", where 'a = nat] by (auto simp: nlen_at_def ext4_dir_rec_len_unat)
  then have "entry_ok (dv_hashed E) b 0 ?lim" using rl lim len by (simp add: entry_ok_def flip: b_def)
  then have "chain (dv_hashed E) b 0 ?lim [0]" using rl by (simp flip: b_def)
  then show "dir_leaf E (fresh_block E blk) [0]"
    using tail_ok_tailed [OF assms(1) t] len i0 bs csum_size_cases [of E]
    by (auto simp: dir_leaf_def leaf_block_def named_def b_def simp flip: b_def)
qed

lemma entries_update:
  assumes "length ofss = length (df_blocks d)" "n < length ofss"
  shows "dir_entries \<lparr>df_inode = i, df_blocks = (df_blocks d)[n := b]\<rparr> (ofss[n := offs]) + mset (live (df_blocks d ! n) (ofss ! n)) =
    dir_entries d ofss + mset (live b offs)"
proof -
  let ?f = "\<lambda>k. mset (live (df_blocks d ! k) (ofss ! k))" and ?g = "\<lambda>k. mset (live ((df_blocks d)[n := b] ! k) (ofss[n := offs] ! k))"
  have "sum ?g ({..<length ofss} - {n}) = sum ?f ({..<length ofss} - {n})" by (rule sum.cong) auto
  moreover have "sum ?f {..<length ofss} = ?f n + sum ?f ({..<length ofss} - {n})" "sum ?g {..<length ofss} = ?g n + sum ?g ({..<length ofss} - {n})"
    by (rule sum.remove; use assms(2) in simp)+
  ultimately show ?thesis using assms by (simp add: dir_entries_def add.commute add.left_commute)
qed

lemma blocks_update:
  assumes "dir_blocks E d ofss" "dir_leaf E b offs" "n < length ofss" "i_size i = i_size (df_inode d)" "i_blkbits i = i_blkbits (df_inode d)"
  shows "dir_blocks E \<lparr>df_inode = i, df_blocks = (df_blocks d)[n := b]\<rparr> (ofss[n := offs])"
  using assms by (auto simp: dir_blocks_def nth_list_update)

section \<open>Directories without an index\<close>

text \<open>The calls succeed and there is no limit on the size of a directory.\<close>

definition calls_ok :: "dir_env \<Rightarrow> bool" where
  "calls_ok E \<longleftrightarrow> (\<forall>n. dv_answer E (Dir_buffer n) > 0 \<and> dv_answer E (Dir_bread n) > 0 \<and> dv_answer E (Dir_create n) > 0 \<and>
       dv_answer E (Dir_map_blocks n) = 0 \<and> dv_answer E (Dir_access n) = 0 \<and> dv_answer E (Dir_dirty n) = 0) \<and>
     (\<forall>n m. dv_answer E (Dir_batch n m) = 0) \<and> dv_answer E Dir_mark_dirty = 0 \<and> dv_max_dir_size_kb E = 0"

text \<open>
  A directory of well-formed blocks whose checksums verify, without an index. With the feature \<open>dir_index\<close> it has more than one
  block, since the first block that is full is turned into an index.
\<close>

definition dir_inv :: "dir_env \<Rightarrow> dirfile \<Rightarrow> nat list list \<Rightarrow> bool" where
  "dir_inv E d ofss \<longleftrightarrow> dir_blocks E d ofss \<and> (\<forall>n < length ofss. sealed E (df_inode d) (df_blocks d ! n)) \<and>
     \<not> is_dx (dv_sb E) (df_inode d) \<and> (ext4_has_feature_dir_index (dv_sb E) \<longrightarrow> 2 \<le> length ofss)"

definition dir_holds :: "dir_env \<Rightarrow> dirfile \<Rightarrow> (u32 \<times> u8 list) multiset \<Rightarrow> bool" where
  "dir_holds E d M \<longleftrightarrow> (\<exists>ofss. dir_inv E d ofss \<and> dir_entries d ofss = M)"

lemma dir_inv_reads: "calls_ok E \<Longrightarrow> dir_inv E d ofss \<Longrightarrow> reads_ok E d"
  by (auto simp: calls_ok_def dir_inv_def reads_ok_def dir_blocks_def)

lemma dir_inv_leaf:
  assumes "dir_inv E d ofss" "n < length ofss"
  shows "dir_leaf E (df_blocks d ! n) (ofss ! n)" "sealed E (df_inode d) (df_blocks d ! n)" "tail_ok E (df_blocks d ! n)"
  using assms sealed_tail by (auto simp: dir_inv_def dir_blocks_def)

text \<open>The fields of the inode on which the invariant depends.\<close>

definition same_dir :: "inode \<Rightarrow> inode \<Rightarrow> bool" where
  "same_dir i j \<longleftrightarrow> i_size i = i_size j \<and> i_blkbits i = i_blkbits j \<and> i_csum_seed i = i_csum_seed j \<and>
     (i_flags j AND EXT4_INDEX_FL = 0 \<longrightarrow> i_flags i AND EXT4_INDEX_FL = 0)"

text \<open>The block that is about to be written need not have its checksum yet.\<close>

definition dir_pre :: "dir_env \<Rightarrow> dirfile \<Rightarrow> nat list list \<Rightarrow> nat \<Rightarrow> bool" where
  "dir_pre E d ofss n \<longleftrightarrow> dir_blocks E d ofss \<and> (\<forall>k < length ofss. k \<noteq> n \<longrightarrow> sealed E (df_inode d) (df_blocks d ! k)) \<and> n < length ofss \<and>
     tail_ok E (df_blocks d ! n) \<and> \<not> is_dx (dv_sb E) (df_inode d) \<and> (ext4_has_feature_dir_index (dv_sb E) \<longrightarrow> 2 \<le> length ofss)"

lemma dir_inv_pre: "dir_inv E d ofss \<Longrightarrow> n < length ofss \<Longrightarrow> dir_pre E d ofss n"
  using sealed_tail by (auto simp: dir_inv_def dir_pre_def)

lemma dir_inv_update:
  assumes "dir_pre E d ofss n" "same_dir i (df_inode d)" "dir_leaf E b offs" "sealed E i b"
  shows "dir_inv E \<lparr>df_inode = i, df_blocks = (df_blocks d)[n := b]\<rparr> (ofss[n := offs])"
proof -
  have s: "i_size i = i_size (df_inode d)" "i_blkbits i = i_blkbits (df_inode d)" "i_csum_seed i = i_csum_seed (df_inode d)"
    using assms(2) by (simp_all add: same_dir_def)
  have "dir_blocks E \<lparr>df_inode = i, df_blocks = (df_blocks d)[n := b]\<rparr> (ofss[n := offs])"
    using assms(1) by (intro blocks_update [OF _ assms(3) _ s(1,2)]) (simp_all add: dir_pre_def)
  then show ?thesis using assms sealed_cong [OF s(3), of E] by (auto simp: dir_inv_def dir_pre_def is_dx_def same_dir_def dir_blocks_def nth_list_update)
qed

lemma insert_into_leaf:
  assumes "dv_ok E" "calls_ok E" "dir_leaf E (df_blocks d ! n) offs" "tail_ok E (df_blocks d ! n)" "p \<in> set offs"
    and "room (dv_hashed E) (df_blocks d ! n) p (need (dv_hashed E) (ne_name ne))" "ne_ino ne \<noteq> 0" "ne_name ne \<noteq> []" "length (ne_name ne) \<le> 255"
  shows "\<exists>i b offs'. insert_into E ne p n d = (0, \<lparr>df_inode = i, df_blocks = (df_blocks d)[n := b]\<rparr>) \<and> same_dir i (df_inode d) \<and>
    dir_leaf E b offs' \<and> sealed E i b \<and> mset (live b offs') = add_mset (ne_ino ne, ne_name ne) (mset (live (df_blocks d ! n) offs))"
proof -
  define i where "i = (let inode = ext4_update_dx_flag (dv_sb E) ((df_inode d)\<lparr>i_ctime := dv_now E, i_mtime := dv_now E\<rparr>)
    in inode\<lparr>i_version := i_version inode + 1\<rparr>)"
  define b where "b = seal E i (ext4_insert_dentry (dv_hashed E) (ext4_has_feature_filetype (dv_sb E)) (ne_mode ne) (ne_ino ne) (ne_name ne) p (df_blocks d ! n))"
  have sd: "same_dir i (df_inode d)" by (auto simp: i_def same_dir_def ext4_update_dx_flag_def Let_def)
  have run: "insert_into E ne p n d = (0, \<lparr>df_inode = i, df_blocks = (df_blocks d)[n := b]\<rparr>)"
    using assms(2) by (simp add: insert_into_def Let_def calls_ok_def i_def b_def)
  obtain offs' where "dir_leaf E b offs'" "sealed E i b" "mset (live b offs') = add_mset (ne_ino ne, ne_name ne) (mset (live (df_blocks d ! n) offs))"
    using insert_leaf [OF assms(1,3-9)] b_def by blast
  then show ?thesis using run sd by blast
qed

lemma insert_into_ok:
  assumes "dv_ok E" "calls_ok E" "dir_pre E d ofss n" "p \<in> set (ofss ! n)"
    and "room (dv_hashed E) (df_blocks d ! n) p (need (dv_hashed E) (ne_name ne))" "ne_ino ne \<noteq> 0" "ne_name ne \<noteq> []" "length (ne_name ne) \<le> 255"
  shows "\<exists>d'. insert_into E ne p n d = (0, d') \<and> dir_holds E d' (add_mset (ne_ino ne, ne_name ne) (dir_entries d ofss))"
proof -
  have l: "dir_leaf E (df_blocks d ! n) (ofss ! n)" "tail_ok E (df_blocks d ! n)" "n < length ofss" "length ofss = length (df_blocks d)"
    using assms(3) by (auto simp: dir_pre_def dir_blocks_def)
  obtain i b offs' where o: "insert_into E ne p n d = (0, \<lparr>df_inode = i, df_blocks = (df_blocks d)[n := b]\<rparr>)" "same_dir i (df_inode d)"
    "dir_leaf E b offs'" "sealed E i b" "mset (live b offs') = add_mset (ne_ino ne, ne_name ne) (mset (live (df_blocks d ! n) (ofss ! n)))"
    using insert_into_leaf [OF assms(1,2) l(1,2) assms(4-8)] by blast
  note inv = dir_inv_update [OF assms(3) o(2-4)]
  have "dir_entries \<lparr>df_inode = i, df_blocks = (df_blocks d)[n := b]\<rparr> (ofss[n := offs']) = add_mset (ne_ino ne, ne_name ne) (dir_entries d ofss)"
    using entries_update [of ofss d n i b offs'] l(3,4) o(5) by simp
  then show ?thesis using o(1) inv by (auto simp: dir_holds_def)
qed

lemma find_dest_leaf:
  assumes "names_ok E" "dir_leaf E blk offs"
  shows "\<exists>r. ext4_find_dest_de (dv_match E) (dv_check E) (dv_hashed E) blk (dv_blocksize E - dv_csum_size E) fname = Some r \<and>
    (case r of Inr p \<Rightarrow> p \<in> set offs \<and> room (dv_hashed E) blk p (need (dv_hashed E) fname)
     | Inl e \<Rightarrow> e = - EEXIST \<and> (\<exists>p. entry_at blk offs fname p) \<or>
         e = - ENOSPC \<and> (\<forall>p \<in> set offs. \<not> room (dv_hashed E) blk p (need (dv_hashed E) fname)))"
proof -
  have c: "chain (dv_hashed E) blk 0 (dv_blocksize E - dv_csum_size E) offs" using assms(2) by (auto simp: dir_leaf_def leaf_block_def)
  have m: "ext4_match (dv_match E) fname blk p \<longleftrightarrow> de_inode blk p \<noteq> 0 \<and> de_name blk p = fname" for p
    using assms(1) by (auto simp: ext4_match_def names_ok_def)
  have n: "0 < need (dv_hashed E) fname" by (simp add: need_def ext4_dir_rec_len_unat)
  from find_dest_loop_ok [where check = "dv_check E", OF _ c n, of "dv_match E" fname] assms(1)
  obtain r where "ext4_find_dest_de (dv_match E) (dv_check E) (dv_hashed E) blk (dv_blocksize E - dv_csum_size E) fname = Some r"
    "case r of Inr p \<Rightarrow> p \<in> set offs \<and> room (dv_hashed E) blk p (need (dv_hashed E) fname)
     | Inl e \<Rightarrow> e = - EEXIST \<and> (\<exists>p \<in> set offs. ext4_match (dv_match E) fname blk p) \<or>
         e = - ENOSPC \<and> (\<forall>p \<in> set offs. \<not> room (dv_hashed E) blk p (need (dv_hashed E) fname))"
    by (auto simp: ext4_find_dest_de_def need_def names_ok_def)
  then show ?thesis by (intro exI [of _ r]) (auto simp: m entry_at_def split: sum.splits)
qed

lemma read_dirent:
  assumes "calls_ok E" "dir_inv E d ofss" "n < length ofss" "dv_ok E"
  shows "ext4_read_dirblock E d n DIRENT = Inr (Some (df_blocks d ! n))"
proof -
  have "i_size (df_inode d) = int (dv_blocksize E) * int (length ofss)" "2 ^ i_blkbits (df_inode d) = int (dv_blocksize E)" "0 < dv_blocksize E"
    using assms by (simp_all add: dir_inv_def dir_blocks_def dv_ok_def)
  then have "int n < i_size (df_inode d) div 2 ^ i_blkbits (df_inode d)" using assms(3) by (simp only:) simp
  moreover have "\<not> is_dx (dv_sb E) (df_inode d)" using assms(2) by (simp add: dir_inv_def)
  moreover have "0 < dv_answer E (Dir_bread n)" using assms(1) by (simp add: calls_ok_def)
  ultimately show ?thesis using dir_inv_leaf(2) [OF assms(2,3)] by (simp add: ext4_read_dirblock_def Let_def)
qed

lemma need_small: "length fname \<le> 255 \<Longrightarrow> need h fname \<le> 276"
  by (simp add: need_def ext4_dir_rec_len_unat unat_of_nat take_bit_nat_eq_self) linarith

lemma append_ok:
  assumes "dv_ok E" "calls_ok E" "dir_inv E d ofss" "length new = dv_blocksize E"
    and "ne_ino ne \<noteq> 0" "ne_name ne \<noteq> []" "length (ne_name ne) \<le> 255"
  shows "\<exists>d' d''. ext4_append E new d = (Inr (length ofss), d') \<and> add_to_new_block E ne (length ofss) d' = Some (0, d'') \<and>
    dir_holds E d'' (add_mset (ne_ino ne, ne_name ne) (dir_entries d ofss))"
proof -
  let ?n = "length ofss"
  define i where "i = (df_inode d)\<lparr>i_size := i_size (df_inode d) + int (dv_blocksize E), i_disksize := i_size (df_inode d) + int (dv_blocksize E)\<rparr>"
  define d' where "d' = \<lparr>df_inode = i, df_blocks = df_blocks d @ [new]\<rparr>"
  define d1 where "d1 = d'\<lparr>df_blocks := (df_blocks d')[?n := fresh_block E (df_blocks d' ! ?n)]\<rparr>"
  have db: "dir_blocks E d ofss" "length (df_blocks d) = ?n" using assms(3) by (auto simp: dir_inv_def dir_blocks_def)
  have bs: "0 < dv_blocksize E" using assms(1) by (simp add: dv_ok_def)
  have n: "nat (i_size (df_inode d) div int (dv_blocksize E)) = ?n" using db bs by (simp add: dir_blocks_def)
  have cr: "\<not> dv_answer E (Dir_create ?n) < 0" using assms(2) unfolding calls_ok_def by (meson not_less_iff_gr_or_eq)
  have ap: "ext4_append E new d = (Inr ?n, d')" using assms(2) cr by (simp add: ext4_append_def Let_def calls_ok_def n d'_def i_def)
  have d1: "d1 = \<lparr>df_inode = i, df_blocks = df_blocks d @ [fresh_block E new]\<rparr>" using db(2) [symmetric] by (simp add: d1_def d'_def nth_append list_update_append)
  note fr = fresh_leaf [OF assms(1,4)]
  have nth: "(df_blocks d @ [fresh_block E new]) ! k = (if k < ?n then df_blocks d ! k else fresh_block E new)" "(ofss @ [[0]]) ! k = (if k < ?n then ofss ! k else [0])"
    if "k < Suc ?n" for k using that db by (auto simp: nth_append less_Suc_eq)
  have "dir_blocks E d1 (ofss @ [[0]])" using db fr(1) bs by (auto simp: dir_blocks_def d1 nth i_def algebra_simps)
  moreover have "sealed E i (df_blocks d ! k)" if "k < ?n" for k
    using dir_inv_leaf(2) [OF assms(3) that] sealed_cong [of i "df_inode d" E] by (simp add: i_def)
  moreover have "\<not> is_dx (dv_sb E) i" "ext4_has_feature_dir_index (dv_sb E) \<longrightarrow> 2 \<le> ?n" using assms(3) by (auto simp: dir_inv_def is_dx_def i_def)
  ultimately have pre: "dir_pre E d1 (ofss @ [[0]]) ?n" using fr(3) by (auto simp: dir_pre_def d1 nth less_Suc_eq)
  have en: "dir_entries d1 (ofss @ [[0]]) = dir_entries d ofss" using fr(2) by (auto simp: dir_entries_def d1 nth lessThan_Suc simp del: live_simps intro!: sum.cong)
  have "need (dv_hashed E) (ne_name ne) \<le> dv_blocksize E - dv_csum_size E"
    using need_small [OF assms(7), of "dv_hashed E"] assms(1) csum_size_cases [of E] by (auto simp: dv_ok_def)
  moreover have "de_inode (fresh_block E new) 0 = 0" using fr(2) by (simp add: live_def split: if_splits)
  ultimately have "room (dv_hashed E) (df_blocks d1 ! ?n) 0 (need (dv_hashed E) (ne_name ne))" using fr(4) by (simp add: room_def d1 nth)
  from insert_into_ok [OF assms(1,2) pre _ this assms(5-7)] obtain d'' where
    "insert_into E ne 0 ?n d1 = (0, d'')" "dir_holds E d'' (add_mset (ne_ino ne, ne_name ne) (dir_entries d ofss))" by (auto simp: en)
  then show ?thesis using ap by (auto simp: add_to_new_block_def add_dirent_to_buf_def d1_def)
qed

lemma add_loop_ok:
  assumes "dv_ok E" "calls_ok E" "names_ok E" "dir_inv E d ofss" "length new = dv_blocksize E"
    and "ne_ino ne \<noteq> 0" "ne_name ne \<noteq> []" "length (ne_name ne) \<le> 255" "block + left = length ofss"
  shows "\<exists>r d'. add_entry_loop E mi False new ne left block d = Some (r, d') \<and>
    (r = - EEXIST \<and> d' = d \<and> ne_name ne \<in> snd ` set_mset (dir_entries d ofss) \<or>
     r = 0 \<and> dir_holds E d' (add_mset (ne_ino ne, ne_name ne) (dir_entries d ofss)))"
  using assms(9)
proof (induction left arbitrary: block)
  case 0
  from append_ok [OF assms(1,2,4-8)] show ?case by auto
next
  case (Suc left)
  let ?blk = "df_blocks d ! block"
  have b: "block < length ofss" "block + 1 + left = length ofss" using Suc.prems by simp_all
  note rd = read_dirent [OF assms(2,4) b(1) assms(1)]
  obtain r where r: "ext4_find_dest_de (dv_match E) (dv_check E) (dv_hashed E) ?blk (dv_blocksize E - dv_csum_size E) (ne_name ne) = Some r"
    "case r of Inr p \<Rightarrow> p \<in> set (ofss ! block) \<and> room (dv_hashed E) ?blk p (need (dv_hashed E) (ne_name ne))
     | Inl e \<Rightarrow> e = - EEXIST \<and> (\<exists>p. entry_at ?blk (ofss ! block) (ne_name ne) p) \<or>
         e = - ENOSPC \<and> (\<forall>p \<in> set (ofss ! block). \<not> room (dv_hashed E) ?blk p (need (dv_hashed E) (ne_name ne)))"
    using find_dest_leaf [OF assms(3) dir_inv_leaf(1) [OF assms(4) b(1)], of "ne_name ne"] by (elim exE conjE)
  show ?case
  proof (cases r)
    case (Inr p)
    then have "p \<in> set (ofss ! block)" "room (dv_hashed E) ?blk p (need (dv_hashed E) (ne_name ne))" using r(2) by simp_all
    from insert_into_ok [OF assms(1,2) dir_inv_pre [OF assms(4) b(1)] this assms(6-8)] obtain d' where
      d': "insert_into E ne p block d = (0, d')" "dir_holds E d' (add_mset (ne_ino ne, ne_name ne) (dir_entries d ofss))" by blast
    then have "add_entry_loop E mi False new ne (Suc left) block d = Some (0, d')"
      using r(1) Inr by (simp add: rd add_dirent_to_buf_def)
    then show ?thesis using d'(2) by blast
  next
    case (Inl e)
    then have a: "add_dirent_to_buf E ne None block d = Some (e, d)" using r(1) by (simp add: add_dirent_to_buf_def)
    show ?thesis
    proof (cases "e = - ENOSPC")
      case True
      then show ?thesis using Suc.IH [OF b(2)] a by (simp add: rd)
    next
      case False
      then have e: "e = - EEXIST" "\<exists>p. entry_at ?blk (ofss ! block) (ne_name ne) p" using r(2) Inl by auto
      then have "ne_name ne \<in> snd ` set_mset (dir_entries d ofss)"
        using b(1) unfolding entry_at_live by (auto simp: dir_entries_mem image_iff) (metis dir_entries_mem snd_conv)
      then show ?thesis using a False e(1) by (simp add: rd)
    qed
  qed
qed

lemma add_linear:
  assumes "dv_ok E" "calls_ok E" "names_ok E" "dir_holds E d M" "length new = dv_blocksize E"
    and "ne_ino ne \<noteq> 0" "ne_name ne \<noteq> []" "length (ne_name ne) \<le> 255"
  shows "\<exists>r d'. ext4_add_entry E mi dx_add new ne d = Some (r, d') \<and>
    (r = - EEXIST \<and> d' = d \<and> ne_name ne \<in> snd ` set_mset M \<or> r = 0 \<and> dir_holds E d' (add_mset (ne_ino ne, ne_name ne) M))"
proof -
  obtain ofss where o: "dir_inv E d ofss" "dir_entries d ofss = M" using assms(4) by (auto simp: dir_holds_def)
  have n: "nat (i_size (df_inode d) div int (dv_blocksize E)) = length ofss" "\<not> is_dx (dv_sb E) (df_inode d)"
      "\<not> (length ofss = 1 \<and> ext4_has_feature_dir_index (dv_sb E))"
    using o(1) assms(1) by (auto simp: dir_inv_def dir_blocks_def dv_ok_def)
  then have "(length ofss = 1 \<and> ext4_has_feature_dir_index (dv_sb E)) = False" by blast
  then have "ext4_add_entry E mi dx_add new ne d = add_entry_loop E mi False new ne (length ofss) 0 d"
    using n(1,2) by (simp only: ext4_add_entry_def Let_def if_False)
  then show ?thesis using add_loop_ok [OF assms(1-3) o(1) assms(5-8), of 0 "length ofss" mi] o(2) by simp
qed

lemma chain_unique: "chain h blk off lim xs \<Longrightarrow> chain h blk off lim ys \<Longrightarrow> xs = ys"
proof (induction xs arbitrary: off ys rule: list.induct)
  case Nil
  have "\<not> entry_ok h blk lim lim" using rlen_ge_8 [of h blk lim lim] unfolding entry_ok_def by linarith
  then show ?case using Nil by (cases ys) auto
next
  case (Cons x xs)
  have "\<not> entry_ok h blk lim lim" using rlen_ge_8 [of h blk lim lim] unfolding entry_ok_def by linarith
  then show ?case using Cons by (cases ys) auto
qed

lemma dir_inv_unique: "dir_inv E d xs \<Longrightarrow> dir_inv E d ys \<Longrightarrow> xs = ys"
  by (rule nth_equalityI) (simp_all add: dir_inv_def dir_blocks_def dir_leaf_def leaf_block_def, metis chain_unique)

text \<open>The entry that a search has found.\<close>

definition found_at :: "dir_env \<Rightarrow> dirfile \<Rightarrow> nat \<times> nat \<Rightarrow> u32 \<Rightarrow> u8 list \<Rightarrow> bool" where
  "found_at E d h ino fname \<longleftrightarrow> (case h of (n, p) \<Rightarrow> \<exists>ofss. dir_inv E d ofss \<and> n < length ofss \<and>
     entry_at (df_blocks d ! n) (ofss ! n) fname p \<and> de_inode (df_blocks d ! n) p = ino)"

lemma delete_linear:
  assumes "dv_ok E" "calls_ok E" "names_ok E" "dir_holds E d M" "found_at E d (n, p) ino fname"
  shows "\<exists>d' M'. ext4_delete_entry E n p d = Some (0, d') \<and> M = add_mset (ino, fname) M' \<and> dir_holds E d' M'"
proof -
  obtain ofss where o: "dir_inv E d ofss" "dir_entries d ofss = M" "n < length ofss" "entry_at (df_blocks d ! n) (ofss ! n) fname p"
      "de_inode (df_blocks d ! n) p = ino"
    using assms(4,5) dir_inv_unique [of E d] unfolding dir_holds_def found_at_def prod.case by metis
  define i where "i = (df_inode d)\<lparr>i_version := i_version (df_inode d) + 1\<rparr>"
  have sd: "same_dir i (df_inode d)" by (simp add: i_def same_dir_def)
  obtain b offs' where b: "ext4_generic_delete_entry (dv_check E) p (df_blocks d ! n) (dv_blocksize E) (dv_csum_size E) = Some (0, b)"
    "dir_leaf E (seal E i b) offs'" "sealed E i (seal E i b)"
    "mset (live (df_blocks d ! n) (ofss ! n)) = add_mset (ino, fname) (mset (live (seal E i b) offs'))"
    using delete_leaf [OF assms(1,3) dir_inv_leaf(1,3) [OF o(1,3)] o(4)] o(5) by blast
  let ?d = "\<lparr>df_inode = i, df_blocks = (df_blocks d)[n := seal E i b]\<rparr>"
  have run: "ext4_delete_entry E n p d = Some (0, ?d)"
    using assms(2) b(1) by (simp add: ext4_delete_entry_def Let_def calls_ok_def i_def)
  have inv: "dir_inv E ?d (ofss[n := offs'])" by (rule dir_inv_update [OF dir_inv_pre [OF o(1,3)] sd b(2,3)])
  have "length ofss = length (df_blocks d)" using o(1) by (simp add: dir_inv_def dir_blocks_def)
  from entries_update [OF this o(3), of i "seal E i b" offs'] b(4) o(2) have "M = add_mset (ino, fname) (dir_entries ?d (ofss[n := offs']))" by simp
  then show ?thesis using run inv unfolding dir_holds_def by blast
qed

lemma start_kept: "dir_inv E (note_start d r) ofss = dir_inv E d ofss" "df_blocks (note_start d r) = df_blocks d"
proof -
  have "dir_inv E (d\<lparr>df_inode := (df_inode d)\<lparr>i_dir_start_lookup := w\<rparr>\<rparr>) ofss = dir_inv E d ofss" for w
    by (simp add: dir_inv_def dir_blocks_def is_dx_def sealed_cong [of "(df_inode d)\<lparr>i_dir_start_lookup := w\<rparr>" "df_inode d"])
  then show "dir_inv E (note_start d r) ofss = dir_inv E d ofss" by (simp add: note_start_def split: found.splits)
  show "df_blocks (note_start d r) = df_blocks d" by (simp add: note_start_def split: found.splits)
qed

definition plain_name :: "u8 list \<Rightarrow> bool" where
  "plain_name fname \<longleftrightarrow> fname \<noteq> [] \<and> fname \<noteq> [46] \<and> fname \<noteq> [46, 46] \<and> length fname \<le> 255"

lemma find_holds:
  assumes "dv_ok E" "calls_ok E" "names_ok E" "dir_holds E d M" "plain_name fname"
  shows "\<exists>r d'. ext4_find_entry E dx_find [] fname d = Some (r, d') \<and> dir_holds E d' M \<and>
    (r = Not_found \<and> fname \<notin> snd ` set_mset M \<or> (\<exists>n p ino. r = Found n p \<and> found_at E d' (n, p) ino fname))"
proof -
  obtain ofss where o: "dir_inv E d ofss" "dir_entries d ofss = M" using assms(4) by (auto simp: dir_holds_def)
  have "dir_blocks E d ofss" "\<not> is_dx (dv_sb E) (df_inode d)" "0 < dv_blocksize E" using o(1) assms(1) by (simp_all add: dir_inv_def dv_ok_def)
  then obtain r where r: "ext4_find_entry E dx_find [] fname d = Some (r, note_start d r)"
    "if fname \<in> snd ` set_mset M then \<exists>b p. r = Found b p \<and> b < length ofss \<and> entry_at (df_blocks d ! b) (ofss ! b) fname p else r = Not_found"
    using find_linear [OF dir_inv_reads [OF assms(2) o(1)] assms(3), where ofss = ofss and fname = fname and dx_find = dx_find] assms(5) o(2) by (auto simp: plain_name_def)
  have "dir_holds E (note_start d r) M" using o start_kept(1) [of E d r] start_kept(2) [of d r] by (auto simp: dir_holds_def dir_entries_def)
  moreover have "r = Not_found \<and> fname \<notin> snd ` set_mset M \<or> (\<exists>n p ino. r = Found n p \<and> found_at E (note_start d r) (n, p) ino fname)"
    using r(2) o(1) start_kept(1) [of E d r] start_kept(2) [of d r] by (auto simp: found_at_def split: if_splits)
  ultimately show ?thesis using r(1) by blast
qed

section \<open>A directory as a map from names to inodes\<close>

text \<open>The entries of a map from names to inode numbers.\<close>

definition graph_of :: "('n \<rightharpoonup> 'i) \<Rightarrow> ('i \<times> 'n) multiset" where
  "graph_of m = mset_set ((\<lambda>n. (the (m n), n)) ` dom m)"

lemma graph_of_mem: "finite (dom m) \<Longrightarrow> (i, n) \<in># graph_of m \<longleftrightarrow> m n = Some i"
  by (force simp: graph_of_def)

lemma graph_of_names: "finite (dom m) \<Longrightarrow> snd ` set_mset (graph_of m) = dom m"
  by (force simp: graph_of_def)

lemma graph_of_add:
  assumes "finite (dom m)" "m n = None"
  shows "graph_of (m(n \<mapsto> i)) = add_mset (i, n) (graph_of m)"
proof -
  have "(\<lambda>k. (the ((m(n \<mapsto> i)) k), k)) ` dom (m(n \<mapsto> i)) = insert (i, n) ((\<lambda>k. (the (m k), k)) ` dom m)"
    using assms(2) by (auto simp: image_iff split: if_splits)
  then show ?thesis using assms by (simp add: graph_of_def image_iff domIff)
qed

lemma graph_of_delete:
  assumes "finite (dom m)" "m n = Some i"
  shows "graph_of m = add_mset (i, n) (graph_of (m(n := None)))"
  using graph_of_add [of "m(n := None)" n i] assms by (simp add: fun_upd_idem)

text \<open>
  What a directory promises, for the entries that it holds: a search finds an entry of the name if there is one, an
  addition adds the entry or refuses a name that is there, and a deletion removes the entry that was found.
\<close>

locale directory =
  fixes holds :: "'d \<Rightarrow> ('i \<times> 'n) multiset \<Rightarrow> bool"
    and good_ino :: "'i \<Rightarrow> bool"
    and good_name :: "'n \<Rightarrow> bool"
    and located :: "'d \<Rightarrow> 'h \<Rightarrow> 'i \<Rightarrow> 'n \<Rightarrow> bool"
    and search :: "'n \<Rightarrow> 'd \<Rightarrow> ('h option \<times> 'd) option"
    and enter :: "'i \<Rightarrow> 'n \<Rightarrow> 'd \<Rightarrow> (int \<times> 'd) option"
    and erase :: "'h \<Rightarrow> 'd \<Rightarrow> (int \<times> 'd) option"
  assumes find_law: "holds d M \<Longrightarrow> good_name n \<Longrightarrow> \<exists>r d'. search n d = Some (r, d') \<and> holds d' M \<and>
      (r = None \<and> n \<notin> snd ` set_mset M \<or> (\<exists>h i. r = Some h \<and> located d' h i n))"
    and add_law: "holds d M \<Longrightarrow> good_ino i \<Longrightarrow> good_name n \<Longrightarrow> \<exists>r d'. enter i n d = Some (r, d') \<and>
      (r = - EEXIST \<and> d' = d \<and> n \<in> snd ` set_mset M \<or> r = 0 \<and> holds d' (add_mset (i, n) M))"
    and delete_law: "holds d M \<Longrightarrow> located d h i n \<Longrightarrow> \<exists>d' M'. erase h d = Some (0, d') \<and> M = add_mset (i, n) M' \<and> holds d' M'"

text \<open>Sequences of operations: a lookup, a new entry, and the removal of an entry after a lookup.\<close>

datatype ('i, 'n) dir_op = Lookup 'n | Link 'i 'n | Unlink 'n

fun dir_run ::
    "('n \<Rightarrow> 'd \<Rightarrow> ('h option \<times> 'd) option) \<Rightarrow> ('i \<Rightarrow> 'n \<Rightarrow> 'd \<Rightarrow> (int \<times> 'd) option) \<Rightarrow> ('h \<Rightarrow> 'd \<Rightarrow> (int \<times> 'd) option) \<Rightarrow>
     ('i, 'n) dir_op list \<Rightarrow> 'd \<Rightarrow> (int list \<times> 'd) option" where
  "dir_run search enter erase [] d = Some ([], d)"
| "dir_run search enter erase (a # as) d =
     (case (case a of
              Lookup n \<Rightarrow> map_option (\<lambda>(r, d). (if r = None then - ENOENT else 0, d)) (search n d)
            | Link i n \<Rightarrow> enter i n d
            | Unlink n \<Rightarrow> (case search n d of None \<Rightarrow> None | Some (None, d) \<Rightarrow> Some (- ENOENT, d) | Some (Some h, d) \<Rightarrow> erase h d)) of
        None \<Rightarrow> None
      | Some (r, d) \<Rightarrow> map_option (\<lambda>(rs, d). (r # rs, d)) (dir_run search enter erase as d))"

text \<open>The same sequence on a map.\<close>

fun map_run :: "('i, 'n) dir_op list \<Rightarrow> ('n \<rightharpoonup> 'i) \<Rightarrow> int list \<times> ('n \<rightharpoonup> 'i)" where
  "map_run [] m = ([], m)"
| "map_run (Lookup n # as) m = (case map_run as m of (rs, m') \<Rightarrow> ((if m n = None then - ENOENT else 0) # rs, m'))"
| "map_run (Link i n # as) m = (case map_run as (m(n \<mapsto> i)) of (rs, m') \<Rightarrow> (0 # rs, m'))"
| "map_run (Unlink n # as) m = (case map_run as (m(n := None)) of (rs, m') \<Rightarrow> ((if m n = None then - ENOENT else 0) # rs, m'))"

text \<open>Names and inode numbers are proper, and an entry is only added for a name that the directory does not have.\<close>

fun ops_ok :: "('i \<Rightarrow> bool) \<Rightarrow> ('n \<Rightarrow> bool) \<Rightarrow> ('i, 'n) dir_op list \<Rightarrow> ('n \<rightharpoonup> 'i) \<Rightarrow> bool" where
  "ops_ok gi gn [] m = True"
| "ops_ok gi gn (Lookup n # as) m = (gn n \<and> ops_ok gi gn as m)"
| "ops_ok gi gn (Link i n # as) m = (gi i \<and> gn n \<and> m n = None \<and> ops_ok gi gn as (m(n \<mapsto> i)))"
| "ops_ok gi gn (Unlink n # as) m = (gn n \<and> ops_ok gi gn as (m(n := None)))"

context directory
begin

lemma located_in: "holds d M \<Longrightarrow> located d h i n \<Longrightarrow> (i, n) \<in># M"
  using delete_law by fastforce

lemma find_map:
  assumes "holds d (graph_of m)" "finite (dom m)" "good_name n"
  shows "\<exists>r d'. search n d = Some (r, d') \<and> holds d' (graph_of m) \<and> (case r of None \<Rightarrow> m n = None | Some h \<Rightarrow> \<exists>i. m n = Some i \<and> located d' h i n)"
proof -
  obtain r d' where r: "search n d = Some (r, d')" "holds d' (graph_of m)"
    "r = None \<and> n \<notin> snd ` set_mset (graph_of m) \<or> (\<exists>h i. r = Some h \<and> located d' h i n)"
    using find_law [OF assms(1,3)] by blast
  show ?thesis
  proof (cases r)
    case None
    then show ?thesis using r assms(2) by (auto simp: graph_of_names domIff)
  next
    case (Some h)
    then obtain i where "located d' h i n" using r(3) by auto
    then show ?thesis using r Some located_in [of d' "graph_of m" h i n] graph_of_mem [OF assms(2)] by auto
  qed
qed

lemma unlink_map:
  assumes "holds d (graph_of m)" "finite (dom m)" "m n = Some i" "located d h i n"
  shows "\<exists>d'. erase h d = Some (0, d') \<and> holds d' (graph_of (m(n := None)))"
  using delete_law [OF assms(1,4)] graph_of_delete [OF assms(2,3)] by auto

lemma run_refines_map:
  assumes "holds d (graph_of m)" "finite (dom m)" "ops_ok good_ino good_name as m"
  shows "\<exists>d'. dir_run search enter erase as d = Some (fst (map_run as m), d') \<and> holds d' (graph_of (snd (map_run as m)))"
  using assms
proof (induction as arbitrary: d m)
  case (Cons a as)
  show ?case
  proof (cases a)
    case (Lookup n)
    then obtain r d' where r: "search n d = Some (r, d')" "holds d' (graph_of m)" "(r = None) = (m n = None)"
      using find_map [OF Cons.prems(1,2), of n] Cons.prems(3) by (force split: option.splits)
    then show ?thesis using Cons.IH [OF r(2) Cons.prems(2)] Cons.prems(3) Lookup by (auto split: prod.splits)
  next
    case (Link i n)
    then have g: "good_ino i" "good_name n" "m n = None" "ops_ok good_ino good_name as (m(n \<mapsto> i))" using Cons.prems(3) by simp_all
    have "n \<notin> snd ` set_mset (graph_of m)" using g(3) Cons.prems(2) by (simp add: graph_of_names domIff)
    then obtain d' where d': "enter i n d = Some (0, d')" "holds d' (graph_of (m(n \<mapsto> i)))"
      using add_law [OF Cons.prems(1) g(1,2)] graph_of_add [OF Cons.prems(2) g(3), of i] by auto
    have "finite (dom (m(n \<mapsto> i)))" using Cons.prems(2) by simp
    from Cons.IH [OF d'(2) this g(4)] show ?thesis using d'(1) Link by (auto split: prod.splits simp del: fun_upd_apply)
  next
    case (Unlink n)
    then have g: "good_name n" "ops_ok good_ino good_name as (m(n := None))" using Cons.prems(3) by simp_all
    have fd: "finite (dom (m(n := None)))" using Cons.prems(2) by simp
    obtain r d' where r: "search n d = Some (r, d')" "holds d' (graph_of m)" "case r of None \<Rightarrow> m n = None | Some h \<Rightarrow> \<exists>i. m n = Some i \<and> located d' h i n"
      using find_map [OF Cons.prems(1,2) g(1)] by blast
    show ?thesis
    proof (cases r)
      case None
      then have "m(n := None) = m" using r(3) by (simp add: fun_upd_idem)
      then show ?thesis using Cons.IH [OF _ fd g(2), of d'] r None Unlink by (auto split: prod.splits)
    next
      case (Some h)
      then obtain i d2 where "m n = Some i" "erase h d' = Some (0, d2)" "holds d2 (graph_of (m(n := None)))"
        using r unlink_map [OF r(2) Cons.prems(2)] by (simp del: fun_upd_apply) blast
      then show ?thesis using Cons.IH [OF _ fd g(2), of d2] r Some Unlink by (auto split: prod.splits simp del: fun_upd_apply)
    qed
  qed
qed auto

end

text \<open>The operations of a directory without an index; the calls that only an indexed directory makes are arbitrary.\<close>

definition dir_stands :: "dir_env \<Rightarrow> u8 list \<Rightarrow> dirfile \<Rightarrow> (u32 \<times> u8 list) multiset \<Rightarrow> bool" where
  "dir_stands E new d M \<longleftrightarrow> dv_ok E \<and> calls_ok E \<and> names_ok E \<and> length new = dv_blocksize E \<and> dir_holds E d M"

definition dir_search :: "dir_env \<Rightarrow> (dirfile \<Rightarrow> u8 list \<Rightarrow> found option) \<Rightarrow> u8 list \<Rightarrow> dirfile \<Rightarrow> ((nat \<times> nat) option \<times> dirfile) option" where
  "dir_search E dx_find fname d =
     (case ext4_find_entry E dx_find [] fname d of
        Some (Found n p, d) \<Rightarrow> Some (Some (n, p), d)
      | Some (Not_found, d) \<Rightarrow> Some (None, d)
      | _ \<Rightarrow> None)"

definition dir_enter ::
    "dir_env \<Rightarrow> (nat \<Rightarrow> dirfile \<Rightarrow> (int \<times> dirfile) option) \<Rightarrow> (dirfile \<Rightarrow> (int \<times> dirfile) option) \<Rightarrow> u8 list \<Rightarrow> u16 \<Rightarrow> u32 \<Rightarrow> u8 list \<Rightarrow> dirfile \<Rightarrow>
     (int \<times> dirfile) option" where
  "dir_enter E make_indexed dx_add new mode ino fname d =
     ext4_add_entry E make_indexed dx_add new \<lparr>ne_mode = mode, ne_ino = ino, ne_name = fname\<rparr> d"

interpretation linear: directory "dir_stands E new" "\<lambda>ino. ino \<noteq> 0" plain_name "found_at E" "dir_search E dx_find"
  "dir_enter E make_indexed dx_add new mode" "\<lambda>(n, p). ext4_delete_entry E n p" for E new dx_find make_indexed dx_add mode
proof (unfold_locales, goal_cases)
  case (1 d M n)
  then show ?case using find_holds [of E d M n dx_find] by (auto simp: dir_stands_def dir_search_def)
next
  case (2 d M i n)
  then show ?case using add_linear [of E d M new "\<lparr>ne_mode = mode, ne_ino = i, ne_name = n\<rparr>" make_indexed dx_add]
    by (auto simp: dir_stands_def dir_enter_def plain_name_def)
next
  case (3 d M h i n)
  then show ?case using delete_linear [of E d M "fst h" "snd h" i n] by (cases h) (auto simp: dir_stands_def)
qed

text \<open>
  C4 directory_refines_map: on a directory without an index, whose blocks are well formed with valid checksums and whose calls
  succeed, every sequence of lookups, additions of new names, and lookups followed by the deletion of the
  entry found, ends and answers what a map from names to inode numbers answers, and leaves a directory of
  the same kind with exactly the entries of the resulting map.
\<close>

theorem directory_refines_map:
  assumes "dv_ok E" "calls_ok E" "names_ok E" "length new = dv_blocksize E" "dir_holds E d (graph_of m)" "finite (dom m)"
    and "ops_ok (\<lambda>ino. ino \<noteq> 0) plain_name as m"
  shows "\<exists>d'. dir_run (dir_search E dx_find) (dir_enter E make_indexed dx_add new mode) (\<lambda>(n, p). ext4_delete_entry E n p) as d =
      Some (fst (map_run as m), d') \<and> dir_holds E d' (graph_of (snd (map_run as m)))"
  using linear.run_refines_map [of E new d m as dx_find make_indexed dx_add mode] assms by (simp add: dir_stands_def)

text \<open>
  Result dir_ops_linear: on such a directory \<open>ext4_find_entry\<close> finds an entry in use of the name if there is one, wherever the search
  starts, and none otherwise, \<open>ext4_add_entry\<close> adds exactly the new entry, in a new block if need be, or refuses a name that the
  directory has, and \<open>ext4_delete_entry\<close> removes exactly the entry that was found.
\<close>

theorem dir_ops_linear:
  assumes "dv_ok E" "calls_ok E" "names_ok E" "dir_holds E d M" "plain_name fname" "ino \<noteq> 0" "length new = dv_blocksize E"
  shows "(\<exists>r d'. ext4_find_entry E dx_find [] fname d = Some (r, d') \<and> dir_holds E d' M \<and>
      (if fname \<in> snd ` set_mset M
       then \<exists>n p i d2 M'. r = Found n p \<and> ext4_delete_entry E n p d' = Some (0, d2) \<and> M = add_mset (i, fname) M' \<and> dir_holds E d2 M'
       else r = Not_found)) \<and>
    (\<exists>r d'. ext4_add_entry E mi dx_add new \<lparr>ne_mode = mode, ne_ino = ino, ne_name = fname\<rparr> d = Some (r, d') \<and>
      (r = - EEXIST \<and> d' = d \<and> fname \<in> snd ` set_mset M \<or> r = 0 \<and> dir_holds E d' (add_mset (ino, fname) M)))"
proof
  obtain r d' where r: "ext4_find_entry E dx_find [] fname d = Some (r, d')" "dir_holds E d' M"
    "r = Not_found \<and> fname \<notin> snd ` set_mset M \<or> (\<exists>n p ino. r = Found n p \<and> found_at E d' (n, p) ino fname)"
    using find_holds [OF assms(1-5), where dx_find = dx_find] by (elim exE conjE)
  have "if fname \<in> snd ` set_mset M
    then \<exists>n p i d2 M'. r = Found n p \<and> ext4_delete_entry E n p d' = Some (0, d2) \<and> M = add_mset (i, fname) M' \<and> dir_holds E d2 M'
    else r = Not_found"
    using r(3)
  proof (elim disjE exE conjE)
    fix n p i assume f: "r = Found n p" "found_at E d' (n, p) i fname"
    then obtain d2 M' where "ext4_delete_entry E n p d' = Some (0, d2)" "M = add_mset (i, fname) M'" "dir_holds E d2 M'"
      using delete_linear [OF assms(1-3) r(2)] by blast
    moreover have "fname \<in> snd ` set_mset M" unfolding \<open>M = _\<close> by simp
    ultimately show ?thesis using f(1) by (simp only: if_True) blast
  qed simp
  then show "\<exists>r d'. ext4_find_entry E dx_find [] fname d = Some (r, d') \<and> dir_holds E d' M \<and>
      (if fname \<in> snd ` set_mset M
       then \<exists>n p i d2 M'. r = Found n p \<and> ext4_delete_entry E n p d' = Some (0, d2) \<and> M = add_mset (i, fname) M' \<and> dir_holds E d2 M'
       else r = Not_found)" using r(1,2) by blast
  show "\<exists>r d'. ext4_add_entry E mi dx_add new \<lparr>ne_mode = mode, ne_ino = ino, ne_name = fname\<rparr> d = Some (r, d') \<and>
      (r = - EEXIST \<and> d' = d \<and> fname \<in> snd ` set_mset M \<or> r = 0 \<and> dir_holds E d' (add_mset (ino, fname) M))"
    using add_linear [OF assms(1-4,7), where ne = "\<lparr>ne_mode = mode, ne_ino = ino, ne_name = fname\<rparr>"] assms(5,6) by (simp add: plain_name_def)
qed

section \<open>A directory of one block\<close>

definition demo_dir_env :: dir_env where
  "demo_dir_env = \<lparr>dv_answer = (\<lambda>c. case c of Dir_bread _ \<Rightarrow> 1 | Dir_create _ \<Rightarrow> 1 | Dir_buffer _ \<Rightarrow> 1 | _ \<Rightarrow> 0), dv_kernel = demo_kernel, dv_sb = demo_sb,
     dv_max_dir_size_kb = 0, dv_now = \<lparr>tv_sec = 0, tv_nsec = 0\<rparr>, dv_verified = (\<lambda>_. False), dv_check = (\<lambda>_ _. False), dv_match = (\<lambda>f n. n = f), dv_hashed = False\<rparr>"

definition demo_dirfile :: dirfile where
  "demo_dirfile = \<lparr>df_inode = demo_inode\<lparr>i_size := 1024, i_blkbits := 10, i_flags := 0\<rparr>, df_blocks = [demo_dirleaf]\<rparr>"

definition demo_names :: "u8 list \<rightharpoonup> u32" where
  "demo_names = [[97] \<mapsto> 5, [98] \<mapsto> 6]"

lemma demo_dir_env_ok: "dv_ok demo_dir_env" "calls_ok demo_dir_env" "names_ok demo_dir_env" "dv_blocksize demo_dir_env = 1024" "dv_csum_size demo_dir_env = 0"
proof -
  have "csum_size_of demo_sb = 0" "EXT4_BLOCK_SIZE demo_sb = 1024"
    by (simp_all add: csum_size_of_def demo_sb_def demo_sbi_def demo_es_def ext4_has_metadata_csum_def has_feature_defs EXT4_SB_def EXT4_BLOCK_SIZE_def)
  then show b: "dv_blocksize demo_dir_env = 1024" "dv_csum_size demo_dir_env = 0" by (simp_all add: dv_blocksize_def dv_csum_size_def demo_dir_env_def)
  show "dv_ok demo_dir_env" by (simp add: dv_ok_def b)
  show "calls_ok demo_dir_env" "names_ok demo_dir_env" by (simp_all add: calls_ok_def names_ok_def demo_dir_env_def)
qed

lemma demo_dir_holds: "dir_holds demo_dir_env demo_dirfile (graph_of demo_names)"
proof -
  have "dir_inv demo_dir_env demo_dirfile [[0, 12, 24]]"
  proof -
    have "\<not> ext4_has_metadata_csum (dv_sb demo_dir_env)" using csum_size_cases [of demo_dir_env] demo_dir_env_ok(5) by simp
    moreover have "\<not> ext4_has_feature_dir_index (dv_sb demo_dir_env)" "\<not> dv_hashed demo_dir_env"
      by (simp_all add: demo_dir_env_def demo_sb_def demo_sbi_def demo_es_def has_feature_defs EXT4_SB_def)
    ultimately show ?thesis using demo_dirleaf_ok(1) demo_dirleaf_fields(1)
      by (simp add: dir_inv_def dir_blocks_def dir_leaf_def demo_dir_env_ok demo_dirfile_def is_dx_def ext4_dirblock_csum_verify_def)
  qed
  moreover have "dir_entries demo_dirfile [[0, 12, 24]] = graph_of demo_names"
  proof -
    have "(\<lambda>n. (the (demo_names n), n)) ` dom demo_names = {(5, [97]), (6, [98])}" by (auto simp: demo_names_def)
    moreover have "live demo_dirleaf [0, 12, 24] = [(5, [97]), (6, [98])]"
      by (simp add: demo_dirleaf_fields de_name_def) (simp add: demo_dirleaf_def le32_def le16_def)
    ultimately show ?thesis by (simp add: dir_entries_def graph_of_def demo_dirfile_def)
  qed
  ultimately show ?thesis by (auto simp: dir_holds_def)
qed

theorem directory_refines_map_witness:
  "\<exists>d'. dir_run (dir_search demo_dir_env (\<lambda>_ _. None)) (dir_enter demo_dir_env (\<lambda>_ _. None) (\<lambda>_. None) (replicate 1024 0) 0)
      (\<lambda>(n, p). ext4_delete_entry demo_dir_env n p) [Lookup [97], Unlink [98], Link 7 [99], Lookup [98]] demo_dirfile =
      Some ([0, 0, 0, - ENOENT], d') \<and> dir_holds demo_dir_env d' (graph_of [[97] \<mapsto> 5, [99] \<mapsto> 7])"
proof -
  have d: "finite (dom demo_names)" by (simp add: demo_names_def)
  let ?as = "[Lookup [97], Unlink [98], Link 7 [99], Lookup [98]] :: (u32, u8 list) dir_op list"
  have o: "ops_ok (\<lambda>ino. ino \<noteq> 0) plain_name ?as demo_names" by (simp add: demo_names_def plain_name_def)
  have r: "map_run ?as demo_names = ([0, 0, 0, - ENOENT], [[97] \<mapsto> 5, [99] \<mapsto> 7])" by (auto simp: demo_names_def)
  show ?thesis using directory_refines_map [OF demo_dir_env_ok(1-3) _ demo_dir_holds d o, of "replicate 1024 0"] demo_dir_env_ok(4) by (simp only: r) simp
qed

theorem dir_ops_linear_witness:
  "\<exists>n p d' d2. ext4_find_entry demo_dir_env (\<lambda>_ _. None) [] [98] demo_dirfile = Some (Found n p, d') \<and>
     ext4_delete_entry demo_dir_env n p d' = Some (0, d2)"
proof -
  have "plain_name [98]" "length (replicate 1024 0 :: u8 list) = dv_blocksize demo_dir_env" by (simp_all add: plain_name_def demo_dir_env_ok)
  from dir_ops_linear [OF demo_dir_env_ok(1-3) demo_dir_holds this(1) _ this(2), of 1] have
    "\<exists>r d'. ext4_find_entry demo_dir_env (\<lambda>_ _. None) [] [98] demo_dirfile = Some (r, d') \<and>
      (if [98] \<in> snd ` set_mset (graph_of demo_names) then \<exists>n p d2. r = Found n p \<and> ext4_delete_entry demo_dir_env n p d' = Some (0, d2) else r = Not_found)"
    by (metis zero_neq_one)
  moreover have "[98] \<in> snd ` set_mset (graph_of demo_names)" by (simp add: graph_of_names demo_names_def)
  ultimately show ?thesis by auto
qed

end
