(* ===== verification/Ext4_Htree.thy ===== *)
theory Ext4_Htree
  imports Ext4_Dir
begin

unbundle bit_operations_syntax

text \<open>
  Indexed directories: \<open>src/linux-6.8/fs/ext4/namei.c\<close>, the search through the index (\<open>ext4_htree_next_block\<close>, \<open>ext4_dx_find_entry\<close>), the step from one
  block to an index (\<open>make_indexed_dir\<close>) and the addition through the index with all its splits (\<open>ext4_dx_add_entry\<close>).

  An index of any depth is seen as the list of its leaves, each with the lowest hash that leads to it (\<open>root_leaves\<close>); \<open>spread\<close> says that the list is in order and
  every name in the leaf of its hash. Searching finds a name exactly if a leaf has it, adding an entry and splitting a leaf
  keep the order, and growing the index (splitting an index block, adding a level) keeps the list.
\<close>

section \<open>Finding an entry through the index\<close>

text \<open>
  \<open>ext4_htree_next_block\<close>; the frames are listed from the leaf's index block up to the root. Going up, the position in the last
  frame that has another entry is advanced; then the index blocks below it are read.
\<close>

fun htree_up :: "dx_frame list \<Rightarrow> nat \<Rightarrow> (dx_frame list \<times> nat) option" where
  "htree_up [] num_frames = None"
| "htree_up (p # ps) num_frames =
     (let p = p\<lparr>fr_at := fr_at p + 8\<rparr>
      in if fr_at p < fr_entries p + 8 * dx_get_count (fr_bh p) (fr_entries p) then Some (p # ps, num_frames)
         else htree_up ps (num_frames + 1))"

fun htree_down :: "dir_env \<Rightarrow> dirfile \<Rightarrow> nat \<Rightarrow> dx_frame list \<Rightarrow> int + dx_frame list" where
  "htree_down E d 0 ps = Inr ps"
| "htree_down E d (Suc num_frames) ps =
     (case ext4_read_dirblock E d (unat (dx_get_block (fr_bh (hd ps)) (fr_at (hd ps)))) INDEX of
        Inl err \<Rightarrow> Inl err
      | Inr None \<Rightarrow> Inl (- EUCLEAN)
      | Inr (Some blk) \<Rightarrow> htree_down E d num_frames (\<lparr>fr_bh = blk, fr_entries = 8, fr_at = 8\<rparr> # ps))"

definition ext4_htree_next_block :: "dir_env \<Rightarrow> dirfile \<Rightarrow> u32 \<Rightarrow> dx_frame list \<Rightarrow> int \<times> dx_frame list" where
  "ext4_htree_next_block E d hash ps =
     (case htree_up ps 0 of
        None \<Rightarrow> (0, ps)
      | Some (qs, num_frames) \<Rightarrow>
          (let bhash = dx_get_hash (fr_bh (hd qs)) (fr_at (hd qs))
           in if hash AND 1 = 0 \<and> bhash AND NOT 1 \<noteq> hash then (0, qs)
              else (case htree_down E d num_frames qs of
                      Inl err \<Rightarrow> (err, qs)
                    | Inr qs \<Rightarrow> (1, qs))))"

text \<open>The loop of \<open>ext4_dx_find_entry\<close>, then the function; \<open>hashfn\<close> and \<open>s_hash_unsigned\<close> are those of \<open>dx_probe\<close>.\<close>

partial_function (option) dx_find_loop :: "dir_env \<Rightarrow> dirfile \<Rightarrow> u8 list \<Rightarrow> u32 \<Rightarrow> dx_frame list \<Rightarrow> found option" where
  "dx_find_loop E d fname hash ps =
     (let block = unat (dx_get_block (fr_bh (hd ps)) (fr_at (hd ps)))
      in case ext4_read_dirblock E d block DIRENT_HTREE of
           Inl err \<Rightarrow> Some (Find_err err)
         | Inr None \<Rightarrow> Some Not_found
         | Inr (Some blk) \<Rightarrow>
             (case search_dirblock E blk fname of
                (retval, off) \<Rightarrow>
                  if retval = 1 then Some (Found block off)
                  else if retval = - 1 then Some (Find_err ERR_BAD_DX_DIR)
                  else (case ext4_htree_next_block E d hash ps of
                          (retval, ps) \<Rightarrow>
                            if retval < 0 then Some (Find_err retval)
                            else if retval = 1 then dx_find_loop E d fname hash ps
                            else Some Not_found)))"

definition read_index :: "dir_env \<Rightarrow> dirfile \<Rightarrow> u32 \<Rightarrow> int + u8 list" where
  "read_index E d block =
     (case ext4_read_dirblock E d (unat block) INDEX of
        Inl err \<Rightarrow> Inl err
      | Inr None \<Rightarrow> Inl (- EUCLEAN)
      | Inr (Some blk) \<Rightarrow> Inr blk)"

definition ext4_dx_find_entry :: "dir_env \<Rightarrow> (nat \<Rightarrow> int + u32) \<Rightarrow> nat \<Rightarrow> u32 \<Rightarrow> dirfile \<Rightarrow> u8 list \<Rightarrow> found option" where
  "ext4_dx_find_entry E hashfn s_hash_unsigned hash d fname =
     (case dx_probe (read_index E d) hashfn (dv_sb E) (dv_hashed E) s_hash_unsigned of
        Inl err \<Rightarrow> Some (Find_err err)
      | Inr frames \<Rightarrow> dx_find_loop E d fname hash (rev frames))"

text \<open>The position of a frame in its array.\<close>

definition fr_index :: "dx_frame \<Rightarrow> nat" where
  "fr_index p = (fr_at p - fr_entries p) div 8"

section \<open>From one block to an index\<close>

text \<open>
  The part of \<open>make_indexed_dir\<close> that rearranges the bytes: the records behind \<open>..\<close> go to a new block, whose last record is stretched,
  and the first block becomes the root of the index, with one entry for block 1. \<open>None\<close> stands for a length that
  wraps around, or for a loop that does not end; on an error the blocks are returned as they were left.
\<close>

partial_function (option) last_record :: "(u8 list \<Rightarrow> nat \<Rightarrow> bool) \<Rightarrow> nat \<Rightarrow> nat \<Rightarrow> u8 list \<Rightarrow> (int + nat) option" where
  "last_record check lim de blk =
     (if de + rlen_at blk de < lim then
        if check blk de then Some (Inl (- EUCLEAN)) else last_record check lim (de + rlen_at blk de) blk
      else Some (Inr de))"

definition index_root :: "super_block \<Rightarrow> nat \<Rightarrow> u8 \<Rightarrow> u8 list \<Rightarrow> u8 list" where
  "index_root sb blocksize hash_version root =
     (let root = put 16 (le16 (of_nat (blocksize - unat (ext4_dir_rec_len 2 False)))) root;
          root = put 24 (replicate 8 0) root;
          root = root[29 := 8];
          root = root[28 := hash_version];
          root = dx_set_block 32 1 root;
          root = dx_set_count 32 1 root
      in dx_set_limit 32 (dx_root_limit sb 8) root)"

definition index_blocks ::
    "(u8 list \<Rightarrow> nat \<Rightarrow> bool) \<Rightarrow> super_block \<Rightarrow> nat \<Rightarrow> u8 \<Rightarrow> u8 list \<Rightarrow> u8 list \<Rightarrow> (int \<times> u8 list \<times> u8 list) option" where
  "index_blocks check sb csum_size hash_version root data2 =
     (let blocksize = EXT4_BLOCK_SIZE sb; de = 12 + rlen_at root 12
      in if de > blocksize - csum_size then None
         else (let len = blocksize - csum_size - de;
                   data2 = put 0 (slice de len root) data2;
                   root = put de (replicate len 0) root
               in case last_record check len 0 data2 of
                    None \<Rightarrow> None
                  | Some (Inl err) \<Rightarrow> Some (err, root, data2)
                  | Some (Inr de) \<Rightarrow> Some (0, index_root sb blocksize hash_version root, close_block blocksize csum_size de data2)))"

text \<open>
  \<open>do_split\<close> of the leaf with number \<open>n\<close>, whose index block has the number \<open>fn\<close>: the block for the second half is appended first. The
  result is an error number or the block and the record for the new entry.
\<close>

definition split_dir ::
    "dir_env \<Rightarrow> (u8 list \<Rightarrow> int + u32) \<Rightarrow> u8 list \<Rightarrow> u32 \<Rightarrow> nat \<Rightarrow> nat \<Rightarrow> dx_frame \<Rightarrow> dirfile \<Rightarrow> ((int + nat \<times> nat) \<times> dirfile) option" where
  "split_dir E dirhash new hash n fn frame d =
     (case ext4_append E new d of
        (Inl err, d) \<Rightarrow> Some (Inl err, d)
      | (Inr newblock, d) \<Rightarrow>
          (case do_split (\<lambda>c. dv_answer E (Dir_split c)) (dv_kernel E) (dv_sb E) (df_inode d) (dv_check E) dirhash (dv_hashed E) hash (of_nat newblock)
                  (df_blocks d ! n) (df_blocks d ! newblock) frame of
             None \<Rightarrow> None
           | Some (r, b1, b2, fb) \<Rightarrow>
               (let d = d\<lparr>df_blocks := (df_blocks d)[n := b1, newblock := b2, fn := fb]\<rparr>
                in case r of
                     Inl err \<Rightarrow> Some (Inl err, d)
                   | Inr (second, de) \<Rightarrow> Some (Inr (if second then newblock else n, de), d))))"

text \<open>\<open>ext4_handle_dirty_dx_node\<close> and \<open>ext4_handle_dirty_dirblock\<close> on a block of the directory.\<close>

definition dirty_dx_node :: "dir_env \<Rightarrow> nat \<Rightarrow> dirfile \<Rightarrow> int \<times> dirfile" where
  "dirty_dx_node E n d =
     (dv_answer E (Dir_dirty n), d\<lparr>df_blocks := (df_blocks d)[n := ext4_dx_csum_set (dv_kernel E) (dv_sb E) (df_inode d) (df_blocks d ! n)]\<rparr>)"

definition dirty_dirblock :: "dir_env \<Rightarrow> nat \<Rightarrow> dirfile \<Rightarrow> int \<times> dirfile" where
  "dirty_dirblock E n d =
     (dv_answer E (Dir_dirty n), d\<lparr>df_blocks := (df_blocks d)[n := ext4_dirblock_csum_set (dv_kernel E) (dv_sb E) (df_inode d) (df_blocks d ! n)]\<rparr>)"

text \<open>The end of \<open>make_indexed_dir\<close> and of \<open>ext4_dx_add_entry\<close>: the leaf is split and the entry is added.\<close>

definition split_and_add ::
    "dir_env \<Rightarrow> (u8 list \<Rightarrow> int + u32) \<Rightarrow> u8 list \<Rightarrow> new_entry \<Rightarrow> u32 \<Rightarrow> nat \<Rightarrow> nat \<Rightarrow> dx_frame \<Rightarrow> dirfile \<Rightarrow> (int \<times> dirfile) option" where
  "split_and_add E dirhash new ne hash n fn frame d =
     (case split_dir E dirhash new hash n fn frame d of
        None \<Rightarrow> None
      | Some (Inl err, d) \<Rightarrow> Some (err, d)
      | Some (Inr (n', de), d) \<Rightarrow> add_dirent_to_buf E ne (Some de) n' d)"

text \<open>
  \<open>make_indexed_dir\<close>; \<open>hashfn\<close> and \<open>s_hash_unsigned\<close> are those of \<open>dx_probe\<close>, \<open>s_def_hash_version\<close> that of the superblock. When an error is
  returned at the end the inode is marked dirty, which changes nothing here.
\<close>

definition make_indexed_dir ::
    "dir_env \<Rightarrow> (nat \<Rightarrow> int + u32) \<Rightarrow> nat \<Rightarrow> u8 \<Rightarrow> (u8 list \<Rightarrow> int + u32) \<Rightarrow> u8 list \<Rightarrow> new_entry \<Rightarrow> nat \<Rightarrow> dirfile \<Rightarrow> (int \<times> dirfile) option" where
  "make_indexed_dir E hashfn s_hash_unsigned s_def_hash_version dirhash new ne n d =
     (let A = dv_answer E; sb = dv_sb E; root = df_blocks d ! n
      in if A (Dir_access n) \<noteq> 0 then Some (A (Dir_access n), d)
         else if 12 + rlen_at root 12 \<ge> dv_blocksize E then Some (- EUCLEAN, d)
         else (case ext4_append E new d of
                 (Inl err, d) \<Rightarrow> Some (err, d)
               | (Inr block, d) \<Rightarrow>
                   (let d = d\<lparr>df_inode := (df_inode d)\<lparr>i_flags := i_flags (df_inode d) OR EXT4_INDEX_FL\<rparr>\<rparr>;
                        version = (if dv_hashed E then 6 else s_def_hash_version)
                    in case index_blocks (dv_check E) sb (dv_csum_size E) version root (df_blocks d ! block) of
                         None \<Rightarrow> None
                       | Some (err, root, data2) \<Rightarrow>
                           (let d = d\<lparr>df_blocks := (df_blocks d)[n := root, block := data2]\<rparr>; v = unat version
                            in if err \<noteq> 0 then Some (err, d)
                               else (case hashfn (if v \<le> 2 then v + s_hash_unsigned else v) of
                                       Inl err \<Rightarrow> Some (err, d)
                                     | Inr hash \<Rightarrow>
                                         (case dirty_dx_node E n d of
                                            (err, d) \<Rightarrow>
                                              if err \<noteq> 0 then Some (err, d)
                                              else (case dirty_dirblock E block d of
                                                      (err, d) \<Rightarrow>
                                                        if err \<noteq> 0 then Some (err, d)
                                                        else split_and_add E dirhash new ne hash block n
                                                               \<lparr>fr_bh = df_blocks d ! n, fr_entries = 32, fr_at = 32\<rparr> d)))))))"

section \<open>Adding an entry through the index\<close>

text \<open>
  The search of \<open>ext4_dx_add_entry\<close> for the index block to split, from the frame with index \<open>i\<close> upwards: its index, whether a level has to be
  added, and whether the path has to be looked up again.
\<close>

fun climb :: "dx_frame list \<Rightarrow> nat \<Rightarrow> bool \<Rightarrow> nat \<times> bool \<times> bool" where
  "climb frames 0 restart = (0, True, restart)"
| "climb frames (Suc i) restart =
     (let p = frames ! i
      in if dx_get_count (fr_bh p) (fr_entries p) < dx_get_limit (fr_bh p) (fr_entries p) then (Suc i, False, restart)
         else climb frames i True)"

text \<open>The number of the block of a frame.\<close>

definition frame_block :: "dx_frame list \<Rightarrow> nat \<Rightarrow> nat" where
  "frame_block frames i = (case i of 0 \<Rightarrow> 0 | Suc j \<Rightarrow> unat (leads_to (frames ! j)))"

text \<open>The record that covers a new index block, and the two halves of an index block that is split.\<close>

definition fake_node :: "nat \<Rightarrow> u8 list \<Rightarrow> u8 list" where
  "fake_node blocksize blk = put 4 (le16 (of_nat blocksize)) (put 0 (replicate 8 0) blk)"

definition split_node :: "super_block \<Rightarrow> bool \<Rightarrow> nat \<Rightarrow> u8 list \<Rightarrow> u8 list \<Rightarrow> u8 list \<times> u8 list" where
  "split_node sb h entries blk node2 =
     (let icount = dx_get_count blk entries; icount1 = icount div 2; icount2 = icount - icount1;
          node2 = put 8 (slice (entries + 8 * icount1) (8 * icount2) blk) node2;
          blk = dx_set_count entries icount1 blk;
          node2 = dx_set_count 8 icount2 node2;
          node2 = dx_set_limit 8 (dx_node_limit sb h) node2
      in (blk, node2))"

text \<open>A new level: the entries of the root move to a new block, to which the only entry of the root leads.\<close>

definition add_level_node :: "super_block \<Rightarrow> bool \<Rightarrow> nat \<Rightarrow> u32 \<Rightarrow> u8 list \<Rightarrow> u8 list \<Rightarrow> u8 list \<times> u8 list" where
  "add_level_node sb h entries newblock root node2 =
     (let icount = dx_get_count root entries;
          node2 = put 8 (slice entries (8 * icount) root) node2;
          node2 = dx_set_limit 8 (dx_node_limit sb h) node2;
          root = dx_set_count entries 1 root;
          root = dx_set_block entries newblock root
      in (root[30 := root ! 30 + 1], node2))"

datatype grown = Grown_err int | Grown_restart | Grown_frame nat dx_frame

text \<open>
  The part of \<open>ext4_dx_add_entry\<close> that splits the index: an error, a new lookup of the path, or the frame of the leaf's entry with the number
  of its block.
\<close>

fun dirty_nodes :: "dir_env \<Rightarrow> nat list \<Rightarrow> dirfile \<Rightarrow> int \<times> dirfile" where
  "dirty_nodes E [] d = (0, d)"
| "dirty_nodes E (n # ns) d = (case dirty_dx_node E n d of (err, d) \<Rightarrow> if err \<noteq> 0 then (err, d) else dirty_nodes E ns d)"

definition split_index_block :: "dir_env \<Rightarrow> dx_frame list \<Rightarrow> nat \<Rightarrow> bool \<Rightarrow> nat \<Rightarrow> dirfile \<Rightarrow> (grown \<times> dirfile) option" where
  "split_index_block E frames i restart newblock d =
     (let A = dv_answer E; frame = frames ! i; parent = frames ! (i - 1); fn = frame_block frames i; pn = frame_block frames (i - 1);
          icount1 = dx_get_count (fr_bh frame) (fr_entries frame) div 2;
          hash2 = dx_get_hash (fr_bh frame) (fr_entries frame + 8 * icount1)
      in if A (Dir_access pn) \<noteq> 0 then Some (Grown_err (A (Dir_access pn)), d)
         else (case split_node (dv_sb E) (dv_hashed E) (fr_entries frame) (fr_bh frame) (df_blocks d ! newblock) of
                 (blk, node2) \<Rightarrow>
                   (let second = (fr_index frame \<ge> icount1);
                        frame' = (if second then \<lparr>fr_bh = node2, fr_entries = 8, fr_at = 8 + 8 * (fr_index frame - icount1)\<rparr> else frame\<lparr>fr_bh := blk\<rparr>)
                    in case dx_insert_block (fr_entries parent) (fr_at parent) hash2 (of_nat newblock) (fr_bh parent) of
                         None \<Rightarrow> None
                       | Some pb \<Rightarrow>
                           (let d = d\<lparr>df_blocks := (df_blocks d)[fn := blk, newblock := node2, pn := pb]\<rparr>
                            in case dirty_nodes E (if second then [fn, pn, newblock] else [newblock, pn, fn]) d of
                                 (err, d) \<Rightarrow>
                                   Some (if err \<noteq> 0 then Grown_err err
                                         else if restart then Grown_restart
                                         else if second then Grown_frame newblock (frame'\<lparr>fr_bh := df_blocks d ! newblock\<rparr>)
                                         else Grown_frame fn (frame'\<lparr>fr_bh := df_blocks d ! fn\<rparr>), d)))))"

definition grow_index :: "dir_env \<Rightarrow> u8 list \<Rightarrow> dx_frame list \<Rightarrow> dirfile \<Rightarrow> (grown \<times> dirfile) option" where
  "grow_index E new frames d =
     (case climb frames (length frames - 1) False of
        (i, add_level, restart) \<Rightarrow>
          (let A = dv_answer E; sb = dv_sb E; frame = frames ! i; fn = frame_block frames i
           in if add_level \<and> length frames = ext4_dir_htree_level sb then Some (Grown_err (- ENOSPC), d)
              else (case ext4_append E new d of
                      (Inl err, d) \<Rightarrow> Some (Grown_err err, d)
                    | (Inr newblock, d) \<Rightarrow>
                        (let d = d\<lparr>df_blocks := (df_blocks d)[newblock := fake_node (dv_blocksize E) (df_blocks d ! newblock)]\<rparr>
                         in if A (Dir_access fn) \<noteq> 0 then Some (Grown_err (A (Dir_access fn)), d)
                            else if \<not> add_level then split_index_block E frames i restart newblock d
                            else (case add_level_node sb (dv_hashed E) (fr_entries frame) (of_nat newblock) (fr_bh frame) (df_blocks d ! newblock) of
                                    (root, node2) \<Rightarrow>
                                      (case dirty_nodes E [fn, newblock] (d\<lparr>df_blocks := (df_blocks d)[newblock := node2, fn := root]\<rparr>) of
                                         (err, d) \<Rightarrow> Some (if err \<noteq> 0 then Grown_err err else Grown_restart, d)))))))"

partial_function (option) ext4_dx_add_entry ::
    "dir_env \<Rightarrow> (nat \<Rightarrow> int + u32) \<Rightarrow> nat \<Rightarrow> (u8 list \<Rightarrow> int + u32) \<Rightarrow> u8 list \<Rightarrow> new_entry \<Rightarrow> u32 \<Rightarrow> dirfile \<Rightarrow> (int \<times> dirfile) option" where
  "ext4_dx_add_entry E hashfn s_hash_unsigned dirhash new ne hash d =
     (case dx_probe (read_index E d) hashfn (dv_sb E) (dv_hashed E) s_hash_unsigned of
        Inl err \<Rightarrow> Some (err, d)
      | Inr frames \<Rightarrow>
          (let frame = last frames; n = unat (leads_to frame)
           in case ext4_read_dirblock E d n DIRENT_HTREE of
                Inl err \<Rightarrow> Some (err, d)
              | Inr _ \<Rightarrow>
                  if dv_answer E (Dir_access n) \<noteq> 0 then Some (dv_answer E (Dir_access n), d)
                  else (case add_dirent_to_buf E ne None n d of
                          None \<Rightarrow> None
                        | Some (err, d) \<Rightarrow>
                            if err \<noteq> - ENOSPC then Some (err, d)
                            else if dx_get_count (fr_bh frame) (fr_entries frame) = dx_get_limit (fr_bh frame) (fr_entries frame) then
                              (case grow_index E new frames d of
                                 None \<Rightarrow> None
                               | Some (Grown_err err, d) \<Rightarrow> Some (err, d)
                               | Some (Grown_restart, d) \<Rightarrow> ext4_dx_add_entry E hashfn s_hash_unsigned dirhash new ne hash d
                               | Some (Grown_frame fn fr, d) \<Rightarrow> split_and_add E dirhash new ne hash n fn fr d)
                            else split_and_add E dirhash new ne hash n (frame_block frames (length frames - 1)) frame d)))"

section \<open>The leaves of an index\<close>

text \<open>
  The leaves below an entry of the index, in order, each with the lowest hash that leads to it: the hash of the entry, or that
  of the entry above for the first entry of a block, whose place the limit and the count take.
\<close>

definition entry_lo :: "u8 list \<Rightarrow> nat \<Rightarrow> u32 \<Rightarrow> nat \<Rightarrow> u32" where
  "entry_lo blk e lo i = (if i = 0 then lo else dx_get_hash blk (e + 8 * i))"

fun leaves :: "(u32 \<Rightarrow> int + u8 list) \<Rightarrow> nat \<Rightarrow> u32 \<Rightarrow> u32 \<Rightarrow> (u32 \<times> u32) list" where
  "leaves read 0 b lo = [(lo, b)]"
| "leaves read (Suc l) b lo =
     (case read b of
        Inl _ \<Rightarrow> []
      | Inr blk \<Rightarrow> concat (map (\<lambda>i. leaves read l (dx_get_block blk (8 + 8 * i)) (entry_lo blk 8 lo i)) [0..<dx_get_count blk 8]))"

definition node_leaves :: "(u32 \<Rightarrow> int + u8 list) \<Rightarrow> nat \<Rightarrow> u8 list \<Rightarrow> nat \<Rightarrow> u32 \<Rightarrow> nat \<Rightarrow> (u32 \<times> u32) list" where
  "node_leaves read l blk e lo k =
     concat (map (\<lambda>i. leaves read l (dx_get_block blk (e + 8 * i)) (entry_lo blk e lo i)) [k..<dx_get_count blk e])"

text \<open>The blocks below an entry can be read and are not empty.\<close>

fun readable :: "(u32 \<Rightarrow> int + u8 list) \<Rightarrow> nat \<Rightarrow> u32 \<Rightarrow> bool" where
  "readable read 0 b = True"
| "readable read (Suc l) b =
     (case read b of Inl _ \<Rightarrow> False | Inr blk \<Rightarrow> 0 < dx_get_count blk 8 \<and> (\<forall>i < dx_get_count blk 8. readable read l (dx_get_block blk (8 + 8 * i))))"

definition frame_reads :: "(u32 \<Rightarrow> int + u8 list) \<Rightarrow> nat \<Rightarrow> dx_frame \<Rightarrow> bool" where
  "frame_reads read l p \<longleftrightarrow> (\<exists>k < dx_get_count (fr_bh p) (fr_entries p). fr_at p = fr_entries p + 8 * k) \<and>
     (\<forall>i < dx_get_count (fr_bh p) (fr_entries p). readable read l (dx_get_block (fr_bh p) (fr_entries p + 8 * i)))"

fun frames_read :: "(u32 \<Rightarrow> int + u8 list) \<Rightarrow> nat \<Rightarrow> dx_frame list \<Rightarrow> bool" where
  "frames_read read l [] = True"
| "frames_read read l (p # ps) = (frame_reads read l p \<and> frames_read read (Suc l) ps)"

text \<open>The leaves behind the position of the frames.\<close>

fun beyond :: "(u32 \<Rightarrow> int + u8 list) \<Rightarrow> nat \<Rightarrow> dx_frame list \<Rightarrow> (u32 \<times> u32) list" where
  "beyond read l [] = []"
| "beyond read l (p # ps) = node_leaves read l (fr_bh p) (fr_entries p) 0 (Suc (fr_index p)) @ beyond read (Suc l) ps"

lemma node_leaves_lo: "0 < k \<Longrightarrow> node_leaves read l blk e lo k = node_leaves read l blk e lo' k"
  by (auto simp: node_leaves_def entry_lo_def intro!: arg_cong [where f = concat])

lemma node_leaves_step:
  "k < dx_get_count blk e \<Longrightarrow> node_leaves read l blk e lo k =
     leaves read l (dx_get_block blk (e + 8 * k)) (entry_lo blk e lo k) @ node_leaves read l blk e lo (Suc k)"
  by (simp add: node_leaves_def upt_conv_Cons)

lemma node_leaves_done: "dx_get_count blk e \<le> k \<Longrightarrow> node_leaves read l blk e lo k = []"
  by (simp add: node_leaves_def)

lemma leaves_Suc: "read b = Inr blk \<Longrightarrow> leaves read (Suc l) b lo = node_leaves read l blk 8 lo 0"
  by (simp add: node_leaves_def)

lemma leaves_hd: "readable read l b \<Longrightarrow> leaves read l b lo \<noteq> [] \<and> fst (hd (leaves read l b lo)) = lo"
proof (induction l arbitrary: b lo)
  case (Suc l)
  then obtain blk where b: "read b = Inr blk" "0 < dx_get_count blk 8" "readable read l (dx_get_block blk 8)" by (auto split: sum.splits)
  from Suc.IH [OF b(3), of lo] show ?case
    using b by (simp add: leaves_Suc node_leaves_step entry_lo_def del: leaves.simps)
qed simp

lemma up_ok:
  assumes "frames_read read l ps"
  shows "htree_up ps n = None \<and> beyond read l ps = [] \<or>
    (\<exists>j q qs. htree_up ps n = Some (q # qs, n + j) \<and> frames_read read (l + j) (q # qs) \<and>
      beyond read l ps = leaves read (l + j) (dx_get_block (fr_bh q) (fr_at q)) (dx_get_hash (fr_bh q) (fr_at q)) @ beyond read (l + j) (q # qs) \<and>
      readable read (l + j) (dx_get_block (fr_bh q) (fr_at q)))"
  using assms
proof (induction ps arbitrary: l n)
  case (Cons p ps)
  let ?c = "dx_get_count (fr_bh p) (fr_entries p)"
  define q where "q = p\<lparr>fr_at := fr_at p + 8\<rparr>"
  obtain k where k: "k < ?c" "fr_at p = fr_entries p + 8 * k" using Cons.prems by (auto simp: frame_reads_def)
  have ix: "fr_index p = k" "fr_index q = Suc k" "fr_bh q = fr_bh p" "fr_entries q = fr_entries p" "fr_at q = fr_entries p + 8 * Suc k"
    using k(2) by (simp_all add: fr_index_def q_def)
  show ?case
  proof (cases "Suc k < ?c")
    case True
    then have "htree_up (p # ps) n = Some (q # ps, n + 0)" using k(2) by (simp add: q_def Let_def)
    moreover have r: "readable read l (dx_get_block (fr_bh q) (fr_at q))" "frames_read read l (q # ps)"
      using Cons.prems True by (auto simp: frame_reads_def ix)
    moreover have "beyond read l (p # ps) = leaves read l (dx_get_block (fr_bh q) (fr_at q)) (dx_get_hash (fr_bh q) (fr_at q)) @ beyond read l (q # ps)"
      using node_leaves_step [OF True, of read l 0] by (simp add: ix entry_lo_def)
    ultimately show ?thesis by (metis add_0_right)
  next
    case False
    then have "htree_up (p # ps) n = htree_up ps (n + 1)" using k(2) by (simp add: Let_def)
    moreover have "beyond read l (p # ps) = beyond read (Suc l) ps" using False by (simp add: ix node_leaves_done)
    moreover have "frames_read read (Suc l) ps" using Cons.prems by simp
    ultimately show ?thesis using Cons.IH [of "Suc l" "n + 1"] by (metis add_Suc_shift Suc_eq_plus1 add.assoc plus_1_eq_Suc)
  qed
qed simp

text \<open>Going down to the first leaf below an entry.\<close>

lemma down_ok:
  assumes "frames_read (read_index E d) l (q # qs)" "readable (read_index E d) l (dx_get_block (fr_bh q) (fr_at q))"
  shows "\<exists>p ps. htree_down E d l (q # qs) = Inr (p # ps) \<and> frames_read (read_index E d) 0 (p # ps) \<and>
    (lo, dx_get_block (fr_bh p) (fr_at p)) # beyond (read_index E d) 0 (p # ps) =
      leaves (read_index E d) l (dx_get_block (fr_bh q) (fr_at q)) lo @ beyond (read_index E d) l (q # qs)"
  using assms
proof (induction l arbitrary: q qs)
  case (Suc l)
  let ?r = "read_index E d"
  obtain blk where b: "?r (dx_get_block (fr_bh q) (fr_at q)) = Inr blk" "0 < dx_get_count blk 8"
      "\<forall>i < dx_get_count blk 8. readable ?r l (dx_get_block blk (8 + 8 * i))"
    using Suc.prems(2) by (auto split: sum.splits)
  define g where "g = \<lparr>fr_bh = blk, fr_entries = 8, fr_at = 8\<rparr>"
  have gf: "frames_read ?r l (g # q # qs)" "readable ?r l (dx_get_block (fr_bh g) (fr_at g))"
    using b Suc.prems(1) by (auto simp: frame_reads_def g_def intro: exI [of _ 0])
  have "htree_down E d (Suc l) (q # qs) = htree_down E d l (g # q # qs)"
    using b(1) by (auto simp: read_index_def g_def split: sum.splits option.splits)
  moreover have "leaves ?r l (dx_get_block (fr_bh g) (fr_at g)) lo @ beyond ?r l (g # q # qs) =
      leaves ?r (Suc l) (dx_get_block (fr_bh q) (fr_at q)) lo @ beyond ?r (Suc l) (q # qs)"
    using b(2) by (simp add: leaves_Suc [where read = ?r, OF b(1)] node_leaves_step [of 0] entry_lo_def g_def fr_index_def del: leaves.simps)
      (simp add: node_leaves_lo [of "Suc 0" _ _ _ _ 0 lo])
  ultimately show ?case using Suc.IH [OF gf] by (simp only:)
qed simp

text \<open>
  The next leaf: there is none, it is not wanted, or it becomes the position.
\<close>

lemma next_block_ok:
  assumes "frames_read (read_index E d) 0 ps"
  shows "case beyond (read_index E d) 0 ps of
      [] \<Rightarrow> \<exists>qs. ext4_htree_next_block E d hash ps = (0, qs)
    | (lo, b) # R \<Rightarrow>
        if hash AND 1 = 0 \<and> lo AND NOT 1 \<noteq> hash then \<exists>qs. ext4_htree_next_block E d hash ps = (0, qs)
        else \<exists>q qs. ext4_htree_next_block E d hash ps = (1, q # qs) \<and> frames_read (read_index E d) 0 (q # qs) \<and>
          dx_get_block (fr_bh q) (fr_at q) = b \<and> beyond (read_index E d) 0 (q # qs) = R"
proof -
  let ?r = "read_index E d"
  from up_ok [OF assms, of 0] show ?thesis
  proof (elim disjE conjE exE)
    assume "htree_up ps 0 = None" "beyond ?r 0 ps = []"
    then show ?thesis by (simp add: ext4_htree_next_block_def)
  next
    fix j q qs
    assume a: "htree_up ps 0 = Some (q # qs, 0 + j)" "frames_read ?r (0 + j) (q # qs)"
      "beyond ?r 0 ps = leaves ?r (0 + j) (dx_get_block (fr_bh q) (fr_at q)) (dx_get_hash (fr_bh q) (fr_at q)) @ beyond ?r (0 + j) (q # qs)"
      "readable ?r (0 + j) (dx_get_block (fr_bh q) (fr_at q))"
    let ?lo = "dx_get_hash (fr_bh q) (fr_at q)"
    obtain p ps' where p: "htree_down E d j (q # qs) = Inr (p # ps')" "frames_read ?r 0 (p # ps')"
      "beyond ?r 0 ps = (?lo, dx_get_block (fr_bh p) (fr_at p)) # beyond ?r 0 (p # ps')"
      using down_ok [of E d j q qs ?lo] a by auto
    show ?thesis unfolding p(3) using a(1) p(1,2) by (auto simp: ext4_htree_next_block_def Let_def)
  qed
qed

section \<open>Finding an entry through the index\<close>

text \<open>The leaf with a block number is well formed and can be read.\<close>

definition leaf_reads :: "dir_env \<Rightarrow> dirfile \<Rightarrow> (u32 \<Rightarrow> nat list) \<Rightarrow> u32 \<Rightarrow> bool" where
  "leaf_reads E d offs b \<longleftrightarrow> ext4_read_dirblock E d (unat b) DIRENT_HTREE = Inr (Some (df_blocks d ! unat b)) \<and> dir_leaf E (df_blocks d ! unat b) (offs b)"

abbreviation in_leaf :: "dirfile \<Rightarrow> (u32 \<Rightarrow> nat list) \<Rightarrow> u8 list \<Rightarrow> u32 \<Rightarrow> nat \<Rightarrow> bool" where
  "in_leaf d offs fname b p \<equiv> entry_at (df_blocks d ! unat b) (offs b) fname p"

text \<open>The leaves that the search visits: the first, and those behind it that continue its hash.\<close>

definition visited :: "u32 \<Rightarrow> u32 \<Rightarrow> (u32 \<times> u32) list \<Rightarrow> u32 list" where
  "visited hash b R = b # map snd (takeWhile (\<lambda>x. fst x AND NOT 1 = hash) R)"

lemma dx_find_step:
  assumes "names_ok E" "fname \<noteq> []" "leaf_reads E d offs (dx_get_block (fr_bh p) (fr_at p))"
  defines "b \<equiv> dx_get_block (fr_bh p) (fr_at p)"
  shows "(\<exists>o'. in_leaf d offs fname b o' \<and> dx_find_loop E d fname hash (p # ps) = Some (Found (unat b) o')) \<or>
    (\<forall>o'. \<not> in_leaf d offs fname b o') \<and> dx_find_loop E d fname hash (p # ps) =
      (case ext4_htree_next_block E d hash (p # ps) of
         (retval, ps) \<Rightarrow> if retval < 0 then Some (Find_err retval) else if retval = 1 then dx_find_loop E d fname hash ps else Some Not_found)"
proof -
  have l: "ext4_read_dirblock E d (unat b) DIRENT_HTREE = Inr (Some (df_blocks d ! unat b))" "dir_leaf E (df_blocks d ! unat b) (offs b)"
    using assms(3) by (simp_all add: leaf_reads_def b_def)
  have run: "dx_find_loop E d fname hash (p # ps) =
      (case search_dirblock E (df_blocks d ! unat b) fname of (retval, off) \<Rightarrow>
         if retval = 1 then Some (Found (unat b) off) else if retval = - 1 then Some (Find_err ERR_BAD_DX_DIR)
         else (case ext4_htree_next_block E d hash (p # ps) of
           (retval, ps) \<Rightarrow> if retval < 0 then Some (Find_err retval) else if retval = 1 then dx_find_loop E d fname hash ps else Some Not_found))"
    by (subst dx_find_loop.simps) (simp add: l(1) Let_def flip: b_def)
  from search_leaf [OF assms(1) l(2) assms(2)] show ?thesis
  proof (elim disjE exE conjE)
    fix o' assume "search_dirblock E (df_blocks d ! unat b) fname = (1, o')" "in_leaf d offs fname b o'"
    then show ?thesis using run by auto
  next
    fix o' assume "search_dirblock E (df_blocks d ! unat b) fname = (0, o')" "\<forall>o'. \<not> in_leaf d offs fname b o'"
    then show ?thesis unfolding run by simp
  qed
qed

lemma dx_find_loop_ok:
  assumes "names_ok E" "fname \<noteq> []" "hash AND 1 = 0" "frames_read (read_index E d) 0 (p # ps)"
    and "beyond (read_index E d) 0 (p # ps) = R" "\<forall>b \<in> set (dx_get_block (fr_bh p) (fr_at p) # map snd R). leaf_reads E d offs b"
  shows "(\<exists>b o'. dx_find_loop E d fname hash (p # ps) = Some (Found (unat b) o') \<and>
      b \<in> set (visited hash (dx_get_block (fr_bh p) (fr_at p)) R) \<and> in_leaf d offs fname b o') \<or>
    dx_find_loop E d fname hash (p # ps) = Some Not_found \<and>
      (\<forall>b \<in> set (visited hash (dx_get_block (fr_bh p) (fr_at p)) R). \<forall>o'. \<not> in_leaf d offs fname b o')"
  using assms(4-6)
proof (induction R arbitrary: p ps)
  case Nil
  let ?b = "dx_get_block (fr_bh p) (fr_at p)"
  have l: "leaf_reads E d offs ?b" using Nil.prems by simp
  obtain qs where nx: "ext4_htree_next_block E d hash (p # ps) = (0, qs)" using next_block_ok [OF Nil.prems(1), of hash] Nil.prems(2) by auto
  from dx_find_step [OF assms(1,2) l, of hash ps] show ?case by (auto simp: nx visited_def)
next
  case (Cons x R)
  let ?b = "dx_get_block (fr_bh p) (fr_at p)"
  obtain lo b where x: "x = (lo, b)" by (cases x)
  have l: "leaf_reads E d offs ?b" using Cons.prems by simp
  note step = dx_find_step [OF assms(1,2) l, of hash ps]
  note nb = next_block_ok [OF Cons.prems(1), of hash, unfolded Cons.prems(2) x list.case prod.case]
  show ?case
  proof (cases "lo AND NOT 1 = hash")
    case False
    then obtain qs where nx: "ext4_htree_next_block E d hash (p # ps) = (0, qs)" using nb assms(3) by auto
    from step show ?thesis using False by (auto simp: nx visited_def x)
  next
    case True
    then obtain q qs where q: "ext4_htree_next_block E d hash (p # ps) = (1, q # qs)" "frames_read (read_index E d) 0 (q # qs)"
        "dx_get_block (fr_bh q) (fr_at q) = b" "beyond (read_index E d) 0 (q # qs) = R"
      using nb by (simp only: simp_thms if_False) blast
    have "\<forall>b \<in> set (dx_get_block (fr_bh q) (fr_at q) # map snd R). leaf_reads E d offs b" using Cons.prems(3) q(3) x by simp
    note IH = Cons.IH [OF q(2,4) this, unfolded q(3)]
    have v: "set (visited hash ?b (x # R)) = insert ?b (set (visited hash b R))" using True x by (simp add: visited_def)
    from step show ?thesis
    proof (elim disjE exE conjE)
      fix o' assume "in_leaf d offs fname ?b o'" "dx_find_loop E d fname hash (p # ps) = Some (Found (unat ?b) o')"
      then show ?thesis unfolding v by blast
    next
      assume "\<forall>o'. \<not> in_leaf d offs fname ?b o'"
        "dx_find_loop E d fname hash (p # ps) = (case ext4_htree_next_block E d hash (p # ps) of
         (retval, ps) \<Rightarrow> if retval < 0 then Some (Find_err retval) else if retval = 1 then dx_find_loop E d fname hash ps else Some Not_found)"
      then show ?thesis using IH unfolding v q(1) by auto
    qed
  qed
qed

text \<open>An index that passes the checks of \<open>dx_probe\<close> on every path.\<close>

fun index_ok :: "(u32 \<Rightarrow> int + u8 list) \<Rightarrow> super_block \<Rightarrow> bool \<Rightarrow> u32 list \<Rightarrow> nat \<Rightarrow> u8 list \<Rightarrow> nat \<Rightarrow> bool" where
  "index_ok read sb h blocks 0 blk e =
     (0 < dx_get_count blk e \<and> dx_get_count blk e \<le> dx_get_limit blk e \<and> (\<forall>i < dx_get_count blk e. dx_get_block blk (e + 8 * i) \<notin> set blocks))"
| "index_ok read sb h blocks (Suc l) blk e =
     (0 < dx_get_count blk e \<and> dx_get_count blk e \<le> dx_get_limit blk e \<and>
      (\<forall>i < dx_get_count blk e. dx_get_block blk (e + 8 * i) \<notin> set blocks \<and>
         (case read (dx_get_block blk (e + 8 * i)) of
            Inl _ \<Rightarrow> False
          | Inr blk' \<Rightarrow> dx_get_limit blk' 8 = dx_node_limit sb h \<and> index_ok read sb h (blocks @ [dx_get_block blk (e + 8 * i)]) l blk' 8)))"

lemma index_child:
  assumes "index_ok read sb h blocks (Suc l) blk e" "i < dx_get_count blk e"
  shows "\<exists>blk'. read (dx_get_block blk (e + 8 * i)) = Inr blk' \<and> dx_get_block blk (e + 8 * i) \<notin> set blocks \<and>
    dx_get_limit blk' 8 = dx_node_limit sb h \<and> index_ok read sb h (blocks @ [dx_get_block blk (e + 8 * i)]) l blk' 8"
  using assms by (cases "read (dx_get_block blk (e + 8 * i))") fastforce+

lemma index_readable:
  "index_ok read sb h blocks l blk e \<Longrightarrow> i < dx_get_count blk e \<Longrightarrow> readable read l (dx_get_block blk (e + 8 * i))"
proof (induction l arbitrary: blocks blk e i)
  case (Suc l)
  then obtain blk' where b: "read (dx_get_block blk (e + 8 * i)) = Inr blk'" "index_ok read sb h (blocks @ [dx_get_block blk (e + 8 * i)]) l blk' 8"
    using index_child by blast
  have "0 < dx_get_count blk' 8" using b(2) by (cases l) simp_all
  then show ?case using b Suc.IH [OF b(2)] by simp
qed simp

lemma index_choose:
  assumes "index_ok read sb h blocks l blk e"
  shows "\<exists>k < dx_get_count blk e. dx_choose blk e hash = Some \<lparr>fr_bh = blk, fr_entries = e, fr_at = e + 8 * k\<rparr> \<and>
    (0 < k \<longrightarrow> dx_get_hash blk (e + 8 * k) \<le> hash) \<and> (Suc k < dx_get_count blk e \<longrightarrow> hash < dx_get_hash blk (e + 8 * Suc k))"
proof -
  have c: "0 < dx_get_count blk e" "dx_get_count blk e \<le> dx_get_limit blk e" using assms by (cases l; simp)+
  then obtain fr where fr: "dx_choose blk e hash = Some fr" by (auto simp: dx_choose_def Let_def)
  note f = dx_choose_ok [OF fr]
  obtain k where "k < dx_get_count blk e" "fr_at fr = e + 8 * k" "0 < k \<longrightarrow> dx_get_hash blk (e + 8 * k) \<le> hash"
    "Suc k < dx_get_count blk e \<longrightarrow> hash < dx_get_hash blk (e + 8 * Suc k)"
    using f by (auto simp: frame_ok_def algebra_simps)
  then show ?thesis using fr f(2,3) by (intro exI [of _ k]) auto
qed

lemma node_leaves_split:
  assumes "k < dx_get_count blk e"
  shows "\<exists>pre. node_leaves read l blk e lo 0 =
    pre @ leaves read l (dx_get_block blk (e + 8 * k)) (entry_lo blk e lo k) @ node_leaves read l blk e lo (Suc k)"
proof -
  have "[0..<dx_get_count blk e] = [0..<k] @ [k..<dx_get_count blk e]" using assms upt_add_eq_append [of 0 k "dx_get_count blk e - k"] by simp
  then have "node_leaves read l blk e lo 0 =
      concat (map (\<lambda>i. leaves read l (dx_get_block blk (e + 8 * i)) (entry_lo blk e lo i)) [0..<k]) @ node_leaves read l blk e lo k"
    by (simp add: node_leaves_def)
  then show ?thesis using node_leaves_step [OF assms, of read l lo] by auto
qed

lemma node_leaves_hd:
  assumes "index_ok read sb h blocks l blk e" "Suc k < dx_get_count blk e \<longrightarrow> hash < dx_get_hash blk (e + 8 * Suc k)"
    "node_leaves read l blk e lo (Suc k) \<noteq> []"
  shows "hash < fst (hd (node_leaves read l blk e lo (Suc k)))"
proof -
  have k: "Suc k < dx_get_count blk e" using assms(3) node_leaves_done by (metis not_le)
  show ?thesis using leaves_hd [OF index_readable [OF assms(1) k], of "dx_get_hash blk (e + 8 * Suc k)"] k assms(2)
    by (simp add: node_leaves_step [OF k] entry_lo_def)
qed

text \<open>
  The path of \<open>dx_probe\<close> among the leaves: the leaf it leads to has a lowest hash of at most the one sought (or is the first), and the
  next one, if it is below the same block, a larger one.
\<close>

lemma probe_leaves:
  assumes "index_ok read sb h blocks l blk e" "frames_read read (Suc l) ps"
  shows "\<exists>frs pre lo0 p qs R. dx_probe_loop read sb h hash blocks l blk e = Inr frs \<and> rev frs @ ps = p # qs \<and> frames_read read 0 (p # qs) \<and>
    node_leaves read l blk e lo 0 = pre @ (lo0, dx_get_block (fr_bh p) (fr_at p)) # R \<and>
    beyond read 0 (p # qs) = R @ beyond read (Suc l) ps \<and>
    (lo0 \<le> hash \<or> lo0 = lo) \<and> (R \<noteq> [] \<longrightarrow> hash < fst (hd R))"
  using assms
proof (induction l arbitrary: blocks blk e ps lo)
  case 0
  obtain k where k: "k < dx_get_count blk e" "dx_choose blk e hash = Some \<lparr>fr_bh = blk, fr_entries = e, fr_at = e + 8 * k\<rparr>"
    "0 < k \<longrightarrow> dx_get_hash blk (e + 8 * k) \<le> hash" "Suc k < dx_get_count blk e \<longrightarrow> hash < dx_get_hash blk (e + 8 * Suc k)"
    using index_choose [OF "0.prems"(1)] by blast
  let ?p = "\<lparr>fr_bh = blk, fr_entries = e, fr_at = e + 8 * k\<rparr>" and ?R = "node_leaves read 0 blk e lo (Suc k)"
  have run: "dx_probe_loop read sb h hash blocks 0 blk e = Inr [?p]"
    using k "0.prems"(1) by (simp add: dx_probe_loop.simps Let_def)
  obtain pre where pre: "node_leaves read 0 blk e lo 0 = pre @ (entry_lo blk e lo k, dx_get_block blk (e + 8 * k)) # ?R"
    using node_leaves_split [OF k(1), of read 0 lo] by auto
  have fr: "frames_read read 0 (?p # ps)" using k(1) "0.prems"(2) by (auto simp: frame_reads_def)
  have bb: "beyond read 0 (?p # ps) = ?R @ beyond read (Suc 0) ps" by (simp add: fr_index_def node_leaves_lo [of "Suc k" _ _ _ _ 0 lo])
  have lo: "entry_lo blk e lo k \<le> hash \<or> entry_lo blk e lo k = lo" using k(3) by (auto simp: entry_lo_def)
  show ?case
    by (intro exI [of _ "[?p]"] exI [of _ pre] exI [of _ "entry_lo blk e lo k"] exI [of _ ?p] exI [of _ ps] exI [of _ ?R])
      (use run pre fr bb lo node_leaves_hd [OF "0.prems"(1) k(4)] in simp)
next
  case (Suc l)
  obtain k where k: "k < dx_get_count blk e" "dx_choose blk e hash = Some \<lparr>fr_bh = blk, fr_entries = e, fr_at = e + 8 * k\<rparr>"
    "0 < k \<longrightarrow> dx_get_hash blk (e + 8 * k) \<le> hash" "Suc k < dx_get_count blk e \<longrightarrow> hash < dx_get_hash blk (e + 8 * Suc k)"
    using index_choose [OF Suc.prems(1)] by blast
  let ?p = "\<lparr>fr_bh = blk, fr_entries = e, fr_at = e + 8 * k\<rparr>" and ?b = "dx_get_block blk (e + 8 * k)" and ?R = "node_leaves read (Suc l) blk e lo (Suc k)"
  obtain blk' where b: "?b \<notin> set blocks" "read ?b = Inr blk'" "dx_get_limit blk' 8 = dx_node_limit sb h" "index_ok read sb h (blocks @ [?b]) l blk' 8"
    using index_child [OF Suc.prems(1) k(1)] by blast
  have fp: "frames_read read (Suc l) (?p # ps)"
    using k(1) Suc.prems(2) index_readable [OF Suc.prems(1)] by (auto simp: frame_reads_def simp del: readable.simps)
  obtain frs pre lo0 p qs R where IH: "dx_probe_loop read sb h hash (blocks @ [?b]) l blk' 8 = Inr frs" "rev frs @ ?p # ps = p # qs" "frames_read read 0 (p # qs)"
    "node_leaves read l blk' 8 (entry_lo blk e lo k) 0 = pre @ (lo0, dx_get_block (fr_bh p) (fr_at p)) # R"
    "beyond read 0 (p # qs) = R @ beyond read (Suc l) (?p # ps)" "lo0 \<le> hash \<or> lo0 = entry_lo blk e lo k" "R \<noteq> [] \<longrightarrow> hash < fst (hd R)"
    using Suc.IH [OF b(4) fp, of "entry_lo blk e lo k"] by blast
  have run: "dx_probe_loop read sb h hash blocks (Suc l) blk e = Inr (?p # frs)"
    using k(2) b IH(1) by (simp add: dx_probe_loop.simps [where left = "Suc l"] Let_def)
  obtain pre' where "node_leaves read (Suc l) blk e lo 0 = pre' @ leaves read (Suc l) ?b (entry_lo blk e lo k) @ ?R"
    using node_leaves_split [OF k(1), of read "Suc l" lo] by blast
  then have nl: "node_leaves read (Suc l) blk e lo 0 = (pre' @ pre) @ (lo0, dx_get_block (fr_bh p) (fr_at p)) # R @ ?R"
    by (simp add: leaves_Suc [where read = read, OF b(2)] IH(4) del: leaves.simps)
  have bb: "beyond read 0 (p # qs) = (R @ ?R) @ beyond read (Suc (Suc l)) ps"
    unfolding IH(5) by (simp add: fr_index_def node_leaves_lo [of "Suc k" _ _ _ _ 0 lo])
  have lo: "lo0 \<le> hash \<or> lo0 = lo" using IH(6) k(3) by (auto simp: entry_lo_def split: if_splits)
  have hd: "R @ ?R \<noteq> [] \<longrightarrow> hash < fst (hd (R @ ?R))" using IH(7) node_leaves_hd [OF Suc.prems(1) k(4), of lo] by (cases R) auto
  have "rev (?p # frs) @ ps = p # qs" using IH(2) by simp
  then show ?case using run IH(3) nl bb lo hd by blast
qed

section \<open>The order of an index\<close>

text \<open>
  The leaves of an index with the names in them: the lowest hashes ascend, the hash of every name is even, at least the lowest hash of its
  leaf without the mark of a continued hash, and below that of the next leaf.
\<close>

definition spread :: "(u8 list \<Rightarrow> u32) \<Rightarrow> (u32 \<Rightarrow> u8 list set) \<Rightarrow> (u32 \<times> u32) list \<Rightarrow> bool" where
  "spread hv names L \<longleftrightarrow> sorted (map fst L) \<and> (\<forall>i < length L. \<forall>n \<in> names (snd (L ! i)).
     hv n AND 1 = 0 \<and> fst (L ! i) AND NOT 1 \<le> hv n \<and> (Suc i < length L \<longrightarrow> hv n < fst (L ! Suc i)))"

lemma even_part_shift: "x AND NOT 1 = push_bit 1 (drop_bit 1 (x :: u32))"
proof (rule bit_word_eqI)
  fix n assume n: "n < LENGTH(32)"
  show "bit (x AND NOT 1) n = bit (push_bit 1 (drop_bit 1 x)) n"
    unfolding bit_push_bit_iff bit_drop_bit_eq bit_and_iff using n by (cases n) (auto simp: bit_simps comp_def)
qed

lemma unat_even_part: "unat (x AND NOT 1 :: u32) = 2 * (unat x div 2)"
proof -
  have "unat (x AND NOT 1) = unat (push_bit 1 (drop_bit 1 x))" by (simp only: even_part_shift)
  also have "\<dots> = take_bit 32 (push_bit 1 (drop_bit 1 (unat x)))" using unsigned_less [of x, where 'a = nat]
    by (simp only: unsigned_push_bit_eq unsigned_drop_bit_eq) (simp add: take_bit_nat_eq_self)
  also have "\<dots> = 2 * (unat x div 2)"
    using unsigned_less [of x, where 'a = nat] by (simp add: take_bit_nat_eq_self drop_bit_Suc)
  finally show ?thesis .
qed

lemma even_part_mono: "x \<le> y \<Longrightarrow> x AND NOT 1 \<le> (y AND NOT 1 :: u32)"
  unfolding word_le_nat_alt unat_even_part by (simp add: div_le_mono)

lemma even_part_even: "x AND 1 = 0 \<Longrightarrow> x AND NOT 1 = (x :: u32)"
proof (rule bit_word_eqI)
  fix n assume x: "x AND 1 = 0" and n: "n < LENGTH(32)"
  have "bit (x AND 1) n = bit 0 n" by (simp add: x)
  then show "bit (x AND NOT 1) n = bit x n" using n by (auto simp: bit_simps)
qed

text \<open>A name can only be in a leaf that the search visits.\<close>

lemma spread_visited:
  assumes "spread hv names (pre @ (lo0, b0) # R)" "lo0 \<le> hv n" "R \<noteq> [] \<longrightarrow> hv n < fst (hd R)" "n \<in> names b" "b \<in> snd ` set (pre @ (lo0, b0) # R)"
  shows "b \<in> set (visited (hv n) b0 R)"
proof -
  let ?L = "pre @ (lo0, b0) # R"
  obtain i where i: "i < length ?L" "snd (?L ! i) = b" using assms(5) by (metis (no_types, lifting) image_iff in_set_conv_nth)
  have srt: "sorted (map fst ?L)" using assms(1) by (simp only: spread_def)
  have n: "hv n AND 1 = 0" "fst (?L ! i) AND NOT 1 \<le> hv n" "Suc i < length ?L \<longrightarrow> hv n < fst (?L ! Suc i)"
    using assms(1,4) i unfolding spread_def by blast+
  note ev = even_part_even [OF n(1)]
  consider "i < length pre" | "i = length pre" | "length pre < i" by linarith
  then show ?thesis
  proof cases
    case 1
    have "map fst ?L ! Suc i \<le> map fst ?L ! length pre" by (rule sorted_nth_mono [OF srt]) (use 1 in auto)
    moreover have "map fst ?L ! Suc i = fst (?L ! Suc i)" "map fst ?L ! length pre = lo0" using 1 i by (simp_all only: nth_map length_append length_Cons) simp_all
    ultimately have "fst (?L ! Suc i) \<le> lo0" by simp
    then have False using n(3) 1 assms(2) by auto
    then show ?thesis ..
  next
    case 2
    then show ?thesis using i by (simp add: visited_def nth_append)
  next
    case 3
    define j where "j = i - length pre - 1"
    have j: "j < length R" "?L ! i = R ! j" using 3 i by (auto simp: j_def nth_append nth_Cons')
    have sR: "sorted (map fst R)" using srt by (simp add: sorted_append)
    have gt: "hv n < fst (R ! k)" if "k < length R" for k
    proof -
      have "map fst R ! 0 \<le> map fst R ! k" by (rule sorted_nth_mono [OF sR]) (use that in auto)
      moreover have "hv n < map fst R ! 0" using assms(3) that by (cases R) auto
      ultimately show ?thesis using that by simp
    qed
    have "fst (R ! k) AND NOT 1 = hv n" if "k \<le> j" for k
    proof -
      have "map fst R ! k \<le> map fst R ! j" by (rule sorted_nth_mono [OF sR]) (use that j in auto)
      then have "fst (R ! k) AND NOT 1 \<le> fst (R ! j) AND NOT 1" using that j by (intro even_part_mono) simp
      moreover have "hv n AND NOT 1 \<le> fst (R ! k) AND NOT 1" using gt [of k] that j by (intro even_part_mono) simp
      ultimately show ?thesis using n(2) j(2) ev by simp
    qed
    then have "j < length (takeWhile (\<lambda>x. fst x AND NOT 1 = hv n) R)" using j(1) by (metis (mono_tags, lifting) leI nth_length_takeWhile le_less_trans)
    then have "R ! j \<in> set (takeWhile (\<lambda>x. fst x AND NOT 1 = hv n) R)" by (metis nth_mem takeWhile_nth)
    then show ?thesis using i(2) j(2) by (auto simp: visited_def intro: rev_image_eqI)
  qed
qed

text \<open>The root of an index: the checks that \<open>dx_probe\<close> makes, and the leaves below it.\<close>

definition root_ok :: "dir_env \<Rightarrow> (u32 \<Rightarrow> int + u8 list) \<Rightarrow> u8 list \<Rightarrow> bool" where
  "root_ok E read root \<longleftrightarrow> read 0 = Inr root \<and> (if dv_hashed E then root ! 28 = 6 else root ! 28 \<in> {0, 1, 2}) \<and> root ! 31 AND 1 = 0 \<and>
     unat (root ! 30) < ext4_dir_htree_level (dv_sb E) \<and> dx_get_limit root (24 + unat (root ! 29)) = dx_root_limit (dv_sb E) (unat (root ! 29)) \<and>
     index_ok read (dv_sb E) (dv_hashed E) [0] (unat (root ! 30)) root (24 + unat (root ! 29))"

definition root_leaves :: "(u32 \<Rightarrow> int + u8 list) \<Rightarrow> u8 list \<Rightarrow> (u32 \<times> u32) list" where
  "root_leaves read root = node_leaves read (unat (root ! 30)) root (24 + unat (root ! 29)) 0 0"

text \<open>
  C6 dx_find_entry_ok: in an indexed directory, of any depth, whose index passes the checks on every path and is in order, \<open>ext4_dx_find_entry\<close>
  ends and finds an entry with the name if a leaf has one, and reports none otherwise: leaves that continue a hash are searched too.
\<close>

theorem dx_find_entry_ok:
  assumes "names_ok E" "fname \<noteq> []" "root_ok E (read_index E d) root" "\<And>v. hashfn v = Inr (hv fname)" "hv fname AND 1 = 0"
    and "\<forall>b \<in> snd ` set (root_leaves (read_index E d) root). leaf_reads E d offs b"
    and "spread hv (\<lambda>b. snd ` set (live (df_blocks d ! unat b) (offs b))) (root_leaves (read_index E d) root)"
  shows "if \<exists>b \<in> snd ` set (root_leaves (read_index E d) root). fname \<in> snd ` set (live (df_blocks d ! unat b) (offs b))
    then \<exists>b o'. ext4_dx_find_entry E hashfn u (hv fname) d fname = Some (Found (unat b) o') \<and>
      b \<in> snd ` set (root_leaves (read_index E d) root) \<and> entry_at (df_blocks d ! unat b) (offs b) fname o'
    else ext4_dx_find_entry E hashfn u (hv fname) d fname = Some Not_found"
proof -
  let ?r = "read_index E d" and ?L = "root_leaves (read_index E d) root"
  let ?l = "unat (root ! 30)" and ?e = "24 + unat (root ! 29)"
  have rt: "?r 0 = Inr root" "if dv_hashed E then root ! 28 = 6 else root ! 28 \<in> {0, 1, 2}" "root ! 31 AND 1 = 0" "?l < ext4_dir_htree_level (dv_sb E)"
    "dx_get_limit root ?e = dx_root_limit (dv_sb E) (unat (root ! 29))" "index_ok ?r (dv_sb E) (dv_hashed E) [0] ?l root ?e"
    using assms(3) unfolding root_ok_def by blast+
  obtain frs pre lo0 p qs R where f: "dx_probe_loop ?r (dv_sb E) (dv_hashed E) (hv fname) [0] ?l root ?e = Inr frs" "rev frs = p # qs" "frames_read ?r 0 (p # qs)"
    "?L = pre @ (lo0, dx_get_block (fr_bh p) (fr_at p)) # R" "beyond ?r 0 (p # qs) = R" "lo0 \<le> hv fname \<or> lo0 = 0" "R \<noteq> [] \<longrightarrow> hv fname < fst (hd R)"
    using probe_leaves [OF rt(6) frames_read.simps(1) [THEN iffD2, OF TrueI], where hash = "hv fname" and lo = 0, unfolded append_Nil2 beyond.simps(1)]
    unfolding root_leaves_def by blast
  let ?b0 = "dx_get_block (fr_bh p) (fr_at p)"
  have "dx_probe ?r hashfn (dv_sb E) (dv_hashed E) u = Inr frs"
    using rt f(1) by (auto simp: dx_probe_def Let_def assms(4) split: if_splits)
  then have run: "ext4_dx_find_entry E hashfn u (hv fname) d fname = dx_find_loop E d fname (hv fname) (p # qs)"
    by (simp add: ext4_dx_find_entry_def f(2))
  have lr: "\<forall>b \<in> set (?b0 # map snd R). leaf_reads E d offs b" using assms(6) unfolding f(4) by auto
  have lo: "lo0 \<le> hv fname" using f(6) by auto
  have vis: "b \<in> set (visited (hv fname) ?b0 R)" if "in_leaf d offs fname b o'" "b \<in> snd ` set ?L" for b o'
    using spread_visited [OF assms(7) [unfolded f(4)] lo f(7), of b] that entry_at_live [of "df_blocks d ! unat b" "offs b" fname] unfolding f(4) by blast
  have vL: "set (visited (hv fname) ?b0 R) \<subseteq> snd ` set ?L" unfolding f(4) by (auto simp: visited_def dest: set_takeWhileD)
  from dx_find_loop_ok [OF assms(1,2,5) f(3,5) lr] show ?thesis unfolding run
  proof (elim disjE exE conjE)
    fix b o' assume a: "dx_find_loop E d fname (hv fname) (p # qs) = Some (Found (unat b) o')" "b \<in> set (visited (hv fname) ?b0 R)" "in_leaf d offs fname b o'"
    then have "\<exists>b \<in> snd ` set ?L. fname \<in> snd ` set (live (df_blocks d ! unat b) (offs b))" using vL entry_at_live by blast
    then show "if \<exists>b \<in> snd ` set ?L. fname \<in> snd ` set (live (df_blocks d ! unat b) (offs b))
      then \<exists>b o'. dx_find_loop E d fname (hv fname) (p # qs) = Some (Found (unat b) o') \<and> b \<in> snd ` set ?L \<and> in_leaf d offs fname b o'
      else dx_find_loop E d fname (hv fname) (p # qs) = Some Not_found" using a vL by (simp only: if_True) blast
  next
    assume a: "dx_find_loop E d fname (hv fname) (p # qs) = Some Not_found" "\<forall>b \<in> set (visited (hv fname) ?b0 R). \<forall>o'. \<not> in_leaf d offs fname b o'"
    then have "\<not> (\<exists>b \<in> snd ` set ?L. fname \<in> snd ` set (live (df_blocks d ! unat b) (offs b)))" using vis entry_at_live by blast
    then show "if \<exists>b \<in> snd ` set ?L. fname \<in> snd ` set (live (df_blocks d ! unat b) (offs b))
      then \<exists>b o'. dx_find_loop E d fname (hv fname) (p # qs) = Some (Found (unat b) o') \<and> b \<in> snd ` set ?L \<and> in_leaf d offs fname b o'
      else dx_find_loop E d fname (hv fname) (p # qs) = Some Not_found" using a(1) by (simp only: if_False)
  qed
qed

section \<open>Splitting a leaf keeps the order\<close>

lemma odd_next: "x AND 1 = 0 \<Longrightarrow> (x + 1) AND NOT 1 = (x :: u32)" "x AND 1 = 0 \<Longrightarrow> unat (x + 1) = unat x + 1"
proof -
  assume e: "x AND 1 = 0"
  have x: "2 * (unat x div 2) = unat x" using even_part_even [OF e] unat_even_part [of x] by simp
  have "unat x \<noteq> 2 ^ 32 - 1"
  proof
    assume "unat x = 2 ^ 32 - 1"
    then show False using x by simp
  qed
  then have "unat x + 1 < 2 ^ 32" using unsigned_less [of x, where 'a = nat] by simp
  then show u: "unat (x + 1) = unat x + 1" by (simp add: unat_word_ariths)
  have "unat ((x + 1) AND NOT 1) = unat x" unfolding unat_even_part u using x by presburger
  then show "(x + 1) AND NOT 1 = x" by (simp add: word_unat_eq_iff)
qed

lemma spread_even: "spread hv names L \<Longrightarrow> i < length L \<Longrightarrow> n \<in> names (snd (L ! i)) \<Longrightarrow> hv n AND 1 = 0"
  unfolding spread_def by blast

lemma spread_split:
  assumes "spread hv names (pre @ (lo, b) # suf)" "names b = N1 \<union> N2" "N1 \<noteq> {}"
    and "\<forall>n \<in> N1. hv n < h2 \<or> hv n = h2 \<and> cont" "\<forall>n \<in> N2. h2 \<le> hv n" "n2 \<in> N2" "hv n2 = h2"
    and "b' \<notin> insert b (snd ` set (pre @ suf))" "b \<notin> snd ` set (pre @ suf)"
  shows "spread hv (names(b := N1, b' := N2)) (pre @ (lo, b) # (h2 + of_bool cont, b') # suf)"
proof -
  let ?L = "pre @ (lo, b) # suf" and ?h = "h2 + of_bool cont" and ?k = "length pre" and ?names = "names(b := N1, b' := N2)"
  let ?M = "pre @ (lo, b) # (?h, b') # suf"
  have S: "sorted (map fst ?L)" using assms(1) by (simp only: spread_def)
  have sp: "hv n AND 1 = 0 \<and> fst (?L ! i) AND NOT 1 \<le> hv n \<and> (Suc i < length ?L \<longrightarrow> hv n < fst (?L ! Suc i))"
    if "i < length ?L" "n \<in> names (snd (?L ! i))" for i n using assms(1) that unfolding spread_def by blast
  have at: "hv n AND 1 = 0" "lo AND NOT 1 \<le> hv n" "suf \<noteq> [] \<longrightarrow> hv n < fst (hd suf)" if "n \<in> N1 \<union> N2" for n
    using sp [of ?k n] that assms(2) by (auto simp: nth_append hd_conv_nth)
  have apart: "x \<noteq> b \<and> x \<noteq> b'" if "x \<in> snd ` set (pre @ suf)" for x using assms(8,9) that by blast
  have ev: "h2 AND 1 = 0" using at(1) [of n2] assms(6,7) by auto
  have hh: "?h AND NOT 1 = h2" "h2 \<le> ?h" "\<And>n. n \<in> N1 \<Longrightarrow> hv n < ?h"
    using odd_next [OF ev] even_part_even [OF ev] assms(4) by (auto simp: word_le_nat_alt word_less_nat_alt)
  have lo: "lo \<le> ?h"
  proof -
    obtain n1 where n1: "n1 \<in> N1" using assms(3) by blast
    then have "2 * (unat lo div 2) \<le> unat (hv n1)" using at(2) [OF UnI1] by (simp only: word_le_nat_alt unat_even_part)
    moreover have "unat (hv n1) < unat ?h" using hh(3) [OF n1] by (simp add: word_less_nat_alt)
    ultimately show ?thesis by (simp add: word_le_nat_alt)
  qed
  have hi: "?h \<le> fst (hd suf)" if "suf \<noteq> []"
    using at(3) [of n2] that assms(6,7) odd_next [OF ev] by (auto simp: word_le_nat_alt word_less_nat_alt)
  have "sorted (map fst ?M)"
  proof -
    have "\<forall>x \<in> set (map fst suf). ?h \<le> x" using hi S by (cases suf) (auto simp: sorted_append)
    moreover have "\<forall>x \<in> set (map fst pre). x \<le> lo" using S by (auto simp: sorted_append)
    ultimately show ?thesis using S lo by (auto simp: sorted_append)
  qed
  moreover have "hv n AND 1 = 0 \<and> fst (?M ! i) AND NOT 1 \<le> hv n \<and> (Suc i < length ?M \<longrightarrow> hv n < fst (?M ! Suc i))"
    if i: "i < length ?M" and n: "n \<in> ?names (snd (?M ! i))" for i n
  proof -
    consider "i < ?k" | "i = ?k" | "i = Suc ?k" | "Suc ?k < i" by linarith
    then show ?thesis
    proof cases
      case 1
      then have "?M ! i = ?L ! i" "fst (?M ! Suc i) = fst (?L ! Suc i)" by (auto simp: nth_append nth_Cons')
      moreover have "snd (?L ! i) \<in> snd ` set (pre @ suf)" using 1 by (simp add: nth_append)
      then have "snd (?L ! i) \<noteq> b" "snd (?L ! i) \<noteq> b'" using apart by blast+
      ultimately show ?thesis using sp [of i n] n 1 by simp
    next
      case 2
      then have "n \<in> N1" using n assms(8) by (auto simp: nth_append split: if_splits)
      then show ?thesis using at [of n] hh(3) [of n] 2 by (simp add: nth_append)
    next
      case 3
      then have "n \<in> N2" using n by (simp add: nth_append)
      then show ?thesis using at [of n] hh(1) assms(5) 3 by (auto simp: nth_append hd_conv_nth)
    next
      case 4
      define j where "j = i - Suc (Suc ?k)"
      have j: "i = Suc (Suc (?k + j))" "j < length suf" using 4 i by (auto simp: j_def)
      have m: "?M ! i = suf ! j" "?L ! Suc (?k + j) = suf ! j" "Suc i < length ?M \<longrightarrow> ?M ! Suc i = ?L ! Suc (Suc (?k + j))"
        using j by (auto simp: nth_append)
      have "snd (suf ! j) \<in> snd ` set (pre @ suf)" using j by simp
      then have "snd (suf ! j) \<noteq> b" "snd (suf ! j) \<noteq> b'" using apart by blast+
      then show ?thesis using sp [of "Suc (?k + j)" n] n j m by auto
    qed
  qed
  ultimately show ?thesis unfolding spread_def by blast
qed

lemma node_leaves_pairs:
  "0 < dx_get_count blk e \<Longrightarrow> node_leaves read 0 blk e lo 0 =
     (lo, dx_get_block blk e) # map (\<lambda>(x, w). (x, w AND 0x0fffffff)) (dx_pairs blk e)"
  by (simp add: node_leaves_def upt_conv_Cons dx_pairs_def dx_pair_def dx_get_block_def entry_lo_def del: upt_Suc)

lemma node_leaves_insert:
  assumes "dx_pairs fb e = take k (dx_pairs blk e) @ (x, w) # drop k (dx_pairs blk e)" "dx_get_block fb e = dx_get_block blk e"
    and "k < dx_get_count blk e" "w AND 0x0fffffff = w"
  shows "node_leaves read 0 fb e lo 0 = take (Suc k) (node_leaves read 0 blk e lo 0) @ (x, w) # drop (Suc k) (node_leaves read 0 blk e lo 0)"
proof -
  have l: "length (dx_pairs blk e) = dx_get_count blk e - 1" "length (dx_pairs fb e) = dx_get_count fb e - 1" by (simp_all add: dx_pairs_def)
  have "length (dx_pairs fb e) = Suc (length (dx_pairs blk e))" unfolding assms(1) by simp
  then have "0 < dx_get_count fb e" "0 < dx_get_count blk e" using l assms(3) by linarith+
  then show ?thesis using assms(1,2,4) by (simp add: node_leaves_pairs take_map drop_map)
qed

text \<open>
  C8 htree_split_ok: when its calls succeed, \<open>do_split\<close> on a leaf of an index in order that has at least two entries leaves the entries of the leaf in
  two well-formed blocks and enters the new one in the index block so that the leaves are in order again (\<open>xs\<close> and \<open>ys\<close> are the
  leaves below other index blocks); the new name belongs in the second block exactly when the result says so.
\<close>

theorem htree_split_ok:
  fixes fr :: dx_frame
  defines "e \<equiv> fr_entries fr" and "b \<equiv> dx_get_block (fr_bh fr) (fr_at fr)"
  assumes "leaf_block h (csum_size_of sb) d1 offs" "length d2 = length d1" "block_fits sb d1" "2 \<le> length (used d1 offs)"
    and "\<And>p. entry_ok h d1 p (length d1 - csum_size_of sb) \<Longrightarrow> \<not> check d1 p"
    and "\<And>p. p \<in> set (used d1 offs) \<Longrightarrow> dirent_hash dirhash h d1 p = Inr (hv (de_name d1 p))" "\<And>c. A c = 0"
    and "fr_at fr = e + 8 * k" "k < dx_get_count (fr_bh fr) e"
    and "dx_get_count (fr_bh fr) e < dx_get_limit (fr_bh fr) e" "e + 8 * dx_get_limit (fr_bh fr) e \<le> length (fr_bh fr)"
    and "spread hv names (xs @ node_leaves read 0 (fr_bh fr) e lo 0 @ ys)" "names b = snd ` set (live d1 offs)"
    and "distinct (newblock # map snd (xs @ node_leaves read 0 (fr_bh fr) e lo 0 @ ys))" "newblock AND 0x0fffffff = newblock"
  shows "\<exists>second de b1 b2 fb offs1 offs2.
    do_split A K sb dir check dirhash h hash newblock d1 d2 fr = Some (Inr (second, de), b1, b2, ext4_dx_csum_set K sb dir fb) \<and>
    chain h b1 0 (length d1 - csum_size_of sb) offs1 \<and> chain h b2 0 (length d1 - csum_size_of sb) offs2 \<and>
    mset (live b1 offs1) + mset (live b2 offs2) = mset (live d1 offs) \<and>
    spread hv (names(b := snd ` set (live b1 offs1), newblock := snd ` set (live b2 offs2))) (xs @ node_leaves read 0 fb e lo 0 @ ys) \<and>
    (second \<longleftrightarrow> dx_get_hash fb (e + 8 * Suc k) AND NOT 1 \<le> hash)"
proof -
  obtain r offs1 offs2 fb where r: "split_ok hv h (length d1 - csum_size_of sb) d1 offs r offs1 offs2"
    "do_split A K sb dir check dirhash h hash newblock d1 d2 fr =
      Some (Inr (sp_hash2 r \<le> hash, if sp_hash2 r \<le> hash then sp_de2 r else sp_de r), sp_data1 r, sp_data2 r, ext4_dx_csum_set K sb dir fb)"
    "dx_pairs fb e = take k (dx_pairs (fr_bh fr) e) @ (sp_hash2 r + of_bool (sp_continued r), newblock) # drop k (dx_pairs (fr_bh fr) e)"
    "dx_get_block fb e = dx_get_block (fr_bh fr) e"
    using do_split_ok [where check = check and dirhash = dirhash and hv = hv and A = A and K = K and dir = dir and hash = hash and newblock = newblock,
        OF assms(3-9) assms(10) [unfolded e_def] assms(11) [unfolded e_def] assms(12) [unfolded e_def] assms(13) [unfolded e_def]] unfolding e_def by blast
  let ?l1 = "live (sp_data1 r) offs1" and ?l2 = "live (sp_data2 r) offs2" and ?x = "sp_hash2 r + of_bool (sp_continued r)" and ?nl = "node_leaves read 0 (fr_bh fr) e lo 0"
  have s: "chain h (sp_data1 r) 0 (length d1 - csum_size_of sb) offs1" "chain h (sp_data2 r) 0 (length d1 - csum_size_of sb) offs2"
    "?l1 \<noteq> []" "mset (live d1 offs) = mset ?l1 + mset ?l2"
    "\<forall>e \<in> set ?l1. hv (snd e) < sp_hash2 r \<or> hv (snd e) = sp_hash2 r \<and> sp_continued r" "\<forall>e \<in> set ?l2. sp_hash2 r \<le> hv (snd e)"
    using r(1) unfolding split_ok_def by blast+
  obtain e2 where e2: "e2 \<in> set ?l2" "hv (snd e2) = sp_hash2 r" using r(1) unfolding split_ok_def by blast
  have nm: "names b = snd ` set ?l1 \<union> snd ` set ?l2" unfolding assms(15) using arg_cong [where f = set_mset, OF s(4)] by (simp add: image_Un)
  have nlk: "k < length ?nl" "?nl ! k = (entry_lo (fr_bh fr) e lo k, b)"
    using assms(11) by (simp_all add: node_leaves_def concat_map_singleton b_def assms(10))
  have nl: "?nl = take k ?nl @ (entry_lo (fr_bh fr) e lo k, b) # drop (Suc k) ?nl"
    using id_take_nth_drop [OF nlk(1)] by (simp only: nlk(2))
  define pre where "pre = xs @ take k ?nl"
  define suf where "suf = drop (Suc k) ?nl @ ys"
  have L: "xs @ ?nl @ ys = pre @ (entry_lo (fr_bh fr) e lo k, b) # suf" using nl by (simp add: pre_def suf_def)
  have "take (Suc k) ?nl = take k ?nl @ [(entry_lo (fr_bh fr) e lo k, b)]" using nlk by (simp add: take_Suc_conv_app_nth)
  then have L': "xs @ node_leaves read 0 fb e lo 0 @ ys = pre @ (entry_lo (fr_bh fr) e lo k, b) # (?x, newblock) # suf"
    using node_leaves_insert [OF r(3,4) assms(11,17)] by (simp add: pre_def suf_def)
  have sp: "spread hv (names(b := snd ` set ?l1, newblock := snd ` set ?l2)) (pre @ (entry_lo (fr_bh fr) e lo k, b) # (?x, newblock) # suf)"
    by (rule spread_split [OF assms(14) [unfolded L] nm _ _ _ imageI [OF e2(1)] e2(2)]) (use s(3,5,6) assms(16) [unfolded L] in auto)
  have "sp_hash2 r AND 1 = 0"
  proof -
    let ?L = "pre @ (entry_lo (fr_bh fr) e lo k, b) # suf"
    have "length pre < length ?L" "snd e2 \<in> names (snd (?L ! length pre))" using nm e2(1) by (simp_all add: nth_append)
    from spread_even [OF assms(14) [unfolded L] this] show ?thesis by (simp only: e2(2))
  qed
  then have sx: "?x AND NOT 1 = sp_hash2 r" using odd_next(1) even_part_even by auto
  have "dx_get_hash fb (e + 8 * Suc k) = ?x"
  proof -
    have "dx_pairs fb e ! k = (?x, newblock)" "k < length (dx_pairs fb e)" using assms(11) unfolding r(3) by (auto simp: nth_append dx_pairs_def)
    then show ?thesis by (simp add: dx_pairs_def dx_pair_def)
  qed
  then have sec: "sp_hash2 r \<le> hash \<longleftrightarrow> dx_get_hash fb (e + 8 * Suc k) AND NOT 1 \<le> hash" using sx by simp
  show ?thesis
    by (intro exI [of _ "sp_hash2 r \<le> hash"] exI [of _ "if sp_hash2 r \<le> hash then sp_de2 r else sp_de r"] exI [of _ "sp_data1 r"] exI [of _ "sp_data2 r"]
        exI [of _ fb] exI [of _ offs1] exI [of _ offs2] conjI r(2) s(1,2) s(4) [symmetric] sp [folded L'] sec)
qed

section \<open>A directory that gets an index\<close>

text \<open>Records that are moved to another place, with all that follows them.\<close>

lemma chain_shift:
  assumes "chain h blk (s + off) lim offs" "\<And>i. i < lim - s \<Longrightarrow> blk' ! i = blk ! (s + i)" "lim - s \<le> length blk'" "s \<le> lim"
  shows "chain h blk' off (lim - s) (map (\<lambda>p. p - s) offs) \<and> live blk' (map (\<lambda>p. p - s) offs) = live blk offs"
  using assms(1)
proof (induction offs arbitrary: off rule: list.induct)
  case Nil
  then show ?case using assms(4) by auto
next
  case (Cons x offs)
  then have e: "x = s + off" "entry_ok h blk (s + off) lim" "chain h blk (s + (off + rlen_at blk (s + off))) lim offs" by (simp_all add: add.assoc)
  have r: "8 \<le> rlen_at blk (s + off)" "s + off + rlen_at blk (s + off) \<le> lim" "s + off + 8 + unat (de_name_len blk (s + off)) \<le> lim"
    using e(2) rlen_ge_8 [OF e(2)] entry_ok_room [OF e(2)] by (auto simp: entry_ok_def)
  have n: "blk' ! (off + i) = blk ! (s + off + i)" if "off + i < lim - s" for i using assms(2) [OF that] by (simp add: add.assoc)
  have f: "de_inode blk' off = de_inode blk (s + off)" "rlen_at blk' off = rlen_at blk (s + off)" "de_name_len blk' off = de_name_len blk (s + off)"
    using n [of 0] n [of 1] n [of 2] n [of 3] n [of 4] n [of 5] n [of 6] r by (simp_all add: de_inode_def rlen_at_16 de_rec_len_def de_name_len_def)
  have "blk' ! (off + 8 + i) = blk ! (s + off + 8 + i)" if "i < unat (de_name_len blk (s + off))" for i
    using n [of "8 + i"] r(3) that by (simp add: add.assoc)
  then have nm: "de_name blk' off = de_name blk (s + off)" by (simp add: de_name_def f(3))
  have ok: "entry_ok h blk' off (lim - s)" using e(2) r(2) assms(3) by (auto simp: entry_ok_def f nlen_at_def)
  have IH: "chain h blk' (off + rlen_at blk (s + off)) (lim - s) (map (\<lambda>p. p - s) offs)" "live blk' (map (\<lambda>p. p - s) offs) = live blk offs"
    using Cons.IH [OF e(3)] by simp_all
  show ?case using ok IH e(1) f nm by simp
qed

lemma last_record_ok:
  assumes "\<And>p. entry_ok h blk p lim \<Longrightarrow> \<not> check blk p" "chain h blk off lim offs" "offs \<noteq> []"
  shows "last_record check lim off blk = Some (Inr (last offs))"
  using assms(2,3)
proof (induction offs arbitrary: off rule: list.induct)
  case (Cons x offs)
  then have e: "x = off" "entry_ok h blk off lim" "chain h blk (off + rlen_at blk off) lim offs" by simp_all
  show ?case
  proof (cases offs)
    case Nil
    then have "off + rlen_at blk off = lim" using e(3) by simp
    then show ?thesis using Nil e(1) by (subst last_record.simps) simp
  next
    case (Cons y ys)
    have "off + rlen_at blk off < lim" using chain_less [OF e(3)] Cons by simp
    then show ?thesis using Cons.IH [OF e(3)] Cons e(1) assms(1) [OF e(2)] by (subst last_record.simps) simp
  qed
qed simp

lemma upt_two: "[0..<2] = [0, 1 :: nat]"
  by (simp add: upt_rec)

lemma index_root_fields:
  fixes v
  assumes "length root = EXT4_BLOCK_SIZE sb" "1024 \<le> length root" "length root < 2 ^ 16"
  defines "r \<equiv> index_root sb (length root) v root"
  shows "length r = length root" "r ! 28 = v" "r ! 29 = 8" "r ! 30 = 0" "r ! 31 = 0" "dx_get_count r 32 = 1" "dx_get_block r 32 = 1"
    "dx_get_limit r 32 = dx_root_limit sb 8" "\<And>i. i < 16 \<or> 18 \<le> i \<and> i < 24 \<Longrightarrow> r ! i = root ! i" "rlen_at r 12 = length root - 12"
proof -
  define a where "a = put 24 (replicate 8 0) (put 16 (le16 (of_nat (length root - 12))) root)"
  define b where "b = a[29 := 8, 28 := v]"
  have r: "r = dx_set_limit 32 (dx_root_limit sb 8) (dx_set_count 32 1 (dx_set_block 32 1 b))"
    by (simp add: r_def index_root_def Let_def a_def b_def ext4_dir_rec_len_unat)
  have l: "length a = length root" "length b = length root" using assms(2) by (simp_all add: a_def b_def)
  have lim: "dx_root_limit sb 8 < 2 ^ 16" using assms(1,3) by (auto simp: dx_root_limit_def Let_def)
  have n: "r ! i = b ! i" if "i < 32" for i using that l assms(2) by (simp add: r dx_set_limit_def dx_set_count_def dx_set_block_def nth_put)
  show "length r = length root" using l assms(2) by (simp add: r dx_set_limit_def dx_set_count_def dx_set_block_def)
  show "r ! 28 = v" "r ! 29 = 8" "r ! 30 = 0" "r ! 31 = 0" using n l assms(2) by (simp_all add: b_def a_def nth_put)
  show "dx_get_limit r 32 = dx_root_limit sb 8"
    using l assms(2) lim by (simp add: r dx_get_limit_def dx_set_limit_def u16_at_put dx_set_count_def dx_set_block_def unsigned_of_nat take_bit_nat_eq_self)
  show "dx_get_count r 32 = 1" "dx_get_block r 32 = 1"
    using l assms(2) by (simp_all add: r dx_get_count_def dx_get_block_def dx_set_limit_def dx_set_count_def dx_set_block_def u16_at_def u32_at_def nth_put
        le16_def le32_def get_le16_def get_le32_def)
  show "r ! i = root ! i" if "i < 16 \<or> 18 \<le> i \<and> i < 24" for i
    using that n [of i] assms(2) by (auto simp: b_def a_def nth_put nth_list_update)
  have "rlen_at r 12 = rlen_at (put (12 + 4) (le16 (of_nat (length root - 12))) root) 12"
    using n [of 16] n [of 17] assms(2) by (simp add: rlen_at_16 de_rec_len_def b_def a_def nth_put)
  also have "\<dots> = length root - 12" using assms(2,3) by (intro rec_len_put) auto
  finally show "rlen_at r 12 = length root - 12" .
qed

text \<open>
  C19 make_indexed_ok: turning the block of a directory with a dot, a dot-dot and further records into an index keeps all the further
  entries, in a new well-formed leaf block, and the first two entries; the first block becomes a root that passes
  the checks of \<open>dx_probe\<close> and whose only leaf is block 1.
\<close>

theorem make_indexed_ok:
  assumes "leaf_block h (csum_size_of sb) root (0 # 12 # offs)" "offs \<noteq> []" "length data2 = length root" "length root = EXT4_BLOCK_SIZE sb" "1024 \<le> length root"
    and "de_name root 0 = [46]" "de_name root 12 = [46, 46]" "\<And>blk p lim. entry_ok h blk p lim \<Longrightarrow> \<not> check blk p" "if h then v = 6 else v \<in> {0, 1, 2}" "dv_sb E = sb" "dv_hashed E = h"
  shows "\<exists>r b offs'. index_blocks check sb (csum_size_of sb) v root data2 = Some (0, r, b) \<and>
    chain h b 0 (length root - csum_size_of sb) offs' \<and> live b offs' = live root offs \<and>
    de_inode r 0 = de_inode root 0 \<and> de_name r 0 = [46] \<and> de_inode r 12 = de_inode root 12 \<and> de_name r 12 = [46, 46] \<and> rlen_at r 0 = 12 \<and> 12 + rlen_at r 12 = length root \<and>
    (\<forall>read. read 0 = Inr r \<longrightarrow> root_ok E read r \<and> root_leaves read r = [(0, 1)])"
proof -
  let ?cs = "csum_size_of sb" and ?bs = "length root"
  let ?lim = "?bs - ?cs" and ?s = "12 + rlen_at root 12"
  have lf: "chain h root 0 ?lim (0 # 12 # offs)" "?cs = 0 \<or> ?cs = 12 \<and> 12 \<le> ?bs" "?bs mod 4 = 0" "?bs < 2 ^ 16" using assms(1) by (auto simp: leaf_block_def)
  have c: "rlen_at root 0 = 12" "entry_ok h root 12 ?lim" "chain h root ?s ?lim offs" using lf(1) by auto
  have nm: "de_name_len root 0 = 1" "de_name_len root 12 = 2" using arg_cong [where f = length, OF assms(6)] arg_cong [where f = length, OF assms(7)]
    by (simp_all add: de_name_def word_unat_eq_iff)
  then have "12 \<le> rlen_at root 12" using c(2) by (simp add: entry_ok_def nlen_at_def ext4_dir_rec_len_unat split: if_splits)
  then have s: "?s < ?lim" "?lim \<le> ?bs" "24 \<le> ?s" using chain_less [OF c(3) assms(2)] by auto
  let ?len = "?lim - ?s"
  define d where "d = put 0 (slice ?s ?len root) data2"
  define rt where "rt = put ?s (replicate ?len 0) root"
  have sl: "length (slice ?s ?len root) = ?len" using s by simp
  have ld: "length d = ?bs" "length rt = ?bs" using s assms(3) sl by (simp_all add: d_def rt_def)
  have nd: "d ! i = root ! (?s + i)" if "i < ?lim - ?s" for i using that s assms(3) sl by (simp add: d_def nth_put nth_slice)
  let ?offs = "map (\<lambda>p. p - ?s) offs"
  have ch: "chain h d 0 ?len ?offs" "live d ?offs = live root offs"
    using chain_shift [where off = 0 and blk' = d, of h root ?s ?lim offs] c(3) nd ld(1) s by auto
  have lr: "last_record check ?len 0 d = Some (Inr (last ?offs))"
    by (rule last_record_ok [OF _ ch(1)]) (use assms(2,8) in auto)
  define b where "b = close_block ?bs ?cs (last ?offs) d"
  note cb = close_block [OF ch(1) _ _ lf(3,4,2) ld(1), folded b_def]
  have bl: "chain h b 0 ?lim ?offs" "live b ?offs = live root offs" using cb(1,2) assms(2) ch(2) s by auto
  define r where "r = index_root sb ?bs v rt"
  note rf = index_root_fields [where root = rt and sb = sb and v = v, unfolded ld(2), folded r_def, OF assms(4,5) lf(4)]
  have run: "index_blocks check sb ?cs v root data2 = Some (0, r, b)"
    using s lr by (simp add: index_blocks_def Let_def r_def b_def d_def rt_def flip: assms(4))
  have nr: "r ! i = root ! i" if "i < 16 \<or> 18 \<le> i \<and> i < 24" for i
    using rf(9) [of i] that s assms(5) by (auto simp: rt_def nth_put)
  have dots: "de_inode r 0 = de_inode root 0" "de_inode r 12 = de_inode root 12" "rlen_at r 0 = 12"
    using c(1) nr by (simp_all add: de_inode_def rlen_at_16 de_rec_len_def)
  have "de_name_len r 0 = 1" "de_name_len r 12 = 2" using nm nr by (simp_all add: de_name_len_def)
  then have names: "de_name r 0 = [46]" "de_name r 12 = [46, 46]"
    using assms(5-7) nm nr rf(1) by (simp_all add: de_name_def upt_two)
  have "root_ok E read r \<and> root_leaves read r = [(0, 1)]" if rd: "read 0 = Inr r" for read
  proof -
    have "1 \<le> dx_root_limit sb 8" using assms(4,5) by (auto simp: dx_root_limit_def Let_def ext4_dir_rec_len_unat)
    then show ?thesis using rd rf(2-8) assms(9-11)
      by (auto simp: root_ok_def root_leaves_def node_leaves_def entry_lo_def ext4_dir_htree_level_def split: if_splits)
  qed
  then show ?thesis using run bl dots names rf(10) assms(5) by (intro exI [of _ r] exI [of _ b] exI [of _ ?offs]) auto
qed

section \<open>A directory with an index of one leaf\<close>

definition demo_htree_env :: dir_env where
  "demo_htree_env = demo_dir_env\<lparr>dv_sb := demo_sb\<lparr>s_fs_info := demo_sbi\<lparr>s_es := demo_es\<lparr>es_feature_compat := 0x20\<rparr>\<rparr>\<rparr>\<rparr>"

definition demo_htree :: dirfile where
  "demo_htree = \<lparr>df_inode = demo_inode\<lparr>i_size := 6144, i_blkbits := 10, i_flags := EXT4_INDEX_FL\<rparr>,
     df_blocks = [demo_dx_root, [], [], [], [], demo_dirleaf]\<rparr>"

lemma demo_dx_root_fields:
  "demo_dx_root ! 28 = 1" "demo_dx_root ! 29 = 8" "demo_dx_root ! 30 = 0" "demo_dx_root ! 31 = 0"
  "dx_get_count demo_dx_root 32 = 1" "dx_get_limit demo_dx_root 32 = 124" "dx_get_block demo_dx_root 32 = 5" "length demo_dx_root = 1024"
  by (simp_all add: demo_dx_root_def nth_put le16_def nth_list_update dx_get_count_def dx_get_limit_def dx_get_block_def
        u16_at_def u32_at_def get_le16_def get_le32_def)

lemma demo_htree_sb:
  "\<not> ext4_has_metadata_csum (dv_sb demo_htree_env)" "ext4_has_feature_dir_index (dv_sb demo_htree_env)" "dv_blocksize demo_htree_env = 1024"
  "dv_csum_size demo_htree_env = 0" "dx_root_limit (dv_sb demo_htree_env) 8 = 124" "names_ok demo_htree_env" "\<not> dv_hashed demo_htree_env"
  "ext4_dir_htree_level (dv_sb demo_htree_env) = 2"
  by (simp_all add: demo_htree_env_def demo_dir_env_def demo_sb_def demo_sbi_def demo_es_def has_feature_defs EXT4_FEATURE_COMPAT_DIR_INDEX_def EXT4_SB_def ext4_has_metadata_csum_def
      dv_blocksize_def dv_csum_size_def csum_size_of_def EXT4_BLOCK_SIZE_def dx_root_limit_def ext4_dir_rec_len_unat names_ok_def ext4_dir_htree_level_def)

lemma demo_htree_reads:
  "n < 6 \<Longrightarrow> n = 0 \<or> type = DIRENT_HTREE \<Longrightarrow> ext4_read_dirblock demo_htree_env demo_htree n type = Inr (Some (df_blocks demo_htree ! n))"
proof -
  assume n: "n < 6" "n = 0 \<or> type = DIRENT_HTREE"
  have "is_dx (dv_sb demo_htree_env) (df_inode demo_htree)" using demo_htree_sb(2) by (simp add: is_dx_def demo_htree_def EXT4_INDEX_FL_def)
  moreover have "dv_answer demo_htree_env (Dir_bread n) = 1" by (simp add: demo_htree_env_def demo_dir_env_def)
  ultimately show ?thesis using n demo_htree_sb(1) by (auto simp: ext4_read_dirblock_def Let_def demo_htree_def)
qed

lemma demo_htree_leaves:
  "root_leaves (read_index demo_htree_env demo_htree) demo_dx_root = [(0, 5)]"
  "root_ok demo_htree_env (read_index demo_htree_env demo_htree) demo_dx_root"
  using demo_htree_reads [of 0 INDEX] demo_dx_root_fields demo_htree_sb
  by (simp_all add: root_leaves_def node_leaves_def entry_lo_def root_ok_def read_index_def demo_htree_def)

theorem dx_find_entry_ok_witness:
  "\<exists>b p. ext4_dx_find_entry demo_htree_env (\<lambda>_. Inr 0) 3 0 demo_htree [98] = Some (Found (unat b) p) \<and> b \<in> {5 :: u32}"
proof -
  have lv: "live demo_dirleaf [0, 12, 24] = [(5, [97]), (6, [98])]"
    by (simp add: demo_dirleaf_fields de_name_def) (simp add: demo_dirleaf_def le32_def le16_def)
  have r: "leaf_reads demo_htree_env demo_htree (\<lambda>_. [0, 12, 24]) 5"
    using demo_htree_reads [of 5 DIRENT_HTREE] demo_dirleaf_ok(1) demo_dirleaf_fields(1) demo_htree_sb
    by (simp add: leaf_reads_def dir_leaf_def demo_htree_def)
  have sp: "spread (\<lambda>_. 0) names [(0, 5)]" for names by (simp add: spread_def)
  have m: "[98] \<in> snd ` set (live (df_blocks demo_htree ! unat (5 :: u32)) [0, 12, 24])" using lv by (simp add: demo_htree_def del: live_simps)
  note t = dx_find_entry_ok [OF demo_htree_sb(6) _ demo_htree_leaves(2), of "[98]" "\<lambda>_. Inr 0" "\<lambda>_. 0" "\<lambda>_. [0, 12, 24]" 3, unfolded demo_htree_leaves(1)]
  show ?thesis using t sp m r by (simp del: live_simps) blast
qed

definition demo_dotdir :: "u8 list" where
  "demo_dotdir = le32 2 @ le16 12 @ [1, 2, 46, 0, 0, 0] @ le32 2 @ le16 12 @ [2, 2, 46, 46, 0, 0] @ le32 7 @ le16 1000 @ [1, 1, 97, 0] @ replicate 990 0"

lemma demo_dotdir_fields:
  "length demo_dotdir = 1024" "rlen_at demo_dotdir 0 = 12" "rlen_at demo_dotdir 12 = 12" "rlen_at demo_dotdir 24 = 1000"
  "de_inode demo_dotdir 0 = 2" "de_inode demo_dotdir 12 = 2" "de_inode demo_dotdir 24 = 7"
  "de_name_len demo_dotdir 0 = 1" "de_name_len demo_dotdir 12 = 2" "de_name_len demo_dotdir 24 = 1"
  by (simp_all add: demo_dotdir_def rlen_at_16 de_rec_len_def de_name_len_def de_inode_def le32_def le16_def get_le16_def get_le32_def)

theorem make_indexed_ok_witness:
  "\<exists>r b offs'. index_blocks (\<lambda>_ _. False) demo_sb (csum_size_of demo_sb) 1 demo_dotdir (replicate 1024 0) = Some (0, r, b) \<and>
     live b offs' = [(7, [97])]"
proof -
  have n: "de_name demo_dotdir 0 = [46]" "de_name demo_dotdir 12 = [46, 46]" "de_name demo_dotdir 24 = [97]"
    by (simp_all add: de_name_def demo_dotdir_fields upt_two) (simp_all add: demo_dotdir_def le32_def le16_def)
  have c: "csum_size_of demo_sb = 0" "EXT4_BLOCK_SIZE demo_sb = 1024" using demo_dir_env_ok(4,5) by (simp_all add: dv_blocksize_def dv_csum_size_def demo_dir_env_def)
  have l: "leaf_block False 0 demo_dotdir [0, 12, 24]"
    by (simp add: leaf_block_def entry_ok_def nlen_at_def ext4_dir_rec_len_unat demo_dotdir_fields named_def tailed_def)
  have "live demo_dotdir [24] = [(7, [97])]" using n by (simp add: demo_dotdir_fields)
  then show ?thesis
    using make_indexed_ok [of False demo_sb demo_dotdir "[24]" "replicate 1024 0" "\<lambda>_ _. False" 1 demo_dir_env] n c l
    by (auto simp: demo_dotdir_fields demo_dir_env_def)
qed

theorem htree_split_ok_witness:
  "\<exists>second de b1 b2 fb. do_split (\<lambda>_. 0) demo_kernel demo_sb demo_inode (\<lambda>_ _. False) (\<lambda>_. Inr 0) False 0 7 demo_dirleaf (replicate 1024 0)
     \<lparr>fr_bh = demo_dx_root, fr_entries = 32, fr_at = 32\<rparr> = Some (Inr (second, de), b1, b2, fb)"
proof -
  have c: "csum_size_of demo_sb = 0" "EXT4_BLOCK_SIZE demo_sb = 1024" using demo_dir_env_ok(4,5) by (simp_all add: dv_blocksize_def dv_csum_size_def demo_dir_env_def)
  have nl: "node_leaves (\<lambda>_. Inl 0) 0 demo_dx_root 32 0 0 = [(0, 5)]" by (simp add: node_leaves_def entry_lo_def demo_dx_root_fields)
  have "spread (\<lambda>_. 0) names [(0, 5)]" for names by (simp add: spread_def)
  then show ?thesis
    using htree_split_ok [of False demo_sb demo_dirleaf "[0, 12, 24]" "replicate 1024 0" "\<lambda>_ _. False" "\<lambda>_. Inr 0" "\<lambda>_. 0" "\<lambda>_. 0"
        "\<lparr>fr_bh = demo_dx_root, fr_entries = 32, fr_at = 32\<rparr>" 0 "\<lambda>_. snd ` set (live demo_dirleaf [0, 12, 24])" "[]" "\<lambda>_. Inl 0" 0 "[]" 7
        demo_kernel demo_inode 0]
      demo_split_facts c nl demo_dx_root_fields by (fastforce simp: block_fits_def dirent_hash_def)
qed

section \<open>Growing the index\<close>

text \<open>The index blocks below an entry.\<close>

fun nodes :: "(u32 \<Rightarrow> int + u8 list) \<Rightarrow> nat \<Rightarrow> u32 \<Rightarrow> u32 set" where
  "nodes read 0 b = {}"
| "nodes read (Suc l) b =
     insert b (case read b of Inl _ \<Rightarrow> {} | Inr blk \<Rightarrow> (\<Union>i < dx_get_count blk 8. nodes read l (dx_get_block blk (8 + 8 * i))))"

lemma leaves_cong: "\<forall>x \<in> nodes read l b. read' x = read x \<Longrightarrow> leaves read' l b lo = leaves read l b lo"
proof (induction l arbitrary: b lo)
  case (Suc l)
  then have r: "read' b = read b" by simp
  show ?case
  proof (cases "read b")
    case (Inr blk)
    have "leaves read' l (dx_get_block blk (8 + 8 * i)) x = leaves read l (dx_get_block blk (8 + 8 * i)) x" if "i < dx_get_count blk 8" for i x
      using Suc.prems Inr that by (intro Suc.IH) auto
    then show ?thesis using Inr r by (auto intro!: arg_cong [where f = concat])
  qed (simp add: r)
qed simp

text \<open>The leaves below an index block are those below its entries.\<close>

lemma node_leaves_concat: "node_leaves read l blk e lo 0 = concat (map (\<lambda>(x, b). leaves read l b x) (node_leaves read 0 blk e lo 0))"
  by (simp add: node_leaves_def concat_map_singleton comp_def)

lemma node_leaves_nth:
  "i < dx_get_count blk e \<Longrightarrow> node_leaves read 0 blk e lo 0 ! i = (entry_lo blk e lo i, dx_get_block blk (e + 8 * i))"
  "length (node_leaves read 0 blk e lo 0) = dx_get_count blk e"
  by (simp_all add: node_leaves_def concat_map_singleton)

lemma hash_cong:
  assumes "\<And>j. j < 8 \<Longrightarrow> blk' ! (p' + j) = blk ! (p + j)"
  shows "dx_get_hash blk' p' = dx_get_hash blk p"
  using assms [of 0] assms [of 1] assms [of 2] assms [of 3] by (simp add: dx_get_hash_def u32_at_def)

lemma block_cong:
  assumes "\<And>j. 4 \<le> j \<Longrightarrow> j < 8 \<Longrightarrow> blk' ! (p' + j) = blk ! (p + j)"
  shows "dx_get_block blk' p' = dx_get_block blk p"
proof -
  have e: "q + 4 + 1 = q + 5" "q + 4 + 2 = q + 6" "q + 4 + 3 = q + 7" for q :: nat by simp_all
  show ?thesis unfolding dx_get_block_def u32_at_def e using assms [of 4] assms [of 5] assms [of 6] assms [of 7] by simp
qed

text \<open>Entries that are copied to the start of another block, behind its limit and count.\<close>

lemma entries_copied:
  assumes "dx_get_count blk e = c" "k < c" "e + 8 * c \<le> length blk" "8 + 8 * (c - k) \<le> length node2" "c < 2 ^ 16"
    and "\<And>i. 12 \<le> i \<Longrightarrow> i < 8 + 8 * (c - k) \<Longrightarrow> n ! i = put 8 (slice (e + 8 * k) (8 * (c - k)) blk) node2 ! i" "dx_get_count n 8 = c - k"
  shows "node_leaves read 0 n 8 (entry_lo blk e lo k) 0 = drop k (node_leaves read 0 blk e lo 0)"
proof (rule nth_equalityI)
  show "length (node_leaves read 0 n 8 (entry_lo blk e lo k) 0) = length (drop k (node_leaves read 0 blk e lo 0))"
    by (simp add: node_leaves_nth assms)
  fix i assume "i < length (node_leaves read 0 n 8 (entry_lo blk e lo k) 0)"
  then have i: "i < c - k" by (simp add: node_leaves_nth assms)
  have n: "n ! (8 + 8 * i + j) = blk ! (e + 8 * (k + i) + j)" if "j < 8" "0 < i \<or> 4 \<le> j" for j
  proof -
    have "8 * i + j < 8 * (c - k)" using i that(1) by linarith
    moreover have "e + 8 * k + 8 * (c - k) \<le> length blk" using assms(2,3) by simp
    moreover have "n ! (8 + (8 * i + j)) = put 8 (slice (e + 8 * k) (8 * (c - k)) blk) node2 ! (8 + (8 * i + j))"
      by (rule assms(6)) (use that calculation in auto)
    ultimately have "n ! (8 + (8 * i + j)) = blk ! (e + 8 * k + (8 * i + j))" using assms(4) by (simp add: nth_put nth_slice)
    moreover have "e + 8 * (k + i) + j = e + 8 * k + (8 * i + j)" "8 + 8 * i + j = 8 + (8 * i + j)" by simp_all
    ultimately show ?thesis by (simp only:)
  qed
  have b: "dx_get_block n (8 + 8 * i) = dx_get_block blk (e + 8 * (k + i))" by (rule block_cong) (use n in auto)
  have h: "0 < i \<Longrightarrow> dx_get_hash n (8 + 8 * i) = dx_get_hash blk (e + 8 * (k + i))" by (rule hash_cong) (use n in auto)
  show "node_leaves read 0 n 8 (entry_lo blk e lo k) 0 ! i = drop k (node_leaves read 0 blk e lo 0) ! i"
    using i b h assms(1,2,7) by (cases i) (auto simp: node_leaves_nth entry_lo_def)
qed

lemma split_node_leaves:
  assumes "split_node sb h e blk node2 = (blk', n)" "dx_get_count blk e = c" "2 \<le> c" "c < 2 ^ 16" "e + 8 * c \<le> length blk" "8 + 8 * (c - c div 2) \<le> length node2"
  shows "node_leaves read 0 blk e lo 0 = node_leaves read 0 blk' e lo 0 @ node_leaves read 0 n 8 (dx_get_hash blk (e + 8 * (c div 2))) 0"
    "dx_get_count blk' e = c div 2" "dx_get_count n 8 = c - c div 2"
proof -
  let ?k = "c div 2"
  have k: "0 < ?k" "?k < c" using assms(3) by auto
  have blk': "blk' = dx_set_count e ?k blk" and n: "n = dx_set_limit 8 (dx_node_limit sb h) (dx_set_count 8 (c - ?k) (put 8 (slice (e + 8 * ?k) (8 * (c - ?k)) blk) node2))"
    using assms(1,2) by (simp_all add: split_node_def Let_def)
  have sl: "length (slice (e + 8 * ?k) (8 * (c - ?k)) blk) = 8 * (c - ?k)" using assms(5) k by (intro length_slice) simp
  have ln: "length (put 8 (slice (e + 8 * ?k) (8 * (c - ?k)) blk) node2) = length node2" using assms(6) sl by simp
  show c': "dx_get_count blk' e = ?k"
    using assms(3-5) by (simp add: blk' dx_get_count_def dx_set_count_def u16_at_put unsigned_of_nat take_bit_nat_eq_self)
  have "dx_get_count n 8 = dx_get_count (dx_set_count 8 (c - ?k) (put 8 (slice (e + 8 * ?k) (8 * (c - ?k)) blk) node2)) 8"
    using ln assms(6) k by (simp add: n dx_get_count_def dx_set_limit_def dx_set_count_def u16_at_def nth_put)
  also have "\<dots> = c - ?k" using ln assms(4,6) k by (simp add: dx_get_count_def dx_set_count_def u16_at_put unsigned_of_nat take_bit_nat_eq_self del: of_nat_diff)
  finally show cn: "dx_get_count n 8 = c - ?k" .
  have "node_leaves read 0 n 8 (entry_lo blk e lo ?k) 0 = drop ?k (node_leaves read 0 blk e lo 0)"
    by (rule entries_copied [OF assms(2) k(2) assms(5,6,4) _ cn]) (use ln assms(6) in \<open>simp add: n dx_set_limit_def dx_set_count_def nth_put\<close>)
  moreover have "node_leaves read 0 blk' e lo 0 = take ?k (node_leaves read 0 blk e lo 0)"
  proof (rule nth_equalityI)
    fix i assume "i < length (node_leaves read 0 blk' e lo 0)"
    then have i: "i < ?k" by (simp add: node_leaves_nth c')
    have "dx_get_block blk' (e + 8 * i) = dx_get_block blk (e + 8 * i)" by (rule block_cong) (use i assms(5) k in \<open>simp add: blk' dx_set_count_def nth_put\<close>)
    moreover have "0 < i \<Longrightarrow> dx_get_hash blk' (e + 8 * i) = dx_get_hash blk (e + 8 * i)"
      by (rule hash_cong) (use i assms(5) k in \<open>simp add: blk' dx_set_count_def nth_put\<close>)
    ultimately show "node_leaves read 0 blk' e lo 0 ! i = take ?k (node_leaves read 0 blk e lo 0) ! i" using i k assms(2) c'
      by (simp add: node_leaves_nth entry_lo_def)
  qed (use k in \<open>simp add: node_leaves_nth c' assms(2)\<close>)
  ultimately show "node_leaves read 0 blk e lo 0 = node_leaves read 0 blk' e lo 0 @ node_leaves read 0 n 8 (dx_get_hash blk (e + 8 * ?k)) 0"
    using k by (simp add: entry_lo_def)
qed

text \<open>
  C20 index_split_keeps_leaves: when an index block is split and its second half entered in its parent, the leaves below the parent stay
  the same, with the same lowest hashes and in the same order.
\<close>

theorem index_split_keeps_leaves:
  assumes "split_node sb h 8 blk node2 = (blk', n)" "2 \<le> dx_get_count blk 8" "8 + 8 * dx_get_count blk 8 \<le> length blk" "length node2 = length blk" "length blk < 2 ^ 16"
    and "k < dx_get_count p e" "dx_get_count p e < dx_get_limit p e" "e + 8 * dx_get_limit p e \<le> length p" "dx_get_block p (e + 8 * k) = b" "read b = Inr blk"
    and "\<forall>i < dx_get_count p e. i \<noteq> k \<longrightarrow> b \<notin> nodes read (Suc l) (dx_get_block p (e + 8 * i)) \<and> newblock \<notin> nodes read (Suc l) (dx_get_block p (e + 8 * i))"
    and "\<forall>i < dx_get_count blk 8. b \<notin> nodes read l (dx_get_block blk (8 + 8 * i)) \<and> newblock \<notin> nodes read l (dx_get_block blk (8 + 8 * i))"
    and "newblock AND 0x0fffffff = newblock" "newblock \<noteq> b"
  shows "\<exists>p'. dx_insert_block e (e + 8 * k) (dx_get_hash blk (8 + 8 * (dx_get_count blk 8 div 2))) newblock p = Some p' \<and>
    node_leaves (read(b := Inr blk', newblock := Inr n)) (Suc l) p' e lo 0 = node_leaves read (Suc l) p e lo 0"
proof -
  let ?x = "dx_get_hash blk (8 + 8 * (dx_get_count blk 8 div 2))" and ?r = "read(b := Inr blk', newblock := Inr n)"
  let ?L = "node_leaves read 0 p e lo 0" and ?lo = "entry_lo p e lo k"
  obtain p' where p': "dx_insert_block e (e + 8 * k) ?x newblock p = Some p'" "dx_get_block p' e = dx_get_block p e"
    "dx_pairs p' e = take k (dx_pairs p e) @ (?x, newblock) # drop k (dx_pairs p e)"
    using dx_insert_ok [OF refl refl assms(6-8)] by blast
  have any: "node_leaves ?r 0 p'' e'' lo'' 0 = node_leaves read 0 p'' e'' lo'' 0" for p'' e'' lo'' by (simp add: node_leaves_def)
  have L': "node_leaves ?r 0 p' e lo 0 = take (Suc k) ?L @ (?x, newblock) # drop (Suc k) ?L"
    unfolding any by (rule node_leaves_insert [OF p'(3,2) assms(6,13)])
  have L: "?L = take k ?L @ (?lo, b) # drop (Suc k) ?L" "take (Suc k) ?L = take k ?L @ [(?lo, b)]"
    using assms(6) id_take_nth_drop [of k ?L] by (simp_all add: node_leaves_nth assms(9) take_Suc_conv_app_nth)
  have same: "leaves ?r (Suc l) (snd y) (fst y) = leaves read (Suc l) (snd y) (fst y)" if "y \<in> set (take k ?L) \<union> set (drop (Suc k) ?L)" for y
  proof -
    have "\<exists>i < dx_get_count p e. i \<noteq> k \<and> y = ?L ! i"
      using that
    proof
      assume "y \<in> set (take k ?L)"
      then obtain j where "j < length (take k ?L)" "take k ?L ! j = y" by (auto simp only: in_set_conv_nth)
      then show ?thesis using assms(6) by (intro exI [of _ j]) (simp add: node_leaves_nth(2))
    next
      assume "y \<in> set (drop (Suc k) ?L)"
      then obtain j where "j < length (drop (Suc k) ?L)" "drop (Suc k) ?L ! j = y" by (auto simp only: in_set_conv_nth)
      then show ?thesis using assms(6) by (intro exI [of _ "Suc k + j"]) (simp add: node_leaves_nth(2))
    qed
    then obtain i where i: "i < dx_get_count p e" "i \<noteq> k" "y = ?L ! i" by blast
    then have "\<forall>x \<in> nodes read (Suc l) (snd y). ?r x = read x" using assms(11) by (auto simp add: node_leaves_nth simp del: nodes.simps)
    then show ?thesis by (rule leaves_cong)
  qed
  have ch: "leaves ?r l (dx_get_block blk (8 + 8 * i)) y = leaves read l (dx_get_block blk (8 + 8 * i)) y" if "i < dx_get_count blk 8" for i y
    using assms(12) that by (intro leaves_cong) auto
  have sub: "leaves ?r (Suc l) b ?lo @ leaves ?r (Suc l) newblock ?x = leaves read (Suc l) b ?lo"
  proof -
    have c: "dx_get_count blk 8 < 2 ^ 16" "8 + 8 * (dx_get_count blk 8 - dx_get_count blk 8 div 2) \<le> length node2" using assms(3-5) by auto
    note sn = split_node_leaves(1) [OF assms(1) refl assms(2) c(1) assms(3) c(2), of read ?lo]
    have "leaves ?r (Suc l) b ?lo @ leaves ?r (Suc l) newblock ?x = node_leaves ?r l blk' 8 ?lo 0 @ node_leaves ?r l n 8 ?x 0"
      using assms(14) by (simp add: leaves_Suc [where read = ?r] del: leaves.simps)
    also have "\<dots> = concat (map (\<lambda>(y, b). leaves ?r l b y) (node_leaves read 0 blk 8 ?lo 0))"
      by (simp add: node_leaves_concat [of ?r l] any sn)
    also have "\<dots> = concat (map (\<lambda>(y, b). leaves read l b y) (node_leaves read 0 blk 8 ?lo 0))"
      by (rule arg_cong [where f = concat], rule map_cong [OF refl]) (use ch in \<open>auto simp: node_leaves_def concat_map_singleton\<close>)
    also have "\<dots> = leaves read (Suc l) b ?lo" by (simp only: leaves_Suc [where read = read, OF assms(10)] node_leaves_concat [of read l])
    finally show ?thesis .
  qed
  have f: "concat (map (\<lambda>(y, b). leaves ?r (Suc l) b y) ys) = concat (map (\<lambda>(y, b). leaves read (Suc l) b y) ys)"
    if "set ys \<subseteq> set (take k ?L) \<union> set (drop (Suc k) ?L)" for ys
    by (rule arg_cong [where f = concat], rule map_cong [OF refl]) (use same that in \<open>auto simp del: leaves.simps split: prod.splits\<close>)
  have "node_leaves ?r (Suc l) p' e lo 0 = concat (map (\<lambda>(y, b). leaves ?r (Suc l) b y) (take k ?L @ [(?lo, b)] @ (?x, newblock) # drop (Suc k) ?L))"
    by (subst node_leaves_concat) (simp only: L' L(2) append_assoc)
  also have "\<dots> = concat (map (\<lambda>(y, b). leaves read (Suc l) b y) (take k ?L)) @ leaves read (Suc l) b ?lo @
      concat (map (\<lambda>(y, b). leaves read (Suc l) b y) (drop (Suc k) ?L))"
    using sub by (simp add: f del: leaves.simps)
  also have "\<dots> = concat (map (\<lambda>(y, b). leaves read (Suc l) b y) ?L)" by (subst (3) L(1)) (simp del: leaves.simps)
  also have "\<dots> = node_leaves read (Suc l) p e lo 0" by (rule node_leaves_concat [symmetric])
  finally show ?thesis using p'(1) by blast
qed

text \<open>
  Result add_level_keeps_leaves: when the root is full and a level is added to the index, the leaves stay the same, with the same lowest hashes and
  in the same order; the root has one entry, and the new block has all the others.
\<close>

theorem add_level_keeps_leaves:
  assumes "e = 24 + unat (root ! 29)" "add_level_node sb h e newblock root node2 = (root', n)" "0 < dx_get_count root e" "e + 8 * dx_get_count root e \<le> length root"
    and "8 + 8 * dx_get_count root e \<le> length node2" "length root < 2 ^ 16" "31 < e" "unat (root ! 30) < ext4_dir_htree_level sb"
    and "\<forall>i < dx_get_count root e. 0 \<notin> nodes read (unat (root ! 30)) (dx_get_block root (e + 8 * i)) \<and>
        newblock \<notin> nodes read (unat (root ! 30)) (dx_get_block root (e + 8 * i))"
    and "newblock AND 0x0fffffff = newblock" "newblock \<noteq> 0"
  shows "root_leaves (read(0 := Inr root', newblock := Inr n)) root' = root_leaves read root \<and>
    dx_get_count root' e = 1 \<and> dx_get_count n 8 = dx_get_count root e \<and> unat (root' ! 30) = unat (root ! 30) + 1"
proof -
  let ?r = "read(0 := Inr root', newblock := Inr n)" and ?c = "dx_get_count root e" and ?l = "unat (root ! 30)"
  have n: "n = dx_set_limit 8 (dx_node_limit sb h) (put 8 (slice e (8 * ?c) root) node2)"
    and r': "root' = (dx_set_block e newblock (dx_set_count e 1 root))[30 := root ! 30 + 1]"
    using assms(2,3,4,7) by (auto simp: add_level_node_def Let_def dx_set_block_def dx_set_count_def nth_put)
  have c: "?c < 2 ^ 16" using assms(4,6) by simp
  have sl: "length (slice e (8 * ?c) root) = 8 * ?c" using assms(4) by simp
  have lr: "length (dx_set_count e 1 root) = length root" using assms(3,4) by (simp add: dx_set_count_def)
  have cn: "dx_get_count n 8 = ?c"
  proof -
    let ?m = "put 8 (slice e (8 * ?c) root) node2"
    have "n ! 10 = root ! (e + 2)" "n ! 11 = root ! (e + 3)" using assms(3-5) sl by (simp_all add: n dx_set_limit_def nth_put nth_slice)
    then show ?thesis by (simp add: dx_get_count_def u16_at_def add.commute numeral_3_eq_3)
  qed
  have "node_leaves read 0 n 8 (entry_lo root e 0 0) 0 = drop 0 (node_leaves read 0 root e 0 0)"
    by (rule entries_copied [OF refl assms(3,4)]) (use assms(5) sl c cn in \<open>auto simp: n dx_set_limit_def nth_put\<close>)
  then have nn: "node_leaves read 0 n 8 0 0 = node_leaves read 0 root e 0 0" by (simp add: entry_lo_def)
  have i29: "root' ! 29 = root ! 29" using assms(3,4,7) lr by (simp add: r' dx_set_block_def dx_set_count_def nth_put nth_list_update)
  have i30: "root' ! 30 = root ! 30 + 1" using assms(3,4,7) lr by (simp add: r' dx_set_block_def)
  have u30: "unat (root' ! 30) = Suc ?l" using assms(8) by (auto simp: i30 unat_word_ariths ext4_dir_htree_level_def split: if_splits)
  let ?b = "dx_set_block e newblock (dx_set_count e 1 root)"
  have at: "root' ! i = ?b ! i" if "e \<le> i" for i using that assms(7) by (simp add: r')
  have "dx_get_count root' e = unat (u16_at (dx_set_count e 1 root) (e + 2))"
    using assms(3,4) lr by (simp add: dx_get_count_def u16_at_def at dx_set_block_def nth_put)
  also have "\<dots> = 1" using assms(3,4) by (simp add: dx_set_count_def u16_at_put)
  finally have c1: "dx_get_count root' e = 1" .
  have "u32_at root' (e + 4) = u32_at ?b (e + 4)" by (simp add: u32_at_def at)
  also have "\<dots> = newblock" using assms(3,4) lr by (simp add: dx_set_block_def u32_at_put)
  finally have b1: "dx_get_block root' e = newblock" by (simp add: dx_get_block_def assms(10))
  have any: "node_leaves ?r 0 p'' e'' lo'' 0 = node_leaves read 0 p'' e'' lo'' 0" for p'' e'' lo'' by (simp add: node_leaves_def)
  have "root_leaves ?r root' = node_leaves ?r (Suc ?l) root' e 0 0" by (simp add: root_leaves_def u30 i29 assms(1))
  also have "\<dots> = leaves ?r (Suc ?l) newblock 0"
    by (simp add: node_leaves_step [of 0] node_leaves_done c1 b1 entry_lo_def del: leaves.simps)
  also have "\<dots> = node_leaves ?r ?l n 8 0 0" by (rule leaves_Suc) simp
  also have "\<dots> = concat (map (\<lambda>(y, b). leaves ?r ?l b y) (node_leaves read 0 root e 0 0))" by (subst node_leaves_concat) (simp only: any nn)
  also have "\<dots> = concat (map (\<lambda>(y, b). leaves read ?l b y) (node_leaves read 0 root e 0 0))"
  proof (rule arg_cong [where f = concat], rule map_cong [OF refl])
    fix y assume "y \<in> set (node_leaves read 0 root e 0 0)"
    then obtain i where i: "i < ?c" "y = (entry_lo root e 0 i, dx_get_block root (e + 8 * i))" by (auto simp: node_leaves_def concat_map_singleton)
    have "leaves ?r ?l (dx_get_block root (e + 8 * i)) (entry_lo root e 0 i) = leaves read ?l (dx_get_block root (e + 8 * i)) (entry_lo root e 0 i)"
      using assms(9) i(1) by (intro leaves_cong) auto
    then show "(case y of (y, b) \<Rightarrow> leaves ?r ?l b y) = (case y of (y, b) \<Rightarrow> leaves read ?l b y)" by (simp add: i(2))
  qed
  also have "\<dots> = root_leaves read root" by (simp only: root_leaves_def assms(1) [symmetric] node_leaves_concat [of read ?l])
  finally show ?thesis using c1 cn u30 by simp
qed

definition demo_index :: "u32 \<Rightarrow> int + u8 list" where
  "demo_index b = (if b = 5 then Inr demo_dx_block else Inl (- EIO))"

lemma demo_dx_block_fields: "dx_get_count demo_dx_block 8 = 2" "length demo_dx_block = 1024"
  by (simp_all add: demo_dx_block_def dx_get_count_def u16_at_def nth_put le16_def get_le16_def)

theorem index_split_keeps_leaves_witness:
  "\<exists>b n p'. split_node demo_sb False 8 demo_dx_block (replicate 1024 0) = (b, n) \<and>
     node_leaves (demo_index(5 := Inr b, 7 := Inr n)) (Suc 0) p' 32 0 0 = node_leaves demo_index (Suc 0) demo_dx_root 32 0 0"
proof -
  obtain b n where s: "split_node demo_sb False 8 demo_dx_block (replicate 1024 0) = (b, n)" by (metis prod.exhaust)
  show ?thesis
    using index_split_keeps_leaves [OF s, of 0 demo_dx_root 32 5 demo_index 0 7 0] demo_dx_root_fields demo_dx_block_fields s
    by (auto simp: demo_index_def)
qed

theorem add_level_keeps_leaves_witness:
  "\<exists>r n. add_level_node demo_sb False 32 7 demo_dx_root (replicate 1024 0) = (r, n) \<and> dx_get_count r 32 = 1"
proof -
  obtain r n where s: "add_level_node demo_sb False 32 7 demo_dx_root (replicate 1024 0) = (r, n)" by (metis prod.exhaust)
  show ?thesis
    using add_level_keeps_leaves [OF _ s, of demo_index] demo_dx_root_fields s by (auto simp: ext4_dir_htree_level_def)
qed

section \<open>Adding an entry to a leaf of an index\<close>

lemma spread_insert:
  assumes "spread hv names (pre @ (lo0, b0) # R)" "lo0 \<le> hv n" "R \<noteq> [] \<longrightarrow> hv n < fst (hd R)" "hv n AND 1 = 0" "b0 \<notin> snd ` set (pre @ R)"
  shows "spread hv (names(b0 := insert n (names b0))) (pre @ (lo0, b0) # R)"
proof -
  let ?L = "pre @ (lo0, b0) # R" and ?names = "names(b0 := insert n (names b0))"
  have "hv m AND 1 = 0 \<and> fst (?L ! i) AND NOT 1 \<le> hv m \<and> (Suc i < length ?L \<longrightarrow> hv m < fst (?L ! Suc i))"
    if i: "i < length ?L" and m: "m \<in> ?names (snd (?L ! i))" for i m
  proof (cases "m \<in> names (snd (?L ! i))")
    case True
    then show ?thesis using assms(1) i unfolding spread_def by blast
  next
    case False
    then have b: "snd (?L ! i) = b0" "m = n" using m by (auto split: if_splits)
    have k: "i = length pre"
    proof (rule ccontr)
      assume "i \<noteq> length pre"
      then have "?L ! i \<in> set (pre @ R)" using i by (auto simp: nth_append nth_Cons')
      then show False using b(1) assms(5) by (metis image_eqI)
    qed
    have "lo0 AND NOT 1 \<le> hv n AND NOT 1" using assms(2) by (rule even_part_mono)
    then show ?thesis using assms(3,4) b(2) k even_part_even [OF assms(4)] by (auto simp: nth_append hd_conv_nth)
  qed
  then show ?thesis using assms(1) unfolding spread_def by blast
qed



end
