(* ===== verification/Ext4_Exttree.thy ===== *)
theory Ext4_Exttree
  imports Evfs_Extent
begin

unbundle bit_operations_syntax

text \<open>
  The extent tree as it is changed in memory: \<open>src/linux-6.8/fs/ext4/extents.c\<close>, \<open>ext4_ext_insert_index\<close>, \<open>ext4_ext_split\<close>,
  \<open>ext4_ext_grow_indepth\<close> and \<open>ext4_ext_create_new_leaf\<close>. The nodes are held by the block they are in, new blocks come from a list of what the
  allocator will answer, and every call that can fail has its own answer in the environment. Then what such a tree holds (its
  extents in order, its blocks), its invariant, and the path that a search follows.
\<close>

section \<open>The tree in memory\<close>

text \<open>
  The nodes by where they are: \<open>None\<close> is the header in the inode, \<open>Some p\<close> the block \<open>p\<close>. \<open>et_pool\<close> are the blocks that
  \<open>ext4_new_meta_blocks\<close> will hand out, in this order; when it is empty the allocation fails. \<open>et_freed\<close> are the blocks
  given to \<open>ext4_free_blocks\<close>.
\<close>

record etree =
  et_node :: "u64 option \<Rightarrow> ext_node option"
  et_pool :: "u64 list"
  et_freed :: "u64 list"

text \<open>
  The calls that can fail, by the depth of the tree at that moment and the level in the path; \<open>X_getblk\<close> stands for a missing buffer
  when it is not 0, \<open>X_nospace\<close> is the error of an allocation without a block, \<open>X_extend\<close> the answer of \<open>ext4_journal_extend\<close>.
\<close>

datatype xcall = X_access nat nat | X_dirty nat nat | X_getblk u64 | X_create u64 | X_meta u64 | X_nospace | X_array nat | X_mem nat | X_mark nat | X_extend

definition et_get :: "etree \<Rightarrow> u64 option \<Rightarrow> ext_node" where
  "et_get T l = the (et_node T l)"

definition et_put :: "u64 option \<Rightarrow> ext_node \<Rightarrow> etree \<Rightarrow> etree" where
  "et_put l eh T = T\<lparr>et_node := (et_node T)(l \<mapsto> eh)\<rparr>"

abbreviation et_root :: "etree \<Rightarrow> ext_node" where
  "et_root T \<equiv> et_get T None"

definition ext_depth :: "etree \<Rightarrow> nat" where
  "ext_depth T = unat (eh_depth (et_root T))"

text \<open>Reading a node of the tree that is in the cache and was verified.\<close>

type_synonym nodes = "u64 option \<Rightarrow> ext_node option"

definition et_read :: "nodes \<Rightarrow> ext4_extent_idx \<Rightarrow> nat \<Rightarrow> int + ext_node" where
  "et_read N ix i = (case N (Some (ei_pblock ix)) of None \<Rightarrow> Inl (- EIO) | Some eh \<Rightarrow> Inr eh)"

text \<open>Where the nodes of a path are, with the position in each; a path ends in a leaf.\<close>

type_synonym level = "u64 option \<times> nat"

fun path_levels :: "u64 option \<Rightarrow> ext4_ext_path list \<Rightarrow> level list" where
  "path_levels l [] = []"
| "path_levels l [p] = []"
| "path_levels l (p # q # ps) = (l, p_idx p) # path_levels (Some (ei_pblock (eh_idxs (p_hdr p) ! p_idx p))) (q # ps)"

fun path_leaf :: "u64 option \<Rightarrow> ext4_ext_path list \<Rightarrow> u64 option" where
  "path_leaf l [] = l"
| "path_leaf l [p] = l"
| "path_leaf l (p # q # ps) = path_leaf (Some (ei_pblock (eh_idxs (p_hdr p) ! p_idx p))) (q # ps)"

text \<open>\<open>ext4_ext_get_access\<close> and \<open>__ext4_ext_dirty\<close>: the header in the inode needs no access, and is written with the inode.\<close>

definition ext4_ext_get_access :: "(xcall \<Rightarrow> int) \<Rightarrow> nat \<Rightarrow> u64 option \<Rightarrow> nat \<Rightarrow> int" where
  "ext4_ext_get_access A d l lvl = (case l of None \<Rightarrow> 0 | Some p \<Rightarrow> A (X_access d lvl))"

definition ext4_ext_dirty :: "(xcall \<Rightarrow> int) \<Rightarrow> nat \<Rightarrow> u64 option \<Rightarrow> nat \<Rightarrow> int" where
  "ext4_ext_dirty A d l lvl = (case l of None \<Rightarrow> A (X_mark d) | Some p \<Rightarrow> A (X_dirty d lvl))"

section \<open>Inserting an index\<close>

definition ext4_ext_insert_index :: "(xcall \<Rightarrow> int) \<Rightarrow> nat \<Rightarrow> nat \<Rightarrow> level \<Rightarrow> u32 \<Rightarrow> u64 \<Rightarrow> etree \<Rightarrow> int \<times> etree" where
  "ext4_ext_insert_index A d lvl curp logical ptr T =
     (let l = fst curp; pos = snd curp; eh = et_get T l; err = ext4_ext_get_access A d l lvl
      in if err \<noteq> 0 then (err, T)
         else if logical = ei_block (eh_idxs eh ! pos) then (- EUCLEAN, T)
         else if length (eh_idxs eh) \<ge> unat (eh_max eh) then (- EUCLEAN, T)
         else (let ix = (if logical > ei_block (eh_idxs eh ! pos) then Suc pos else pos)
               in if Suc ix > unat (eh_max eh) then (- EUCLEAN, T)
                  else (let T = et_put l (eh\<lparr>eh_idxs := list_insert ix \<lparr>ei_block = logical, ei_pblock = ptr\<rparr> (eh_idxs eh)\<rparr>) T
                        in if ix > length (eh_idxs eh) then (- EUCLEAN, T) else (ext4_ext_dirty A d l lvl, T))))"

section \<open>Splitting\<close>

text \<open>The header of a new node.\<close>

definition new_leaf :: "ext_ops \<Rightarrow> super_block \<Rightarrow> ext4_extent list \<Rightarrow> ext_node" where
  "new_leaf X sb es = \<lparr>eh_magic = EXT4_EXT_MAGIC X, eh_max = of_nat (ext4_ext_space_block X sb), eh_depth = 0, eh_exts = es, eh_idxs = []\<rparr>"

definition new_index :: "ext_ops \<Rightarrow> super_block \<Rightarrow> nat \<Rightarrow> ext4_extent_idx list \<Rightarrow> ext_node" where
  "new_index X sb depth is =
     \<lparr>eh_magic = EXT4_EXT_MAGIC X, eh_max = of_nat (ext4_ext_space_block_idx X sb), eh_depth = of_nat depth, eh_exts = [], eh_idxs = is\<rparr>"

text \<open>What follows the position in an old node leaves it; nothing is done when nothing follows.\<close>

definition shrink :: "(xcall \<Rightarrow> int) \<Rightarrow> nat \<Rightarrow> u64 option \<Rightarrow> nat \<Rightarrow> nat \<Rightarrow> ext_node \<Rightarrow> etree \<Rightarrow> int \<times> etree" where
  "shrink A d l lvl m eh T =
     (if m = 0 then (0, T)
      else (let err = ext4_ext_get_access A d l lvl
            in if err \<noteq> 0 then (err, T) else (ext4_ext_dirty A d l lvl, et_put l eh T)))"

text \<open>
  The loop that makes the intermediate index nodes, from the level above the leaf upwards: \<open>lvls\<close> are the levels still to be split,
  the lowest first, \<open>bs\<close> the blocks for them, \<open>oldblock\<close> the node made before.
\<close>

fun split_up :: "(xcall \<Rightarrow> int) \<Rightarrow> ext_ops \<Rightarrow> super_block \<Rightarrow> nat \<Rightarrow> u32 \<Rightarrow> level list \<Rightarrow> u64 list \<Rightarrow> u64 \<Rightarrow> nat \<Rightarrow> etree \<Rightarrow> int \<times> u64 \<times> etree" where
  "split_up A X sb d border [] bs oldblock i T = (0, oldblock, T)"
| "split_up A X sb d border ((l, pos) # lvls) [] oldblock i T = (- EUCLEAN, oldblock, T)"
| "split_up A X sb d border ((l, pos) # lvls) (newblock # bs) oldblock i T =
     (let eh = et_get T l
      in if A (X_getblk newblock) \<noteq> 0 then (- ENOMEM, newblock, T)
         else if A (X_create newblock) \<noteq> 0 then (A (X_create newblock), newblock, T)
         else if length (eh_idxs eh) \<noteq> unat (eh_max eh) then (- EUCLEAN, newblock, T)
         else (let rest = drop (Suc pos) (eh_idxs eh);
                   T = et_put (Some newblock) (new_index X sb (d - i) (\<lparr>ei_block = border, ei_pblock = oldblock\<rparr> # rest)) T
               in if A (X_meta newblock) \<noteq> 0 then (A (X_meta newblock), newblock, T)
                  else (case shrink A d l i (length rest) (eh\<lparr>eh_idxs := take (Suc pos) (eh_idxs eh)\<rparr>) T of
                          (err, T) \<Rightarrow> if err \<noteq> 0 then (err, newblock, T) else split_up A X sb d border lvls bs newblock (i - 1) T)))"

text \<open>The new leaf and the old one.\<close>

definition split_leaf :: "(xcall \<Rightarrow> int) \<Rightarrow> ext_ops \<Rightarrow> super_block \<Rightarrow> nat \<Rightarrow> u64 option \<Rightarrow> nat \<Rightarrow> u64 \<Rightarrow> etree \<Rightarrow> int \<times> etree" where
  "split_leaf A X sb d l k newblock T =
     (let eh = et_get T l
      in if newblock = 0 then (- EUCLEAN, T)
         else if A (X_getblk newblock) \<noteq> 0 then (- ENOMEM, T)
         else if A (X_create newblock) \<noteq> 0 then (A (X_create newblock), T)
         else if length (eh_exts eh) \<noteq> unat (eh_max eh) then (- EUCLEAN, T)
         else (let rest = drop (Suc k) (eh_exts eh); T = et_put (Some newblock) (new_leaf X sb rest) T
               in if A (X_meta newblock) \<noteq> 0 then (A (X_meta newblock), T)
                  else shrink A d l d (length rest) (eh\<lparr>eh_exts := take (Suc k) (eh_exts eh)\<rparr>) T))"

text \<open>
  \<open>ext4_ext_split\<close>: \<open>lvls\<close> are the index nodes of the path from the root, \<open>l\<close> and \<open>k\<close> the leaf and the position in it, \<open>at\<close> the level
  with a free entry. The new blocks are used from the last to the first. When the leaf is not full the border is read behind its
  entries, which does not matter because such a leaf is refused.
\<close>

definition ext4_ext_split ::
    "(xcall \<Rightarrow> int) \<Rightarrow> ext_ops \<Rightarrow> super_block \<Rightarrow> level list \<Rightarrow> u64 option \<Rightarrow> nat \<Rightarrow> ext4_extent \<Rightarrow> nat \<Rightarrow> etree \<Rightarrow> int \<times> etree" where
  "ext4_ext_split A X sb lvls l k newext at T =
     (let depth = length lvls; eh = et_get T l
      in if Suc k > unat (eh_max eh) then (- EUCLEAN, T)
         else (let border = (if Suc k \<noteq> unat (eh_max eh) then (if Suc k < length (eh_exts eh) then ee_block (eh_exts eh ! Suc k) else 0)
                             else ee_block newext)
               in if A (X_array depth) \<noteq> 0 then (- ENOMEM, T)
                  else (let ablocks = take (depth - at) (et_pool T); T = T\<lparr>et_pool := drop (depth - at) (et_pool T)\<rparr>;
                            free = (\<lambda>T. T\<lparr>et_freed := et_freed T @ ablocks\<rparr>)
                        in if length ablocks < depth - at then (A X_nospace, if A X_nospace \<noteq> 0 then free T else T)
                           else (case rev ablocks of
                                   [] \<Rightarrow> (- EUCLEAN, T)
                                 | newblock # bs \<Rightarrow>
                                     (case split_leaf A X sb depth l k newblock T of
                                        (err, T) \<Rightarrow>
                                          if err \<noteq> 0 then (err, free T)
                                          else (case split_up A X sb depth border (rev (drop (Suc at) lvls)) bs newblock (depth - 1) T of
                                                  (err, newblock, T) \<Rightarrow>
                                                    if err \<noteq> 0 then (err, free T)
                                                    else (case ext4_ext_insert_index A depth at (lvls ! at) border newblock T of
                                                            (err, T) \<Rightarrow> if err \<noteq> 0 then (err, free T) else (0, T))))))))"

section \<open>Growing\<close>

definition ext4_ext_grow_indepth :: "(xcall \<Rightarrow> int) \<Rightarrow> ext_ops \<Rightarrow> super_block \<Rightarrow> etree \<Rightarrow> int \<times> etree" where
  "ext4_ext_grow_indepth A X sb T =
     (let root = et_root T; depth = ext_depth T
      in case et_pool T of
           [] \<Rightarrow> (A X_nospace, T)
         | newblock # pool \<Rightarrow>
             (let T = T\<lparr>et_pool := pool\<rparr>
              in if A (X_getblk newblock) \<noteq> 0 then (- ENOMEM, T)
                 else if A (X_create newblock) \<noteq> 0 then (A (X_create newblock), T)
                 else (let neh = root\<lparr>eh_max := of_nat (if depth \<noteq> 0 then ext4_ext_space_block_idx X sb else ext4_ext_space_block X sb),
                                      eh_magic := EXT4_EXT_MAGIC X\<rparr>;
                           T = et_put (Some newblock) neh T
                       in if A (X_meta newblock) \<noteq> 0 then (A (X_meta newblock), T)
                          else (let border = (if depth = 0 then ee_block (hd (eh_exts root)) else ei_block (hd (eh_idxs root)));
                                    root' = root\<lparr>eh_exts := [], eh_idxs := [\<lparr>ei_block = border, ei_pblock = newblock\<rparr>],
                                               eh_max := (if depth = 0 then of_nat (ext4_ext_space_root_idx X) else eh_max root),
                                               eh_depth := eh_depth root + 1\<rparr>
                                in (A (X_mark depth), et_put None root' T)))))"

text \<open>
  \<open>EXT_HAS_FREE_INDEX\<close>, and the walk up from the leaf to the lowest node with a free entry.
\<close>

definition has_free :: "ext_node \<Rightarrow> bool" where
  "has_free eh = (eh_entries eh < unat (eh_max eh))"

fun free_level :: "etree \<Rightarrow> level list \<Rightarrow> nat \<Rightarrow> nat" where
  "free_level T lvls 0 = 0"
| "free_level T lvls (Suc i) = (if has_free (et_get T (fst (lvls ! i))) then i else free_level T lvls i)"

text \<open>
  \<open>ext4_ext_create_new_leaf\<close>, called when the leaf of the path is full. \<open>None\<close> is a path that ends in an empty leaf, whose entry
  the code would dereference, or a repetition without end.
\<close>

partial_function (option) ext4_ext_create_new_leaf ::
    "(xcall \<Rightarrow> int) \<Rightarrow> ext_ops \<Rightarrow> super_block \<Rightarrow> ext4_extent \<Rightarrow> ext4_ext_path list \<Rightarrow> etree \<Rightarrow> ((int + ext4_ext_path list) \<times> etree) option" where
  "ext4_ext_create_new_leaf A X sb newext path T =
     (let lvls = path_levels None path; l = path_leaf None path; i = free_level T lvls (length lvls)
      in if lvls \<noteq> [] \<and> has_free (et_get T (fst (lvls ! i))) then
           (case p_ext (last path) of
              None \<Rightarrow> None
            | Some k \<Rightarrow>
                (case ext4_ext_split A X sb lvls l k newext i T of
                   (err, T) \<Rightarrow>
                     if err \<noteq> 0 then Some (Inl err, T)
                     else Some (ext4_find_extent X (A (X_mem (ext_depth T)) = 0) (et_read (et_node T)) (et_root T) (ee_block newext), T)))
         else
           (case ext4_ext_grow_indepth A X sb T of
              (err, T) \<Rightarrow>
                if err \<noteq> 0 then Some (Inl err, T)
                else (case ext4_find_extent X (A (X_mem (ext_depth T)) = 0) (et_read (et_node T)) (et_root T) (ee_block newext) of
                        Inl err \<Rightarrow> Some (Inl err, T)
                      | Inr path \<Rightarrow>
                          if eh_entries (p_hdr (last path)) = unat (eh_max (p_hdr (last path)))
                          then ext4_ext_create_new_leaf A X sb newext path T
                          else Some (Inr path, T))))"

section \<open>What a tree in memory holds\<close>

text \<open>The extents below an index, and the blocks that a tree occupies.\<close>

abbreviation flat :: "nodes \<Rightarrow> nat \<Rightarrow> ext_node \<Rightarrow> ext4_extent list" where
  "flat N \<equiv> tree_exts (et_read N)"

definition kid :: "nodes \<Rightarrow> nat \<Rightarrow> ext4_extent_idx \<Rightarrow> ext4_extent list" where
  "kid N i ix = (case N (Some (ei_pblock ix)) of None \<Rightarrow> [] | Some c \<Rightarrow> flat N i c)"

lemma flat_Suc [simp]: "flat N (Suc i) eh = concat (map (kid N i) (eh_idxs eh))"
  by (auto simp: kid_def et_read_def tree_exts.simps intro!: arg_cong [where f = concat] map_cong split: option.splits)

declare tree_exts.simps(2) [simp del]

lemma kid_Some: "N (Some (ei_pblock ix)) = Some c \<Longrightarrow> kid N i ix = flat N i c"
  by (simp add: kid_def)

fun tree_blocks :: "nodes \<Rightarrow> nat \<Rightarrow> ext_node \<Rightarrow> u64 list" where
  "tree_blocks N 0 eh = []"
| "tree_blocks N (Suc i) eh =
     concat (map (\<lambda>ix. ei_pblock ix # (case N (Some (ei_pblock ix)) of None \<Rightarrow> [] | Some c \<Rightarrow> tree_blocks N i c)) (eh_idxs eh))"

definition kid_blocks :: "nodes \<Rightarrow> nat \<Rightarrow> ext4_extent_idx \<Rightarrow> u64 list" where
  "kid_blocks N i ix = ei_pblock ix # (case N (Some (ei_pblock ix)) of None \<Rightarrow> [] | Some c \<Rightarrow> tree_blocks N i c)"

lemma tree_blocks_Suc: "tree_blocks N (Suc i) eh = concat (map (kid_blocks N i) (eh_idxs eh))"
  by (auto simp: kid_blocks_def intro!: arg_cong [where f = concat] map_cong)

declare tree_blocks.simps(2) [simp del]

text \<open>A tree depends only on the nodes at its blocks.\<close>

lemma tree_cong:
  assumes "\<And>p. p \<in> set (tree_blocks N i eh) \<Longrightarrow> N' (Some p) = N (Some p)"
  shows "flat N' i eh = flat N i eh \<and> tree_blocks N' i eh = tree_blocks N i eh"
  using assms
proof (induction i arbitrary: eh)
  case (Suc i)
  have k: "kid N' i ix = kid N i ix \<and> kid_blocks N' i ix = kid_blocks N i ix" if ix: "ix \<in> set (eh_idxs eh)" for ix
  proof -
    have p: "N' (Some p) = N (Some p)" if "p \<in> set (kid_blocks N i ix)" for p
      using Suc.prems [of p] ix that by (auto simp: tree_blocks_Suc)
    then have e: "N' (Some (ei_pblock ix)) = N (Some (ei_pblock ix))" by (simp add: kid_blocks_def)
    show ?thesis
    proof (cases "N (Some (ei_pblock ix))")
      case None
      then show ?thesis using e by (simp add: kid_def kid_blocks_def)
    next
      case (Some c)
      then show ?thesis using e p Suc.IH [of c] by (simp add: kid_def kid_blocks_def)
    qed
  qed
  then show ?case unfolding flat_Suc tree_blocks_Suc by (auto cong: map_cong)
qed simp

lemma kid_cong:
  assumes "\<And>p. p \<in> set (kid_blocks N i ix) \<Longrightarrow> N' (Some p) = N (Some p)"
  shows "kid N' i ix = kid N i ix" "kid_blocks N' i ix = kid_blocks N i ix"
proof -
  have e: "N' (Some (ei_pblock ix)) = N (Some (ei_pblock ix))" using assms by (simp add: kid_blocks_def)
  have "kid N' i ix = kid N i ix \<and> kid_blocks N' i ix = kid_blocks N i ix"
  proof (cases "N (Some (ei_pblock ix))")
    case None
    then show ?thesis using e by (simp add: kid_def kid_blocks_def)
  next
    case (Some c)
    then show ?thesis using e assms tree_cong [of N i c N'] by (simp add: kid_def kid_blocks_def)
  qed
  then show "kid N' i ix = kid N i ix" "kid_blocks N' i ix = kid_blocks N i ix" by simp_all
qed

text \<open>Keys with the extents below them: each key is a lower bound, and the next key an upper bound.\<close>

fun keyed :: "ext_ops \<Rightarrow> (u32 \<times> ext4_extent list) list \<Rightarrow> bool" where
  "keyed X [] = True"
| "keyed X (ke # kes) =
     (exts_ok X (snd ke) \<and> (\<forall>e \<in> set (snd ke). unat (fst ke) \<le> ext_start e) \<and>
      (\<forall>ke' \<in> set kes. fst ke < fst ke' \<and> (\<forall>e \<in> set (snd ke). ext_end X e \<le> unat (fst ke'))) \<and> keyed X kes)"

lemma keyed_append:
  "keyed X (as @ bs) = (keyed X as \<and> keyed X bs \<and>
     (\<forall>a \<in> set as. \<forall>b \<in> set bs. fst a < fst b \<and> (\<forall>e \<in> set (snd a). ext_end X e \<le> unat (fst b))))"
  by (induction as) auto

lemma keyed_bounds: "keyed X kes \<Longrightarrow> ke \<in> set kes \<Longrightarrow> exts_ok X (snd ke) \<and> (\<forall>e \<in> set (snd ke). unat (fst ke) \<le> ext_start e)"
  by (induction kes) auto

lemma keyed_exts: "keyed X kes \<Longrightarrow> exts_ok X (concat (map snd kes))"
proof (induction kes)
  case (Cons ke kes)
  then have "ext_end X e \<le> ext_start f" if "e \<in> set (snd ke)" "f \<in> set (concat (map snd kes))" for e f
    using that keyed_bounds [of X kes] by fastforce
  then show ?case using Cons by (auto simp: exts_ok_append)
qed simp

lemma keyed_keys: "keyed X kes \<Longrightarrow> sorted_wrt (<) (map fst kes)"
  by (induction kes) auto

definition kids :: "nodes \<Rightarrow> nat \<Rightarrow> ext4_extent_idx list \<Rightarrow> (u32 \<times> ext4_extent list) list" where
  "kids N i is = map (\<lambda>ix. (ei_block ix, kid N i ix)) is"

lemma kids_simps [simp]:
  "kids N i [] = []" "kids N i (ix # is) = (ei_block ix, kid N i ix) # kids N i is"
  "kids N i (is @ js) = kids N i is @ kids N i js" "map snd (kids N i is) = map (kid N i) is" "map fst (kids N i is) = map ei_block is"
  by (simp_all add: kids_def comp_def)

lemma set_kids [simp]: "set (kids N i is) = (\<lambda>ix. (ei_block ix, kid N i ix)) ` set is"
  by (simp add: kids_def)

text \<open>The header of a node below the root.\<close>

definition node_space :: "ext_ops \<Rightarrow> super_block \<Rightarrow> nat \<Rightarrow> nat" where
  "node_space X sb i = (if i = 0 then ext4_ext_space_block X sb else ext4_ext_space_block_idx X sb)"

definition head_ok :: "ext_ops \<Rightarrow> super_block \<Rightarrow> nat \<Rightarrow> ext_node \<Rightarrow> bool" where
  "head_ok X sb i eh \<longleftrightarrow> eh_magic eh = EXT4_EXT_MAGIC X \<and> unat (eh_depth eh) = i \<and> 2 \<le> unat (eh_max eh) \<and>
     unat (eh_max eh) \<le> node_space X sb i \<and> eh_entries eh \<le> unat (eh_max eh)"

text \<open>
  The invariant of a tree. \<open>Z\<close> are blocks whose key need not be that of their first extent, as while a new leaf is still empty; it is
  empty for a tree at rest.
\<close>

fun tree_inv :: "ext_ops \<Rightarrow> super_block \<Rightarrow> u64 set \<Rightarrow> nodes \<Rightarrow> nat \<Rightarrow> ext_node \<Rightarrow> bool" where
  "tree_inv X sb Z N 0 eh = (eh_idxs eh = [] \<and> exts_ok X (eh_exts eh))"
| "tree_inv X sb Z N (Suc i) eh =
     (eh_exts eh = [] \<and> eh_idxs eh \<noteq> [] \<and> keyed X (kids N i (eh_idxs eh)) \<and>
      (\<forall>ix \<in> set (eh_idxs eh). (case N (Some (ei_pblock ix)) of None \<Rightarrow> False | Some c \<Rightarrow> head_ok X sb i c \<and> tree_inv X sb Z N i c) \<and>
         (ei_pblock ix \<in> Z \<or> (kid N i ix \<noteq> [] \<and> ee_block (hd (kid N i ix)) = ei_block ix))))"

definition kid_inv :: "ext_ops \<Rightarrow> super_block \<Rightarrow> u64 set \<Rightarrow> nodes \<Rightarrow> nat \<Rightarrow> ext4_extent_idx \<Rightarrow> bool" where
  "kid_inv X sb Z N i ix \<longleftrightarrow>
     (case N (Some (ei_pblock ix)) of None \<Rightarrow> False | Some c \<Rightarrow> head_ok X sb i c \<and> tree_inv X sb Z N i c) \<and>
     (ei_pblock ix \<in> Z \<or> (kid N i ix \<noteq> [] \<and> ee_block (hd (kid N i ix)) = ei_block ix))"

lemma tree_inv_Suc:
  "tree_inv X sb Z N (Suc i) eh =
     (eh_exts eh = [] \<and> eh_idxs eh \<noteq> [] \<and> keyed X (kids N i (eh_idxs eh)) \<and> (\<forall>ix \<in> set (eh_idxs eh). kid_inv X sb Z N i ix))"
  by (simp add: kid_inv_def)

declare tree_inv.simps(2) [simp del]

lemma tree_inv_exts: "tree_inv X sb Z N i eh \<Longrightarrow> exts_ok X (flat N i eh)"
  by (cases i) (auto simp: tree_inv_Suc dest: keyed_exts)

lemma tree_inv_cong:
  assumes "\<And>p. p \<in> set (tree_blocks N i eh) \<Longrightarrow> N' (Some p) = N (Some p)" "set (tree_blocks N i eh) \<inter> Z \<subseteq> Z'" "tree_inv X sb Z N i eh"
  shows "tree_inv X sb Z' N' i eh"
  using assms
proof (induction i arbitrary: eh)
  case (Suc i)
  have b: "set (kid_blocks N i ix) \<subseteq> set (tree_blocks N (Suc i) eh)" if "ix \<in> set (eh_idxs eh)" for ix
    using that by (auto simp: tree_blocks_Suc)
  have k: "kid N' i ix = kid N i ix" if ix: "ix \<in> set (eh_idxs eh)" for ix
    by (rule kid_cong) (use Suc.prems(1) b [OF ix] in blast)
  have "kid_inv X sb Z' N' i ix" if ix: "ix \<in> set (eh_idxs eh)" for ix
  proof -
    have v: "kid_inv X sb Z N i ix" using Suc.prems(3) ix unfolding tree_inv_Suc by blast
    then obtain c where c: "N (Some (ei_pblock ix)) = Some c" "head_ok X sb i c" "tree_inv X sb Z N i c" by (auto simp: kid_inv_def split: option.splits)
    have s: "set (tree_blocks N i c) \<subseteq> set (kid_blocks N i ix)" "ei_pblock ix \<in> set (kid_blocks N i ix)" using c(1) by (auto simp: kid_blocks_def)
    have "tree_inv X sb Z' N' i c" by (rule Suc.IH [OF _ _ c(3)]) (use Suc.prems(1,2) b [OF ix] s in blast)+
    moreover have "N' (Some (ei_pblock ix)) = Some c" using Suc.prems(1) b [OF ix] s(2) c(1) by auto
    ultimately show ?thesis using v k [OF ix] c Suc.prems(2) b [OF ix] s(2) by (auto simp: kid_inv_def)
  qed
  moreover have "kids N' i (eh_idxs eh) = kids N i (eh_idxs eh)" using k by (simp add: kids_def)
  ultimately show ?case using Suc.prems(3) unfolding tree_inv_Suc by simp
qed simp

section \<open>Paths\<close>

text \<open>The levels lead from a node to a leaf; the extents before and after that leaf.\<close>

definition kid_at :: "nodes \<Rightarrow> ext_node \<Rightarrow> nat \<Rightarrow> ext_node" where
  "kid_at N eh pos = the (N (Some (ei_pblock (eh_idxs eh ! pos))))"

fun on_path :: "nodes \<Rightarrow> nat \<Rightarrow> ext_node \<Rightarrow> u64 option \<Rightarrow> level list \<Rightarrow> u64 option \<Rightarrow> bool" where
  "on_path N 0 eh l lvls leaf = (lvls = [] \<and> leaf = l \<and> N l = Some eh)"
| "on_path N (Suc i) eh l lvls leaf =
     (N l = Some eh \<and> (case lvls of [] \<Rightarrow> False
        | (m, pos) # ls \<Rightarrow> m = l \<and> pos < length (eh_idxs eh) \<and> N (Some (ei_pblock (eh_idxs eh ! pos))) \<noteq> None \<and>
            on_path N i (kid_at N eh pos) (Some (ei_pblock (eh_idxs eh ! pos))) ls leaf))"

fun before :: "nodes \<Rightarrow> nat \<Rightarrow> ext_node \<Rightarrow> level list \<Rightarrow> ext4_extent list" where
  "before N (Suc i) eh ((m, pos) # ls) = concat (map (kid N i) (take pos (eh_idxs eh))) @ before N i (kid_at N eh pos) ls"
| "before N i eh ls = []"

fun after :: "nodes \<Rightarrow> nat \<Rightarrow> ext_node \<Rightarrow> level list \<Rightarrow> ext4_extent list" where
  "after N (Suc i) eh ((m, pos) # ls) = after N i (kid_at N eh pos) ls @ concat (map (kid N i) (drop (Suc pos) (eh_idxs eh)))"
| "after N i eh ls = []"

lemma on_path_length: "on_path N i eh l lvls leaf \<Longrightarrow> length lvls = i"
  by (induction i arbitrary: eh l lvls) (auto split: list.splits)

lemma on_path_leaf: "on_path N i eh l lvls leaf \<Longrightarrow> N leaf \<noteq> None"
  by (induction i arbitrary: eh l lvls) (auto split: list.splits)

lemma on_path_SucE:
  assumes "on_path N (Suc i) eh l lvls leaf"
  obtains pos ls c where "lvls = (l, pos) # ls" "N l = Some eh" "pos < length (eh_idxs eh)" "kid_at N eh pos = c"
    "N (Some (ei_pblock (eh_idxs eh ! pos))) = Some c" "on_path N i c (Some (ei_pblock (eh_idxs eh ! pos))) ls leaf"
  using assms by (auto simp: kid_at_def split: list.splits)

lemma idxs_split: "pos < length is \<Longrightarrow> is = take pos is @ is ! pos # drop (Suc pos) is"
  by (rule id_take_nth_drop)

lemma concat_kids_split:
  "pos < length is \<Longrightarrow> concat (map (kid N i) is) =
     concat (map (kid N i) (take pos is)) @ kid N i (is ! pos) @ concat (map (kid N i) (drop (Suc pos) is))"
  by (subst idxs_split [of pos "is"]) simp_all

lemma flat_path:
  "on_path N i eh l lvls leaf \<Longrightarrow> flat N i eh = before N i eh lvls @ eh_exts (the (N leaf)) @ after N i eh lvls"
proof (induction i arbitrary: eh l lvls)
  case (Suc i)
  from Suc.prems obtain pos ls c where p: "lvls = (l, pos) # ls" "pos < length (eh_idxs eh)" "kid_at N eh pos = c"
    "N (Some (ei_pblock (eh_idxs eh ! pos))) = Some c" "on_path N i c (Some (ei_pblock (eh_idxs eh ! pos))) ls leaf"
    by (rule on_path_SucE)
  then show ?case using Suc.IH [OF p(5)] concat_kids_split [OF p(2), of N i] by (simp add: kid_Some)
qed simp

text \<open>Looking for a block, as \<open>ext4_find_extent\<close> does, by levels.\<close>

fun seek :: "nodes \<Rightarrow> nat \<Rightarrow> ext_node \<Rightarrow> u64 option \<Rightarrow> u32 \<Rightarrow> level list \<times> u64 option" where
  "seek N 0 eh l b = ([], l)"
| "seek N (Suc i) eh l b =
     (let pos = ext4_ext_binsearch_idx eh b
      in case seek N i (kid_at N eh pos) (Some (ei_pblock (eh_idxs eh ! pos))) b of (ls, leaf) \<Rightarrow> ((l, pos) # ls, leaf))"

lemma binsearch_idx_unique:
  assumes "sorted_wrt (<) (map ei_block (eh_idxs eh))" "k < length (eh_idxs eh)" "k = 0 \<or> ei_block (eh_idxs eh ! k) \<le> b"
    and "Suc k < length (eh_idxs eh) \<Longrightarrow> b < ei_block (eh_idxs eh ! Suc k)"
  shows "ext4_ext_binsearch_idx eh b = k"
proof -
  let ?is = "eh_idxs eh" and ?j = "ext4_ext_binsearch_idx eh b"
  have ne: "?is \<noteq> []" using assms(2) by auto
  note j = binsearch_idx_pos [OF assms(1) ne, of b]
  have "\<not> k < ?j"
  proof
    assume lt: "k < ?j"
    then have "ei_block (?is ! Suc k) \<le> ei_block (?is ! ?j)" using sorted_keys [OF assms(1), of "Suc k" ?j] j(1) by simp
    moreover have "b < ei_block (?is ! Suc k)" using assms(4) lt j(1) by simp
    ultimately show False using j(2) lt by auto
  qed
  moreover have "\<not> ?j < k"
  proof
    assume "?j < k"
    then have "b < ei_block (?is ! k)" using j(3) assms(2) by blast
    then show False using assms(3) \<open>?j < k\<close> by auto
  qed
  ultimately show ?thesis by simp
qed

lemma tree_inv_keys: "tree_inv X sb Z N (Suc i) eh \<Longrightarrow> sorted_wrt (<) (map ei_block (eh_idxs eh))"
  using keyed_keys by (fastforce simp: tree_inv_Suc)

lemma tree_inv_kid:
  assumes "tree_inv X sb Z N (Suc i) eh" "pos < length (eh_idxs eh)"
  obtains c where "N (Some (ei_pblock (eh_idxs eh ! pos))) = Some c" "kid_at N eh pos = c" "head_ok X sb i c" "tree_inv X sb Z N i c"
    "kid N i (eh_idxs eh ! pos) = flat N i c"
    "ei_pblock (eh_idxs eh ! pos) \<in> Z \<or> (flat N i c \<noteq> [] \<and> ee_block (hd (flat N i c)) = ei_block (eh_idxs eh ! pos))"
proof -
  have "kid_inv X sb Z N i (eh_idxs eh ! pos)" using assms by (simp add: tree_inv_Suc)
  then show thesis using that by (auto simp: kid_inv_def kid_at_def kid_def split: option.splits)
qed

lemma seek_on_path:
  assumes "tree_inv X sb Z N i eh" "N l = Some eh" "seek N i eh l b = (lvls, leaf)"
  shows "on_path N i eh l lvls leaf"
  using assms
proof (induction i arbitrary: eh l lvls)
  case (Suc i)
  let ?pos = "ext4_ext_binsearch_idx eh b"
  have pos: "?pos < length (eh_idxs eh)"
    using binsearch_idx_pos(1) [OF tree_inv_keys [OF Suc.prems(1)]] Suc.prems(1) by (simp add: tree_inv_Suc)
  from tree_inv_kid [OF Suc.prems(1) pos] obtain c where c: "N (Some (ei_pblock (eh_idxs eh ! ?pos))) = Some c" "kid_at N eh ?pos = c"
    "tree_inv X sb Z N i c" by blast
  obtain ls where ls: "seek N i c (Some (ei_pblock (eh_idxs eh ! ?pos))) b = (ls, leaf)" "lvls = (l, ?pos) # ls"
    using Suc.prems(3) c(2) by (auto simp: Let_def split: prod.splits)
  show ?case using Suc.IH [OF c(3,1) ls(1)] Suc.prems(2) ls(2) pos c by simp
qed simp

text \<open>A key is a lower bound of what is at or behind it, and an upper bound of what is before it.\<close>

lemma keys_around:
  assumes "keyed X (kids N i is)" "pos < length is"
  shows "e \<in> set (concat (map (kid N i) (take pos is))) \<Longrightarrow> ext_end X e \<le> unat (ei_block (is ! pos))"
    "e \<in> set (concat (map (kid N i) (drop pos is))) \<Longrightarrow> unat (ei_block (is ! pos)) \<le> ext_start e"
proof -
  have k: "keyed X (kids N i (take pos is) @ kids N i (is ! pos # drop (Suc pos) is))"
    using assms(1) idxs_split [OF assms(2)] by (simp only: kids_simps(3) [symmetric])
  show "ext_end X e \<le> unat (ei_block (is ! pos))" if "e \<in> set (concat (map (kid N i) (take pos is)))"
    using k that by (fastforce simp: keyed_append)
  show "unat (ei_block (is ! pos)) \<le> ext_start e" if e: "e \<in> set (concat (map (kid N i) (drop pos is)))"
  proof -
    obtain ix where ix: "ix \<in> set (is ! pos # drop (Suc pos) is)" "e \<in> set (kid N i ix)"
      using e Cons_nth_drop_Suc [OF assms(2)] by (metis (no_types, lifting) in_set_conv_decomp concat_map_singleton list.set_map UN_E set_concat imageE)
    have "keyed X (kids N i (is ! pos # drop (Suc pos) is))" using k by (simp add: keyed_append)
    then have "unat (ei_block ix) \<le> ext_start e" "ei_block (is ! pos) \<le> ei_block ix"
      using ix keyed_bounds [of X "kids N i (is ! pos # drop (Suc pos) is)" "(ei_block ix, kid N i ix)"] by auto
    then show ?thesis by (simp add: word_le_nat_alt)
  qed
qed

lemma before_after_order:
  assumes "tree_inv X sb Z N i eh" "N l = Some eh" "seek N i eh l b = (lvls, leaf)"
  shows "(\<forall>e \<in> set (before N i eh lvls). ext_end X e \<le> unat b) \<and> (\<forall>e \<in> set (after N i eh lvls). unat b < ext_start e)"
  using assms
proof (induction i arbitrary: eh l lvls)
  case (Suc i)
  let ?pos = "ext4_ext_binsearch_idx eh b"
  note k = binsearch_idx_pos [OF tree_inv_keys [OF Suc.prems(1)], of b]
  have ne: "eh_idxs eh \<noteq> []" and ky: "keyed X (kids N i (eh_idxs eh))" using Suc.prems(1) by (simp_all add: tree_inv_Suc)
  note pos = k(1) [OF ne]
  from tree_inv_kid [OF Suc.prems(1) pos] obtain c where c: "N (Some (ei_pblock (eh_idxs eh ! ?pos))) = Some c" "kid_at N eh ?pos = c"
    "tree_inv X sb Z N i c" by blast
  obtain ls where ls: "seek N i c (Some (ei_pblock (eh_idxs eh ! ?pos))) b = (ls, leaf)" "lvls = (l, ?pos) # ls"
    using Suc.prems(3) c(2) by (auto simp: Let_def split: prod.splits)
  note IH = Suc.IH [OF c(3,1) ls(1)]
  have bf: "ext_end X e \<le> unat b" if "e \<in> set (concat (map (kid N i) (take ?pos (eh_idxs eh))))" for e
  proof -
    have "?pos \<noteq> 0" using that by (cases "?pos = 0") simp_all
    then have "unat (ei_block (eh_idxs eh ! ?pos)) \<le> unat b" using k(2) [OF ne] by (simp add: word_le_nat_alt)
    then show ?thesis using keys_around(1) [OF ky pos that] by simp
  qed
  have af: "unat b < ext_start e" if e: "e \<in> set (concat (map (kid N i) (drop (Suc ?pos) (eh_idxs eh))))" for e
  proof -
    have s: "Suc ?pos < length (eh_idxs eh)" using e by (cases "Suc ?pos < length (eh_idxs eh)") auto
    have "unat b < unat (ei_block (eh_idxs eh ! Suc ?pos))" using k(3) [OF ne, of "Suc ?pos"] s by (simp add: word_less_nat_alt)
    then show ?thesis using keys_around(2) [OF ky s e] by simp
  qed
  show ?case using IH bf af c(2) ls(2) by auto
qed simp

text \<open>The path that \<open>ext4_find_extent\<close> returns.\<close>

lemma find_walk_seek:
  assumes "tree_inv X sb Z N i eh" "N l = Some eh" "seek N i eh l b = (lvls, leaf)"
  shows "\<exists>path. find_walk (et_read N) i eh b = Inr path \<and> path \<noteq> [] \<and> path_levels l path = lvls \<and> path_leaf l path = leaf \<and>
    last path = \<lparr>p_hdr = the (N leaf), p_idx = 0, p_ext = ext4_ext_binsearch (the (N leaf)) b\<rparr> \<and>
    (Z = {} \<longrightarrow> next_index (rev (butlast path)) = (if after N i eh lvls = [] then None else Some (ee_block (hd (after N i eh lvls)))))"
  using assms
proof (induction i arbitrary: eh l lvls)
  case (Suc i)
  let ?pos = "ext4_ext_binsearch_idx eh b" and ?is = "eh_idxs eh"
  note k = binsearch_idx_pos [OF tree_inv_keys [OF Suc.prems(1)], of b]
  have ne: "?is \<noteq> []" using Suc.prems(1) by (simp add: tree_inv_Suc)
  note pos = k(1) [OF ne]
  from tree_inv_kid [OF Suc.prems(1) pos] obtain c where c: "N (Some (ei_pblock (?is ! ?pos))) = Some c" "kid_at N eh ?pos = c"
    "tree_inv X sb Z N i c" by blast
  obtain ls where ls: "seek N i c (Some (ei_pblock (?is ! ?pos))) b = (ls, leaf)" "lvls = (l, ?pos) # ls"
    using Suc.prems(3) c(2) by (auto simp: Let_def split: prod.splits)
  from Suc.IH [OF c(3,1) ls(1)] obtain q qs where p: "find_walk (et_read N) i c b = Inr (q # qs)"
    "path_levels (Some (ei_pblock (?is ! ?pos))) (q # qs) = ls" "path_leaf (Some (ei_pblock (?is ! ?pos))) (q # qs) = leaf"
    "last (q # qs) = \<lparr>p_hdr = the (N leaf), p_idx = 0, p_ext = ext4_ext_binsearch (the (N leaf)) b\<rparr>"
    "Z = {} \<longrightarrow> next_index (rev (butlast (q # qs))) = (if after N i c ls = [] then None else Some (ee_block (hd (after N i c ls))))"
    by (metis neq_Nil_conv)
  let ?p = "\<lparr>p_hdr = eh, p_idx = ?pos, p_ext = None\<rparr>"
  have "next_index (rev (butlast (?p # q # qs))) =
      (if after N (Suc i) eh lvls = [] then None else Some (ee_block (hd (after N (Suc i) eh lvls))))" if z: "Z = {}"
  proof (cases "Suc ?pos < length ?is")
    case True
    from tree_inv_kid [OF Suc.prems(1) True] z obtain c2 where "kid N i (?is ! Suc ?pos) \<noteq> []"
      "ee_block (hd (kid N i (?is ! Suc ?pos))) = ei_block (?is ! Suc ?pos)" by (metis empty_iff)
    moreover have "drop (Suc ?pos) ?is = ?is ! Suc ?pos # drop (Suc (Suc ?pos)) ?is" using True by (simp add: Cons_nth_drop_Suc)
    ultimately show ?thesis using p(5) z True c(2) ls(2) by (simp add: next_index_append split: option.splits)
  next
    case False
    then show ?thesis using p(5) z c(2) ls(2) by (simp add: next_index_append split: option.splits)
  qed
  moreover have "et_read N (?is ! ?pos) i = Inr c" using c(1) by (simp add: et_read_def)
  ultimately show ?case using p(1-4) c(2) ls(2) by (intro exI [of _ "?p # q # qs"]) (simp add: Let_def)
qed simp

end
