(* ===== verification/Ext4_Extsplit.thy ===== *)
theory Ext4_Extsplit
  imports Ext4_Exttree
begin

unbundle bit_operations_syntax

text \<open>
  \<open>ext4_ext_split\<close> when nothing fails: each node on the way is halved at the same border, from the leaf upwards, and the last of
  the new nodes is put into the node that has a free entry. The extents of the tree and their order stay, and so does the invariant,
  except that the key of a new empty leaf is that of the extent which is still to come.
\<close>

section \<open>The two halves of a split\<close>

lemma split_up_append:
  assumes "split_up A X sb d border xs bs oldblock i T = (0, o1, T1)" "length bs = length xs"
  shows "split_up A X sb d border (xs @ ys) (bs @ cs) oldblock i T = split_up A X sb d border ys cs o1 (i - length xs) T1"
  using assms
proof (induction xs arbitrary: bs oldblock i T)
  case (Cons x xs)
  obtain l pos where x: "x = (l, pos)" by (cases x)
  obtain nb bs' where bs: "bs = nb # bs'" using Cons.prems(2) by (cases bs) auto
  show ?case using Cons.prems Cons.IH [of bs' nb "i - 1"] unfolding x bs
    by (auto simp: Let_def split: if_splits prod.splits)
qed simp

lemma shrink_ok:
  assumes "\<And>c. A c = 0" "et_node T l = Some eh" "m = 0 \<Longrightarrow> eh' = eh"
  shows "shrink A d l lvl m eh' T = (0, et_put l eh' T)"
proof -
  have "T = et_put l eh T" using assms(2) by (cases T) (auto simp: et_put_def fun_upd_idem)
  then show ?thesis using assms
    by (auto simp: shrink_def ext4_ext_get_access_def ext4_ext_dirty_def Let_def split: option.splits)
qed

text \<open>The blocks of a node by position.\<close>

lemma tree_blocks_split:
  assumes "pos < length (eh_idxs eh)" "N (Some (ei_pblock (eh_idxs eh ! pos))) = Some c"
  shows "tree_blocks N (Suc i) eh = concat (map (kid_blocks N i) (take pos (eh_idxs eh))) @
     (ei_pblock (eh_idxs eh ! pos) # tree_blocks N i c) @ concat (map (kid_blocks N i) (drop (Suc pos) (eh_idxs eh)))"
proof -
  have "kid_blocks N i (eh_idxs eh ! pos) = ei_pblock (eh_idxs eh ! pos) # tree_blocks N i c" using assms(2) by (simp add: kid_blocks_def)
  then show ?thesis unfolding tree_blocks_Suc by (subst idxs_split [OF assms(1)]) simp
qed

text \<open>A child whose blocks are not touched stays as it is.\<close>

lemma kid_frame:
  assumes "\<And>p. p \<in> set (kid_blocks N i ix) \<Longrightarrow> N' (Some p) = N (Some p)"
  shows "kid N' i ix = kid N i ix" "kid_blocks N' i ix = kid_blocks N i ix" "kid_inv X sb Z N i ix \<Longrightarrow> set (kid_blocks N i ix) \<inter> Z \<subseteq> Z' \<Longrightarrow> kid_inv X sb Z' N' i ix"
proof -
  show k: "kid N' i ix = kid N i ix" and "kid_blocks N' i ix = kid_blocks N i ix" using kid_cong [of N i ix N'] assms by auto
  have e: "N' (Some (ei_pblock ix)) = N (Some (ei_pblock ix))" using assms by (simp add: kid_blocks_def)
  show "kid_inv X sb Z' N' i ix" if v: "kid_inv X sb Z N i ix" and z: "set (kid_blocks N i ix) \<inter> Z \<subseteq> Z'"
  proof -
    obtain c where c: "N (Some (ei_pblock ix)) = Some c" "head_ok X sb i c" "tree_inv X sb Z N i c"
      using v by (auto simp: kid_inv_def split: option.splits)
    have b: "set (tree_blocks N i c) \<subseteq> set (kid_blocks N i ix)" "ei_pblock ix \<in> set (kid_blocks N i ix)" using c(1) by (auto simp: kid_blocks_def)
    have "tree_inv X sb Z' N' i c" by (rule tree_inv_cong [OF _ _ c(3)]) (use assms b z in auto)
    then show ?thesis using v c e k z b by (auto simp: kid_inv_def)
  qed
qed

lemma kids_frame:
  assumes "\<And>p. p \<in> set (concat (map (kid_blocks N i) is)) \<Longrightarrow> N' (Some p) = N (Some p)"
  shows "map (kid N' i) is = map (kid N i) is" "kids N' i is = kids N i is" "map (kid_blocks N' i) is = map (kid_blocks N i) is"
    "\<forall>ix \<in> set is. kid_inv X sb Z N i ix \<Longrightarrow> set (concat (map (kid_blocks N i) is)) \<inter> Z \<subseteq> Z' \<Longrightarrow> \<forall>ix \<in> set is. kid_inv X sb Z' N' i ix"
proof -
  have f: "N' (Some p) = N (Some p)" if "p \<in> set (kid_blocks N i ix)" "ix \<in> set is" for p ix using assms [of p] that by auto
  show "map (kid N' i) is = map (kid N i) is" "kids N' i is = kids N i is" "map (kid_blocks N' i) is = map (kid_blocks N i) is"
    using kid_frame(1,2) [of N i _ N'] f by (auto simp: kids_def)
  show "\<forall>ix \<in> set is. kid_inv X sb Z' N' i ix" if "\<forall>ix \<in> set is. kid_inv X sb Z N i ix" "set (concat (map (kid_blocks N i) is)) \<inter> Z \<subseteq> Z'"
    using kid_frame(3) [of N i _ N' X sb Z Z'] f that by fastforce
qed

text \<open>The sizes that the code relies on.\<close>

definition size_laws :: "ext_ops \<Rightarrow> super_block \<Rightarrow> bool" where
  "size_laws X sb \<longleftrightarrow> 2 \<le> ext4_ext_space_block X sb \<and> ext4_ext_space_block X sb < 65536 \<and>
     2 \<le> ext4_ext_space_block_idx X sb \<and> ext4_ext_space_block_idx X sb < 65536 \<and>
     2 \<le> ext4_ext_space_root_idx X \<and> ext4_ext_space_root_idx X < 65536 \<and> ext4_ext_space_root X \<le> ext4_ext_space_block X sb \<and>
     ext4_ext_space_root_idx X \<le> ext4_ext_space_block_idx X sb \<and> EXT4_MAX_EXTENT_DEPTH X < 65536 \<and> 0 < ext4_ext_space_root X"

lemma unat_of_nat_u16: "n < 65536 \<Longrightarrow> unat (of_nat n :: u16) = n"
  by (simp add: unsigned_of_nat take_bit_nat_eq_self)

text \<open>Where a leaf is split.\<close>

definition split_border :: "ext4_extent list \<Rightarrow> nat \<Rightarrow> u32 \<Rightarrow> u32" where
  "split_border es k b = (if Suc k < length es then ee_block (es ! Suc k) else b)"

lemma keyed_halves:
  assumes "keyed X (as @ (k, f1 @ f2) # bs)"
  shows "keyed X (as @ [(k, f1)])"
    "\<forall>e \<in> set f2. unat border \<le> ext_start e \<Longrightarrow> \<forall>ke \<in> set bs. border < fst ke \<Longrightarrow> keyed X ((border, f2) # bs)"
proof -
  have k: "keyed X as" "keyed X ((k, f1 @ f2) # bs)" "\<forall>a \<in> set as. fst a < k \<and> (\<forall>e \<in> set (snd a). ext_end X e \<le> unat k)"
    using assms by (simp_all add: keyed_append)
  then show "keyed X (as @ [(k, f1)])" by (simp add: keyed_append exts_ok_append)
  show "keyed X ((border, f2) # bs)" if "\<forall>e \<in> set f2. unat border \<le> ext_start e" "\<forall>ke \<in> set bs. border < fst ke"
    using k(2) that by (simp add: exts_ok_append)
qed

lemma keyed_both:
  assumes "keyed X (as @ (k, f1 @ f2) # bs)" "\<forall>e \<in> set f2. unat border \<le> ext_start e" "\<forall>ke \<in> set bs. border < fst ke"
    and "k < border" "\<forall>e \<in> set f1. ext_end X e \<le> unat border"
  shows "keyed X (as @ (k, f1) # (border, f2) # bs)"
proof -
  have k: "keyed X as" "keyed X ((k, f1 @ f2) # bs)"
    "\<forall>a \<in> set as. \<forall>ke \<in> set ((k, f1 @ f2) # bs). fst a < fst ke \<and> (\<forall>e \<in> set (snd a). ext_end X e \<le> unat (fst ke))"
    using assms(1) by (simp_all add: keyed_append)
  have r: "keyed X ((border, f2) # bs)" by (rule keyed_halves(2) [OF assms(1-3)])
  have l: "keyed X ((k, f1) # (border, f2) # bs)" using k(2) r assms(4,5) by (simp add: exts_ok_append)
  have "fst a < border \<and> (\<forall>e \<in> set (snd a). ext_end X e \<le> unat border)" if "a \<in> set as" for a
  proof -
    have "fst a < k" "\<forall>e \<in> set (snd a). ext_end X e \<le> unat k" using k(3) that by auto
    then show ?thesis using assms(4) unfolding word_less_nat_alt by fastforce
  qed
  then show ?thesis using k(1,3) l by (auto simp: keyed_append simp del: keyed.simps)
qed

lemma split_positions:
  assumes "exts_ok X es" "ext4_ext_binsearch lf b = Some k" "eh_exts lf = es" "2 \<le> length es" "fits_in X es n" "ee_block n = b"
  defines "border \<equiv> split_border es k b"
  shows "k < length es" "\<forall>e \<in> set (take (Suc k) es). ext_end X e \<le> unat border" "\<forall>e \<in> set (drop (Suc k) es). unat border \<le> ext_start e"
    "Suc k < length es \<Longrightarrow> b < border" "ext4_ext_binsearch (lf\<lparr>eh_exts := take (Suc k) es\<rparr>) b = Some k"
proof -
  have ne: "es \<noteq> []" using assms(4) by auto
  have k: "k = flat_pos es b" using binsearch_pos [of X lf b] assms(1-3) ne by simp
  show kl: "k < length es" using flat_pos_less [OF ne] k by simp
  have s: "sorted_wrt (<) (map ee_block es)" using exts_ok_starts [OF assms(1)] .
  have pt: "take (Suc k) es = take k es @ [es ! k]" using kl by (simp add: take_Suc_conv_app_nth)
  note f = fits_split [OF assms(1,5)]
  let ?n = "insert_point es n"
  have kn: "k = ?n - 1" using k assms(6) by (simp add: flat_pos_def insert_point_def)
  have nl: "?n \<le> length es" by (simp add: insert_point_def)
  have cut: "exts_ok X (take (Suc k) es @ drop (Suc k) es)" using assms(1) by simp
  have o: "ext_end X e \<le> ext_start g" if "e \<in> set (take (Suc k) es)" "g \<in> set (drop (Suc k) es)" for e g
    using cut that unfolding exts_ok_append by blast
  show "\<forall>e \<in> set (take (Suc k) es). ext_end X e \<le> unat border"
  proof (cases "Suc k < length es")
    case True
    then have "es ! Suc k \<in> set (drop (Suc k) es)" by (metis Cons_nth_drop_Suc list.set_intros(1))
    then show ?thesis using o True by (auto simp: border_def split_border_def ext_start_def)
  next
    case False
    then have "?n = length es" using kl kn nl assms(4) by linarith
    then show ?thesis using f(3) False assms(6) kl by (auto simp: border_def split_border_def ext_start_def)
  qed
  show "\<forall>e \<in> set (drop (Suc k) es). unat border \<le> ext_start e"
  proof (cases "Suc k < length es")
    case True
    have "exts_ok X (es ! Suc k # drop (Suc (Suc k)) es)"
      using cut True unfolding exts_ok_append by (simp add: Cons_nth_drop_Suc del: exts_ok_simps)
    then have "ee_block (es ! Suc k) \<le> ee_block e" if "e \<in> set (drop (Suc k) es)" for e
      using exts_after [of X "es ! Suc k" "drop (Suc (Suc k)) es" e] True that by (simp add: Cons_nth_drop_Suc)
    then show ?thesis using True by (auto simp: border_def split_border_def ext_start_def word_le_nat_alt)
  qed simp
  show "b < border" if t: "Suc k < length es"
  proof -
    have "es ! Suc k \<in> set (drop ?n es)"
    proof (cases "?n")
      case 0
      then show ?thesis using t by simp
    next
      case (Suc m)
      then have "?n = Suc k" using kn by simp
      then show ?thesis using t by (metis Cons_nth_drop_Suc list.set_intros(1))
    qed
    then have "ext_end X n \<le> ext_start (es ! Suc k)" using f(4) by blast
    moreover have "ext_start n < ext_end X n" using assms(5) by (auto simp: fits_in_def ext_ok_def ext_end_def ext_start_def)
    ultimately show ?thesis using t assms(6) by (simp add: border_def split_border_def ext_start_def word_less_nat_alt)
  qed
  have "flat_pos (take (Suc k) es) b = k"
  proof -
    have "filter (\<lambda>e. ee_block e \<le> b) (drop (Suc k) es) = []"
    proof (cases ?n)
      case 0
      then show ?thesis using kn by (auto simp: insert_point_def assms(6) filter_empty_conv dest: in_set_dropD)
    next
      case (Suc m)
      then have "?n = Suc k" using kn by simp
      then have "\<forall>g \<in> set (drop (Suc k) es). ext_end X n \<le> ext_start g" using f(4) by simp
      moreover have "ext_start n < ext_end X n" using assms(5) by (auto simp: fits_in_def ext_ok_def ext_end_def ext_start_def)
      ultimately show ?thesis using assms(6) by (fastforce simp: filter_empty_conv ext_start_def word_le_nat_alt)
    qed
    then have "filter (\<lambda>e. ee_block e \<le> b) (take (Suc k) es @ drop (Suc k) es) = filter (\<lambda>e. ee_block e \<le> b) (take (Suc k) es)"
      unfolding filter_append by simp
    then have "filter (\<lambda>e. ee_block e \<le> b) es = filter (\<lambda>e. ee_block e \<le> b) (take (Suc k) es)" by (simp only: append_take_drop_id)
    then have "flat_pos (take (Suc k) es) b = flat_pos es b" by (simp only: flat_pos_def)
    then show ?thesis by (simp only: k [symmetric])
  qed
  moreover have "exts_ok X (take (Suc k) es)" using cut unfolding exts_ok_append by blast
  ultimately show "ext4_ext_binsearch (lf\<lparr>eh_exts := take (Suc k) es\<rparr>) b = Some k"
    using binsearch_pos [of X "lf\<lparr>eh_exts := take (Suc k) es\<rparr>" b] ne by simp
qed

lemma seek_cong:
  assumes "\<And>p. p \<in> set (tree_blocks N i eh) \<Longrightarrow> N' (Some p) = N (Some p)" "tree_inv X sb Z N i eh"
  shows "seek N' i eh l b = seek N i eh l b"
  using assms
proof (induction i arbitrary: eh l)
  case (Suc i)
  let ?pos = "ext4_ext_binsearch_idx eh b"
  have pos: "?pos < length (eh_idxs eh)"
    using binsearch_idx_pos(1) [OF tree_inv_keys [OF Suc.prems(2)]] Suc.prems(2) by (simp add: tree_inv_Suc)
  from tree_inv_kid [OF Suc.prems(2) pos] obtain c where c: "N (Some (ei_pblock (eh_idxs eh ! ?pos))) = Some c" "kid_at N eh ?pos = c"
    "tree_inv X sb Z N i c" by blast
  have b: "N' (Some p) = N (Some p)" if "p = ei_pblock (eh_idxs eh ! ?pos) \<or> p \<in> set (tree_blocks N i c)" for p
    using Suc.prems(1) [of p] that tree_blocks_split [of ?pos eh N c i, OF pos c(1)] by auto
  have "seek N' i c l' b = seek N i c l' b" for l' by (rule Suc.IH [OF _ c(3)]) (use b in blast)
  moreover have "kid_at N' eh ?pos = c" using b c(1) by (simp add: kid_at_def)
  ultimately show ?case using c(2) by (simp add: Let_def)
qed simp

text \<open>
  The node at \<open>l\<close> was split at \<open>border\<close> into \<open>eh1\<close>, which is where it was, and \<open>eh2\<close> in the last of the blocks \<open>bs\<close>; \<open>E\<close> says
  that extents were moved, else the new leaf is empty.
\<close>

definition halved :: "bool \<Rightarrow> ext_ops \<Rightarrow> super_block \<Rightarrow> u64 set \<Rightarrow> nodes \<Rightarrow> nat \<Rightarrow> ext_node \<Rightarrow> u64 option \<Rightarrow> u32 \<Rightarrow> u64 list \<Rightarrow> nodes \<Rightarrow> ext_node \<Rightarrow> ext_node \<Rightarrow> bool" where
  "halved E X sb Z N i eh l border bs N' eh1 eh2 \<longleftrightarrow>
     (\<forall>m. m \<noteq> l \<and> m \<notin> Some ` set (tree_blocks N i eh) \<and> m \<notin> Some ` set bs \<longrightarrow> N' m = N m) \<and>
     N' l = Some eh1 \<and> N' (Some (last bs)) = Some eh2 \<and> bs \<noteq> [] \<and>
     flat N' i eh1 @ flat N' i eh2 = flat N i eh \<and> flat N' i eh1 \<noteq> [] \<and>
     (\<forall>e \<in> set (flat N' i eh1). ext_end X e \<le> unat border) \<and> (\<forall>e \<in> set (flat N' i eh2). unat border \<le> ext_start e) \<and>
     tree_inv X sb Z N' i eh1 \<and> tree_inv X sb Z N' i eh2 \<and> head_ok X sb i eh1 \<and> head_ok X sb i eh2 \<and>
     (if E then flat N' i eh2 \<noteq> [] \<and> ee_block (hd (flat N' i eh2)) = border else set bs \<subseteq> Z) \<and>
     distinct (tree_blocks N' i eh1 @ tree_blocks N' i eh2) \<and>
     set (tree_blocks N' i eh1 @ tree_blocks N' i eh2) \<subseteq> set (tree_blocks N i eh) \<union> set (butlast bs)"

text \<open>What is known of a node before its child is split.\<close>

definition apart :: "nodes \<Rightarrow> nat \<Rightarrow> ext_node \<Rightarrow> u64 option \<Rightarrow> u64 list \<Rightarrow> bool" where
  "apart N i eh l bs \<longleftrightarrow> N l = Some eh \<and> distinct (tree_blocks N i eh @ bs) \<and> l \<notin> Some ` set (tree_blocks N i eh @ bs)"

lemma apart_kid:
  assumes "apart N (Suc i) eh l bs" "pos < length (eh_idxs eh)" "N (Some (ei_pblock (eh_idxs eh ! pos))) = Some c" "bs = bs1 @ bs2"
  shows "apart N i c (Some (ei_pblock (eh_idxs eh ! pos))) bs1"
  using assms(1,3,4) unfolding apart_def tree_blocks_split [of pos eh N c i, OF assms(2,3)] by auto

text \<open>
  A child of the node is split: what is next to the child stays, and the two halves take its place. The lists of the children before,
  of the two halves and of the children after make up what the node held.
\<close>

lemma kid_halved:
  assumes "apart N (Suc i) eh l (bs @ cs)" "tree_inv X sb {} N (Suc i) eh" "pos < length (eh_idxs eh)"
    and "N (Some (ei_pblock (eh_idxs eh ! pos))) = Some c"
    and "halved E X sb Z N i c (Some (ei_pblock (eh_idxs eh ! pos))) border bs N1 c1 c2"
    and "\<forall>m. m \<noteq> l \<and> m \<notin> Some ` set cs \<longrightarrow> N' m = N1 m"
  defines "is \<equiv> eh_idxs eh"
  defines "q \<equiv> \<lparr>ei_block = border, ei_pblock = last bs\<rparr>"
  shows "N1 l = Some eh"
    and "kids N' i (take pos is) = kids N i (take pos is)" "kids N' i (drop (Suc pos) is) = kids N i (drop (Suc pos) is)"
    and "kid N' i (is ! pos) @ kid N' i q = kid N i (is ! pos)"
    and "\<forall>ix \<in> set (take pos is @ is ! pos # q # drop (Suc pos) is). kid_inv X sb Z N' i ix"
    and "kid N' i (is ! pos) = flat N1 i c1" "kid N' i q = flat N1 i c2"
    and "kid_at N' (eh\<lparr>eh_idxs := take pos is @ is ! pos # js\<rparr>) pos = c1" "kid_at N' (eh2\<lparr>eh_idxs := q # js\<rparr>) 0 = c2"
    and "distinct (concat (map (kid_blocks N' i) (take pos is @ is ! pos # q # drop (Suc pos) is)))"
    and "set (concat (map (kid_blocks N' i) (take pos is @ is ! pos # q # drop (Suc pos) is))) \<subseteq> set (tree_blocks N (Suc i) eh) \<union> set bs"
    and "\<And>b. seek N' i c1 (Some (ei_pblock (is ! pos))) b = seek N1 i c1 (Some (ei_pblock (is ! pos))) b"
    and "\<And>b. seek N' i c2 (Some (last bs)) b = seek N1 i c2 (Some (last bs)) b"
proof -
  let ?p = "ei_pblock (is ! pos)"
  note bl = tree_blocks_split [of pos eh N c i, OF assms(3,4)]
  define A B where AB: "A = concat (map (kid_blocks N i) (take pos is))" "B = concat (map (kid_blocks N i) (drop (Suc pos) is))"
  have bl: "tree_blocks N (Suc i) eh = A @ (?p # tree_blocks N i c) @ B" using bl by (simp add: is_def AB)
  have d: "N l = Some eh" "distinct (A @ (?p # tree_blocks N i c) @ B @ bs @ cs)" "l \<notin> Some ` set (A @ (?p # tree_blocks N i c) @ B @ bs @ cs)"
    using assms(1) unfolding apart_def bl by auto
  have h: "\<forall>m. m \<noteq> Some ?p \<and> m \<notin> Some ` set (tree_blocks N i c) \<and> m \<notin> Some ` set bs \<longrightarrow> N1 m = N m"
    "N1 (Some ?p) = Some c1" "N1 (Some (last bs)) = Some c2" "bs \<noteq> []" "flat N1 i c1 @ flat N1 i c2 = flat N i c" "flat N1 i c1 \<noteq> []"
    "tree_inv X sb Z N1 i c1" "tree_inv X sb Z N1 i c2" "head_ok X sb i c1" "head_ok X sb i c2"
    "set bs \<subseteq> Z \<or> (flat N1 i c2 \<noteq> [] \<and> ee_block (hd (flat N1 i c2)) = border)"
    "distinct (tree_blocks N1 i c1 @ tree_blocks N1 i c2)"
    "set (tree_blocks N1 i c1 @ tree_blocks N1 i c2) \<subseteq> set (tree_blocks N i c) \<union> set (butlast bs)"
    using assms(5) unfolding halved_def is_def by (blast, blast, blast, blast, blast, blast, blast, blast, blast, blast, metis, blast, blast)
  have lb: "last bs \<in> set bs" "set (butlast bs) \<subseteq> set bs" "last bs \<notin> set (butlast bs)"
  proof -
    show "last bs \<in> set bs" "set (butlast bs) \<subseteq> set bs" using h(4) by (auto dest: in_set_butlastD)
    have "distinct (butlast bs @ [last bs])" using d(2) h(4) by simp
    then show "last bs \<notin> set (butlast bs)" by simp
  qed
  show "N1 l = Some eh" using h(1) d(1,3) by auto
  have out: "N' (Some r) = N1 (Some r)" if "r \<in> set (A @ (?p # tree_blocks N i c) @ B @ bs)" for r
    using that d(2,3) by (intro assms(6) [rule_format]) auto
  have same: "N' (Some r) = N (Some r)" if "r \<in> set (A @ B)" for r
  proof -
    have "r \<noteq> ?p" "r \<notin> set (tree_blocks N i c)" "r \<notin> set bs" using that d(2) by auto
    then have "N1 (Some r) = N (Some r)" using h(1) [rule_format, of "Some r"] by (simp add: image_iff)
    moreover have "N' (Some r) = N1 (Some r)" using that by (intro out) auto
    ultimately show ?thesis by simp
  qed
  have sameA: "N' (Some r) = N (Some r)" if "r \<in> set (concat (map (kid_blocks N i) (take pos is)))" for r
    using same [of r] that by (simp add: AB)
  have sameB: "N' (Some r) = N (Some r)" if "r \<in> set (concat (map (kid_blocks N i) (drop (Suc pos) is)))" for r
    using same [of r] that by (simp add: AB)
  have keep: "N' (Some r) = N1 (Some r)" if "r \<in> set (tree_blocks N1 i c1) \<union> set (tree_blocks N1 i c2)" for r
    using that h(13) lb by (intro out) auto
  have n: "N' (Some ?p) = Some c1" "N' (Some (last bs)) = Some c2" using out [of ?p] out [of "last bs"] lb(1) h(2,3) by auto
  have c1: "flat N' i c1 = flat N1 i c1" "tree_blocks N' i c1 = tree_blocks N1 i c1" using tree_cong [of N1 i c1 N'] keep by auto
  have c2: "flat N' i c2 = flat N1 i c2" "tree_blocks N' i c2 = tree_blocks N1 i c2" using tree_cong [of N1 i c2 N'] keep by auto
  show "kids N' i (take pos is) = kids N i (take pos is)" "kids N' i (drop (Suc pos) is) = kids N i (drop (Suc pos) is)"
    by (rule kids_frame(2), erule sameA, rule kids_frame(2), erule sameB)
  show k1: "kid N' i (is ! pos) = flat N1 i c1" using kid_Some [of N' "is ! pos" c1 i] n(1) c1(1) by simp
  show k2: "kid N' i q = flat N1 i c2" using kid_Some [of N' q c2 i] n(2) c2(1) by (simp add: q_def)
  have k: "kid N i (is ! pos) = flat N i c" using kid_Some [of N "is ! pos" c i] assms(4) by (simp add: is_def)
  show "kid N' i (is ! pos) @ kid N' i q = kid N i (is ! pos)" by (simp only: k k1 k2 h(5))
  have v: "\<forall>ix \<in> set is. kid_inv X sb {} N i ix" using assms(2) by (simp add: tree_inv_Suc is_def)
  have vp: "kid N i (is ! pos) \<noteq> [] \<and> ee_block (hd (kid N i (is ! pos))) = ei_block (is ! pos)"
    using v assms(3) by (auto simp: kid_inv_def is_def)
  have "kid_inv X sb Z N' i (is ! pos)"
  proof -
    have "ee_block (hd (flat N1 i c1)) = ei_block (is ! pos)" using vp h(5,6) k by (metis hd_append2)
    moreover have "tree_inv X sb Z N' i c1" by (rule tree_inv_cong [OF _ _ h(7)]) (use keep in auto)
    ultimately show ?thesis using n(1) h(6,9) k1 by (simp add: kid_inv_def)
  qed
  moreover have "kid_inv X sb Z N' i q"
  proof -
    have "tree_inv X sb Z N' i c2" by (rule tree_inv_cong [OF _ _ h(8)]) (use keep in auto)
    then show ?thesis using n(2) h(10,11) k2 lb(1) by (auto simp: kid_inv_def q_def)
  qed
  moreover have "\<forall>ix \<in> set (take pos is). kid_inv X sb Z N' i ix" "\<forall>ix \<in> set (drop (Suc pos) is). kid_inv X sb Z N' i ix"
    by (rule kids_frame(4) [where N = N and Z = "{}"], erule sameA, use v in_set_takeD in fastforce, simp)
      (rule kids_frame(4) [where N = N and Z = "{}"], erule sameB, use v in_set_dropD in fastforce, simp)
  ultimately show "\<forall>ix \<in> set (take pos is @ is ! pos # q # drop (Suc pos) is). kid_inv X sb Z N' i ix" by auto
  show "kid_at N' (eh\<lparr>eh_idxs := take pos is @ is ! pos # js\<rparr>) pos = c1" "kid_at N' (eh2\<lparr>eh_idxs := q # js\<rparr>) 0 = c2"
    using n assms(3) by (simp_all add: kid_at_def nth_append is_def q_def)
  have kb: "map (kid_blocks N' i) (take pos is) = map (kid_blocks N i) (take pos is)"
    "map (kid_blocks N' i) (drop (Suc pos) is) = map (kid_blocks N i) (drop (Suc pos) is)"
    by (rule kids_frame(3), erule sameA, rule kids_frame(3), erule sameB)
  have kb1: "kid_blocks N' i (is ! pos) = ?p # tree_blocks N1 i c1" "kid_blocks N' i q = last bs # tree_blocks N1 i c2"
    using n c1 c2 by (simp_all add: kid_blocks_def q_def)
  have all: "concat (map (kid_blocks N' i) (take pos is @ is ! pos # q # drop (Suc pos) is)) =
      A @ (?p # tree_blocks N1 i c1) @ (last bs # tree_blocks N1 i c2) @ B"
    unfolding map_append list.map concat_append concat.simps kb kb1 AB by simp
  show "distinct (concat (map (kid_blocks N' i) (take pos is @ is ! pos # q # drop (Suc pos) is)))"
  proof -
    have n: "x \<notin> set A \<and> x \<notin> set B \<and> x \<noteq> ?p \<and> x \<noteq> last bs" if x: "x \<in> set (tree_blocks N1 i c1 @ tree_blocks N1 i c2)" for x
    proof -
      have "x \<in> set (tree_blocks N i c) \<or> x \<in> set (butlast bs)" using h(13) x by blast
      then show ?thesis using d(2) lb by auto
    qed
    have "distinct A" "distinct B" "?p \<notin> set A" "?p \<notin> set B" "last bs \<notin> set A" "last bs \<notin> set B" "?p \<noteq> last bs" "set A \<inter> set B = {}"
      using d(2) lb(1) by auto
    then show ?thesis unfolding all using n h(12) by auto
  qed
  show "set (concat (map (kid_blocks N' i) (take pos is @ is ! pos # q # drop (Suc pos) is))) \<subseteq> set (tree_blocks N (Suc i) eh) \<union> set bs"
    unfolding all bl using h(13) lb by auto
  show "\<And>b. seek N' i c1 (Some (ei_pblock (is ! pos))) b = seek N1 i c1 (Some (ei_pblock (is ! pos))) b"
    by (rule seek_cong [OF _ h(7)]) (use keep in auto)
  show "\<And>b. seek N' i c2 (Some (last bs)) b = seek N1 i c2 (Some (last bs)) b"
    by (rule seek_cong [OF _ h(8)]) (use keep in auto)
qed

lemma entries_leaf: "head_ok X sb 0 eh \<Longrightarrow> eh_entries eh = length (eh_exts eh)"
  by (simp add: head_ok_def eh_entries_def unat_eq_zero)

lemma entries_index: "head_ok X sb (Suc i) eh \<Longrightarrow> eh_entries eh = length (eh_idxs eh)"
  by (auto simp: head_ok_def eh_entries_def)

lemma kids_concat: "kids N' i is = kids N i is \<Longrightarrow> concat (map (kid N' i) is) = concat (map (kid N i) is)"
  by (metis kids_simps(4))

lemma halved_leaf:
  assumes "size_laws X sb" "apart N 0 eh l [nb]" "tree_inv X sb {} N 0 eh" "head_ok X sb 0 eh" "ext4_ext_binsearch eh b = Some k"
    and "\<not> has_free eh" "fits_in X (eh_exts eh) n" "ee_block n = b"
  defines "es \<equiv> eh_exts eh"
  defines "N' \<equiv> N(Some nb \<mapsto> new_leaf X sb (drop (Suc k) es), l \<mapsto> eh\<lparr>eh_exts := take (Suc k) es\<rparr>)"
  assumes "Suc k < length es \<or> nb \<in> Z"
  shows "halved (Suc k < length es) X sb Z N 0 eh l (split_border es k b) [nb] N' (eh\<lparr>eh_exts := take (Suc k) es\<rparr>) (new_leaf X sb (drop (Suc k) es))"
    "length es = unat (eh_max eh)" "Suc k < length es \<Longrightarrow> b < split_border es k b"
proof -
  show len: "length es = unat (eh_max eh)" using assms(4,6) entries_leaf [OF assms(4)] by (auto simp: head_ok_def has_free_def es_def)
  have ge: "2 \<le> length es" using len assms(4) by (simp add: head_ok_def)
  have ok: "exts_ok X es" "eh_idxs eh = []" using assms(3) by (simp_all add: es_def)
  note s = split_positions [OF ok(1) assms(5) es_def [THEN meta_eq_to_obj_eq, symmetric] ge assms(7) [folded es_def] assms(8)]
  show "Suc k < length es \<Longrightarrow> b < split_border es k b" by (rule s(4))
  have cut: "exts_ok X (take (Suc k) es)" "exts_ok X (drop (Suc k) es)"
    using ok(1) exts_ok_append [of X "take (Suc k) es" "drop (Suc k) es"] by simp_all
  have h1: "head_ok X sb 0 (eh\<lparr>eh_exts := take (Suc k) es\<rparr>)"
    using assms(4) len s(1) by (auto simp: head_ok_def eh_entries_def unat_eq_zero)
  have "length es \<le> ext4_ext_space_block X sb" using len assms(4) by (simp add: head_ok_def node_space_def)
  then have h2: "head_ok X sb 0 (new_leaf X sb (drop (Suc k) es))"
    using assms(1) by (auto simp: head_ok_def eh_entries_def new_leaf_def node_space_def size_laws_def unat_of_nat_u16)
  have nl: "l \<noteq> Some nb" using assms(2) by (auto simp: apart_def)
  have ne: "es \<noteq> []" using ge by auto
  have e: "drop (Suc k) es \<noteq> [] \<and> ee_block (hd (drop (Suc k) es)) = split_border es k b" if "Suc k < length es"
    using that by (simp add: split_border_def hd_drop_conv_nth)
  show "halved (Suc k < length es) X sb Z N 0 eh l (split_border es k b) [nb] N' (eh\<lparr>eh_exts := take (Suc k) es\<rparr>) (new_leaf X sb (drop (Suc k) es))"
    unfolding halved_def using nl ok h1 h2 s(2,3) cut ne e assms(11)
    by (auto simp: N'_def new_leaf_def es_def [symmetric])
qed

lemma halved_step:
  assumes "size_laws X sb" "apart N (Suc i) eh l (bs @ [nb])" "tree_inv X sb {} N (Suc i) eh" "head_ok X sb (Suc i) eh" "\<not> has_free eh"
    and "pos < length (eh_idxs eh)" "N (Some (ei_pblock (eh_idxs eh ! pos))) = Some c"
    and "halved E X sb Z N i c (Some (ei_pblock (eh_idxs eh ! pos))) border bs N1 c1 c2" "E \<or> nb \<in> Z" "Suc i < 65536"
  defines "is \<equiv> eh_idxs eh"
  defines "eh1 \<equiv> eh\<lparr>eh_idxs := take (Suc pos) is\<rparr>"
  defines "eh2 \<equiv> new_index X sb (Suc i) (\<lparr>ei_block = border, ei_pblock = last bs\<rparr> # drop (Suc pos) is)"
  defines "N' \<equiv> N1(Some nb \<mapsto> eh2, l \<mapsto> eh1)"
  assumes "Suc pos < length is \<Longrightarrow> border < ei_block (is ! Suc pos)"
  shows "halved E X sb Z N (Suc i) eh l border (bs @ [nb]) N' eh1 eh2" "length is = unat (eh_max eh)"
    "kid_at N' eh1 pos = c1" "kid_at N' eh2 0 = c2"
    "\<And>b. seek N' i c1 (Some (ei_pblock (is ! pos))) b = seek N1 i c1 (Some (ei_pblock (is ! pos))) b"
    "\<And>b. seek N' i c2 (Some (last bs)) b = seek N1 i c2 (Some (last bs)) b"
    "sorted_wrt (<) (map ei_block (eh_idxs eh1))" "sorted_wrt (<) (map ei_block (eh_idxs eh2))"
proof -
  let ?q = "\<lparr>ei_block = border, ei_pblock = last bs\<rparr>" and ?p = "ei_pblock (is ! pos)"
  have out: "\<forall>m. m \<noteq> l \<and> m \<notin> Some ` set [nb] \<longrightarrow> N' m = N1 m" by (simp add: N'_def)
  note k = kid_halved [OF assms(2,3,6,7,8) out, folded is_def]
  have tk: "take (Suc pos) is = take pos is @ [is ! pos]" using assms(6) by (simp add: is_def take_Suc_conv_app_nth)
  note sp = idxs_split [OF assms(6), folded is_def]
  have ky: "keyed X (kids N i (take pos is) @ (ei_block (is ! pos), kid N' i (is ! pos) @ kid N' i ?q) # kids N i (drop (Suc pos) is))"
  proof -
    have "keyed X (kids N i (take pos is @ is ! pos # drop (Suc pos) is))" using assms(3) sp by (simp add: tree_inv_Suc is_def)
    then show ?thesis by (simp add: k(4))
  qed
  have h: "\<forall>m. m \<noteq> Some ?p \<and> m \<notin> Some ` set (tree_blocks N i c) \<and> m \<notin> Some ` set bs \<longrightarrow> N1 m = N m"
    "flat N1 i c1 \<noteq> []" "\<forall>e \<in> set (flat N1 i c1). ext_end X e \<le> unat border" "\<forall>e \<in> set (flat N1 i c2). unat border \<le> ext_start e"
    "if E then flat N1 i c2 \<noteq> [] \<and> ee_block (hd (flat N1 i c2)) = border else set bs \<subseteq> Z"
    using assms(8) unfolding halved_def is_def by blast+
  have nk: "\<forall>ke \<in> set (kids N i (drop (Suc pos) is)). border < fst ke"
  proof (cases "Suc pos < length is")
    case True
    have "keyed X (kids N i (drop (Suc pos) is))" using ky by (simp add: keyed_append)
    then have "ei_block (is ! Suc pos) \<le> ei_block ix" if "ix \<in> set (drop (Suc pos) is)" for ix
      using that Cons_nth_drop_Suc [OF True, symmetric] by auto
    then show ?thesis using assms(15) [OF True] by fastforce
  qed simp
  note k1 = keyed_halves(1) [OF ky] and k2 = keyed_halves(2) [OF ky _ nk]
  have kx1: "keyed X (kids N' i (take (Suc pos) is))" using k1 by (simp add: tk k(2))
  have kx2: "keyed X (kids N' i (?q # drop (Suc pos) is))" using k2 h(4) k(3,7) by simp
  have f1: "flat N' (Suc i) eh1 = concat (map (kid N i) (take pos is)) @ flat N1 i c1"
    using kids_concat [OF k(2)] by (simp add: eh1_def tk k(6))
  have f2: "flat N' (Suc i) eh2 = flat N1 i c2 @ concat (map (kid N i) (drop (Suc pos) is))"
    using kids_concat [OF k(3)] by (simp add: eh2_def new_index_def k(7))
  have fl: "flat N (Suc i) eh = concat (map (kid N i) (take pos is)) @ (flat N1 i c1 @ flat N1 i c2) @ concat (map (kid N i) (drop (Suc pos) is))"
    using concat_kids_split [OF assms(6), of N i] k(4,6,7) by (simp add: is_def)
  have kb: "ei_block (is ! pos) < border"
  proof -
    have e: "hd (flat N1 i c1) \<in> set (flat N1 i c1)" using h(2) by simp
    have "exts_ok X (flat N1 i c1)" "unat (ei_block (is ! pos)) \<le> ext_start (hd (flat N1 i c1))"
      using ky e by (auto simp: keyed_append exts_ok_append k(6))
    then have "unat (ei_block (is ! pos)) < ext_end X (hd (flat N1 i c1))"
      using e by (auto simp: exts_ok_def ext_ok_def ext_end_def ext_start_def)
    then have "unat (ei_block (is ! pos)) < unat border" using h(3) e by fastforce
    then show ?thesis by (simp add: word_less_nat_alt)
  qed
  have b1: "\<forall>e \<in> set (flat N' (Suc i) eh1). ext_end X e \<le> unat border"
  proof
    fix e assume "e \<in> set (flat N' (Suc i) eh1)"
    then consider "e \<in> set (concat (map (kid N i) (take pos is)))" | "e \<in> set (flat N1 i c1)" unfolding f1 by auto
    then show "ext_end X e \<le> unat border"
    proof cases
      case 1
      then have "ext_end X e \<le> unat (ei_block (is ! pos))" using ky by (fastforce simp: keyed_append)
      then show ?thesis using kb by (simp add: word_less_nat_alt)
    qed (use h(3) in blast)
  qed
  have b2: "\<forall>e \<in> set (flat N' (Suc i) eh2). unat border \<le> ext_start e"
    using keyed_exts [OF kx2] keyed_bounds [OF kx2] h(4) nk k(3,7) unfolding f2
  proof -
    have "unat border \<le> ext_start e" if e: "ix \<in> set (drop (Suc pos) is)" "e \<in> set (kid N i ix)" for ix e
    proof -
      have "(ei_block ix, kid N i ix) \<in> set (kids N i (drop (Suc pos) is))" using e(1) by simp
      moreover have "keyed X (kids N i (drop (Suc pos) is))" using ky by (simp add: keyed_append)
      ultimately have "unat (ei_block ix) \<le> ext_start e" "border < ei_block ix" using keyed_bounds nk e(2) by fastforce+
      then show ?thesis by (simp add: word_less_nat_alt)
    qed
    then show "\<forall>e \<in> set (flat N1 i c2 @ concat (map (kid N i) (drop (Suc pos) is))). unat border \<le> ext_start e" using h(4) by auto
  qed
  have t1: "tree_inv X sb Z N' (Suc i) eh1" "tree_inv X sb Z N' (Suc i) eh2"
  proof -
    have x: "eh_exts eh = []" using assms(3) by (simp add: tree_inv_Suc)
    have "\<forall>ix \<in> set (take (Suc pos) is). kid_inv X sb Z N' i ix" "take (Suc pos) is \<noteq> []" unfolding tk using k(5) by simp_all
    then show "tree_inv X sb Z N' (Suc i) eh1" using kx1 x by (simp add: tree_inv_Suc eh1_def)
    show "tree_inv X sb Z N' (Suc i) eh2" using kx2 k(5) by (simp add: tree_inv_Suc eh2_def new_index_def del: keyed.simps kids_simps)
  qed
  show full: "length is = unat (eh_max eh)"
    using assms(4,5) entries_index [OF assms(4)] by (auto simp: head_ok_def has_free_def is_def)
  have hd1: "head_ok X sb (Suc i) eh1"
    using assms(4,6) full by (auto simp: head_ok_def eh_entries_def eh1_def is_def)
  have "unat (of_nat (Suc i) :: u16) = Suc i" by (rule unat_of_nat_u16 [OF assms(10)])
  moreover have "unat (eh_max eh) \<le> ext4_ext_space_block_idx X sb" using assms(4) by (simp add: head_ok_def node_space_def)
  ultimately have hd2: "head_ok X sb (Suc i) eh2"
    using assms(1,6) full
    by (auto simp: head_ok_def eh_entries_def eh2_def new_index_def node_space_def size_laws_def unat_of_nat_u16 is_def simp del: of_nat_Suc)
  have bl1: "tree_blocks N' (Suc i) eh1 @ tree_blocks N' (Suc i) eh2 =
      concat (map (kid_blocks N' i) (take pos is @ is ! pos # ?q # drop (Suc pos) is))"
    by (simp add: tree_blocks_Suc eh1_def eh2_def new_index_def tk)
  have np: "l \<noteq> Some nb" "l \<notin> Some ` set bs" using assms(2) by (auto simp: apart_def)
  have fr: "\<forall>m. m \<noteq> l \<and> m \<notin> Some ` set (tree_blocks N (Suc i) eh) \<and> m \<notin> Some ` set (bs @ [nb]) \<longrightarrow> N' m = N m"
    using h(1) tree_blocks_split [of pos eh N c i, OF assms(6,7)] by (auto simp: N'_def is_def)
  have e2: "if E then flat N' (Suc i) eh2 \<noteq> [] \<and> ee_block (hd (flat N' (Suc i) eh2)) = border else set (bs @ [nb]) \<subseteq> Z"
    using h(5) assms(9) unfolding f2 by (auto split: if_splits)
  have bs: "butlast (bs @ [nb]) = bs" "last (bs @ [nb]) = nb" "bs @ [nb] \<noteq> []" by simp_all
  show "halved E X sb Z N (Suc i) eh l border (bs @ [nb]) N' eh1 eh2"
    unfolding halved_def bs bl1 using fr np b1 b2 t1 hd1 hd2 e2 k(10,11) h(2)
    by (intro conjI) (simp_all only: fl f1 f2, auto simp: N'_def)
  show "kid_at N' eh1 pos = c1" using k(8) [of "[]"] by (simp add: eh1_def tk)
  show "kid_at N' eh2 0 = c2" using k(9) [of "drop (Suc pos) is" eh2] by (simp add: eh2_def new_index_def)
  show "\<And>b. seek N' i c1 (Some (ei_pblock (is ! pos))) b = seek N1 i c1 (Some (ei_pblock (is ! pos))) b"
    "\<And>b. seek N' i c2 (Some (last bs)) b = seek N1 i c2 (Some (last bs)) b" by (rule k(12), rule k(13))
  show "sorted_wrt (<) (map ei_block (eh_idxs eh1))" "sorted_wrt (<) (map ei_block (eh_idxs eh2))"
    using tree_inv_keys [OF t1(1)] tree_inv_keys [OF t1(2)] by simp_all
qed

text \<open>The leaf and then the levels above it, as \<open>ext4_ext_split\<close> goes through them.\<close>

definition halve :: "(xcall \<Rightarrow> int) \<Rightarrow> ext_ops \<Rightarrow> super_block \<Rightarrow> nat \<Rightarrow> u32 \<Rightarrow> level list \<Rightarrow> u64 option \<Rightarrow> nat \<Rightarrow> u64 list \<Rightarrow> etree \<Rightarrow> int \<times> u64 \<times> etree" where
  "halve A X sb d border lvls leaf k bs T =
     (case split_leaf A X sb d leaf k (hd bs) T of
        (err, T) \<Rightarrow> if err \<noteq> 0 then (err, hd bs, T) else split_up A X sb d border (rev lvls) (tl bs) (hd bs) (d - 1) T)"

lemma et_put_node [simp]: "et_node (et_put l eh T) = (et_node T)(l \<mapsto> eh)" "et_pool (et_put l eh T) = et_pool T" "et_freed (et_put l eh T) = et_freed T"
  by (simp_all add: et_put_def)

lemma et_get_node: "et_node T l = Some eh \<Longrightarrow> et_get T l = eh"
  by (simp add: et_get_def)

lemma split_leaf_run:
  assumes "\<And>c. A c = 0" "et_node T l = Some eh" "nb \<noteq> 0" "l \<noteq> Some nb" "length (eh_exts eh) = unat (eh_max eh)" "k < length (eh_exts eh)"
  shows "split_leaf A X sb d l k nb T =
    (0, et_put l (eh\<lparr>eh_exts := take (Suc k) (eh_exts eh)\<rparr>) (et_put (Some nb) (new_leaf X sb (drop (Suc k) (eh_exts eh))) T))"
proof -
  let ?T = "et_put (Some nb) (new_leaf X sb (drop (Suc k) (eh_exts eh))) T"
  have "shrink A d l d (length (drop (Suc k) (eh_exts eh))) (eh\<lparr>eh_exts := take (Suc k) (eh_exts eh)\<rparr>) ?T =
      (0, et_put l (eh\<lparr>eh_exts := take (Suc k) (eh_exts eh)\<rparr>) ?T)"
    by (rule shrink_ok [where eh = eh]) (use assms in simp_all)
  then show ?thesis using assms by (simp add: split_leaf_def Let_def et_get_node)
qed

lemma split_up_run:
  assumes "\<And>c. A c = 0" "et_node T l = Some eh" "l \<noteq> Some nb" "length (eh_idxs eh) = unat (eh_max eh)" "pos < length (eh_idxs eh)"
  shows "split_up A X sb d border [(l, pos)] [nb] ob i T =
    (0, nb, et_put l (eh\<lparr>eh_idxs := take (Suc pos) (eh_idxs eh)\<rparr>)
      (et_put (Some nb) (new_index X sb (d - i) (\<lparr>ei_block = border, ei_pblock = ob\<rparr> # drop (Suc pos) (eh_idxs eh))) T))"
proof -
  let ?T = "et_put (Some nb) (new_index X sb (d - i) (\<lparr>ei_block = border, ei_pblock = ob\<rparr> # drop (Suc pos) (eh_idxs eh))) T"
  have "shrink A d l i (length (drop (Suc pos) (eh_idxs eh))) (eh\<lparr>eh_idxs := take (Suc pos) (eh_idxs eh)\<rparr>) ?T =
      (0, et_put l (eh\<lparr>eh_idxs := take (Suc pos) (eh_idxs eh)\<rparr>) ?T)"
    by (rule shrink_ok [where eh = eh]) (use assms in simp_all)
  then show ?thesis using assms by (simp add: Let_def et_get_node)
qed

lemma on_path_in:
  assumes "on_path N i eh l lvls leaf"
  shows "leaf = l \<or> leaf \<in> Some ` set (tree_blocks N i eh)" "x \<in> set lvls \<Longrightarrow> fst x = l \<or> fst x \<in> Some ` set (tree_blocks N i eh)"
proof -
  have "(leaf = l \<or> leaf \<in> Some ` set (tree_blocks N i eh)) \<and> (\<forall>x \<in> set lvls. fst x = l \<or> fst x \<in> Some ` set (tree_blocks N i eh))"
    using assms
  proof (induction i arbitrary: eh l lvls)
    case (Suc i)
    from Suc.prems obtain pos ls c where p: "lvls = (l, pos) # ls" "pos < length (eh_idxs eh)"
      "N (Some (ei_pblock (eh_idxs eh ! pos))) = Some c" "on_path N i c (Some (ei_pblock (eh_idxs eh ! pos))) ls leaf"
      by (rule on_path_SucE)
    have s: "m = Some (ei_pblock (eh_idxs eh ! pos)) \<or> m \<in> Some ` set (tree_blocks N i c) \<Longrightarrow> m \<in> Some ` set (tree_blocks N (Suc i) eh)" for m
      unfolding tree_blocks_split [of pos eh N c i, OF p(2,3)] by auto
    have "leaf \<in> Some ` set (tree_blocks N (Suc i) eh)" "\<forall>x \<in> set ls. fst x \<in> Some ` set (tree_blocks N (Suc i) eh)"
      using Suc.IH [OF p(4)] s by blast+
    then show ?case unfolding p(1) by simp
  qed simp
  then show "leaf = l \<or> leaf \<in> Some ` set (tree_blocks N i eh)" "x \<in> set lvls \<Longrightarrow> fst x = l \<or> fst x \<in> Some ` set (tree_blocks N i eh)" by auto
qed

lemma border_below:
  assumes "tree_inv X sb {} N (Suc i) eh" "seek N i c (Some (ei_pblock (eh_idxs eh ! pos))) b = (ls, leaf)" "N leaf = Some lf"
    and "N (Some (ei_pblock (eh_idxs eh ! pos))) = Some c" "tree_inv X sb {} N i c"
    and "pos = ext4_ext_binsearch_idx eh b" "Suc pos < length (eh_idxs eh)"
  shows "split_border (eh_exts lf) k b < ei_block (eh_idxs eh ! Suc pos)"
proof (cases "Suc k < length (eh_exts lf)")
  case True
  let ?is = "eh_idxs eh"
  have ky: "keyed X (kids N i ?is)" using assms(1) by (simp add: tree_inv_Suc)
  have lk: "on_path N i c (Some (ei_pblock (?is ! pos))) ls leaf" by (rule seek_on_path [OF assms(5,4,2)])
  have "eh_exts lf ! Suc k \<in> set (kid N i (?is ! pos))" using flat_path [OF lk] kid_Some [of N "?is ! pos" c i] assms(3,4) True by simp
  moreover have "?is ! pos \<in> set (take (Suc pos) ?is)" using assms(7) by (simp add: take_Suc_conv_app_nth)
  ultimately have m: "eh_exts lf ! Suc k \<in> set (concat (map (kid N i) (take (Suc pos) ?is)))" by auto
  have "ext_end X (eh_exts lf ! Suc k) \<le> unat (ei_block (?is ! Suc pos))" by (rule keys_around(1) [OF ky assms(7) m])
  moreover have "eh_exts lf ! Suc k \<in> set (flat N (Suc i) eh)" using m by (auto dest: in_set_takeD)
  then have "ext_ok X (eh_exts lf ! Suc k)" using tree_inv_exts [OF assms(1)] unfolding exts_ok_def by blast
  ultimately show ?thesis using True by (simp add: split_border_def ext_ok_def ext_end_def word_less_nat_alt)
next
  case False
  have "eh_idxs eh \<noteq> []" using assms(7) by auto
  from binsearch_idx_pos(3) [OF tree_inv_keys [OF assms(1)] this, of b "Suc pos"] assms(6,7) False
  show ?thesis by (simp add: split_border_def)
qed

text \<open>When nothing fails, the node at the top of the levels is halved.\<close>

lemma halves:
  assumes "\<forall>c. A c = 0" "size_laws X sb" "d < 65536" "ee_block n = b" "border = split_border (eh_exts lf) k b"
    and "ext4_ext_binsearch lf b = Some k" "\<not> has_free lf" "E \<longleftrightarrow> Suc k < length (eh_exts lf)"
  shows "apart (et_node T) i eh l bs \<Longrightarrow> tree_inv X sb {} (et_node T) i eh \<Longrightarrow> head_ok X sb i eh \<Longrightarrow> length bs = Suc i \<Longrightarrow> 0 \<notin> set bs \<Longrightarrow>
    i < d \<Longrightarrow> seek (et_node T) i eh l b = (lvls, leaf) \<Longrightarrow> et_node T leaf = Some lf \<Longrightarrow> \<forall>x \<in> set lvls. \<not> has_free (et_get T (fst x)) \<Longrightarrow>
    fits_in X (flat (et_node T) i eh) n \<Longrightarrow> E \<or> set bs \<subseteq> Z \<Longrightarrow>
    \<exists>T' eh1 eh2. halve A X sb d border lvls leaf k bs T = (0, last bs, T') \<and>
      halved E X sb Z (et_node T) i eh l border bs (et_node T') eh1 eh2 \<and> (E \<longrightarrow> b < border) \<and> et_pool T' = et_pool T \<and> et_freed T' = et_freed T \<and>
      (if E then seek (et_node T') i eh1 l b = (lvls, leaf) \<and> et_node T' leaf = Some (lf\<lparr>eh_exts := take (Suc k) (eh_exts lf)\<rparr>)
       else seek (et_node T') i eh2 (Some (last bs)) b = (map (\<lambda>p. (Some p, 0)) (rev (tl bs)), Some (hd bs)) \<and>
         et_node T' (Some (hd bs)) = Some (new_leaf X sb []))"
proof (induction i arbitrary: eh l bs lvls)
  case 0
  obtain nb where bs: "bs = [nb]" using 0 by (cases bs) auto
  have lf: "lvls = []" "leaf = l" "lf = eh" using 0 by (auto simp: apart_def)
  note h = halved_leaf [OF assms(2) 0(1) [unfolded bs] 0(2,3) assms(6,7) [unfolded lf(3)] _ assms(4), of Z]
  have fits: "fits_in X (eh_exts eh) n" using 0 by simp
  have z: "Suc k < length (eh_exts eh) \<or> nb \<in> Z" using 0(11) assms(8) lf(3) bs by auto
  note h = h [OF fits z]
  have k: "k < length (eh_exts eh)"
  proof -
    have "eh_exts eh \<noteq> []" using assms(6) lf(3) by (auto simp: ext4_ext_binsearch_def)
    then show ?thesis using binsearch_pos [of X eh b] flat_pos_less [of "eh_exts eh" b] 0(2) assms(6) lf(3) by simp
  qed
  have r: "split_leaf A X sb d l k nb T =
      (0, et_put l (eh\<lparr>eh_exts := take (Suc k) (eh_exts eh)\<rparr>) (et_put (Some nb) (new_leaf X sb (drop (Suc k) (eh_exts eh))) T))"
    by (rule split_leaf_run) (use assms(1) 0 bs h(2) k in \<open>auto simp: apart_def\<close>)
  have nl: "l \<noteq> Some nb" using 0(1) bs by (auto simp: apart_def)
  let ?eh1 = "eh\<lparr>eh_exts := take (Suc k) (eh_exts eh)\<rparr>" and ?eh2 = "new_leaf X sb (drop (Suc k) (eh_exts eh))"
  let ?T = "et_put l ?eh1 (et_put (Some nb) ?eh2 T)"
  have "halve A X sb d border lvls leaf k bs T = (0, last bs, ?T)" using r lf bs by (simp add: halve_def)
  moreover have "E \<longrightarrow> b < border" using h(3) assms(5,8) lf(3) by simp
  moreover have "halved E X sb Z (et_node T) 0 eh l border bs (et_node ?T) ?eh1 ?eh2"
    using h(1) assms(5,8) lf(3) bs by (simp only: et_put_node list.set_intros)
  moreover have "if E then seek (et_node ?T) 0 ?eh1 l b = (lvls, leaf) \<and> et_node ?T leaf = Some (lf\<lparr>eh_exts := take (Suc k) (eh_exts lf)\<rparr>)
      else seek (et_node ?T) 0 ?eh2 (Some (last bs)) b = (map (\<lambda>p. (Some p, 0)) (rev (tl bs)), Some (hd bs)) \<and>
        et_node ?T (Some (hd bs)) = Some (new_leaf X sb [])"
    using lf bs nl assms(8) by simp
  ultimately show ?case by (intro exI [of _ ?T] exI conjI) (assumption, assumption, assumption, simp_all)
next
  case (Suc i)
  let ?N = "et_node T" and ?is = "eh_idxs eh" and ?pos = "ext4_ext_binsearch_idx eh b"
  let ?p = "ei_pblock (?is ! ?pos)"
  note bi = binsearch_idx_pos [OF tree_inv_keys [OF Suc.prems(2)], of b]
  have ne: "?is \<noteq> []" and ky: "keyed X (kids ?N i ?is)" using Suc.prems(2) by (simp_all add: tree_inv_Suc)
  note pos = bi(1) [OF ne]
  from tree_inv_kid [OF Suc.prems(2) pos] obtain c where c: "?N (Some ?p) = Some c" "kid_at ?N eh ?pos = c" "head_ok X sb i c"
    "tree_inv X sb {} ?N i c" "kid ?N i (?is ! ?pos) = flat ?N i c" by blast
  obtain ls where ls: "seek ?N i c (Some ?p) b = (ls, leaf)" "lvls = (l, ?pos) # ls"
    using Suc.prems(7) c(2) by (auto simp: Let_def split: prod.splits)
  obtain bs1 nb where bs: "bs = bs1 @ [nb]" "length bs1 = Suc i" using Suc.prems(4) by (cases bs rule: rev_cases) auto
  then have bs1: "bs1 \<noteq> []" by auto
  have ap: "apart ?N i c (Some ?p) bs1" by (rule apart_kid [OF Suc.prems(1) pos c(1) bs(1)])
  have sub: "set (flat ?N i c) \<subseteq> set (flat ?N (Suc i) eh)" using concat_kids_split [OF pos, of ?N i] c(5) by auto
  have ez: "E \<or> set bs1 \<subseteq> Z" "E \<or> nb \<in> Z" using Suc.prems(11) bs(1) by auto
  have fits: "fits_in X (flat ?N i c) n" using Suc.prems(10) sub unfolding fits_in_def by blast
  have lk: "on_path ?N i c (Some ?p) ls leaf" by (rule seek_on_path [OF c(4,1) ls(1)])
  note ln = on_path_length [OF lk]
  from Suc.IH [OF ap c(4,3) bs(2) _ _ ls(1) Suc.prems(8) _ fits ez(1)] Suc.prems(5,6,9) bs(1) ls(2)
  obtain T1 c1 c2 where IH: "halve A X sb d border ls leaf k bs1 T = (0, last bs1, T1)"
    "halved E X sb Z ?N i c (Some ?p) border bs1 (et_node T1) c1 c2" "et_pool T1 = et_pool T" "et_freed T1 = et_freed T"
    "E \<longrightarrow> b < border"
    "if E then seek (et_node T1) i c1 (Some ?p) b = (ls, leaf) \<and> et_node T1 leaf = Some (lf\<lparr>eh_exts := take (Suc k) (eh_exts lf)\<rparr>)
       else seek (et_node T1) i c2 (Some (last bs1)) b = (map (\<lambda>p. (Some p, 0)) (rev (tl bs1)), Some (hd bs1)) \<and>
         et_node T1 (Some (hd bs1)) = Some (new_leaf X sb [])" by auto
  have nx: "b < ei_block (?is ! Suc ?pos)" if "Suc ?pos < length ?is" using bi(3) [OF ne, of "Suc ?pos"] that by simp
  have bn: "border < ei_block (?is ! Suc ?pos)" if s: "Suc ?pos < length ?is"
    unfolding assms(5) by (rule border_below [OF Suc.prems(2) ls(1) Suc.prems(8) c(1,4) refl s])
  have fe: "\<not> has_free eh" using Suc.prems(1,9) ls(2) by (auto simp: apart_def et_get_node)
  note st = halved_step [OF assms(2) Suc.prems(1) [unfolded bs(1)] Suc.prems(2,3) fe pos c(1) IH(2) ez(2) _ bn]
  have i16: "Suc i < 65536" using Suc.prems(6) assms(3) by simp
  note st = st [OF i16]
  have n1: "et_node T1 l = Some eh"
    by (rule kid_halved(1) [OF Suc.prems(1) [unfolded bs(1)] Suc.prems(2) pos c(1) IH(2), of "et_node T1"]) simp
  have lnb: "l \<noteq> Some nb" using Suc.prems(1) bs(1) by (auto simp: apart_def)
  let ?T = "et_put l (eh\<lparr>eh_idxs := take (Suc ?pos) ?is\<rparr>)
      (et_put (Some nb) (new_index X sb (Suc i) (\<lparr>ei_block = border, ei_pblock = last bs1\<rparr> # drop (Suc ?pos) ?is)) T1)"
  have "halve A X sb d border lvls leaf k bs T = (0, nb, ?T)"
  proof -
    have di: "d - (d - 1 - i) = Suc i" using Suc.prems(6) by simp
    have sl: "split_leaf A X sb d leaf k (hd bs1) T = (0, snd (split_leaf A X sb d leaf k (hd bs1) T))"
      "split_up A X sb d border (rev ls) (tl bs1) (hd bs1) (d - 1) (snd (split_leaf A X sb d leaf k (hd bs1) T)) = (0, last bs1, T1)"
      using IH(1) by (auto simp: halve_def split: prod.splits if_splits)
    have "split_up A X sb d border (rev ls @ [(l, ?pos)]) (tl bs1 @ [nb]) (hd bs1) (d - 1) (snd (split_leaf A X sb d leaf k (hd bs1) T)) =
        split_up A X sb d border [(l, ?pos)] [nb] (last bs1) (d - 1 - i) T1"
      using split_up_append [OF sl(2), of "[(l, ?pos)]" "[nb]"] ln bs(2) by simp
    also have "\<dots> = (0, nb, ?T)"
      using split_up_run [of A T1 l eh nb ?pos X sb d border "last bs1" "d - 1 - i"] assms(1) n1 lnb st(2) pos di by simp
    finally show ?thesis using sl(1) bs1 bs(1) ls(2) by (auto simp: halve_def split: prod.splits)
  qed
  moreover have "halved E X sb Z ?N (Suc i) eh l border bs (et_node ?T) (eh\<lparr>eh_idxs := take (Suc ?pos) ?is\<rparr>)
      (new_index X sb (Suc i) (\<lparr>ei_block = border, ei_pblock = last bs1\<rparr> # drop (Suc ?pos) ?is))"
    using st(1) bs(1) by simp
  moreover have "if E then seek (et_node ?T) (Suc i) (eh\<lparr>eh_idxs := take (Suc ?pos) ?is\<rparr>) l b = (lvls, leaf) \<and>
      et_node ?T leaf = Some (lf\<lparr>eh_exts := take (Suc k) (eh_exts lf)\<rparr>)
     else seek (et_node ?T) (Suc i) (new_index X sb (Suc i) (\<lparr>ei_block = border, ei_pblock = last bs1\<rparr> # drop (Suc ?pos) ?is)) (Some (last bs)) b =
        (map (\<lambda>p. (Some p, 0)) (rev (tl bs)), Some (hd bs)) \<and> et_node ?T (Some (hd bs)) = Some (new_leaf X sb [])"
  proof -
    let ?N' = "et_node ?T"
    have hb: "hd bs = hd bs1" "last bs = nb" "tl bs = tl bs1 @ [nb]" using bs bs1 by simp_all
    show ?thesis
    proof (cases E)
      case True
      let ?eh1 = "eh\<lparr>eh_idxs := take (Suc ?pos) ?is\<rparr>"
      have "ext4_ext_binsearch_idx ?eh1 b = ?pos"
        by (rule binsearch_idx_unique) (use st(7) pos bi(2) [OF ne] in auto)
      then have "seek ?N' (Suc i) ?eh1 l b = (lvls, leaf)" using IH(6) True st(3,5) ls(2) pos by (simp add: Let_def)
      moreover have "leaf \<noteq> l \<and> leaf \<noteq> Some nb"
      proof -
        have "leaf = Some ?p \<or> leaf \<in> Some ` set (tree_blocks ?N i c)" by (rule on_path_in(1) [OF lk])
        then have "leaf \<in> Some ` set (tree_blocks ?N (Suc i) eh)" using tree_blocks_split [of ?pos eh ?N c i, OF pos c(1)] by auto
        then show ?thesis using Suc.prems(1) bs(1) by (auto simp: apart_def)
      qed
      ultimately show ?thesis using IH(6) True by simp
    next
      case False
      let ?eh2 = "new_index X sb (Suc i) (\<lparr>ei_block = border, ei_pblock = last bs1\<rparr> # drop (Suc ?pos) ?is)"
      have bb: "border = b" using False assms(5,8) by (simp add: split_border_def)
      have "ext4_ext_binsearch_idx ?eh2 b = 0"
        by (rule binsearch_idx_unique) (use st(8) nx in \<open>auto simp: new_index_def\<close>)
      then have "seek ?N' (Suc i) ?eh2 (Some nb) b = (map (\<lambda>p. (Some p, 0)) (rev (tl bs)), Some (hd bs))"
        using IH(6) False st(4,6) hb by (simp add: Let_def new_index_def)
      moreover have "Some (hd bs) \<noteq> l \<and> hd bs \<noteq> nb" using Suc.prems(1) bs bs1 hb by (cases bs1) (auto simp: apart_def)
      ultimately show ?thesis using IH(6) False hb by simp
    qed
  qed
  ultimately show ?case using IH(3-5) bs(1) by (intro exI [of _ ?T] exI conjI) (simp, assumption, simp_all)
qed

section \<open>Changing one child\<close>

text \<open>
  The child at \<open>pos\<close> becomes \<open>c'\<close>, using the blocks \<open>bs\<close>; the key of its index may change. The other children stay.
\<close>

lemma kid_replaced:
  assumes "apart N (Suc i) eh l bs" "\<forall>ix \<in> set (eh_idxs eh). kid_inv X sb Z N i ix" "pos < length (eh_idxs eh)"
    and "N (Some (ei_pblock (eh_idxs eh ! pos))) = Some c"
    and "\<forall>m. m \<noteq> l \<and> m \<noteq> Some (ei_pblock (eh_idxs eh ! pos)) \<and> m \<notin> Some ` set (tree_blocks N i c) \<and> m \<notin> Some ` set bs \<longrightarrow> N' m = N m"
    and "N' (Some (ei_pblock (eh_idxs eh ! pos))) = Some c'" "distinct (tree_blocks N' i c')"
    and "set (tree_blocks N' i c') \<subseteq> set (tree_blocks N i c) \<union> set bs"
    and "Z \<inter> set (concat (map (kid_blocks N i) (take pos (eh_idxs eh) @ drop (Suc pos) (eh_idxs eh)))) \<subseteq> Z'"
    and "ei_pblock jx = ei_pblock (eh_idxs eh ! pos)"
  defines "is \<equiv> eh_idxs eh"
  shows "kids N' i (take pos is) = kids N i (take pos is)" "kids N' i (drop (Suc pos) is) = kids N i (drop (Suc pos) is)"
    and "\<forall>ix \<in> set (take pos is) \<union> set (drop (Suc pos) is). kid_inv X sb Z' N' i ix"
    and "kid N' i jx = flat N' i c'" "distinct (concat (map (kid_blocks N' i) (take pos is @ jx # drop (Suc pos) is)))"
    and "set (concat (map (kid_blocks N' i) (take pos is @ jx # drop (Suc pos) is))) \<subseteq> set (tree_blocks N (Suc i) eh) \<union> set bs"
    and "map (kid_blocks N' i) (take pos is) = map (kid_blocks N i) (take pos is)"
    and "map (kid_blocks N' i) (drop (Suc pos) is) = map (kid_blocks N i) (drop (Suc pos) is)"
proof -
  let ?p = "ei_pblock (is ! pos)"
  define A B where AB: "A = concat (map (kid_blocks N i) (take pos is))" "B = concat (map (kid_blocks N i) (drop (Suc pos) is))"
  have bl: "tree_blocks N (Suc i) eh = A @ (?p # tree_blocks N i c) @ B"
    using tree_blocks_split [of pos eh N c i, OF assms(3,4)] by (simp add: is_def AB)
  have d: "N l = Some eh" "distinct (A @ (?p # tree_blocks N i c) @ B @ bs)" "l \<notin> Some ` set (A @ (?p # tree_blocks N i c) @ B @ bs)"
    using assms(1) unfolding apart_def bl by auto
  have same: "N' (Some r) = N (Some r)" if "r \<in> set (A @ B)" for r
    using that d(2,3) by (intro assms(5) [rule_format]) (auto simp: is_def)
  have sameA: "N' (Some r) = N (Some r)" if "r \<in> set (concat (map (kid_blocks N i) (take pos is)))" for r
    using same [of r] that by (simp add: AB)
  have sameB: "N' (Some r) = N (Some r)" if "r \<in> set (concat (map (kid_blocks N i) (drop (Suc pos) is)))" for r
    using same [of r] that by (simp add: AB)
  show "kids N' i (take pos is) = kids N i (take pos is)" "kids N' i (drop (Suc pos) is) = kids N i (drop (Suc pos) is)"
    by (rule kids_frame(2), erule sameA, rule kids_frame(2), erule sameB)
  have z: "set (concat (map (kid_blocks N i) (take pos is))) \<inter> Z \<subseteq> Z'" "set (concat (map (kid_blocks N i) (drop (Suc pos) is))) \<inter> Z \<subseteq> Z'"
    using assms(9) by (auto simp: is_def)
  have "\<forall>ix \<in> set (take pos is). kid_inv X sb Z' N' i ix"
    by (rule kids_frame(4) [where N = N and Z = Z], erule sameA, use assms(2) in_set_takeD in \<open>fastforce simp: is_def\<close>, rule z(1))
  moreover have "\<forall>ix \<in> set (drop (Suc pos) is). kid_inv X sb Z' N' i ix"
    by (rule kids_frame(4) [where N = N and Z = Z], erule sameB, use assms(2) in_set_dropD in \<open>fastforce simp: is_def\<close>, rule z(2))
  ultimately show "\<forall>ix \<in> set (take pos is) \<union> set (drop (Suc pos) is). kid_inv X sb Z' N' i ix" by blast
  show "kid N' i jx = flat N' i c'" using assms(6,10) by (simp add: kid_def)
  show kb: "map (kid_blocks N' i) (take pos is) = map (kid_blocks N i) (take pos is)"
    "map (kid_blocks N' i) (drop (Suc pos) is) = map (kid_blocks N i) (drop (Suc pos) is)"
    by (rule kids_frame(3), erule sameA, rule kids_frame(3), erule sameB)
  have kb1: "kid_blocks N' i jx = ?p # tree_blocks N' i c'" using assms(6,10) by (simp add: kid_blocks_def is_def)
  have all: "concat (map (kid_blocks N' i) (take pos is @ jx # drop (Suc pos) is)) = A @ (?p # tree_blocks N' i c') @ B"
    unfolding map_append list.map concat_append concat.simps kb kb1 AB by simp
  show "distinct (concat (map (kid_blocks N' i) (take pos is @ jx # drop (Suc pos) is)))"
  proof -
    have n: "x \<notin> set A \<and> x \<notin> set B \<and> x \<noteq> ?p" if x: "x \<in> set (tree_blocks N' i c')" for x
    proof -
      have "x \<in> set (tree_blocks N i c) \<or> x \<in> set bs" using assms(8) x by blast
      then show ?thesis using d(2) by auto
    qed
    have "distinct A" "distinct B" "?p \<notin> set A" "?p \<notin> set B" "set A \<inter> set B = {}" using d(2) by auto
    then show ?thesis unfolding all using n assms(7) by auto
  qed
  show "set (concat (map (kid_blocks N' i) (take pos is @ jx # drop (Suc pos) is))) \<subseteq> set (tree_blocks N (Suc i) eh) \<union> set bs"
    unfolding all bl using assms(8) by auto
qed

section \<open>Splitting below a node with a free entry\<close>

definition split_core ::
    "(xcall \<Rightarrow> int) \<Rightarrow> ext_ops \<Rightarrow> super_block \<Rightarrow> nat \<Rightarrow> nat \<Rightarrow> u32 \<Rightarrow> level list \<Rightarrow> u64 option \<Rightarrow> nat \<Rightarrow> u64 list \<Rightarrow> etree \<Rightarrow> int \<times> etree" where
  "split_core A X sb d at border lvls leaf k bs T =
     (case halve A X sb d border (tl lvls) leaf k bs T of
        (err, nb, T) \<Rightarrow> if err \<noteq> 0 then (err, T) else ext4_ext_insert_index A d at (hd lvls) border nb T)"

definition subtree_grown :: "ext_ops \<Rightarrow> super_block \<Rightarrow> u64 set \<Rightarrow> nodes \<Rightarrow> nat \<Rightarrow> ext_node \<Rightarrow> u64 option \<Rightarrow> u64 list \<Rightarrow> nodes \<Rightarrow> ext_node \<Rightarrow> bool" where
  "subtree_grown X sb Z N i eh l bs N' eh' \<longleftrightarrow>
     (\<forall>m. m \<noteq> l \<and> m \<notin> Some ` set (tree_blocks N i eh) \<and> m \<notin> Some ` set bs \<longrightarrow> N' m = N m) \<and> N' l = Some eh' \<and>
     eh' = eh\<lparr>eh_idxs := eh_idxs eh'\<rparr> \<and> length (eh_idxs eh') \<le> max (length (eh_idxs eh)) (unat (eh_max eh)) \<and>
     flat N' i eh' = flat N i eh \<and> tree_inv X sb Z N' i eh' \<and> distinct (tree_blocks N' i eh') \<and>
     set (tree_blocks N' i eh') \<subseteq> set (tree_blocks N i eh) \<union> set bs"

lemma list_insert_Suc: "pos < length xs \<Longrightarrow> list_insert (Suc pos) x xs = take pos xs @ xs ! pos # x # drop (Suc pos) xs"
  by (simp add: list_insert_def take_Suc_conv_app_nth)

lemma insert_index_run:
  assumes "\<And>c. A c = 0" "et_node T l = Some eh" "pos < length (eh_idxs eh)" "length (eh_idxs eh) < unat (eh_max eh)" "ei_block (eh_idxs eh ! pos) < logical"
  shows "ext4_ext_insert_index A d lvl (l, pos) logical ptr T =
    (0, et_put l (eh\<lparr>eh_idxs := list_insert (Suc pos) \<lparr>ei_block = logical, ei_pblock = ptr\<rparr> (eh_idxs eh)\<rparr>) T)"
proof -
  have "logical \<noteq> ei_block (eh_idxs eh ! pos)" "et_get T l = eh" using assms(2,5) by (auto simp: et_get_node)
  then show ?thesis using assms
    by (simp add: ext4_ext_insert_index_def Let_def ext4_ext_get_access_def ext4_ext_dirty_def split: option.splits)
qed

lemma split_here:
  assumes "size_laws X sb" "apart N (Suc i) eh l bs" "tree_inv X sb {} N (Suc i) eh" "pos < length (eh_idxs eh)" "length (eh_idxs eh) < unat (eh_max eh)"
    and "N (Some (ei_pblock (eh_idxs eh ! pos))) = Some c"
    and "halved E X sb Z N i c (Some (ei_pblock (eh_idxs eh ! pos))) border bs N1 c1 c2"
  defines "is \<equiv> eh_idxs eh"
  defines "eh' \<equiv> eh\<lparr>eh_idxs := list_insert (Suc pos) \<lparr>ei_block = border, ei_pblock = last bs\<rparr> is\<rparr>"
  defines "N' \<equiv> N1(l \<mapsto> eh')"
  assumes "Suc pos < length is \<Longrightarrow> border < ei_block (is ! Suc pos)"
  shows "subtree_grown X sb Z N (Suc i) eh l bs N' eh'" "ei_block (is ! pos) < border" "N1 l = Some eh"
    "kid_at N' eh' pos = c1" "kid_at N' eh' (Suc pos) = c2"
    "\<And>b. seek N' i c1 (Some (ei_pblock (is ! pos))) b = seek N1 i c1 (Some (ei_pblock (is ! pos))) b"
    "\<And>b. seek N' i c2 (Some (last bs)) b = seek N1 i c2 (Some (last bs)) b"
proof -
  let ?q = "\<lparr>ei_block = border, ei_pblock = last bs\<rparr>" and ?p = "ei_pblock (is ! pos)"
  have out: "\<forall>m. m \<noteq> l \<and> m \<notin> Some ` set [] \<longrightarrow> N' m = N1 m" by (simp add: N'_def)
  have ap: "apart N (Suc i) eh l (bs @ [])" using assms(2) by simp
  note k = kid_halved [OF ap assms(3,4,6,7) out, folded is_def]
  note sp = idxs_split [OF assms(4), folded is_def]
  have ins: "list_insert (Suc pos) ?q is = take pos is @ is ! pos # ?q # drop (Suc pos) is"
    using assms(4) by (simp add: is_def list_insert_Suc)
  have ky: "keyed X (kids N i (take pos is) @ (ei_block (is ! pos), kid N' i (is ! pos) @ kid N' i ?q) # kids N i (drop (Suc pos) is))"
  proof -
    have "keyed X (kids N i (take pos is @ is ! pos # drop (Suc pos) is))" using assms(3) sp by (simp add: tree_inv_Suc is_def)
    then show ?thesis by (simp add: k(4))
  qed
  have h: "\<forall>m. m \<noteq> Some ?p \<and> m \<notin> Some ` set (tree_blocks N i c) \<and> m \<notin> Some ` set bs \<longrightarrow> N1 m = N m"
    "flat N1 i c1 \<noteq> []" "\<forall>e \<in> set (flat N1 i c1). ext_end X e \<le> unat border" "\<forall>e \<in> set (flat N1 i c2). unat border \<le> ext_start e"
    using assms(7) unfolding halved_def is_def by blast+
  have nk: "\<forall>ke \<in> set (kids N i (drop (Suc pos) is)). border < fst ke"
  proof (cases "Suc pos < length is")
    case True
    have "keyed X (kids N i (drop (Suc pos) is))" using ky by (simp add: keyed_append)
    then have "ei_block (is ! Suc pos) \<le> ei_block ix" if "ix \<in> set (drop (Suc pos) is)" for ix
      using that Cons_nth_drop_Suc [OF True, symmetric] by auto
    then show ?thesis using assms(11) [OF True] by fastforce
  qed simp
  show kb: "ei_block (is ! pos) < border"
  proof -
    have e: "hd (flat N1 i c1) \<in> set (flat N1 i c1)" using h(2) by simp
    have "exts_ok X (flat N1 i c1)" "unat (ei_block (is ! pos)) \<le> ext_start (hd (flat N1 i c1))"
      using ky e by (auto simp: keyed_append exts_ok_append k(6))
    then have "unat (ei_block (is ! pos)) < ext_end X (hd (flat N1 i c1))"
      using e by (auto simp: exts_ok_def ext_ok_def ext_end_def ext_start_def)
    then have "unat (ei_block (is ! pos)) < unat border" using h(3) e by fastforce
    then show ?thesis by (simp add: word_less_nat_alt)
  qed
  have b: "\<forall>e \<in> set (kid N' i ?q). unat border \<le> ext_start e" "\<forall>e \<in> set (kid N' i (is ! pos)). ext_end X e \<le> unat border"
    using h(3,4) k(6,7) by simp_all
  have kx: "keyed X (kids N' i (list_insert (Suc pos) ?q is))"
    using keyed_both [OF ky b(1) nk kb b(2)] unfolding ins by (simp add: k(2,3) del: keyed.simps)
  have fl: "flat N' (Suc i) eh' = flat N (Suc i) eh"
    using concat_kids_split [OF assms(4), of N i] kids_concat [OF k(2)] kids_concat [OF k(3)] k(4) by (simp add: eh'_def ins is_def [symmetric])
  have t: "tree_inv X sb Z N' (Suc i) eh'"
    using kx k(5) assms(3) by (simp add: tree_inv_Suc eh'_def ins del: keyed.simps kids_simps)
  have bl: "tree_blocks N' (Suc i) eh' = concat (map (kid_blocks N' i) (take pos is @ is ! pos # ?q # drop (Suc pos) is))"
    by (simp add: tree_blocks_Suc eh'_def ins)
  have fr: "\<forall>m. m \<noteq> l \<and> m \<notin> Some ` set (tree_blocks N (Suc i) eh) \<and> m \<notin> Some ` set bs \<longrightarrow> N' m = N m"
    using h(1) tree_blocks_split [of pos eh N c i, OF assms(4,6)] by (auto simp: N'_def is_def)
  have "length (eh_idxs eh') = Suc (length is)" using assms(4) by (simp add: eh'_def list_insert_def is_def)
  then have hdr: "eh' = eh\<lparr>eh_idxs := eh_idxs eh'\<rparr>" "length (eh_idxs eh') \<le> max (length (eh_idxs eh)) (unat (eh_max eh))" "N' l = Some eh'"
    using assms(5) by (simp_all add: eh'_def N'_def is_def)
  show "subtree_grown X sb Z N (Suc i) eh l bs N' eh'" unfolding subtree_grown_def bl using fr hdr fl t k(10,11) by (intro conjI) assumption+
  show "N1 l = Some eh" by (rule k(1))
  show "kid_at N' eh' pos = c1" using k(8) [of "?q # drop (Suc pos) is"] by (simp add: eh'_def ins)
  show "kid_at N' eh' (Suc pos) = c2"
    using k(9) [of "[]" eh] assms(4) by (simp add: eh'_def kid_at_def list_insert_def nth_append is_def)
  show "\<And>b. seek N' i c1 (Some (ei_pblock (is ! pos))) b = seek N1 i c1 (Some (ei_pblock (is ! pos))) b"
    "\<And>b. seek N' i c2 (Some (last bs)) b = seek N1 i c2 (Some (last bs)) b" by (rule k(12), rule k(13))
qed

text \<open>The path to the new extent in the tree that was split at the level \<open>at\<close>.\<close>

definition split_path :: "bool \<Rightarrow> ext_ops \<Rightarrow> super_block \<Rightarrow> ext_node \<Rightarrow> nat \<Rightarrow> level list \<Rightarrow> u64 option \<Rightarrow> nat \<Rightarrow> u64 list \<Rightarrow> nodes \<Rightarrow> level list \<times> u64 option \<Rightarrow> bool" where
  "split_path E X sb lf k lvls leaf at bs N' s \<longleftrightarrow>
     (if E then s = (lvls, leaf) \<and> N' leaf = Some (lf\<lparr>eh_exts := take (Suc k) (eh_exts lf)\<rparr>)
      else s = (take at lvls @ (fst (lvls ! at), Suc (snd (lvls ! at))) # map (\<lambda>p. (Some p, 0)) (rev (tl bs)), Some (hd bs)) \<and>
        N' (Some (hd bs)) = Some (new_leaf X sb []))"

lemma split_in:
  assumes "\<forall>c. A c = 0" "size_laws X sb" "d < 65536" "ee_block n = b" "border = split_border (eh_exts lf) k b"
    and "ext4_ext_binsearch lf b = Some k" "\<not> has_free lf" "E \<longleftrightarrow> Suc k < length (eh_exts lf)"
  shows "apart (et_node T) i eh l bs \<Longrightarrow> tree_inv X sb {} (et_node T) i eh \<Longrightarrow> unat (eh_depth eh) = i \<Longrightarrow> length bs = i - at \<Longrightarrow> 0 \<notin> set bs \<Longrightarrow>
    i \<le> d \<Longrightarrow> at < i \<Longrightarrow> seek (et_node T) i eh l b = (lvls, leaf) \<Longrightarrow> et_node T leaf = Some lf \<Longrightarrow>
    has_free (et_get T (fst (lvls ! at))) \<Longrightarrow> \<forall>x \<in> set (drop (Suc at) lvls). \<not> has_free (et_get T (fst x)) \<Longrightarrow>
    fits_in X (flat (et_node T) i eh) n \<Longrightarrow> E \<or> set bs \<subseteq> Z \<Longrightarrow>
    \<exists>T' eh'. split_core A X sb d a0 border (drop at lvls) leaf k bs T = (0, T') \<and> subtree_grown X sb Z (et_node T) i eh l bs (et_node T') eh' \<and>
      et_pool T' = et_pool T \<and> et_freed T' = et_freed T \<and> split_path E X sb lf k lvls leaf at bs (et_node T') (seek (et_node T') i eh' l b)"
proof (induction at arbitrary: i eh l lvls)
  case 0
  obtain i' where i: "i = Suc i'" using 0(7) by (cases i) auto
  let ?N = "et_node T" and ?is = "eh_idxs eh" and ?pos = "ext4_ext_binsearch_idx eh b"
  let ?p = "ei_pblock (?is ! ?pos)"
  note inv = 0(2) [unfolded i]
  note bi = binsearch_idx_pos [OF tree_inv_keys [OF inv], of b]
  have ne: "?is \<noteq> []" using inv by (simp add: tree_inv_Suc)
  note pos = bi(1) [OF ne]
  from tree_inv_kid [OF inv pos] obtain c where c: "?N (Some ?p) = Some c" "kid_at ?N eh ?pos = c" "head_ok X sb i' c"
    "tree_inv X sb {} ?N i' c" "kid ?N i' (?is ! ?pos) = flat ?N i' c" by blast
  obtain ls where ls: "seek ?N i' c (Some ?p) b = (ls, leaf)" "lvls = (l, ?pos) # ls"
    using 0(8) c(2) i by (auto simp: Let_def split: prod.splits)
  have ap: "apart ?N i' c (Some ?p) bs" by (rule apart_kid [OF 0(1) [unfolded i] pos c(1), of _ "[]"]) simp
  have sub: "set (flat ?N i' c) \<subseteq> set (flat ?N i eh)" using concat_kids_split [OF pos, of ?N i'] c(5) i by auto
  have fits: "fits_in X (flat ?N i' c) n" using 0(12) sub unfolding fits_in_def by blast
  have lb: "length bs = Suc i'" "i' < d" "\<forall>x \<in> set ls. \<not> has_free (et_get T (fst x))" using 0(4,6,11) i ls(2) by simp_all
  note hs = halves [OF assms, of T i' c "Some ?p" bs ls leaf Z, OF ap c(4,3) lb(1) 0(5) lb(2) ls(1) 0(9) lb(3) fits 0(13)]
  from hs obtain T1 c1 c2 where IH: "halve A X sb d border ls leaf k bs T = (0, last bs, T1)"
    "halved E X sb Z ?N i' c (Some ?p) border bs (et_node T1) c1 c2" "et_pool T1 = et_pool T" "et_freed T1 = et_freed T"
    "if E then seek (et_node T1) i' c1 (Some ?p) b = (ls, leaf) \<and> et_node T1 leaf = Some (lf\<lparr>eh_exts := take (Suc k) (eh_exts lf)\<rparr>)
       else seek (et_node T1) i' c2 (Some (last bs)) b = (map (\<lambda>p. (Some p, 0)) (rev (tl bs)), Some (hd bs)) \<and>
         et_node T1 (Some (hd bs)) = Some (new_leaf X sb [])" "E \<Longrightarrow> b < border" by blast
  have nl: "?N l = Some eh" using 0(1) by (simp add: apart_def)
  have room: "length ?is < unat (eh_max eh)"
    using 0(3,10) ls(2) i nl by (auto simp: has_free_def eh_entries_def et_get_node split: if_splits)
  have bn: "border < ei_block (?is ! Suc ?pos)" if "Suc ?pos < length ?is"
    unfolding assms(5) by (rule border_below [OF inv ls(1) 0(9) c(1,4) refl that])
  note sh = split_here [OF assms(2) 0(1) [unfolded i] inv pos room c(1) IH(2) bn]
  let ?eh' = "eh\<lparr>eh_idxs := list_insert (Suc ?pos) \<lparr>ei_block = border, ei_pblock = last bs\<rparr> ?is\<rparr>"
  let ?T = "et_put l ?eh' T1"
  have run: "split_core A X sb d a0 border (drop 0 lvls) leaf k bs T = (0, ?T)"
    using IH(1) ls(2) insert_index_run [of A T1 l eh ?pos border d a0 "last bs"] assms(1) sh(2,3) pos room by (simp add: split_core_def)
  have gr: "subtree_grown X sb Z ?N i eh l bs (et_node ?T) ?eh'" using sh(1) i by simp
  then have keys: "sorted_wrt (<) (map ei_block (eh_idxs ?eh'))" unfolding subtree_grown_def i using tree_inv_keys by blast
  have ln: "l \<noteq> leaf" "l \<noteq> Some (hd bs)"
  proof -
    have lk: "on_path ?N i' c (Some ?p) ls leaf" by (rule seek_on_path [OF c(4,1) ls(1)])
    have "leaf \<in> Some ` set (tree_blocks ?N i eh)"
      using on_path_in(1) [OF lk] tree_blocks_split [of ?pos eh ?N c i', OF pos c(1)] i by auto
    then show "l \<noteq> leaf" using 0(1) by (auto simp: apart_def)
    show "l \<noteq> Some (hd bs)" using 0(1) lb(1) by (cases bs) (auto simp: apart_def)
  qed
  have path: "split_path E X sb lf k lvls leaf 0 bs (et_node ?T) (seek (et_node ?T) i ?eh' l b)"
  proof (cases E)
    case True
    have "b < border" using IH(6) True .
    have "ext4_ext_binsearch_idx ?eh' b = ?pos"
      by (rule binsearch_idx_unique [OF keys]) (use pos bi(2) [OF ne] \<open>b < border\<close> in \<open>auto simp: list_insert_Suc nth_append\<close>)
    then show ?thesis using IH(5) True sh(4,6) ls(2) ln pos i by (simp add: split_path_def Let_def list_insert_Suc nth_append)
  next
    case False
    have bb: "border = b" using False assms(5,8) by (simp add: split_border_def)
    have "ext4_ext_binsearch_idx ?eh' b = Suc ?pos"
      by (rule binsearch_idx_unique [OF keys])
        (use pos bb bn in \<open>auto simp: list_insert_def nth_append nth_Cons' min_def\<close>)
    then show ?thesis using IH(5) False sh(5,7) ls(2) ln pos i
      by (simp add: split_path_def Let_def list_insert_def nth_append)
  qed
  show ?case by (intro exI conjI) (rule run, rule gr, simp add: IH(3), simp add: IH(4), rule path)
next
  case (Suc at)
  obtain i' where i: "i = Suc i'" using Suc.prems(7) by (cases i) auto
  let ?N = "et_node T" and ?is = "eh_idxs eh" and ?pos = "ext4_ext_binsearch_idx eh b"
  let ?p = "ei_pblock (?is ! ?pos)"
  note inv = Suc.prems(2) [unfolded i]
  note bi = binsearch_idx_pos [OF tree_inv_keys [OF inv], of b]
  have ne: "?is \<noteq> []" using inv by (simp add: tree_inv_Suc)
  note pos = bi(1) [OF ne]
  from tree_inv_kid [OF inv pos] obtain c where c: "?N (Some ?p) = Some c" "kid_at ?N eh ?pos = c" "head_ok X sb i' c"
    "tree_inv X sb {} ?N i' c" "kid ?N i' (?is ! ?pos) = flat ?N i' c"
    "flat ?N i' c \<noteq> [] \<and> ee_block (hd (flat ?N i' c)) = ei_block (?is ! ?pos)" by blast
  obtain ls where ls: "seek ?N i' c (Some ?p) b = (ls, leaf)" "lvls = (l, ?pos) # ls"
    using Suc.prems(8) c(2) i by (auto simp: Let_def split: prod.splits)
  have ap: "apart ?N i' c (Some ?p) bs" by (rule apart_kid [OF Suc.prems(1) [unfolded i] pos c(1), of _ "[]"]) simp
  have sub: "set (flat ?N i' c) \<subseteq> set (flat ?N i eh)" using concat_kids_split [OF pos, of ?N i'] c(5) i by auto
  have fits: "fits_in X (flat ?N i' c) n" using Suc.prems(12) sub unfolding fits_in_def by blast
  have hc: "unat (eh_depth c) = i'" using c(3) by (simp add: head_ok_def)
  from Suc.IH [OF ap c(4) hc _ Suc.prems(5) _ _ ls(1) Suc.prems(9) _ _ fits Suc.prems(13)] Suc.prems(4,6,7,10,11) i ls(2)
  obtain T' c' where IH: "split_core A X sb d a0 border (drop at ls) leaf k bs T = (0, T')" "subtree_grown X sb Z ?N i' c (Some ?p) bs (et_node T') c'"
    "et_pool T' = et_pool T" "et_freed T' = et_freed T" "split_path E X sb lf k ls leaf at bs (et_node T') (seek (et_node T') i' c' (Some ?p) b)"
    by auto
  have g: "\<forall>m. m \<noteq> Some ?p \<and> m \<notin> Some ` set (tree_blocks ?N i' c) \<and> m \<notin> Some ` set bs \<longrightarrow> et_node T' m = ?N m" "et_node T' (Some ?p) = Some c'"
    "c' = c\<lparr>eh_idxs := eh_idxs c'\<rparr>" "length (eh_idxs c') \<le> max (length (eh_idxs c)) (unat (eh_max c))" "flat (et_node T') i' c' = flat ?N i' c"
    "tree_inv X sb Z (et_node T') i' c'" "distinct (tree_blocks (et_node T') i' c')"
    "set (tree_blocks (et_node T') i' c') \<subseteq> set (tree_blocks ?N i' c) \<union> set bs" using IH(2) unfolding subtree_grown_def by blast+
  have kv: "\<forall>ix \<in> set ?is. kid_inv X sb {} ?N i' ix" using inv by (simp add: tree_inv_Suc)
  have fr: "\<forall>m. m \<noteq> l \<and> m \<noteq> Some ?p \<and> m \<notin> Some ` set (tree_blocks ?N i' c) \<and> m \<notin> Some ` set bs \<longrightarrow> et_node T' m = ?N m" using g(1) by blast
  have zz: "{} \<inter> set (concat (map (kid_blocks ?N i') (take ?pos ?is @ drop (Suc ?pos) ?is))) \<subseteq> Z" by simp
  note kr = kid_replaced [OF Suc.prems(1) [unfolded i] kv pos c(1) fr g(2,7,8) zz refl]
  have sp: "?is = take ?pos ?is @ ?is ! ?pos # drop (Suc ?pos) ?is" by (rule idxs_split [OF pos])
  have hd': "head_ok X sb i' c'"
  proof -
    have "eh_magic c' = eh_magic c" "eh_depth c' = eh_depth c" "eh_max c' = eh_max c" "eh_exts c' = eh_exts c" by (subst g(3), simp)+
    then show ?thesis using c(3) g(4) by (auto simp: head_ok_def eh_entries_def split: if_splits)
  qed
  have kid': "kid (et_node T') i' (?is ! ?pos) = kid ?N i' (?is ! ?pos)" using kr(4) g(5) c(5) by simp
  have kids': "kids (et_node T') i' ?is = kids ?N i' ?is"
    by (subst sp, subst (2) sp) (simp only: kids_simps(2,3) kr(1,2) kid')
  have kvp: "kid_inv X sb Z (et_node T') i' (?is ! ?pos)" using g(2,6) hd' kid' c(5,6) by (simp add: kid_inv_def)
  have kv': "\<forall>ix \<in> set ?is. kid_inv X sb Z (et_node T') i' ix"
    by (subst sp) (use kr(3) kvp in auto)
  have t: "tree_inv X sb Z (et_node T') i eh" using inv kids' kv' i by (simp add: tree_inv_Suc)
  have f: "flat (et_node T') i eh = flat ?N i eh" using kids_concat [OF kids'] i by simp
  have b: "tree_blocks (et_node T') i eh = concat (map (kid_blocks (et_node T') i') (take ?pos ?is @ ?is ! ?pos # drop (Suc ?pos) ?is))"
    unfolding i tree_blocks_Suc by (subst sp) (rule refl)
  have lb: "l \<noteq> Some ?p" "l \<notin> Some ` set (tree_blocks ?N i' c)" "l \<notin> Some ` set bs"
    using Suc.prems(1) unfolding apart_def i tree_blocks_split [of ?pos eh ?N c i', OF pos c(1)] by auto
  then have nl: "et_node T' l = Some eh" using g(1) Suc.prems(1) by (simp add: apart_def)
  have fr2: "\<forall>m. m \<noteq> l \<and> m \<notin> Some ` set (tree_blocks ?N i eh) \<and> m \<notin> Some ` set bs \<longrightarrow> et_node T' m = ?N m"
    using g(1) unfolding i tree_blocks_split [of ?pos eh ?N c i', OF pos c(1)] by auto
  have gr: "subtree_grown X sb Z ?N i eh l bs (et_node T') eh" unfolding subtree_grown_def b
    using fr2 nl f t kr(5,6) i by (intro conjI) simp_all
  have "seek (et_node T') i eh l b = ((l, ?pos) # fst (seek (et_node T') i' c' (Some ?p) b), snd (seek (et_node T') i' c' (Some ?p) b))"
    using g(2) i by (simp add: Let_def kid_at_def split: prod.splits)
  then have path: "split_path E X sb lf k lvls leaf (Suc at) bs (et_node T') (seek (et_node T') i eh l b)"
    using IH(5) ls(2) by (auto simp: split_path_def split: if_splits)
  have run: "split_core A X sb d a0 border (drop (Suc at) lvls) leaf k bs T = (0, T')" using IH(1) ls(2) by simp
  show ?case by (intro exI conjI) (rule run, rule gr, rule IH(3), rule IH(4), rule path)
qed

end
