(* ===== verification/Ext4_Extinsert.thy ===== *)
theory Ext4_Extinsert
  imports Ext4_Extsplit
begin

unbundle bit_operations_syntax

text \<open>
  The rest of an insertion: \<open>ext4_ext_correct_indexes\<close>, \<open>ext4_ext_try_to_merge_up\<close> and \<open>ext4_ext_insert_extent\<close> on the whole tree, with
  \<open>ext4_ext_tree_init\<close>. An insertion succeeds and maps what it should, whichever way it takes; a file built by insertions is found by
  \<open>ext4_find_extent\<close> block by block; a split that fails half-way loses extents.
\<close>

section \<open>Changing a leaf and the keys above it\<close>

text \<open>\<open>ext4_ext_correct_indexes\<close>: \<open>k\<close> is the position of the path in the leaf. The levels are walked from the lowest.\<close>

definition set_key :: "nat \<Rightarrow> u32 \<Rightarrow> ext_node \<Rightarrow> ext_node" where
  "set_key pos border eh = eh\<lparr>eh_idxs := (eh_idxs eh)[pos := (eh_idxs eh ! pos)\<lparr>ei_block := border\<rparr>]\<rparr>"

fun correct_up :: "(xcall \<Rightarrow> int) \<Rightarrow> nat \<Rightarrow> u32 \<Rightarrow> level list \<Rightarrow> nat \<Rightarrow> etree \<Rightarrow> int \<times> etree" where
  "correct_up A d border [] k T = (0, T)"
| "correct_up A d border ((l, pos) # lvls) k T =
     (let err = ext4_ext_get_access A d l k
      in if err \<noteq> 0 then (err, T)
         else (let T = et_put l (set_key pos border (et_get T l)) T; err = ext4_ext_dirty A d l k
               in if err \<noteq> 0 then (err, T) else if pos \<noteq> 0 then (0, T) else correct_up A d border lvls (k - 1) T))"

definition ext4_ext_correct_indexes :: "(xcall \<Rightarrow> int) \<Rightarrow> level list \<Rightarrow> u64 option \<Rightarrow> nat option \<Rightarrow> etree \<Rightarrow> int \<times> etree" where
  "ext4_ext_correct_indexes A lvls leaf near T =
     (let depth = length lvls
      in case near of
           None \<Rightarrow> (- EUCLEAN, T)
         | Some k \<Rightarrow>
             if depth = 0 then (0, T)
             else if k \<noteq> 0 then (0, T)
             else correct_up A depth (ee_block (hd (eh_exts (et_get T leaf)))) (rev lvls) (depth - 1) T)"

text \<open>What it does to the nodes when nothing fails.\<close>

definition put_key :: "u64 option \<Rightarrow> nat \<Rightarrow> u32 \<Rightarrow> nodes \<Rightarrow> nodes" where
  "put_key l pos border N = N(l \<mapsto> set_key pos border (the (N l)))"

fun fix_up :: "u32 \<Rightarrow> level list \<Rightarrow> nodes \<Rightarrow> nodes" where
  "fix_up border [] N = N"
| "fix_up border ((l, pos) # lvls) N = (if pos \<noteq> 0 then put_key l pos border N else fix_up border lvls (put_key l pos border N))"

lemma correct_up_run:
  assumes "\<forall>c. A c = 0"
  shows "correct_up A d border lvls k T = (0, T\<lparr>et_node := fix_up border lvls (et_node T)\<rparr>)"
  using assms
proof (induction lvls arbitrary: k T)
  case (Cons x lvls)
  obtain l pos where x: "x = (l, pos)" by (cases x)
  have "et_put l (set_key pos border (et_get T l)) T = T\<lparr>et_node := put_key l pos border (et_node T)\<rparr>"
    by (simp add: et_put_def et_get_def put_key_def)
  moreover have "ext4_ext_get_access A d l k = 0" "ext4_ext_dirty A d l k = 0"
    using assms by (simp_all add: ext4_ext_get_access_def ext4_ext_dirty_def split: option.splits)
  ultimately show ?case using Cons.IH [OF assms] x by (simp add: Let_def)
qed simp

lemma fix_up_append:
  "fix_up border (xs @ ys) N = (if \<forall>x \<in> set xs. snd x = 0 then fix_up border ys (fix_up border xs N) else fix_up border xs N)"
  by (induction border xs N rule: fix_up.induct) auto

text \<open>The first extent of a list that maps the blocks of another and those of one more extent.\<close>

lemma same_map_ne:
  assumes "same_map X es' (n # es)" "ext_ok X n"
  shows "es' \<noteq> []"
proof
  assume "es' = []"
  then have "ext_lookup X (n # es) (ext_start n) = None" using assms(1) unfolding same_map_def by (metis ext_lookup.simps(1))
  moreover have "covers X n (ext_start n)" using assms(2) by (simp add: covers_def ext_ok_def ext_end_def ext_start_def)
  ultimately show False by simp
qed

lemma added_bounds:
  assumes "exts_ok X es" "fits_in X es n" "exts_ok X es'" "same_map X es' (n # es)" "e \<in> set es'"
  shows "(\<forall>f \<in> set (n # es). lo \<le> ext_start f) \<Longrightarrow> lo \<le> ext_start e" "(\<forall>f \<in> set (n # es). ext_end X f \<le> hi) \<Longrightarrow> ext_end X e \<le> hi"
proof -
  let ?fs = "list_insert (insert_point es n) n es"
  note f = fits_split(1,2) [OF assms(1,2)]
  have st: "set ?fs = set (n # es)"
    by (metis (no_types, lifting) Un_insert_right append_take_drop_id list.set(2) list_insert_def set_append)
  have sm: "same_map X es' ?fs" using assms(4) f(2) by (simp add: same_map_def)
  show "lo \<le> ext_start e" if "\<forall>f \<in> set (n # es). lo \<le> ext_start f" using same_map_bounds(1) [OF assms(3) f(1) sm assms(5)] that st by blast
  show "ext_end X e \<le> hi" if "\<forall>f \<in> set (n # es). ext_end X f \<le> hi" using same_map_bounds(2) [OF assms(3) f(1) sm assms(5)] that st by blast
qed

lemma added_first:
  assumes "exts_ok X es" "fits_in X es n" "exts_ok X es'" "same_map X es' (n # es)"
  shows "ext_start (hd es') = (if es = [] then ext_start n else min (ext_start n) (ext_start (hd es)))"
proof -
  let ?m = "if es = [] then ext_start n else min (ext_start n) (ext_start (hd es))"
  have n: "ext_ok X n" using assms(2) by (simp add: fits_in_def)
  have ne: "es' \<noteq> []" by (rule same_map_ne [OF assms(4) n])
  have lo: "?m \<le> ext_start f" if "f \<in> set (n # es)" for f
  proof (cases es)
    case Nil
    then show ?thesis using that by simp
  next
    case (Cons a as)
    then have "f = n \<or> ext_start a \<le> ext_start f"
      using that assms(1) exts_after [of X a as f] by (auto simp: ext_start_def word_le_nat_alt)
    then show ?thesis using Cons by auto
  qed
  have "?m \<le> ext_start (hd es')" by (rule added_bounds(1) [OF assms]) (use ne lo in auto)
  moreover have "ext_start (hd es') \<le> ?m"
  proof -
    have "\<exists>f \<in> set (n # es). ext_start f = ?m" by (cases es) (auto simp: min_def)
    then obtain f where f: "f \<in> set (n # es)" "ext_start f = ?m" by blast
    have "ext_ok X f" using f(1) n assms(1) by (auto simp: exts_ok_def)
    then have "covers X f ?m" using f(2) [symmetric] by (simp add: covers_def ext_ok_def ext_end_def ext_start_def)
    then have "ext_lookup X (n # es) ?m \<noteq> None" using f(1) unfolding ext_lookup_None by blast
    then have "ext_lookup X es' ?m \<noteq> None" using assms(4) unfolding same_map_def by metis
    then obtain e where e: "e \<in> set es'" "covers X e ?m" unfolding ext_lookup_None by blast
    have "ext_start (hd es') \<le> ext_start e" using exts_after [of X "hd es'" "tl es'" e] assms(3) ne e(1)
      by (simp add: ext_start_def word_le_nat_alt)
    then show ?thesis using e(2) by (simp add: covers_def)
  qed
  ultimately show ?thesis by simp
qed

text \<open>When every position is the first, nothing is before the leaf; else something is.\<close>

lemma before_zero: "\<forall>x \<in> set lvls. snd x = 0 \<Longrightarrow> before N i eh lvls = []"
  by (induction N i eh lvls rule: before.induct) auto

definition path_after :: "level list \<Rightarrow> u64 option \<Rightarrow> u64 option" where
  "path_after ls leaf = (case ls of [] \<Rightarrow> leaf | x # xs \<Rightarrow> fst x)"

text \<open>Below a node of \<open>Z\<close> the path is all on the left.\<close>

fun zeros :: "u64 set \<Rightarrow> bool \<Rightarrow> level list \<Rightarrow> u64 option \<Rightarrow> bool" where
  "zeros Z p0 [] leaf = True"
| "zeros Z p0 (x # ls) leaf = ((path_after ls leaf \<in> Some ` Z \<longrightarrow> p0 \<and> (\<forall>y \<in> set ls. snd y = 0)) \<and> zeros Z p0 ls leaf)"

definition on_this :: "u64 set \<Rightarrow> nodes \<Rightarrow> nat \<Rightarrow> ext_node \<Rightarrow> level list \<Rightarrow> u64 option \<Rightarrow> bool" where
  "on_this Z N i eh lvls leaf \<longleftrightarrow> (\<forall>p \<in> Z. p \<in> set (tree_blocks N i eh) \<longrightarrow> Some p = leaf \<or> Some p \<in> fst ` set lvls)"

lemma on_path_after: "on_path N i c l ls leaf \<Longrightarrow> path_after ls leaf = l"
  by (cases i) (auto simp: path_after_def split: list.splits)

lemma on_this_kid:
  assumes "on_this Z N (Suc i) eh ((l, pos) # ls) leaf" "apart N (Suc i) eh l bs" "pos < length (eh_idxs eh)"
    "N (Some (ei_pblock (eh_idxs eh ! pos))) = Some c" "on_path N i c (Some (ei_pblock (eh_idxs eh ! pos))) ls leaf"
  shows "on_this Z N i c ls leaf" "Z \<inter> set (concat (map (kid_blocks N i) (take pos (eh_idxs eh) @ drop (Suc pos) (eh_idxs eh)))) = {}"
proof -
  let ?p = "ei_pblock (eh_idxs eh ! pos)"
  define A B where AB: "A = concat (map (kid_blocks N i) (take pos (eh_idxs eh)))" "B = concat (map (kid_blocks N i) (drop (Suc pos) (eh_idxs eh)))"
  have bl: "tree_blocks N (Suc i) eh = A @ (?p # tree_blocks N i c) @ B"
    using tree_blocks_split [of pos eh N c i, OF assms(3,4)] by (simp add: AB)
  have d: "distinct (A @ (?p # tree_blocks N i c) @ B)" "l \<notin> Some ` set (A @ (?p # tree_blocks N i c) @ B)"
    using assms(2) unfolding apart_def bl by auto
  have ls: "leaf = Some ?p \<or> leaf \<in> Some ` set (tree_blocks N i c)" "x \<in> set ls \<Longrightarrow> fst x = Some ?p \<or> fst x \<in> Some ` set (tree_blocks N i c)" for x
    using on_path_in [OF assms(5)] by auto
  show "on_this Z N i c ls leaf" unfolding on_this_def
  proof (intro ballI impI)
    fix p assume p: "p \<in> Z" "p \<in> set (tree_blocks N i c)"
    then have "p \<in> set (tree_blocks N (Suc i) eh)" unfolding bl by simp
    then have "Some p = leaf \<or> Some p \<in> fst ` set ((l, pos) # ls)" using assms(1) p(1) unfolding on_this_def by blast
    then have "Some p = leaf \<or> Some p = l \<or> Some p \<in> fst ` set ls" by simp
    then show "Some p = leaf \<or> Some p \<in> fst ` set ls" using d(2) p(2) by auto
  qed
  have "p \<notin> set (A @ B)" if p: "p \<in> Z" for p
  proof
    assume m: "p \<in> set (A @ B)"
    then have "p \<in> set (tree_blocks N (Suc i) eh)" unfolding bl by auto
    then have "Some p = leaf \<or> Some p \<in> fst ` set ((l, pos) # ls)" using assms(1) p unfolding on_this_def by blast
    then have "Some p = leaf \<or> Some p = l \<or> Some p \<in> fst ` set ls" by simp
    moreover have "Some p \<noteq> l" using d(2) m by auto
    ultimately have "p = ?p \<or> p \<in> set (tree_blocks N i c)" using ls by fastforce
    then show False using d(1) m by auto
  qed
  then show "Z \<inter> set (concat (map (kid_blocks N i) (take pos (eh_idxs eh) @ drop (Suc pos) (eh_idxs eh)))) = {}"
    by (simp only: map_append concat_append AB [symmetric]) blast
qed

lemma before_nonempty:
  assumes "tree_inv X sb Z N i eh" "on_path N i eh l lvls leaf" "apart N i eh l []" "on_this Z N i eh lvls leaf" "\<exists>x \<in> set lvls. snd x \<noteq> 0"
  shows "before N i eh lvls \<noteq> []"
  using assms
proof (induction i arbitrary: eh l lvls)
  case (Suc i)
  from Suc.prems(2) obtain pos ls c where p: "lvls = (l, pos) # ls" "pos < length (eh_idxs eh)" "kid_at N eh pos = c"
    "N (Some (ei_pblock (eh_idxs eh ! pos))) = Some c" "on_path N i c (Some (ei_pblock (eh_idxs eh ! pos))) ls leaf"
    by (rule on_path_SucE)
  have oa: "on_this Z N (Suc i) eh ((l, pos) # ls) leaf" using Suc.prems(4) p(1) by simp
  note o = on_this_kid [OF oa Suc.prems(3) p(2,4,5)]
  show ?case
  proof (cases "pos = 0")
    case True
    from tree_inv_kid [OF Suc.prems(1) p(2)] p(3) have "tree_inv X sb Z N i c" by blast
    then have "before N i c ls \<noteq> []"
      using Suc.IH [OF _ p(5) apart_kid [OF Suc.prems(3) p(2,4), of "[]" "[]"] o(1)] Suc.prems(5) p(1) True by auto
    then show ?thesis using p(1,3) by simp
  next
    case False
    let ?ix = "eh_idxs eh ! 0"
    have ix: "?ix \<in> set (take pos (eh_idxs eh))" using False p(2) by (cases "eh_idxs eh"; cases pos) auto
    have "kid_inv X sb Z N i ?ix" using Suc.prems(1) ix by (auto simp: tree_inv_Suc dest: in_set_takeD)
    moreover have "ei_pblock ?ix \<in> set (kid_blocks N i ?ix)" by (simp add: kid_blocks_def)
    then have "ei_pblock ?ix \<notin> Z" using o(2) ix by auto
    ultimately have "kid N i ?ix \<noteq> []" by (auto simp: kid_inv_def)
    then show ?thesis using ix p(1) by auto
  qed
qed simp

text \<open>
  The leaf at the end of a path gets the list \<open>es'\<close>, which maps what it had and the new extent, and the keys above are corrected when \<open>p0\<close>
  says that the path points to the first extent.
\<close>

definition leaf_put :: "bool \<Rightarrow> ext_node \<Rightarrow> level list \<Rightarrow> u64 option \<Rightarrow> nodes \<Rightarrow> nodes" where
  "leaf_put p0 lf lvls leaf N = (if p0 then fix_up (ee_block (hd (eh_exts lf))) (rev lvls) (N(leaf \<mapsto> lf)) else N(leaf \<mapsto> lf))"

lemma leaf_put_Cons:
  "leaf_put p0 lf ((l, pos) # ls) leaf N =
     (let N1 = leaf_put p0 lf ls leaf N
      in if p0 \<and> (\<forall>x \<in> set ls. snd x = 0) then put_key l pos (ee_block (hd (eh_exts lf))) N1 else N1)"
  by (simp add: leaf_put_def fix_up_append Let_def)

definition leaf_new :: "ext_ops \<Rightarrow> ext4_extent \<Rightarrow> ext4_extent list \<Rightarrow> ext4_extent list \<Rightarrow> bool \<Rightarrow> bool" where
  "leaf_new X n es es' p0 \<longleftrightarrow> exts_ok X es' \<and> same_map X es' (n # es) \<and> (\<not> p0 \<longrightarrow> es \<noteq> [] \<and> ee_block (hd es) \<le> ee_block n)"

text \<open>What is known of the node at the top of the path afterwards.\<close>

definition leaf_done :: "ext_ops \<Rightarrow> super_block \<Rightarrow> nodes \<Rightarrow> nat \<Rightarrow> ext_node \<Rightarrow> u64 option \<Rightarrow> level list \<Rightarrow> ext_node \<Rightarrow> nodes \<Rightarrow> ext_node \<Rightarrow> bool" where
  "leaf_done X sb N i eh l lvls lf' N' eh' \<longleftrightarrow>
     (\<forall>m. m \<noteq> l \<and> m \<notin> Some ` set (tree_blocks N i eh) \<longrightarrow> N' m = N m) \<and> N' l = Some eh' \<and>
     flat N' i eh' = before N i eh lvls @ eh_exts lf' @ after N i eh lvls \<and> tree_inv X sb {} N' i eh' \<and> tree_blocks N' i eh' = tree_blocks N i eh \<and>
     (if i = 0 then eh' = lf' else eh' = eh\<lparr>eh_idxs := eh_idxs eh'\<rparr> \<and> length (eh_idxs eh') = length (eh_idxs eh))"

lemma key_after:
  assumes "tree_inv X sb Z N i c" "on_path N i c l ls leaf" "apart N i c l []" "on_this Z N i c ls leaf"
    and "N leaf = Some lf" "fits_in X (flat N i c) n" "leaf_new X n (eh_exts lf) es' p0"
    and "\<not> (p0 \<and> (\<forall>x \<in> set ls. snd x = 0))" "flat N i c \<noteq> []"
  shows "ee_block (hd (before N i c ls @ es' @ after N i c ls)) = ee_block (hd (flat N i c))"
proof -
  let ?es = "eh_exts lf"
  have fp: "flat N i c = before N i c ls @ ?es @ after N i c ls" using flat_path [OF assms(2)] assms(5) by simp
  show ?thesis
  proof (cases "before N i c ls = []")
    case False
    then show ?thesis unfolding fp by simp
  next
    case True
    then have "\<forall>x \<in> set ls. snd x = 0" using before_nonempty [OF assms(1-4)] by blast
    then have "\<not> p0" using assms(8) by blast
    then have e: "?es \<noteq> []" "ee_block (hd ?es) \<le> ee_block n" using assms(7) by (simp_all add: leaf_new_def)
    have ok: "exts_ok X ?es" using tree_inv_exts [OF assms(1)] unfolding fp by (simp add: exts_ok_append)
    have fi: "fits_in X ?es n" using assms(6) unfolding fp fits_in_def by simp
    have nw: "exts_ok X es'" "same_map X es' (n # ?es)" using assms(7) by (simp_all add: leaf_new_def)
    have "ext_ok X n" using fi by (simp add: fits_in_def)
    then have ne: "es' \<noteq> []" by (rule same_map_ne [OF nw(2)])
    have "ext_start (hd es') = ext_start (hd ?es)"
      using added_first [OF ok fi nw] e by (simp add: ext_start_def word_le_nat_alt min_def)
    then have "ee_block (hd es') = ee_block (hd ?es)" by (simp add: ext_start_def word_unat_eq_iff)
    then show ?thesis unfolding fp True using e(1) ne by simp
  qed
qed

lemma keyed_middle:
  assumes "keyed X (as @ (k, ys) # bs)" "exts_ok X ys'" "\<forall>e \<in> set ys'. unat k' \<le> ext_start e"
    and "\<forall>a \<in> set as. fst a < k' \<and> (\<forall>e \<in> set (snd a). ext_end X e \<le> unat k')"
    and "\<forall>b \<in> set bs. k' < fst b \<and> (\<forall>e \<in> set ys'. ext_end X e \<le> unat (fst b))"
  shows "keyed X (as @ (k', ys') # bs)"
  using assms by (simp add: keyed_append)

lemma leaf_step:
  assumes "apart N (Suc i) eh l []" "tree_inv X sb Z N (Suc i) eh" "on_this Z N (Suc i) eh ((l, pos) # ls) leaf"
    and "pos < length (eh_idxs eh)" "N (Some (ei_pblock (eh_idxs eh ! pos))) = Some c"
    and "on_path N i c (Some (ei_pblock (eh_idxs eh ! pos))) ls leaf" "N leaf = Some lf"
    and "fits_in X (flat N (Suc i) eh) n" "leaf_new X n (eh_exts lf) (eh_exts lf') p0"
    and "\<forall>e \<in> set (before N (Suc i) eh ((l, pos) # ls)). ext_end X e \<le> ext_start n"
    and "\<forall>e \<in> set (after N (Suc i) eh ((l, pos) # ls)). ext_end X n \<le> ext_start e"
    and "zeros Z p0 ((l, pos) # ls) leaf"
    and "leaf_done X sb N i c (Some (ei_pblock (eh_idxs eh ! pos))) ls lf' N1 c'" "head_ok X sb i c'"
  shows "\<exists>eh'. leaf_done X sb N (Suc i) eh l ((l, pos) # ls) lf'
    (if p0 \<and> (\<forall>x \<in> set ls. snd x = 0) then put_key l pos (ee_block (hd (eh_exts lf'))) N1 else N1) eh'"
proof -
  let ?is = "eh_idxs eh" and ?p = "ei_pblock (eh_idxs eh ! pos)" and ?es' = "eh_exts lf'"
  define al where al: "al \<longleftrightarrow> p0 \<and> (\<forall>x \<in> set ls. snd x = 0)"
  define N2 where N2: "N2 = (if al then put_key l pos (ee_block (hd ?es')) N1 else N1)"
  define jx where jx: "jx = (if al then (?is ! pos)\<lparr>ei_block := ee_block (hd ?es')\<rparr> else ?is ! pos)"
  define e2 where e2: "e2 = (if al then set_key pos (ee_block (hd ?es')) eh else eh)"
  have kc: "kid_at N eh pos = c" using assms(5) by (simp add: kid_at_def)
  define ys ys' where ys: "ys = flat N i c" "ys' = before N i c ls @ ?es' @ after N i c ls"
  have D: "\<forall>m. m \<noteq> Some ?p \<and> m \<notin> Some ` set (tree_blocks N i c) \<longrightarrow> N1 m = N m" "N1 (Some ?p) = Some c'" "flat N1 i c' = ys'"
    "tree_inv X sb {} N1 i c'" "tree_blocks N1 i c' = tree_blocks N i c" using assms(13) unfolding leaf_done_def ys by blast+
  note ok = on_this_kid [OF assms(3,1,4,5,6)]
  have bl: "tree_blocks N (Suc i) eh = concat (map (kid_blocks N i) (take pos ?is)) @ (?p # tree_blocks N i c) @ concat (map (kid_blocks N i) (drop (Suc pos) ?is))"
    by (rule tree_blocks_split [of pos eh N c i, OF assms(4,5)])
  have ln: "l \<noteq> Some ?p" "l \<notin> Some ` set (tree_blocks N i c)" "N l = Some eh" "distinct (tree_blocks N i c)"
    using assms(1) unfolding apart_def bl by auto
  have n1l: "N1 l = Some eh" using D(1) ln by simp
  have nl: "N2 l = Some e2" using n1l by (simp add: put_key_def N2 e2)
  have out: "N2 m = N1 m" if "m \<noteq> l" for m using that by (simp add: put_key_def N2)
  have fr: "\<forall>m. m \<noteq> l \<and> m \<noteq> Some ?p \<and> m \<notin> Some ` set (tree_blocks N i c) \<and> m \<notin> Some ` set [] \<longrightarrow> N2 m = N m"
    using out D(1) by simp
  have np: "N2 (Some ?p) = Some c'" using out [of "Some ?p"] ln(1) D(2) by simp
  have same: "flat N2 i c' = flat N1 i c' \<and> tree_blocks N2 i c' = tree_blocks N1 i c'"
    by (rule tree_cong) (use out ln(2) D(5) in \<open>metis image_eqI\<close>)
  have ti: "tree_inv X sb {} N2 i c'"
    by (rule tree_inv_cong [OF _ _ D(4)]) (use out ln(2) D(5) in \<open>metis image_eqI\<close>, simp)
  have dis: "distinct (tree_blocks N2 i c')" "set (tree_blocks N2 i c') \<subseteq> set (tree_blocks N i c) \<union> set []"
    using same D(5) ln(4) by simp_all
  have kv: "\<forall>ix \<in> set ?is. kid_inv X sb Z N i ix" using assms(2) by (simp add: tree_inv_Suc)
  have zz: "Z \<inter> set (concat (map (kid_blocks N i) (take pos ?is @ drop (Suc pos) ?is))) \<subseteq> {}" using ok(2) by simp
  have jp: "ei_pblock jx = ?p" by (simp add: jx)
  note kr = kid_replaced [OF assms(1) kv assms(4,5) fr np dis zz jp]
  have eis: "eh_idxs e2 = take pos ?is @ jx # drop (Suc pos) ?is"
    using idxs_split [OF assms(4)] by (auto simp: set_key_def upd_conv_take_nth_drop assms(4) e2 jx)
  have fl0: "flat N (Suc i) eh = concat (map (kid N i) (take pos ?is)) @ ys @ concat (map (kid N i) (drop (Suc pos) ?is))"
    using concat_kids_split [OF assms(4), of N i] kid_Some [of N "?is ! pos" c i] assms(5) by (simp add: ys)
  have tc: "tree_inv X sb Z N i c" using tree_inv_kid [OF assms(2,4)] kc by metis
  have fp: "ys = before N i c ls @ eh_exts lf @ after N i c ls" using flat_path [OF assms(6)] assms(7) by (simp add: ys)
  have fiy: "fits_in X ys n" using assms(8) unfolding fl0 fits_in_def by simp
  have fi: "fits_in X (eh_exts lf) n" using fiy unfolding fp fits_in_def by simp
  have oky: "exts_ok X ys" using tree_inv_exts [OF tc] by (simp add: ys)
  then have oke: "exts_ok X (eh_exts lf)" unfolding fp by (simp add: exts_ok_append)
  have nw: "exts_ok X ?es'" "same_map X ?es' (n # eh_exts lf)" using assms(9) by (simp_all add: leaf_new_def)
  have nok: "ext_ok X n" using fi by (simp add: fits_in_def)
  have ne: "?es' \<noteq> []" by (rule same_map_ne [OF nw(2) nok])
  have oky': "exts_ok X ys'" using tree_inv_exts [OF D(4)] D(3) by simp
  have ney: "ys' \<noteq> []" using ne by (simp add: ys)
  \<comment> \<open>the key of the child is that of its first extent\<close>
  have strict: "ys \<noteq> [] \<and> ee_block (hd ys) = ei_block (?is ! pos)" if "\<not> al"
  proof -
    have "Some ?p \<notin> Some ` Z" using assms(12) that on_path_after [OF assms(6)] by (auto simp: al)
    then have "?p \<notin> Z" by blast
    then show ?thesis using tree_inv_kid [OF assms(2,4)] assms(5) ys by (metis option.inject)
  qed
  have key: "ei_block jx = ee_block (hd ys')"
  proof (cases al)
    case True
    then have "before N i c ls = []" using before_zero unfolding al by blast
    then show ?thesis using True ne by (simp add: ys jx)
  next
    case False
    have "ee_block (hd ys') = ee_block (hd ys)"
      unfolding ys by (rule key_after [OF tc assms(6) apart_kid [OF assms(1,4,5), of "[]" "[]"] ok(1) assms(7) _ assms(9) False [unfolded al]])
        (use fiy strict [OF False] in \<open>simp_all add: ys\<close>)
    then show ?thesis using False strict [OF False] by (simp add: jx)
  qed
  have lower: "\<forall>e \<in> set ys'. unat (ei_block jx) \<le> ext_start e"
  proof
    fix e assume "e \<in> set ys'"
    then have "ee_block (hd ys') \<le> ee_block e" using exts_after [of X "hd ys'" "tl ys'" e] oky' ney by simp
    then show "unat (ei_block jx) \<le> ext_start e" unfolding key by (simp add: ext_start_def word_le_nat_alt)
  qed
  have ky: "keyed X (kids N i (take pos ?is) @ (ei_block (?is ! pos), ys) # kids N i (drop (Suc pos) ?is))"
  proof -
    have "keyed X (kids N i (take pos ?is @ ?is ! pos # drop (Suc pos) ?is))"
      using assms(2) idxs_split [OF assms(4)] by (simp add: tree_inv_Suc)
    then show ?thesis using kid_Some [of N "?is ! pos" c i] assms(5) by (simp add: ys)
  qed
  have others: "kid N i ix \<noteq> [] \<and> ee_block (hd (kid N i ix)) = ei_block ix" if ix: "ix \<in> set (take pos ?is) \<union> set (drop (Suc pos) ?is)" for ix
  proof -
    have "ei_pblock ix \<in> set (kid_blocks N i ix)" by (simp add: kid_blocks_def)
    then have "ei_pblock ix \<notin> Z" using ok(2) ix by auto
    then show ?thesis using kv ix by (auto simp: kid_inv_def dest: in_set_takeD in_set_dropD)
  qed
  have prev: "\<forall>a \<in> set (kids N i (take pos ?is)). fst a < ei_block jx \<and> (\<forall>e \<in> set (snd a). ext_end X e \<le> unat (ei_block jx))"
  proof
    fix a assume "a \<in> set (kids N i (take pos ?is))"
    then obtain ix where ix: "ix \<in> set (take pos ?is)" "a = (ei_block ix, kid N i ix)" by auto
    have upper: "ext_end X e \<le> unat (ei_block jx)" if e: "e \<in> set (kid N i ix)" for e
    proof -
      have old: "ext_end X e \<le> unat (ei_block (?is ! pos))" using ky ix e by (fastforce simp: keyed_append)
      show ?thesis
      proof (cases al)
        case True
        have "e \<in> set (before N (Suc i) eh ((l, pos) # ls))" using e ix(1) kc by auto
        then have en: "ext_end X e \<le> ext_start n" using assms(10) by blast
        have "ext_end X e \<le> ext_start f" if f: "f \<in> set (eh_exts lf)" for f
        proof -
          have "f \<in> set ys" using f unfolding fp by simp
          then have "unat (ei_block (?is ! pos)) \<le> ext_start f" using ky by (simp add: keyed_append)
          then show ?thesis using old by simp
        qed
        then have "ext_end X e \<le> ext_start (hd ?es')" by (intro added_bounds(1) [OF oke fi nw]) (use ne en in auto)
        then show ?thesis using True by (simp add: ext_start_def jx)
      qed (use old in \<open>simp add: jx\<close>)
    qed
    let ?e = "hd (kid N i ix)"
    have e: "?e \<in> set (kid N i ix)" "ee_block ?e = ei_block ix" using others ix(1) by auto
    have "keyed X (kids N i (take pos ?is))" using ky by (simp add: keyed_append)
    from keyed_bounds [OF this, of a] ix have "exts_ok X (kid N i ix)" by simp
    then have "ext_start ?e < ext_end X ?e" using e(1) by (auto simp: exts_ok_def ext_ok_def ext_end_def ext_start_def)
    then have "unat (ei_block ix) < unat (ei_block jx)" using upper [OF e(1)] e(2) by (simp only: ext_start_def)
    then show "fst a < ei_block jx \<and> (\<forall>e \<in> set (snd a). ext_end X e \<le> unat (ei_block jx))"
      using upper by (simp only: ix(2) fst_conv snd_conv word_less_nat_alt) blast
  qed
  have post: "\<forall>b \<in> set (kids N i (drop (Suc pos) ?is)). ei_block jx < fst b \<and> (\<forall>e \<in> set ys'. ext_end X e \<le> unat (fst b))"
  proof
    fix b assume "b \<in> set (kids N i (drop (Suc pos) ?is))"
    then obtain ix where ix: "ix \<in> set (drop (Suc pos) ?is)" "b = (ei_block ix, kid N i ix)" by auto
    have old: "\<forall>e \<in> set ys. ext_end X e \<le> unat (ei_block ix)" using ky ix by (fastforce simp: keyed_append)
    have f: "hd (kid N i ix) \<in> set (kid N i ix)" "ee_block (hd (kid N i ix)) = ei_block ix" using others ix(1) by auto
    then have "hd (kid N i ix) \<in> set (after N (Suc i) eh ((l, pos) # ls))" using ix(1) by auto
    then have nn: "ext_end X n \<le> unat (ei_block ix)" using assms(11) f(2) by (fastforce simp: ext_start_def)
    have up: "ext_end X e \<le> unat (ei_block ix)" if "e \<in> set ys'" for e
    proof (cases "e \<in> set ?es'")
      case True
      then show ?thesis by (rule added_bounds(2) [OF oke fi nw]) (use nn old fp in auto)
    qed (use that old fp ys in auto)
    have h: "hd ys' \<in> set ys'" using ney by simp
    then have "ext_start (hd ys') < ext_end X (hd ys')" using oky' by (auto simp: exts_ok_def ext_ok_def ext_end_def ext_start_def)
    then have "unat (ei_block jx) < unat (ei_block ix)" using up [OF h] unfolding key by (simp add: ext_start_def)
    then show "ei_block jx < fst b \<and> (\<forall>e \<in> set ys'. ext_end X e \<le> unat (fst b))"
      using up by (simp only: ix(2) fst_conv snd_conv word_less_nat_alt) blast
  qed
  have kj: "kid N2 i jx = ys'" using kr(4) same D(3) by simp
  have kx: "keyed X (kids N2 i (eh_idxs e2))"
    unfolding eis kids_simps kr(1,2) kj by (rule keyed_middle [OF ky oky' lower prev post])
  have kvj: "kid_inv X sb {} N2 i jx" unfolding kid_inv_def jp kj using np ti assms(14) ney key by simp
  have kv': "\<forall>ix \<in> set (eh_idxs e2). kid_inv X sb {} N2 i ix"
    unfolding eis using kr(3) kvj by (metis Un_iff list.set_intros set_ConsD set_append)
  have xs: "eh_exts e2 = []" "eh_idxs e2 \<noteq> []" using assms(2) eis by (auto simp: tree_inv_Suc set_key_def e2)
  have T: "tree_inv X sb {} N2 (Suc i) e2" unfolding tree_inv_Suc using xs kx kv' by blast
  have F: "flat N2 (Suc i) e2 = before N (Suc i) eh ((l, pos) # ls) @ ?es' @ after N (Suc i) eh ((l, pos) # ls)"
    unfolding flat_Suc eis map_append list.map concat_append concat.simps kids_concat [OF kr(1)] kids_concat [OF kr(2)] kj
    by (simp add: ys kc)
  have kbj: "kid_blocks N2 i jx = kid_blocks N i (?is ! pos)" unfolding kid_blocks_def jp np assms(5) using same D(5) by simp
  have B: "tree_blocks N2 (Suc i) e2 = tree_blocks N (Suc i) eh"
  proof -
    have "map (kid_blocks N i) ?is = map (kid_blocks N i) (take pos ?is @ ?is ! pos # drop (Suc pos) ?is)" using idxs_split [OF assms(4)] by simp
    then show ?thesis unfolding tree_blocks_Suc eis map_append list.map kr(7,8) kbj by simp
  qed
  have FR: "\<forall>m. m \<noteq> l \<and> m \<notin> Some ` set (tree_blocks N (Suc i) eh) \<longrightarrow> N2 m = N m" using fr unfolding bl by auto
  have H: "e2 = eh\<lparr>eh_idxs := eh_idxs e2\<rparr> \<and> length (eh_idxs e2) = length ?is" by (simp add: set_key_def e2)
  have "leaf_done X sb N (Suc i) eh l ((l, pos) # ls) lf' N2 e2" unfolding leaf_done_def using FR nl F T B H by simp
  then show ?thesis unfolding N2 al by blast
qed

lemma leaf_puts:
  assumes "N leaf = Some lf" "leaf_new X n (eh_exts lf) (eh_exts lf') p0" "eh_idxs lf' = []"
  shows "apart N i eh l [] \<Longrightarrow> tree_inv X sb Z N i eh \<Longrightarrow> on_path N i eh l lvls leaf \<Longrightarrow> on_this Z N i eh lvls leaf \<Longrightarrow>
    fits_in X (flat N i eh) n \<Longrightarrow> \<forall>e \<in> set (before N i eh lvls). ext_end X e \<le> ext_start n \<Longrightarrow>
    \<forall>e \<in> set (after N i eh lvls). ext_end X n \<le> ext_start e \<Longrightarrow> zeros Z p0 lvls leaf \<Longrightarrow> (0 < i \<Longrightarrow> head_ok X sb 0 lf') \<Longrightarrow>
    \<exists>eh'. leaf_done X sb N i eh l lvls lf' (leaf_put p0 lf' lvls leaf N) eh'"
proof (induction i arbitrary: eh l lvls)
  case 0
  then have "lvls = []" "leaf = l" by simp_all
  then show ?case using assms(2,3)
    by (intro exI [of _ lf']) (auto simp: leaf_done_def leaf_put_def leaf_new_def)
next
  case (Suc i)
  from Suc.prems(3) obtain pos ls c where p: "lvls = (l, pos) # ls" "pos < length (eh_idxs eh)" "kid_at N eh pos = c"
    "N (Some (ei_pblock (eh_idxs eh ! pos))) = Some c" "on_path N i c (Some (ei_pblock (eh_idxs eh ! pos))) ls leaf"
    by (rule on_path_SucE)
  let ?p = "ei_pblock (eh_idxs eh ! pos)"
  have ot: "on_this Z N (Suc i) eh ((l, pos) # ls) leaf" using Suc.prems(4) p(1) by simp
  from tree_inv_kid [OF Suc.prems(2) p(2)] p(3) have c: "head_ok X sb i c" "tree_inv X sb Z N i c" "kid N i (eh_idxs eh ! pos) = flat N i c" by metis+
  have ap: "apart N i c (Some ?p) []" by (rule apart_kid [OF Suc.prems(1) p(2,4), of _ "[]"]) simp
  have sub: "set (flat N i c) \<subseteq> set (flat N (Suc i) eh)" using concat_kids_split [OF p(2), of N i] c(3) by auto
  have fi: "fits_in X (flat N i c) n" using Suc.prems(5) sub unfolding fits_in_def by blast
  have ba: "\<forall>e \<in> set (before N i c ls). ext_end X e \<le> ext_start n" "\<forall>e \<in> set (after N i c ls). ext_end X n \<le> ext_start e" "zeros Z p0 ls leaf"
    using Suc.prems(6-8) p(1,3) by auto
  have h0: "head_ok X sb 0 lf'" using Suc.prems(9) by simp
  from Suc.IH [OF ap c(2) p(5) on_this_kid(1) [OF ot Suc.prems(1) p(2,4,5)] fi ba h0]
  obtain c' where D: "leaf_done X sb N i c (Some ?p) ls lf' (leaf_put p0 lf' ls leaf N) c'" by blast
  have hc: "head_ok X sb i c'"
  proof (cases i)
    case 0
    then show ?thesis using D h0 by (simp add: leaf_done_def)
  next
    case (Suc j)
    then have e: "c' = c\<lparr>eh_idxs := eh_idxs c'\<rparr>" "length (eh_idxs c') = length (eh_idxs c)" using D by (simp_all add: leaf_done_def)
    have "eh_magic c' = eh_magic c" "eh_depth c' = eh_depth c" "eh_max c' = eh_max c" "eh_exts c' = eh_exts c" by (subst e(1), simp)+
    then show ?thesis using c(1) e(2) by (auto simp: head_ok_def eh_entries_def split: if_splits)
  qed
  from leaf_step [OF Suc.prems(1,2) ot p(2,4,5) assms(1) Suc.prems(5) assms(2) Suc.prems(6-8) [unfolded p(1)] D hc]
  show ?case unfolding p(1) leaf_put_Cons Let_def .
qed

section \<open>The whole insertion\<close>

text \<open>\<open>ext4_ext_try_to_merge_up\<close>: a tree of one leaf that fits into the inode is moved there; the answer is the new leaf and path.\<close>

definition ext4_ext_try_to_merge_up :: "(xcall \<Rightarrow> int) \<Rightarrow> ext_ops \<Rightarrow> level list \<Rightarrow> u64 option \<Rightarrow> etree \<Rightarrow> level list \<times> u64 option \<times> etree" where
  "ext4_ext_try_to_merge_up A X lvls leaf T =
     (let max_root = ext4_ext_space_root X; root = et_root T; lf = et_get T leaf
      in if length lvls \<noteq> 1 \<or> eh_entries root \<noteq> 1 \<or> eh_entries lf > max_root then (lvls, leaf, T)
         else if A X_extend \<noteq> 0 then (lvls, leaf, T)
         else (let blk = ei_pblock (eh_idxs root ! snd (hd lvls))
               in ([], None, T\<lparr>et_node := (et_node T)(None \<mapsto> lf\<lparr>eh_max := of_nat max_root\<rparr>, Some blk := None), et_freed := et_freed T @ [blk]\<rparr>)))"

text \<open>The end of \<open>ext4_ext_insert_extent\<close> from the label \<open>merge\<close>: \<open>near\<close> is \<open>p_ext\<close> of the path, \<open>nearex\<close> the extent that was changed.\<close>

definition insert_finish ::
    "(xcall \<Rightarrow> int) \<Rightarrow> ext_ops \<Rightarrow> bool \<Rightarrow> level list \<Rightarrow> u64 option \<Rightarrow> nat option \<Rightarrow> nat \<Rightarrow> etree \<Rightarrow> int \<times> etree" where
  "insert_finish A X pre_io lvls leaf near nearex T =
     (let lf = et_get T leaf
      in case (if pre_io then (lvls, leaf, T)
               else ext4_ext_try_to_merge_up A X lvls leaf
                      (et_put leaf (lf\<lparr>eh_exts := ext4_ext_try_to_merge X (eh_exts lf) nearex\<rparr>) T)) of
           (lvls, leaf, T) \<Rightarrow>
             (case ext4_ext_correct_indexes A lvls leaf near T of
                (err, T) \<Rightarrow> if err \<noteq> 0 then (err, T) else (ext4_ext_dirty A (length lvls) leaf (length lvls), T)))"

text \<open>From the label \<open>has_space\<close>; \<open>None\<close> is the failed assertion that the block of the new extent is not taken.\<close>

definition insert_place ::
    "(xcall \<Rightarrow> int) \<Rightarrow> ext_ops \<Rightarrow> bool \<Rightarrow> ext4_ext_path list \<Rightarrow> ext4_extent \<Rightarrow> etree \<Rightarrow> (int \<times> etree) option" where
  "insert_place A X pre_io path newext T =
     (let lvls = path_levels None path; leaf = path_leaf None path; lf = et_get T leaf;
          err = ext4_ext_get_access A (length lvls) leaf (length lvls)
      in if err \<noteq> 0 then Some (err, T)
         else (case leaf_place (eh_exts lf) (p_ext (last path)) newext of
                 None \<Rightarrow> None
               | Some (es, k) \<Rightarrow> Some (insert_finish A X pre_io lvls leaf (Some k) k (et_put leaf (lf\<lparr>eh_exts := es\<rparr>) T))))"

text \<open>\<open>ext4_ext_insert_extent\<close> on the whole tree.\<close>

definition ext_insert_extent ::
    "(xcall \<Rightarrow> int) \<Rightarrow> ext_ops \<Rightarrow> super_block \<Rightarrow> bool \<Rightarrow> ext4_ext_path list \<Rightarrow> ext4_extent \<Rightarrow> etree \<Rightarrow> (int \<times> etree) option" where
  "ext_insert_extent A X sb pre_io path newext T =
     (let lvls = path_levels None path; leaf = path_leaf None path; lf = et_get T leaf; near = p_ext (last path)
      in if ext4_ext_get_actual_len X newext = 0 then Some (- EUCLEAN, T)
         else (case (case near of Some k \<Rightarrow> if pre_io then None else leaf_join X (eh_exts lf) k newext | None \<Rightarrow> None) of
                 Some (es, k) \<Rightarrow>
                   (let err = ext4_ext_get_access A (length lvls) leaf (length lvls)
                    in if err \<noteq> 0 then Some (err, T)
                       else Some (insert_finish A X pre_io lvls leaf near k (et_put leaf (lf\<lparr>eh_exts := es\<rparr>) T)))
               | None \<Rightarrow>
                   if has_free lf then insert_place A X pre_io path newext T
                   else (let create = (case ext4_ext_create_new_leaf A X sb newext path T of
                                         None \<Rightarrow> None
                                       | Some (Inl err, T) \<Rightarrow> Some (err, T)
                                       | Some (Inr path, T) \<Rightarrow> insert_place A X pre_io path newext T);
                             nxt = (if ee_block newext > ee_block (last (eh_exts lf)) then ext4_ext_next_leaf_block X path else EXT_MAX_BLOCKS X)
                         in if nxt = EXT_MAX_BLOCKS X then create
                            else (case ext4_find_extent X (A (X_mem (ext_depth T)) = 0) (et_read (et_node T)) (et_root T) nxt of
                                    Inl err \<Rightarrow> Some (err, T)
                                  | Inr npath \<Rightarrow>
                                      if has_free (et_get T (path_leaf None npath)) then insert_place A X pre_io npath newext T
                                      else create))))"

text \<open>A tree at rest: the root with its header, and below it a tree whose nodes have blocks of their own.\<close>

definition ext_root_ok :: "ext_ops \<Rightarrow> ext_node \<Rightarrow> bool" where
  "ext_root_ok X root \<longleftrightarrow> eh_magic root = EXT4_EXT_MAGIC X \<and> eh_entries root \<le> unat (eh_max root) \<and> 0 < unat (eh_max root) \<and>
     (if eh_depth root = 0 then unat (eh_max root) \<le> ext4_ext_space_root X
      else 2 \<le> unat (eh_max root) \<and> unat (eh_max root) \<le> ext4_ext_space_root_idx X)"

definition file_exts :: "etree \<Rightarrow> ext4_extent list" where
  "file_exts T = flat (et_node T) (ext_depth T) (et_root T)"

definition file_blocks :: "etree \<Rightarrow> u64 list" where
  "file_blocks T = tree_blocks (et_node T) (ext_depth T) (et_root T)"

definition etree_inv :: "ext_ops \<Rightarrow> super_block \<Rightarrow> u64 set \<Rightarrow> etree \<Rightarrow> bool" where
  "etree_inv X sb Z T \<longleftrightarrow> et_node T None \<noteq> None \<and> tree_inv X sb Z (et_node T) (ext_depth T) (et_root T) \<and> distinct (file_blocks T) \<and> ext_root_ok X (et_root T)"

text \<open>The mapping of a list in the middle of which one extent was added.\<close>

lemma lookup_middle:
  assumes "same_map X es' (n # es)" "fits_in X (as @ es @ cs) n"
  shows "ext_lookup X (as @ es' @ cs) lb = (if covers X n lb then Some (image_of X n lb) else ext_lookup X (as @ es @ cs) lb)"
proof -
  have e: "ext_lookup X es' lb = (if covers X n lb then Some (image_of X n lb) else ext_lookup X es lb)"
    using assms(1) by (simp add: same_map_def)
  have "ext_lookup X as lb = None" if "covers X n lb"
    using fits_disjoint [OF assms(2)] that by (auto simp: ext_lookup_None)
  then show ?thesis by (auto simp: ext_lookup_append e split: option.splits)
qed

text \<open>What every way of inserting ends with.\<close>

definition inserted :: "ext_ops \<Rightarrow> super_block \<Rightarrow> ext4_extent \<Rightarrow> etree \<Rightarrow> etree \<Rightarrow> bool" where
  "inserted X sb n T T' \<longleftrightarrow> etree_inv X sb {} T' \<and> set (file_blocks T') \<subseteq> set (file_blocks T) \<and>
     (\<forall>lb. ext_lookup X (file_exts T') lb = (if covers X n lb then Some (image_of X n lb) else ext_lookup X (file_exts T) lb))"

lemma correct_indexes_run:
  assumes "\<forall>c. A c = 0" "et_node T leaf = Some lf"
  shows "ext4_ext_correct_indexes A lvls leaf (Some k) T =
    (0, T\<lparr>et_node := leaf_put (k = 0) lf lvls leaf (et_node T)\<rparr>)"
proof -
  have u: "(et_node T)(leaf \<mapsto> lf) = et_node T" using assms(2) by (simp add: fun_upd_idem)
  show ?thesis using correct_up_run [OF assms(1)] et_get_node [OF assms(2)]
    by (auto simp: ext4_ext_correct_indexes_def leaf_put_def u Let_def)
qed

lemma leaf_put_again: "leaf_put p0 lf lvls leaf (N(leaf \<mapsto> x)) = leaf_put p0 lf lvls leaf N"
  by (simp add: leaf_put_def)

text \<open>
  A path to the leaf \<open>lf\<close> at which the extent \<open>n\<close> belongs: nothing before the leaf ends behind the start of \<open>n\<close> and nothing after it
  starts before its end. \<open>near\<close> is the position of the path in the leaf.
\<close>

definition leaf_change ::
    "(xcall \<Rightarrow> int) \<Rightarrow> ext_ops \<Rightarrow> super_block \<Rightarrow> u64 set \<Rightarrow> ext4_extent \<Rightarrow> etree \<Rightarrow> level list \<Rightarrow> u64 option \<Rightarrow> ext_node \<Rightarrow> nat \<Rightarrow> bool" where
  "leaf_change A X sb Z n T lvls leaf lf near \<longleftrightarrow>
     (\<forall>c. A c = 0) \<and> size_laws X sb \<and> etree_inv X sb Z T \<and>
     on_path (et_node T) (ext_depth T) (et_root T) None lvls leaf \<and> on_this Z (et_node T) (ext_depth T) (et_root T) lvls leaf \<and>
     et_node T leaf = Some lf \<and> fits_in X (file_exts T) n \<and>
     (\<forall>e \<in> set (before (et_node T) (ext_depth T) (et_root T) lvls). ext_end X e \<le> ext_start n) \<and>
     (\<forall>e \<in> set (after (et_node T) (ext_depth T) (et_root T) lvls). ext_end X n \<le> ext_start e) \<and> zeros Z (near = 0) lvls leaf"

lemma leaf_changeD:
  assumes "leaf_change A X sb Z n T lvls leaf lf near"
  shows "\<forall>c. A c = 0" "size_laws X sb" "etree_inv X sb Z T" "on_path (et_node T) (ext_depth T) (et_root T) None lvls leaf"
    "on_this Z (et_node T) (ext_depth T) (et_root T) lvls leaf" "et_node T leaf = Some lf" "fits_in X (file_exts T) n"
    "\<forall>e \<in> set (before (et_node T) (ext_depth T) (et_root T) lvls). ext_end X e \<le> ext_start n"
    "\<forall>e \<in> set (after (et_node T) (ext_depth T) (et_root T) lvls). ext_end X n \<le> ext_start e" "zeros Z (near = 0) lvls leaf"
  using assms unfolding leaf_change_def by blast+

lemma root_node: "etree_inv X sb Z T \<Longrightarrow> et_node T None = Some (et_root T)"
  by (auto simp: etree_inv_def et_get_def)

lemma root_apart: "etree_inv X sb Z T \<Longrightarrow> apart (et_node T) (ext_depth T) (et_root T) None []"
  using root_node [of X sb Z T] by (auto simp: apart_def etree_inv_def file_blocks_def)

lemma file_split:
  assumes "on_path (et_node T) (ext_depth T) (et_root T) None lvls leaf" "et_node T leaf = Some lf"
  shows "file_exts T = before (et_node T) (ext_depth T) (et_root T) lvls @ eh_exts lf @ after (et_node T) (ext_depth T) (et_root T) lvls"
  using flat_path [OF assms(1)] assms(2) by (simp add: file_exts_def)

lemma leaf_head:
  assumes "etree_inv X sb Z T" "on_path (et_node T) (ext_depth T) (et_root T) None lvls leaf" "et_node T leaf = Some lf"
  shows "0 < ext_depth T \<Longrightarrow> head_ok X sb 0 lf" "ext_depth T = 0 \<Longrightarrow> lf = et_root T \<and> leaf = None \<and> lvls = []" "eh_idxs lf = []" "eh_depth lf = 0"
proof -
  have g: "on_path N i eh l ls m \<Longrightarrow> tree_inv X sb Z N i eh \<Longrightarrow> N m = Some lf \<Longrightarrow>
      (0 < i \<longrightarrow> head_ok X sb 0 lf) \<and> eh_idxs lf = []" for N i eh l ls m
  proof (induction i arbitrary: eh l ls)
    case (Suc i)
    from Suc.prems(1) obtain pos ls' c where p: "pos < length (eh_idxs eh)" "kid_at N eh pos = c"
      "on_path N i c (Some (ei_pblock (eh_idxs eh ! pos))) ls' m" "N (Some (ei_pblock (eh_idxs eh ! pos))) = Some c"
      by (rule on_path_SucE)
    from tree_inv_kid [OF Suc.prems(2) p(1)] p(2) have c: "head_ok X sb i c" "tree_inv X sb Z N i c" by metis+
    show ?case
    proof (cases i)
      case 0
      then have "c = lf" using p(3,4) Suc.prems(3) by simp
      then show ?thesis using c 0 by simp
    qed (use Suc.IH [OF p(3) c(2) Suc.prems(3)] in simp)
  qed auto
  have t: "tree_inv X sb Z (et_node T) (ext_depth T) (et_root T)" using assms(1) by (simp add: etree_inv_def)
  from g [OF assms(2) t assms(3)] show h: "0 < ext_depth T \<Longrightarrow> head_ok X sb 0 lf" "eh_idxs lf = []" by auto
  show z: "ext_depth T = 0 \<Longrightarrow> lf = et_root T \<and> leaf = None \<and> lvls = []" using assms(2,3) root_node [OF assms(1)] by simp
  show "eh_depth lf = 0"
  proof (cases "ext_depth T = 0")
    case True
    then show ?thesis using z by (simp add: ext_depth_def unat_eq_zero)
  qed (use h(1) in \<open>simp add: head_ok_def unat_eq_zero\<close>)
qed

text \<open>The new leaf put in place, with the keys above it.\<close>

lemma put_ok:
  assumes "leaf_change A X sb Z n T lvls leaf lf near" "leaf_new X n (eh_exts lf) es' (near = 0)" "length es' \<le> unat (eh_max lf)"
  defines "T' \<equiv> T\<lparr>et_node := leaf_put (near = 0) (lf\<lparr>eh_exts := es'\<rparr>) lvls leaf (et_node T)\<rparr>"
  shows "inserted X sb n T T'"
proof -
  note L = leaf_changeD [OF assms(1)]
  let ?d = "ext_depth T" and ?root = "et_root T"
  let ?lf = "lf\<lparr>eh_exts := es'\<rparr>" and ?N = "et_node T"
  have h0: "head_ok X sb 0 ?lf" if "0 < ?d"
    using leaf_head(1) [OF L(3,4,6) that] assms(3) by (auto simp: head_ok_def eh_entries_def split: if_splits)
  from leaf_puts [of ?N leaf lf X n ?lf "near = 0" ?d ?root None sb Z lvls] L(6) assms(2) leaf_head(3) [OF L(3,4,6)] root_apart [OF L(3)] L(3) L(4) L(5) L(7) L(8) L(9) L(10) h0
  obtain eh' where D: "leaf_done X sb ?N ?d ?root None lvls ?lf (leaf_put (near = 0) ?lf lvls leaf ?N) eh'"
    by (auto simp: etree_inv_def file_exts_def)
  have r: "et_node T' None = Some eh'" "et_root T' = eh'" using D by (simp_all add: leaf_done_def T'_def et_get_def)
  have dd: "ext_depth T' = ?d" "ext_root_ok X eh'"
  proof -
    have "eh_depth eh' = eh_depth ?root \<and> ext_root_ok X eh'"
    proof (cases "?d = 0")
      case True
      then have "eh' = ?root\<lparr>eh_exts := es'\<rparr>" "eh_depth ?root = 0" using D leaf_head(2) [OF L(3,4,6)] by (simp_all add: leaf_done_def ext_depth_def unat_eq_zero)
      moreover have "length es' \<le> unat (eh_max ?root)" using assms(3) leaf_head(2) [OF L(3,4,6) True] by simp
      ultimately show ?thesis using L(3) by (auto simp: etree_inv_def ext_root_ok_def eh_entries_def)
    next
      case False
      then have e: "eh' = ?root\<lparr>eh_idxs := eh_idxs eh'\<rparr>" "length (eh_idxs eh') = length (eh_idxs ?root)" using D by (simp_all add: leaf_done_def)
      have f: "eh_magic eh' = eh_magic ?root" "eh_depth eh' = eh_depth ?root" "eh_max eh' = eh_max ?root" "eh_exts eh' = eh_exts ?root" by (subst e(1), simp)+
      then show ?thesis using L(3) e(2) by (simp add: etree_inv_def ext_root_ok_def eh_entries_def split: if_splits)
    qed
    then show "ext_depth T' = ?d" "ext_root_ok X eh'" using r by (simp_all add: ext_depth_def)
  qed
  have n: "et_node T' = leaf_put (near = 0) ?lf lvls leaf ?N" by (simp add: T'_def)
  have fe: "file_exts T' = before ?N ?d ?root lvls @ es' @ after ?N ?d ?root lvls" "file_blocks T' = file_blocks T" "tree_inv X sb {} (et_node T') ?d eh'"
    using D by (simp_all add: leaf_done_def file_exts_def file_blocks_def dd r n)
  have sm: "same_map X es' (n # eh_exts lf)" using assms(2) by (simp add: leaf_new_def)
  from lookup_middle [OF sm L(7) [unfolded file_split [OF L(4,6)]]]
  show ?thesis using fe r dd L(3) unfolding inserted_def fe(1) file_split [OF L(4,6)] by (simp add: etree_inv_def)
qed

text \<open>The single leaf of the tree put into the inode.\<close>

lemma split_up_ok:
  fixes b fr
  assumes "leaf_change A X sb Z n T lvls leaf lf near" "leaf_new X n (eh_exts lf) es' (near = 0)" "length lvls = 1" "eh_entries (et_root T) = 1" "length es' \<le> ext4_ext_space_root X"
  defines "T' \<equiv> T\<lparr>et_node := (et_node T)(None \<mapsto> lf\<lparr>eh_exts := es', eh_max := of_nat (ext4_ext_space_root X)\<rparr>, Some b := None), et_freed := fr\<rparr>"
  shows "inserted X sb n T T'"
proof -
  note L = leaf_changeD [OF assms(1)]
  let ?d = "ext_depth T" and ?root = "et_root T"
  have d1: "?d = 1" using on_path_length [OF L(4)] assms(3) by simp
  have r: "et_node T' None = Some (lf\<lparr>eh_exts := es', eh_max := of_nat (ext4_ext_space_root X)\<rparr>)" by (simp add: T'_def)
  then have g: "et_root T' = lf\<lparr>eh_exts := es', eh_max := of_nat (ext4_ext_space_root X)\<rparr>" by (rule et_get_node)
  have d0: "ext_depth T' = 0" using leaf_head(4) [OF L(3,4,6)] by (simp add: ext_depth_def g)
  have f: "file_exts T' = es'" "file_blocks T' = []" by (simp_all add: file_exts_def file_blocks_def d0 g)
  have nok: "ext_ok X n" using L(7) by (simp add: fits_in_def)
  have nw: "exts_ok X es'" "same_map X es' (n # eh_exts lf)" using assms(2) by (simp_all add: leaf_new_def)
  have ne: "0 < length es'" using same_map_ne [OF nw(2) nok] by simp
  have sr: "unat (of_nat (ext4_ext_space_root X) :: u16) = ext4_ext_space_root X"
    using L(2) by (intro unat_of_nat_u16) (simp add: size_laws_def)
  have sp: "0 < ext4_ext_space_root X" using ne assms(5) by linarith
  have ro: "ext_root_ok X (et_root T')"
    using leaf_head(1,4) [OF L(3,4,6)] d1 assms(5) sp by (simp add: ext_root_ok_def g sr eh_entries_def head_ok_def)
  obtain pos where p: "lvls = [(None, pos)]" "pos < length (eh_idxs ?root)"
    using L(4) d1 assms(3) by (auto simp: split: list.splits)
  have "eh_depth ?root \<noteq> 0" using d1 by (auto simp: ext_depth_def)
  then have "length (eh_idxs ?root) = 1" using assms(4) by (simp add: eh_entries_def)
  then have "before (et_node T) ?d ?root lvls = []" "after (et_node T) ?d ?root lvls = []" using p d1 by simp_all
  then have fs: "file_exts T = eh_exts lf" using file_split [OF L(4,6)] by simp
  have "ext_lookup X es' lb = (if covers X n lb then Some (image_of X n lb) else ext_lookup X (eh_exts lf) lb)" for lb
    using nw(2) by (simp add: same_map_def)
  then show ?thesis using ro r nw(1) leaf_head(3) [OF L(3,4,6)] by (simp add: inserted_def etree_inv_def f fs d0 g)
qed

lemma finish_ok:
  assumes "leaf_change A X sb Z n T lvls leaf lf near" "leaf_new X n (eh_exts lf) es' (near = 0)" "length es' \<le> unat (eh_max lf)"
    and "es' = (if pre_io then es1 else ext4_ext_try_to_merge X es1 nearex)"
  shows "\<exists>T'. insert_finish A X pre_io lvls leaf (Some near) nearex (et_put leaf (lf\<lparr>eh_exts := es1\<rparr>) T) = (0, T') \<and> inserted X sb n T T'"
proof -
  note L = leaf_changeD [OF assms(1)]
  let ?d = "ext_depth T" and ?root = "et_root T"
  let ?lf = "lf\<lparr>eh_exts := es'\<rparr>"
  let ?T = "et_put leaf ?lf T"
  have di: "ext4_ext_dirty A m l m' = 0" for m l m' using L(1) by (simp add: ext4_ext_dirty_def split: option.splits)
  have pp: "et_put leaf y (et_put leaf x T) = et_put leaf y T" for x y by (simp add: et_put_def)
  have gl: "et_get (et_put leaf x T) leaf = x" for x by (simp add: et_get_def)
  have lk: "et_node ?T leaf = Some ?lf" by simp
  have stay: "insert_finish A X pre_io lvls leaf (Some near) nearex (et_put leaf (lf\<lparr>eh_exts := es1\<rparr>) T) =
      (0, T\<lparr>et_node := leaf_put (near = 0) ?lf lvls leaf (et_node T)\<rparr>)"
    if "pre_io \<or> ext4_ext_try_to_merge_up A X lvls leaf ?T = (lvls, leaf, ?T)"
  proof -
    have "(if pre_io then (lvls, leaf, et_put leaf (lf\<lparr>eh_exts := es1\<rparr>) T)
        else ext4_ext_try_to_merge_up A X lvls leaf
          (et_put leaf ((lf\<lparr>eh_exts := es1\<rparr>)\<lparr>eh_exts := ext4_ext_try_to_merge X (eh_exts (lf\<lparr>eh_exts := es1\<rparr>)) nearex\<rparr>) (et_put leaf (lf\<lparr>eh_exts := es1\<rparr>) T))) =
        (lvls, leaf, ?T)"
      using that assms(4) by (auto simp: pp)
    then have "insert_finish A X pre_io lvls leaf (Some near) nearex (et_put leaf (lf\<lparr>eh_exts := es1\<rparr>) T) =
        (0, ?T\<lparr>et_node := leaf_put (near = 0) ?lf lvls leaf (et_node ?T)\<rparr>)"
      by (simp only: insert_finish_def Let_def gl prod.case correct_indexes_run [OF L(1) lk] di if_False simp_thms)
    also have "\<dots> = (0, T\<lparr>et_node := leaf_put (near = 0) ?lf lvls leaf (et_node T)\<rparr>)" by (simp add: leaf_put_again et_put_def)
    finally show ?thesis .
  qed
  show ?thesis
  proof (cases "pre_io \<or> ext4_ext_try_to_merge_up A X lvls leaf ?T = (lvls, leaf, ?T)")
    case True
    then show ?thesis using stay put_ok [OF assms(1,2,3)] by blast
  next
    case False
    let ?b = "ei_pblock (eh_idxs (et_root ?T) ! snd (hd lvls))"
    let ?new = "lf\<lparr>eh_exts := es', eh_max := of_nat (ext4_ext_space_root X)\<rparr>"
    let ?U = "?T\<lparr>et_node := (et_node ?T)(None \<mapsto> ?new, Some ?b := None), et_freed := et_freed ?T @ [?b]\<rparr>"
    have m: "length lvls = 1" "eh_entries (et_root ?T) = 1" "length es' \<le> ext4_ext_space_root X"
      "ext4_ext_try_to_merge_up A X lvls leaf ?T = ([], None, ?U)"
      using False L(1) leaf_head(4) [OF L(3,4,6)] gl by (auto simp: ext4_ext_try_to_merge_up_def Let_def eh_entries_def split: if_splits)
    have d1: "?d = 1" using on_path_length [OF L(4)] m(1) by simp
    obtain p where p: "leaf = Some p" using L(4) d1 by (auto split: list.splits)
    have rt: "et_root ?T = ?root" using p by (simp add: et_get_def)
    have Ue: "?U = T\<lparr>et_node := (et_node T)(None \<mapsto> ?new, Some ?b := None), et_freed := et_freed T @ [?b]\<rparr>"
    proof -
      have "?b = p"
      proof -
        obtain pos where "lvls = [(None, pos)]" "Some (ei_pblock (eh_idxs ?root ! pos)) = leaf"
          using L(4) d1 m(1) by (auto split: list.splits)
        then show ?thesis using rt p by simp
      qed
      then show ?thesis using p by (auto simp: et_put_def)
    qed
    have ur: "et_node ?U None = Some ?new" by simp
    have np: "\<not> pre_io" using False by blast
    have "insert_finish A X pre_io lvls leaf (Some near) nearex (et_put leaf (lf\<lparr>eh_exts := es1\<rparr>) T) =
        (0, ?U\<lparr>et_node := leaf_put (near = 0) ?new [] None (et_node ?U)\<rparr>)"
      using np assms(4) m(4) correct_indexes_run [OF L(1) ur, of "[]" near]
      by (simp add: insert_finish_def Let_def gl pp di del: fun_upd_apply)
    also have "\<dots> = (0, ?U)" using ur by (simp add: leaf_put_def fun_upd_idem del: fun_upd_apply)
    finally show ?thesis using split_up_ok [OF assms(1,2) m(1) m(2) [unfolded rt] m(3), of "et_freed T @ [?b]" ?b] Ue by auto
  qed
qed

text \<open>\<open>ext4_ext_split\<close> with enough blocks: the arguments of its steps.\<close>

lemma split_run:
  assumes "\<forall>c. A c = 0" "et_node T leaf = Some lf" "length (eh_exts lf) = unat (eh_max lf)" "k < length (eh_exts lf)"
    and "at < length lvls" "length lvls - at \<le> length (et_pool T)" "ee_block n = b"
    and "split_core A X sb (length lvls) at (split_border (eh_exts lf) k b) (drop at lvls) leaf k (rev (take (length lvls - at) (et_pool T)))
      (T\<lparr>et_pool := drop (length lvls - at) (et_pool T)\<rparr>) = (0, T')"
  shows "ext4_ext_split A X sb lvls leaf k n at T = (0, T')"
proof -
  let ?ab = "take (length lvls - at) (et_pool T)"
  have g: "et_get T leaf = lf" using assms(2) by (rule et_get_node)
  have bd: "(if Suc k \<noteq> unat (eh_max lf) then (if Suc k < length (eh_exts lf) then ee_block (eh_exts lf ! Suc k) else 0) else ee_block n) =
      split_border (eh_exts lf) k b"
    using assms(3,4,7) by (auto simp: split_border_def)
  have le: "length ?ab = length lvls - at" using assms(6) by simp
  obtain nb bs where ab: "rev ?ab = nb # bs" using le assms(5) by (cases "rev ?ab") auto
  have sk: "\<not> Suc k > unat (eh_max lf)" using assms(3,4) by simp
  have hd_at: "hd (drop at lvls) = lvls ! at" "tl (drop at lvls) = drop (Suc at) lvls"
    using assms(5) by (simp_all add: hd_drop_conv_nth tl_drop drop_Suc)
  show ?thesis using assms(8)
    unfolding ext4_ext_split_def Let_def g bd split_core_def halve_def ab hd_at
    using sk assms(1) le by (auto simp: ab split: prod.splits if_splits)
qed

lemma full_leaf:
  assumes "head_ok X sb 0 lf" "\<not> has_free lf"
  shows "length (eh_exts lf) = unat (eh_max lf)" "2 \<le> length (eh_exts lf)"
  using assms entries_leaf [OF assms(1)] by (auto simp: head_ok_def has_free_def)

lemma binsearch_some:
  assumes "exts_ok X (eh_exts lf)" "eh_exts lf \<noteq> []"
  obtains k where "ext4_ext_binsearch lf b = Some k" "k < length (eh_exts lf)" "k = flat_pos (eh_exts lf) b"
  using binsearch_pos [OF assms] flat_pos_less [OF assms(2)] by blast

text \<open>The blocks that will be handed out are new.\<close>

definition fresh_pool :: "etree \<Rightarrow> bool" where
  "fresh_pool T \<longleftrightarrow> distinct (et_pool T) \<and> 0 \<notin> set (et_pool T) \<and> set (et_pool T) \<inter> set (file_blocks T) = {}"

lemma leaf_exts_ok:
  assumes "etree_inv X sb Z T" "on_path (et_node T) (ext_depth T) (et_root T) None lvls leaf" "et_node T leaf = Some lf"
  shows "exts_ok X (eh_exts lf)" "set (eh_exts lf) \<subseteq> set (file_exts T)"
proof -
  have "exts_ok X (file_exts T)" using assms(1) tree_inv_exts by (auto simp: etree_inv_def file_exts_def)
  then show "exts_ok X (eh_exts lf)" "set (eh_exts lf) \<subseteq> set (file_exts T)" using file_split [OF assms(2,3)] by (auto simp: exts_ok_append)
qed

text \<open>Splitting keeps the extents of the file; when the new leaf is empty, the keys of the new blocks are still to be set.\<close>

lemma split_ok:
  assumes "\<forall>c. A c = 0" "size_laws X sb" "etree_inv X sb {} T" "fits_in X (file_exts T) n" "ee_block n = b"
    and "seek (et_node T) (ext_depth T) (et_root T) None b = (lvls, leaf)" "et_node T leaf = Some lf" "\<not> has_free lf"
    and "ext4_ext_binsearch lf b = Some k" "at < length lvls" "has_free (et_get T (fst (lvls ! at)))"
    and "\<forall>x \<in> set (drop (Suc at) lvls). \<not> has_free (et_get T (fst x))" "fresh_pool T" "length lvls - at \<le> length (et_pool T)"
  defines "E \<equiv> Suc k < length (eh_exts lf)"
  defines "bs \<equiv> rev (take (length lvls - at) (et_pool T))"
  shows "\<exists>T'. ext4_ext_split A X sb lvls leaf k n at T = (0, T') \<and> file_exts T' = file_exts T \<and>
    etree_inv X sb (if E then {} else set bs) T' \<and> set (file_blocks T') \<subseteq> set (file_blocks T) \<union> set bs \<and>
    ext_depth T' = ext_depth T \<and> et_freed T' = et_freed T \<and>
    split_path E X sb lf k lvls leaf at bs (et_node T') (seek (et_node T') (ext_depth T') (et_root T') None b)"
proof -
  let ?U = "T\<lparr>et_pool := drop (length lvls - at) (et_pool T)\<rparr>" and ?d = "ext_depth T"
  let ?Z = "if E then {} else set bs"
  have inv: "tree_inv X sb {} (et_node T) ?d (et_root T)" using assms(3) by (simp add: etree_inv_def)
  have op: "on_path (et_node T) ?d (et_root T) None lvls leaf" using seek_on_path [OF inv root_node [OF assms(3)] assms(6)] .
  have len: "length lvls = ?d" using on_path_length [OF op] .
  have hl: "head_ok X sb 0 lf" using leaf_head(1) [OF assms(3) op assms(7)] len assms(10) by simp
  note fl = full_leaf [OF hl assms(8)]
  have ex: "exts_ok X (eh_exts lf)" using leaf_exts_ok(1) [OF assms(3) op assms(7)] .
  have kl: "k < length (eh_exts lf)" using binsearch_some [OF ex, of b] fl(2) assms(9) by (metis list.size(3) not_numeral_le_zero option.inject)
  have g: "et_get (T\<lparr>et_pool := ps\<rparr>) l = et_get T l" for ps l by (simp add: et_get_def)
  have sb: "set bs \<subseteq> set (et_pool T)" unfolding bs_def by (auto dest: in_set_takeD)
  have db: "distinct bs" "0 \<notin> set bs" "set bs \<inter> set (file_blocks T) = {}" "length bs = ?d - at"
    using assms(13,14) sb len by (auto simp: fresh_pool_def bs_def distinct_take)
  have ap: "apart (et_node ?U) ?d (et_root T) None bs"
    using root_apart [OF assms(3)] db(1,3) by (auto simp: apart_def file_blocks_def)
  have d16: "?d < 65536" using unsigned_less [of "eh_depth (et_root T)"] by (simp add: ext_depth_def)
  have P: "\<exists>T' eh'. split_core A X sb ?d at (split_border (eh_exts lf) k b) (drop at lvls) leaf k bs ?U = (0, T') \<and>
      subtree_grown X sb ?Z (et_node ?U) ?d (et_root T) None bs (et_node T') eh' \<and> et_pool T' = et_pool ?U \<and> et_freed T' = et_freed ?U \<and>
      split_path E X sb lf k lvls leaf at bs (et_node T') (seek (et_node T') ?d eh' None b)"
    using assms(4,6,7,10-12) inv db len
    by (intro split_in [OF assms(1,2) d16 assms(5) refl assms(9,8), of E ?U ?d "et_root T" None bs at lvls leaf ?Z at, OF _ ap])
      (simp_all add: g E_def file_exts_def ext_depth_def)
  then obtain T' eh' where r: "split_core A X sb ?d at (split_border (eh_exts lf) k b) (drop at lvls) leaf k bs ?U = (0, T')"
    "subtree_grown X sb ?Z (et_node T) ?d (et_root T) None bs (et_node T') eh'" "et_freed T' = et_freed T"
    "split_path E X sb lf k lvls leaf at bs (et_node T') (seek (et_node T') ?d eh' None b)" by auto
  have run: "ext4_ext_split A X sb lvls leaf k n at T = (0, T')"
    by (rule split_run [OF assms(1,7) fl(1) kl assms(10,14,5)]) (use r(1) len in \<open>simp add: bs_def\<close>)
  note G = r(2) [unfolded subtree_grown_def]
  have rt: "et_root T' = eh'" "et_node T' None = Some eh'" using G by (simp_all add: et_get_def)
  have e: "eh' = (et_root T)\<lparr>eh_idxs := eh_idxs eh'\<rparr>" using G by blast
  have f: "eh_magic eh' = eh_magic (et_root T)" "eh_depth eh' = eh_depth (et_root T)" "eh_max eh' = eh_max (et_root T)" "eh_exts eh' = eh_exts (et_root T)" by (subst e, simp)+
  have d': "ext_depth T' = ?d" by (simp add: ext_depth_def rt f)
  have nz: "eh_depth (et_root T) \<noteq> 0" using len assms(10) by (auto simp: ext_depth_def)
  have "ext_root_ok X eh'" using assms(3) G nz by (auto simp: etree_inv_def ext_root_ok_def eh_entries_def f)
  then have "etree_inv X sb ?Z T'" using G rt d' by (simp add: etree_inv_def file_blocks_def)
  moreover have "file_exts T' = file_exts T" "set (file_blocks T') \<subseteq> set (file_blocks T) \<union> set bs"
    using G rt d' by (simp_all add: file_exts_def file_blocks_def)
  ultimately show ?thesis using run r(3,4) d' rt by (intro exI [of _ T']) simp
qed

text \<open>Growing by one level keeps the extents too, and leaves room in the root.\<close>

lemma file_ne:
  assumes "etree_inv X sb {} T" "0 < ext_depth T"
  shows "file_exts T \<noteq> []" "eh_idxs (et_root T) \<noteq> []" "eh_exts (et_root T) = []" "ei_block (hd (eh_idxs (et_root T))) = ee_block (hd (file_exts T))"
proof -
  obtain i where i: "ext_depth T = Suc i" using assms(2) by (cases "ext_depth T") auto
  have t: "tree_inv X sb {} (et_node T) (Suc i) (et_root T)" using assms(1) i by (simp add: etree_inv_def)
  then show ne: "eh_idxs (et_root T) \<noteq> []" "eh_exts (et_root T) = []" by (simp_all add: tree_inv_Suc)
  then obtain ix js where ix: "eh_idxs (et_root T) = ix # js" by (cases "eh_idxs (et_root T)") auto
  have "kid_inv X sb {} (et_node T) i ix" using t ix by (simp add: tree_inv_Suc)
  then have "kid (et_node T) i ix \<noteq> []" "ee_block (hd (kid (et_node T) i ix)) = ei_block ix" by (simp_all add: kid_inv_def)
  then show "file_exts T \<noteq> []" "ei_block (hd (eh_idxs (et_root T))) = ee_block (hd (file_exts T))"
    by (simp_all add: file_exts_def i ix)
qed

lemma grow_ok:
  assumes "\<forall>c. A c = 0" "size_laws X sb" "etree_inv X sb {} T" "file_exts T \<noteq> []" "fresh_pool T" "et_pool T = nb # ps"
    and "ext_depth T < EXT4_MAX_EXTENT_DEPTH X"
  shows "\<exists>T'. ext4_ext_grow_indepth A X sb T = (0, T') \<and> file_exts T' = file_exts T \<and> etree_inv X sb {} T' \<and>
    file_blocks T' = nb # file_blocks T \<and> ext_depth T' = Suc (ext_depth T) \<and> et_freed T' = et_freed T \<and> et_pool T' = ps \<and> has_free (et_root T')"
proof -
  let ?root = "et_root T" and ?d = "ext_depth T" and ?N = "et_node T"
  define neh where "neh = ?root\<lparr>eh_max := of_nat (if ?d \<noteq> 0 then ext4_ext_space_block_idx X sb else ext4_ext_space_block X sb), eh_magic := EXT4_EXT_MAGIC X\<rparr>"
  define border where "border = (if ?d = 0 then ee_block (hd (eh_exts ?root)) else ei_block (hd (eh_idxs ?root)))"
  define q where "q = \<lparr>ei_block = border, ei_pblock = nb\<rparr>"
  define root' where "root' = ?root\<lparr>eh_exts := [], eh_idxs := [q], eh_max := (if ?d = 0 then of_nat (ext4_ext_space_root_idx X) else eh_max ?root), eh_depth := eh_depth ?root + 1\<rparr>"
  define N' where "N' = ?N(Some nb \<mapsto> neh, None \<mapsto> root')"
  define T' where "T' = T\<lparr>et_pool := ps, et_node := N'\<rparr>"
  have run: "ext4_ext_grow_indepth A X sb T = (0, T')"
    using assms(1,6) by (simp add: ext4_ext_grow_indepth_def Let_def T'_def N'_def root'_def neh_def border_def q_def et_put_def)
  have inv: "tree_inv X sb {} ?N ?d ?root" "distinct (file_blocks T)" "ext_root_ok X ?root" using assms(3) by (simp_all add: etree_inv_def)
  have fr: "nb \<noteq> 0" "nb \<notin> set (file_blocks T)" using assms(5,6) by (auto simp: fresh_pool_def)
  have same: "N' (Some p) = ?N (Some p)" if "p \<in> set (tree_blocks ?N ?d ?root)" for p
    using that fr(2) by (auto simp: N'_def file_blocks_def)
  have ent: "eh_exts neh = eh_exts ?root" "eh_idxs neh = eh_idxs ?root" "eh_depth neh = eh_depth ?root" "eh_magic neh = EXT4_EXT_MAGIC X" by (simp_all add: neh_def)
  have sh: "flat M i neh = flat M i ?root" "tree_blocks M i neh = tree_blocks M i ?root" "tree_inv X sb {} M i neh = tree_inv X sb {} M i ?root" for M i
    by (cases i; simp add: ent tree_blocks_Suc tree_inv_Suc)+
  have k: "flat N' ?d neh = file_exts T" "tree_blocks N' ?d neh = file_blocks T" "tree_inv X sb {} N' ?d neh"
    using tree_cong [of ?N ?d ?root N', OF same] tree_inv_cong [of ?N ?d ?root N' "{}" "{}", OF same _ inv(1)] by (simp_all add: sh file_exts_def file_blocks_def)
  have d16: "Suc ?d < 65536" using assms(2,7) by (simp add: size_laws_def)
  have dep: "unat (eh_depth ?root + 1) = Suc ?d" using d16 by (simp add: ext_depth_def unat_word_ariths)
  have mx: "unat (eh_max neh) = node_space X sb ?d" using assms(2) by (simp add: neh_def node_space_def size_laws_def unat_of_nat_u16)
  have zd: "?d = 0 \<longleftrightarrow> eh_depth ?root = 0" by (simp add: ext_depth_def unat_eq_zero)
  have en: "eh_entries neh \<le> node_space X sb ?d"
    using inv(3) assms(2) zd by (auto simp: eh_entries_def ent ext_root_ok_def node_space_def size_laws_def split: if_splits)
  have hd: "head_ok X sb ?d neh" using mx en assms(2) by (auto simp: head_ok_def ent ext_depth_def size_laws_def node_space_def)
  have bd: "border = ee_block (hd (file_exts T))"
    using file_ne(4) [OF assms(3)] by (cases "?d = 0") (auto simp: border_def file_exts_def)
  have kq: "kid N' ?d q = file_exts T" "kid_blocks N' ?d q = nb # file_blocks T" using k by (simp_all add: kid_def kid_blocks_def q_def N'_def)
  have kv: "kid_inv X sb {} N' ?d q" using hd k(3) kq(1) assms(4) bd by (simp add: kid_inv_def q_def N'_def)
  have ex: "exts_ok X (file_exts T)" using tree_inv_exts [OF inv(1)] by (simp add: file_exts_def)
  have lo: "unat border \<le> ext_start e" if "e \<in> set (file_exts T)" for e
  proof -
    have "sorted_wrt (<) (map ee_block (file_exts T))" by (rule exts_ok_starts [OF ex])
    then have "border \<le> ee_block e" using that assms(4) bd by (cases "file_exts T") (auto simp: less_imp_le)
    then show ?thesis by (simp add: ext_start_def word_le_nat_alt)
  qed
  have ti: "tree_inv X sb {} N' (Suc ?d) root'" using kv ex lo by (simp add: tree_inv_Suc root'_def kq q_def) (simp add: kq [unfolded q_def])
  have rt: "et_root T' = root'" by (simp add: T'_def N'_def et_get_def)
  have d': "ext_depth T' = Suc ?d" unfolding ext_depth_def rt using dep by (simp add: root'_def ext_depth_def)
  have fb: "file_blocks T' = nb # file_blocks T" "file_exts T' = file_exts T"
    by (simp_all add: file_blocks_def file_exts_def d' rt tree_blocks_Suc root'_def) (simp_all add: T'_def kq file_blocks_def file_exts_def)
  have rmax: "2 \<le> unat (eh_max root') \<and> unat (eh_max root') \<le> ext4_ext_space_root_idx X"
    using inv(3) assms(2) zd by (auto simp: root'_def ext_root_ok_def size_laws_def unat_of_nat_u16)
  have nz: "eh_depth root' \<noteq> 0" using d' by (auto simp: ext_depth_def rt)
  have ro: "ext_root_ok X root'" using rmax inv(3) nz by (simp add: ext_root_ok_def eh_entries_def) (simp add: root'_def ext_root_ok_def)
  have "etree_inv X sb {} T'" using ti ro fb fr inv(2) unfolding etree_inv_def d' rt by (simp add: T'_def N'_def)
  moreover have "has_free root'" using rmax nz by (simp add: has_free_def eh_entries_def) (simp add: root'_def)
  ultimately show ?thesis using run fb d' rt by (intro exI [of _ T']) (simp add: T'_def)
qed

lemma free_level_above: "free_level T lvls m < j \<Longrightarrow> j < m \<Longrightarrow> \<not> has_free (et_get T (fst (lvls ! j)))"
  by (induction m) (auto simp: less_Suc_eq split: if_splits)

lemma free_level_less: "0 < m \<Longrightarrow> free_level T lvls m < m"
  by (induction m) (auto simp: less_Suc_eq)

lemma free_level_finds: "has_free (et_get T (fst (lvls ! 0))) \<Longrightarrow> has_free (et_get T (fst (lvls ! free_level T lvls m)))"
  by (induction m) auto

lemma free_level_drop:
  "lvls \<noteq> [] \<Longrightarrow> x \<in> set (drop (Suc (free_level T lvls (length lvls))) lvls) \<Longrightarrow> \<not> has_free (et_get T (fst x))"
  using free_level_above [of T lvls "length lvls"] by (auto simp: in_set_conv_nth)

text \<open>What \<open>ext4_find_extent\<close> returns in a tree.\<close>

lemma find_ok:
  assumes "\<forall>c. A c = 0" "etree_inv X sb Z T" "ext_depth T \<le> EXT4_MAX_EXTENT_DEPTH X"
    and "seek (et_node T) (ext_depth T) (et_root T) None b = (lvls, leaf)"
  obtains path lf where "ext4_find_extent X (A (X_mem (ext_depth T)) = 0) (et_read (et_node T)) (et_root T) b = Inr path" "path_levels None path = lvls"
    "path_leaf None path = leaf" "et_node T leaf = Some lf" "p_hdr (last path) = lf" "p_ext (last path) = ext4_ext_binsearch lf b"
    "Z = {} \<longrightarrow> next_index (rev (butlast path)) =
       (if after (et_node T) (ext_depth T) (et_root T) lvls = [] then None else Some (ee_block (hd (after (et_node T) (ext_depth T) (et_root T) lvls))))"
proof -
  have t: "tree_inv X sb Z (et_node T) (ext_depth T) (et_root T)" using assms(2) by (simp add: etree_inv_def)
  note op = seek_on_path [OF t root_node [OF assms(2)] assms(4)]
  from find_walk_seek [OF t root_node [OF assms(2)] assms(4)] obtain path where
    p: "find_walk (et_read (et_node T)) (ext_depth T) (et_root T) b = Inr path" "path_levels None path = lvls" "path_leaf None path = leaf"
      "last path = \<lparr>p_hdr = the (et_node T leaf), p_idx = 0, p_ext = ext4_ext_binsearch (the (et_node T leaf)) b\<rparr>"
      "Z = {} \<longrightarrow> next_index (rev (butlast path)) =
       (if after (et_node T) (ext_depth T) (et_root T) lvls = [] then None else Some (ee_block (hd (after (et_node T) (ext_depth T) (et_root T) lvls))))"
    by blast
  obtain lf where lf: "et_node T leaf = Some lf" using on_path_leaf [OF op] by auto
  have "ext4_find_extent X (A (X_mem (ext_depth T)) = 0) (et_read (et_node T)) (et_root T) b = Inr path"
    using assms(1,3) p(1) by (simp add: ext4_find_extent_def ext_depth_def Let_def)
  from that [OF this p(2,3) lf] show thesis using p(4,5) lf by simp
qed

lemma seek_change:
  assumes "\<forall>c. A c = 0" "size_laws X sb" "etree_inv X sb Z T" "fits_in X (file_exts T) n"
    and "seek (et_node T) (ext_depth T) (et_root T) None (ee_block n) = (lvls, leaf)" "et_node T leaf = Some lf"
    and "on_this Z (et_node T) (ext_depth T) (et_root T) lvls leaf" "zeros Z (near = 0) lvls leaf"
  shows "leaf_change A X sb Z n T lvls leaf lf near"
proof -
  have t: "tree_inv X sb Z (et_node T) (ext_depth T) (et_root T)" using assms(3) by (simp add: etree_inv_def)
  note op = seek_on_path [OF t root_node [OF assms(3)] assms(5)]
  note ba = before_after_order [OF t root_node [OF assms(3)] assms(5)]
  have ex: "exts_ok X (file_exts T)" using tree_inv_exts [OF t] by (simp add: file_exts_def)
  have "ext_end X n \<le> ext_start e" if e: "e \<in> set (after (et_node T) (ext_depth T) (et_root T) lvls)" for e
  proof -
    have m: "e \<in> set (file_exts T)" using file_split [OF op assms(6)] e by simp
    then have "ext_start e < ext_end X e" using ex by (auto simp: exts_ok_def ext_ok_def ext_end_def ext_start_def)
    moreover have "ext_start n < ext_start e" using ba e by (auto simp: ext_start_def)
    ultimately show ?thesis using assms(4) m by (auto simp: fits_in_def)
  qed
  then show ?thesis using assms op ba unfolding leaf_change_def by (auto simp: ext_start_def)
qed

text \<open>The path into a tree that was just split.\<close>

lemma zeros_empty [simp]: "zeros {} p lvls leaf"
  by (induction lvls) auto

lemma zeros_down: "zeros Z True (map (\<lambda>p. (Some p, 0)) ps) leaf"
  by (induction ps) auto

lemma zeros_above:
  assumes "\<forall>x \<in> set xs. fst x \<notin> Some ` Z" "l \<notin> Some ` Z"
  shows "zeros Z True (xs @ (l, pos) # map (\<lambda>p. (Some p, 0)) ps) leaf"
  using assms
proof (induction xs)
  case (Cons x xs)
  have "path_after (xs @ (l, pos) # map (\<lambda>p. (Some p, 0)) ps) leaf \<notin> Some ` Z"
    using Cons.prems by (cases xs) (auto simp: path_after_def)
  then show ?case using Cons by simp
qed (simp add: zeros_down)

lemma split_change:
  assumes "\<forall>c. A c = 0" "size_laws X sb" "etree_inv X sb {} T" "fits_in X (file_exts T) n"
    and "seek (et_node T) (ext_depth T) (et_root T) None (ee_block n) = (lvls, leaf)" "et_node T leaf = Some lf" "\<not> has_free lf"
    and "at < length lvls" "set bs \<inter> set (file_blocks T) = {}" "length bs = length lvls - at"
    and "etree_inv X sb (if E then {} else set bs) T'" "file_exts T' = file_exts T" "ext_depth T' = ext_depth T"
    and "split_path E X sb lf k lvls leaf at bs (et_node T') (seek (et_node T') (ext_depth T') (et_root T') None (ee_block n))"
    and "E \<longleftrightarrow> Suc k < length (eh_exts lf)"
    and "seek (et_node T') (ext_depth T') (et_root T') None (ee_block n) = (lvls', leaf')" "et_node T' leaf' = Some lf'"
    and "eh_exts lf' = [] \<longrightarrow> near = 0"
  shows "leaf_change A X sb (if E then {} else set bs) n T' lvls' leaf' lf' near" "has_free lf'"
proof -
  have t: "tree_inv X sb {} (et_node T) (ext_depth T) (et_root T)" using assms(3) by (simp add: etree_inv_def)
  note op = seek_on_path [OF t root_node [OF assms(3)] assms(5)]
  have hl: "head_ok X sb 0 lf" using leaf_head(1) [OF assms(3) op assms(6)] on_path_length [OF op] assms(8) by simp
  note fl = full_leaf [OF hl assms(7)]
  obtain p ps where bs: "bs = p # ps" using assms(8,10) by (cases bs) auto
  note sp = assms(14) [unfolded split_path_def assms(16)]
  have nb: "fst x \<notin> Some ` set bs" if "x \<in> set lvls" for x
    using on_path_in(2) [OF op that] assms(9) by (auto simp: file_blocks_def)
  have "on_this (if E then {} else set bs) (et_node T') (ext_depth T') (et_root T') lvls' leaf' \<and>
      zeros (if E then {} else set bs) (near = 0) lvls' leaf' \<and> has_free lf'"
  proof (cases E)
    case True
    then have "lf' = lf\<lparr>eh_exts := take (Suc k) (eh_exts lf)\<rparr>" using sp assms(17) by simp
    then have "has_free lf'" using fl(1) True assms(15) hl by (simp add: has_free_def eh_entries_def head_ok_def unat_eq_zero)
    then show ?thesis using True by (simp add: on_this_def)
  next
    case False
    then have l: "lvls' = take at lvls @ (fst (lvls ! at), Suc (snd (lvls ! at))) # map (\<lambda>p. (Some p, 0)) (rev ps)" "leaf' = Some p"
      "lf' = new_leaf X sb []" using sp bs assms(17) by auto
    then have near: "near = 0" using assms(18) by (simp add: new_leaf_def)
    have "has_free lf'" using l(3) assms(2) by (simp add: has_free_def new_leaf_def eh_entries_def size_laws_def unat_of_nat_u16)
    moreover have "zeros (set bs) True lvls' leaf'" unfolding l(1)
      by (rule zeros_above) (use nb assms(8) in \<open>auto dest: in_set_takeD\<close>)
    moreover have "on_this (set bs) (et_node T') (ext_depth T') (et_root T') lvls' leaf'"
      unfolding on_this_def l bs by (auto simp: image_Un image_image)
    ultimately show ?thesis using False near by simp
  qed
  then show "leaf_change A X sb (if E then {} else set bs) n T' lvls' leaf' lf' near" "has_free lf'"
    using seek_change [OF assms(1,2,11) _ assms(16,17)] assms(4,12) by auto
qed

text \<open>A path to the full leaf where an extent belongs, and a path to a leaf with room for it.\<close>

definition full_path :: "(xcall \<Rightarrow> int) \<Rightarrow> ext_ops \<Rightarrow> super_block \<Rightarrow> ext4_extent \<Rightarrow> etree \<Rightarrow> ext4_ext_path list \<Rightarrow> ext_node \<Rightarrow> bool" where
  "full_path A X sb n T path lf \<longleftrightarrow>
     (\<forall>c. A c = 0) \<and> size_laws X sb \<and> etree_inv X sb {} T \<and> fits_in X (file_exts T) n \<and> fresh_pool T \<and> ext_depth T \<le> EXT4_MAX_EXTENT_DEPTH X \<and>
     seek (et_node T) (ext_depth T) (et_root T) None (ee_block n) = (path_levels None path, path_leaf None path) \<and>
     et_node T (path_leaf None path) = Some lf \<and> \<not> has_free lf \<and> p_hdr (last path) = lf \<and> p_ext (last path) = ext4_ext_binsearch lf (ee_block n)"

definition ready_path :: "(xcall \<Rightarrow> int) \<Rightarrow> ext_ops \<Rightarrow> super_block \<Rightarrow> ext4_extent \<Rightarrow> etree \<Rightarrow> ext4_ext_path list \<Rightarrow> bool" where
  "ready_path A X sb n T path \<longleftrightarrow>
     (\<exists>Z lf. p_ext (last path) = ext4_ext_binsearch lf (ee_block n) \<and> has_free lf \<and>
        (\<forall>near. (eh_exts lf = [] \<longrightarrow> near = 0) \<longrightarrow> leaf_change A X sb Z n T (path_levels None path) (path_leaf None path) lf near))"

lemma full_pathD:
  assumes "full_path A X sb n T path lf"
  shows "\<forall>c. A c = 0" "size_laws X sb" "etree_inv X sb {} T" "fits_in X (file_exts T) n" "fresh_pool T" "ext_depth T \<le> EXT4_MAX_EXTENT_DEPTH X"
    "seek (et_node T) (ext_depth T) (et_root T) None (ee_block n) = (path_levels None path, path_leaf None path)"
    "et_node T (path_leaf None path) = Some lf" "\<not> has_free lf" "p_hdr (last path) = lf" "p_ext (last path) = ext4_ext_binsearch lf (ee_block n)"
  using assms unfolding full_path_def by blast+

lemma full_on_path:
  assumes "full_path A X sb n T path lf"
  shows "on_path (et_node T) (ext_depth T) (et_root T) None (path_levels None path) (path_leaf None path)" "eh_exts lf \<noteq> []" "exts_ok X (eh_exts lf)"
proof -
  note F = full_pathD [OF assms]
  have t: "tree_inv X sb {} (et_node T) (ext_depth T) (et_root T)" using F(3) by (simp add: etree_inv_def)
  show op: "on_path (et_node T) (ext_depth T) (et_root T) None (path_levels None path) (path_leaf None path)"
    using seek_on_path [OF t root_node [OF F(3)] F(7)] .
  show "exts_ok X (eh_exts lf)" by (rule leaf_exts_ok(1) [OF F(3) op F(8)])
  have "0 < unat (eh_max lf)"
  proof (cases "ext_depth T = 0")
    case True
    then show ?thesis using leaf_head(2) [OF F(3) op F(8)] F(3) by (auto simp: etree_inv_def ext_root_ok_def)
  qed (use leaf_head(1) [OF F(3) op F(8)] in \<open>auto simp: head_ok_def\<close>)
  then show "eh_exts lf \<noteq> []" using F(9) leaf_head(4) [OF F(3) op F(8)] by (auto simp: has_free_def eh_entries_def)
qed

text \<open>What creating a leaf has to give.\<close>

definition created :: "(xcall \<Rightarrow> int) \<Rightarrow> ext_ops \<Rightarrow> super_block \<Rightarrow> ext4_extent \<Rightarrow> etree \<Rightarrow> ((int + ext4_ext_path list) \<times> etree) option \<Rightarrow> bool" where
  "created A X sb n T r \<longleftrightarrow>
     (\<exists>path' T'. r = Some (Inr path', T') \<and> ready_path A X sb n T' path' \<and> file_exts T' = file_exts T \<and>
        set (file_blocks T') \<subseteq> set (file_blocks T) \<union> set (et_pool T))"

lemma create_split:
  assumes "full_path A X sb n T path lf"
  defines "lvls \<equiv> path_levels None path"
  defines "at \<equiv> free_level T lvls (length lvls)"
  assumes "lvls \<noteq> []" "has_free (et_get T (fst (lvls ! at)))" "ext_depth T \<le> length (et_pool T)"
  shows "created A X sb n T (ext4_ext_create_new_leaf A X sb n path T)"
proof -
  note F = full_pathD [OF assms(1)] and op = full_on_path [OF assms(1)]
  define leaf where "leaf = path_leaf None path"
  obtain k where k: "ext4_ext_binsearch lf (ee_block n) = Some k" using binsearch_some [OF op(3,2)] by blast
  have at: "at < length lvls" unfolding at_def using assms(4) by (intro free_level_less) simp
  have up: "\<forall>x \<in> set (drop (Suc at) lvls). \<not> has_free (et_get T (fst x))" unfolding at_def using free_level_drop [OF assms(4)] by blast
  have len: "length lvls = ext_depth T" using on_path_length [OF op(1)] by (simp add: lvls_def)
  have pl: "length lvls - at \<le> length (et_pool T)" using assms(6) len by simp
  define E where "E = (Suc k < length (eh_exts lf))"
  define bs where "bs = rev (take (length lvls - at) (et_pool T))"
  note sk = F(7) [folded lvls_def leaf_def] and nd = F(8) [folded leaf_def]
  from split_ok [OF F(1-4) refl sk nd F(9) k at assms(5) up F(5) pl, folded E_def bs_def]
  obtain T' where T': "ext4_ext_split A X sb lvls leaf k n at T = (0, T')" "file_exts T' = file_exts T"
    "etree_inv X sb (if E then {} else set bs) T'" "set (file_blocks T') \<subseteq> set (file_blocks T) \<union> set bs" "ext_depth T' = ext_depth T"
    "split_path E X sb lf k lvls leaf at bs (et_node T') (seek (et_node T') (ext_depth T') (et_root T') None (ee_block n))" by blast
  have pb: "set bs \<subseteq> set (et_pool T)" unfolding bs_def by (auto dest: in_set_takeD)
  have bs: "set bs \<inter> set (file_blocks T) = {}" "length bs = length lvls - at" using pb F(5) pl by (auto simp: fresh_pool_def bs_def)
  obtain lvls' leaf' where s': "seek (et_node T') (ext_depth T') (et_root T') None (ee_block n) = (lvls', leaf')" by fastforce
  have dm: "ext_depth T' \<le> EXT4_MAX_EXTENT_DEPTH X" using F(6) T'(5) by simp
  from find_ok [OF F(1) T'(3) dm s'] obtain path' lf' where
    p: "ext4_find_extent X (A (X_mem (ext_depth T')) = 0) (et_read (et_node T')) (et_root T') (ee_block n) = Inr path'" "path_levels None path' = lvls'"
    "path_leaf None path' = leaf'" "et_node T' leaf' = Some lf'" "p_ext (last path') = ext4_ext_binsearch lf' (ee_block n)" by metis
  note ch = split_change [OF F(1-4) sk nd F(9) at bs T'(3,2,5,6) E_def s' p(4)]
  have c: "ext4_ext_create_new_leaf A X sb n path T = Some (Inr path', T')"
    using assms(4,5) F(11) k T'(1) p(1)
    by (subst ext4_ext_create_new_leaf.simps) (simp add: Let_def lvls_def [symmetric] leaf_def [symmetric] at_def [symmetric])
  have "ready_path A X sb n T' path'" unfolding ready_path_def using p(2,3,5) ch by blast
  then show ?thesis using c T'(2,4) pb unfolding created_def by blast
qed

lemma create_ok:
  assumes "full_path A X sb n T path lf" "ext_depth T < EXT4_MAX_EXTENT_DEPTH X" "ext_depth T + 2 \<le> length (et_pool T)"
  shows "created A X sb n T (ext4_ext_create_new_leaf A X sb n path T)"
proof -
  note F = full_pathD [OF assms(1)] and op = full_on_path [OF assms(1)]
  define lvls where "lvls = path_levels None path"
  define at where "at = free_level T lvls (length lvls)"
  show ?thesis
  proof (cases "lvls \<noteq> [] \<and> has_free (et_get T (fst (lvls ! at)))")
    case True
    then show ?thesis using create_split [OF assms(1), folded lvls_def, folded at_def] assms(3) by simp
  next
    case False
    obtain nb ps where pool: "et_pool T = nb # ps" using assms(3) by (cases "et_pool T") auto
    have ne: "file_exts T \<noteq> []" using file_split [OF op(1) F(8)] op(2) by simp
    from grow_ok [OF F(1-3) ne F(5) pool assms(2)] obtain T1 where
      T1: "ext4_ext_grow_indepth A X sb T = (0, T1)" "file_exts T1 = file_exts T" "etree_inv X sb {} T1" "file_blocks T1 = nb # file_blocks T"
        "ext_depth T1 = Suc (ext_depth T)" "et_pool T1 = ps" "has_free (et_root T1)" by blast
    have dm: "ext_depth T1 \<le> EXT4_MAX_EXTENT_DEPTH X" using assms(2) T1(5) by simp
    obtain lvls1 leaf1 where s1: "seek (et_node T1) (ext_depth T1) (et_root T1) None (ee_block n) = (lvls1, leaf1)" by fastforce
    from find_ok [OF F(1) T1(3) dm s1] obtain path1 lf1 where
      p: "ext4_find_extent X (A (X_mem (ext_depth T1)) = 0) (et_read (et_node T1)) (et_root T1) (ee_block n) = Inr path1" "path_levels None path1 = lvls1"
      "path_leaf None path1 = leaf1" "et_node T1 leaf1 = Some lf1" "p_hdr (last path1) = lf1" "p_ext (last path1) = ext4_ext_binsearch lf1 (ee_block n)" by metis
    have fits: "fits_in X (file_exts T1) n" using F(4) T1(2) by simp
    have t1: "tree_inv X sb {} (et_node T1) (ext_depth T1) (et_root T1)" using T1(3) by (simp add: etree_inv_def)
    have op1: "on_path (et_node T1) (ext_depth T1) (et_root T1) None lvls1 leaf1" using seek_on_path [OF t1 root_node [OF T1(3)] s1] .
    have hl: "head_ok X sb 0 lf1" using leaf_head(1) [OF T1(3) op1 p(4)] T1(5) by simp
    have c: "ext4_ext_create_new_leaf A X sb n path T =
        (if eh_entries lf1 = unat (eh_max lf1) then ext4_ext_create_new_leaf A X sb n path1 T1 else Some (Inr path1, T1))"
    proof -
      have f: "\<not> (path_levels None path \<noteq> [] \<and>
          has_free (et_get T (fst (path_levels None path ! free_level T (path_levels None path) (length (path_levels None path))))))"
        using False unfolding lvls_def at_def .
      show ?thesis by (subst ext4_ext_create_new_leaf.simps) (simp only: Let_def f if_False T1(1) prod.case p(1,5) sum.case simp_thms)
    qed
    show ?thesis
    proof (cases "has_free lf1")
      case True
      then have e: "ext4_ext_create_new_leaf A X sb n path T = Some (Inr path1, T1)" using c by (simp add: has_free_def)
      have "leaf_change A X sb {} n T1 lvls1 leaf1 lf1 near" for near
        by (rule seek_change [OF F(1,2) T1(3) fits s1 p(4)]) (simp_all add: on_this_def)
      then have "ready_path A X sb n T1 path1" unfolding ready_path_def using p(2,3,6) True by blast
      then show ?thesis using e T1(2,4) pool unfolding created_def by auto
    next
      case False
      then have e: "ext4_ext_create_new_leaf A X sb n path T = ext4_ext_create_new_leaf A X sb n path1 T1"
        using c hl by (simp add: has_free_def head_ok_def)
      have fp: "fresh_pool T1" using F(5) T1(4,6) pool by (auto simp: fresh_pool_def)
      have fl: "full_path A X sb n T1 path1 lf1" unfolding full_path_def using F(1,2) T1(3) fits fp dm s1 p False by simp
      have len: "length lvls1 = ext_depth T1" using on_path_length [OF op1] .
      obtain i where i: "ext_depth T1 = Suc i" using T1(5) by blast
      have h0: "fst (lvls1 ! 0) = None" using op1 unfolding i by (auto split: list.splits)
      have "created A X sb n T1 (ext4_ext_create_new_leaf A X sb n path1 T1)"
        by (rule create_split [OF fl]) (use len i h0 T1(5-7) free_level_finds [of T1 lvls1] p(2) assms(3) pool in auto)
      then show ?thesis unfolding e created_def using T1(2,4,6) pool by auto
    qed
  qed
qed

text \<open>Merging does not lengthen a list, and joining keeps its length.\<close>

lemma merge_run_length: "length (fst (merge_run X e fs)) \<le> Suc (length fs)"
  by (induction fs arbitrary: e) (auto intro: le_SucI)

lemma merge_right_length: "k < length es \<Longrightarrow> length (fst (ext4_ext_try_to_merge_right X es k)) \<le> length es"
  using merge_run_length [of X "es ! k" "drop (Suc k) es"] by (auto simp: ext4_ext_try_to_merge_right_def split: prod.splits)

lemma try_to_merge_length:
  assumes "ext_laws X" "exts_ok X es" "k < length es"
  shows "length (ext4_ext_try_to_merge X es k) \<le> length es"
proof (cases "k > 0 \<and> snd (ext4_ext_try_to_merge_right X es (k - 1))")
  case True
  then show ?thesis using merge_right_length [of "k - 1" es X] assms(3) by (auto simp: ext4_ext_try_to_merge_def split: prod.splits)
next
  case False
  then have "k > 0 \<Longrightarrow> fst (ext4_ext_try_to_merge_right X es (k - 1)) = es" using merge_right_ok [OF assms(1,2), of "k - 1"] assms(3) by auto
  then have "ext4_ext_try_to_merge X es k = fst (ext4_ext_try_to_merge_right X es k)"
    using False by (auto simp: ext4_ext_try_to_merge_def split: prod.splits if_splits)
  then show ?thesis using merge_right_length [OF assms(3)] by simp
qed

lemma leaf_join_length: "leaf_join X es k n = Some (es', k') \<Longrightarrow> length es' = length es"
  by (auto simp: leaf_join_def join_at_def split: if_splits)

text \<open>What follows when the list of the leaf was changed at \<open>nearex\<close>.\<close>

lemma finish_list:
  assumes "leaf_change A X sb Z n T lvls leaf lf near" "ext_laws X" "exts_ok X es1" "same_map X es1 (n # eh_exts lf)" "nearex < length es1"
    and "near \<noteq> 0 \<Longrightarrow> eh_exts lf \<noteq> [] \<and> ee_block (hd (eh_exts lf)) \<le> ee_block n" "length es1 \<le> unat (eh_max lf)"
  shows "\<exists>T'. insert_finish A X pre_io lvls leaf (Some near) nearex (et_put leaf (lf\<lparr>eh_exts := es1\<rparr>) T) = (0, T') \<and> inserted X sb n T T'"
proof (rule finish_ok [OF assms(1) _ _ refl])
  note m = try_to_merge_ok [OF assms(2,3,5)] and ml = try_to_merge_length [OF assms(2,3,5)]
  show "leaf_new X n (eh_exts lf) (if pre_io then es1 else ext4_ext_try_to_merge X es1 nearex) (near = 0)"
    using assms(3,4,6) m same_map_trans [OF _ assms(4)] by (auto simp: leaf_new_def)
  show "length (if pre_io then es1 else ext4_ext_try_to_merge X es1 nearex) \<le> unat (eh_max lf)" using assms(7) ml by auto
qed

lemma insert_point_le: "insert_point es n \<le> length es"
  by (simp add: insert_point_def)

lemma hd_le:
  assumes "exts_ok X es" "insert_point es n \<noteq> 0"
  shows "es \<noteq> [] \<and> ee_block (hd es) \<le> ee_block n"
proof -
  note s = exts_ok_starts [OF assms(1)]
  obtain f where f: "f \<in> set es" "ee_block f \<le> ee_block n" using assms(2) by (auto simp: insert_point_def filter_empty_conv)
  then show ?thesis using s by (cases es) auto
qed

text \<open>From the label \<open>has_space\<close> on.\<close>

lemma place_ok:
  assumes "ext_laws X" "\<forall>near. (eh_exts lf = [] \<longrightarrow> near = 0) \<longrightarrow> leaf_change A X sb Z n T (path_levels None path) (path_leaf None path) lf near"
    and "has_free lf" "leaf_place (eh_exts lf) (p_ext (last path)) n = Some (list_insert (insert_point (eh_exts lf) n) n (eh_exts lf), insert_point (eh_exts lf) n)"
  shows "\<exists>T'. insert_place A X pre_io path n T = Some (0, T') \<and> inserted X sb n T T'"
proof -
  let ?es = "eh_exts lf" and ?k = "insert_point (eh_exts lf) n"
  have k0: "?es = [] \<longrightarrow> ?k = 0" by (simp add: insert_point_def)
  have lc: "leaf_change A X sb Z n T (path_levels None path) (path_leaf None path) lf ?k" using assms(2) k0 by blast
  note L = leaf_changeD [OF lc]
  have ex: "exts_ok X ?es" "set ?es \<subseteq> set (file_exts T)" using leaf_exts_ok [OF L(3,4,6)] by auto
  have fi: "fits_in X ?es n" using L(7) ex(2) by (auto simp: fits_in_def)
  note fs = fits_split(1,2) [OF ex(1) fi]
  have len: "length (list_insert ?k n ?es) = Suc (length ?es)" using insert_point_le [of ?es n] by (simp add: list_insert_def)
  have room: "length (list_insert ?k n ?es) \<le> unat (eh_max lf)"
    using assms(3) leaf_head(4) [OF L(3,4,6)] by (simp add: len has_free_def eh_entries_def)
  have kl: "?k < length (list_insert ?k n ?es)" using len insert_point_le [of ?es n] by simp
  have ga: "ext4_ext_get_access A d l m = 0" for d l m using L(1) by (simp add: ext4_ext_get_access_def split: option.splits)
  have gl: "et_get T (path_leaf None path) = lf" using L(6) by (rule et_get_node)
  from finish_list [OF lc assms(1) fs kl hd_le [OF ex(1)] room, of pre_io]
  show ?thesis using assms(4) by (auto simp: insert_place_def Let_def ga gl)
qed

lemma ready_place:
  assumes "ext_laws X" "ready_path A X sb n T path"
  shows "\<exists>T'. insert_place A X pre_io path n T = Some (0, T') \<and> inserted X sb n T T'"
proof -
  obtain Z lf where r: "p_ext (last path) = ext4_ext_binsearch lf (ee_block n)" "has_free lf"
    "\<forall>near. (eh_exts lf = [] \<longrightarrow> near = 0) \<longrightarrow> leaf_change A X sb Z n T (path_levels None path) (path_leaf None path) lf near"
    using assms(2) unfolding ready_path_def by blast
  then have "leaf_change A X sb Z n T (path_levels None path) (path_leaf None path) lf 0" by blast
  note L = leaf_changeD [OF this]
  have ex: "exts_ok X (eh_exts lf)" "fits_in X (eh_exts lf) n" using leaf_exts_ok [OF L(3,4,6)] L(7) by (auto simp: fits_in_def)
  have near: "p_ext (last path) = (if eh_exts lf = [] then None else Some (flat_pos (eh_exts lf) (ee_block n)))"
    using r(1) binsearch_pos [OF ex(1)] by (simp add: ext4_ext_binsearch_def)
  show ?thesis using place_ok [OF assms(1) r(3,2) leaf_place_ok [OF ex near]] .
qed

text \<open>The leaf that follows: looking for its first block leads to it.\<close>

lemma seek_first:
  assumes "tree_inv X sb {} N i eh" "N l = Some eh" "flat N i eh \<noteq> []"
  shows "\<exists>lvls leaf. seek N i eh l (ee_block (hd (flat N i eh))) = (lvls, leaf) \<and> before N i eh lvls = []"
  using assms
proof (induction i arbitrary: eh l)
  case (Suc i)
  let ?is = "eh_idxs eh" and ?b = "ee_block (hd (flat N (Suc i) eh))"
  have ne: "0 < length ?is" using Suc.prems(1) by (simp add: tree_inv_Suc)
  note s = tree_inv_keys [OF Suc.prems(1)]
  from tree_inv_kid [OF Suc.prems(1) ne] obtain c where c: "N (Some (ei_pblock (?is ! 0))) = Some c" "kid_at N eh 0 = c" "tree_inv X sb {} N i c"
    "kid N i (?is ! 0) = flat N i c" "flat N i c \<noteq> []" "ee_block (hd (flat N i c)) = ei_block (?is ! 0)" by (metis empty_iff)
  have h: "?b = ei_block (?is ! 0)" "ee_block (hd (flat N i c)) = ?b" using c(4-6) concat_kids_split [OF ne, of N i] by simp_all
  have "?b < ei_block (?is ! Suc 0)" if "Suc 0 < length ?is" unfolding h(1) using s that by (auto simp: sorted_wrt_iff_nth_less)
  then have p0: "ext4_ext_binsearch_idx eh ?b = 0" by (intro binsearch_idx_unique [OF s ne]) simp_all
  from Suc.IH [OF c(3,1,5)] h(2) obtain lvls leaf where "seek N i c (Some (ei_pblock (?is ! 0))) ?b = (lvls, leaf)" "before N i c lvls = []" by auto
  then show ?case using p0 c(2) by (simp only: seek.simps Let_def prod.case) simp
qed simp

lemma seek_next:
  assumes "tree_inv X sb {} N i eh" "N l = Some eh" "on_path N i eh l lvls leaf" "after N i eh lvls \<noteq> []" "N leaf = Some lf"
  shows "\<exists>lvls2 leaf2. seek N i eh l (ee_block (hd (after N i eh lvls))) = (lvls2, leaf2) \<and>
    before N i eh lvls2 = before N i eh lvls @ eh_exts lf"
  using assms(1-4)
proof (induction i arbitrary: eh l lvls)
  case (Suc i)
  let ?is = "eh_idxs eh" and ?b = "ee_block (hd (after N (Suc i) eh lvls))"
  from Suc.prems(3) obtain pos ls c where p: "lvls = (l, pos) # ls" "pos < length ?is" "kid_at N eh pos = c"
    "N (Some (ei_pblock (?is ! pos))) = Some c" "on_path N i c (Some (ei_pblock (?is ! pos))) ls leaf" by (rule on_path_SucE)
  note s = tree_inv_keys [OF Suc.prems(1)]
  have ky: "keyed X (kids N i ?is)" using Suc.prems(1) by (simp add: tree_inv_Suc)
  from tree_inv_kid [OF Suc.prems(1) p(2)] p(3,4) have c: "tree_inv X sb {} N i c" "kid N i (?is ! pos) = flat N i c" by metis+
  have fl: "flat N i c = before N i c ls @ eh_exts lf @ after N i c ls" using flat_path [OF p(5)] assms(5) by simp
  show ?case
  proof (cases "after N i c ls = []")
    case False
    then have b: "?b = ee_block (hd (after N i c ls))" using p(1,3) by simp
    let ?e = "hd (after N i c ls)"
    have m: "?e \<in> set (kid N i (?is ! pos))" using False c(2) fl by simp
    have lo: "ei_block (?is ! pos) \<le> ?b"
      using keys_around(2) [OF ky p(2), of ?e] m Cons_nth_drop_Suc [OF p(2)] by (metis UnCI b concat.simps(2) ext_start_def list.simps(9) set_append word_le_nat_alt)
    have hi: "?b < ei_block (?is ! Suc pos)" if sp: "Suc pos < length ?is"
    proof -
      have "?e \<in> set (concat (map (kid N i) (take (Suc pos) ?is)))" using m p(2) by (simp add: take_Suc_conv_app_nth)
      from keys_around(1) [OF ky sp this] have "ext_end X ?e \<le> unat (ei_block (?is ! Suc pos))" .
      moreover have "ext_ok X ?e" using tree_inv_exts [OF c(1)] m c(2) by (auto simp: exts_ok_def)
      ultimately show ?thesis by (auto simp: b ext_ok_def ext_end_def ext_start_def word_less_nat_alt)
    qed
    have q: "ext4_ext_binsearch_idx eh ?b = pos" by (rule binsearch_idx_unique [OF s p(2)]) (use lo hi in auto)
    from Suc.IH [OF c(1) p(4,5) False] b obtain l2 leaf2 where
      "seek N i c (Some (ei_pblock (?is ! pos))) ?b = (l2, leaf2)" "before N i c l2 = before N i c ls @ eh_exts lf" by auto
    then show ?thesis using q p(1,3) by (simp only: seek.simps Let_def prod.case) simp
  next
    case True
    have sp: "Suc pos < length ?is" using Suc.prems(4) True p(1,3) by (cases "Suc pos < length ?is") simp_all
    from tree_inv_kid [OF Suc.prems(1) sp] obtain d where d: "N (Some (ei_pblock (?is ! Suc pos))) = Some d" "kid_at N eh (Suc pos) = d" "tree_inv X sb {} N i d"
      "kid N i (?is ! Suc pos) = flat N i d" "flat N i d \<noteq> []" "ee_block (hd (flat N i d)) = ei_block (?is ! Suc pos)" by (metis empty_iff)
    have b: "?b = ei_block (?is ! Suc pos)" "ee_block (hd (flat N i d)) = ?b"
      using True p(1,3) d(4-6) Cons_nth_drop_Suc [OF sp, symmetric] by simp_all
    have "?b < ei_block (?is ! Suc (Suc pos))" if "Suc (Suc pos) < length ?is" using s that by (auto simp: b(1) sorted_wrt_iff_nth_less)
    then have q: "ext4_ext_binsearch_idx eh ?b = Suc pos" by (intro binsearch_idx_unique [OF s sp]) (simp_all add: b(1))
    from seek_first [OF d(3,1,5)] b(2) obtain l2 leaf2 where
      sk: "seek N i d (Some (ei_pblock (?is ! Suc pos))) ?b = (l2, leaf2)" "before N i d l2 = []" by auto
    have "before N (Suc i) eh ((l, Suc pos) # l2) = before N (Suc i) eh lvls @ eh_exts lf"
      using sk(2) d(2) p(1,3) c(2) fl True by (simp add: take_Suc_conv_app_nth [OF p(2)])
    then show ?thesis using sk(1) q d(2) by (simp only: seek.simps Let_def prod.case) simp
  qed
qed simp

lemma seek_order:
  assumes "etree_inv X sb {} T" "seek (et_node T) (ext_depth T) (et_root T) None b = (lvls, leaf)"
  shows "on_path (et_node T) (ext_depth T) (et_root T) None lvls leaf"
  using seek_on_path [OF _ root_node [OF assms(1)] assms(2)] assms(1) by (auto simp: etree_inv_def)

text \<open>A leaf below the root is not empty.\<close>

lemma leaf_ne:
  assumes "tree_inv X sb {} N i eh" "on_path N i eh l lvls leaf" "N leaf = Some lf" "0 < i"
  shows "eh_exts lf \<noteq> []"
  using assms
proof (induction i arbitrary: eh l lvls)
  case (Suc i)
  from Suc.prems(2) obtain pos ls c where p: "pos < length (eh_idxs eh)" "N (Some (ei_pblock (eh_idxs eh ! pos))) = Some c" "kid_at N eh pos = c"
    "on_path N i c (Some (ei_pblock (eh_idxs eh ! pos))) ls leaf" by (rule on_path_SucE)
  from tree_inv_kid [OF Suc.prems(1) p(1)] p(2) have c: "tree_inv X sb {} N i c" "flat N i c \<noteq> []" by (metis empty_iff option.inject)+
  show ?case
  proof (cases i)
    case 0
    then show ?thesis using p(2,4) c(2) Suc.prems(3) by simp
  qed (use Suc.IH [OF c(1) p(4) Suc.prems(3)] in simp)
qed simp

text \<open>The new extent goes to the front of the leaf that follows the full one.\<close>

lemma next_ok:
  assumes "ext_laws X" "full_path A X sb n T path lf" "ee_block (last (eh_exts lf)) < ee_block n"
    and "after (et_node T) (ext_depth T) (et_root T) (path_levels None path) \<noteq> []"
  defines "nxt \<equiv> ee_block (hd (after (et_node T) (ext_depth T) (et_root T) (path_levels None path)))"
  shows "\<exists>npath. ext4_find_extent X (A (X_mem (ext_depth T)) = 0) (et_read (et_node T)) (et_root T) nxt = Inr npath \<and>
    (has_free (et_get T (path_leaf None npath)) \<longrightarrow> (\<exists>T'. insert_place A X pre_io npath n T = Some (0, T') \<and> inserted X sb n T T'))"
proof -
  note F = full_pathD [OF assms(2)] and op = full_on_path [OF assms(2)]
  let ?N = "et_node T" and ?d = "ext_depth T" and ?root = "et_root T"
  let ?bf = "before ?N ?d ?root" and ?af = "after ?N ?d ?root" and ?lv = "path_levels None path"
  have t: "tree_inv X sb {} ?N ?d ?root" using F(3) by (simp add: etree_inv_def)
  note rn = root_node [OF F(3)]
  from seek_next [OF t rn op(1) assms(4) F(8), folded nxt_def] obtain lvls2 leaf2 where
    s2: "seek ?N ?d ?root None nxt = (lvls2, leaf2)" "?bf lvls2 = ?bf ?lv @ eh_exts lf" by blast
  note op2 = seek_order [OF F(3) s2(1)]
  from find_ok [OF F(1,3,6) s2(1)] obtain npath lf2 where p: "ext4_find_extent X (A (X_mem ?d) = 0) (et_read ?N) ?root nxt = Inr npath"
    "path_levels None npath = lvls2" "path_leaf None npath = leaf2" "?N leaf2 = Some lf2" "p_ext (last npath) = ext4_ext_binsearch lf2 nxt" by metis
  have fe: "file_exts T = ?bf ?lv @ eh_exts lf @ ?af ?lv" "file_exts T = ?bf lvls2 @ eh_exts lf2 @ ?af lvls2"
    using file_split [OF op(1) F(8)] file_split [OF op2 p(4)] by simp_all
  then have af: "?af ?lv = eh_exts lf2 @ ?af lvls2" using s2(2) by simp
  have "0 < ?d" using assms(4) by (cases ?d) auto
  then have ne: "eh_exts lf2 \<noteq> []" using leaf_ne [OF t op2 p(4)] by simp
  then have nx: "nxt = ee_block (hd (eh_exts lf2))" by (simp add: nxt_def af)
  have ex: "exts_ok X (file_exts T)" using tree_inv_exts [OF t] by (simp add: file_exts_def)
  note ba = before_after_order [OF t rn F(7)]
  have fi: "ext_end X e \<le> ext_start n \<or> ext_end X n \<le> ext_start e" if "e \<in> set (file_exts T)" for e using F(4) that by (simp add: fits_in_def)
  have pos: "ext_start e < ext_end X e" if "e \<in> set (file_exts T)" for e using ex that by (auto simp: exts_ok_def ext_ok_def ext_end_def ext_start_def)
  have a: "ext_end X n \<le> ext_start e" if "e \<in> set (?af ?lv)" for e
    using that ba fi [of e] pos [of e] fe(1) by (auto simp: ext_start_def)
  have b: "ext_end X e \<le> ext_start n" if e: "e \<in> set (eh_exts lf)" for e
  proof -
    have "ee_block e \<le> ee_block (last (eh_exts lf))"
      using exts_ok_starts [OF op(3)] e sorted_keys [of ee_block "eh_exts lf" _ "length (eh_exts lf) - 1"] op(2)
      by (auto simp: in_set_conv_nth last_conv_nth)
    then have "ext_start e < ext_start n" using assms(3) by (simp add: ext_start_def word_less_nat_alt word_le_nat_alt)
    moreover have "ext_start n < ext_end X n" using F(4) by (simp add: fits_in_def ext_ok_def ext_end_def ext_start_def)
    ultimately show ?thesis using fi [of e] e fe(1) by auto
  qed
  have lc: "leaf_change A X sb {} n T lvls2 leaf2 lf2 near" for near
    unfolding leaf_change_def using F(1-4) op2 p(4) a b ba s2(2) af by (auto simp: on_this_def ext_start_def)
  have lt: "ee_block n < ee_block e" if "e \<in> set (eh_exts lf2)" for e
  proof -
    have "ext_start n < ext_end X n" using F(4) by (simp add: fits_in_def ext_ok_def ext_end_def ext_start_def)
    then show ?thesis using a [of e] that af by (simp add: ext_start_def word_less_nat_alt)
  qed
  have ex2: "exts_ok X (eh_exts lf2)" by (rule leaf_exts_ok(1) [OF F(3) op2 p(4)])
  have ip: "insert_point (eh_exts lf2) n = 0" using lt by (simp add: insert_point_def filter_empty_conv not_le)
  have fp: "flat_pos (eh_exts lf2) nxt = 0"
  proof -
    have "filter (\<lambda>e. ee_block e \<le> nxt) (eh_exts lf2) = [hd (eh_exts lf2)]"
      using exts_ok_starts [OF ex2] ne nx by (cases "eh_exts lf2") (auto simp: filter_empty_conv)
    then show ?thesis by (simp add: flat_pos_def)
  qed
  have pe: "p_ext (last npath) = Some 0" using p(5) binsearch_pos [OF ex2 ne, of nxt] fp by simp
  have lp: "leaf_place (eh_exts lf2) (p_ext (last npath)) n =
      Some (list_insert (insert_point (eh_exts lf2) n) n (eh_exts lf2), insert_point (eh_exts lf2) n)"
    using lt [of "eh_exts lf2 ! 0"] ne by (auto simp: leaf_place_def pe ip)
  have "\<exists>T'. insert_place A X pre_io npath n T = Some (0, T') \<and> inserted X sb n T T'" if "has_free lf2"
    by (rule place_ok [where Z = "{}", OF assms(1) _ that lp]) (use lc p(2,3) in simp)
  then show ?thesis using p(1,3) et_get_node [OF p(4)] by auto
qed

lemma seek_ready:
  assumes "\<forall>c. A c = 0" "size_laws X sb" "etree_inv X sb {} T" "fits_in X (file_exts T) n"
    and "seek (et_node T) (ext_depth T) (et_root T) None (ee_block n) = (lvls, leaf)" "et_node T leaf = Some lf"
  shows "leaf_change A X sb {} n T lvls leaf lf near"
  by (rule seek_change [OF assms]) (simp_all add: on_this_def)

text \<open>The new extent is joined to an extent of the leaf.\<close>

lemma tree_join_ok:
  assumes "ext_laws X" "leaf_change A X sb {} n T lvls leaf lf (flat_pos (eh_exts lf) (ee_block n))" "eh_exts lf \<noteq> []"
    and "leaf_join X (eh_exts lf) (flat_pos (eh_exts lf) (ee_block n)) n = Some (es, k)"
  shows "\<exists>T'. insert_finish A X pre_io lvls leaf (Some (flat_pos (eh_exts lf) (ee_block n))) k (et_put leaf (lf\<lparr>eh_exts := es\<rparr>) T) = (0, T') \<and> inserted X sb n T T'"
proof -
  note L = leaf_changeD [OF assms(2)]
  have ex: "exts_ok X (eh_exts lf)" "fits_in X (eh_exts lf) n" using leaf_exts_ok [OF L(3,4,6)] L(7) by (auto simp: fits_in_def)
  note j = leaf_join_ok [OF assms(1) ex flat_pos_less [OF assms(3)] assms(4)]
  have "length (eh_exts lf) \<le> unat (eh_max lf)"
  proof (cases "ext_depth T = 0")
    case True
    then show ?thesis using leaf_head(2,4) [OF L(3,4,6)] L(3) by (auto simp: etree_inv_def ext_root_ok_def eh_entries_def)
  qed (use leaf_head(1,4) [OF L(3,4,6)] in \<open>auto simp: head_ok_def eh_entries_def\<close>)
  then have len: "length es \<le> unat (eh_max lf)" using leaf_join_length [OF assms(4)] by simp
  have "flat_pos (eh_exts lf) (ee_block n) \<noteq> 0 \<Longrightarrow> eh_exts lf \<noteq> [] \<and> ee_block (hd (eh_exts lf)) \<le> ee_block n"
    by (rule hd_le [OF ex(1)]) (auto simp: flat_pos_def insert_point_def)
  then show ?thesis using j len by (intro finish_list [OF assms(2,1)]) auto
qed

text \<open>What an insertion answers, and the case of a full leaf.\<close>

definition insert_result :: "ext_ops \<Rightarrow> super_block \<Rightarrow> ext4_extent \<Rightarrow> etree \<Rightarrow> (int \<times> etree) option \<Rightarrow> bool" where
  "insert_result X sb n T r \<longleftrightarrow>
     (\<exists>T'. r = Some (0, T') \<and> etree_inv X sb {} T' \<and> set (file_blocks T') \<subseteq> set (file_blocks T) \<union> set (et_pool T) \<and>
        (\<forall>lb. ext_lookup X (file_exts T') lb = (if covers X n lb then Some (image_of X n lb) else ext_lookup X (file_exts T) lb)))"

lemma insert_direct: "\<exists>T'. r = Some (0, T') \<and> inserted X sb n T T' \<Longrightarrow> insert_result X sb n T r"
  by (auto simp: insert_result_def inserted_def)

lemma full_insert:
  assumes "ext_laws X" "full_path A X sb n T path lf" "ext_depth T < EXT4_MAX_EXTENT_DEPTH X" "ext_depth T + 2 \<le> length (et_pool T)"
    and "(case p_ext (last path) of Some k \<Rightarrow> if pre_io then None else leaf_join X (eh_exts lf) k n | None \<Rightarrow> None) = None"
    and "next_index (rev (butlast path)) = (if after (et_node T) (ext_depth T) (et_root T) (path_levels None path) = [] then None
      else Some (ee_block (hd (after (et_node T) (ext_depth T) (et_root T) (path_levels None path)))))"
  shows "insert_result X sb n T (ext_insert_extent A X sb pre_io path n T)"
proof -
  let ?N = "et_node T" and ?d = "ext_depth T" and ?root = "et_root T"
  note F = full_pathD [OF assms(2)]
  have gl: "et_get T (path_leaf None path) = lf" by (rule et_get_node [OF F(8)])
  have len: "ext4_ext_get_actual_len X n \<noteq> 0" using F(4) by (simp add: fits_in_def ext_ok_def)
  define anew where "anew = (case ext4_ext_create_new_leaf A X sb n path T of None \<Rightarrow> None | Some (Inl err, T) \<Rightarrow> Some (err, T)
    | Some (Inr path, T) \<Rightarrow> insert_place A X pre_io path n T)"
  from create_ok [OF assms(2-4)] obtain path1 T1 where c: "ext4_ext_create_new_leaf A X sb n path T = Some (Inr path1, T1)"
    "ready_path A X sb n T1 path1" "file_exts T1 = file_exts T" "set (file_blocks T1) \<subseteq> set (file_blocks T) \<union> set (et_pool T)" unfolding created_def by blast
  from ready_place [OF assms(1) c(2)] obtain T2 where "insert_place A X pre_io path1 n T1 = Some (0, T2)" "inserted X sb n T1 T2" by blast
  then have cr: "insert_result X sb n T anew" using c by (auto simp: insert_result_def inserted_def anew_def)
  define nxt where "nxt = (if ee_block n > ee_block (last (eh_exts lf)) then ext4_ext_next_leaf_block X path else EXT_MAX_BLOCKS X)"
  have r: "ext_insert_extent A X sb pre_io path n T = (if nxt = EXT_MAX_BLOCKS X then anew
      else (case ext4_find_extent X (A (X_mem ?d) = 0) (et_read ?N) ?root nxt of Inl err \<Rightarrow> Some (err, T)
         | Inr npath \<Rightarrow> if has_free (et_get T (path_leaf None npath)) then insert_place A X pre_io npath n T else anew))"
    unfolding ext_insert_extent_def Let_def gl assms(5) nxt_def anew_def using len F(9) by simp
  show ?thesis
  proof (cases "nxt = EXT_MAX_BLOCKS X")
    case False
    then have nx: "ee_block (last (eh_exts lf)) < ee_block n" "after ?N ?d ?root (path_levels None path) \<noteq> []"
      "nxt = ee_block (hd (after ?N ?d ?root (path_levels None path)))"
      using assms(6) by (auto simp: nxt_def ext4_ext_next_leaf_block_def split: if_splits)
    from next_ok [OF assms(1,2) nx(1,2), folded nx(3), of pre_io] cr insert_direct False show ?thesis unfolding r by auto
  qed (use r cr in simp)
qed

lemma tree_insert:
  assumes "\<forall>c. A c = 0" "ext_laws X" "size_laws X sb" "etree_inv X sb {} T" "ext_depth T < EXT4_MAX_EXTENT_DEPTH X"
    and "fits_in X (file_exts T) n" "fresh_pool T" "ext_depth T + 2 \<le> length (et_pool T)"
    and "ext4_find_extent X True (et_read (et_node T)) (et_root T) (ee_block n) = Inr path"
  shows "insert_result X sb n T (ext_insert_extent A X sb pre_io path n T)"
proof -
  let ?N = "et_node T" and ?d = "ext_depth T" and ?root = "et_root T"
  obtain lvls leaf where s: "seek ?N ?d ?root None (ee_block n) = (lvls, leaf)" by fastforce
  have dm: "?d \<le> EXT4_MAX_EXTENT_DEPTH X" using assms(5) by simp
  have fe: "ext4_find_extent X (A (X_mem ?d) = 0) (et_read ?N) ?root (ee_block n) = Inr path" using assms(1,9) by simp
  obtain lf where p: "path_levels None path = lvls" "path_leaf None path = leaf" "?N leaf = Some lf"
    "p_hdr (last path) = lf" "p_ext (last path) = ext4_ext_binsearch lf (ee_block n)"
    "next_index (rev (butlast path)) = (if after ?N ?d ?root lvls = [] then None else Some (ee_block (hd (after ?N ?d ?root lvls))))"
    by (rule find_ok [OF assms(1,4) dm s]) (use fe in simp)
  have lc: "leaf_change A X sb {} n T lvls leaf lf near" for near by (rule seek_ready [OF assms(1,3,4,6) s p(3)])
  note L = leaf_changeD [OF lc]
  have ex: "exts_ok X (eh_exts lf)" by (rule leaf_exts_ok(1) [OF L(3,4,6)])
  have pe: "p_ext (last path) = (if eh_exts lf = [] then None else Some (flat_pos (eh_exts lf) (ee_block n)))"
    using p(5) binsearch_pos [OF ex] by (simp add: ext4_ext_binsearch_def)
  have gl: "et_get T leaf = lf" by (rule et_get_node [OF p(3)])
  have ga: "ext4_ext_get_access A d l m = 0" for d l m using assms(1) by (simp add: ext4_ext_get_access_def split: option.splits)
  have len: "ext4_ext_get_actual_len X n \<noteq> 0" using assms(6) by (simp add: fits_in_def ext_ok_def)
  show ?thesis
  proof (cases "eh_exts lf \<noteq> [] \<and> \<not> pre_io \<and> leaf_join X (eh_exts lf) (flat_pos (eh_exts lf) (ee_block n)) n \<noteq> None")
    case True
    then obtain es k where j: "leaf_join X (eh_exts lf) (flat_pos (eh_exts lf) (ee_block n)) n = Some (es, k)" by auto
    then have "ext_insert_extent A X sb pre_io path n T =
        Some (insert_finish A X pre_io lvls leaf (Some (flat_pos (eh_exts lf) (ee_block n))) k (et_put leaf (lf\<lparr>eh_exts := es\<rparr>) T))"
      using True len by (simp add: ext_insert_extent_def Let_def p(1,2) gl pe ga)
    then show ?thesis using tree_join_ok [OF assms(2) lc _ j, of pre_io] True by (intro insert_direct) auto
  next
    case False
    then have nj: "(case p_ext (last path) of Some k \<Rightarrow> if pre_io then None else leaf_join X (eh_exts lf) k n | None \<Rightarrow> None) = None"
      by (auto simp: pe simp del: not_None_eq)
    show ?thesis
    proof (cases "has_free lf")
      case True
      have "ready_path A X sb n T path" unfolding ready_path_def using p lc True by blast
      from ready_place [OF assms(2) this, of pre_io] show ?thesis
        unfolding ext_insert_extent_def Let_def p(2) gl nj using len True by (intro insert_direct) simp
    next
      case False
      then have "full_path A X sb n T path lf" unfolding full_path_def using assms(1,3,4,6,7) dm s p by simp
      then show ?thesis using full_insert [OF assms(2) _ assms(5,8) nj] p(1,6) by simp
    qed
  qed
qed

text \<open>
  C5 tree_insert_ok: \<open>ext4_ext_insert_extent\<close> on the whole tree. When no call fails and the allocator has enough blocks, inserting an
  extent that overlaps none, through the path that \<open>ext4_find_extent\<close> returns for its first block, succeeds, whether it is joined to
  a neighbour, put into the leaf, into the leaf that follows, or needs a leaf made by splitting up to any level or by growing the tree.
  The tree keeps its invariant, its blocks come from the old tree and from the allocator, the blocks of the new extent get its mapping
  and every other block keeps its own.
\<close>

theorem tree_insert_ok:
  assumes "\<forall>c. A c = 0" "ext_laws X" "size_laws X sb" "etree_inv X sb {} T" "ext_depth T < EXT4_MAX_EXTENT_DEPTH X"
    and "fits_in X (file_exts T) n" "fresh_pool T" "ext_depth T + 2 \<le> length (et_pool T)"
    and "ext4_find_extent X True (et_read (et_node T)) (et_root T) (ee_block n) = Inr path"
  shows "\<exists>T'. ext_insert_extent A X sb pre_io path n T = Some (0, T') \<and> etree_inv X sb {} T' \<and>
    set (file_blocks T') \<subseteq> set (file_blocks T) \<union> set (et_pool T) \<and>
    (\<forall>lb. ext_lookup X (file_exts T') lb = (if covers X n lb then Some (image_of X n lb) else ext_lookup X (file_exts T) lb))"
  using tree_insert [OF assms, of pre_io] unfolding insert_result_def .

text \<open>The four extents that a root can hold, and a fifth one.\<close>

definition full_root :: etree where
  "full_root = \<lparr>et_node = [None \<mapsto> demo_leaf [demo_ext 0 1 100, demo_ext 2 1 102, demo_ext 4 1 104, demo_ext 6 1 106]], et_pool = [50, 51], et_freed = []\<rparr>"

lemmas tree_defs = etree_inv_def file_exts_def file_blocks_def ext_depth_def et_get_def ext_root_ok_def fresh_pool_def size_laws_def
  ext4_ext_space_block_def ext4_ext_space_block_idx_def ext4_ext_space_root_def ext4_ext_space_root_idx_def eh_entries_def fits_in_def

lemma demo_sizes: "size_laws demo_ops demo_sb"
  by (simp add: tree_defs demo_ext_defs demo_sb_def)

theorem tree_insert_ok_witness:
  "\<exists>path T'. ext4_find_extent demo_ops True (et_read (et_node full_root)) (et_root full_root) 3 = Inr path \<and>
     ext_insert_extent (\<lambda>c. 0) demo_ops demo_sb False path (demo_ext 3 1 200) full_root = Some (0, T') \<and>
     etree_inv demo_ops demo_sb {} T' \<and> ext_lookup demo_ops (file_exts T') 3 = Some (200, False)"
proof -
  let ?n = "demo_ext 3 1 200"
  have i: "etree_inv demo_ops demo_sb {} full_root" "ext_depth full_root < EXT4_MAX_EXTENT_DEPTH demo_ops" "fits_in demo_ops (file_exts full_root) ?n"
    "fresh_pool full_root" "ext_depth full_root + 2 \<le> length (et_pool full_root)"
    by (simp_all add: tree_defs demo_ext_defs full_root_def)
  obtain path where p: "ext4_find_extent demo_ops True (et_read (et_node full_root)) (et_root full_root) (ee_block ?n) = Inr path"
    by (simp add: ext4_find_extent_def tree_defs full_root_def demo_ext_defs)
  have l: "covers demo_ops ?n 3" "image_of demo_ops ?n 3 = (200, False)" by (simp_all add: covers_def image_of_def demo_ext_defs)
  have b: "ee_block ?n = 3" by (simp add: demo_ext_def)
  from tree_insert_ok [OF _ demo_ops_laws demo_sizes i p, of "\<lambda>c. 0" False] l p show ?thesis unfolding b by fastforce
qed

text \<open>Another list in the leaf at the end of a path, and nothing else of the tree changed.\<close>

lemma flat_leaf:
  assumes "N' leaf = Some lf'"
  shows "on_path N i eh l lvls leaf \<Longrightarrow> apart N i eh l [] \<Longrightarrow> \<forall>m. m \<noteq> leaf \<and> (m = l \<or> m \<in> Some ` set (tree_blocks N i eh)) \<longrightarrow> N' m = N m \<Longrightarrow>
    flat N' i (the (N' l)) = before N i eh lvls @ eh_exts lf' @ after N i eh lvls"
proof (induction i arbitrary: eh l lvls)
  case (Suc i)
  let ?is = "eh_idxs eh"
  from Suc.prems(1) obtain pos ls c where p: "lvls = (l, pos) # ls" "pos < length ?is" "kid_at N eh pos = c"
    "N (Some (ei_pblock (?is ! pos))) = Some c" "on_path N i c (Some (ei_pblock (?is ! pos))) ls leaf" by (rule on_path_SucE)
  have lf: "leaf \<in> Some ` set (kid_blocks N i (?is ! pos))"
    using on_path_in(1) [OF p(5)] p(4) by (auto simp: kid_blocks_def)
  have tb: "tree_blocks N (Suc i) eh = concat (map (kid_blocks N i) (take pos ?is)) @ kid_blocks N i (?is ! pos) @ concat (map (kid_blocks N i) (drop (Suc pos) ?is))"
    using tree_blocks_split [of pos eh N c i, OF p(2,4)] p(4) by (simp add: kid_blocks_def)
  have ap: "N l = Some eh" "l \<notin> Some ` set (tree_blocks N (Suc i) eh)" "distinct (tree_blocks N (Suc i) eh)" using Suc.prems(2) by (simp_all add: apart_def)
  have l: "N' l = Some eh" using Suc.prems(3) ap lf by (auto simp: tb)
  have out: "N' (Some p) = N (Some p)" if "p \<in> set (concat (map (kid_blocks N i) (take pos ?is))) \<union> set (concat (map (kid_blocks N i) (drop (Suc pos) ?is)))" for p
  proof -
    have "Some p \<noteq> leaf" using that lf ap(3) by (auto simp: tb)
    then show ?thesis using Suc.prems(3) that by (auto simp: tb)
  qed
  have k: "map (kid N' i) (take pos ?is) = map (kid N i) (take pos ?is)" "map (kid N' i) (drop (Suc pos) ?is) = map (kid N i) (drop (Suc pos) ?is)"
    by (rule kids_frame(1); use out in blast)+
  have sub: "set (tree_blocks N i c) \<subseteq> set (tree_blocks N (Suc i) eh)" "ei_pblock (?is ! pos) \<in> set (tree_blocks N (Suc i) eh)"
    using p(4) by (auto simp: tb kid_blocks_def)
  have N1: "\<forall>m. m \<noteq> leaf \<and> (m = Some (ei_pblock (?is ! pos)) \<or> m \<in> Some ` set (tree_blocks N i c)) \<longrightarrow> N' m = N m"
    using Suc.prems(3) sub by auto
  have "N' (Some (ei_pblock (?is ! pos))) \<noteq> None" using N1 p(4) assms by (cases "leaf = Some (ei_pblock (?is ! pos))") auto
  then obtain c' where c': "N' (Some (ei_pblock (?is ! pos))) = Some c'" by blast
  have "apart N i c (Some (ei_pblock (?is ! pos))) []" using apart_kid [OF Suc.prems(2) p(2,4), of "[]" "[]"] by simp
  from Suc.IH [OF p(5) this N1] c' have "kid N' i (?is ! pos) = before N i c ls @ eh_exts lf' @ after N i c ls" by (simp add: kid_Some)
  then show ?case using p(1,3) unfolding l flat_Suc option.sel concat_kids_split [OF p(2), of N'] k by simp
qed (use assms in auto)

lemma below_root:
  assumes "on_path N (Suc i) eh l lvls leaf"
  shows "leaf \<in> Some ` set (tree_blocks N (Suc i) eh)" "0 < j \<Longrightarrow> j < length lvls \<Longrightarrow> \<exists>p. fst (lvls ! j) = Some p"
proof -
  from assms obtain pos ls c where p: "lvls = (l, pos) # ls" "pos < length (eh_idxs eh)" "N (Some (ei_pblock (eh_idxs eh ! pos))) = Some c"
    "on_path N i c (Some (ei_pblock (eh_idxs eh ! pos))) ls leaf" by (rule on_path_SucE)
  show "leaf \<in> Some ` set (tree_blocks N (Suc i) eh)"
    using on_path_in(1) [OF p(4)] tree_blocks_split [of pos eh N c i, OF p(2,3)] by auto
  show "\<exists>p. fst (lvls ! j) = Some p" if "0 < j" "j < length lvls"
  proof -
    have "lvls ! j \<in> set ls" using that p(1) by (cases j) auto
    then show ?thesis using on_path_in(2) [OF p(4)] by blast
  qed
qed

text \<open>
  C31 failed_split_loses: when \<open>ext4_ext_split\<close> has moved the extents behind the position to the new leaf and the access to the index
  node above the leaf then fails, the call answers that error, the moved extents are no longer in the file, and the block to which they were
  copied is given back to the allocator.
\<close>

theorem failed_split_loses:
  assumes "size_laws X sb" "etree_inv X sb {} T" "2 \<le> ext_depth T"
    and "seek (et_node T) (ext_depth T) (et_root T) None b = (lvls, leaf)" "et_node T leaf = Some lf" "\<not> has_free lf"
    and "ext4_ext_binsearch lf b = Some k" "Suc k < length (eh_exts lf)" "fresh_pool T" "et_pool T = nb # ps"
    and "err \<noteq> 0" "\<forall>c. A c = (if c = X_access (ext_depth T) (ext_depth T - 1) then err else 0)"
  shows "\<exists>T'. ext4_ext_split A X sb lvls leaf k n (ext_depth T - 1) T = (err, T') \<and>
    (\<exists>as bs. file_exts T = as @ drop (Suc k) (eh_exts lf) @ bs \<and> file_exts T' = as @ bs) \<and> et_freed T' = et_freed T @ [nb]"
proof -
  let ?N = "et_node T" and ?d = "ext_depth T" and ?root = "et_root T"
  define lf' where "lf' = lf\<lparr>eh_exts := take (Suc k) (eh_exts lf)\<rparr>"
  note op = seek_order [OF assms(2,4)]
  have len: "length lvls = ?d" using on_path_length [OF op] .
  have "?d = Suc (Suc (?d - 2))" using assms(3) by simp
  then obtain j where j: "?d = Suc (Suc j)" by blast
  have hl: "head_ok X sb 0 lf" using leaf_head(1) [OF assms(2) op assms(5)] j by simp
  note fl = full_leaf [OF hl assms(6)]
  have nb: "nb \<noteq> 0" "nb \<notin> set (file_blocks T)" using assms(9,10) by (auto simp: fresh_pool_def)
  have lin: "leaf \<in> Some ` set (file_blocks T)" using below_root(1) [OF op [unfolded j]] by (simp add: file_blocks_def j)
  obtain q where q: "fst (lvls ! Suc j) = Some q" using below_root(2) [OF op [unfolded j], of "Suc j"] len j by auto
  define T' where "T' = T\<lparr>et_node := ?N(Some nb \<mapsto> new_leaf X sb (drop (Suc k) (eh_exts lf)), leaf \<mapsto> lf'), et_pool := ps, et_freed := et_freed T @ [nb]\<rparr>"
  have lnb: "leaf \<noteq> Some nb" "leaf \<noteq> None" using lin nb(2) by auto
  have gl: "et_get (T\<lparr>et_pool := ps\<rparr>) leaf = lf" using assms(5) by (simp add: et_get_def)
  have A0: "A (X_access ?d ?d) = 0" "A (X_dirty a c) = 0" "A (X_getblk w) = 0" "A (X_create w) = 0" "A (X_meta w) = 0" "A (X_array a) = 0" "A (X_mark a) = 0"
    "A (X_access ?d (Suc j)) = err" for a c w using assms(12) j by simp_all
  have sl: "split_leaf A X sb ?d leaf k nb (T\<lparr>et_pool := ps\<rparr>) =
      (0, T\<lparr>et_pool := ps, et_node := ?N(Some nb \<mapsto> new_leaf X sb (drop (Suc k) (eh_exts lf)), leaf \<mapsto> lf')\<rparr>)"
    using A0 nb(1) fl(1) assms(8) lnb(2) by (auto simp: split_leaf_def gl Let_def shrink_def ext4_ext_get_access_def ext4_ext_dirty_def lf'_def et_put_def)
  have run: "ext4_ext_split A X sb lvls leaf k n (?d - 1) T = (err, T')"
    using fl(1) assms(8,10,11) A0 sl q len j
    by (simp add: ext4_ext_split_def Let_def et_get_node [OF assms(5)] ext4_ext_insert_index_def ext4_ext_get_access_def T'_def)
  have nd: "et_node T' leaf = Some lf'" "\<forall>m. m \<noteq> leaf \<and> (m = None \<or> m \<in> Some ` set (tree_blocks ?N ?d ?root)) \<longrightarrow> et_node T' m = ?N m"
    using nb(2) by (auto simp: T'_def file_blocks_def)
  note fl' = flat_leaf [OF nd(1) op root_apart [OF assms(2)] nd(2)]
  have rt: "et_node T' None = Some ?root" using lnb(2) root_node [OF assms(2)] by (auto simp: T'_def)
  then have d': "et_root T' = ?root" "ext_depth T' = ?d" by (simp_all add: et_get_node ext_depth_def)
  have "file_exts T' = before ?N ?d ?root lvls @ take (Suc k) (eh_exts lf) @ after ?N ?d ?root lvls"
    using fl' rt d' by (simp add: file_exts_def lf'_def)
  moreover have "file_exts T = (before ?N ?d ?root lvls @ take (Suc k) (eh_exts lf)) @ drop (Suc k) (eh_exts lf) @ after ?N ?d ?root lvls"
    using file_split [OF op assms(5)] by simp
  ultimately show ?thesis using run by (intro exI [of _ T'] conjI exI [of _ "before ?N ?d ?root lvls @ take (Suc k) (eh_exts lf)"]
    exI [of _ "after ?N ?d ?root lvls"]) (simp_all add: T'_def)
qed

lemma one_key: "eh_idxs eh = [ix] \<Longrightarrow> ext4_ext_binsearch_idx eh b = 0"
  using binsearch_idx_pos(1) [of eh b] by simp

text \<open>A tree of two levels below the root whose only leaf is full.\<close>

definition deep_tree :: etree where
  "deep_tree = \<lparr>et_node = [None \<mapsto> demo_root\<lparr>eh_depth := 2, eh_idxs := [\<lparr>ei_block = 0, ei_pblock = 40\<rparr>]\<rparr>,
      Some 40 \<mapsto> demo_root\<lparr>eh_idxs := [\<lparr>ei_block = 0, ei_pblock = 41\<rparr>]\<rparr>,
      Some 41 \<mapsto> (demo_leaf [demo_ext 0 1 100, demo_ext 4 1 104])\<lparr>eh_max := 2\<rparr>], et_pool = [50], et_freed = []\<rparr>"

theorem failed_split_loses_witness:
  "\<exists>T'. ext4_ext_split (\<lambda>c. if c = X_access 2 1 then - EIO else 0) demo_ops demo_sb [(None, 0), (Some 40, 0)] (Some 41) 0 (demo_ext 2 1 200) 1 deep_tree = (- EIO, T') \<and>
     file_exts deep_tree = [demo_ext 0 1 100, demo_ext 4 1 104] \<and> file_exts T' = [demo_ext 0 1 100] \<and> et_freed T' = [50]"
proof -
  let ?A = "\<lambda>c. if c = X_access 2 1 then - EIO else 0" and ?lf = "(demo_leaf [demo_ext 0 1 100, demo_ext 4 1 104])\<lparr>eh_max := 2\<rparr>"
  have d: "ext_depth deep_tree = 2" by (simp add: deep_tree_def ext_depth_def et_get_def)
  have f: "file_exts deep_tree = [demo_ext 0 1 100, demo_ext 4 1 104]" "file_blocks deep_tree = [40, 41]"
    unfolding file_exts_def file_blocks_def d numeral_2_eq_2 flat_Suc tree_blocks_Suc
    by (simp_all add: deep_tree_def et_get_def kid_def kid_blocks_def tree_blocks_Suc demo_root_def demo_leaf_def)
  have i: "etree_inv demo_ops demo_sb {} deep_tree"
    unfolding etree_inv_def d f numeral_2_eq_2 tree_inv_Suc kid_inv_def
    by (simp add: deep_tree_def et_get_def kid_def kid_inv_def tree_inv_Suc head_ok_def node_space_def ext_root_ok_def ext4_ext_space_block_def
        ext4_ext_space_block_idx_def ext4_ext_space_root_idx_def eh_entries_def demo_ext_defs demo_sb_def)
  have s: "seek (et_node deep_tree) (ext_depth deep_tree) (et_root deep_tree) None 2 = ([(None, 0), (Some 40, 0)], Some 41)"
    unfolding d numeral_2_eq_2
    by (simp add: deep_tree_def et_get_def kid_at_def demo_root_def one_key Let_def)
  have lf: "et_node deep_tree (Some 41) = Some ?lf" "\<not> has_free ?lf" "Suc 0 < length (eh_exts ?lf)"
    by (simp_all add: deep_tree_def has_free_def eh_entries_def demo_leaf_def demo_ext_def)
  have k: "ext4_ext_binsearch ?lf 2 = Some 0" using binsearch_pos [of demo_ops ?lf 2] by (simp add: flat_pos_def demo_ext_defs)
  have p: "fresh_pool deep_tree" "et_pool deep_tree = 50 # []" by (simp_all add: fresh_pool_def f) (simp_all add: deep_tree_def)
  have e: "- EIO \<noteq> (0 :: int)" by simp
  from failed_split_loses [OF demo_sizes i _ s lf(1,2) k lf(3) p e, of ?A "demo_ext 2 1 200"] obtain T' as bs where
    "ext4_ext_split ?A demo_ops demo_sb [(None, 0), (Some 40, 0)] (Some 41) 0 (demo_ext 2 1 200) 1 deep_tree = (- EIO, T')"
    "file_exts deep_tree = as @ [demo_ext 4 1 104] @ bs" "file_exts T' = as @ bs" "et_freed T' = et_freed deep_tree @ [50]"
    by (auto simp: d demo_leaf_def)
  moreover have "as = [demo_ext 0 1 100]" "bs = []"
    using calculation(2) f(1) by (auto simp: append_eq_Cons_conv Cons_eq_append_conv demo_ext_def)
  moreover have "et_freed deep_tree = []" by (simp add: deep_tree_def)
  ultimately show ?thesis using f(1) by auto
qed

section \<open>A file from its creation on\<close>

text \<open>\<open>ext4_ext_tree_init\<close>: the header of an empty file.\<close>

definition ext4_ext_tree_init :: "ext_ops \<Rightarrow> etree \<Rightarrow> etree" where
  "ext4_ext_tree_init X T =
     et_put None \<lparr>eh_magic = EXT4_EXT_MAGIC X, eh_max = of_nat (ext4_ext_space_root X), eh_depth = 0, eh_exts = [], eh_idxs = []\<rparr> T"

text \<open>
  The trees that insertions build, with what was inserted: each insertion goes through the path that \<open>ext4_find_extent\<close> returns, and the
  allocator offers new blocks each time.
\<close>

inductive ext_file :: "ext_ops \<Rightarrow> super_block \<Rightarrow> ext4_extent list \<Rightarrow> etree \<Rightarrow> bool" for X sb where
  file_new: "ext_file X sb [] (ext4_ext_tree_init X T)"
| file_insert: "ext_file X sb ns T \<Longrightarrow> ext_depth T < EXT4_MAX_EXTENT_DEPTH X \<Longrightarrow> fresh_pool (T\<lparr>et_pool := ps\<rparr>) \<Longrightarrow> ext_depth T + 2 \<le> length ps \<Longrightarrow>
    fits_in X ns n \<Longrightarrow> ext4_find_extent X True (et_read (et_node T)) (et_root T) (ee_block n) = Inr path \<Longrightarrow>
    ext_insert_extent (\<lambda>c. 0) X sb pre_io path n (T\<lparr>et_pool := ps\<rparr>) = Some (err, T') \<Longrightarrow> ext_file X sb (n # ns) T'"

inductive_cases ext_file_ConsE: "ext_file X sb (n # ns) T"

lemma pool_irrelevant [simp]:
  "et_get (T\<lparr>et_pool := ps\<rparr>) l = et_get T l" "ext_depth (T\<lparr>et_pool := ps\<rparr>) = ext_depth T" "file_exts (T\<lparr>et_pool := ps\<rparr>) = file_exts T"
  "file_blocks (T\<lparr>et_pool := ps\<rparr>) = file_blocks T" "etree_inv X sb Z (T\<lparr>et_pool := ps\<rparr>) = etree_inv X sb Z T"
  by (simp_all add: et_get_def ext_depth_def file_exts_def file_blocks_def etree_inv_def)

lemma init_ok:
  assumes "size_laws X sb"
  shows "etree_inv X sb {} (ext4_ext_tree_init X T)" "file_exts (ext4_ext_tree_init X T) = []"
proof -
  have sr: "unat (of_nat (ext4_ext_space_root X) :: u16) = ext4_ext_space_root X"
    using assms by (intro unat_of_nat_u16) (simp add: size_laws_def)
  have g: "et_root (ext4_ext_tree_init X T) =
      \<lparr>eh_magic = EXT4_EXT_MAGIC X, eh_max = of_nat (ext4_ext_space_root X), eh_depth = 0, eh_exts = [], eh_idxs = []\<rparr>"
    by (simp add: ext4_ext_tree_init_def et_get_def)
  then have d: "ext_depth (ext4_ext_tree_init X T) = 0" by (simp add: ext_depth_def)
  then show f: "file_exts (ext4_ext_tree_init X T) = []" by (simp add: file_exts_def g)
  show "etree_inv X sb {} (ext4_ext_tree_init X T)"
    using assms sr by (simp add: etree_inv_def d g file_blocks_def ext_root_ok_def eh_entries_def size_laws_def) (simp add: ext4_ext_tree_init_def)
qed

text \<open>Two lists with the same mapping leave room for the same extents.\<close>

lemma fits_same_map:
  assumes "exts_ok X es" "\<forall>lb. ext_lookup X es lb = ext_lookup X fs lb" "fits_in X fs n"
  shows "fits_in X es n"
proof -
  have "ext_end X e \<le> ext_start n \<or> ext_end X n \<le> ext_start e" if e: "e \<in> set es" for e
  proof (rule ccontr)
    assume ov: "\<not> (ext_end X e \<le> ext_start n \<or> ext_end X n \<le> ext_start e)"
    let ?lb = "max (ext_start e) (ext_start n)"
    have "ext_start e < ext_end X e" "ext_start n < ext_end X n"
      using assms(1,3) e by (auto simp: exts_ok_def fits_in_def ext_ok_def ext_end_def ext_start_def)
    then have c: "covers X e ?lb" "covers X n ?lb" using ov by (auto simp: covers_def)
    then have "ext_lookup X fs ?lb \<noteq> None" using e assms(2) ext_lookup_None [of X es ?lb] by auto
    then obtain f where "f \<in> set fs" "covers X f ?lb" unfolding ext_lookup_None by blast
    then show False using fits_disjoint [OF assms(3)] c(2) by blast
  qed
  then show ?thesis using assms(3) by (auto simp: fits_in_def)
qed

lemma ext_file_ok:
  assumes "ext_laws X" "size_laws X sb" "ext_file X sb ns T"
  shows "etree_inv X sb {} T \<and> (\<forall>lb. ext_lookup X (file_exts T) lb = ext_lookup X ns lb)"
  using assms(3)
proof induction
  case (file_insert ns T ps n path pre_io err T')
  have ex: "exts_ok X (file_exts T)" using file_insert.IH tree_inv_exts by (auto simp: etree_inv_def file_exts_def)
  have fi: "fits_in X (file_exts T) n" using fits_same_map [OF ex _ file_insert.hyps(5)] file_insert.IH by blast
  have "insert_result X sb n (T\<lparr>et_pool := ps\<rparr>) (ext_insert_extent (\<lambda>c. 0) X sb pre_io path n (T\<lparr>et_pool := ps\<rparr>))"
    by (rule tree_insert [OF _ assms(1,2)]) (use file_insert fi in simp_all)
  then show ?case using file_insert.hyps(7) file_insert.IH by (auto simp: insert_result_def)
qed (use init_ok [OF assms(2)] in simp)

text \<open>What \<open>ext4_find_extent\<close> finds for a block is what the file maps it to.\<close>

lemma lookup_at_pos:
  assumes "exts_ok X es" "es \<noteq> []"
  shows "ext_lookup X es (unat b) = ext_lookup X [es ! flat_pos es b] (unat b)"
proof -
  let ?m = "length (filter (\<lambda>e. ee_block e \<le> b) es)" and ?k = "flat_pos es b"
  note ft = sorted_filter_take [OF exts_ok_starts [OF assms(1)], of b]
  have kl: "?k < length es" by (rule flat_pos_less [OF assms(2)])
  have sp: "es = take ?k es @ es ! ?k # drop (Suc ?k) es" by (rule id_take_nth_drop [OF kl])
  have hi: "\<not> covers X f (unat b)" if "f \<in> set (drop ?m es)" for f
    using ft that by (auto simp: covers_def ext_start_def word_less_nat_alt)
  have d: "set (drop (Suc ?k) es) \<subseteq> set (drop ?m es)" by (rule set_drop_subset_set_drop) (simp add: flat_pos_def)
  have lo: "\<not> covers X f (unat b)" if f: "f \<in> set (take ?k es)" for f
  proof -
    have "?k \<noteq> 0" using f by (cases "?k = 0") simp_all
    then have m: "?m = Suc ?k" by (simp add: flat_pos_def)
    have "es ! ?k \<in> set (filter (\<lambda>e. ee_block e \<le> b) es)" using ft m kl by (auto simp: in_set_conv_nth intro!: exI [of _ ?k])
    then have "ext_start (es ! ?k) \<le> unat b" by (simp add: ext_start_def word_le_nat_alt)
    moreover have "ext_end X f \<le> ext_start (es ! ?k)" using assms(1) f sp by (metis exts_ok_append list.set_intros(1))
    ultimately show ?thesis by (simp add: covers_def)
  qed
  have "ext_lookup X (take ?k es) (unat b) = None" "ext_lookup X (drop (Suc ?k) es) (unat b) = None"
    using lo hi d by (auto simp: ext_lookup_None)
  then show ?thesis by (subst sp) (simp add: ext_lookup_append)
qed

lemma find_maps:
  assumes "etree_inv X sb {} T" "ext_depth T \<le> EXT4_MAX_EXTENT_DEPTH X"
  shows "\<exists>path. ext4_find_extent X True (et_read (et_node T)) (et_root T) b = Inr path \<and>
    ext_lookup X (file_exts T) (unat b) = (case p_ext (last path) of None \<Rightarrow> None | Some k \<Rightarrow> ext_lookup X [eh_exts (p_hdr (last path)) ! k] (unat b))"
proof -
  let ?N = "et_node T" and ?d = "ext_depth T" and ?root = "et_root T"
  obtain lvls leaf where s: "seek ?N ?d ?root None b = (lvls, leaf)" by fastforce
  note op = seek_order [OF assms(1) s]
  obtain path lf where p: "ext4_find_extent X True (et_read ?N) ?root b = Inr path" "?N leaf = Some lf" "p_hdr (last path) = lf" "p_ext (last path) = ext4_ext_binsearch lf b"
    by (rule find_ok [OF _ assms s, of "\<lambda>c. 0"]) simp_all
  have t: "tree_inv X sb {} ?N ?d ?root" using assms(1) by (simp add: etree_inv_def)
  note ba = before_after_order [OF t root_node [OF assms(1)] s]
  have "ext_lookup X (before ?N ?d ?root lvls) (unat b) = None" "ext_lookup X (after ?N ?d ?root lvls) (unat b) = None"
    using ba by (auto simp: ext_lookup_None covers_def)
  then have l: "ext_lookup X (file_exts T) (unat b) = ext_lookup X (eh_exts lf) (unat b)"
    unfolding file_split [OF op p(2)] by (simp add: ext_lookup_append split: option.splits)
  have ex: "exts_ok X (eh_exts lf)" by (rule leaf_exts_ok(1) [OF assms(1) op p(2)])
  show ?thesis
  proof (cases "eh_exts lf = []")
    case True
    then show ?thesis using p l by (intro exI [of _ path]) (simp add: ext4_ext_binsearch_def)
  next
    case False
    then show ?thesis using p l binsearch_pos [OF ex False, of b] lookup_at_pos [OF ex False, of b] by (intro exI [of _ path]) simp
  qed
qed

text \<open>
  C11 inserted_found: a file that is built by any sequence of insertions of extents that do not overlap, in any order, joined, split and grown
  as it may be, keeps the invariant of the tree, and for every block \<open>ext4_find_extent\<close> returns a path whose extent maps the block exactly as the
  inserted extents do, or maps it to nothing when none of them covers it.
\<close>

theorem inserted_found:
  assumes "ext_laws X" "size_laws X sb" "ext_file X sb ns T" "ext_depth T \<le> EXT4_MAX_EXTENT_DEPTH X"
  shows "etree_inv X sb {} T \<and> (\<forall>b. \<exists>path. ext4_find_extent X True (et_read (et_node T)) (et_root T) b = Inr path \<and>
    ext_lookup X ns (unat b) = (case p_ext (last path) of None \<Rightarrow> None | Some k \<Rightarrow> ext_lookup X [eh_exts (p_hdr (last path)) ! k] (unat b)))"
  using ext_file_ok [OF assms(1-3)] find_maps [OF _ assms(4)] by metis

theorem inserted_found_witness:
  "\<exists>T path k. ext_file demo_ops demo_sb [demo_ext 3 2 200] T \<and>
     ext4_find_extent demo_ops True (et_read (et_node T)) (et_root T) 4 = Inr path \<and> p_ext (last path) = Some k \<and>
     ext_lookup demo_ops [eh_exts (p_hdr (last path)) ! k] 4 = Some (201, False)"
proof -
  let ?n = "demo_ext 3 2 200" and ?T = "ext4_ext_tree_init demo_ops \<lparr>et_node = (\<lambda>l. None), et_pool = [], et_freed = []\<rparr>" and ?ps = "[50, 51] :: u64 list"
  have d: "ext_depth ?T = 0" "file_blocks ?T = []" by (simp_all add: ext4_ext_tree_init_def tree_defs)
  have f: "ext_depth ?T < EXT4_MAX_EXTENT_DEPTH demo_ops" "fresh_pool (?T\<lparr>et_pool := ?ps\<rparr>)" "ext_depth ?T + 2 \<le> length ?ps" "fits_in demo_ops [] ?n"
    unfolding fresh_pool_def pool_irrelevant d by (simp_all add: fits_in_def demo_ext_defs)
  note i = init_ok [OF demo_sizes]
  let ?r = "et_root ?T"
  let ?p = "[\<lparr>p_hdr = ?r, p_idx = 0, p_ext = None\<rparr>]"
  have r: "eh_exts ?r = []" "eh_idxs ?r = []" "eh_depth ?r = 0" "eh_max ?r = 4" by (simp_all add: ext4_ext_tree_init_def tree_defs demo_ops_def)
  have p: "ext4_find_extent demo_ops True (et_read (et_node ?T)) ?r (ee_block ?n) = Inr ?p"
    by (simp add: ext4_find_extent_def Let_def r ext4_ext_binsearch_def)
  define T' where "T' = et_put None (?r\<lparr>eh_exts := [?n]\<rparr>) (?T\<lparr>et_pool := ?ps\<rparr>)"
  have m: "ext4_ext_try_to_merge demo_ops [?n] 0 = [?n]" by (simp add: ext4_ext_try_to_merge_def ext4_ext_try_to_merge_right_def)
  have t: "ext_insert_extent (\<lambda>c. 0) demo_ops demo_sb False ?p ?n (?T\<lparr>et_pool := ?ps\<rparr>) = Some (0, T')"
    by (simp add: ext_insert_extent_def insert_place_def insert_finish_def Let_def ext4_ext_get_access_def ext4_ext_dirty_def has_free_def eh_entries_def
        r leaf_place_def list_insert_def et_get_node ext4_ext_try_to_merge_up_def ext4_ext_correct_indexes_def m)
      (simp add: T'_def et_put_def demo_ext_defs)
  note built = file_insert [OF file_new f p t]
  have "ext_depth T' = 0" by (simp add: T'_def ext_depth_def et_get_node r)
  then have "ext_depth T' \<le> EXT4_MAX_EXTENT_DEPTH demo_ops" by simp
  note w = inserted_found [OF demo_ops_laws demo_sizes built this]
  have "ext_lookup demo_ops [?n] (unat (4 :: u32)) = Some (201, False)" by (simp add: covers_def image_of_def demo_ext_defs)
  with w obtain path where "ext4_find_extent demo_ops True (et_read (et_node T')) (et_root T') 4 = Inr path"
    "Some (201, False) = (case p_ext (last path) of None \<Rightarrow> None | Some k \<Rightarrow> ext_lookup demo_ops [eh_exts (p_hdr (last path)) ! k] (unat (4 :: u32)))"
    by metis
  then show ?thesis using built by (auto split: option.splits)
qed

end
