(* ===== verification/Ext4_Mount.thy ===== *)
theory Ext4_Mount
  imports Evfs_State
begin

unbundle bit_operations_syntax

text \<open>
  The checks of a mount: \<open>src/linux-6.8/fs/ext4/super.c\<close>, \<open>ext4_load_super\<close>, \<open>ext4_inode_info_init\<close>, \<open>ext4_block_group_meta_init\<close>,
  \<open>ext4_handle_clustersize\<close>, \<open>ext4_check_geometry\<close>, \<open>ext4_group_desc_init\<close> with \<open>ext4_check_descriptors\<close>,
  \<open>ext4_check_feature_compatibility\<close>, and the numbers derived from the geometry. Each step takes the superblock of the VFS and gives it back with
  the fields it sets, or an error. What passes has a sound geometry and descriptors inside the file system, up to a wrap-around in the test of
  the inode table.
\<close>

section \<open>Constants\<close>

definition EXT4_MIN_BLOCK_SIZE :: u64 where "EXT4_MIN_BLOCK_SIZE = 1024"
definition EXT4_MIN_BLOCK_LOG_SIZE :: u32 where "EXT4_MIN_BLOCK_LOG_SIZE = 10"
definition EXT4_MAX_BLOCK_LOG_SIZE :: u32 where "EXT4_MAX_BLOCK_LOG_SIZE = 16"
definition EXT4_MAX_CLUSTER_LOG_SIZE :: u32 where "EXT4_MAX_CLUSTER_LOG_SIZE = 30"
definition EXT4_MIN_DESC_SIZE :: u64 where "EXT4_MIN_DESC_SIZE = 32"
definition EXT4_MAX_DESC_SIZE :: u64 where "EXT4_MAX_DESC_SIZE = EXT4_MIN_BLOCK_SIZE"
definition EXT4_NDIR_BLOCKS :: int where "EXT4_NDIR_BLOCKS = 12"
definition EXT4_MAX_BLOCK_FILE_PHYS :: u64 where "EXT4_MAX_BLOCK_FILE_PHYS = 0xFFFFFFFF"
definition EXT4_MOUNT2_STD_GROUP_SIZE :: u32 where "EXT4_MOUNT2_STD_GROUP_SIZE = 2"
definition EXT4_BG_INODE_ZEROED :: u16 where "EXT4_BG_INODE_ZEROED = 4"

lemmas mount_consts = EXT4_MIN_BLOCK_SIZE_def EXT4_MIN_BLOCK_LOG_SIZE_def EXT4_MAX_BLOCK_LOG_SIZE_def EXT4_MAX_CLUSTER_LOG_SIZE_def
  EXT4_MIN_DESC_SIZE_def EXT4_MAX_DESC_SIZE_def EXT4_NDIR_BLOCKS_def EXT4_MAX_BLOCK_FILE_PHYS_def

abbreviation EXT4_BLOCKS_PER_GROUP :: "super_block \<Rightarrow> u64" where
  "EXT4_BLOCKS_PER_GROUP sb \<equiv> s_blocks_per_group (EXT4_SB sb)"

abbreviation EXT4_DESC_PER_BLOCK :: "super_block \<Rightarrow> u64" where
  "EXT4_DESC_PER_BLOCK sb \<equiv> s_desc_per_block (EXT4_SB sb)"

definition set_sbi :: "(ext4_sb_info \<Rightarrow> ext4_sb_info) \<Rightarrow> super_block \<Rightarrow> super_block" where
  "set_sbi f sb = sb\<lparr>s_fs_info := f (s_fs_info sb)\<rparr>"

lemma EXT4_SB_set_sbi [simp]: "EXT4_SB (set_sbi f sb) = f (EXT4_SB sb)"
  by (simp add: EXT4_SB_def set_sbi_def)

lemma sb_set_sbi [simp]:
  "s_blocksize (set_sbi f sb) = s_blocksize sb" "s_blocksize_bits (set_sbi f sb) = s_blocksize_bits sb" "sb_rdonly (set_sbi f sb) = sb_rdonly sb"
  by (simp_all add: set_sbi_def)

definition is_power_of_2 :: "u64 \<Rightarrow> bool" where
  "is_power_of_2 n = (n \<noteq> 0 \<and> n AND (n - 1) = 0)"

section \<open>Reading the superblock\<close>

text \<open>
  \<open>ext4_load_super\<close>: \<open>min_bs\<close> is the answer of \<open>sb_min_blocksize\<close>, \<open>bread\<close> reads the superblock at an offset in a block of
  a given size and gives its magic number too, \<open>set_ok\<close> is the answer of \<open>sb_set_blocksize\<close>.
\<close>

definition EXT4_SUPER_MAGIC :: u16 where "EXT4_SUPER_MAGIC = 0xEF53"

definition ext4_load_super ::
    "u64 \<Rightarrow> (u64 \<Rightarrow> u64 \<Rightarrow> u64 \<Rightarrow> int + (u16 \<times> ext4_super_block)) \<Rightarrow> (u64 \<Rightarrow> bool) \<Rightarrow> u64 \<Rightarrow> super_block \<Rightarrow> int + (super_block \<times> u64)" where
  "ext4_load_super min_bs bread set_ok s_sb_block sb =
     (if min_bs = 0 then Inl (- EINVAL)
      else (let pos = s_sb_block * EXT4_MIN_BLOCK_SIZE;
                lsb = (if min_bs \<noteq> EXT4_MIN_BLOCK_SIZE then pos div min_bs else s_sb_block);
                offset = (if min_bs \<noteq> EXT4_MIN_BLOCK_SIZE then pos mod min_bs else 0)
            in case bread min_bs lsb offset of
                 Inl err \<Rightarrow> Inl err
               | Inr (magic, es) \<Rightarrow>
                   if magic \<noteq> EXT4_SUPER_MAGIC then Inl (- EINVAL)
                   else if es_log_block_size es > EXT4_MAX_BLOCK_LOG_SIZE - EXT4_MIN_BLOCK_LOG_SIZE then Inl (- EINVAL)
                   else if es_log_cluster_size es > EXT4_MAX_CLUSTER_LOG_SIZE - EXT4_MIN_BLOCK_LOG_SIZE then Inl (- EINVAL)
                   else (let blocksize = push_bit (unat (es_log_block_size es)) EXT4_MIN_BLOCK_SIZE;
                             sized = (\<lambda>es'. (upd_es (\<lambda>_. es') sb)\<lparr>s_blocksize := blocksize,
                                        s_blocksize_bits := unat EXT4_MIN_BLOCK_LOG_SIZE + unat (es_log_block_size es)\<rparr>)
                         in if min_bs = blocksize then Inr (sized es, lsb)
                            else if \<not> set_ok blocksize then Inl (- EINVAL)
                            else (case bread blocksize (pos div blocksize) (pos mod blocksize) of
                                    Inl err \<Rightarrow> Inl err
                                  | Inr (magic, es) \<Rightarrow>
                                      if magic \<noteq> EXT4_SUPER_MAGIC then Inl (- EINVAL) else Inr (sized es, pos div blocksize)))))"

section \<open>Sizes of inodes, descriptors and groups\<close>

text \<open>
  \<open>ext4_inode_info_init\<close>: \<open>want\<close> and \<open>mini\<close> are the fields \<open>s_want_extra_isize\<close> and \<open>s_min_extra_isize\<close> of the superblock. The answer is the
  superblock with \<open>s_want_extra_isize\<close> and whether inodes have room for the extra bits of time stamps; these are left as they were
  (\<open>None\<close>) for the old revision. 144 is the end of \<open>i_atime_extra\<close> in the inode, 160 its size.
\<close>

definition ext4_inode_info_init :: "u16 \<Rightarrow> u16 \<Rightarrow> super_block \<Rightarrow> int + (super_block \<times> nat option \<times> bool option)" where
  "ext4_inode_info_init want mini sb =
     (let es = SB_ES sb; old = (es_rev_level es = EXT4_GOOD_OLD_REV);
          isize = ucast (if old then EXT4_GOOD_OLD_INODE_SIZE else es_inode_size es) :: u32;
          first = (if old then EXT4_GOOD_OLD_FIRST_INO else es_first_ino es);
          max_extra = unat isize - unat EXT4_GOOD_OLD_INODE_SIZE
      in if \<not> old \<and> first < EXT4_GOOD_OLD_FIRST_INO then Inl (- EINVAL)
         else if \<not> old \<and> (isize < ucast EXT4_GOOD_OLD_INODE_SIZE \<or> \<not> is_power_of_2 (ucast isize) \<or> ucast isize > s_blocksize sb) then Inl (- EINVAL)
         else (let sb = set_sbi (\<lambda>sbi. sbi\<lparr>s_inode_size := isize, s_first_ino := first\<rparr>) sb;
                   extra = (if old then None else Some (144 \<le> isize))
               in if isize > ucast EXT4_GOOD_OLD_INODE_SIZE then
                    if ext4_has_feature_ro_compat EXT4_FEATURE_RO_COMPAT_EXTRA_ISIZE sb then
                      if unat want > max_extra \<or> unat mini > max_extra then Inl (- EINVAL)
                      else Inr (sb, Some (max (max (160 - unat EXT4_GOOD_OLD_INODE_SIZE) (unat want)) (unat mini)), extra)
                    else Inr (sb, Some (160 - unat EXT4_GOOD_OLD_INODE_SIZE), extra)
                  else Inr (sb, None, extra)))"

text \<open>\<open>ext4_max_size\<close> and \<open>ext4_max_bitmap_size\<close>; \<open>loff_t\<close> is signed, and the values stay in its range. \<open>MAX_LFS_FILESIZE\<close> is that of 64 bits.\<close>

definition MAX_LFS_FILESIZE :: int where "MAX_LFS_FILESIZE = 2 ^ 63 - 1"

definition ext4_max_size :: "nat \<Rightarrow> bool \<Rightarrow> int" where
  "ext4_max_size blkbits has_huge_files =
     (let upper_limit = (if \<not> has_huge_files then (2 ^ 32 - 1) div 2 ^ (blkbits - 9) * 2 ^ blkbits else MAX_LFS_FILESIZE);
          res = (2 ^ 32 - 1) * 2 ^ blkbits
      in if res > upper_limit then upper_limit else res)"

definition ext4_max_bitmap_size :: "nat \<Rightarrow> bool \<Rightarrow> int" where
  "ext4_max_bitmap_size bits has_huge_files =
     (let ppb = 2 ^ (bits - 2);
          upper_limit = (if \<not> has_huge_files then (2 ^ 32 - 1) div 2 ^ (bits - 9) else 2 ^ 48 - 1);
          res = EXT4_NDIR_BLOCKS + ppb + ppb * ppb + ppb * ppb * ppb;
          meta_blocks = 1 + (1 + ppb) + (1 + ppb + ppb * ppb);
          res = (if res + meta_blocks \<le> upper_limit then res
                 else (let rest = upper_limit - EXT4_NDIR_BLOCKS - ppb
                       in if rest < ppb * ppb then upper_limit - (1 + (1 + (rest + ppb - 1) div ppb))
                          else (let rest3 = rest - ppb * ppb
                                in upper_limit - (1 + (1 + ppb) + (1 + (rest3 + ppb - 1) div ppb + (rest3 + ppb * ppb - 1) div (ppb * ppb))))));
          res = res * 2 ^ bits
      in if res > MAX_LFS_FILESIZE then MAX_LFS_FILESIZE else res)"

text \<open>\<open>ilog2\<close> of the kernel, rounding down.\<close>

fun ilog2 :: "nat \<Rightarrow> nat" where
  "ilog2 n = (if n \<le> 1 then 0 else Suc (ilog2 (n div 2)))"

declare ilog2.simps [simp del]

definition EXT4_FC_REPLAY :: u16 where "EXT4_FC_REPLAY = 0x20"

definition ext4_block_group_meta_init :: "super_block \<Rightarrow> int + super_block" where
  "ext4_block_group_meta_init sb =
     (let es = SB_ES sb; bs = s_blocksize sb; wide = ext4_has_feature_64bit sb;
          desc_size = (if wide then ucast (es_desc_size es) else EXT4_MIN_DESC_SIZE);
          bpg = ucast (es_blocks_per_group es) :: u64; ipg = ucast (es_inodes_per_group es) :: u64;
          ipb = bs div ucast (s_inode_size (EXT4_SB sb))
      in if wide \<and> (desc_size < EXT4_MIN_DESC_SIZE_64BIT \<or> desc_size > EXT4_MAX_DESC_SIZE \<or> \<not> is_power_of_2 desc_size) then Inl (- EINVAL)
         else if ipb = 0 \<or> bpg = 0 then Inl (- EINVAL)
         else if ipg < ipb \<or> ipg > bs * 8 then Inl (- EINVAL)
         else Inr (set_sbi (\<lambda>sbi. sbi\<lparr>s_desc_size := desc_size, s_blocks_per_group := bpg, s_inodes_per_group := ipg, s_inodes_per_block := ipb,
                      s_itb_per_group := ipg div ipb, s_desc_per_block := bs div desc_size,
                      s_bitmap_maxbytes := ext4_max_bitmap_size (s_blocksize_bits sb) (ext4_has_feature_huge_file sb),
                      s_mount_state := es_state es AND NOT EXT4_FC_REPLAY, s_addr_per_block_bits := ilog2 (unat (bs div 4)),
                      s_desc_per_block_bits := ilog2 (unat (bs div desc_size))\<rparr>)
               (sb\<lparr>s_maxbytes := ext4_max_size (s_blocksize_bits sb) (ext4_has_feature_huge_file sb)\<rparr>)))"

text \<open>\<open>ext4_handle_clustersize\<close>; the size of a cluster is an \<open>int\<close>, which it fits into for the sizes that \<open>ext4_load_super\<close> accepts; eight
  times that size may not, and wraps.\<close>

definition ext4_handle_clustersize :: "super_block \<Rightarrow> int + super_block" where
  "ext4_handle_clustersize sb =
     (let sbi = EXT4_SB sb; es = s_es sbi; bs = s_blocksize sb;
          clustersize = push_bit (unat (es_log_cluster_size es)) (1024 :: u64);
          fin = (\<lambda>sbi. sbi\<lparr>s_cluster_ratio := ucast (clustersize div bs),
             s_mount_opt2 := (if s_blocks_per_group sbi = scast (push_bit 3 (ucast clustersize :: u32)) then s_mount_opt2 sbi OR EXT4_MOUNT2_STD_GROUP_SIZE else s_mount_opt2 sbi)\<rparr>)
      in if ext4_has_feature_bigalloc sb then
           (let cpg = ucast (es_clusters_per_group es) :: u64
            in if clustersize < bs then Inl (- EINVAL)
               else if cpg > bs * 8 then Inl (- EINVAL)
               else if s_blocks_per_group sbi \<noteq> cpg * (clustersize div bs) then Inl (- EINVAL)
               else Inr (set_sbi (\<lambda>sbi. fin (sbi\<lparr>s_cluster_bits := es_log_cluster_size es - es_log_block_size es, s_clusters_per_group := cpg\<rparr>)) sb))
         else if clustersize \<noteq> bs then Inl (- EINVAL)
         else if s_blocks_per_group sbi > bs * 8 then Inl (- EINVAL)
         else Inr (set_sbi (\<lambda>sbi. fin (sbi\<lparr>s_clusters_per_group := s_blocks_per_group sbi, s_cluster_bits := 0\<rparr>)) sb))"

text \<open>\<open>ext4_check_geometry\<close>: \<open>addressable\<close> is the answer of \<open>generic_check_addressable\<close>, \<open>dev_blocks\<close> that of \<open>sb_bdev_nr_blocks\<close>.\<close>

definition ext4_check_geometry :: "(nat \<Rightarrow> u64 \<Rightarrow> int) \<Rightarrow> u64 \<Rightarrow> super_block \<Rightarrow> int + super_block" where
  "ext4_check_geometry addressable dev_blocks sb =
     (let sbi = EXT4_SB sb; es = s_es sbi; total = ext4_blocks_count es; first = ucast (es_first_data_block es) :: u64;
          bpg = s_blocks_per_group sbi; err = addressable (s_blocksize_bits sb) total
      in if ucast (es_reserved_gdt_blocks es) > s_blocksize sb div 4 then Inl (- EINVAL)
         else if err \<noteq> 0 then Inl err
         else if dev_blocks \<noteq> 0 \<and> total > dev_blocks then Inl (- EINVAL)
         else if first \<ge> total then Inl (- EINVAL)
         else if es_first_data_block es = 0 \<and> es_log_block_size es = 0 \<and> s_cluster_ratio sbi = 1 then Inl (- EINVAL)
         else (let groups = (total - first + bpg - 1) div bpg
               in if groups > 2 ^ 32 - EXT4_DESC_PER_BLOCK sb then Inl (- EINVAL)
                  else (let gc = ucast groups :: u32
                        in if ucast gc * s_inodes_per_group sbi \<noteq> ucast (es_inodes_count es) then Inl (- EINVAL)
                           else Inr (set_sbi (\<lambda>sbi. sbi\<lparr>s_groups_count := gc,
                                  s_blockfile_groups := min gc (ucast (EXT4_MAX_BLOCK_FILE_PHYS div bpg))\<rparr>) sb))))"

section \<open>Group descriptors\<close>

definition ext4_group_first_block_no :: "super_block \<Rightarrow> u32 \<Rightarrow> u64" where
  "ext4_group_first_block_no sb group_no = ucast group_no * EXT4_BLOCKS_PER_GROUP sb + ucast (es_first_data_block (SB_ES sb))"

text \<open>\<open>descriptor_loc\<close>: \<open>has_super\<close> is \<open>ext4_bg_has_super\<close>.\<close>

definition descriptor_loc :: "(u32 \<Rightarrow> bool) \<Rightarrow> super_block \<Rightarrow> u64 \<Rightarrow> u32 \<Rightarrow> u64" where
  "descriptor_loc has_super sb logical_sb_block nr =
     (if \<not> ext4_has_feature_meta_bg sb \<or> nr < es_first_meta_bg (SB_ES sb) then logical_sb_block + ucast nr + 1
      else (let bg = ucast (EXT4_DESC_PER_BLOCK sb * ucast nr) :: u32;
                n = (if has_super bg then 1 else 0) +
                    (if s_blocksize sb = 1024 \<and> nr = 0 \<and> es_first_data_block (SB_ES sb) = 0 then 1 else 0)
            in n + ext4_group_first_block_no sb bg))"

text \<open>
  One group in \<open>ext4_check_descriptors\<close>: where a bitmap or the inode table starts, and with how many blocks it must end in the group.
  A block in the superblock or the descriptors is only reported when the file system is read-only.
\<close>

definition span_ok :: "bool \<Rightarrow> u64 \<Rightarrow> u64 \<Rightarrow> u64 \<Rightarrow> u64 \<Rightarrow> u64 \<Rightarrow> u64 \<Rightarrow> bool" where
  "span_ok rdonly sb_block last_bg_block first_block last_block n b =
     (if b = sb_block \<and> \<not> rdonly then False
      else if b \<ge> sb_block + 1 \<and> b \<le> last_bg_block \<and> \<not> rdonly then False
      else if b < first_block \<or> b + n - 1 > last_block then False
      else True)"

definition desc_ok :: "super_block \<Rightarrow> (u32 \<Rightarrow> ext4_group_desc \<Rightarrow> bool) \<Rightarrow> u64 \<Rightarrow> u64 \<Rightarrow> u64 \<Rightarrow> u64 \<Rightarrow> u32 \<Rightarrow> ext4_group_desc \<Rightarrow> bool" where
  "desc_ok sb csum_ok sb_block last_bg_block first_block last_block i gdp =
     (let ok = span_ok (sb_rdonly sb) sb_block last_bg_block first_block last_block
      in if \<not> ok 1 (ext4_block_bitmap sb gdp) then False
         else if \<not> ok 1 (ext4_inode_bitmap sb gdp) then False
         else if \<not> ok (s_itb_per_group (EXT4_SB sb)) (ext4_inode_table sb gdp) then False
         else if \<not> csum_ok i gdp \<and> \<not> sb_rdonly sb then False
         else True)"

text \<open>
  The loop over the descriptors of the groups from \<open>i\<close> on; \<open>grp\<close> is the first group whose inode table is not known to be zeroed.
\<close>

fun check_desc :: "super_block \<Rightarrow> (u32 \<Rightarrow> ext4_group_desc \<Rightarrow> bool) \<Rightarrow> u64 \<Rightarrow> u64 \<Rightarrow> ext4_group_desc list \<Rightarrow> nat \<Rightarrow> u64 \<Rightarrow> u32 \<Rightarrow> u32 option" where
  "check_desc sb csum_ok sb_block last_bg_block [] i first_block grp = Some grp"
| "check_desc sb csum_ok sb_block last_bg_block (gdp # gds) i first_block grp =
     (let groups = s_groups_count (EXT4_SB sb); flex = ext4_has_feature_flex_bg sb;
          last_block = (if of_nat i = groups - 1 \<or> flex then ext4_blocks_count (SB_ES sb) - 1 else first_block + (EXT4_BLOCKS_PER_GROUP sb - 1));
          grp = (if grp = groups \<and> bg_flags gdp AND EXT4_BG_INODE_ZEROED = 0 then of_nat i else grp)
      in if \<not> desc_ok sb csum_ok sb_block last_bg_block first_block last_block (of_nat i) gdp then None
         else check_desc sb csum_ok sb_block last_bg_block gds (Suc i) (if flex then first_block else first_block + EXT4_BLOCKS_PER_GROUP sb) grp)"

text \<open>\<open>gds\<close> are the descriptors of all groups, \<open>gdb\<close> is \<open>ext4_bg_num_gdb\<close> of the first group; the answer is \<open>first_not_zeroed\<close>.\<close>

definition ext4_check_descriptors :: "(u32 \<Rightarrow> ext4_group_desc \<Rightarrow> bool) \<Rightarrow> u64 \<Rightarrow> u64 \<Rightarrow> ext4_group_desc list \<Rightarrow> super_block \<Rightarrow> u32 option" where
  "ext4_check_descriptors csum_ok gdb sb_block gds sb =
     check_desc sb csum_ok sb_block (sb_block + gdb) gds 0 (ucast (es_first_data_block (SB_ES sb))) (s_groups_count (EXT4_SB sb))"

text \<open>
  \<open>ext4_group_desc_init\<close>: \<open>mem_ok\<close> says whether the array of buffers could be allocated, \<open>bread\<close> reads the descriptors of one block.
\<close>

fun read_descs :: "(u64 \<Rightarrow> int + ext4_group_desc list) \<Rightarrow> (u32 \<Rightarrow> u64) \<Rightarrow> nat list \<Rightarrow> int + ext4_group_desc list" where
  "read_descs bread loc [] = Inr []"
| "read_descs bread loc (i # is) =
     (case bread (loc (of_nat i)) of
        Inl err \<Rightarrow> Inl err
      | Inr gds \<Rightarrow> (case read_descs bread loc is of Inl err \<Rightarrow> Inl err | Inr rest \<Rightarrow> Inr (gds @ rest)))"

definition ext4_group_desc_init ::
    "bool \<Rightarrow> (u64 \<Rightarrow> int + ext4_group_desc list) \<Rightarrow> (u32 \<Rightarrow> bool) \<Rightarrow> u64 \<Rightarrow> (u32 \<Rightarrow> ext4_group_desc \<Rightarrow> bool) \<Rightarrow> u64 \<Rightarrow> super_block \<Rightarrow>
      int + (super_block \<times> ext4_group_desc list \<times> u32)" where
  "ext4_group_desc_init mem_ok bread has_super gdb csum_ok logical_sb_block sb =
     (let gc = s_groups_count (EXT4_SB sb);
          db_count = ucast ((ucast gc + EXT4_DESC_PER_BLOCK sb - 1) div EXT4_DESC_PER_BLOCK sb) :: u32
      in if ext4_has_feature_meta_bg sb \<and> es_first_meta_bg (SB_ES sb) > db_count then Inl (- EINVAL)
         else if \<not> mem_ok then Inl (- ENOMEM)
         else (case read_descs bread (descriptor_loc has_super sb logical_sb_block) [0 ..< unat db_count] of
                 Inl err \<Rightarrow> Inl err
               | Inr gds \<Rightarrow>
                   (let sb = set_sbi (\<lambda>sbi. sbi\<lparr>s_gdb_count := ucast db_count\<rparr>) sb
                    in case ext4_check_descriptors csum_ok gdb logical_sb_block (take (unat gc) gds) sb of
                         None \<Rightarrow> Inl (- EUCLEAN)
                       | Some first_not_zeroed \<Rightarrow> Inr (sb, take (unat gc) gds, first_not_zeroed))))"

section \<open>Numbers derived from the geometry\<close>

text \<open>\<open>ret\<close> is an \<open>int\<close>: a stripe of 0x80000000 blocks or more becomes negative there and is dropped.\<close>

definition ext4_get_stripe_size :: "ext4_sb_info \<Rightarrow> u64" where
  "ext4_get_stripe_size sbi =
     (let stride = ucast (es_raid_stride (s_es sbi)); stripe_width = ucast (es_raid_stripe_width (s_es sbi)); bpg = s_blocks_per_group sbi;
          r = (if s_stripe sbi \<noteq> 0 \<and> s_stripe sbi \<le> bpg then s_stripe sbi
               else if stripe_width \<noteq> 0 \<and> stripe_width \<le> bpg then stripe_width
               else if stride \<noteq> 0 \<and> stride \<le> bpg then stride else 0);
          ret = ucast r :: u32
      in if sint ret \<le> 1 then 0 else scast ret)"

text \<open>What \<open>__ext4_fill_super\<close> makes of it.\<close>

definition mount_stripe :: "ext4_sb_info \<Rightarrow> u64" where
  "mount_stripe sbi =
     (let s = ext4_get_stripe_size sbi
      in if s > 0 \<and> s_cluster_ratio sbi > 1 \<and> s mod ucast (s_cluster_ratio sbi) \<noteq> 0 then 0 else s)"

definition ext4_set_resv_clusters :: "super_block \<Rightarrow> super_block" where
  "ext4_set_resv_clusters sb =
     (if \<not> ext4_has_feature_extents sb then sb
      else set_sbi (\<lambda>sbi. sbi\<lparr>s_resv_clusters := min (drop_bit (unat (s_cluster_bits sbi)) (ext4_blocks_count (s_es sbi)) div 50) 4096\<rparr>) sb)"

section \<open>Features\<close>

definition EXT2_FEATURE_INCOMPAT_SUPP :: u32 where "EXT2_FEATURE_INCOMPAT_SUPP = EXT4_FEATURE_INCOMPAT_FILETYPE OR EXT4_FEATURE_INCOMPAT_META_BG"
definition EXT2_FEATURE_RO_COMPAT_SUPP :: u32 where
  "EXT2_FEATURE_RO_COMPAT_SUPP = EXT4_FEATURE_RO_COMPAT_SPARSE_SUPER OR EXT4_FEATURE_RO_COMPAT_LARGE_FILE OR EXT4_FEATURE_RO_COMPAT_BTREE_DIR"
definition EXT3_FEATURE_INCOMPAT_SUPP :: u32 where
  "EXT3_FEATURE_INCOMPAT_SUPP = EXT4_FEATURE_INCOMPAT_FILETYPE OR EXT4_FEATURE_INCOMPAT_RECOVER OR EXT4_FEATURE_INCOMPAT_META_BG"
definition EXT3_FEATURE_RO_COMPAT_SUPP :: u32 where
  "EXT3_FEATURE_RO_COMPAT_SUPP = EXT4_FEATURE_RO_COMPAT_SPARSE_SUPER OR EXT4_FEATURE_RO_COMPAT_LARGE_FILE OR EXT4_FEATURE_RO_COMPAT_BTREE_DIR"

definition ext2_feature_set_ok :: "super_block \<Rightarrow> bool" where
  "ext2_feature_set_ok sb =
     (if es_feature_incompat (SB_ES sb) AND NOT EXT2_FEATURE_INCOMPAT_SUPP \<noteq> 0 then False
      else if sb_rdonly sb then True
      else if es_feature_ro_compat (SB_ES sb) AND NOT EXT2_FEATURE_RO_COMPAT_SUPP \<noteq> 0 then False
      else True)"

definition ext3_feature_set_ok :: "super_block \<Rightarrow> bool" where
  "ext3_feature_set_ok sb =
     (if es_feature_incompat (SB_ES sb) AND NOT EXT3_FEATURE_INCOMPAT_SUPP \<noteq> 0 then False
      else if \<not> ext4_has_feature_journal sb then False
      else if sb_rdonly sb then True
      else if es_feature_ro_compat (SB_ES sb) AND NOT EXT3_FEATURE_RO_COMPAT_SUPP \<noteq> 0 then False
      else True)"

text \<open>
  \<open>ext4_check_feature_compatibility\<close>: as which file system it is mounted (\<open>IS_EXT2_SB\<close>, \<open>IS_EXT3_SB\<close>), whether the device has direct access and
  the mount options ask for it, and the size of a page.
\<close>

definition EXT4_OS_HURD :: u32 where "EXT4_OS_HURD = 1"
definition EXT4_MOUNT2_HURD_COMPAT :: u32 where "EXT4_MOUNT2_HURD_COMPAT = 4"

definition ext4_check_feature_compatibility ::
    "bool \<Rightarrow> bool \<Rightarrow> bool \<Rightarrow> bool \<Rightarrow> bool \<Rightarrow> bool \<Rightarrow> u64 \<Rightarrow> super_block \<Rightarrow> int + super_block" where
  "ext4_check_feature_compatibility CONFIG_UNICODE CONFIG_QUOTA is_ext2 is_ext3 daxdev dax_always page_size sb =
     (let hurd = (es_creator_os (SB_ES sb) = EXT4_OS_HURD);
          sb = (if hurd then set_sbi (\<lambda>sbi. sbi\<lparr>s_mount_opt2 := s_mount_opt2 sbi OR EXT4_MOUNT2_HURD_COMPAT\<rparr>) sb else sb)
      in if hurd \<and> (ext4_has_feature_64bit sb \<or> ext4_has_feature_incompat EXT4_FEATURE_INCOMPAT_EA_INODE sb) then Inl (- EINVAL)
         else if is_ext2 \<and> \<not> ext2_feature_set_ok sb then Inl (- EINVAL)
         else if is_ext3 \<and> \<not> ext3_feature_set_ok sb then Inl (- EINVAL)
         else (case ext4_feature_set_ok CONFIG_UNICODE CONFIG_QUOTA sb (sb_rdonly sb) of
                 (ok, sb) \<Rightarrow>
                   if \<not> ok then Inl (- EINVAL)
                   else if dax_always \<and> ext4_has_feature_incompat EXT4_FEATURE_INCOMPAT_INLINE_DATA sb then Inl (- EINVAL)
                   else if dax_always \<and> \<not> (daxdev \<and> s_blocksize sb = page_size) then Inl (- EINVAL)
                   else if ext4_has_feature_incompat EXT4_FEATURE_INCOMPAT_ENCRYPT sb \<and> es_encryption_level (SB_ES sb) \<noteq> 0 then Inl (- EINVAL)
                   else Inr sb))"

section \<open>The checks of a mount, one after another\<close>

text \<open>
  What a mount gets from outside of \<open>super.c\<close>: the answers of the device and of the VFS, the options, and the two fields of the
  superblock that only \<open>ext4_inode_info_init\<close> reads.
\<close>

record mount_env =
  me_min_blocksize :: u64
  me_bread :: "u64 \<Rightarrow> u64 \<Rightarrow> u64 \<Rightarrow> int + (u16 \<times> ext4_super_block)"
  me_set_blocksize :: "u64 \<Rightarrow> bool"
  me_sb_block :: u64
  me_want_extra :: u16
  me_min_extra :: u16
  me_unicode :: bool
  me_quota :: bool
  me_ext2 :: bool
  me_ext3 :: bool
  me_daxdev :: bool
  me_dax_always :: bool
  me_page_size :: u64
  me_addressable :: "nat \<Rightarrow> u64 \<Rightarrow> int"
  me_dev_blocks :: u64

text \<open>
  What \<open>__ext4_fill_super\<close> does to the geometry, in its order; the steps between (checksum driver, options, encodings, hash seed) do not change the
  fields that the checks read.
\<close>

definition mount_geometry :: "mount_env \<Rightarrow> super_block \<Rightarrow> int + (super_block \<times> u64)" where
  "mount_geometry E sb =
     (case ext4_load_super (me_min_blocksize E) (me_bread E) (me_set_blocksize E) (me_sb_block E) sb of
        Inl err \<Rightarrow> Inl err
      | Inr (sb, lsb) \<Rightarrow>
          (case ext4_inode_info_init (me_want_extra E) (me_min_extra E) sb of
             Inl err \<Rightarrow> Inl err
           | Inr (sb, want_extra, extra) \<Rightarrow>
               (case ext4_check_feature_compatibility (me_unicode E) (me_quota E) (me_ext2 E) (me_ext3 E) (me_daxdev E) (me_dax_always E) (me_page_size E) sb of
                  Inl err \<Rightarrow> Inl err
                | Inr sb \<Rightarrow>
                    (case ext4_block_group_meta_init sb of
                       Inl err \<Rightarrow> Inl err
                     | Inr sb \<Rightarrow>
                         (case ext4_handle_clustersize sb of
                            Inl err \<Rightarrow> Inl err
                          | Inr sb \<Rightarrow>
                              (case ext4_check_geometry (me_addressable E) (me_dev_blocks E) sb of Inl err \<Rightarrow> Inl err | Inr sb \<Rightarrow> Inr (sb, lsb)))))))"

section \<open>Powers of two\<close>

lemma unat_up [simp]: "unat (ucast (w :: u32) :: u64) = unat w"
  using unsigned_less [of w, where 'a = nat] by (simp add: unsigned_ucast_eq take_bit_nat_eq_self)

lemma unat_up16 [simp]: "unat (ucast (w :: u16) :: u64) = unat w"
  using unsigned_less [of w, where 'a = nat] by (simp add: unsigned_ucast_eq take_bit_nat_eq_self)

lemma pow2_nat: "m \<noteq> 0 \<Longrightarrow> m AND (m - 1) = 0 \<Longrightarrow> \<exists>j. m = 2 ^ j" for m :: nat
proof (induction m rule: less_induct)
  case (less m)
  show ?case
  proof (cases "even m")
    case True
    then obtain a where a: "m = 2 * a" "a \<noteq> 0" using less.prems(1) by auto
    have "(2 * a) AND (2 * a - 1) = 2 * (a AND (a - 1))"
      using a(2) by (subst and_nat_unfold) (cases a; auto)
    then have "a AND (a - 1) = 0" using less.prems(2) a(1) by simp
    then obtain j where "a = 2 ^ j" using less.IH [of a] a by auto
    then show ?thesis using a(1) by (intro exI [of _ "Suc j"]) simp
  next
    case False
    then obtain a where a: "m = 2 * a + 1" by (auto elim: oddE)
    have "(2 * a + 1) AND (2 * a) = 2 * a" by (subst and_nat_unfold) auto
    then have "m = 1" using less.prems(2) a by simp
    then show ?thesis by (intro exI [of _ 0]) simp
  qed
qed

lemma pow2_word:
  assumes "is_power_of_2 n"
  obtains j where "unat n = 2 ^ j"
proof -
  have n: "n \<noteq> 0" "n AND (n - 1) = 0" using assms by (simp_all add: is_power_of_2_def)
  have "unat n AND (unat n - 1) = 0"
    using arg_cong [OF n(2), of unat] n(1) by (simp add: unsigned_and_eq unat_minus_one)
  then show thesis using pow2_nat [of "unat n"] n(1) that by (auto simp: unat_eq_0)
qed

lemma pow2_between: "2 ^ a \<le> (2 :: nat) ^ j \<Longrightarrow> 2 ^ j \<le> (2 :: nat) ^ b \<Longrightarrow> a \<le> j \<and> j \<le> b"
  by (simp add: power_increasing_iff)

lemma unat_push_1024:
  assumes "l \<le> 20"
  shows "unat (push_bit l (1024 :: u64)) = 2 ^ (10 + l)"
proof -
  have lt: "(2 :: nat) ^ (10 + l) < 2 ^ 64" using assms by (intro power_strict_increasing) simp_all
  have "push_bit l (1024 :: u64) = of_nat (2 ^ (10 + l))" by (simp add: push_bit_eq_mult power_add)
  then show ?thesis using lt assms by (simp add: unsigned_of_nat take_bit_nat_eq_self del: of_nat_power)
qed

section \<open>What each step makes sure of\<close>

text \<open>The laws of the device: the same bytes are read whatever the size of the block, and what is addressable has a bound.\<close>

definition same_disk :: "(u64 \<Rightarrow> u64 \<Rightarrow> u64 \<Rightarrow> int + (u16 \<times> ext4_super_block)) \<Rightarrow> bool" where
  "same_disk bread \<longleftrightarrow> (\<forall>bs b off bs' b' off'. b * bs + off = b' * bs' + off' \<longrightarrow> (\<forall>x y. bread bs b off = Inr x \<longrightarrow> bread bs' b' off' = Inr y \<longrightarrow> x = y))"

definition addressable_law :: "(nat \<Rightarrow> u64 \<Rightarrow> int) \<Rightarrow> bool" where
  "addressable_law addressable \<longleftrightarrow> (\<forall>bits n. addressable bits n = 0 \<longrightarrow> unat n \<le> 2 ^ (73 - bits))"

lemma ilog2_power [simp]: "ilog2 (2 ^ k) = k"
proof (induction k)
  case (Suc k)
  have "\<not> (2 :: nat) ^ Suc k \<le> 1" using one_less_power [of "2 :: nat" "Suc k"] by (simp only: not_le)
  then show ?case using Suc by (subst ilog2.simps) simp
qed (simp add: ilog2.simps)

lemma load_super_ok:
  assumes "ext4_load_super min_bs bread set_ok s_sb_block sb = Inr (sb', lsb)" "same_disk bread"
  shows "\<exists>k c. k \<le> 6 \<and> c \<le> 20 \<and> es_log_block_size (SB_ES sb') = of_nat k \<and> es_log_cluster_size (SB_ES sb') = of_nat c \<and>
    unat (s_blocksize sb') = 2 ^ (10 + k) \<and> s_blocksize_bits sb' = 10 + k"
proof -
  let ?pos = "s_sb_block * EXT4_MIN_BLOCK_SIZE"
  let ?lsb = "if min_bs \<noteq> EXT4_MIN_BLOCK_SIZE then ?pos div min_bs else s_sb_block"
  let ?off = "if min_bs \<noteq> EXT4_MIN_BLOCK_SIZE then ?pos mod min_bs else 0"
  have at: "?lsb * min_bs + ?off = ?pos" by (simp add: div_mult_mod_eq)
  obtain magic es where r: "bread min_bs ?lsb ?off = Inr (magic, es)" "min_bs \<noteq> 0"
    using assms(1) unfolding ext4_load_super_def Let_def by (auto split: if_splits sum.splits)
  define bs where "bs = push_bit (unat (es_log_block_size es)) EXT4_MIN_BLOCK_SIZE"
  have c: "es_log_block_size es \<le> 6" "es_log_cluster_size es \<le> 20"
    using assms(1) r unfolding ext4_load_super_def Let_def by (auto simp: mount_consts not_less split: if_splits)
  have sb': "SB_ES sb' = es \<and> s_blocksize sb' = bs \<and> s_blocksize_bits sb' = 10 + unat (es_log_block_size es)"
  proof (cases "min_bs = bs")
    case True
    then show ?thesis using assms(1) r unfolding ext4_load_super_def Let_def bs_def
      by (auto simp: mount_consts EXT4_SB_def upd_es_def split: if_splits)
  next
    case False
    then obtain m2 es2 where r2: "bread bs (?pos div bs) (?pos mod bs) = Inr (m2, es2)"
      "sb' = (upd_es (\<lambda>_. es2) sb)\<lparr>s_blocksize := bs, s_blocksize_bits := unat EXT4_MIN_BLOCK_LOG_SIZE + unat (es_log_block_size es)\<rparr>"
      using assms(1) r unfolding ext4_load_super_def Let_def bs_def by (auto split: if_splits sum.splits)
    have "(?pos div bs) * bs + ?pos mod bs = ?lsb * min_bs + ?off" using at by (simp add: div_mult_mod_eq)
    then have "(m2, es2) = (magic, es)" using assms(2) r(1) r2(1) unfolding same_disk_def by blast
    then show ?thesis using r2(2) by (simp add: EXT4_SB_def upd_es_def mount_consts)
  qed
  define k c where kc: "k = unat (es_log_block_size es)" "c = unat (es_log_cluster_size es)"
  have "k \<le> 6" "c \<le> 20" using c by (simp_all add: kc word_le_nat_alt)
  moreover have "unat bs = 2 ^ (10 + k)" unfolding bs_def kc(1) [symmetric] mount_consts using \<open>k \<le> 6\<close> by (intro unat_push_1024) simp
  ultimately show ?thesis using sb' by (intro exI [of _ k] exI [of _ c]) (simp add: kc)
qed

text \<open>The fields that a step leaves alone.\<close>

definition keeps_sizes :: "super_block \<Rightarrow> super_block \<Rightarrow> bool" where
  "keeps_sizes sb sb' \<longleftrightarrow> SB_ES sb' = SB_ES sb \<and> s_blocksize sb' = s_blocksize sb \<and> s_blocksize_bits sb' = s_blocksize_bits sb"

lemma inode_info_ok:
  assumes "ext4_inode_info_init want mini sb = Inr (sb', we, ex)" "unat (s_blocksize sb) = 2 ^ k" "10 \<le> k"
  shows "keeps_sizes sb sb'" "\<exists>j. 7 \<le> j \<and> j \<le> k \<and> unat (s_inode_size (EXT4_SB sb')) = 2 ^ j" "11 \<le> s_first_ino (EXT4_SB sb')"
proof -
  define old where "old = (es_rev_level (SB_ES sb) = EXT4_GOOD_OLD_REV)"
  define isize :: u32 where "isize = ucast (if old then EXT4_GOOD_OLD_INODE_SIZE else es_inode_size (SB_ES sb))"
  define first where "first = (if old then EXT4_GOOD_OLD_FIRST_INO else es_first_ino (SB_ES sb))"
  have c: "old \<or> (128 \<le> isize \<and> is_power_of_2 (ucast isize) \<and> ucast isize \<le> s_blocksize sb)" "old \<or> 11 \<le> first"
    and sb': "sb' = set_sbi (\<lambda>sbi. sbi\<lparr>s_inode_size := isize, s_first_ino := first\<rparr>) sb"
    using assms(1) unfolding ext4_inode_info_init_def Let_def old_def [symmetric] isize_def [symmetric] first_def [symmetric]
    by (auto simp: flags not_less split: if_splits)
  show "keeps_sizes sb sb'" by (simp add: keeps_sizes_def sb')
  show "11 \<le> s_first_ino (EXT4_SB sb')" using c(2) by (auto simp: sb' first_def flags)
  show "\<exists>j. 7 \<le> j \<and> j \<le> k \<and> unat (s_inode_size (EXT4_SB sb')) = 2 ^ j"
  proof (cases old)
    case True
    then show ?thesis using assms(3) by (intro exI [of _ 7]) (simp add: sb' isize_def flags)
  next
    case False
    then have f: "128 \<le> isize" "is_power_of_2 (ucast isize)" "ucast isize \<le> s_blocksize sb" using c(1) by auto
    have u: "unat (ucast isize :: u64) = unat isize" by simp
    obtain j where j: "unat isize = 2 ^ j" using pow2_word [OF f(2)] u by metis
    have "2 ^ 7 \<le> (2 :: nat) ^ j" "2 ^ j \<le> (2 :: nat) ^ k" using f(1,3) j assms(2) u by (simp_all add: word_le_nat_alt)
    then show ?thesis using pow2_between [of 7 j k] j by (intro exI [of _ j]) (simp add: sb')
  qed
qed

lemma feature_compat_keeps:
  assumes "ext4_check_feature_compatibility cu cq e2 e3 dd da ps sb = Inr sb'"
  shows "keeps_sizes sb sb'" "s_inode_size (EXT4_SB sb') = s_inode_size (EXT4_SB sb)"
    "\<not> ext4_has_unknown_ext4_incompat_features sb'" "\<not> sb_rdonly sb' \<Longrightarrow> \<not> ext4_has_unknown_ext4_ro_compat_features sb'"
proof -
  define sb1 where "sb1 = (if es_creator_os (SB_ES sb) = EXT4_OS_HURD then set_sbi (\<lambda>sbi. sbi\<lparr>s_mount_opt2 := s_mount_opt2 sbi OR EXT4_MOUNT2_HURD_COMPAT\<rparr>) sb else sb)"
  obtain ok sb2 where f: "ext4_feature_set_ok cu cq sb1 (sb_rdonly sb1) = (ok, sb2)" by fastforce
  have r: "ok" "sb' = sb2" using assms unfolding ext4_check_feature_compatibility_def Let_def sb1_def [symmetric] f by (auto split: if_splits)
  have k: "keeps_sizes sb sb1" "s_inode_size (EXT4_SB sb1) = s_inode_size (EXT4_SB sb)" by (simp_all add: keeps_sizes_def sb1_def)
  have "\<not> ext4_has_unknown_ext4_incompat_features sb2 \<and> (\<not> sb_rdonly sb2 \<longrightarrow> \<not> ext4_has_unknown_ext4_ro_compat_features sb2) \<and> keeps_sizes sb1 sb2 \<and>
      s_inode_size (EXT4_SB sb2) = s_inode_size (EXT4_SB sb1)"
    using f r(1) unfolding ext4_feature_set_ok_def
    by (auto simp: ext4_has_unknown_ext4_incompat_features_def ext4_has_unknown_ext4_ro_compat_features_def keeps_sizes_def EXT4_SB_def split: if_splits)
  then show "keeps_sizes sb sb'" "s_inode_size (EXT4_SB sb') = s_inode_size (EXT4_SB sb)"
    "\<not> ext4_has_unknown_ext4_incompat_features sb'" "\<not> sb_rdonly sb' \<Longrightarrow> \<not> ext4_has_unknown_ext4_ro_compat_features sb'"
    using k r(2) by (simp_all add: keeps_sizes_def)
qed

lemma group_meta_ok:
  assumes "ext4_block_group_meta_init sb = Inr sb'" "unat (s_blocksize sb) = 2 ^ k" "10 \<le> k" "k \<le> 16"
    and "unat (s_inode_size (EXT4_SB sb)) = 2 ^ j" "j \<le> k"
  defines "sbi \<equiv> EXT4_SB sb'"
  shows "keeps_sizes sb sb'" "\<exists>d. 5 \<le> d \<and> d \<le> 10 \<and> unat (s_desc_size sbi) = 2 ^ d \<and> unat (s_desc_per_block sbi) = 2 ^ (k - d) \<and>
      s_desc_per_block_bits sbi = k - d"
    "unat (s_inodes_per_block sbi) = 2 ^ (k - j)" "unat (s_inodes_per_group sbi) \<le> 8 * 2 ^ k" "2 ^ (k - j) \<le> unat (s_inodes_per_group sbi)"
    "unat (s_itb_per_group sbi) = unat (s_inodes_per_group sbi) div 2 ^ (k - j)" "0 < unat (s_blocks_per_group sbi)" "unat (s_blocks_per_group sbi) < 2 ^ 32"
    "s_inode_size sbi = s_inode_size (EXT4_SB sb)"
proof -
  define ds where "ds = (if ext4_has_feature_64bit sb then ucast (es_desc_size (SB_ES sb)) else EXT4_MIN_DESC_SIZE)"
  define bpg :: u64 where "bpg = ucast (es_blocks_per_group (SB_ES sb))"
  define ipg :: u64 where "ipg = ucast (es_inodes_per_group (SB_ES sb))"
  define ipb where "ipb = s_blocksize sb div ucast (s_inode_size (EXT4_SB sb))"
  have c: "ext4_has_feature_64bit sb \<longrightarrow> 64 \<le> ds \<and> ds \<le> 1024 \<and> is_power_of_2 ds" "ipb \<noteq> 0" "bpg \<noteq> 0" "ipb \<le> ipg" "ipg \<le> s_blocksize sb * 8"
    and sb': "sb' = set_sbi (\<lambda>sbi. sbi\<lparr>s_desc_size := ds, s_blocks_per_group := bpg, s_inodes_per_group := ipg, s_inodes_per_block := ipb,
                      s_itb_per_group := ipg div ipb, s_desc_per_block := s_blocksize sb div ds,
                      s_bitmap_maxbytes := ext4_max_bitmap_size (s_blocksize_bits sb) (ext4_has_feature_huge_file sb),
                      s_mount_state := es_state (SB_ES sb) AND NOT EXT4_FC_REPLAY, s_addr_per_block_bits := ilog2 (unat (s_blocksize sb div 4)),
                      s_desc_per_block_bits := ilog2 (unat (s_blocksize sb div ds))\<rparr>)
               (sb\<lparr>s_maxbytes := ext4_max_size (s_blocksize_bits sb) (ext4_has_feature_huge_file sb)\<rparr>)"
    using assms(1) unfolding ext4_block_group_meta_init_def Let_def ds_def [symmetric] bpg_def [symmetric] ipg_def [symmetric] ipb_def [symmetric]
    by (auto simp: EXT4_MIN_DESC_SIZE_64BIT_def EXT4_MAX_DESC_SIZE_def EXT4_MIN_BLOCK_SIZE_def not_less split: if_splits)
  have sbi: "s_desc_size sbi = ds" "s_blocks_per_group sbi = bpg" "s_inodes_per_group sbi = ipg" "s_inodes_per_block sbi = ipb"
    "s_itb_per_group sbi = ipg div ipb" "s_desc_per_block sbi = s_blocksize sb div ds" "s_inode_size sbi = s_inode_size (EXT4_SB sb)"
    "s_desc_per_block_bits sbi = ilog2 (unat (s_blocksize sb div ds))"
    by (simp_all add: sbi_def sb' EXT4_SB_def set_sbi_def)
  show "keeps_sizes sb sb'" by (simp add: keeps_sizes_def sb' EXT4_SB_def set_sbi_def)
  show "s_inode_size sbi = s_inode_size (EXT4_SB sb)" by (rule sbi(7))
  have p: "(2 :: nat) ^ k div 2 ^ i = 2 ^ (k - i)" if "i \<le> k" for i using that by (simp add: power_diff)
  show ib: "unat (s_inodes_per_block sbi) = 2 ^ (k - j)" using p [OF assms(6)] assms(2,5) by (simp add: sbi ipb_def unat_div)
  have "(2 :: nat) ^ k * 8 < 2 ^ 64" using power_increasing [OF assms(4), of "2 :: nat"] by simp
  then have "unat (s_blocksize sb * 8) = 8 * 2 ^ k" using assms(2) by (simp add: unat_word_ariths)
  then show "unat (s_inodes_per_group sbi) \<le> 8 * 2 ^ k" using c(5) by (simp add: sbi word_le_nat_alt)
  show "2 ^ (k - j) \<le> unat (s_inodes_per_group sbi)" using c(4) ib by (simp add: sbi word_le_nat_alt)
  show "unat (s_itb_per_group sbi) = unat (s_inodes_per_group sbi) div 2 ^ (k - j)" using ib by (simp add: sbi unat_div)
  show "0 < unat (s_blocks_per_group sbi)" using c(3) by (simp add: sbi unat_gt_0)
  show "unat (s_blocks_per_group sbi) < 2 ^ 32" using unsigned_less [of "es_blocks_per_group (SB_ES sb)"] by (simp add: sbi bpg_def)
  have "\<exists>d. 5 \<le> d \<and> d \<le> 10 \<and> unat ds = 2 ^ d"
  proof (cases "ext4_has_feature_64bit sb")
    case True
    then obtain d where d: "unat ds = 2 ^ d" using c(1) pow2_word by blast
    have "2 ^ 6 \<le> (2 :: nat) ^ d" "2 ^ d \<le> (2 :: nat) ^ 10" using c(1) True d by (simp_all add: word_le_nat_alt)
    then show ?thesis using pow2_between [of 6 d 10] d by (intro exI [of _ d]) simp
  qed (simp add: ds_def EXT4_MIN_DESC_SIZE_def, intro exI [of _ 5], simp)
  then obtain d where d: "5 \<le> d" "d \<le> 10" "unat ds = 2 ^ d" by blast
  then show "\<exists>d. 5 \<le> d \<and> d \<le> 10 \<and> unat (s_desc_size sbi) = 2 ^ d \<and> unat (s_desc_per_block sbi) = 2 ^ (k - d) \<and> s_desc_per_block_bits sbi = k - d"
    using p [of d] assms(2,3) by (intro exI [of _ d]) (simp add: sbi unat_div)
qed

lemma clustersize_ok:
  assumes "ext4_handle_clustersize sb = Inr sb'" "unat (s_blocksize sb) = 2 ^ (10 + k)" "k \<le> 6" "c \<le> 20"
    and "es_log_block_size (SB_ES sb) = of_nat k" "es_log_cluster_size (SB_ES sb) = of_nat c" "unat (s_blocks_per_group (EXT4_SB sb)) < 2 ^ 32"
  defines "sbi \<equiv> EXT4_SB sb'"
  shows "keeps_sizes sb sb'" "k \<le> c" "unat (s_cluster_bits sbi) = c - k" "unat (s_cluster_ratio sbi) = 2 ^ (c - k)"
    "unat (s_clusters_per_group sbi) \<le> 8 * 2 ^ (10 + k)" "unat (s_blocks_per_group sbi) = unat (s_clusters_per_group sbi) * 2 ^ (c - k)"
    "\<exists>f. sb' = set_sbi f sb \<and> s_blocks_per_group sbi = s_blocks_per_group (EXT4_SB sb) \<and> s_inodes_per_group sbi = s_inodes_per_group (EXT4_SB sb) \<and>
       s_desc_per_block sbi = s_desc_per_block (EXT4_SB sb) \<and> s_inode_size sbi = s_inode_size (EXT4_SB sb) \<and> s_desc_size sbi = s_desc_size (EXT4_SB sb) \<and>
       s_itb_per_group sbi = s_itb_per_group (EXT4_SB sb) \<and> s_inodes_per_block sbi = s_inodes_per_block (EXT4_SB sb) \<and>
       s_desc_per_block_bits sbi = s_desc_per_block_bits (EXT4_SB sb)"
proof -
  define cs where "cs = push_bit (unat (es_log_cluster_size (SB_ES sb))) (1024 :: u64)"
  define big where "big = ext4_has_feature_bigalloc sb"
  define cpg :: u64 where "cpg = (if big then ucast (es_clusters_per_group (SB_ES sb)) else s_blocks_per_group (EXT4_SB sb))"
  define cb where "cb = (if big then es_log_cluster_size (SB_ES sb) - es_log_block_size (SB_ES sb) else 0)"
  define opt where "opt = (if s_blocks_per_group (EXT4_SB sb) = scast (push_bit 3 (ucast cs :: u32)) then s_mount_opt2 (EXT4_SB sb) OR EXT4_MOUNT2_STD_GROUP_SIZE else s_mount_opt2 (EXT4_SB sb))"
  have u: "unat (of_nat k :: u32) = k" "unat (of_nat c :: u32) = c" using assms(3,4) by (simp_all add: unsigned_of_nat take_bit_nat_eq_self)
  have ucs: "unat cs = 2 ^ (10 + c)" unfolding cs_def assms(6) u using assms(4) by (rule unat_push_1024)
  have d: "if big then s_blocksize sb \<le> cs \<and> s_blocks_per_group (EXT4_SB sb) = cpg * (cs div s_blocksize sb) else cs = s_blocksize sb"
    and le: "cpg \<le> s_blocksize sb * 8"
    and sb': "sb' = set_sbi (\<lambda>sbi. sbi\<lparr>s_cluster_bits := cb, s_clusters_per_group := cpg, s_cluster_ratio := ucast (cs div s_blocksize sb), s_mount_opt2 := opt\<rparr>) sb"
    using assms(1) unfolding ext4_handle_clustersize_def Let_def cs_def [symmetric] big_def [symmetric]
    by (auto simp: not_less cpg_def cb_def opt_def set_sbi_def EXT4_SB_def split: if_splits)
  have sbi: "s_cluster_bits sbi = cb" "s_clusters_per_group sbi = cpg" "s_cluster_ratio sbi = ucast (cs div s_blocksize sb)"
    "s_blocks_per_group sbi = s_blocks_per_group (EXT4_SB sb)" by (simp_all add: sbi_def sb')
  show "keeps_sizes sb sb'" by (simp add: keeps_sizes_def sb')
  have "2 ^ (10 + k) \<le> (2 :: nat) ^ (10 + c)" using d assms(2) ucs by (cases big) (auto simp: word_le_nat_alt)
  then show kc: "k \<le> c" using power_increasing_iff [of "2 :: nat"] by auto
  show "unat (s_cluster_bits sbi) = c - k"
  proof (cases big)
    case True
    have "(of_nat k :: u32) \<le> of_nat c" using kc u by (simp add: word_le_nat_alt)
    then show ?thesis using True u by (simp add: sbi cb_def assms(5,6) unat_sub)
  next
    case False
    then have "(2 :: nat) ^ (10 + c) = 2 ^ (10 + k)" using d ucs assms(2) by simp
    then have "10 + c = 10 + k" by (rule power_inject_exp [of 2, THEN iffD1, rotated]) simp
    then show ?thesis using False by (simp add: sbi cb_def)
  qed
  have ratio: "unat (cs div s_blocksize sb) = 2 ^ (c - k)" using kc by (simp add: unat_div ucs assms(2) power_diff [symmetric])
  have c20: "c - k < 32" using assms(4) by simp
  show "unat (s_cluster_ratio sbi) = 2 ^ (c - k)"
    using c20 ratio by (simp add: sbi unsigned_ucast_eq take_bit_nat_eq_self)
  have bs8: "unat (s_blocksize sb * 8) = 8 * 2 ^ (10 + k)"
  proof -
    have "(2 :: nat) ^ (10 + k) \<le> 2 ^ 16" using assms(3) by (intro power_increasing) simp_all
    then show ?thesis using assms(2) by (simp add: unat_word_ariths)
  qed
  show cl: "unat (s_clusters_per_group sbi) \<le> 8 * 2 ^ (10 + k)" using le bs8 by (simp add: sbi word_le_nat_alt)
  show "unat (s_blocks_per_group sbi) = unat (s_clusters_per_group sbi) * 2 ^ (c - k)"
  proof (cases big)
    case True
    have "unat cpg * 2 ^ (c - k) < 2 ^ 64"
    proof -
      have "unat cpg < 2 ^ 32" using True unsigned_less [of "es_clusters_per_group (SB_ES sb)"] by (simp add: cpg_def)
      moreover have "(2 :: nat) ^ (c - k) < 2 ^ 32" using c20 by (intro power_strict_increasing) simp_all
      ultimately show ?thesis using mult_strict_mono [of "unat cpg" "2 ^ 32" "2 ^ (c - k)" "2 ^ 32"] by simp
    qed
    then show ?thesis using d True ratio by (simp add: sbi unat_word_ariths)
  next
    case False
    then have "(2 :: nat) ^ (10 + c) = 2 ^ (10 + k)" using d ucs assms(2) by simp
    then have "10 + c = 10 + k" by (rule power_inject_exp [of 2, THEN iffD1, rotated]) simp
    then show ?thesis using False by (simp add: sbi cpg_def)
  qed
  show "\<exists>f. sb' = set_sbi f sb \<and> s_blocks_per_group sbi = s_blocks_per_group (EXT4_SB sb) \<and> s_inodes_per_group sbi = s_inodes_per_group (EXT4_SB sb) \<and>
       s_desc_per_block sbi = s_desc_per_block (EXT4_SB sb) \<and> s_inode_size sbi = s_inode_size (EXT4_SB sb) \<and> s_desc_size sbi = s_desc_size (EXT4_SB sb) \<and>
       s_itb_per_group sbi = s_itb_per_group (EXT4_SB sb) \<and> s_inodes_per_block sbi = s_inodes_per_block (EXT4_SB sb) \<and>
       s_desc_per_block_bits sbi = s_desc_per_block_bits (EXT4_SB sb)"
    unfolding sbi_def sb' by (rule exI) (simp add: EXT4_SB_def set_sbi_def)
qed

lemma geometry_ok:
  assumes "ext4_check_geometry addressable dev_blocks sb = Inr sb'" "addressable_law addressable" "10 \<le> s_blocksize_bits sb"
    and "0 < unat (s_blocks_per_group (EXT4_SB sb))" "unat (s_blocks_per_group (EXT4_SB sb)) < 2 ^ 32" "0 < unat (EXT4_DESC_PER_BLOCK sb)"
    and "unat (s_inodes_per_group (EXT4_SB sb)) < 2 ^ 32" "unat (EXT4_DESC_PER_BLOCK sb) < 2 ^ 32"
  defines "sbi \<equiv> EXT4_SB sb'" and "tot \<equiv> unat (ext4_blocks_count (SB_ES sb))" and "first \<equiv> unat (es_first_data_block (SB_ES sb))"
  defines "bpg \<equiv> unat (s_blocks_per_group (EXT4_SB sb))"
  shows "\<exists>f. sb' = set_sbi f sb \<and> sbi = (EXT4_SB sb)\<lparr>s_groups_count := s_groups_count sbi, s_blockfile_groups := s_blockfile_groups sbi\<rparr>" "first < tot"
    "unat (s_groups_count sbi) = (tot - first + bpg - 1) div bpg"
    "unat (s_groups_count sbi) * unat (s_inodes_per_group (EXT4_SB sb)) = unat (es_inodes_count (SB_ES sb))"
proof -
  define g where "g = (ext4_blocks_count (SB_ES sb) - ucast (es_first_data_block (SB_ES sb)) + s_blocks_per_group (EXT4_SB sb) - 1) div s_blocks_per_group (EXT4_SB sb)"
  define bf where "bf = min (ucast g) (ucast (EXT4_MAX_BLOCK_FILE_PHYS div s_blocks_per_group (EXT4_SB sb)) :: u32)"
  have c: "addressable (s_blocksize_bits sb) (ext4_blocks_count (SB_ES sb)) = 0" "(ucast (es_first_data_block (SB_ES sb)) :: u64) < ext4_blocks_count (SB_ES sb)"
    "g \<le> 2 ^ 32 - EXT4_DESC_PER_BLOCK sb" "(ucast (ucast g :: u32) :: u64) * s_inodes_per_group (EXT4_SB sb) = ucast (es_inodes_count (SB_ES sb))"
    and sb': "sb' = set_sbi (\<lambda>sbi. sbi\<lparr>s_groups_count := ucast g, s_blockfile_groups := bf\<rparr>) sb"
    using assms(1) unfolding ext4_check_geometry_def Let_def g_def [symmetric] bf_def [symmetric] by (auto simp: not_less not_le split: if_splits)
  show "\<exists>f. sb' = set_sbi f sb \<and> sbi = (EXT4_SB sb)\<lparr>s_groups_count := s_groups_count sbi, s_blockfile_groups := s_blockfile_groups sbi\<rparr>"
    unfolding sbi_def sb' by (rule exI) (simp add: EXT4_SB_def set_sbi_def)
  show ft: "first < tot" using c(2) by (simp add: first_def tot_def word_less_nat_alt)
  have "tot \<le> 2 ^ (73 - s_blocksize_bits sb)" using c(1) assms(2) by (simp add: addressable_law_def tot_def)
  moreover have "(2 :: nat) ^ (73 - s_blocksize_bits sb) \<le> 2 ^ 63" using assms(3) by (intro power_increasing) simp_all
  ultimately have tb: "tot \<le> 2 ^ 63" by linarith
  have ug: "unat g = (tot - first + bpg - 1) div bpg"
  proof -
    have s: "unat (ext4_blocks_count (SB_ES sb) - ucast (es_first_data_block (SB_ES sb))) = tot - first"
      using c(2) by (simp add: unat_sub tot_def first_def)
    have "unat (ext4_blocks_count (SB_ES sb) - ucast (es_first_data_block (SB_ES sb)) + s_blocks_per_group (EXT4_SB sb)) = tot - first + bpg"
      using tb assms(5) s by (simp add: unat_word_ariths bpg_def)
    moreover have "ext4_blocks_count (SB_ES sb) - ucast (es_first_data_block (SB_ES sb)) + s_blocks_per_group (EXT4_SB sb) \<noteq> 0"
      using calculation ft by (metis add_is_0 unsigned_0 zero_less_diff less_irrefl)
    ultimately show ?thesis by (simp add: g_def unat_div unat_minus_one bpg_def)
  qed
  have "unat (2 ^ 32 - EXT4_DESC_PER_BLOCK sb) = 2 ^ 32 - unat (EXT4_DESC_PER_BLOCK sb)"
    using assms(8) by (subst unat_sub) (simp_all add: word_le_nat_alt)
  then have "unat g < 2 ^ 32" using c(3) assms(6) by (simp add: word_le_nat_alt)
  then have uc: "unat (ucast g :: u32) = unat g" by (simp add: unsigned_ucast_eq take_bit_nat_eq_self)
  show gc: "unat (s_groups_count sbi) = (tot - first + bpg - 1) div bpg" using uc ug by (simp add: sbi_def sb')
  have lt: "unat g * unat (s_inodes_per_group (EXT4_SB sb)) < 2 ^ 64"
    using mult_strict_mono [of "unat g" "2 ^ 32" "unat (s_inodes_per_group (EXT4_SB sb))" "2 ^ 32"] \<open>unat g < 2 ^ 32\<close> assms(7) by simp
  then show "unat (s_groups_count sbi) * unat (s_inodes_per_group (EXT4_SB sb)) = unat (es_inodes_count (SB_ES sb))"
    using arg_cong [OF c(4), of unat] uc by (simp add: unat_word_ariths sbi_def sb')
qed

section \<open>A geometry that the mount accepts\<close>

text \<open>
  What the rest of ext4 relies on: all sizes are powers of two in their ranges, a bitmap of one block has a bit for every cluster and
  for every inode of a group, blocks per group are whole clusters, every block of the file system is in a group, no group is
  empty, and the inodes are those of the groups.
\<close>

definition geometry_sound :: "super_block \<Rightarrow> bool" where
  "geometry_sound sb \<longleftrightarrow>
     (let sbi = EXT4_SB sb; tot = unat (ext4_blocks_count (s_es sbi)); first = unat (es_first_data_block (s_es sbi));
          bpg = unat (s_blocks_per_group sbi); groups = unat (s_groups_count sbi)
      in (\<exists>k j d c. 10 \<le> k \<and> k \<le> 16 \<and> unat (s_blocksize sb) = 2 ^ k \<and> s_blocksize_bits sb = k \<and>
            7 \<le> j \<and> j \<le> k \<and> unat (s_inode_size sbi) = 2 ^ j \<and> unat (s_inodes_per_block sbi) = 2 ^ (k - j) \<and>
            5 \<le> d \<and> d \<le> 10 \<and> unat (s_desc_size sbi) = 2 ^ d \<and> unat (s_desc_per_block sbi) = 2 ^ (k - d) \<and> s_desc_per_block_bits sbi = k - d \<and>
            unat (s_cluster_bits sbi) = c \<and> unat (s_cluster_ratio sbi) = 2 ^ c \<and> bpg = unat (s_clusters_per_group sbi) * 2 ^ c \<and>
            unat (s_clusters_per_group sbi) \<le> 8 * 2 ^ k \<and> unat (s_inodes_per_group sbi) \<le> 8 * 2 ^ k) \<and>
         0 < bpg \<and> first < tot \<and> tot \<le> 2 ^ 63 \<and> (\<forall>b. first \<le> b \<and> b < tot \<longrightarrow> (b - first) div bpg < groups) \<and> (groups - 1) * bpg < tot - first \<and>
         groups * unat (s_inodes_per_group sbi) = unat (es_inodes_count (s_es sbi)))"

lemma groups_cover:
  fixes bpg n g :: nat
  assumes "0 < bpg" "0 < n" "g = (n + bpg - 1) div bpg"
  shows "b < n \<Longrightarrow> b div bpg < g" "(g - 1) * bpg < n"
proof -
  have "n + bpg - 1 = g * bpg + (n + bpg - 1) mod bpg" using assms(3) by simp
  moreover have "(n + bpg - 1) mod bpg < bpg" using assms(1) by simp
  ultimately have a: "n \<le> g * bpg" using assms(1) by linarith
  then show "b div bpg < g" if "b < n" using that assms(1) by (simp add: div_less_iff_less_mult)
  have "g * bpg \<le> n + bpg - 1" using assms(3) by simp
  then show "(g - 1) * bpg < n" using assms(1,2) by (cases g) auto
qed

lemma total_bound:
  assumes "ext4_check_geometry addressable dev_blocks sb = Inr sb'" "addressable_law addressable" "10 \<le> s_blocksize_bits sb"
  shows "unat (ext4_blocks_count (SB_ES sb)) \<le> 2 ^ 63"
proof -
  have "addressable (s_blocksize_bits sb) (ext4_blocks_count (SB_ES sb)) = 0"
    using assms(1) unfolding ext4_check_geometry_def Let_def by (auto split: if_splits)
  then have "unat (ext4_blocks_count (SB_ES sb)) \<le> 2 ^ (73 - s_blocksize_bits sb)" using assms(2) by (simp add: addressable_law_def)
  moreover have "(2 :: nat) ^ (73 - s_blocksize_bits sb) \<le> 2 ^ 63" using assms(3) by (intro power_increasing) simp_all
  ultimately show ?thesis by linarith
qed

text \<open>The sizes, with the block size, the inode size, the descriptor size and the cluster ratio as powers of two.\<close>

definition group_sizes :: "nat \<Rightarrow> nat \<Rightarrow> nat \<Rightarrow> nat \<Rightarrow> super_block \<Rightarrow> bool" where
  "group_sizes k j d c sb \<longleftrightarrow>
     (let sbi = EXT4_SB sb; bpg = unat (s_blocks_per_group sbi)
      in 10 \<le> k \<and> k \<le> 16 \<and> unat (s_blocksize sb) = 2 ^ k \<and> s_blocksize_bits sb = k \<and>
         7 \<le> j \<and> j \<le> k \<and> unat (s_inode_size sbi) = 2 ^ j \<and> unat (s_inodes_per_block sbi) = 2 ^ (k - j) \<and>
         5 \<le> d \<and> d \<le> 10 \<and> unat (s_desc_size sbi) = 2 ^ d \<and> unat (s_desc_per_block sbi) = 2 ^ (k - d) \<and> s_desc_per_block_bits sbi = k - d \<and>
         unat (s_cluster_bits sbi) = c \<and> unat (s_cluster_ratio sbi) = 2 ^ c \<and> bpg = unat (s_clusters_per_group sbi) * 2 ^ c \<and>
         unat (s_clusters_per_group sbi) \<le> 8 * 2 ^ k \<and> unat (s_inodes_per_group sbi) \<le> 8 * 2 ^ k)"

lemma group_sizes_ok:
  assumes "ext4_block_group_meta_init sb = Inr sb3" "ext4_handle_clustersize sb3 = Inr sb4" "k \<le> 6" "c \<le> 20"
    and "es_log_block_size (SB_ES sb) = of_nat k" "es_log_cluster_size (SB_ES sb) = of_nat c"
    and "unat (s_blocksize sb) = 2 ^ (10 + k)" "s_blocksize_bits sb = 10 + k" "7 \<le> j" "j \<le> 10 + k" "unat (s_inode_size (EXT4_SB sb)) = 2 ^ j"
  shows "\<exists>d. group_sizes (10 + k) j d (c - k) sb4" "SB_ES sb4 = SB_ES sb" "0 < unat (s_blocks_per_group (EXT4_SB sb4))" "unat (s_blocks_per_group (EXT4_SB sb4)) < 2 ^ 32"
proof -
  have k16: "10 + k \<le> 16" using assms(3) by simp
  note 3 = group_meta_ok [OF assms(1,7) _ k16 assms(11,10)]
  then obtain d where d: "5 \<le> d" "d \<le> 10" "unat (s_desc_size (EXT4_SB sb3)) = 2 ^ d" "unat (s_desc_per_block (EXT4_SB sb3)) = 2 ^ (10 + k - d)"
    "s_desc_per_block_bits (EXT4_SB sb3) = 10 + k - d" by auto
  have z3: "SB_ES sb3 = SB_ES sb" "unat (s_blocksize sb3) = 2 ^ (10 + k)" "s_blocksize_bits sb3 = 10 + k"
    using 3(1) assms(7,8) by (simp_all add: keeps_sizes_def)
  have e3: "es_log_block_size (SB_ES sb3) = of_nat k" "es_log_cluster_size (SB_ES sb3) = of_nat c" "unat (s_blocks_per_group (EXT4_SB sb3)) < 2 ^ 32"
    using z3(1) assms(5,6) 3(8) by simp_all
  note 4 = clustersize_ok [OF assms(2) z3(2) assms(3,4) e3]
  have z4: "SB_ES sb4 = SB_ES sb" "unat (s_blocksize sb4) = 2 ^ (10 + k)" "s_blocksize_bits sb4 = 10 + k" using 4(1) z3 by (simp_all add: keeps_sizes_def)
  have f4: "s_blocks_per_group (EXT4_SB sb4) = s_blocks_per_group (EXT4_SB sb3)" "s_inodes_per_group (EXT4_SB sb4) = s_inodes_per_group (EXT4_SB sb3)"
    "s_desc_per_block (EXT4_SB sb4) = s_desc_per_block (EXT4_SB sb3)" "s_inode_size (EXT4_SB sb4) = s_inode_size (EXT4_SB sb3)"
    "s_desc_size (EXT4_SB sb4) = s_desc_size (EXT4_SB sb3)" "s_inodes_per_block (EXT4_SB sb4) = s_inodes_per_block (EXT4_SB sb3)"
    "s_desc_per_block_bits (EXT4_SB sb4) = s_desc_per_block_bits (EXT4_SB sb3)"
    using 4(7) by blast+
  show "SB_ES sb4 = SB_ES sb" by (rule z4)
  show "0 < unat (s_blocks_per_group (EXT4_SB sb4))" "unat (s_blocks_per_group (EXT4_SB sb4)) < 2 ^ 32" using f4(1) 3(7,8) by simp_all
  have "group_sizes (10 + k) j d (c - k) sb4"
    unfolding group_sizes_def Let_def using k16 z4(2,3) assms(9-11) 3(3,4,9) d 4(3-6) by (simp add: f4)
  then show "\<exists>d. group_sizes (10 + k) j d (c - k) sb4" ..
qed

lemma geometry_sizes_sound:
  assumes "ext4_check_geometry addressable dev_blocks sb4 = Inr sb" "addressable_law addressable" "group_sizes k j d c sb4"
    and "0 < unat (s_blocks_per_group (EXT4_SB sb4))" "unat (s_blocks_per_group (EXT4_SB sb4)) < 2 ^ 32"
  shows "geometry_sound sb" "SB_ES sb = SB_ES sb4"
proof -
  have k16: "10 \<le> k" "k \<le> 16" and gs: "unat (s_inodes_per_group (EXT4_SB sb4)) \<le> 8 * 2 ^ k" "unat (s_desc_per_block (EXT4_SB sb4)) = 2 ^ (k - d)"
    and b4: "10 \<le> s_blocksize_bits sb4" using assms(3) by (simp_all add: group_sizes_def Let_def)
  have "(8 :: nat) * 2 ^ k < 2 ^ 32" "(2 :: nat) ^ (k - d) < 2 ^ 32"
    using power_increasing [OF k16(2), of "2 :: nat"] power_strict_increasing [of "k - d" 32 "2 :: nat"] k16 by simp_all
  then have s4: "0 < unat (EXT4_DESC_PER_BLOCK sb4)" "unat (s_inodes_per_group (EXT4_SB sb4)) < 2 ^ 32" "unat (EXT4_DESC_PER_BLOCK sb4) < 2 ^ 32"
    using gs by simp_all
  note 5 = geometry_ok [OF assms(1,2) b4 assms(4,5) s4]
  obtain f where f: "sb = set_sbi f sb4" "EXT4_SB sb = (EXT4_SB sb4)\<lparr>s_groups_count := s_groups_count (EXT4_SB sb), s_blockfile_groups := s_blockfile_groups (EXT4_SB sb)\<rparr>"
    using 5(1) by blast
  have e: "SB_ES sb = SB_ES sb4" "s_blocks_per_group (EXT4_SB sb) = s_blocks_per_group (EXT4_SB sb4)" "s_inodes_per_group (EXT4_SB sb) = s_inodes_per_group (EXT4_SB sb4)"
    "s_desc_per_block (EXT4_SB sb) = s_desc_per_block (EXT4_SB sb4)" "s_inode_size (EXT4_SB sb) = s_inode_size (EXT4_SB sb4)"
    "s_desc_size (EXT4_SB sb) = s_desc_size (EXT4_SB sb4)" "s_inodes_per_block (EXT4_SB sb) = s_inodes_per_block (EXT4_SB sb4)"
    "s_cluster_bits (EXT4_SB sb) = s_cluster_bits (EXT4_SB sb4)" "s_cluster_ratio (EXT4_SB sb) = s_cluster_ratio (EXT4_SB sb4)"
    "s_clusters_per_group (EXT4_SB sb) = s_clusters_per_group (EXT4_SB sb4)" "s_desc_per_block_bits (EXT4_SB sb) = s_desc_per_block_bits (EXT4_SB sb4)"
    by (subst f(2), simp)+
  show "SB_ES sb = SB_ES sb4" by (rule e(1))
  have "s_blocksize sb = s_blocksize sb4" "s_blocksize_bits sb = s_blocksize_bits sb4" by (simp_all add: f(1))
  then have "group_sizes k j d c sb" using assms(3) by (simp only: group_sizes_def Let_def e)
  then have sizes: "\<exists>k j d c. group_sizes k j d c sb" by blast
  have bp: "0 < unat (s_blocks_per_group (EXT4_SB sb))" using assms(4) e(2) by simp
  have gc: "unat (s_groups_count (EXT4_SB sb)) =
      (unat (ext4_blocks_count (SB_ES sb)) - unat (es_first_data_block (SB_ES sb)) + unat (s_blocks_per_group (EXT4_SB sb)) - 1) div unat (s_blocks_per_group (EXT4_SB sb))"
    using 5(3) e(1,2) by simp
  have first: "unat (es_first_data_block (SB_ES sb)) < unat (ext4_blocks_count (SB_ES sb))" using 5(2) e(1) by simp
  have "unat (ext4_blocks_count (SB_ES sb)) \<le> 2 ^ 63" using total_bound [OF assms(1,2) b4] e(1) by simp
  moreover have "unat (s_groups_count (EXT4_SB sb)) * unat (s_inodes_per_group (EXT4_SB sb)) = unat (es_inodes_count (SB_ES sb))" using 5(4) e by simp
  ultimately show "geometry_sound sb"
    using sizes [unfolded group_sizes_def Let_def] bp first groups_cover [OF bp _ gc] unfolding geometry_sound_def Let_def by auto
qed

text \<open>
  C16 mount_geometry_ok: a superblock that passes \<open>ext4_load_super\<close>, \<open>ext4_inode_info_init\<close>, \<open>ext4_check_feature_compatibility\<close>,
  \<open>ext4_block_group_meta_init\<close>, \<open>ext4_handle_clustersize\<close> and \<open>ext4_check_geometry\<close> leaves a sound geometry and no incompatible feature that ext4 does not know, whatever is on the disk, provided the device gives the same
  bytes when the superblock is read again with its own block size.
\<close>

theorem mount_geometry_ok:
  assumes "mount_geometry E sb0 = Inr (sb, lsb)" "same_disk (me_bread E)" "addressable_law (me_addressable E)"
  shows "geometry_sound sb \<and> \<not> ext4_has_unknown_ext4_incompat_features sb"
proof -
  obtain sb1 sb2 sbf sb3 sb4 lsb1 we ex where s: "ext4_load_super (me_min_blocksize E) (me_bread E) (me_set_blocksize E) (me_sb_block E) sb0 = Inr (sb1, lsb1)"
    "ext4_inode_info_init (me_want_extra E) (me_min_extra E) sb1 = Inr (sb2, we, ex)" "ext4_block_group_meta_init sbf = Inr sb3" "ext4_handle_clustersize sb3 = Inr sb4"
    "ext4_check_geometry (me_addressable E) (me_dev_blocks E) sb4 = Inr sb"
    and sf: "ext4_check_feature_compatibility (me_unicode E) (me_quota E) (me_ext2 E) (me_ext3 E) (me_daxdev E) (me_dax_always E) (me_page_size E) sb2 = Inr sbf"
    using assms(1) unfolding mount_geometry_def by (auto split: sum.splits prod.splits)
  obtain k c where 1: "k \<le> 6" "c \<le> 20" "es_log_block_size (SB_ES sb1) = of_nat k" "es_log_cluster_size (SB_ES sb1) = of_nat c"
    "unat (s_blocksize sb1) = 2 ^ (10 + k)" "s_blocksize_bits sb1 = 10 + k" using load_super_ok [OF s(1) assms(2)] by blast
  note 2 = inode_info_ok [OF s(2) 1(5)] and ft = feature_compat_keeps [OF sf]
  then obtain j where j: "7 \<le> j" "j \<le> 10 + k" "unat (s_inode_size (EXT4_SB sbf)) = 2 ^ j" by auto
  have z: "SB_ES sbf = SB_ES sb1" "unat (s_blocksize sbf) = 2 ^ (10 + k)" "s_blocksize_bits sbf = 10 + k" using 2(1) ft(1) 1 by (simp_all add: keeps_sizes_def)
  note 3 = group_sizes_ok [OF s(3,4) 1(1,2) _ _ z(2,3) j, unfolded z(1), OF 1(3,4)]
  obtain d where "group_sizes (10 + k) j d (c - k) sb4" using 3(1) by blast
  then have "geometry_sound sb" "SB_ES sb = SB_ES sbf" using geometry_sizes_sound [OF s(5) assms(3) _ 3(3,4)] 3(2) z(1) by simp_all
  then show ?thesis using ft(3) by (simp add: ext4_has_unknown_ext4_incompat_features_def)
qed

text \<open>
  A file system of one group with 8192 blocks of 1024 bytes and 1024 inodes.
\<close>

definition demo_geometry :: ext4_super_block where
  "demo_geometry = demo_es\<lparr>es_inodes_count := 1024, es_blocks_count_lo := 8193, es_first_data_block := 1, es_log_block_size := 0, es_log_cluster_size := 0,
     es_blocks_per_group := 8192, es_clusters_per_group := 8192, es_inodes_per_group := 1024, es_rev_level := 1, es_first_ino := 11, es_inode_size := 256,
     es_feature_incompat := 0, es_feature_ro_compat := 0, es_reserved_gdt_blocks := 0\<rparr>"

definition demo_bread :: "u64 \<Rightarrow> u64 \<Rightarrow> u64 \<Rightarrow> int + (u16 \<times> ext4_super_block)" where
  "demo_bread bs b off = (if b * bs + off = 1024 then Inr (EXT4_SUPER_MAGIC, demo_geometry) else Inl (- EIO))"

definition demo_addressable :: "nat \<Rightarrow> u64 \<Rightarrow> int" where
  "demo_addressable bits n = (if unat n \<le> 2 ^ (73 - bits) then 0 else - 27)"

definition demo_mount :: mount_env where
  "demo_mount = \<lparr>me_min_blocksize = 1024, me_bread = demo_bread, me_set_blocksize = (\<lambda>_. True), me_sb_block = 1, me_want_extra = 32, me_min_extra = 32,
     me_unicode = False, me_quota = False, me_ext2 = False, me_ext3 = False, me_daxdev = False, me_dax_always = False, me_page_size = 4096,
     me_addressable = demo_addressable, me_dev_blocks = 0\<rparr>"

theorem mount_geometry_ok_witness:
  "\<exists>sb. mount_geometry demo_mount demo_sb = Inr (sb, 1) \<and> s_groups_count (EXT4_SB sb) = 1 \<and> geometry_sound sb"
proof -
  let ?f = "\<lambda>sbi. sbi\<lparr>s_inode_size := 256, s_first_ino := 11\<rparr>"
  let ?g = "\<lambda>sbi. sbi\<lparr>s_desc_size := 32, s_blocks_per_group := 8192, s_inodes_per_group := 1024, s_inodes_per_block := 4, s_itb_per_group := 256, s_desc_per_block := 32,
    s_bitmap_maxbytes := ext4_max_bitmap_size 10 False, s_mount_state := 0, s_addr_per_block_bits := ilog2 256, s_desc_per_block_bits := ilog2 32\<rparr>"
  let ?h = "\<lambda>sbi. sbi\<lparr>s_cluster_bits := 0, s_clusters_per_group := 8192, s_cluster_ratio := 1, s_mount_opt2 := EXT4_MOUNT2_STD_GROUP_SIZE\<rparr>"
  define sb1 where "sb1 = (upd_es (\<lambda>_. demo_geometry) demo_sb)\<lparr>s_blocksize := 1024, s_blocksize_bits := 10\<rparr>"
  define sb2 where "sb2 = set_sbi ?f sb1"
  define sb3 where "sb3 = set_sbi ?g (sb2\<lparr>s_maxbytes := ext4_max_size 10 False\<rparr>)"
  define sb4 where "sb4 = set_sbi ?h sb3"
  define sb where "sb = set_sbi (\<lambda>sbi. sbi\<lparr>s_groups_count := 1, s_blockfile_groups := 1\<rparr>) sb4"
  note E = EXT4_SB_def upd_es_def set_sbi_def demo_geometry_def demo_defs flags
  have 1: "ext4_load_super 1024 demo_bread (\<lambda>_. True) 1 demo_sb = Inr (sb1, 1)"
    by (simp add: ext4_load_super_def demo_bread_def mount_consts sb1_def demo_geometry_def)
  have 2: "ext4_inode_info_init 32 32 sb1 = Inr (sb2, Some 32, Some True)"
    by (simp add: ext4_inode_info_init_def Let_def sb2_def sb1_def E is_power_of_2_def ext4_has_feature_ro_compat_def)
  note feats = ext4_has_feature_incompat_def ext4_has_feature_ro_compat_def ext4_has_unknown_ext4_incompat_features_def
    ext4_has_unknown_ext4_ro_compat_features_def ext4_has_feature_casefold_def ext4_has_feature_readonly_def ext4_has_feature_bigalloc_def
    ext4_has_feature_quota_def ext4_has_feature_project_def
  have "ext4_feature_set_ok False False sb2 False = (True, sb2)"
    by (simp add: ext4_feature_set_ok_def sb2_def sb1_def E feats)
  moreover have "\<not> sb_rdonly sb2" "es_creator_os (SB_ES sb2) \<noteq> EXT4_OS_HURD" "\<not> ext4_has_feature_incompat EXT4_FEATURE_INCOMPAT_ENCRYPT sb2"
    by (simp_all add: sb2_def sb1_def E feats EXT4_OS_HURD_def)
  ultimately have f: "ext4_check_feature_compatibility False False False False False False 4096 sb2 = Inr sb2"
    by (simp add: ext4_check_feature_compatibility_def Let_def)
  have 3: "ext4_block_group_meta_init sb2 = Inr sb3"
    by (simp add: ext4_block_group_meta_init_def Let_def sb3_def sb2_def sb1_def E mount_consts ext4_has_feature_64bit_def ext4_has_feature_incompat_def
        ext4_has_feature_huge_file_def ext4_has_feature_ro_compat_def)
  have 4: "ext4_handle_clustersize sb3 = Inr sb4"
    by (simp add: ext4_handle_clustersize_def Let_def sb4_def sb3_def sb2_def sb1_def E ext4_has_feature_bigalloc_def ext4_has_feature_ro_compat_def)
  have 5: "ext4_check_geometry demo_addressable 0 sb4 = Inr sb"
    by (simp add: ext4_check_geometry_def Let_def sb_def sb4_def sb3_def sb2_def sb1_def E demo_addressable_def ext4_blocks_count_def
        ext4_read_incompat_64bit_val_def mount_consts not_le)
  have m: "mount_geometry demo_mount demo_sb = Inr (sb, 1)"
    by (simp add: mount_geometry_def demo_mount_def 1 2 f 3 4 5)
  have g: "s_groups_count (EXT4_SB sb) = 1" by (simp add: sb_def)
  have "same_disk demo_bread" by (auto simp: same_disk_def demo_bread_def split: if_splits)
  moreover have "addressable_law demo_addressable" by (simp add: addressable_law_def demo_addressable_def)
  ultimately show ?thesis using mount_geometry_ok [OF m] m g by (simp add: demo_mount_def)
qed

section \<open>Descriptors that the mount accepts\<close>

definition group_last :: "super_block \<Rightarrow> nat \<Rightarrow> u64 \<Rightarrow> u64" where
  "group_last sb i first_block =
     (if of_nat i = s_groups_count (EXT4_SB sb) - 1 \<or> ext4_has_feature_flex_bg sb then ext4_blocks_count (SB_ES sb) - 1
      else first_block + (EXT4_BLOCKS_PER_GROUP sb - 1))"

definition group_at :: "super_block \<Rightarrow> u64 \<Rightarrow> nat \<Rightarrow> u64" where
  "group_at sb fb j = fb + (if ext4_has_feature_flex_bg sb then 0 else of_nat j * EXT4_BLOCKS_PER_GROUP sb)"

lemma check_desc_step:
  "check_desc sb csum_ok sb_block lbg (gd # gds) i fb grp =
     (if desc_ok sb csum_ok sb_block lbg fb (group_last sb i fb) (of_nat i) gd
      then check_desc sb csum_ok sb_block lbg gds (Suc i) (if ext4_has_feature_flex_bg sb then fb else fb + EXT4_BLOCKS_PER_GROUP sb)
        (if grp = s_groups_count (EXT4_SB sb) \<and> bg_flags gd AND EXT4_BG_INODE_ZEROED = 0 then of_nat i else grp)
      else None)"
  by (simp add: Let_def group_last_def)

declare check_desc.simps(2) [simp del]

lemma check_desc_each:
  assumes "check_desc sb csum_ok sb_block lbg gds i fb grp = Some g" "j < length gds"
  shows "desc_ok sb csum_ok sb_block lbg (group_at sb fb j) (group_last sb (i + j) (group_at sb fb j)) (of_nat (i + j)) (gds ! j)"
  using assms
proof (induction gds arbitrary: i fb grp j)
  case (Cons gd gds)
  have d: "desc_ok sb csum_ok sb_block lbg fb (group_last sb i fb) (of_nat i) gd"
    and r: "\<exists>grp'. check_desc sb csum_ok sb_block lbg gds (Suc i) (if ext4_has_feature_flex_bg sb then fb else fb + EXT4_BLOCKS_PER_GROUP sb) grp' = Some g"
    using Cons.prems(1) by (auto simp: check_desc_step split: if_splits)
  show ?case
  proof (cases j)
    case 0
    then show ?thesis using d by (simp add: group_at_def)
  next
    case (Suc m)
    then have m: "m < length gds" using Cons.prems(2) by simp
    have f: "group_at sb (if ext4_has_feature_flex_bg sb then fb else fb + EXT4_BLOCKS_PER_GROUP sb) m = group_at sb fb j"
      using Suc by (simp add: group_at_def algebra_simps)
    from r obtain grp' where "check_desc sb csum_ok sb_block lbg gds (Suc i) (if ext4_has_feature_flex_bg sb then fb else fb + EXT4_BLOCKS_PER_GROUP sb) grp' = Some g"
      by blast
    from Cons.IH [OF this m] show ?thesis unfolding f using Suc by simp
  qed
qed simp

lemma span_ok_nat:
  assumes "span_ok False sb_block (sb_block + gdb) fb lb n b" "unat sb_block + unat gdb < 2 ^ 64" "0 < unat n"
  shows "unat fb \<le> unat b" "\<not> (unat sb_block \<le> unat b \<and> unat b \<le> unat sb_block + unat gdb)"
    "unat b + unat n \<le> 2 ^ 64 \<Longrightarrow> unat b + unat n \<le> Suc (unat lb)"
proof -
  have c: "b \<noteq> sb_block" "\<not> (sb_block + 1 \<le> b \<and> b \<le> sb_block + gdb)" "fb \<le> b" "b + n - 1 \<le> lb"
    using assms(1) by (auto simp: span_ok_def not_less split: if_splits)
  show "unat fb \<le> unat b" using c(3) by (simp add: word_le_nat_alt)
  have u: "unat (sb_block + gdb) = unat sb_block + unat gdb" using assms(2) by (simp add: unat_word_ariths)
  show "\<not> (unat sb_block \<le> unat b \<and> unat b \<le> unat sb_block + unat gdb)"
  proof
    assume a: "unat sb_block \<le> unat b \<and> unat b \<le> unat sb_block + unat gdb"
    then have "unat sb_block < unat b" using c(1) by (metis le_neq_implies_less word_unat_eq_iff)
    then have s1: "unat (sb_block + 1) = unat sb_block + 1" using unsigned_less [of b, where 'a = nat] by (simp add: unat_word_ariths)
    then have "sb_block + 1 \<le> b" using \<open>unat sb_block < unat b\<close> by (simp add: word_le_nat_alt)
    then show False using c(2) a u by (simp add: word_le_nat_alt)
  qed
  assume w: "unat b + unat n \<le> 2 ^ 64"
  have n1: "b + n - 1 = b + (n - 1)" by simp
  have "unat (n - 1) = unat n - 1" using assms(3) by (intro unat_minus_one) auto
  then have "unat (b + n - 1) = unat b + (unat n - 1)" unfolding n1 using w assms(3) by (simp add: unat_word_ariths)
  then show "unat b + unat n \<le> Suc (unat lb)" using c(4) assms(3) by (simp add: word_le_nat_alt)
qed

text \<open>The blocks in which the metadata of a group may be.\<close>

definition group_lo :: "super_block \<Rightarrow> nat \<Rightarrow> nat" where
  "group_lo sb i = unat (es_first_data_block (SB_ES sb)) + (if ext4_has_feature_flex_bg sb then 0 else i * unat (EXT4_BLOCKS_PER_GROUP sb))"

definition group_hi :: "super_block \<Rightarrow> nat \<Rightarrow> nat" where
  "group_hi sb i = (if Suc i = unat (s_groups_count (EXT4_SB sb)) \<or> ext4_has_feature_flex_bg sb then unat (ext4_blocks_count (SB_ES sb))
     else unat (es_first_data_block (SB_ES sb)) + Suc i * unat (EXT4_BLOCKS_PER_GROUP sb))"

lemma group_bounds:
  assumes "geometry_sound sb" "i < unat (s_groups_count (EXT4_SB sb))"
  defines "fb \<equiv> group_at sb (ucast (es_first_data_block (SB_ES sb))) i"
  shows "unat fb = group_lo sb i" "Suc (unat (group_last sb i fb)) = group_hi sb i" "group_hi sb i \<le> unat (ext4_blocks_count (SB_ES sb))"
proof -
  let ?bpg = "unat (EXT4_BLOCKS_PER_GROUP sb)" and ?first = "unat (es_first_data_block (SB_ES sb))" and ?tot = "unat (ext4_blocks_count (SB_ES sb))"
  let ?g = "unat (s_groups_count (EXT4_SB sb))"
  have G: "0 < ?bpg" "?first < ?tot" "?tot \<le> 2 ^ 63" "(?g - 1) * ?bpg < ?tot - ?first" using assms(1) by (simp_all add: geometry_sound_def Let_def)
  have ib: "i * ?bpg < ?tot - ?first" using G(4) assms(2) mult_le_mono1 [of i "?g - 1" ?bpg] by linarith
  have i64: "unat (of_nat i :: u64) = i" using assms(2) unsigned_less [of "s_groups_count (EXT4_SB sb)", where 'a = nat]
    by (simp add: unsigned_of_nat take_bit_nat_eq_self)
  have m: "unat (of_nat i * EXT4_BLOCKS_PER_GROUP sb) = i * ?bpg" using ib G(3) i64 by (simp add: unat_word_ariths)
  show f: "unat fb = group_lo sb i"
  proof (cases "ext4_has_feature_flex_bg sb")
    case False
    have "?first + i * ?bpg < 2 ^ 64" using ib G(2,3) by simp
    then show ?thesis using False m by (simp add: fb_def group_at_def group_lo_def unat_word_ariths)
  qed (simp add: fb_def group_at_def group_lo_def)
  have e: "(of_nat i = s_groups_count (EXT4_SB sb) - 1) = (Suc i = ?g)"
  proof -
    have i32: "unat (of_nat i :: u32) = i" using assms(2) unsigned_less [of "s_groups_count (EXT4_SB sb)", where 'a = nat]
      by (simp add: unsigned_of_nat take_bit_nat_eq_self)
    have "unat (s_groups_count (EXT4_SB sb) - 1) = ?g - 1" using assms(2) by (intro unat_minus_one) auto
    then show ?thesis using i32 assms(2) by (auto simp: word_unat_eq_iff)
  qed
  have nz: "ext4_blocks_count (SB_ES sb) \<noteq> 0" "EXT4_BLOCKS_PER_GROUP sb \<noteq> 0" using G by auto
  have "Suc (unat (group_last sb i fb)) = group_hi sb i \<and> group_hi sb i \<le> ?tot"
  proof (cases "Suc i = ?g \<or> ext4_has_feature_flex_bg sb")
    case True
    then show ?thesis using e nz G(2) by (auto simp: group_last_def group_hi_def unat_minus_one)
  next
    case False
    have s: "Suc i * ?bpg \<le> (?g - 1) * ?bpg" using False assms(2) by (intro mult_le_mono1) linarith
    then have le: "?first + Suc i * ?bpg < ?tot" using G(2,4) by linarith
    have "unat (EXT4_BLOCKS_PER_GROUP sb - 1) = ?bpg - 1" using nz(2) by (rule unat_minus_one)
    moreover have "unat fb = ?first + i * ?bpg" using f False by (simp add: group_lo_def)
    ultimately have "unat (fb + (EXT4_BLOCKS_PER_GROUP sb - 1)) = ?first + i * ?bpg + (?bpg - 1)"
      using le G(1,3) by (simp add: unat_word_ariths)
    then show ?thesis using False e le G(1) by (simp add: group_last_def group_hi_def)
  qed
  then show "Suc (unat (group_last sb i fb)) = group_hi sb i" "group_hi sb i \<le> ?tot" by simp_all
qed


text \<open>
  Result group_desc_init_checked: what \<open>ext4_group_desc_init\<close> hands on are descriptors of at most the groups of the file system that
  \<open>ext4_check_descriptors\<close> has accepted, with the sizes unchanged.
\<close>

lemma group_desc_init_checked:
  assumes "ext4_group_desc_init mem_ok bread has_super gdb csum_ok lsb sb = Inr (sb', gds, g)"
  shows "ext4_check_descriptors csum_ok gdb lsb gds sb' = Some g" "keeps_sizes sb sb'" "length gds \<le> unat (s_groups_count (EXT4_SB sb))"
proof -
  obtain n gs where "sb' = set_sbi (\<lambda>sbi. sbi\<lparr>s_gdb_count := n\<rparr>) sb" "gds = take (unat (s_groups_count (EXT4_SB sb))) gs"
    "ext4_check_descriptors csum_ok gdb lsb gds sb' = Some g"
    using assms unfolding ext4_group_desc_init_def Let_def by (auto split: if_splits sum.splits option.splits)
  then show "ext4_check_descriptors csum_ok gdb lsb gds sb' = Some g" "keeps_sizes sb sb'" "length gds \<le> unat (s_groups_count (EXT4_SB sb))"
    by (simp_all add: keeps_sizes_def)
qed

lemma check_desc_update:
  assumes "check_desc sb csum_ok sb_block lbg gds i fb grp = Some g" "j < length gds" "bg_flags gd = bg_flags (gds ! j)"
    and "desc_ok sb csum_ok sb_block lbg (group_at sb fb j) (group_last sb (i + j) (group_at sb fb j)) (of_nat (i + j)) gd"
  shows "check_desc sb csum_ok sb_block lbg (gds[j := gd]) i fb grp = Some g"
  using assms
proof (induction gds arbitrary: i fb grp j)
  case (Cons x gds)
  let ?fb = "if ext4_has_feature_flex_bg sb then fb else fb + EXT4_BLOCKS_PER_GROUP sb"
  let ?grp = "if grp = s_groups_count (EXT4_SB sb) \<and> bg_flags x AND EXT4_BG_INODE_ZEROED = 0 then of_nat i else grp"
  have x: "desc_ok sb csum_ok sb_block lbg fb (group_last sb i fb) (of_nat i) x" "check_desc sb csum_ok sb_block lbg gds (Suc i) ?fb ?grp = Some g"
    using Cons.prems(1) by (auto simp: check_desc_step split: if_splits)
  show ?case
  proof (cases j)
    case 0
    have "group_at sb fb 0 = fb" by (simp add: group_at_def)
    then show ?thesis using 0 Cons.prems(3,4) x(2) by (simp add: check_desc_step)
  next
    case (Suc m)
    have f: "group_at sb ?fb m = group_at sb fb j" using Suc by (simp add: group_at_def algebra_simps)
    have "check_desc sb csum_ok sb_block lbg (gds[m := gd]) (Suc i) ?fb ?grp = Some g"
      by (rule Cons.IH [OF x(2)]) (use Cons.prems Suc f in simp_all)
    then show ?thesis using Suc x(1) by (simp add: check_desc_step)
  qed
qed simp

text \<open>The last block number that 64 bits can hold, as the start of an inode table.\<close>

definition far_table :: "ext4_group_desc \<Rightarrow> ext4_group_desc" where
  "far_table gd = gd\<lparr>bg_inode_table_lo := - 1, bg_inode_table_hi := - 1\<rparr>"

lemma far_table_simps:
  "ext4_block_bitmap sb (far_table gd) = ext4_block_bitmap sb gd" "ext4_inode_bitmap sb (far_table gd) = ext4_inode_bitmap sb gd"
  "bg_flags (far_table gd) = bg_flags gd" "wide_desc sb \<Longrightarrow> ext4_inode_table sb (far_table gd) = - 1"
proof -
  show "wide_desc sb \<Longrightarrow> ext4_inode_table sb (far_table gd) = - 1"
    by (rule bit_word_eqI) (auto simp: ext4_inode_table_def far_table_def bit_simps)
qed (simp_all add: ext4_block_bitmap_def ext4_inode_bitmap_def far_table_def)

text \<open>
  C32 table_check_wraps: the end of the inode table is computed with 64 bits and wraps: in an image with flexible groups and wide descriptors that is
  accepted, the inode table of any group can be moved to the last block number there is, far outside the file system, and the descriptors
  (with the checksum to match) are still accepted.
\<close>

theorem table_check_wraps:
  assumes "ext4_check_descriptors csum_ok gdb sb_block gds sb = Some g" "i < length gds" "ext4_has_feature_flex_bg sb" "wide_desc sb"
    and "csum_ok (of_nat i) (far_table (gds ! i))" "2 \<le> unat (s_itb_per_group (EXT4_SB sb))"
    and "unat (s_itb_per_group (EXT4_SB sb)) \<le> unat (ext4_blocks_count (SB_ES sb))" "unat sb_block + unat gdb < 2 ^ 64 - 1"
  shows "ext4_check_descriptors csum_ok gdb sb_block (gds[i := far_table (gds ! i)]) sb = Some g \<and>
    unat (ext4_blocks_count (SB_ES sb)) \<le> unat (ext4_inode_table sb (far_table (gds ! i)))"
proof -
  let ?gd = "far_table (gds ! i)" and ?fb = "group_at sb (ucast (es_first_data_block (SB_ES sb))) i" and ?n = "s_itb_per_group (EXT4_SB sb)"
  note t = far_table_simps(4) [OF assms(4), of "gds ! i"]
  have d: "desc_ok sb csum_ok sb_block (sb_block + gdb) ?fb (group_last sb i ?fb) (of_nat i) (gds ! i)"
    using check_desc_each [OF assms(1) [unfolded ext4_check_descriptors_def] assms(2)] by simp
  have "unat (sb_block + gdb) = unat sb_block + unat gdb" using assms(8) by (simp add: unat_word_ariths)
  then have far: "sb_block \<noteq> - 1" "\<not> (- 1 \<le> sb_block + gdb)" using assms(8) by (auto simp: word_le_nat_alt unat_minus_1)
  have n2: "unat (?n - 2) = unat ?n - 2" using assms(6) by (subst unat_sub) (simp_all add: word_le_nat_alt)
  have last: "group_last sb i ?fb = ext4_blocks_count (SB_ES sb) - 1" using assms(3) by (simp add: group_last_def)
  have "unat (ext4_blocks_count (SB_ES sb) - 1) = unat (ext4_blocks_count (SB_ES sb)) - 1" using assms(6,7) by (intro unat_minus_one) auto
  then have "?n - 2 \<le> group_last sb i ?fb" using n2 assms(6,7) unfolding last by (simp add: word_le_nat_alt)
  then have "span_ok (sb_rdonly sb) sb_block (sb_block + gdb) ?fb (group_last sb i ?fb) ?n (- 1)"
    using far by (auto simp: span_ok_def)
  then have "desc_ok sb csum_ok sb_block (sb_block + gdb) ?fb (group_last sb i ?fb) (of_nat i) ?gd"
    using d assms(5) t by (auto simp: desc_ok_def Let_def far_table_simps(1,2) split: if_splits)
  then have "ext4_check_descriptors csum_ok gdb sb_block (gds[i := ?gd]) sb = Some g"
    unfolding ext4_check_descriptors_def
    by (intro check_desc_update [OF assms(1) [unfolded ext4_check_descriptors_def] assms(2) far_table_simps(3)]) simp
  moreover have "unat (ext4_blocks_count (SB_ES sb)) \<le> unat (- 1 :: u64)"
    using unsigned_less [of "ext4_blocks_count (SB_ES sb)", where 'a = nat] by (simp add: unat_minus_1)
  ultimately show ?thesis unfolding t by blast
qed

text \<open>One flexible group with wide descriptors.\<close>

definition demo_flex :: super_block where
  "demo_flex = demo_sb\<lparr>s_fs_info := demo_sbi\<lparr>s_desc_size := 64, s_itb_per_group := 2, s_groups_count := 1, s_blocks_per_group := 8192, s_desc_per_block := 16, s_desc_per_block_bits := 4,
     s_inodes_per_block := 4, s_inodes_per_group := 8, s_clusters_per_group := 8192,
     s_es := demo_es\<lparr>es_feature_incompat := 0x200, es_feature_ro_compat := 0, es_blocks_count_lo := 8192, es_first_data_block := 1, es_inodes_count := 8\<rparr>\<rparr>\<rparr>"

definition demo_flex_desc :: ext4_group_desc where
  "demo_flex_desc = demo_gdesc\<lparr>bg_block_bitmap_lo := 10, bg_inode_bitmap_lo := 11, bg_inode_table_lo := 12\<rparr>"

lemma demo_flex_accepted: "ext4_check_descriptors (\<lambda>_ _. True) 1 1 [demo_flex_desc] demo_flex = Some 0"
  by (simp add: ext4_check_descriptors_def check_desc.simps demo_flex_def demo_flex_desc_def Let_def desc_ok_def span_ok_def demo_defs EXT4_SB_def ext4_has_feature_flex_bg_def
      ext4_has_feature_incompat_def flags ext4_block_bitmap_def ext4_inode_bitmap_def ext4_inode_table_def EXT4_DESC_SIZE_def EXT4_MIN_DESC_SIZE_64BIT_def
      ext4_blocks_count_def ext4_read_incompat_64bit_val_def)

lemma demo_flex_facts: "ext4_has_feature_flex_bg demo_flex" "wide_desc demo_flex" "unat (s_itb_per_group (EXT4_SB demo_flex)) = 2"
  "unat (ext4_blocks_count (SB_ES demo_flex)) = 8192" "\<not> sb_rdonly demo_flex" "unat (s_groups_count (EXT4_SB demo_flex)) = 1"
  "unat (EXT4_BLOCKS_PER_GROUP demo_flex) = 8192" "unat (es_first_data_block (SB_ES demo_flex)) = 1" "unat (s_inodes_per_group (EXT4_SB demo_flex)) = 8"
  "unat (es_inodes_count (SB_ES demo_flex)) = 8" "unat (ext4_inode_table demo_flex demo_flex_desc) = 12"
  by (simp_all add: demo_flex_def demo_defs EXT4_SB_def ext4_has_feature_flex_bg_def ext4_has_feature_incompat_def flags EXT4_DESC_SIZE_def EXT4_MIN_DESC_SIZE_64BIT_def
      ext4_blocks_count_def ext4_read_incompat_64bit_val_def ext4_inode_table_def demo_flex_desc_def)

lemma demo_flex_sound: "geometry_sound demo_flex"
proof -
  have ex: "\<exists>k j d c. 10 \<le> k \<and> k \<le> 16 \<and> unat (s_blocksize demo_flex) = 2 ^ k \<and> s_blocksize_bits demo_flex = k \<and>
            7 \<le> j \<and> j \<le> k \<and> unat (s_inode_size (EXT4_SB demo_flex)) = 2 ^ j \<and> unat (s_inodes_per_block (EXT4_SB demo_flex)) = 2 ^ (k - j) \<and>
            5 \<le> d \<and> d \<le> 10 \<and> unat (s_desc_size (EXT4_SB demo_flex)) = 2 ^ d \<and> unat (s_desc_per_block (EXT4_SB demo_flex)) = 2 ^ (k - d) \<and> s_desc_per_block_bits (EXT4_SB demo_flex) = k - d \<and>
            unat (s_cluster_bits (EXT4_SB demo_flex)) = c \<and> unat (s_cluster_ratio (EXT4_SB demo_flex)) = 2 ^ c \<and>
            unat (s_blocks_per_group (EXT4_SB demo_flex)) = unat (s_clusters_per_group (EXT4_SB demo_flex)) * 2 ^ c \<and>
            unat (s_clusters_per_group (EXT4_SB demo_flex)) \<le> 8 * 2 ^ k \<and> unat (s_inodes_per_group (EXT4_SB demo_flex)) \<le> 8 * 2 ^ k"
    apply (rule exI [of _ 10], rule exI [of _ 8], rule exI [of _ 6], rule exI [of _ 0])
    by (simp add: demo_flex_def demo_defs EXT4_SB_def)
  show ?thesis unfolding geometry_sound_def Let_def by (rule conjI [OF ex]) (auto simp: demo_flex_facts)
qed


theorem table_check_wraps_witness:
  "ext4_check_descriptors (\<lambda>_ _. True) 1 1 [far_table demo_flex_desc] demo_flex = Some 0 \<and> 8192 \<le> unat (ext4_inode_table demo_flex (far_table demo_flex_desc))"
  using table_check_wraps [OF demo_flex_accepted, of 0] by (simp add: demo_flex_facts)

section \<open>The largest file\<close>

text \<open>The indirect blocks that \<open>n\<close> blocks of data need, with \<open>p\<close> pointers in a block.\<close>

definition indirect_blocks :: "int \<Rightarrow> int \<Rightarrow> int" where
  "indirect_blocks p n =
     (if n \<le> 12 then 0
      else if n \<le> 12 + p then 1
      else if n \<le> 12 + p + p * p then 2 + (n - 12 - p + p - 1) div p
      else (let m = n - 12 - p - p * p in 1 + (1 + p) + (1 + (m + p - 1) div p + (m + p * p - 1) div (p * p))))"

text \<open>
  Result bitmap_size_fits: for every block size, the number of blocks of the largest block-mapped file, as \<open>ext4_max_bitmap_size\<close> computes it, can be
  addressed, and together with its indirect blocks it does not exceed the number of blocks that the inode can count; no larger file than the
  blocks that can be addressed is allowed.
\<close>

theorem bitmap_size_fits:
  fixes huge :: bool
  assumes "10 \<le> bits" "bits \<le> 16"
  defines "p \<equiv> 2 ^ (bits - 2)" and "n \<equiv> ext4_max_bitmap_size bits huge div 2 ^ bits"
  shows "n + indirect_blocks p n \<le> (if huge then 2 ^ 48 - 1 else (2 ^ 32 - 1) div 2 ^ (bits - 9)) \<and> n \<le> 12 + p + p * p + p * p * p \<and>
    ext4_max_bitmap_size bits huge = n * 2 ^ bits"
proof -
  have "bits \<in> {10, 11, 12, 13, 14, 15, 16}" using assms(1,2) by auto
  then show ?thesis unfolding p_def n_def
    by (cases huge; elim insertE emptyE) (simp_all add: ext4_max_bitmap_size_def mount_consts MAX_LFS_FILESIZE_def indirect_blocks_def Let_def)
qed

theorem bitmap_size_fits_witness: "ext4_max_bitmap_size 12 False = 536346110 * 2 ^ 12"
proof -
  have "ext4_max_bitmap_size 12 False div 2 ^ 12 = 536346110" by (simp add: ext4_max_bitmap_size_def mount_consts MAX_LFS_FILESIZE_def Let_def)
  then show ?thesis using bitmap_size_fits [of 12 False] by simp
qed

text \<open>
  Result bitmap_size_not_largest: it is not the largest such number: with blocks of 4096 bytes and without huge files 512 more blocks would fit.
\<close>

theorem bitmap_size_not_largest:
  "let n = ext4_max_bitmap_size 12 False div 2 ^ 12 + 512 in n + indirect_blocks (2 ^ 10) n \<le> (2 ^ 32 - 1) div 2 ^ 3"
  by (simp add: ext4_max_bitmap_size_def mount_consts MAX_LFS_FILESIZE_def indirect_blocks_def Let_def)

lemma int_above_1:
  fixes w :: u32
  assumes "1 < sint w"
  shows "unat (scast w :: u64) = unat w" "2 \<le> unat w"
proof -
  have "\<not> bit w 31"
  proof
    assume "bit w 31"
    then have "sint w < 0" by (simp add: sint_uint bit_uint_iff)
    then show False using assms by simp
  qed
  then have "n < 31" if "bit w n" for n using that bit_imp_le_length [OF that] by (cases "n = 31") auto
  then have "take_bit 31 (uint w) = uint w" by (intro bit_eqI) (auto simp: bit_take_bit_iff bit_uint_iff)
  then have s: "sint w = uint w" using \<open>\<not> bit w 31\<close> by (simp add: sint_uint signed_take_bit_eq_if_positive bit_uint_iff)
  have "uint w = int (unat w)" by simp
  then have "1 < int (unat w)" using assms s by (simp only:)
  then show "2 \<le> unat w" by linarith
  have "(scast w :: u64) = ucast w" by (simp only: scast_eq s ucast_eq)
  then show "unat (scast w :: u64) = unat w" by (simp only: unat_up)
qed

text \<open>Result stripe_ok: the stripe that the allocator gets is 0 or a multiple of the cluster of at most one group, and never 1.\<close>

theorem stripe_ok:
  assumes "0 < s_cluster_ratio sbi"
  shows "mount_stripe sbi = 0 \<or> (2 \<le> mount_stripe sbi \<and> mount_stripe sbi \<le> s_blocks_per_group sbi \<and> mount_stripe sbi mod ucast (s_cluster_ratio sbi) = 0)"
proof -
  let ?s = "ext4_get_stripe_size sbi"
  have low: "unat (ucast r :: u32) \<le> unat r" for r :: u64 by (simp add: unsigned_ucast_eq take_bit_nat_less_eq_self)
  have int: "1 < sint (ucast r :: u32) \<Longrightarrow> 2 \<le> unat (scast (ucast r :: u32) :: u64) \<and> unat (scast (ucast r :: u32) :: u64) \<le> unat r" for r :: u64
    using int_above_1 [of "ucast r"] low [of r] by simp
  define r :: u64 where "r = (if s_stripe sbi \<noteq> 0 \<and> s_stripe sbi \<le> s_blocks_per_group sbi then s_stripe sbi
    else if ucast (es_raid_stripe_width (s_es sbi)) \<noteq> (0 :: u64) \<and> ucast (es_raid_stripe_width (s_es sbi)) \<le> s_blocks_per_group sbi then ucast (es_raid_stripe_width (s_es sbi))
    else if ucast (es_raid_stride (s_es sbi)) \<noteq> (0 :: u64) \<and> ucast (es_raid_stride (s_es sbi)) \<le> s_blocks_per_group sbi then ucast (es_raid_stride (s_es sbi)) else 0)"
  have "r \<le> s_blocks_per_group sbi" by (simp add: r_def)
  moreover have "?s = (if sint (ucast r :: u32) \<le> 1 then 0 else scast (ucast r :: u32))" by (simp only: ext4_get_stripe_size_def Let_def r_def)
  ultimately have s: "?s = 0 \<or> (2 \<le> ?s \<and> ?s \<le> s_blocks_per_group sbi)"
    using int [of r] by (auto simp: not_le word_le_nat_alt)
  show ?thesis
  proof (cases "s_cluster_ratio sbi > 1")
    case True
    then show ?thesis using s by (auto simp: mount_stripe_def Let_def word_gt_0)
  next
    case False
    then have "unat (s_cluster_ratio sbi) = 1" using assms by (simp add: word_less_nat_alt)
    then have "s_cluster_ratio sbi = 1" by (simp add: word_unat_eq_iff)
    then show ?thesis using s by (auto simp: mount_stripe_def Let_def)
  qed
qed

end
