(* ===== verification/Spec2Isabelle.thy ===== *)
theory Spec2Isabelle
  imports Evfs_Ioctl Ext4_Htree Ext4_Extinsert Ext4_Mount
begin

text \<open>
  Verification of eVFS, the low-level interface of a modified ext4 (Linux 6.8) through which a user-space file
  system manager allocates blocks and inodes by number, edits directory entries and moves the blocks of a file.

  \<^bold>\<open>The program.\<close> The entry point is \<open>ext4_ioctl_evfs\<close> (\<open>fs/ext4/evfs.c\<close>, requests in
  \<open>include/uapi/linux/evfs.h\<close>). It copies the request, calls one handler \<open>evfs_*\<close> and copies the result back. The block handlers
  work on the block bitmaps, the group descriptors (\<open>fs/ext4/ext4.h\<close>, \<open>fs/ext4/super.c\<close>) and the
  free-cluster counters; the inode handlers on the inode bitmaps, the descriptors, the link counts and a tracker of the inodes
  that eVFS has allocated (\<open>fs/ext4/evfs-bmt.c\<close>), which the directory entry handlers consult and update as well; these
  rest on the directory routines of \<open>fs/ext4/namei.c\<close>; the extent handlers rest on the extent tree of \<open>fs/ext4/extents.c\<close>.

  \<^bold>\<open>The theories, in the order of their imports.\<close>

  \<^item> \<open>Evfs_Base\<close>: machine integers, error numbers, the state monad with its weakest preconditions (collection \<open>wp\<close>),
    handlers that stay in a relation (\<open>stays\<close>, locale \<open>step_closed\<close>, collection \<open>stays_intros\<close>), words split in halves, byte
    strings, and the binary search \<open>bin_upper\<close> that both the extent tree and the directory index use.
  \<^item> \<open>Ext4_Sb\<close>, \<open>Ext4_Gdesc\<close>: the structures of \<open>ext4.h\<close> with the fields the code uses, feature tests, the accessors of
    \<open>super.c\<close> for counters stored in two halves (locale \<open>split_counter\<close>, interpreted on the seven accessor pairs), 64-bit
    superblock counts, time stamps and checksums.
  \<^item> \<open>Evfs_Bmt\<close>: the tracker. \<open>tracked\<close> is its abstract view, a set of numbers; the locale \<open>tracker\<close> is the contract of its
    three operations and is interpreted on the code. \<open>bw_step\<close> is the semantics of many threads in \<open>evfs_bit_wrapper\<close>.
  \<^item> \<open>Evfs_State\<close>: the state \<open>fs\<close> of the file system and the kernel around it; the locale \<open>fs_closed\<close> for relations
    between states that every handler step keeps, and the balance of locks, references and transactions.
  \<^item> \<open>Evfs_Block\<close>: \<open>evfs_block_alloc\<close>, \<open>evfs_block_free\<close>, \<open>evfs_fspace_iter\<close>; the locale \<open>block_pool\<close> is the contract of an
    allocator by number.
  \<^item> \<open>Evfs_Inode\<close>: \<open>evfs_inode_alloc\<close>, \<open>_free\<close>, \<open>_read\<close>, \<open>_iter\<close>, \<open>_track\<close>, \<open>_untrack\<close>, the link counts, and the small
    requests (version, greeting).
  \<^item> \<open>Ext4_Dirent\<close>, \<open>Ext4_Dirblock\<close>: one directory block as bytes (search, room, insertion, deletion), then checksum records,
    new directories and the hash index (sorting a split, probing, inserting an index entry).
  \<^item> \<open>Evfs_Dentry\<close>: \<open>evfs_dentry_add\<close>, \<open>_read\<close>, \<open>_delete\<close>, \<open>_update\<close> with \<open>__ext4_link\<close> and \<open>__ext4_unlink\<close>.
  \<^item> \<open>Ext4_Dirsplit\<close>: splitting a full leaf (\<open>dx_make_map\<close>, \<open>dx_move_dirents\<close>, \<open>dx_pack_dirents\<close>, \<open>do_split\<close>).
  \<^item> \<open>Ext4_Dir\<close>: a directory as a list of blocks: \<open>ext4_read_dirblock\<close>, \<open>ext4_append\<close>, \<open>ext4_find_entry\<close>, \<open>ext4_add_entry\<close>,
    \<open>ext4_delete_entry\<close>; the locale \<open>directory\<close> is the contract of a map from names to inode numbers and is interpreted on them.
  \<^item> \<open>Ext4_Htree\<close>: directories with an index: \<open>ext4_dx_find_entry\<close> with \<open>ext4_htree_next_block\<close>, \<open>make_indexed_dir\<close>, and
    \<open>ext4_dx_add_entry\<close> with the splits of leaves and index blocks and the level it adds. \<open>leaves\<close> is the abstract view of an index: the
    list of its leaves with the lowest hash of each.
  \<^item> \<open>Ext4_Extent\<close>: checking, reading and caching a node, the walk to a leaf, neighbours, merging, insertion into a leaf
    with room; the locale \<open>mapping_keeper\<close> is the contract of an operation that may reshape the list of extents but not the
    mapping it stands for, interpreted on merging here and on splitting in \<open>Evfs_Extent\<close>.
  \<^item> \<open>Evfs_Extent\<close>: \<open>ext4_split_extent_at\<close>, \<open>__evfs_extent_map\<close>, \<open>evfs_extent_move\<close>, \<open>evfs_extent_read\<close>.
  \<^item> \<open>Ext4_Exttree\<close>, \<open>Ext4_Extsplit\<close>, \<open>Ext4_Extinsert\<close>: the tree as a map from block numbers to nodes, and \<open>ext4_ext_insert_extent\<close> on it with
    all it calls: \<open>ext4_ext_insert_index\<close>, \<open>ext4_ext_split\<close>, \<open>ext4_ext_grow_indepth\<close>, \<open>ext4_ext_create_new_leaf\<close>,
    \<open>ext4_ext_correct_indexes\<close>, \<open>ext4_ext_try_to_merge_up\<close>. The first theory has the operations, the second what splitting and
    growing do to the tree, the third the insertion; \<open>etree_inv\<close> is the invariant, \<open>file_exts\<close> the list of extents of the file.
  \<^item> \<open>Ext4_Mount\<close>: the checks of a mount in \<open>super.c\<close>: \<open>ext4_load_super\<close>, \<open>ext4_inode_info_init\<close>,
    \<open>ext4_check_feature_compatibility\<close>, \<open>ext4_block_group_meta_init\<close>, \<open>ext4_handle_clustersize\<close>, \<open>ext4_check_geometry\<close>,
    \<open>ext4_group_desc_init\<close>, and the numbers derived from the geometry.
  \<^item> \<open>Evfs_Ioctl\<close>: the dispatcher with its copies to and from the caller.
  \<^item> \<open>Spec2Isabelle\<close>: runs of requests (\<open>evfs_run\<close>) and the properties that span the components.

  \<^bold>\<open>How the code is represented.\<close> A handler is a function in the state monad over \<open>fs\<close>; a \<open>goto\<close> to a label that releases
  something is a definition for the code behind the label. Integers of C are words of their width. Bitmaps are functions from
  group and offset to \<open>bool\<close>; a directory block is a list of bytes; an extent tree is a tree of nodes in \<open>Ext4_Extent\<close>, a map
  from block numbers to nodes where it is changed, and its list of extents in \<open>Evfs_Extent\<close>; \<open>find_extent_flat\<close> and \<open>inserted_found\<close> connect them. Results are the values the C functions return; a NULL or
  error-pointer dereference is the result \<open>None\<close>.

  Code outside the repository is the parameter \<open>kernel\<close>: each call of it is recorded in \<open>f_calls\<close> and answered by an
  arbitrary function of the history of calls, so that a theorem without a hypothesis on \<open>answer\<close> covers every failure at every
  call. What the properties need of it are named hypotheses: \<open>group_map_ok\<close> (block numbers and pairs of group and offset correspond),
  link counts changing by one, and calls that succeed where success is claimed. The accessors and
  sizes of \<open>ext4_extents.h\<close>, which the repository does not hold, are the parameter \<open>ext_ops\<close> with the laws \<open>ext_laws\<close>; the concrete
  accessors on which the witnesses evaluate show that the laws can hold; \<open>size_laws\<close> adds what the growth of a tree needs of the numbers of entries.
  A mount relies on a device that gives the same bytes at both reads of the superblock (\<open>same_disk\<close>) and on the bound that
  \<open>generic_check_addressable\<close> documents (\<open>addressable_law\<close>). Memory that the code copies out without having
  written it is the parameter \<open>junk\<close>.

  \<^bold>\<open>Loops.\<close> Loops over data are structural or have a measure (the comb sort of \<open>dx_sort_map\<close>, the binary search, the
  walk over records). Loops whose end depends on the kernel or on data from the disk are \<open>partial_function (option)\<close>; no fuel is used. That
  they return is proved: \<open>fspace_iter_first_run\<close>, \<open>inode_iter_first\<close>, \<open>extent_map_swaps\<close>, \<open>extent_move_ok\<close>,
  \<open>tree_insert_ok\<close> (the repeated attempt of \<open>ext4_ext_create_new_leaf\<close>),
  \<open>directory_refines_map\<close> (the ring of blocks that \<open>ext4_find_entry\<close> walks) and \<open>dx_find_entry_ok\<close> (the walk over the leaves of an
  index). The repeated probe of \<open>ext4_dx_add_entry\<close> is followed where it ends in a leaf with room; each growth of the index that makes it
  start again is a theorem of its own. The retry of \<open>ext4_link_internal\<close> goes on as long as the kernel answers that it should;
  what is proved of it holds for every outcome, and that it returns when the first attempt is not to be repeated is used in \<open>evfs_inode_lost\<close>.

  \<^bold>\<open>What is shown.\<close>

  \<^item> Allocation: the free counts of the descriptors equal the clear bits on every path; the block handlers implement a pool of free
    blocks; over any run of requests of all kinds a block given out is not given out again before it is freed; inodes are set, counted
    and tracked together, only tracked inodes are freed, allocation and freeing round-trip.
  \<^item> Concurrency: every interleaving of \<open>evfs_bit_wrapper\<close> is a sequence of atomic bit operations, no interleaving is longer than five
    steps for each thread, and some thread can move until all are done.
  \<^item> Directories: insertion, deletion and search in a block against its list of entries; any sequence of lookups, additions and
    deletions on a directory without an index answers like a map; the search through an index of any depth finds a name exactly if a
    leaf has it; splitting a leaf keeps the entries and the order of the index, turning a block into an index, splitting an index block
    and adding a level keep the entries or the leaves; reading and updating by position.
  \<^item> Extents: a checked node is well formed, the walk agrees with the flat list, insertion into the whole tree succeeds at every
    fill level, keeps the invariant and the other mappings, a file built by insertions is found again block by block, moving a mapped range exchanges
    exactly its blocks.
  \<^item> Mounting: what passes the checks has a sound geometry and known features; descriptors that are accepted lie inside the file system, up
    to a wrap-around in the test of the inode table; the size limit of block-mapped files fits the counters.
  \<^item> Resources: locks, references, transactions and buffers on every path of the block, extent and link handlers; what each
    command can change.
  \<^item> Behaviour that is not what the code means to do is stated as theorems of its own: an inode lost after add and delete, the
    directory left locked by a delete, updating a missing entry, blocks skipped behind a hole, the repeated
    first extent, the leaked buffer and the disclosed memory of the dispatcher, the boundary errors of the tracker, of the free-space iterator and
    of the unused tail of the inode table, bigalloc counts, extents
    lost when a split fails half way, the inode table that passes the check beyond the end of the file system, and others.

  \<^bold>\<open>Not modelled.\<close> Of \<open>extents.c\<close>: the searches to the left and right of a leaf, removal, conversion,
  \<open>fallocate\<close>, \<open>fiemap\<close>. Of \<open>namei.c\<close>: inline directories, encrypted and case-folded names, filling the tree for \<open>readdir\<close>, the VFS
  entry points other than link and unlink. The handlers of \<open>Evfs_Dentry\<close> call \<open>ext4_find_entry\<close>, \<open>ext4_add_entry\<close> and
  \<open>ext4_delete_entry\<close> as calls with an arbitrary answer, so that their properties hold for every directory; the three functions are
  modelled over a whole directory in \<open>Ext4_Dir\<close>. Of \<open>super.c\<close>: mount options, the journal, checksum drivers and encodings, quota, error reporting, which are input and output and glue around
  the handlers. Of \<open>ioctl.c\<close>: the other commands of ext4. The handlers are modelled one at a time: their locks are recorded and their
  balance is proved, but only the tracker has an interleaving semantics.

  \<^bold>\<open>What is left.\<close> The removal of extents and the conversion of unwritten ones would complete the extent tree; the commands of
  \<open>ioctl.c\<close> that have logic of their own (resize, fsmap) and an interleaving semantics of the handlers would come after it.
\<close>

unbundle bit_operations_syntax

section \<open>Runs of requests\<close>

text \<open>A run is a sequence of requests with their results, in the order in which they are served.\<close>

type_synonym evfs_event = "evfs_cmd \<times> u64 \<times> ioctl_result"

inductive evfs_run :: "kernel \<Rightarrow> ext_ops \<Rightarrow> junk \<Rightarrow> fs \<Rightarrow> evfs_event list \<Rightarrow> fs \<Rightarrow> bool" for K X J where
  run_none: "evfs_run K X J s [] s"
| run_request: "run_state (ext4_ioctl_evfs K X J cmd ino) s = (r, s1) \<Longrightarrow> evfs_run K X J s1 tr s2 \<Longrightarrow>
    evfs_run K X J s ((cmd, ino, r) # tr) s2"

inductive_simps evfs_run_Nil [simp]: "evfs_run K X J s [] s'"
inductive_simps evfs_run_Cons: "evfs_run K X J s (ev # tr) s'"

text \<open>The requests of a run ask for blocks of the data area only.\<close>

definition data_blocks_only :: "super_block \<Rightarrow> evfs_event list \<Rightarrow> bool" where
  "data_blocks_only sb tr = (\<forall>(cmd, ino, r) \<in> set tr.
     case cmd of EXT4_EVFS_BLK_ALLOC c \<Rightarrow> data_block sb c | EXT4_EVFS_BLK_FREE c \<Rightarrow> data_block sb c | _ \<Rightarrow> True)"

section \<open>Blocks stay with their owner\<close>

definition pool_rel :: "fs \<Rightarrow> fs \<Rightarrow> bool" where
  "pool_rel s s' \<longleftrightarrow> same_geometry (f_sb s) (f_sb s') \<and> f_bbitmap s' = f_bbitmap s"

interpretation pooling: fs_closed pool_rel
  by unfold_locales (auto simp: pool_rel_def intro: same_geometry_trans)

lemma pool_rel_same [simp]: "f_sb s' = f_sb s \<Longrightarrow> f_bbitmap s' = f_bbitmap s \<Longrightarrow> pool_rel s s'"
  by (simp add: pool_rel_def)

lemma pool_calls [stays_intros]:
  "stays pool_rel (call K c)" "stays pool_rel (void_call c)" "stays pool_rel (test_and_set_ibitmap g off)"
  by (simp_all add: stays_def)

lemma pool_inode_alloc: "stays pool_rel (evfs_inode_alloc K n)"
proof -
  have sbi: "pool_rel s (upd_sbi (\<lambda>sbi. sbi\<lparr>s_freeinodes_counter := s_freeinodes_counter sbi - 1\<rparr>) s)" for s
    by (simp add: pool_rel_def upd_sbi_def same_geometry_def EXT4_SB_def EXT4_DESC_SIZE_def)
  show ?thesis
    unfolding evfs_inode_alloc_def inode_alloc_body_def inode_alloc_claim_def inode_alloc_commit_def
      inode_alloc_fail_free_drop_def inode_alloc_fail_drop_def evfs_inode_track_def tracker_op_def
    by (intro stays_intros; simp add: sbi)
qed

text \<open>What one request does to the free blocks.\<close>

lemma ioctl_pool:
  assumes "group_map_ok K sb" "same_geometry sb (f_sb s)" "run_state (ext4_ioctl_evfs K X J cmd ino) s = (r, s')"
    and "case cmd of EXT4_EVFS_BLK_ALLOC c \<Rightarrow> data_block sb c | EXT4_EVFS_BLK_FREE c \<Rightarrow> data_block sb c | _ \<Rightarrow> True"
    and "b \<notin> free_blocks K s" "cmd \<noteq> EXT4_EVFS_BLK_FREE b"
  shows "same_geometry sb (f_sb s') \<and> b \<notin> free_blocks K s'"
proof -
  have keep: "same_geometry sb (f_sb s') \<and> b \<notin> free_blocks K s'" if "pool_rel s s'"
  proof -
    have g: "same_geometry (f_sb s) (f_sb s')" "f_bbitmap s' = f_bbitmap s" using that by (simp_all add: pool_rel_def)
    have "free_blocks K s' = free_blocks K s"
      using group_map_okD(3) [OF group_map_ok_geometry [OF assms(1,2)] g(1)] g(2) data_block_geometry [OF g(1)]
      by (simp add: free_blocks_def)
    then show ?thesis using assms(2,5) same_geometry_trans [OF assms(2) g(1)] by simp
  qed
  have split: "\<exists>v. run_state m s = (v, s') \<and> r = finish (Some v)"
    if "run_state (m \<bind> (\<lambda>v. ret (finish (Some v)))) s = (r, s')" for m :: "int handler"
    using that by (auto simp: run_state_bind_eq split: prod.splits)
  show ?thesis
  proof (cases "writes_alloc cmd")
    case False
    have "stays (keeps alloc_part) (ext4_ioctl_evfs K X J cmd ino)"
      by (rule ioctl_keeps) (use False in \<open>auto simp: ignores_defs alloc_part_def\<close>)
    then show ?thesis using staysD [OF _ assms(3)] by (intro keep) (fastforce simp: keeps_def alloc_part_def)
  next
    case True
    then consider (alloc) c where "cmd = EXT4_EVFS_BLK_ALLOC c" | (rel) c where "cmd = EXT4_EVFS_BLK_FREE c"
      | (ino) n where "cmd = EXT4_EVFS_INO_ALLOC n" by (cases cmd) (auto simp: writes_alloc_def)
    then show ?thesis
    proof cases
      case alloc
      then obtain v where "run_state (evfs_block_alloc K ino c) s = (v, s')"
        using assms(3) split [of "evfs_block_alloc K ino c"] by (auto simp: ext4_ioctl_evfs_def)
      then show ?thesis using ext4_blocks.alloc_law [of K sb s c ino v s'] assms alloc by auto
    next
      case rel
      then obtain v where "run_state (evfs_block_free K ino c) s = (v, s')"
        using assms(3) split [of "evfs_block_free K ino c"] by (auto simp: ext4_ioctl_evfs_def)
      then show ?thesis using ext4_blocks.release_law [of K sb s c ino v s'] assms rel by auto
    next
      case ino
      then obtain v where "run_state (evfs_inode_alloc K n) s = (v, s')"
        using assms(3) by (auto simp: ext4_ioctl_evfs_def run_state_bind_eq split: prod.splits)
      then show ?thesis using keep staysD [OF pool_inode_alloc] by blast
    qed
  qed
qed

lemma run_pool:
  assumes "evfs_run K X J s tr s'" "group_map_ok K sb" "same_geometry sb (f_sb s)" "data_blocks_only sb tr"
    and "b \<notin> free_blocks K s" "\<forall>(cmd, ino, r) \<in> set tr. cmd \<noteq> EXT4_EVFS_BLK_FREE b"
  shows "same_geometry sb (f_sb s') \<and> b \<notin> free_blocks K s'"
  using assms
proof (induction rule: evfs_run.induct)
  case (run_request cmd ino s r s1 tr s2)
  have "same_geometry sb (f_sb s1) \<and> b \<notin> free_blocks K s1"
    by (rule ioctl_pool [OF run_request.prems(1,2) run_request.hyps(1)])
      (use run_request.prems in \<open>auto simp: data_blocks_only_def\<close>)
  then show ?case using run_request by (auto simp: data_blocks_only_def)
qed simp



section \<open>Inodes that are lost\<close>

lemma wp_bind_fun: "wp (State_Monad.bind m f) Q = wp m (\<lambda>x. wp (f x) Q)"
  by (simp add: fun_eq_iff)

lemma wp_any: "(\<And>r s'. Q r s') \<Longrightarrow> wp m Q s"
  by (simp add: wp_def split: prod.splits)

lemma ioctl_finish:
  "wp (ext4_ioctl_evfs K X J (EXT4_EVFS_INO_ALLOC n) ino) Q s = wp (evfs_inode_alloc K n) (\<lambda>r. Q (finish r)) s"
  "wp (ext4_ioctl_evfs K X J (EXT4_EVFS_INO_FREE n) ino) Q s = wp (evfs_inode_free K n) (\<lambda>r. Q (finish r)) s"
  by (simp_all add: ext4_ioctl_evfs_def wp_fun)

lemma finish_0 [simp]: "finish r = Some (0, []) \<longleftrightarrow> r = Some 0"
  by (cases r) (auto simp: finish_def)

lemma ioctl_den_rule:
  assumes "Q (Some (- EFAULT, [])) (s\<lparr>f_calls := f_calls s @ [Copy_from_user]\<rparr>)"
  shows "wp (evfs_dentry_add K d n (name[254 := 0])) (\<lambda>r. Q (finish r)) (s\<lparr>f_calls := f_calls s @ [Copy_from_user]\<rparr>) \<Longrightarrow>
      wp (ext4_ioctl_evfs K X J (EXT4_EVFS_DEN_ADD d n name) ino) Q s"
    "wp (evfs_dentry_delete K d (name[254 := 0])) (\<lambda>r. Q (finish r)) (s\<lparr>f_calls := f_calls s @ [Copy_from_user]\<rparr>) \<Longrightarrow>
      wp (ext4_ioctl_evfs K X J (EXT4_EVFS_DEN_DELETE d name) ino) Q s"
  using assms by (simp_all add: ext4_ioctl_evfs_def from_user_def wp_fun EXT4_NAME_LEN_def)

text \<open>
  The stages of the life of inode \<open>n\<close>, with \<open>g\<close> and \<open>off\<close> the place of its bit and \<open>R\<close> the range of the tracker: eVFS has
  allocated it and it has \<open>k\<close> links; or it has one link and is not tracked any more.
\<close>

definition ino_owned :: "(nat \<Rightarrow> bool) \<Rightarrow> u64 \<Rightarrow> ext4_group_t \<Rightarrow> nat \<Rightarrow> u32 \<Rightarrow> fs \<Rightarrow> bool" where
  "ino_owned R n g off k s \<longleftrightarrow> (\<exists>t. live_tracker s t \<and> in_range t = R) \<and> f_ibitmap s g off \<and>
     i_nlink (f_inodes s n) = k \<and> plain_links s n"

definition ino_lost :: "(nat \<Rightarrow> bool) \<Rightarrow> u64 \<Rightarrow> ext4_group_t \<Rightarrow> nat \<Rightarrow> fs \<Rightarrow> bool" where
  "ino_lost R n g off s \<longleftrightarrow> (\<exists>t. live_tracker s t \<and> in_range t = R \<and> \<not> tracked t (unat n)) \<and> f_ibitmap s g off \<and>
     i_nlink (f_inodes s n) = 1"

lemma ino_stage_calls [simp]:
  "ino_owned R n g off k (s\<lparr>f_calls := cs\<rparr>) = ino_owned R n g off k s"
  by (simp add: ino_owned_def live_tracker_def)

lemma wp_guard: "(P \<Longrightarrow> wp m Q s) \<Longrightarrow> wp m (\<lambda>r s'. P \<longrightarrow> Q r s') s"
  by (cases P) (simp_all add: wp_any)

lemma ioctl_alloc_owned:
  assumes "kzalloc_ok K" "live_tracker s t" "in_range t (unat n)" "\<And>i. set_nlink K i 1 = i\<lparr>i_nlink := 1\<rparr>"
    and "g = ino_group (f_sb s) n" "off = unat (ino_offset (f_sb s) n)"
  shows "wp (ext4_ioctl_evfs K X J (EXT4_EVFS_INO_ALLOC n) ino) (\<lambda>a s'. a = Some (0, []) \<longrightarrow> ino_owned (in_range t) n g off 1 s') s"
  unfolding ioctl_finish
  by (rule wp_mono [OF inode_alloc_ok [OF assms(1-3)]])
    (auto simp: alloc_effect_def ino_owned_def Let_def assms(4-6) plain_links_def is_dx_def seed_new_inode_def init_new_inode_def)

lemma ioctl_add_owned:
  assumes "nlink_laws K" "\<And>cs. answer K cs (Mark_inode_dirty n) = 0" "ino_owned R n g off 1 s"
  shows "wp (ext4_ioctl_evfs K X J (EXT4_EVFS_DEN_ADD d n name) ino) (\<lambda>b s'. b = Some (0, []) \<longrightarrow> ino_owned R n g off 2 s') s"
proof -
  have "wp (evfs_dentry_add K d n nm) (\<lambda>r s'. r = Some 0 \<longrightarrow> ino_owned R n g off 2 s') s1" if "ino_owned R n g off 1 s1" for s1 nm
    using that
    by (auto intro!: wp_mono [OF dentry_add_effect [OF assms(1,2)]] simp: ino_owned_def link_effect_def live_tracker_def)
  then show ?thesis using assms(3) by (intro ioctl_den_rule(1)) simp_all
qed

lemma ioctl_delete_lost:
  assumes "kzalloc_ok K" "nlink_laws K" "\<And>cs. entry_inode K cs = n" "R (unat n)" "ino_owned R (ucast n) g off 2 s"
  shows "wp (ext4_ioctl_evfs K X J (EXT4_EVFS_DEN_DELETE d name) ino) (\<lambda>c s'. c = Some (0, []) \<longrightarrow> ino_lost R (ucast n) g off s') s"
proof -
  have "wp (evfs_dentry_delete K d nm) (\<lambda>r s'. r = Some 0 \<longrightarrow> ino_lost R (ucast n) g off s') s1"
    if o: "ino_owned R (ucast n) g off 2 s1" for s1 nm
  proof -
    obtain t where t: "live_tracker s1 t" "in_range t = R" using o by (auto simp: ino_owned_def)
    then have "in_range t (unat n)" using assms(4) by simp
    note e = dentry_delete_effect [OF assms(1,2) t(1) assms(3) this]
    show ?thesis by (rule wp_mono [OF e]) (use o t(2) in \<open>auto simp: unlink_effect_def ino_lost_def ino_owned_def\<close>)
  qed
  then show ?thesis using assms(5) by (intro ioctl_den_rule(2)) simp_all
qed

lemma ioctl_free_refuses:
  assumes "kzalloc_ok K" "R (unat n)" "ino_lost R n g off s"
  shows "wp (ext4_ioctl_evfs K X J (EXT4_EVFS_INO_FREE n) ino)
    (\<lambda>e s'. e \<noteq> Some (0, []) \<and> f_ibitmap s' g off \<and> i_nlink (f_inodes s' n) = 1) s"
proof -
  obtain t where t: "live_tracker s t" "in_range t = R" "\<not> tracked t (unat n)" using assms(3) by (auto simp: ino_lost_def)
  have "wp (evfs_inode_free K n) (\<lambda>_ s'. f_ibitmap s' = f_ibitmap s) s"
    using inode_free_keeps [of f_ibitmap K n] by (auto simp: stays_def keeps_def ignores_defs)
  moreover have "wp (evfs_inode_free K n) (free_effect K s t n) s"
    by (rule inode_free_effect [OF assms(1) t(1)]) (use t(2) assms(2) in simp)
  ultimately have "wp (evfs_inode_free K n) (\<lambda>r s'. f_ibitmap s' = f_ibitmap s \<and> free_effect K s t n r s') s"
    by (simp add: wp_conj)
  then show ?thesis unfolding ioctl_finish
    by (rule wp_mono) (use assms(3) t(3) in \<open>auto simp: free_effect_def ino_lost_def\<close>)
qed

text \<open>
  C30 evfs_inode_lost: allocate an inode, give it a name and delete the name again, each with success. The
  allocation has set a link count of one with no name, so that one link is left, while deleting the name has
  untracked the inode: \<open>EXT4_EVFS_INO_FREE\<close> refuses it from then on, and its bit in the inode bitmap stays set.
\<close>

theorem evfs_inode_lost:
  assumes "kzalloc_ok K" "nlink_laws K" "live_tracker s t" "in_range t (unat n)" "\<And>cs. entry_inode K cs = n"
    and "\<And>cs. answer K cs (Mark_inode_dirty (ucast n)) = 0" "\<And>i. set_nlink K i 1 = i\<lparr>i_nlink := 1\<rparr>"
    and "g = ino_group (f_sb s) (ucast n)" "off = unat (ino_offset (f_sb s) (ucast n))"
  shows "wp (do {
       a \<leftarrow> ext4_ioctl_evfs K X J (EXT4_EVFS_INO_ALLOC (ucast n)) ino;
       b \<leftarrow> ext4_ioctl_evfs K X J (EXT4_EVFS_DEN_ADD d (ucast n) name) ino;
       c \<leftarrow> ext4_ioctl_evfs K X J (EXT4_EVFS_DEN_DELETE d name) ino;
       e \<leftarrow> ext4_ioctl_evfs K X J (EXT4_EVFS_INO_FREE (ucast n)) ino;
       ret (a, b, c, e)
     }) (\<lambda>(a, b, c, e) s'. a = Some (0, []) \<and> b = Some (0, []) \<and> c = Some (0, []) \<longrightarrow>
       e \<noteq> Some (0, []) \<and> f_ibitmap s' g off \<and> i_nlink (f_inodes s' (ucast n)) = 1) s"
proof -
  let ?n = "ucast n :: u64" and ?R = "in_range t"
  let ?free = "ext4_ioctl_evfs K X J (EXT4_EVFS_INO_FREE ?n) ino" and ?del = "ext4_ioctl_evfs K X J (EXT4_EVFS_DEN_DELETE d name) ino"
    and ?add = "ext4_ioctl_evfs K X J (EXT4_EVFS_DEN_ADD d ?n name) ino"
  let ?Q = "\<lambda>(a, b, c, e) s'. a = Some (0, []) \<and> b = Some (0, []) \<and> c = Some (0, []) \<longrightarrow>
      e \<noteq> Some (0, []) \<and> f_ibitmap s' g off \<and> i_nlink (f_inodes s' ?n) = 1"
  have r: "?R (unat ?n)" using assms(4) by (simp add: unat_ucast_u64)
  have last: "wp ?free (\<lambda>e. ?Q (a, b, c, e)) s1"
    if "a = Some (0, []) \<and> b = Some (0, []) \<and> c = Some (0, []) \<longrightarrow> ino_lost ?R ?n g off s1" for a b c s1
    unfolding prod.case by (rule wp_guard, rule ioctl_free_refuses [where R = ?R]) (use assms(1) r that in auto)
  have third: "wp ?del (\<lambda>c. wp ?free (\<lambda>e. ?Q (a, b, c, e))) s1"
    if "a = Some (0, []) \<and> b = Some (0, []) \<longrightarrow> ino_owned ?R ?n g off 2 s1" for a b s1
    by (rule wp_mono [OF wp_guard [OF ioctl_delete_lost [where R = ?R, OF assms(1,2,5,4)]]], rule that [THEN mp], assumption, rule last) blast
  have second: "wp ?add (\<lambda>b. wp ?del (\<lambda>c. wp ?free (\<lambda>e. ?Q (a, b, c, e)))) s1"
    if "a = Some (0, []) \<longrightarrow> ino_owned ?R ?n g off 1 s1" for a s1
    by (rule wp_mono [OF wp_guard [OF ioctl_add_owned [OF assms(2,6)]]], rule that [THEN mp], assumption, rule third) blast
  have "wp (ext4_ioctl_evfs K X J (EXT4_EVFS_INO_ALLOC ?n) ino)
      (\<lambda>a. wp ?add (\<lambda>b. wp ?del (\<lambda>c. wp ?free (\<lambda>e. ?Q (a, b, c, e))))) s"
    by (rule wp_mono [OF ioctl_alloc_owned [OF assms(1,3) r assms(7-9)]]) (rule second)
  then show ?thesis by (simp add: wp_bind_fun wp_fun(1))
qed

text \<open>On the small file system the four requests are served, and the first three succeed.\<close>

lemma demo_add:
  assumes "S_ISDIR (i_mode (f_inodes s 2))" "live_tracker s t" "plain_links s 12"
  shows "wp (evfs_dentry_add demo_kernel 2 12 [97, 0])
    (\<lambda>r s'. r = Some 0 \<and> S_ISDIR (i_mode (f_inodes s' 2)) \<and> live_tracker s' t) s"
proof -
  have ans: "answer demo_kernel = demo_answer" by (simp add: demo_kernel_def)
  have nm: "0 < strlen [97, 0 :: u8]" "strlen [97, 0 :: u8] \<le> 255" by (simp_all add: strlen_def)
  have "wp (evfs_dentry_add demo_kernel 2 12 [97, 0]) (\<lambda>r s'. r = None \<or> (\<exists>err. r = Some err \<and> link_effect s 12 err s')) s"
    by (rule dentry_add_effect) (use assms(3) in \<open>simp_all add: nlink_laws_def demo_kernel_def demo_answer_def\<close>)
  then have "wp (evfs_dentry_add demo_kernel 2 12 [97, 0]) (\<lambda>r s'. (r = None \<or> (\<exists>err. r = Some err \<and> link_effect s 12 err s')) \<and>
      r = Some 0 \<and> Add_entry 2 (take (strlen [97, 0]) [97, 0]) 12 \<in> set (f_calls s')) s"
    using dentry_add_succeeds [OF ans assms(1) nm] by (simp add: wp_conj)
  then show ?thesis by (rule wp_mono) (use assms(1,2) in \<open>auto simp: link_effect_def live_tracker_def\<close>)
qed

lemma demo_delete:
  assumes "S_ISDIR (i_mode (f_inodes s 2))" "live_tracker s t" "in_range t 12"
  shows "wp (evfs_dentry_delete demo_kernel 2 nm) (\<lambda>r s'. r = Some 0) s"
  using assms
  by (auto simp: evfs_dentry_delete_def dentry_delete_child_def ext4_unlink_entry_def set_mctime_current_def set_ctime_current_def
      wp_fun demo_kernel_def demo_answer_def live_tracker_def kzalloc_ok_def intro!: untrack_nolock_rule)

lemma demo_requests:
  "wp (do {
       a \<leftarrow> ext4_ioctl_evfs demo_kernel demo_ops demo_junk (EXT4_EVFS_INO_ALLOC 12) 2;
       b \<leftarrow> ext4_ioctl_evfs demo_kernel demo_ops demo_junk (EXT4_EVFS_DEN_ADD 2 12 [97, 0]) 2;
       c \<leftarrow> ext4_ioctl_evfs demo_kernel demo_ops demo_junk (EXT4_EVFS_DEN_DELETE 2 [97, 0]) 2;
       e \<leftarrow> ext4_ioctl_evfs demo_kernel demo_ops demo_junk (EXT4_EVFS_INO_FREE 12) 2;
       ret (a, b, c, e)
     }) (\<lambda>(a, b, c, e) s'. a = Some (0, []) \<and> b = Some (0, []) \<and> c = Some (0, [])) demo_dir_fs"
proof -
  have ans: "answer demo_kernel = demo_answer" by (simp add: demo_kernel_def)
  have t: "live_tracker demo_dir_fs demo_tracker" using demo_tracker_laws(2) by (simp add: demo_dir_fs_def live_tracker_def)
  have bit: "\<not> f_ibitmap demo_dir_fs g b" for g b by (simp add: demo_dir_fs_def demo_fs_tracked_def demo_fs_def)
  have d: "S_ISDIR (i_mode (f_inodes demo_dir_fs 2))" by (simp add: demo_dir_fs_def S_ISDIR_def)
  have "wp (evfs_inode_alloc demo_kernel 12) (\<lambda>r s'. r = Some 0) demo_dir_fs"
    using inode_alloc_succeeds [OF ans t, of 12] demo_tracker_laws(3) demo_untracked bit by simp
  moreover have "wp (evfs_inode_alloc demo_kernel 12) (\<lambda>r s'. r \<noteq> None \<and> (r = Some 0 \<longrightarrow> alloc_effect demo_kernel demo_dir_fs demo_tracker 12 s')) demo_dir_fs"
    using inode_alloc_ok [OF demo_tracker_laws(1) t, of 12] demo_tracker_laws(3) by simp
  ultimately have "wp (evfs_inode_alloc demo_kernel 12) (\<lambda>r s'. r = Some 0 \<and>
      (r \<noteq> None \<and> (r = Some 0 \<longrightarrow> alloc_effect demo_kernel demo_dir_fs demo_tracker 12 s'))) demo_dir_fs"
    by (simp only: wp_conj simp_thms)
  then have alloc: "wp (evfs_inode_alloc demo_kernel 12) (\<lambda>r s'. r = Some 0 \<and> S_ISDIR (i_mode (f_inodes s' 2)) \<and>
      (\<exists>t. live_tracker s' t \<and> in_range t 12) \<and> plain_links s' 12) demo_dir_fs"
    by (rule wp_mono) (use d demo_tracker_laws(3) in \<open>auto simp: alloc_effect_def Let_def plain_links_def is_dx_def
      seed_new_inode_def init_new_inode_def\<close>)
  have third: "wp (ext4_ioctl_evfs demo_kernel demo_ops demo_junk (EXT4_EVFS_DEN_DELETE 2 [97, 0]) 2) (\<lambda>c s'. c = Some (0, [])) s"
    if "S_ISDIR (i_mode (f_inodes s 2))" "live_tracker s t" "in_range t 12" for s t
    using that demo_delete [of "s\<lparr>f_calls := f_calls s @ [Copy_from_user]\<rparr>" t "[97, 0]"]
    by (simp add: ext4_ioctl_evfs_def from_user_def wp_fun EXT4_NAME_LEN_def live_tracker_def ans demo_answer_def)
  have second: "wp (ext4_ioctl_evfs demo_kernel demo_ops demo_junk (EXT4_EVFS_DEN_ADD 2 12 [97, 0]) 2)
      (\<lambda>b s'. b = Some (0, []) \<and> S_ISDIR (i_mode (f_inodes s' 2)) \<and> live_tracker s' t) s"
    if "S_ISDIR (i_mode (f_inodes s 2))" "live_tracker s t" "plain_links s 12" for s t
    using that demo_add [of "s\<lparr>f_calls := f_calls s @ [Copy_from_user]\<rparr>" t]
    by (simp add: ext4_ioctl_evfs_def from_user_def wp_fun EXT4_NAME_LEN_def live_tracker_def ans demo_answer_def)
  have rest: "wp (ext4_ioctl_evfs demo_kernel demo_ops demo_junk (EXT4_EVFS_DEN_ADD 2 12 [97, 0]) 2)
      (\<lambda>b. wp (ext4_ioctl_evfs demo_kernel demo_ops demo_junk (EXT4_EVFS_DEN_DELETE 2 [97, 0]) 2)
        (\<lambda>c. wp (ext4_ioctl_evfs demo_kernel demo_ops demo_junk (EXT4_EVFS_INO_FREE 12) 2)
          (\<lambda>e s'. b = Some (0, []) \<and> c = Some (0, [])))) s"
    if "S_ISDIR (i_mode (f_inodes s 2))" "live_tracker s t" "plain_links s 12" "in_range t 12" for s t
    by (rule wp_mono [OF second [OF that(1-3)]], rule wp_mono [OF third], auto intro: that(4) wp_any)
  have "wp (evfs_inode_alloc demo_kernel 12) (\<lambda>a. wp (ext4_ioctl_evfs demo_kernel demo_ops demo_junk (EXT4_EVFS_DEN_ADD 2 12 [97, 0]) 2)
      (\<lambda>b. wp (ext4_ioctl_evfs demo_kernel demo_ops demo_junk (EXT4_EVFS_DEN_DELETE 2 [97, 0]) 2)
        (\<lambda>c. wp (ext4_ioctl_evfs demo_kernel demo_ops demo_junk (EXT4_EVFS_INO_FREE 12) 2)
          (\<lambda>e s'. a = Some 0 \<and> b = Some (0, []) \<and> c = Some (0, []))))) demo_dir_fs"
    by (rule wp_mono [OF alloc]) (use rest in auto)
  then show ?thesis by (simp add: wp_bind_fun wp_fun(1) ioctl_finish(1))
qed

theorem evfs_inode_lost_witness:
  "wp (do {
       a \<leftarrow> ext4_ioctl_evfs demo_kernel demo_ops demo_junk (EXT4_EVFS_INO_ALLOC 12) 2;
       b \<leftarrow> ext4_ioctl_evfs demo_kernel demo_ops demo_junk (EXT4_EVFS_DEN_ADD 2 12 [97, 0]) 2;
       c \<leftarrow> ext4_ioctl_evfs demo_kernel demo_ops demo_junk (EXT4_EVFS_DEN_DELETE 2 [97, 0]) 2;
       e \<leftarrow> ext4_ioctl_evfs demo_kernel demo_ops demo_junk (EXT4_EVFS_INO_FREE 12) 2;
       ret (a, b, c, e)
     }) (\<lambda>(a, b, c, e) s'. a = Some (0, []) \<and> b = Some (0, []) \<and> c = Some (0, []) \<and> e \<noteq> Some (0, [])) demo_dir_fs"
proof -
  have t: "live_tracker demo_dir_fs demo_tracker" using demo_tracker_laws(2) by (simp add: demo_dir_fs_def live_tracker_def)
  have n: "(ucast (12 :: u32) :: u64) = 12" by simp
  note h = evfs_inode_lost [OF demo_tracker_laws(1) _ t, of 12, OF _ _ _ _ _ refl refl, where X = demo_ops and J = demo_junk and ino = 2 and d = 2
    and name = "[97, 0]", unfolded n]
  let ?m = "do {
       a \<leftarrow> ext4_ioctl_evfs demo_kernel demo_ops demo_junk (EXT4_EVFS_INO_ALLOC 12) 2;
       b \<leftarrow> ext4_ioctl_evfs demo_kernel demo_ops demo_junk (EXT4_EVFS_DEN_ADD 2 12 [97, 0]) 2;
       c \<leftarrow> ext4_ioctl_evfs demo_kernel demo_ops demo_junk (EXT4_EVFS_DEN_DELETE 2 [97, 0]) 2;
       e \<leftarrow> ext4_ioctl_evfs demo_kernel demo_ops demo_junk (EXT4_EVFS_INO_FREE 12) 2;
       ret (a, b, c, e)
     }"
  have "wp ?m (\<lambda>(a, b, c, e) s'. a = Some (0, []) \<and> b = Some (0, []) \<and> c = Some (0, []) \<longrightarrow> e \<noteq> Some (0, [])) demo_dir_fs"
    by (rule wp_mono [OF h]) (use demo_tracker_laws(3) in \<open>auto simp: nlink_laws_def demo_kernel_def demo_answer_def\<close>)
  with demo_requests show ?thesis by (simp add: wp_def split: prod.splits)
qed

end
